(* ===== verification/Tess_Prelude.thy ===== *)
theory Tess_Prelude imports Main "HOL-Library.Word" begin

text \<open>
  Shared vocabulary of the development: the machine integer types of the C++ sources, the
  collections of simplification rules the component theories fill, and the generic lemmas on
  words, lists and options that more than one component uses.

  Conventions. \<open>std::uint64_t\<close> and \<open>std::size_t\<close> are \<open>64 word\<close>, \<open>std::uint32_t\<close> is
  \<open>32 word\<close>; \<open>std::int64_t\<close> is a \<open>64 word\<close> that is compared and read through
  \<^const>\<open>sint\<close>. A call that aborts the process (\<open>fail_fast\<close>, a failed \<open>TESS_ASSERT\<close>) or
  that would be undefined behaviour is the value \<^const>\<open>None\<close>.
\<close>

unbundle bit_operations_syntax

type_synonym u8 = "8 word"
type_synonym u32 = "32 word"
type_synonym u64 = "64 word"
type_synonym i64 = "64 word"

named_theorems shape_simps \<open>unfolding rules of the shape arithmetic\<close>
named_theorems u64_nat \<open>reading words as natural numbers, under no-wrap side conditions\<close>

subsection \<open>Signed comparison and the int64 range\<close>

definition i64_less :: "i64 \<Rightarrow> i64 \<Rightarrow> bool" where
  "i64_less a b \<longleftrightarrow> sint a < sint b"

definition i64_le :: "i64 \<Rightarrow> i64 \<Rightarrow> bool" where
  "i64_le a b \<longleftrightarrow> sint a \<le> sint b"

definition i64_max :: i64 where
  "i64_max = 0x7fffffffffffffff"

definition u64_max :: u64 where
  "u64_max = 0xffffffffffffffff"

lemma unat_u64_max [simp]: "unat u64_max = 2 ^ 64 - 1"
  by (simp add: u64_max_def)

lemma sint_i64_max [simp]: "sint i64_max = 2 ^ 63 - 1"
  by (simp add: i64_max_def)

lemma u64_less [simp]: "unat (x :: u64) < 2 ^ 64"
  using unsigned_less [of x] by simp

lemma u64_less_num: "unat (x :: u64) < 18446744073709551616"
  using unsigned_less [of x] by simp

lemma i64_bounds: "- (2 ^ 63) \<le> sint (x :: i64)" "sint (x :: i64) < 2 ^ 63"
  using sint_range_size [of x] by (simp_all add: word_size)

lemma uint_eq_sint_mod: "int (unat (x :: i64)) = sint x mod 2 ^ 64"
  by (simp add: uint_sint take_bit_eq_mod)

lemma sint_nonneg_unat: "0 \<le> sint (x :: i64) \<Longrightarrow> sint x = int (unat x)"
  using i64_bounds [of x] by (simp only: uint_eq_sint_mod) (simp add: mod_pos_pos_trivial)

lemma sint_neg_unat: "sint (x :: i64) < 0 \<Longrightarrow> sint x = int (unat x) - 2 ^ 64"
proof -
  assume neg: "sint x < 0"
  have "sint x mod 2 ^ 64 = (sint x + 2 ^ 64) mod 2 ^ 64" by simp
  also have "\<dots> = sint x + 2 ^ 64"
    using neg i64_bounds [of x] by (intro mod_pos_pos_trivial) auto
  finally show ?thesis by (simp only: uint_eq_sint_mod)
qed

lemma sint_nonneg_iff: "0 \<le> sint (x :: i64) \<longleftrightarrow> unat x < 2 ^ 63"
proof (cases "0 \<le> sint x")
  case True
  have "int (unat x) < int (2 ^ 63)"
    using sint_nonneg_unat [OF True] i64_bounds(2) [of x] by simp
  then have "unat x < 2 ^ 63" by (simp only: of_nat_less_iff)
  with True show ?thesis by simp
next
  case False
  have "int (2 ^ 63) \<le> int (unat x)"
    using sint_neg_unat [of x] False i64_bounds(1) [of x] by simp
  then have "2 ^ 63 \<le> unat x" by (simp only: of_nat_le_iff)
  with False show ?thesis by simp
qed

lemma sint_word_of_small: "unat (x :: i64) < 2 ^ 63 \<Longrightarrow> sint x = int (unat x)"
  by (simp only: sint_nonneg_unat sint_nonneg_iff)

subsection \<open>Word arithmetic as natural number arithmetic\<close>

lemma unat_add_u64 [u64_nat]:
  "unat a + unat b < 2 ^ 64 \<Longrightarrow> unat (a + b :: u64) = unat a + unat b"
  by (simp add: unat_word_ariths)

lemma unat_add_carry_u64 [u64_nat]:
  "2 ^ 64 \<le> unat a + unat b \<Longrightarrow> unat (a + b :: u64) = unat a + unat b - 2 ^ 64"
  by (simp add: unat_plus_if')

lemma unat_mult_u64 [u64_nat]:
  "unat a * unat b < 2 ^ 64 \<Longrightarrow> unat (a * b :: u64) = unat a * unat b"
  by (simp add: unat_word_ariths)

lemma unat_sub_u64 [u64_nat]:
  "unat b \<le> unat a \<Longrightarrow> unat (a - b :: u64) = unat a - unat b"
  by (simp add: unat_sub word_le_nat_alt)

lemma unat_div_u64 [u64_nat]: "unat (a div b :: u64) = unat a div unat b"
  by (rule unat_div)

lemma unat_mod_u64 [u64_nat]: "unat (a mod b :: u64) = unat a mod unat b"
  by (rule unat_mod)

lemma unat_and_mask: "unat ((x :: 'a :: len word) AND mask n) = unat x mod 2 ^ n"
  by (simp only: take_bit_eq_mask [symmetric] unsigned_take_bit_eq take_bit_eq_mod [where a = "unat x"])

lemma unat_shr: "unat (drop_bit n (x :: 'a :: len word)) = unat x div 2 ^ n"
  by (simp only: unat_drop_bit_eq drop_bit_eq_div [where a = "unat x"])

lemma unat_shl: "unat (push_bit n (x :: 'a :: len word)) = (unat x * 2 ^ n) mod 2 ^ LENGTH('a)"
  by (simp only: unsigned_push_bit_eq take_bit_eq_mod push_bit_eq_mult [where a = "unat x"])

lemma u64_eq_nat: "(a :: u64) = b \<longleftrightarrow> unat a = unat b"
  by (metis unsigned_word_eqI)

lemma u64_le_nat: "(a :: u64) \<le> b \<longleftrightarrow> unat a \<le> unat b"
  by (rule word_le_nat_alt)

lemma u64_less_nat: "(a :: u64) < b \<longleftrightarrow> unat a < unat b"
  by (rule word_less_nat_alt)

subsection \<open>Checked list access\<close>

text \<open>Indexing that is undefined behaviour outside the container is the value \<^const>\<open>None\<close>.\<close>

definition nth_opt :: "'a list \<Rightarrow> nat \<Rightarrow> 'a option" where
  "nth_opt xs i = (if i < length xs then Some (xs ! i) else None)"

definition upd_opt :: "'a list \<Rightarrow> nat \<Rightarrow> 'a \<Rightarrow> 'a list option" where
  "upd_opt xs i x = (if i < length xs then Some (xs[i := x]) else None)"

lemma nth_opt_Some [simp]: "nth_opt xs i = Some x \<longleftrightarrow> i < length xs \<and> xs ! i = x"
  by (simp add: nth_opt_def)

lemma nth_opt_None [simp]: "nth_opt xs i = None \<longleftrightarrow> length xs \<le> i"
  by (simp add: nth_opt_def not_less)

lemma nth_opt_in: "i < length xs \<Longrightarrow> nth_opt xs i = Some (xs ! i)"
  by simp

lemma upd_opt_Some [simp]: "upd_opt xs i x = Some ys \<longleftrightarrow> i < length xs \<and> ys = xs[i := x]"
  by (auto simp: upd_opt_def)

lemma upd_opt_None [simp]: "upd_opt xs i x = None \<longleftrightarrow> length xs \<le> i"
  by (simp add: upd_opt_def not_less)

subsection \<open>Loops that may abort\<close>

primrec fold_opt :: "('a \<Rightarrow> 's \<Rightarrow> 's option) \<Rightarrow> 'a list \<Rightarrow> 's \<Rightarrow> 's option" where
  "fold_opt f [] s = Some s"
| "fold_opt f (x # xs) s = Option.bind (f x s) (fold_opt f xs)"

lemma fold_opt_append:
  "fold_opt f (xs @ ys) s = Option.bind (fold_opt f xs s) (fold_opt f ys)"
proof (induction xs arbitrary: s)
  case (Cons x xs)
  then show ?case by (cases "f x s") simp_all
qed simp

lemma fold_opt_inv:
  assumes "fold_opt f xs s = Some s'" "P s"
    and "\<And>x s s'. x \<in> set xs \<Longrightarrow> P s \<Longrightarrow> f x s = Some s' \<Longrightarrow> P s'"
  shows "P s'"
  using assms by (induction xs arbitrary: s) (auto simp: bind_eq_Some_conv)

subsection \<open>Counting loops over int64\<close>

definition i64_range :: "i64 \<Rightarrow> i64 \<Rightarrow> i64 list" where
  "i64_range b e = map (\<lambda>i. b + of_nat i) [0..<nat (sint e - sint b)]"

lemma sint_range_step:
  fixes b e :: i64
  assumes "i < nat (sint e - sint b)"
  shows "sint (b + of_nat i :: i64) = sint b + int i"
proof -
  have lt: "- (2 ^ 63) \<le> sint b + int i" "sint b + int i < 2 ^ 63"
    using assms i64_bounds(1) [of b] i64_bounds(2) [of e] by linarith+
  have "b + of_nat i = word_of_int (sint b + int i)" by simp
  then show ?thesis
    using lt by (simp only: signed_of_int) (simp add: signed_take_bit_int_eq_self)
qed

lemma i64_eqI: "sint (a :: i64) = sint b \<Longrightarrow> a = b"
  by (rule signed_word_eqI)

lemma set_i64_range: "x \<in> set (i64_range b e) \<longleftrightarrow> sint b \<le> sint x \<and> sint x < sint e"
proof
  assume "x \<in> set (i64_range b e)"
  then obtain i where i: "i < nat (sint e - sint b)" "x = b + of_nat i" by (auto simp: i64_range_def)
  then show "sint b \<le> sint x \<and> sint x < sint e" using sint_range_step [OF i(1)] by simp
next
  assume x: "sint b \<le> sint x \<and> sint x < sint e"
  define i where "i = nat (sint x - sint b)"
  have i: "i < nat (sint e - sint b)" "sint b + int i = sint x" using x by (simp_all add: i_def)
  then have "x = b + of_nat i" by (intro i64_eqI) (simp add: sint_range_step [OF i(1)])
  with i(1) show "x \<in> set (i64_range b e)" by (auto simp: i64_range_def)
qed

lemma distinct_i64_range: "distinct (i64_range b e)"
  unfolding i64_range_def distinct_map
proof (intro conjI inj_onI distinct_upt)
  fix i j assume i: "i \<in> set [0..<nat (sint e - sint b)]" and j: "j \<in> set [0..<nat (sint e - sint b)]"
    and eq: "b + of_nat i = b + of_nat j"
  have "sint b + int i = sint (b + of_nat i)" "sint (b + of_nat j) = sint b + int j"
    using sint_range_step i j by simp_all
  with eq have "sint b + int i = sint b + int j" by (simp only:)
  then show "i = j" by simp
qed

end
