(* ===== verification/UInt128.thy ===== *)
theory UInt128 imports Tess_Prelude begin

text \<open>
  \<open>core/uint128.h\<close>: the portable 128-bit carrier used for packed tile keys. The struct is the
  datatype \<open>uint128\<close> with its two words; \<open>u128_nat\<close> is the number it stands for and
  \<open>u128_word\<close> the 128-bit word. Every operator of the source is proved against them.
\<close>

datatype uint128 = UInt128 (hi: u64) (lo: u64)

definition u128_zero :: uint128 where
  "u128_zero = UInt128 0 0"

definition u128_of_u64 :: "u64 \<Rightarrow> uint128" where
  "u128_of_u64 value = UInt128 0 value"

definition u128_of_signed :: "i64 \<Rightarrow> uint128 option" where
  "u128_of_signed value = (if 0 \<le> sint value then Some (UInt128 0 value) else None)"

definition u128_from_parts :: "u64 \<Rightarrow> u64 \<Rightarrow> uint128" where
  "u128_from_parts high low = UInt128 high low"

definition u128_to_u64 :: "uint128 \<Rightarrow> u64" where
  "u128_to_u64 v = lo v"

definition u128_nat :: "uint128 \<Rightarrow> nat" where
  "u128_nat v = unat (hi v) * 2 ^ 64 + unat (lo v)"

definition u128_word :: "uint128 \<Rightarrow> 128 word" where
  "u128_word v = push_bit 64 (ucast (hi v)) OR ucast (lo v)"

subsection \<open>Comparison: the defaulted three-way comparison\<close>

instantiation uint128 :: linorder
begin

definition less_eq_uint128 :: "uint128 \<Rightarrow> uint128 \<Rightarrow> bool" where
  "less_eq_uint128 l r \<longleftrightarrow> hi l < hi r \<or> (hi l = hi r \<and> lo l \<le> lo r)"

definition less_uint128 :: "uint128 \<Rightarrow> uint128 \<Rightarrow> bool" where
  "less_uint128 l r \<longleftrightarrow> hi l < hi r \<or> (hi l = hi r \<and> lo l < lo r)"

instance
  by standard (auto simp: less_eq_uint128_def less_uint128_def uint128.expand)

end

subsection \<open>Arithmetic\<close>

definition mask32 :: u64 where
  "mask32 = 0xffffffff"

definition u128_mul :: "uint128 \<Rightarrow> uint128 \<Rightarrow> uint128" where
  "u128_mul l r =
     (let a_lo = lo l AND mask32;
          a_hi = drop_bit 32 (lo l);
          b_lo = lo r AND mask32;
          b_hi = drop_bit 32 (lo r);
          p0 = a_lo * b_lo;
          p1 = a_lo * b_hi;
          p2 = a_hi * b_lo;
          p3 = a_hi * b_hi;
          mid = p1 + drop_bit 32 p0;
          mid2 = p2 + (mid AND mask32);
          low = push_bit 32 mid2 OR (p0 AND mask32);
          high = p3 + drop_bit 32 mid + drop_bit 32 mid2;
          high2 = high + (hi l * lo r + lo l * hi r)
      in u128_from_parts high2 low)"

definition u128_sub :: "uint128 \<Rightarrow> uint128 \<Rightarrow> uint128" where
  "u128_sub l r =
     (let borrow = (if lo l < lo r then 1 else 0)
      in u128_from_parts (hi l - hi r - borrow) (lo l - lo r))"

definition u128_and :: "uint128 \<Rightarrow> uint128 \<Rightarrow> uint128" where
  "u128_and l r = u128_from_parts (hi l AND hi r) (lo l AND lo r)"

definition u128_or :: "uint128 \<Rightarrow> uint128 \<Rightarrow> uint128" where
  "u128_or l r = u128_from_parts (hi l OR hi r) (lo l OR lo r)"

definition u128_shl :: "uint128 \<Rightarrow> u32 \<Rightarrow> uint128" where
  "u128_shl v count =
     (if count = 0 then v
      else if 128 \<le> count then u128_zero
      else if 64 \<le> count then u128_from_parts (push_bit (unat (count - 64)) (lo v)) 0
      else u128_from_parts
             (push_bit (unat count) (hi v) OR drop_bit (unat (64 - count)) (lo v))
             (push_bit (unat count) (lo v)))"

definition u128_shr :: "uint128 \<Rightarrow> u32 \<Rightarrow> uint128" where
  "u128_shr v count =
     (if count = 0 then v
      else if 128 \<le> count then u128_zero
      else if 64 \<le> count then u128_from_parts 0 (drop_bit (unat (count - 64)) (hi v))
      else u128_from_parts
             (drop_bit (unat count) (hi v))
             (drop_bit (unat count) (lo v) OR push_bit (unat (64 - count)) (hi v)))"

subsection \<open>The number and the word a pair stands for\<close>

lemma bit_u128_word:
  "bit (u128_word v) n \<longleftrightarrow> (if n < 64 then bit (lo v) n else n < 128 \<and> bit (hi v) (n - 64))"
  by (auto simp: u128_word_def bit_simps dest: bit_imp_le_length)

lemma u128_word_plus: "u128_word v = push_bit 64 (ucast (hi v)) + ucast (lo v)"
  unfolding u128_word_def
  by (rule disjunctive_add_eq_or [symmetric])
     (auto simp: bit_eq_iff bit_simps dest: bit_imp_le_length)

lemma unat_ucast_128 [simp]: "unat (ucast (x :: u64) :: 128 word) = unat x"
proof -
  have "unat x < 2 ^ 128"
    using u64_less [of x] by (rule less_trans) simp
  then show ?thesis
    by (simp only: unsigned_ucast_eq take_bit_eq_mod) simp
qed

lemma unat_u128_word: "unat (u128_word v) = u128_nat v"
proof -
  have small: "unat (hi v) * 2 ^ 64 < 2 ^ 128"
    using u64_less [of "hi v"] by simp
  have h: "unat (push_bit 64 (ucast (hi v)) :: 128 word) = unat (hi v) * 2 ^ 64"
    using small by (simp only: unat_shl unat_ucast_128) simp
  have "unat (hi v) * 2 ^ 64 + unat (lo v) < 2 ^ 128"
    using u64_less [of "hi v"] u64_less [of "lo v"] by simp
  then show ?thesis
    unfolding u128_word_plus u128_nat_def
    by (subst unat_word_ariths) (simp add: h)
qed

lemma u128_nat_bound: "u128_nat v < 2 ^ 128"
  unfolding unat_u128_word [symmetric]
  by (rule less_le_trans [OF unsigned_less]) simp

lemma u128_eqI_nat: "u128_nat a = u128_nat b \<Longrightarrow> a = b"
proof -
  assume eq: "u128_nat a = u128_nat b"
  have "unat (hi a) = u128_nat a div 2 ^ 64" "unat (hi b) = u128_nat b div 2 ^ 64"
    by (simp_all add: u128_nat_def u64_less_num)
  moreover have "unat (lo a) = u128_nat a mod 2 ^ 64" "unat (lo b) = u128_nat b mod 2 ^ 64"
    by (simp_all add: u128_nat_def u64_less_num)
  ultimately show "a = b"
    using eq by (metis uint128.expand u64_eq_nat)
qed


subsection \<open>Every operator computes the number it should\<close>

text \<open>
  The schoolbook product over four 32-bit limbs, on natural numbers: the two middle sums
  and the low word recombine to the product of the two low words.
\<close>

lemma limb_product:
  fixes a b :: nat
  assumes "a = ah * B + al" and "b = bh * B + bl"
    and "al * bl = p0q * B + p0r"
    and "al * bh + p0q = mq * B + mr"
    and "ah * bl + mr = m2q * B + m2r"
  shows "a * b = (ah * bh + mq + m2q) * (B * B) + m2r * B + p0r"
proof -
  have "a * b = ah * bh * (B * B) + (al * bh) * B + (ah * bl) * B + al * bl"
    by (simp add: assms(1,2) algebra_simps)
  also have "\<dots> = ah * bh * (B * B) + (al * bh + p0q) * B + (ah * bl) * B + p0r"
    unfolding assms(3) by (simp add: algebra_simps)
  also have "\<dots> = (ah * bh + mq) * (B * B) + (ah * bl + mr) * B + p0r"
    unfolding assms(4) by (simp add: algebra_simps)
  also have "\<dots> = (ah * bh + mq + m2q) * (B * B) + m2r * B + p0r"
    unfolding assms(5) by (simp add: algebra_simps)
  finally show ?thesis .
qed

lemma mask32_eq: "mask32 = mask 32"
  by (simp add: mask32_def mask_eq_exp_minus_1)

lemma limb_sq: "x < 2 ^ 32 \<Longrightarrow> y < 2 ^ 32 \<Longrightarrow> x * y \<le> (2 ^ 32 - 1) * (2 ^ 32 - 1 :: nat)"
  by (rule mult_le_mono) simp_all

lemma u128_mul_low:
  "unat (push_bit 32 m OR (p AND mask32)) = (unat m mod 2 ^ 32) * 2 ^ 32 + unat p mod 2 ^ 32"
proof -
  have "push_bit 32 m OR (p AND mask32) = push_bit 32 m + (p AND mask32)"
    by (rule disjunctive_add_eq_or [symmetric])
       (auto simp: mask32_eq bit_eq_iff bit_simps)
  moreover have "unat (push_bit 32 m) = (unat m mod 2 ^ 32) * 2 ^ 32"
    by (simp only: unat_shl) (simp add: mult_mod_left)
  moreover have "unat (p AND mask32) = unat p mod 2 ^ 32"
    by (simp only: mask32_eq unat_and_mask)
  moreover have "unat m mod 2 ^ 32 \<le> 2 ^ 32 - 1" "unat p mod 2 ^ 32 < 2 ^ 32" by simp_all
  ultimately show ?thesis
    by (simp add: unat_add_u64)
qed

text \<open>The product of the two low words, exact in 128 bits.\<close>

lemma u128_mul_words:
  fixes x y :: u64
  defines "a_lo \<equiv> x AND mask32" and "a_hi \<equiv> drop_bit 32 x"
  defines "b_lo \<equiv> y AND mask32" and "b_hi \<equiv> drop_bit 32 y"
  defines "p0 \<equiv> a_lo * b_lo"
  defines "mid \<equiv> a_lo * b_hi + drop_bit 32 p0"
  defines "mid2 \<equiv> a_hi * b_lo + (mid AND mask32)"
  defines "high \<equiv> a_hi * b_hi + drop_bit 32 mid + drop_bit 32 mid2"
  shows "unat x * unat y
         = unat high * 2 ^ 64 + unat (push_bit 32 mid2 OR (p0 AND mask32))"
proof -
  let ?B = "2 ^ 32 :: nat"
  let ?a = "unat x" and ?b = "unat y"
  have al: "unat a_lo = ?a mod ?B" and bl: "unat b_lo = ?b mod ?B"
    by (simp_all only: a_lo_def b_lo_def mask32_eq unat_and_mask)
  have ah: "unat a_hi = ?a div ?B" and bh: "unat b_hi = ?b div ?B"
    by (simp_all only: a_hi_def b_hi_def unat_shr)
  have lt: "unat a_lo < ?B" "unat b_lo < ?B" "unat a_hi < ?B" "unat b_hi < ?B"
    using u64_less [of x] u64_less [of y]
    by (simp_all add: al bl ah bh less_mult_imp_div_less)
  note sq = limb_sq [OF lt(1) lt(2)] limb_sq [OF lt(1) lt(4)] limb_sq [OF lt(3) lt(2)]
    limb_sq [OF lt(3) lt(4)]
  have m2: "(2 ^ 32 - 1) * (2 ^ 32 - 1) + (2 ^ 32 - 1) < (2 ^ 64 :: nat)" by simp
  have p0: "unat p0 = unat a_lo * unat b_lo"
    using sq(1) unfolding p0_def by (intro unat_mult_u64) (simp)
  have p1: "unat (a_lo * b_hi) = unat a_lo * unat b_hi"
    using sq(2) by (intro unat_mult_u64) simp
  have p2: "unat (a_hi * b_lo) = unat a_hi * unat b_lo"
    using sq(3) by (intro unat_mult_u64) simp
  have p3: "unat (a_hi * b_hi) = unat a_hi * unat b_hi"
    using sq(4) by (intro unat_mult_u64) simp
  have p0q: "unat (drop_bit 32 p0) \<le> ?B - 1"
    using sq(1) by (simp only: unat_shr p0) simp
  have mid: "unat mid = unat a_lo * unat b_hi + unat (drop_bit 32 p0)"
    unfolding mid_def p1 [symmetric]
    using sq(2) p0q m2 p1 by (intro unat_add_u64) linarith
  have midr: "unat (mid AND mask32) \<le> ?B - 1"
    by (simp only: mask32_eq unat_and_mask) simp
  have mid2: "unat mid2 = unat a_hi * unat b_lo + unat (mid AND mask32)"
    unfolding mid2_def p2 [symmetric]
    using sq(3) midr m2 p2 by (intro unat_add_u64) linarith
  have split: "unat (v :: u64) = unat v div ?B * ?B + unat v mod ?B" for v
    by simp
  let ?H = "unat a_hi * unat b_hi + unat mid div ?B + unat mid2 div ?B"
  have total: "?a * ?b = ?H * (?B * ?B) + (unat mid2 mod ?B) * ?B + unat p0 mod ?B"
  proof (rule limb_product)
    show "?a = unat a_hi * ?B + unat a_lo" "?b = unat b_hi * ?B + unat b_lo"
      by (simp_all only: al ah bl bh div_mult_mod_eq)
    show "unat a_lo * unat b_lo = unat p0 div ?B * ?B + unat p0 mod ?B"
      by (simp only: p0 div_mult_mod_eq)
    show "unat a_lo * unat b_hi + unat p0 div ?B = unat mid div ?B * ?B + unat mid mod ?B"
      by (simp only: mid unat_shr div_mult_mod_eq)
    show "unat a_hi * unat b_lo + unat mid mod ?B = unat mid2 div ?B * ?B + unat mid2 mod ?B"
      by (simp only: mid2 mask32_eq unat_and_mask div_mult_mod_eq)
  qed
  have "?a * ?b < 2 ^ 64 * 2 ^ 64"
    using u64_less [of x] u64_less [of y] by (intro mult_strict_mono) simp_all
  then have "?H * 2 ^ 64 < 2 ^ 64 * 2 ^ 64"
    using total by simp
  then have H: "?H < 2 ^ 64" by simp
  have "unat high = ?H"
    unfolding high_def using H by (simp add: unat_add_u64 p3 unat_shr)
  then show ?thesis
    using total by (simp add: u128_mul_low)
qed

lemma unat_wrap_add: "unat (a + b :: u64) = (unat a + unat b) mod 2 ^ 64"
  by (simp add: unat_word_ariths)

lemma unat_wrap_mult: "unat (a * b :: u64) = (unat a * unat b) mod 2 ^ 64"
  by (simp add: unat_word_ariths)

lemma hi_word_mod: "(h * 2 ^ 64 + l) mod 2 ^ 128 = (h mod 2 ^ 64) * 2 ^ 64 + l"
  if "l < 2 ^ 64" for h l :: nat
proof -
  have "(h * 2 ^ 64 + l) mod (2 ^ 64 * 2 ^ 64)
        = 2 ^ 64 * ((h * 2 ^ 64 + l) div 2 ^ 64 mod 2 ^ 64) + (h * 2 ^ 64 + l) mod 2 ^ 64"
    by (rule mod_mult2_eq)
  then show ?thesis using that by simp
qed

lemma u128_nat_mul: "u128_nat (u128_mul l r) = (u128_nat l * u128_nat r) mod 2 ^ 128"
proof -
  let ?hl = "unat (hi l)" and ?ll = "unat (lo l)" and ?hr = "unat (hi r)" and ?lr = "unat (lo r)"
  define low where "low = lo (u128_mul l r)"
  define high where "high = hi (u128_mul l r) - (hi l * lo r + lo l * hi r)"
  have mul: "u128_mul l r = UInt128 (high + (hi l * lo r + lo l * hi r)) low"
    by (simp add: high_def low_def)
  have prod: "?ll * ?lr = unat high * 2 ^ 64 + unat low"
    using u128_mul_words [of "lo l" "lo r"]
    by (simp add: high_def low_def u128_mul_def Let_def u128_from_parts_def)
  have "u128_nat l * u128_nat r
        = ?hl * ?hr * 2 ^ 128 + (?hl * ?lr + ?ll * ?hr + unat high) * 2 ^ 64 + unat low"
    by (simp add: u128_nat_def algebra_simps prod)
  then have "(u128_nat l * u128_nat r) mod 2 ^ 128
        = ((?hl * ?lr + ?ll * ?hr + unat high) * 2 ^ 64 + unat low) mod 2 ^ 128"
    by (metis (no_types) add.assoc mod_mult_self3)
  also have "\<dots> = ((?hl * ?lr + ?ll * ?hr + unat high) mod 2 ^ 64) * 2 ^ 64 + unat low"
    by (rule hi_word_mod) (rule u64_less)
  also have "(?hl * ?lr + ?ll * ?hr + unat high) mod 2 ^ 64
        = unat (high + (hi l * lo r + lo l * hi r))"
    by (simp only: unat_wrap_add unat_wrap_mult mod_simps ac_simps)
  finally show ?thesis
    by (simp add: mul u128_nat_def)
qed

lemma hi_word_mod_int: "(h * 2 ^ 64 + l) mod 2 ^ 128 = (h mod 2 ^ 64) * 2 ^ 64 + l"
  if "0 \<le> l" "l < 2 ^ 64" for h l :: int
proof -
  have "(h * 2 ^ 64 + l) mod (2 ^ 64 * 2 ^ 64)
        = 2 ^ 64 * ((h * 2 ^ 64 + l) div 2 ^ 64 mod 2 ^ 64) + (h * 2 ^ 64 + l) mod 2 ^ 64"
    by (rule zmod_zmult2_eq) simp
  then show ?thesis using that by simp
qed

lemma u128_nat_sub:
  "int (u128_nat (u128_sub l r)) = (int (u128_nat l) - int (u128_nat r)) mod 2 ^ 128"
proof -
  let ?b = "if lo l < lo r then 1 else 0 :: u64"
  let ?low = "uint (lo l - lo r)"
  have nat_int: "int (u128_nat v) = uint (hi v) * 2 ^ 64 + uint (lo v)" for v
    by (simp add: u128_nat_def)
  have low: "?low = uint (lo l) - uint (lo r) + uint ?b * 2 ^ 64"
    by (simp add: word_less_def uint_sub_if' not_le)
  have "int (u128_nat l) - int (u128_nat r)
        = (uint (hi l) - uint (hi r) - uint ?b) * 2 ^ 64 + ?low"
    by (simp add: nat_int low algebra_simps)
  then have "(int (u128_nat l) - int (u128_nat r)) mod 2 ^ 128
        = ((uint (hi l) - uint (hi r) - uint ?b) mod 2 ^ 64) * 2 ^ 64 + ?low"
    by (simp only:) (rule hi_word_mod_int, simp, use unsigned_less [of "lo l - lo r"] in simp)
  also have "(uint (hi l) - uint (hi r) - uint ?b) mod 2 ^ 64 = uint (hi l - hi r - ?b)"
    by (simp only: uint_word_ariths mod_simps) simp
  finally show ?thesis
    by (simp add: u128_sub_def u128_from_parts_def nat_int Let_def)
qed

lemma u128_word_inj: "u128_word a = u128_word b \<longleftrightarrow> a = b"
  by (metis unat_u128_word u128_eqI_nat)

lemma u128_word_and: "u128_word (u128_and l r) = u128_word l AND u128_word r"
  by (rule bit_word_eqI) (auto simp: bit_u128_word u128_and_def u128_from_parts_def bit_simps)

lemma u128_word_or: "u128_word (u128_or l r) = u128_word l OR u128_word r"
  by (rule bit_word_eqI) (auto simp: bit_u128_word u128_or_def u128_from_parts_def bit_simps)

lemma u32_count: "count < (128 :: u32) \<longleftrightarrow> unat count < 128" "64 \<le> (count :: u32) \<longleftrightarrow> 64 \<le> unat count"
  "128 \<le> (count :: u32) \<longleftrightarrow> 128 \<le> unat count"
  by (simp_all add: word_less_nat_alt word_le_nat_alt)

lemma unat_sub_64: "64 \<le> unat count \<Longrightarrow> unat (count - 64 :: u32) = unat count - 64"
  by (simp add: unat_sub word_le_nat_alt)

lemma unat_64_sub: "unat count \<le> 64 \<Longrightarrow> unat (64 - count :: u32) = 64 - unat count"
  by (simp add: unat_sub word_le_nat_alt)

lemma u128_word_shl: "u128_word (u128_shl v count) = push_bit (unat count) (u128_word v)"
  by (rule bit_word_eqI)
     (auto simp: bit_u128_word u128_shl_def u128_from_parts_def u128_zero_def bit_simps u32_count
        unat_sub_64 unat_64_sub unsigned_eq_0_iff not_le Suc_le_eq not_less ac_simps
        dest: bit_imp_le_length)

lemma u128_word_shr: "u128_word (u128_shr v count) = drop_bit (unat count) (u128_word v)"
  by (rule bit_word_eqI)
     (auto simp: bit_u128_word u128_shr_def u128_from_parts_def u128_zero_def bit_simps u32_count
        unat_sub_64 unat_64_sub unsigned_eq_0_iff not_le not_less ac_simps
        dest: bit_imp_le_length)

lemma u128_less_nat: "a < b \<longleftrightarrow> u128_nat a < u128_nat b"
proof -
  have step: "h * 2 ^ 64 + l < h' * 2 ^ 64 + l' \<longleftrightarrow> h < h' \<or> (h = h' \<and> l < l')"
    if "l < 2 ^ 64" "l' < 2 ^ 64" for h l h' l' :: nat
    using that by (cases h h' rule: linorder_cases) auto
  show ?thesis
    by (simp only: less_uint128_def u128_nat_def step [OF u64_less u64_less] u64_less_nat u64_eq_nat)
qed

lemma u128_le_nat: "a \<le> b \<longleftrightarrow> u128_nat a \<le> u128_nat b"
  by (simp only: u128_less_nat flip: not_less)

text \<open>What the shape arithmetic needs: widening, narrowing, and the two shifts as numbers.\<close>

lemma u128_nat_of_u64 [simp]: "u128_nat (u128_of_u64 x) = unat x"
  by (simp add: u128_nat_def u128_of_u64_def)

lemma unat_u128_to_u64: "unat (u128_to_u64 v) = u128_nat v mod 2 ^ 64"
  by (simp add: u128_nat_def u128_to_u64_def u64_less_num)

lemma u128_nat_shr: "u128_nat (u128_shr v count) = u128_nat v div 2 ^ unat count"
  by (simp only: unat_shr u128_word_shr flip: unat_u128_word)

lemma u128_nat_shl: "u128_nat (u128_shl v count) = (u128_nat v * 2 ^ unat count) mod 2 ^ 128"
  by (simp only: unat_shl u128_word_shl flip: unat_u128_word) simp

lemma u128_nat_zero [simp]: "u128_nat u128_zero = 0"
  by (simp add: u128_nat_def u128_zero_def)

lemma u128_nat_eq_0: "u128_nat v = 0 \<longleftrightarrow> v = u128_zero"
  using u128_eqI_nat [of v u128_zero] by auto

subsection \<open>Properties\<close>

text \<open>
  \<open>UInt128::operator*\<close> multiplies modulo \<open>2^128\<close>: the four 32-bit partial products, the
  two carries and the cross terms recombine to the product of the two numbers.
\<close>

theorem u128_mul_correct: "u128_word (u128_mul l r) = u128_word l * u128_word r"
proof -
  have "unat (u128_word (u128_mul l r)) = unat (u128_word l * u128_word r)"
    by (simp only: unat_u128_word u128_nat_mul unat_word_ariths) simp
  then show ?thesis by (rule unsigned_word_eqI)
qed

text \<open>
  The remaining operators of \<open>UInt128\<close> agree with 128-bit machine words: subtraction
  borrows across the halves, the bitwise operators act bit by bit, shifts by any count (zero,
  below 64, 64 to 127, 128 and more) neither lose nor invent bits, and the defaulted comparison
  of the pair \<open>(hi, lo)\<close> is the numeric order.
\<close>

theorem u128_operators_correct:
  "u128_word (u128_sub l r) = u128_word l - u128_word r
   \<and> u128_word (u128_and l r) = u128_word l AND u128_word r
   \<and> u128_word (u128_or l r) = u128_word l OR u128_word r
   \<and> u128_word (u128_shl l count) = push_bit (unat count) (u128_word l)
   \<and> u128_word (u128_shr l count) = drop_bit (unat count) (u128_word l)
   \<and> (l < r \<longleftrightarrow> u128_word l < u128_word r)"
proof (intro conjI u128_word_and u128_word_or u128_word_shl u128_word_shr)
  have "int (unat (u128_word (u128_sub l r))) = int (unat (u128_word l - u128_word r))"
    by (simp only: unat_u128_word u128_nat_sub) (simp add: uint_word_ariths flip: unat_u128_word)
  then show "u128_word (u128_sub l r) = u128_word l - u128_word r"
    by (simp only: of_nat_eq_iff) (rule unsigned_word_eqI)
  show "l < r \<longleftrightarrow> u128_word l < u128_word r"
    by (simp only: u128_less_nat word_less_nat_alt unat_u128_word)
qed

end
