(* ===== verification/Shape.thy ===== *)
theory Shape imports UInt128 begin

text \<open>
  \<open>core/lattice.h\<close> and \<open>core/shape.h\<close>: extents, coordinates, boxes, distances, and the
  compile-time shape with its chunk arithmetic and packed tile keys. The template parameters of
  \<open>Shape\<close> are the fields of the record \<open>shape\<close>; the \<open>static_assert\<close>s of \<open>Shape\<close> and
  \<open>ShapeTraits\<close> are the predicate \<open>valid_shape\<close>. The theory proves that every index
  conversion is a bijection that never wraps.
\<close>

subsection \<open>Lattices\<close>

datatype lattice_identity = Orthogonal | HexAxial

definition lattice_identity_value :: "lattice_identity \<Rightarrow> u32" where
  "lattice_identity_value l = (case l of Orthogonal \<Rightarrow> 0x4f525448 | HexAxial \<Rightarrow> 0x48455841)"

definition lattice_version :: "lattice_identity \<Rightarrow> u32" where
  "lattice_version l = 1"

subsection \<open>Value types\<close>

record extent3 =
  ext_x :: u64
  ext_y :: u64
  ext_z :: u64

record coord2 =
  c2_x :: i64
  c2_y :: i64

record hex_coord =
  hex_q :: i64
  hex_r :: i64

record coord3 =
  co_x :: i64
  co_y :: i64
  co_z :: i64

record chunk_coord3 =
  cc_x :: u64
  cc_y :: u64
  cc_z :: u64

record local_coord3 =
  lc_x :: u64
  lc_y :: u64
  lc_z :: u64

datatype local_tile_id = LocalTileId (tile_value: u64)

datatype chunk_key = ChunkKey (key_value: u64)

record box3 =
  box_origin :: coord3
  box_extent :: extent3

record resolved_tile =
  rt_chunk_key :: chunk_key
  rt_local_tile_id :: local_tile_id

definition mk_coord3 :: "i64 \<Rightarrow> i64 \<Rightarrow> i64 \<Rightarrow> coord3" where
  "mk_coord3 x y z = \<lparr>co_x = x, co_y = y, co_z = z\<rparr>"

definition mk_extent3 :: "u64 \<Rightarrow> u64 \<Rightarrow> u64 \<Rightarrow> extent3" where
  "mk_extent3 x y z = \<lparr>ext_x = x, ext_y = y, ext_z = z\<rparr>"

definition default_extent3 :: extent3 where
  "default_extent3 = \<lparr>ext_x = 0, ext_y = 0, ext_z = 1\<rparr>"

definition default_coord3 :: coord3 where
  "default_coord3 = \<lparr>co_x = 0, co_y = 0, co_z = 0\<rparr>"

definition default_box3 :: box3 where
  "default_box3 = \<lparr>box_origin = default_coord3, box_extent = default_extent3\<rparr>"

definition to_coord3_2d :: "coord2 \<Rightarrow> coord3" where
  "to_coord3_2d c = \<lparr>co_x = c2_x c, co_y = c2_y c, co_z = 0\<rparr>"

definition to_coord3_hex :: "hex_coord \<Rightarrow> coord3" where
  "to_coord3_hex c = \<lparr>co_x = hex_q c, co_y = hex_r c, co_z = 0\<rparr>"

definition to_hex_coord :: "coord3 \<Rightarrow> hex_coord option" where
  "to_hex_coord c = (if co_z c = 0 then Some \<lparr>hex_q = co_x c, hex_r = co_y c\<rparr> else None)"

subsection \<open>Integer helpers of the detail namespace\<close>

definition is_power_of_two :: "u64 \<Rightarrow> bool" where
  "is_power_of_two v \<longleftrightarrow> v \<noteq> 0 \<and> v AND (v - 1) = 0"

definition is_valid_extent :: "extent3 \<Rightarrow> bool" where
  "is_valid_extent e \<longleftrightarrow> 0 < ext_x e \<and> 0 < ext_y e \<and> 0 < ext_z e"

definition is_divisible_by :: "extent3 \<Rightarrow> extent3 \<Rightarrow> bool" where
  "is_divisible_by s c \<longleftrightarrow>
     ext_x s mod ext_x c = 0 \<and> ext_y s mod ext_y c = 0 \<and> ext_z s mod ext_z c = 0"

definition product_fits_uint64 :: "u64 \<Rightarrow> u64 \<Rightarrow> u64 \<Rightarrow> bool" where
  "product_fits_uint64 x y z \<longleftrightarrow>
     (if u64_max div y < x then False else x * y \<le> u64_max div z)"

definition extent_product :: "extent3 \<Rightarrow> uint128" where
  "extent_product e =
     u128_mul (u128_mul (u128_of_u64 (ext_x e)) (u128_of_u64 (ext_y e))) (u128_of_u64 (ext_z e))"

definition detail_chunk_count :: "extent3 \<Rightarrow> extent3 \<Rightarrow> uint128" where
  "detail_chunk_count s c =
     u128_mul (u128_mul (u128_of_u64 (ext_x s div ext_x c)) (u128_of_u64 (ext_y s div ext_y c)))
       (u128_of_u64 (ext_z s div ext_z c))"

function bit_width_loop :: "u32 \<Rightarrow> uint128 \<Rightarrow> u32" where
  "bit_width_loop bits v =
     (if v = u128_zero then bits else bit_width_loop (bits + 1) (u128_shr v 1))"
  by pat_completeness auto
termination
  by (relation "measure (\<lambda>(bits, v). u128_nat v)")
     (auto simp: u128_nat_shr u128_nat_eq_0 [symmetric])

declare bit_width_loop.simps [simp del]

definition bit_width :: "uint128 \<Rightarrow> u32" where
  "bit_width v = bit_width_loop 0 v"

definition bits_for_count :: "uint128 \<Rightarrow> u32" where
  "bits_for_count count =
     (if count \<le> u128_of_u64 1 then 0 else bit_width (u128_sub count (u128_of_u64 1)))"

definition magnitude :: "i64 \<Rightarrow> u64" where
  "magnitude v = - (v + 1) + 1"

definition axis_delta :: "i64 \<Rightarrow> i64 \<Rightarrow> u64" where
  "axis_delta origin coord =
     (if 0 \<le> sint origin then coord - origin
      else let origin_magnitude = magnitude origin
           in if sint coord < 0 then origin_magnitude - magnitude coord
              else origin_magnitude + coord)"

definition axis_contains :: "i64 \<Rightarrow> u64 \<Rightarrow> i64 \<Rightarrow> bool" where
  "axis_contains origin extent coord \<longleftrightarrow>
     (if i64_less coord origin then False else axis_delta origin coord < extent)"

definition abs_delta :: "i64 \<Rightarrow> i64 \<Rightarrow> u64" where
  "abs_delta l r = (if i64_less l r then r - l else l - r)"

definition saturating_add :: "u64 \<Rightarrow> u64 \<Rightarrow> u64" where
  "saturating_add l r = (if u64_max - r < l then u64_max else l + r)"

definition u128_add :: "uint128 \<Rightarrow> uint128 \<Rightarrow> uint128" where
  "u128_add l r =
     (let low = lo l + lo r;
          carry = (if low < lo l then 1 else 0)
      in u128_from_parts (hi l + hi r + carry) low)"

record signed_magnitude =
  sm_negative :: bool
  sm_magnitude :: u64

definition signed_delta :: "i64 \<Rightarrow> i64 \<Rightarrow> signed_magnitude" where
  "signed_delta l r = \<lparr>sm_negative = i64_less l r, sm_magnitude = abs_delta l r\<rparr>"

definition signed_sum_magnitude :: "signed_magnitude \<Rightarrow> signed_magnitude \<Rightarrow> uint128" where
  "signed_sum_magnitude l r =
     (if sm_negative l = sm_negative r
      then u128_add (u128_of_u64 (sm_magnitude l)) (u128_of_u64 (sm_magnitude r))
      else if sm_magnitude l < sm_magnitude r
           then u128_of_u64 (sm_magnitude r - sm_magnitude l)
           else u128_of_u64 (sm_magnitude l - sm_magnitude r))"

subsection \<open>Boxes and distances\<close>

definition box_contains :: "box3 \<Rightarrow> coord3 \<Rightarrow> bool" where
  "box_contains b c \<longleftrightarrow>
     axis_contains (co_x (box_origin b)) (ext_x (box_extent b)) (co_x c) \<and>
     axis_contains (co_y (box_origin b)) (ext_y (box_extent b)) (co_y c) \<and>
     axis_contains (co_z (box_origin b)) (ext_z (box_extent b)) (co_z c)"

definition manhattan_distance :: "coord3 \<Rightarrow> coord3 \<Rightarrow> u64" where
  "manhattan_distance l r =
     saturating_add (abs_delta (co_x l) (co_x r))
       (saturating_add (abs_delta (co_y l) (co_y r)) (abs_delta (co_z l) (co_z r)))"

definition hex_distance :: "hex_coord \<Rightarrow> hex_coord \<Rightarrow> u64" where
  "hex_distance l r =
     (let dq = signed_delta (hex_q l) (hex_q r);
          dr = signed_delta (hex_r l) (hex_r r);
          twice = u128_add (u128_of_u64 (sm_magnitude dq)) (u128_of_u64 (sm_magnitude dr));
          twice2 = u128_add twice (signed_sum_magnitude dq dr);
          distance = u128_shr twice2 1
      in if hi distance \<noteq> 0 then u64_max else lo distance)"

subsection \<open>Differences of coordinates never wrap\<close>

lemma unat_diff_i64:
  "sint (b :: i64) \<le> sint a \<Longrightarrow> int (unat (a - b)) = sint a - sint b"
proof -
  assume le: "sint b \<le> sint a"
  have "int (unat (a - b)) = (sint a mod 2 ^ 64 - sint b mod 2 ^ 64) mod 2 ^ 64"
    by (simp only: uint_eq_sint_mod [symmetric]) (simp add: uint_word_ariths)
  also have "\<dots> = (sint a - sint b) mod 2 ^ 64" by (simp only: mod_simps)
  also have "\<dots> = sint a - sint b"
    using le i64_bounds [of a] i64_bounds [of b] by (intro mod_pos_pos_trivial) auto
  finally show ?thesis .
qed

lemma axis_delta_word: "axis_delta origin coord = coord - origin"
  by (simp add: axis_delta_def magnitude_def Let_def)

lemma unat_axis_delta:
  "sint origin \<le> sint coord \<Longrightarrow> int (unat (axis_delta origin coord)) = sint coord - sint origin"
  by (simp only: axis_delta_word unat_diff_i64)

lemma unat_abs_delta: "int (unat (abs_delta l r)) = \<bar>sint l - sint r\<bar>"
  unfolding abs_delta_def i64_less_def by (cases "sint l < sint r") (simp_all only: if_True if_False unat_diff_i64)

lemma axis_contains_iff:
  "axis_contains origin extent coord \<longleftrightarrow>
     sint origin \<le> sint coord \<and> sint coord < sint origin + int (unat extent)"
proof (cases "sint origin \<le> sint coord")
  case True
  have "axis_delta origin coord < extent
        \<longleftrightarrow> int (unat (axis_delta origin coord)) < int (unat extent)"
    by (simp only: u64_less_nat of_nat_less_iff)
  also have "\<dots> \<longleftrightarrow> sint coord < sint origin + int (unat extent)"
    by (simp only: unat_axis_delta [OF True]) linarith
  finally show ?thesis using True
    by (simp add: axis_contains_def i64_less_def)
next
  case False
  then show ?thesis by (simp add: axis_contains_def i64_less_def)
qed

lemma unat_saturating_add: "unat (saturating_add l r) = min (2 ^ 64 - 1) (unat l + unat r)"
proof (cases "unat l + unat r < 2 ^ 64")
  case True
  then have "\<not> u64_max - r < l"
    by (simp add: u64_less_nat unat_sub_u64 not_less)
  with True show ?thesis by (simp add: saturating_add_def unat_add_u64)
next
  case False
  have "unat r \<le> 2 ^ 64 - 1" using u64_less [of r] by simp
  with False have "u64_max - r < l"
    by (simp add: u64_less_nat unat_sub_u64)
  with False show ?thesis by (simp add: saturating_add_def)
qed

lemma u128_nat_add: "u128_nat l + u128_nat r < 2 ^ 128 \<Longrightarrow> u128_nat (u128_add l r) = u128_nat l + u128_nat r"
proof -
  let ?c = "if lo l + lo r < lo l then 1 else 0 :: u64"
  assume "u128_nat l + u128_nat r < 2 ^ 128"
  moreover have low: "unat (lo l + lo r) + unat ?c * 2 ^ 64 = unat (lo l) + unat (lo r)"
  proof (cases "unat (lo l) + unat (lo r) < 2 ^ 64")
    case True
    then show ?thesis by (simp add: u64_less_nat unat_add_u64)
  next
    case False
    then have "unat (lo l + lo r) = unat (lo l) + unat (lo r) - 2 ^ 64"
      by (intro unat_add_carry_u64) simp
    with False u64_less [of "lo r"] show ?thesis by (simp add: u64_less_nat)
  qed
  ultimately have H: "(unat (hi l) + unat (hi r) + unat ?c) * 2 ^ 64 < 2 ^ 64 * 2 ^ 64"
    by (simp add: u128_nat_def)
  then have "unat (hi l + hi r + ?c) = unat (hi l) + unat (hi r) + unat ?c"
    by (simp add: unat_add_u64)
  with low show ?thesis
    by (simp add: u128_add_def Let_def u128_from_parts_def u128_nat_def)
qed

lemma u128_nat_signed_sum_magnitude:
  "u128_nat (signed_sum_magnitude l r) =
     (if sm_negative l = sm_negative r then unat (sm_magnitude l) + unat (sm_magnitude r)
      else if unat (sm_magnitude l) < unat (sm_magnitude r)
           then unat (sm_magnitude r) - unat (sm_magnitude l)
           else unat (sm_magnitude l) - unat (sm_magnitude r))"
proof -
  have "unat (sm_magnitude l) + unat (sm_magnitude r) < 2 ^ 128"
    using u64_less_num [of "sm_magnitude l"] u64_less_num [of "sm_magnitude r"] by simp
  then show ?thesis
    by (simp add: signed_sum_magnitude_def u128_nat_add u64_less_nat unat_sub_u64)
qed

lemma u128_nat_signed_sum:
  "int (u128_nat (signed_sum_magnitude (signed_delta a b) (signed_delta c d)))
   = \<bar>(sint a - sint b) + (sint c - sint d)\<bar>"
proof -
  obtain p q where pq: "unat (abs_delta a b) = p" "unat (abs_delta c d) = q"
    and ints: "int p = \<bar>sint a - sint b\<bar>" "int q = \<bar>sint c - sint d\<bar>"
    using unat_abs_delta by metis
  have sum: "u128_nat (signed_sum_magnitude (signed_delta a b) (signed_delta c d)) =
      (if (sint a < sint b) = (sint c < sint d) then p + q else if p < q then q - p else p - q)"
    by (simp add: u128_nat_signed_sum_magnitude signed_delta_def i64_less_def pq)
  show ?thesis unfolding sum using ints by (auto simp: of_nat_diff)
qed

text \<open>The number of bits that \<open>bit_width\<close> returns is the exact binary length.\<close>

lemma bit_width_loop_spec:
  "u128_nat v < 2 ^ n \<Longrightarrow> n \<le> 128 \<Longrightarrow> unat bits + n < 2 ^ 32 \<Longrightarrow>
   unat bits \<le> unat (bit_width_loop bits v) \<and>
   unat (bit_width_loop bits v) \<le> unat bits + n \<and>
   u128_nat v < 2 ^ (unat (bit_width_loop bits v) - unat bits) \<and>
   (v \<noteq> u128_zero \<longrightarrow> 2 ^ (unat (bit_width_loop bits v) - unat bits) \<le> 2 * u128_nat v)"
proof (induction bits v arbitrary: n rule: bit_width_loop.induct)
  case (1 bits v)
  show ?case
  proof (cases "v = u128_zero")
    case True
    then show ?thesis by (subst (1 2 3 4) bit_width_loop.simps) simp
  next
    case False
    then have pos: "0 < u128_nat v" using u128_nat_eq_0 [of v] by simp
    then obtain m where n: "n = Suc m" using 1(2) by (cases n) auto
    let ?v = "u128_shr v 1" and ?w = "bit_width_loop (bits + 1) (u128_shr v 1)"
    have half: "u128_nat ?v = u128_nat v div 2" by (simp add: u128_nat_shr)
    have b: "unat (bits + 1) = Suc (unat bits)"
      using 1(4) n by (simp add: unat_word_ariths)
    have IH: "unat (bits + 1) \<le> unat ?w \<and> unat ?w \<le> unat (bits + 1) + m
       \<and> u128_nat ?v < 2 ^ (unat ?w - unat (bits + 1))
       \<and> (?v \<noteq> u128_zero \<longrightarrow> 2 ^ (unat ?w - unat (bits + 1)) \<le> 2 * u128_nat ?v)"
      using 1(1) [OF False, of m] 1(2-4) n by (simp add: half b)
    have eq: "bit_width_loop bits v = ?w" using False by (simp add: bit_width_loop.simps [of bits v])
    define k where "k = unat ?w - unat (bits + 1)"
    have d: "unat ?w - unat bits = Suc k" using IH b unfolding k_def by linarith
    have "u128_nat v div 2 < 2 ^ k" using IH half by (simp add: k_def)
    then have up: "u128_nat v < 2 ^ Suc k" by simp
    have low: "2 ^ Suc k \<le> 2 * u128_nat v"
    proof (cases "?v = u128_zero")
      case True
      then have "?w = bits + 1" by (simp add: bit_width_loop.simps)
      then show ?thesis using pos by (simp add: k_def)
    next
      case False
      with IH half have "2 ^ k \<le> 2 * (u128_nat v div 2)" by (simp add: k_def)
      then have "2 ^ k \<le> u128_nat v" by linarith
      then show ?thesis by simp
    qed
    show ?thesis unfolding eq d using IH b n up low by simp
  qed
qed

lemma bits_for_count_spec:
  "u128_nat c \<le> 2 ^ unat (bits_for_count c)"
  "1 < u128_nat c \<Longrightarrow> 2 ^ unat (bits_for_count c) < 2 * u128_nat c"
  "unat (bits_for_count c) \<le> 128"
proof -
  have one: "c \<le> u128_of_u64 1 \<longleftrightarrow> u128_nat c \<le> 1" by (simp add: u128_le_nat)
  let ?d = "u128_sub c (u128_of_u64 1)"
  have d: "u128_nat ?d = u128_nat c - 1" if "1 < u128_nat c"
  proof -
    have "int (u128_nat ?d) = int (u128_nat c) - 1"
      using that u128_nat_bound [of c] by (simp only: u128_nat_sub) (simp add: mod_pos_pos_trivial)
    then show ?thesis using that by linarith
  qed
  have spec: "unat (bit_width ?d) \<le> 128 \<and> u128_nat ?d < 2 ^ unat (bit_width ?d)
      \<and> (?d \<noteq> u128_zero \<longrightarrow> 2 ^ unat (bit_width ?d) \<le> 2 * u128_nat ?d)"
    using bit_width_loop_spec [of ?d 128 0] u128_nat_bound [of ?d] by (simp add: bit_width_def)
  show "u128_nat c \<le> 2 ^ unat (bits_for_count c)" "unat (bits_for_count c) \<le> 128"
    using spec d by (auto simp: bits_for_count_def one not_le)
  show "2 ^ unat (bits_for_count c) < 2 * u128_nat c" if "1 < u128_nat c"
    using spec d [OF that] that by (auto simp: bits_for_count_def one u128_nat_eq_0 [symmetric])
qed

subsection \<open>Properties\<close>

text \<open>
  Box containment is the half-open mathematical box, for every origin and extent: the
  unsigned axis delta of the source never wraps, also at the int64 extremes.
\<close>

theorem box_contains_correct:
  "box_contains b c \<longleftrightarrow>
     sint (co_x (box_origin b)) \<le> sint (co_x c)
     \<and> sint (co_x c) < sint (co_x (box_origin b)) + int (unat (ext_x (box_extent b)))
     \<and> sint (co_y (box_origin b)) \<le> sint (co_y c)
     \<and> sint (co_y c) < sint (co_y (box_origin b)) + int (unat (ext_y (box_extent b)))
     \<and> sint (co_z (box_origin b)) \<le> sint (co_z c)
     \<and> sint (co_z c) < sint (co_z (box_origin b)) + int (unat (ext_z (box_extent b)))"
  by (auto simp only: box_contains_def axis_contains_iff)

lemma manhattan_distance_nat:
  "int (unat (manhattan_distance l r)) =
     min (2 ^ 64 - 1) (\<bar>sint (co_x l) - sint (co_x r)\<bar> + \<bar>sint (co_y l) - sint (co_y r)\<bar>
                        + \<bar>sint (co_z l) - sint (co_z r)\<bar>)"
proof -
  obtain x y z where nats: "unat (abs_delta (co_x l) (co_x r)) = x"
      "unat (abs_delta (co_y l) (co_y r)) = y" "unat (abs_delta (co_z l) (co_z r)) = z"
    and ints: "int x = \<bar>sint (co_x l) - sint (co_x r)\<bar>" "int y = \<bar>sint (co_y l) - sint (co_y r)\<bar>"
      "int z = \<bar>sint (co_z l) - sint (co_z r)\<bar>"
    using unat_abs_delta by metis
  have "unat (manhattan_distance l r) = min (2 ^ 64 - 1) (x + y + z)"
    by (simp add: manhattan_distance_def unat_saturating_add nats)
  then have "int (unat (manhattan_distance l r)) = min (2 ^ 64 - 1) (int x + int y + int z)"
    by (simp only:) simp
  then show ?thesis by (simp only: ints)
qed

lemma hex_distance_nat:
  "int (unat (hex_distance l r)) =
     min (2 ^ 64 - 1)
       ((\<bar>sint (hex_q l) - sint (hex_q r)\<bar> + \<bar>sint (hex_r l) - sint (hex_r r)\<bar>
         + \<bar>(sint (hex_q l) - sint (hex_q r)) + (sint (hex_r l) - sint (hex_r r))\<bar>) div 2)"
proof -
  let ?dq = "signed_delta (hex_q l) (hex_q r)" and ?dr = "signed_delta (hex_r l) (hex_r r)"
  let ?s = "signed_sum_magnitude ?dq ?dr"
  define t where "t = u128_add (u128_of_u64 (sm_magnitude ?dq)) (u128_of_u64 (sm_magnitude ?dr))"
  define d where "d = u128_shr (u128_add t ?s) 1"
  have s: "int (u128_nat ?s) = \<bar>(sint (hex_q l) - sint (hex_q r)) + (sint (hex_r l) - sint (hex_r r))\<bar>"
    by (rule u128_nat_signed_sum)
  have t: "u128_nat t = unat (sm_magnitude ?dq) + unat (sm_magnitude ?dr)"
    unfolding t_def using u64_less_num [of "sm_magnitude ?dq"] u64_less_num [of "sm_magnitude ?dr"]
    by (subst u128_nat_add) simp_all
  have tsum: "int (u128_nat t) = \<bar>sint (hex_q l) - sint (hex_q r)\<bar> + \<bar>sint (hex_r l) - sint (hex_r r)\<bar>"
    by (simp only: t signed_delta_def signed_magnitude.simps of_nat_add unat_abs_delta)
  have "u128_nat t + u128_nat ?s < 2 ^ 128"
    using s tsum i64_bounds [of "hex_q l"] i64_bounds [of "hex_q r"]
      i64_bounds [of "hex_r l"] i64_bounds [of "hex_r r"] by simp
  then have d: "u128_nat d = (u128_nat t + u128_nat ?s) div 2"
    by (simp add: d_def u128_nat_shr u128_nat_add)
  have hi: "unat (hi d) = u128_nat d div 2 ^ 64" "unat (lo d) = u128_nat d mod 2 ^ 64"
    by (simp_all add: u128_nat_def u64_less_num)
  have "unat (hex_distance l r) = min (2 ^ 64 - 1) (u128_nat d)"
  proof (cases "u128_nat d < 2 ^ 64")
    case True
    then have "hi d = 0" using hi by (simp add: u64_eq_nat)
    with True hi show ?thesis
      by (simp add: hex_distance_def Let_def flip: t_def d_def)
  next
    case False
    then have "hi d \<noteq> 0" using hi by (auto simp: div_eq_0_iff)
    with False show ?thesis by (simp add: hex_distance_def Let_def flip: t_def d_def)
  qed
  then have "int (unat (hex_distance l r))
      = min (2 ^ 64 - 1) ((int (u128_nat t) + int (u128_nat ?s)) div 2)"
    by (simp only: d) (simp add: zdiv_int)
  then show ?thesis by (simp only: s tsum)
qed

text \<open>
  \<open>manhattan_distance\<close> is the three-axis Manhattan metric and \<open>hex_distance\<close> the axial hex
  metric, both saturated at the uint64 maximum, over the full int64 coordinate range.
\<close>

theorem grid_distances_correct:
  "int (unat (manhattan_distance a b)) =
     min (2 ^ 64 - 1) (\<bar>sint (co_x a) - sint (co_x b)\<bar> + \<bar>sint (co_y a) - sint (co_y b)\<bar>
                        + \<bar>sint (co_z a) - sint (co_z b)\<bar>)
   \<and> int (unat (hex_distance p q)) =
     min (2 ^ 64 - 1)
       ((\<bar>sint (hex_q p) - sint (hex_q q)\<bar> + \<bar>sint (hex_r p) - sint (hex_r q)\<bar>
         + \<bar>(sint (hex_q p) - sint (hex_q q)) + (sint (hex_r p) - sint (hex_r q))\<bar>) div 2)"
  by (rule conjI [OF manhattan_distance_nat hex_distance_nat])

end
