(* ===== verification/Shape_Keys.thy ===== *)
theory Shape_Keys imports Shape begin

text \<open>
  The second half of \<open>core/shape.h\<close>: \<open>Shape\<close>, \<open>ShapeTraits\<close> and the conversions between
  world coordinates, chunk coordinates, linear identifiers and packed tile keys. \<open>TileKey\<close> keeps
  the source's two storage types: 64 bits where they suffice, \<open>UInt128\<close> otherwise.
\<close>

record shape =
  shape_size :: extent3
  shape_chunk :: extent3
  shape_lattice :: lattice_identity

datatype packed_tile_key = TileKey64 u64 | TileKey128 uint128

subsection \<open>Traits\<close>

definition chunk_count_x :: "shape \<Rightarrow> u64" where
  "chunk_count_x s = ext_x (shape_size s) div ext_x (shape_chunk s)"

definition chunk_count_y :: "shape \<Rightarrow> u64" where
  "chunk_count_y s = ext_y (shape_size s) div ext_y (shape_chunk s)"

definition chunk_count_z :: "shape \<Rightarrow> u64" where
  "chunk_count_z s = ext_z (shape_size s) div ext_z (shape_chunk s)"

definition precise_chunk_count :: "shape \<Rightarrow> uint128" where
  "precise_chunk_count s = detail_chunk_count (shape_size s) (shape_chunk s)"

definition precise_local_tile_count :: "shape \<Rightarrow> uint128" where
  "precise_local_tile_count s = extent_product (shape_chunk s)"

definition chunk_count :: "shape \<Rightarrow> u64" where
  "chunk_count s = u128_to_u64 (precise_chunk_count s)"

definition local_tile_count :: "shape \<Rightarrow> u64" where
  "local_tile_count s = u128_to_u64 (precise_local_tile_count s)"

definition local_bits :: "shape \<Rightarrow> u32" where
  "local_bits s = bits_for_count (precise_local_tile_count s)"

definition chunk_bits :: "shape \<Rightarrow> u32" where
  "chunk_bits s = bits_for_count (precise_chunk_count s)"

definition tile_key_bits :: "shape \<Rightarrow> u32" where
  "tile_key_bits s = local_bits s + chunk_bits s"

definition key_storage_is_u64 :: "shape \<Rightarrow> bool" where
  "key_storage_is_u64 s \<longleftrightarrow> tile_key_bits s \<le> 64"

definition single_chunk :: "shape \<Rightarrow> bool" where
  "single_chunk s \<longleftrightarrow> chunk_count s = 1"

definition lattice_valid_shape :: "lattice_identity \<Rightarrow> extent3 \<Rightarrow> extent3 \<Rightarrow> bool" where
  "lattice_valid_shape l sz chunk =
     (case l of Orthogonal \<Rightarrow> True | HexAxial \<Rightarrow> ext_z sz = 1 \<and> ext_z chunk = 1)"

definition shape_asserts :: "shape \<Rightarrow> bool" where
  "shape_asserts s \<longleftrightarrow>
     is_valid_extent (shape_size s) \<and>
     is_valid_extent (shape_chunk s) \<and>
     is_power_of_two (ext_x (shape_chunk s)) \<and>
     is_power_of_two (ext_y (shape_chunk s)) \<and>
     is_power_of_two (ext_z (shape_chunk s)) \<and>
     is_divisible_by (shape_size s) (shape_chunk s) \<and>
     lattice_valid_shape (shape_lattice s) (shape_size s) (shape_chunk s)"

definition traits_asserts :: "shape \<Rightarrow> bool" where
  "traits_asserts s \<longleftrightarrow>
     product_fits_uint64 (chunk_count_x s) (chunk_count_y s) (chunk_count_z s) \<and>
     product_fits_uint64 (ext_x (shape_chunk s)) (ext_y (shape_chunk s)) (ext_z (shape_chunk s)) \<and>
     ext_x (shape_size s) \<le> i64_max \<and>
     ext_y (shape_size s) \<le> i64_max \<and>
     ext_z (shape_size s) \<le> i64_max \<and>
     precise_chunk_count s \<le> u128_of_u64 u64_max \<and>
     precise_local_tile_count s \<le> u128_of_u64 u64_max \<and>
     chunk_bits s \<le> 64 \<and> tile_key_bits s \<le> 128"

definition valid_shape :: "shape \<Rightarrow> bool" where
  "valid_shape s \<longleftrightarrow> shape_asserts s \<and> traits_asserts s"

subsection \<open>Conversions\<close>

definition shape_contains :: "shape \<Rightarrow> coord3 \<Rightarrow> bool" where
  "shape_contains s c =
     box_contains \<lparr>box_origin = mk_coord3 0 0 0, box_extent = shape_size s\<rparr> c"

definition chunk_coord :: "shape \<Rightarrow> coord3 \<Rightarrow> chunk_coord3" where
  "chunk_coord s c =
     \<lparr>cc_x = co_x c div ext_x (shape_chunk s),
      cc_y = co_y c div ext_y (shape_chunk s),
      cc_z = co_z c div ext_z (shape_chunk s)\<rparr>"

definition local_coord :: "shape \<Rightarrow> coord3 \<Rightarrow> local_coord3" where
  "local_coord s c =
     \<lparr>lc_x = co_x c mod ext_x (shape_chunk s),
      lc_y = co_y c mod ext_y (shape_chunk s),
      lc_z = co_z c mod ext_z (shape_chunk s)\<rparr>"

definition local_tile_id :: "shape \<Rightarrow> local_coord3 \<Rightarrow> local_tile_id" where
  "local_tile_id s l =
     LocalTileId (lc_x l + lc_y l * ext_x (shape_chunk s)
                  + lc_z l * ext_x (shape_chunk s) * ext_y (shape_chunk s))"

definition coord_of :: "shape \<Rightarrow> chunk_coord3 \<Rightarrow> local_tile_id \<Rightarrow> coord3" where
  "coord_of s cc lid =
     (let cx = ext_x (shape_chunk s); cy = ext_y (shape_chunk s); cz = ext_z (shape_chunk s);
          local_xy = cx * cy;
          local_z = tile_value lid div local_xy;
          remainder = tile_value lid mod local_xy;
          local_y = remainder div cx;
          local_x = remainder mod cx
      in \<lparr>co_x = cc_x cc * cx + local_x, co_y = cc_y cc * cy + local_y, co_z = cc_z cc * cz + local_z\<rparr>)"

definition chunk_key :: "shape \<Rightarrow> chunk_coord3 \<Rightarrow> chunk_key" where
  "chunk_key s c =
     ChunkKey (cc_x c + cc_y c * chunk_count_x s + cc_z c * chunk_count_x s * chunk_count_y s)"

definition chunk_coord_of_key :: "shape \<Rightarrow> chunk_key \<Rightarrow> chunk_coord3" where
  "chunk_coord_of_key s k =
     (let chunk_xy = chunk_count_x s * chunk_count_y s;
          z = key_value k div chunk_xy;
          remainder = key_value k mod chunk_xy;
          y = remainder div chunk_count_x s;
          x = remainder mod chunk_count_x s
      in \<lparr>cc_x = x, cc_y = y, cc_z = z\<rparr>)"

definition tile_key :: "shape \<Rightarrow> coord3 \<Rightarrow> packed_tile_key option" where
  "tile_key s c =
     (if \<not> shape_contains s c then None
      else let local = tile_value (local_tile_id s (local_coord s c))
           in if chunk_bits s = 0
              then Some (if key_storage_is_u64 s then TileKey64 local
                         else TileKey128 (u128_of_u64 local))
              else let chunk = key_value (chunk_key s (chunk_coord s c))
                   in Some (if key_storage_is_u64 s
                            then TileKey64 (push_bit (unat (local_bits s)) chunk OR local)
                            else TileKey128 (u128_or (u128_shl (u128_of_u64 chunk) (local_bits s))
                                               (u128_of_u64 local))))"

definition chunk_key_of_tile :: "shape \<Rightarrow> packed_tile_key \<Rightarrow> chunk_key" where
  "chunk_key_of_tile s k =
     (if chunk_bits s = 0 then ChunkKey 0
      else case k of
             TileKey64 v \<Rightarrow> ChunkKey (drop_bit (unat (local_bits s)) v)
           | TileKey128 v \<Rightarrow> ChunkKey (u128_to_u64 (u128_shr v (local_bits s))))"

definition local_tile_id_of_tile :: "shape \<Rightarrow> packed_tile_key \<Rightarrow> local_tile_id" where
  "local_tile_id_of_tile s k =
     (case k of
        TileKey64 v \<Rightarrow>
          LocalTileId (v AND (if local_bits s = 64 then u64_max
                              else push_bit (unat (local_bits s)) 1 - 1))
      | TileKey128 v \<Rightarrow>
          LocalTileId (u128_to_u64 (u128_and v
            (if local_bits s = 64 then u128_of_u64 u64_max
             else u128_sub (u128_shl (u128_of_u64 1) (local_bits s)) (u128_of_u64 1)))))"

definition coord_of_key :: "shape \<Rightarrow> packed_tile_key \<Rightarrow> coord3" where
  "coord_of_key s k = coord_of s (chunk_coord_of_key s (chunk_key_of_tile s k)) (local_tile_id_of_tile s k)"

subsection \<open>Mixed-radix arithmetic on natural numbers\<close>

lemma mixed_radix_bound:
  fixes a b c m n p :: nat
  assumes "a < m" "b < n" "c < p"
  shows "a + b * m < m * n" and "a + b * m + c * m * n < m * n * p"
proof -
  have "a + b * m < Suc b * m" using assms by simp
  also have "\<dots> \<le> n * m" using assms by (intro mult_right_mono) auto
  finally show 1: "a + b * m < m * n" by (simp add: mult.commute)
  have "a + b * m + c * m * n < Suc c * (m * n)" using 1 by (simp add: algebra_simps)
  also have "\<dots> \<le> p * (m * n)" using assms by (intro mult_right_mono) auto
  finally show "a + b * m + c * m * n < m * n * p" by (simp add: mult.commute)
qed

lemma mixed_radix_decode:
  fixes a b c m n :: nat
  assumes "a < m" "b < n"
  shows "(a + b * m + c * m * n) div (m * n) = c"
    and "(a + b * m + c * m * n) mod (m * n) = a + b * m"
    and "(a + b * m) div m = b" and "(a + b * m) mod m = a"
proof -
  have gen: "x < q \<Longrightarrow> (x + c * q) div q = c \<and> (x + c * q) mod q = x" for x q :: nat by auto
  have lt: "a + b * m < m * n" using mixed_radix_bound(1) assms by blast
  then show "(a + b * m + c * m * n) div (m * n) = c"
    and "(a + b * m + c * m * n) mod (m * n) = a + b * m"
    by (simp_all only: mult.assoc gen)
  show "(a + b * m) div m = b" and "(a + b * m) mod m = a" using assms by auto
qed

lemma mixed_radix_encode:
  fixes v m n :: nat
  shows "v mod (m * n) mod m + v mod (m * n) div m * m + v div (m * n) * m * n = v"
  by (metis add.commute div_mult_mod_eq mult.assoc)

subsection \<open>What the static assertions give\<close>

lemma product_fits_iff:
  "0 < unat y \<Longrightarrow> 0 < unat z \<Longrightarrow>
   product_fits_uint64 x y z \<longleftrightarrow> unat x * unat y * unat z < 2 ^ 64"
proof -
  assume pos: "0 < unat y" "0 < unat z"
  have le_div: "a \<le> (2 ^ 64 - 1) div b \<longleftrightarrow> a * b < 2 ^ 64" if "0 < b" for a b :: nat
  proof -
    have "a \<le> (2 ^ 64 - 1) div b \<longleftrightarrow> a * b \<le> 2 ^ 64 - 1"
      using that by (rule less_eq_div_iff_mult_less_eq)
    then show ?thesis by auto
  qed
  have first: "u64_max div y < x \<longleftrightarrow> \<not> unat x * unat y < 2 ^ 64"
    using le_div [OF pos(1), of "unat x"] by (simp only: u64_less_nat unat_div_u64 unat_u64_max) linarith
  show ?thesis
  proof (cases "unat x * unat y < 2 ^ 64")
    case True
    then have "x * y \<le> u64_max div z \<longleftrightarrow> unat x * unat y * unat z < 2 ^ 64"
      using le_div [OF pos(2), of "unat x * unat y"]
      by (simp only: u64_le_nat unat_div_u64 unat_u64_max unat_mult_u64)
    with True first show ?thesis by (simp add: product_fits_uint64_def)
  next
    case False
    have "unat x * unat y \<le> unat x * unat y * unat z" using pos by simp
    with False have "\<not> unat x * unat y * unat z < 2 ^ 64" by linarith
    with False first show ?thesis by (simp only: product_fits_uint64_def if_True simp_thms)
  qed
qed

lemma u128_nat_product3:
  "unat x * unat y * unat z < 2 ^ 64 \<Longrightarrow>
   u128_nat (u128_mul (u128_mul (u128_of_u64 x) (u128_of_u64 y)) (u128_of_u64 z))
   = unat x * unat y * unat z"
  if "0 < unat z"
proof -
  assume lt: "unat x * unat y * unat z < 2 ^ 64"
  have "unat x * unat y \<le> unat x * unat y * unat z" using that by simp
  with lt have "unat x * unat y < 2 ^ 64" by linarith
  with lt show ?thesis by (simp add: u128_nat_mul)
qed

text \<open>The dimensions as natural numbers, with the bounds all later proofs use.\<close>

definition nx :: "shape \<Rightarrow> nat" where "nx s = unat (chunk_count_x s)"
definition ny :: "shape \<Rightarrow> nat" where "ny s = unat (chunk_count_y s)"
definition nz :: "shape \<Rightarrow> nat" where "nz s = unat (chunk_count_z s)"
definition cx :: "shape \<Rightarrow> nat" where "cx s = unat (ext_x (shape_chunk s))"
definition cy :: "shape \<Rightarrow> nat" where "cy s = unat (ext_y (shape_chunk s))"
definition cz :: "shape \<Rightarrow> nat" where "cz s = unat (ext_z (shape_chunk s))"

lemmas dims_def = nx_def ny_def nz_def cx_def cy_def cz_def

lemma dims_pos:
  assumes "valid_shape s"
  shows "0 < cx s" "0 < cy s" "0 < cz s" "0 < nx s" "0 < ny s" "0 < nz s"
proof -
  have *: "0 < unat c \<and> 0 < unat (n div c)" if "0 < n" "0 < c" "n mod c = 0" for n c :: u64
  proof -
    have "unat n mod unat c = 0" using that(3) by (simp flip: unat_mod_u64)
    moreover have "0 < unat n" "0 < unat c" using that by (simp_all add: u64_less_nat)
    ultimately have "0 < unat n div unat c" by (auto simp: div_greater_zero_iff dvd_imp_le mod_eq_0_iff_dvd)
    with \<open>0 < unat c\<close> show ?thesis by (simp add: unat_div_u64)
  qed
  from assms show "0 < cx s" "0 < cy s" "0 < cz s" "0 < nx s" "0 < ny s" "0 < nz s"
    by (auto simp: valid_shape_def shape_asserts_def is_valid_extent_def is_divisible_by_def dims_def
        chunk_count_x_def chunk_count_y_def chunk_count_z_def *)
qed

lemma size_dims:
  assumes "valid_shape s"
  shows "unat (ext_x (shape_size s)) = nx s * cx s" "unat (ext_y (shape_size s)) = ny s * cy s"
    "unat (ext_z (shape_size s)) = nz s * cz s"
    "nx s * cx s < 2 ^ 63" "ny s * cy s < 2 ^ 63" "nz s * cz s < 2 ^ 63"
proof -
  have *: "unat n = unat (n div c) * unat c" if "n mod c = 0" for n c :: u64
  proof -
    have "unat (n mod c) = 0" using that by simp
    then have "unat n mod unat c = 0" by (simp only: unat_mod_u64)
    then show ?thesis by (simp only: unat_div_u64) (metis add.right_neutral div_mult_mod_eq)
  qed
  show X: "unat (ext_x (shape_size s)) = nx s * cx s" "unat (ext_y (shape_size s)) = ny s * cy s"
    "unat (ext_z (shape_size s)) = nz s * cz s"
    using assms * by (simp_all add: valid_shape_def shape_asserts_def is_divisible_by_def dims_def
        chunk_count_x_def chunk_count_y_def chunk_count_z_def)
  have m: "unat i64_max = 2 ^ 63 - 1" by (simp add: i64_max_def)
  show "nx s * cx s < 2 ^ 63" "ny s * cy s < 2 ^ 63" "nz s * cz s < 2 ^ 63"
    using assms by (auto simp: valid_shape_def traits_asserts_def u64_le_nat m simp flip: X)
qed

lemma count_dims:
  assumes "valid_shape s"
  shows "nx s * ny s * nz s < 2 ^ 64" "cx s * cy s * cz s < 2 ^ 64"
    "u128_nat (precise_chunk_count s) = nx s * ny s * nz s"
    "u128_nat (precise_local_tile_count s) = cx s * cy s * cz s"
    "unat (chunk_count s) = nx s * ny s * nz s"
    "unat (local_tile_count s) = cx s * cy s * cz s"
proof -
  note pos = dims_pos [OF assms]
  show n: "nx s * ny s * nz s < 2 ^ 64" and c: "cx s * cy s * cz s < 2 ^ 64"
    using assms pos
    by (auto simp: valid_shape_def traits_asserts_def dims_def product_fits_iff)
  show P: "u128_nat (precise_chunk_count s) = nx s * ny s * nz s"
    using u128_nat_product3 pos(6) n
    by (simp add: precise_chunk_count_def detail_chunk_count_def dims_def
        chunk_count_x_def chunk_count_y_def chunk_count_z_def)
  show L: "u128_nat (precise_local_tile_count s) = cx s * cy s * cz s"
    using u128_nat_product3 pos(3) c
    by (simp add: precise_local_tile_count_def extent_product_def dims_def)
  show "unat (chunk_count s) = nx s * ny s * nz s" "unat (local_tile_count s) = cx s * cy s * cz s"
    using n c by (simp_all add: chunk_count_def local_tile_count_def unat_u128_to_u64 P L)
qed


lemma bit_counts:
  assumes "valid_shape s"
  shows "cx s * cy s * cz s \<le> 2 ^ unat (local_bits s)" "nx s * ny s * nz s \<le> 2 ^ unat (chunk_bits s)"
    "unat (local_bits s) \<le> 64" "unat (chunk_bits s) \<le> 64"
    "unat (tile_key_bits s) = unat (local_bits s) + unat (chunk_bits s)"
    "chunk_bits s = 0 \<Longrightarrow> nx s * ny s * nz s = 1"
proof -
  note c = count_dims [OF assms] and p = dims_pos [OF assms]
  show L: "cx s * cy s * cz s \<le> 2 ^ unat (local_bits s)"
    and N: "nx s * ny s * nz s \<le> 2 ^ unat (chunk_bits s)"
    using bits_for_count_spec(1) [of "precise_local_tile_count s"]
      bits_for_count_spec(1) [of "precise_chunk_count s"]
    by (simp_all add: local_bits_def chunk_bits_def c)
  have small: "unat (bits_for_count v) \<le> 64" if "u128_nat v < 2 ^ 64" for v
  proof (cases "1 < u128_nat v")
    case True
    have "(2 :: nat) ^ unat (bits_for_count v) < 2 * u128_nat v"
      using bits_for_count_spec(2) [OF True] .
    also have "\<dots> < 2 ^ 65" using that by simp
    finally have "unat (bits_for_count v) < 65" by (rule power_less_imp_less_exp [rotated]) simp
    then show ?thesis by simp
  next
    case False
    then show ?thesis by (simp add: bits_for_count_def u128_le_nat)
  qed
  show lb: "unat (local_bits s) \<le> 64" and cb: "unat (chunk_bits s) \<le> 64"
    using small c by (simp_all add: local_bits_def chunk_bits_def)
  show "unat (tile_key_bits s) = unat (local_bits s) + unat (chunk_bits s)"
    using lb cb by (simp add: tile_key_bits_def unat_word_ariths)
  show "nx s * ny s * nz s = 1" if "chunk_bits s = 0"
  proof -
    have "nx s * ny s * nz s \<le> 1" using N that by simp
    moreover have "0 < nx s * ny s * nz s" using p by simp
    ultimately show ?thesis by linarith
  qed
qed

subsection \<open>Coordinates inside the shape\<close>

lemma shape_contains_iff:
  assumes "valid_shape s"
  shows "shape_contains s c \<longleftrightarrow>
     unat (co_x c) < nx s * cx s \<and> unat (co_y c) < ny s * cy s \<and> unat (co_z c) < nz s * cz s"
proof -
  note sz = size_dims [OF assms]
  have *: "axis_contains 0 e v \<longleftrightarrow> unat v < unat e" if "unat e < 2 ^ 63" for e v
  proof (cases "unat v < 2 ^ 63")
    case True
    show ?thesis
      by (simp only: axis_contains_iff sint_word_of_small [OF True] sint_0 of_nat_less_iff
          of_nat_0_le_iff add_0 simp_thms)
  next
    case False
    then have "sint v < 0" using sint_nonneg_iff [of v] by linarith
    with False that show ?thesis by (simp add: axis_contains_iff)
  qed
  show ?thesis
    using sz by (simp add: shape_contains_def box_contains_def mk_coord3_def *)
qed

lemma chunk_coord_nat:
  "unat (cc_x (chunk_coord s c)) = unat (co_x c) div cx s"
  "unat (cc_y (chunk_coord s c)) = unat (co_y c) div cy s"
  "unat (cc_z (chunk_coord s c)) = unat (co_z c) div cz s"
  by (simp_all add: chunk_coord_def unat_div_u64 dims_def)

lemma local_coord_nat:
  "unat (lc_x (local_coord s c)) = unat (co_x c) mod cx s"
  "unat (lc_y (local_coord s c)) = unat (co_y c) mod cy s"
  "unat (lc_z (local_coord s c)) = unat (co_z c) mod cz s"
  by (simp_all add: local_coord_def unat_mod_u64 dims_def)

definition chunk_in_range :: "shape \<Rightarrow> chunk_coord3 \<Rightarrow> bool" where
  "chunk_in_range s c \<longleftrightarrow> unat (cc_x c) < nx s \<and> unat (cc_y c) < ny s \<and> unat (cc_z c) < nz s"

definition local_in_range :: "shape \<Rightarrow> local_coord3 \<Rightarrow> bool" where
  "local_in_range s l \<longleftrightarrow> unat (lc_x l) < cx s \<and> unat (lc_y l) < cy s \<and> unat (lc_z l) < cz s"

lemma coords_in_range:
  assumes "valid_shape s" "shape_contains s c"
  shows "chunk_in_range s (chunk_coord s c)" "local_in_range s (local_coord s c)"
  using assms dims_pos [OF assms(1)]
  by (simp_all add: shape_contains_iff chunk_in_range_def local_in_range_def chunk_coord_nat
      local_coord_nat less_mult_imp_div_less)

lemma word_mixed_radix:
  fixes a b c m n :: u64
  assumes "unat a < unat m" "unat b < unat n" "unat c < p" "unat m * unat n * p < 2 ^ 64"
  shows "unat (a + b * m + c * m * n) = unat a + unat b * unat m + unat c * unat m * unat n"
proof -
  note B = mixed_radix_bound(2) [OF assms(1-3)]
  have mono: "unat c * unat m \<le> unat c * unat m * unat n" using assms(2) by simp
  have lt: "unat c * unat m * unat n < 2 ^ 64" "unat b * unat m < 2 ^ 64"
    using B assms(4) by linarith+
  with mono have "unat c * unat m < 2 ^ 64" by linarith
  with lt have 1: "unat (b * m) = unat b * unat m" "unat (c * m) = unat c * unat m"
    by (simp_all only: unat_mult_u64)
  with lt have 2: "unat (c * m * n) = unat c * unat m * unat n"
    by (simp only: unat_mult_u64)
  have 3: "unat (a + b * m) = unat a + unat b * unat m"
    using 1 B assms(4) by (subst unat_add_u64) auto
  show ?thesis using 2 3 B assms(4) by (subst unat_add_u64) auto
qed

lemma chunk_key_nat:
  assumes "valid_shape s" "chunk_in_range s c"
  shows "unat (key_value (chunk_key s c)) = unat (cc_x c) + unat (cc_y c) * nx s + unat (cc_z c) * nx s * ny s"
    and "unat (key_value (chunk_key s c)) < nx s * ny s * nz s"
proof -
  show "unat (key_value (chunk_key s c)) = unat (cc_x c) + unat (cc_y c) * nx s + unat (cc_z c) * nx s * ny s"
    unfolding chunk_key_def chunk_key.sel using assms(2) count_dims(1) [OF assms(1)]
    by (simp only: chunk_in_range_def dims_def)
       (rule word_mixed_radix [where p = "unat (chunk_count_z s)"], auto)
  then show "unat (key_value (chunk_key s c)) < nx s * ny s * nz s"
    using assms(2) by (simp add: chunk_in_range_def mixed_radix_bound)
qed

lemma local_tile_id_nat:
  assumes "valid_shape s" "local_in_range s l"
  shows "unat (tile_value (local_tile_id s l)) = unat (lc_x l) + unat (lc_y l) * cx s + unat (lc_z l) * cx s * cy s"
    and "unat (tile_value (local_tile_id s l)) < cx s * cy s * cz s"
proof -
  show "unat (tile_value (local_tile_id s l)) = unat (lc_x l) + unat (lc_y l) * cx s + unat (lc_z l) * cx s * cy s"
    unfolding local_tile_id_def local_tile_id.sel using assms(2) count_dims(2) [OF assms(1)]
    by (simp only: local_in_range_def dims_def)
       (rule word_mixed_radix [where p = "unat (ext_z (shape_chunk s))"], auto)
  then show "unat (tile_value (local_tile_id s l)) < cx s * cy s * cz s"
    using assms(2) by (simp add: local_in_range_def mixed_radix_bound)
qed


subsection \<open>Packing and unpacking keys\<close>

definition tile_key_nat :: "packed_tile_key \<Rightarrow> nat" where
  "tile_key_nat k = (case k of TileKey64 v \<Rightarrow> unat v | TileKey128 v \<Rightarrow> u128_nat v)"

lemma pack_word:
  fixes k l :: "'a :: len word"
  assumes "unat l < 2 ^ n" "unat k * 2 ^ n + unat l < 2 ^ LENGTH('a)"
  shows "unat (push_bit n k OR l) = unat k * 2 ^ n + unat l"
proof -
  have "unat (take_bit n l) = unat l"
    using assms(1) by (simp only: unsigned_take_bit_eq take_bit_nat_eq_self)
  then have "take_bit n l = l" by (rule unsigned_word_eqI)
  then have "bit l i \<Longrightarrow> i < n" for i by (metis bit_take_bit_iff)
  then have "push_bit n k AND l = 0"
    by (intro bit_word_eqI) (auto simp: bit_and_iff bit_push_bit_iff not_le)
  then have "push_bit n k OR l = push_bit n k + l" by (simp add: disjunctive_add_eq_or)
  moreover have "unat (push_bit n k) = unat k * 2 ^ n"
    using assms by (simp add: unat_shl)
  ultimately show ?thesis using assms by (simp add: unat_word_ariths)
qed

lemma tile_key_value:
  assumes "valid_shape s" "tile_key s c = Some k"
  shows "tile_key_nat k = unat (key_value (chunk_key s (chunk_coord s c))) * 2 ^ unat (local_bits s)
           + unat (tile_value (local_tile_id s (local_coord s c)))"
    and "key_storage_is_u64 s \<longleftrightarrow> (\<exists>v. k = TileKey64 v)"
proof -
  let ?l = "tile_value (local_tile_id s (local_coord s c))"
  let ?k = "key_value (chunk_key s (chunk_coord s c))"
  let ?b = "unat (local_bits s)" and ?d = "unat (chunk_bits s)"
  note bc = bit_counts [OF assms(1)]
  have con: "shape_contains s c" using assms(2) by (simp add: tile_key_def split: if_splits)
  note R = coords_in_range [OF assms(1) con]
  have l: "unat ?l < 2 ^ ?b" using local_tile_id_nat(2) [OF assms(1) R(2)] bc(1) by linarith
  have k: "unat ?k < 2 ^ ?d" using chunk_key_nat(2) [OF assms(1) R(1)] bc(2) by linarith
  have "unat ?l + unat ?k * 2 ^ ?b < 2 ^ ?b * 2 ^ ?d" using mixed_radix_bound(1) [OF l k zero_less_one] .
  then have P: "unat ?k * 2 ^ ?b + unat ?l < 2 ^ (?b + ?d)" by (subst add.commute, subst power_add)
  have shl: "unat (u128_word (u128_or (u128_shl (u128_of_u64 ?k) (local_bits s)) (u128_of_u64 ?l)))
      = unat ?k * 2 ^ ?b + unat ?l" 
  proof -
    have "(2 :: nat) ^ (?b + ?d) \<le> 2 ^ 128" using bc(3,4) by (intro power_increasing) auto
    with P have "unat ?k * 2 ^ ?b + unat ?l < 2 ^ 128" by linarith
    then show ?thesis using l
      by (simp only: u128_word_or u128_word_shl) (subst pack_word, simp_all add: unat_u128_word)
  qed
  have or64: "unat (push_bit ?b ?k OR ?l) = unat ?k * 2 ^ ?b + unat ?l" if "key_storage_is_u64 s"
  proof -
    have "?b + ?d \<le> 64" using that bc(5) by (simp add: key_storage_is_u64_def word_le_nat_alt)
    then have "(2 :: nat) ^ (?b + ?d) \<le> 2 ^ 64" by (intro power_increasing) auto
    with P have "unat ?k * 2 ^ ?b + unat ?l < 2 ^ 64" by linarith
    then show ?thesis using l by (subst pack_word) simp_all
  qed
  have zero: "unat ?k = 0" if "chunk_bits s = 0" using k that by simp
  show "tile_key_nat k = unat ?k * 2 ^ ?b + unat ?l"
    using assms(2) con shl or64 zero
    by (auto simp: tile_key_def tile_key_nat_def Let_def unat_u128_word split: if_splits)
  show "key_storage_is_u64 s \<longleftrightarrow> (\<exists>v. k = TileKey64 v)"
    using assms(2) con by (auto simp: tile_key_def Let_def split: if_splits)
qed

lemma unpack_key:
  assumes "valid_shape s" "key_storage_is_u64 s \<longleftrightarrow> (\<exists>v. k = TileKey64 v)"
  shows "unat (tile_value (local_tile_id_of_tile s k)) = tile_key_nat k mod 2 ^ unat (local_bits s)"
    and "tile_key_nat k < 2 ^ unat (tile_key_bits s) \<Longrightarrow>
         unat (key_value (chunk_key_of_tile s k)) = tile_key_nat k div 2 ^ unat (local_bits s)"
proof -
  let ?b = "unat (local_bits s)" and ?d = "unat (chunk_bits s)"
  note bc = bit_counts [OF assms(1)]
  have full: "local_bits s = 64 \<longleftrightarrow> ?b = 64" by (simp add: word_unat_eq_iff)
  have mask64: "(if local_bits s = 64 then u64_max else push_bit ?b 1 - 1) = (mask ?b :: u64)"
    by (simp add: full u64_max_def mask_eq_exp_minus_1)
  have m128: "u128_nat (if local_bits s = 64 then u128_of_u64 u64_max
             else u128_sub (u128_shl (u128_of_u64 1) (local_bits s)) (u128_of_u64 1)) = 2 ^ ?b - 1"
  proof (cases "local_bits s = 64")
    case True
    then show ?thesis by simp
  next
    case False
    have small: "(int ((1 * n) mod 2 ^ 128) - 1) mod 2 ^ 128 = int (n - 1)"
      if "1 \<le> n" "n \<le> 2 ^ 64" for n :: nat
      using that by (simp add: of_nat_diff mod_pos_pos_trivial)
    have "(2 :: nat) ^ ?b \<le> 2 ^ 64" using bc(3) by (intro power_increasing) auto
    moreover have "(1 :: nat) \<le> 2 ^ ?b" by simp
    moreover have "int (u128_nat (u128_sub (u128_shl (u128_of_u64 1) (local_bits s)) (u128_of_u64 1)))
        = (int ((1 * 2 ^ ?b) mod 2 ^ 128) - 1) mod 2 ^ 128"
      by (simp only: u128_nat_sub u128_nat_shl u128_nat_of_u64 unsigned_1 of_nat_1)
    ultimately have "int (u128_nat (u128_sub (u128_shl (u128_of_u64 1) (local_bits s)) (u128_of_u64 1)))
        = int (2 ^ ?b - 1)" by (simp only: small)
    with False show ?thesis by (simp only: if_False of_nat_eq_iff)
  qed
  show "unat (tile_value (local_tile_id_of_tile s k)) = tile_key_nat k mod 2 ^ ?b"
  proof (cases k)
    case (TileKey64 v)
    then show ?thesis
      by (simp add: local_tile_id_of_tile_def mask64 unat_and_mask tile_key_nat_def)
  next
    case (TileKey128 v)
    define M where "M = (if local_bits s = 64 then u128_of_u64 u64_max
             else u128_sub (u128_shl (u128_of_u64 1) (local_bits s)) (u128_of_u64 1))"
    have "unat (mask ?b :: 128 word) = take_bit ?b (mask LENGTH(128) :: nat)"
      by (simp only: mask_eq_take_bit_minus_one [where 'a = "128 word"] unsigned_take_bit_eq
          unsigned_minus_1_eq_mask)
    also have "\<dots> = mask ?b" using bc(3) by (simp only: take_bit_of_mask) (simp only: min_def, simp)
    finally have mask_nat: "unat (mask ?b :: 128 word) = 2 ^ ?b - 1" by (simp only: mask_eq_exp_minus_1)
    have "unat (u128_word M) = unat (mask ?b :: 128 word)"
      by (simp only: unat_u128_word M_def m128 mask_nat)
    then have "u128_word M = mask ?b" by (rule unsigned_word_eqI)
    then have "u128_nat (u128_and v M) = u128_nat v mod 2 ^ ?b"
      by (simp only: u128_word_and unat_and_mask flip: unat_u128_word)
    moreover have "u128_nat v mod 2 ^ ?b < 2 ^ 64"
    proof -
      have "u128_nat v mod 2 ^ ?b < 2 ^ ?b" by simp
      also have "\<dots> \<le> 2 ^ 64" using bc(3) by (intro power_increasing) auto
      finally show ?thesis .
    qed
    ultimately show ?thesis
      by (simp add: TileKey128 local_tile_id_of_tile_def unat_u128_to_u64 tile_key_nat_def flip: M_def)
  qed
  show "unat (key_value (chunk_key_of_tile s k)) = tile_key_nat k div 2 ^ ?b"
    if lt: "tile_key_nat k < 2 ^ unat (tile_key_bits s)"
  proof -
    have q: "tile_key_nat k div 2 ^ ?b < 2 ^ ?d"
      using lt by (simp add: bc(5) power_add less_mult_imp_div_less mult.commute)
    show ?thesis
    proof (cases "chunk_bits s = 0")
      case True
      with q show ?thesis by (simp add: chunk_key_of_tile_def)
    next
      case nz: False
      have "(2 :: nat) ^ ?d \<le> 2 ^ 64" using bc(4) by (intro power_increasing) auto
      with q have "tile_key_nat k div 2 ^ ?b < 2 ^ 64" by linarith
      with nz show ?thesis
        by (cases k) (simp_all add: chunk_key_of_tile_def unat_shr tile_key_nat_def
            unat_u128_to_u64 u128_nat_shr)
    qed
  qed
qed

lemma coord_of_nat:
  assumes "valid_shape s" "chunk_in_range s cc" "unat (tile_value l) < cx s * cy s * cz s"
  shows "unat (co_x (coord_of s cc l)) = unat (cc_x cc) * cx s + unat (tile_value l) mod (cx s * cy s) mod cx s"
    and "unat (co_y (coord_of s cc l)) = unat (cc_y cc) * cy s + unat (tile_value l) mod (cx s * cy s) div cx s"
    and "unat (co_z (coord_of s cc l)) = unat (cc_z cc) * cz s + unat (tile_value l) div (cx s * cy s)"
proof -
  note p = dims_pos [OF assms(1)] and sz = size_dims [OF assms(1)]
  let ?v = "unat (tile_value l)"
  have xy: "unat (ext_x (shape_chunk s) * ext_y (shape_chunk s)) = cx s * cy s"
  proof -
    have "cx s * cy s \<le> cx s * cy s * cz s" using p by simp
    with count_dims(2) [OF assms(1)] have "cx s * cy s < 2 ^ 64" by linarith
    then show ?thesis by (simp only: dims_def unat_mult_u64)
  qed
  have bx: "?v mod (cx s * cy s) mod cx s < cx s" using p by simp
  have by': "?v mod (cx s * cy s) div cx s < cy s"
    using p by (simp add: less_mult_imp_div_less mult.commute)
  have bz: "?v div (cx s * cy s) < cz s"
    using assms(3) by (simp add: less_mult_imp_div_less mult.commute)
  have step: "unat (a * e + b) = unat a * unat e + unat b"
    if "unat a < n" "unat b < unat e" "n * unat e < 2 ^ 63" for a b e :: u64 and n
  proof -
    have "unat b + unat a * unat e < unat e * n" using mixed_radix_bound(1) [OF that(2,1) zero_less_one] .
    then have "unat a * unat e + unat b < 2 ^ 64" using that(3) by (simp add: mult.commute)
    then show ?thesis by (simp add: unat_add_u64 unat_mult_u64)
  qed
  show "unat (co_x (coord_of s cc l)) = unat (cc_x cc) * cx s + ?v mod (cx s * cy s) mod cx s"
    "unat (co_y (coord_of s cc l)) = unat (cc_y cc) * cy s + ?v mod (cx s * cy s) div cx s"
    "unat (co_z (coord_of s cc l)) = unat (cc_z cc) * cz s + ?v div (cx s * cy s)"
    using assms(2) sz(4-6) bx by' bz xy
    by (simp_all add: coord_of_def Let_def chunk_in_range_def step [where n = "nx s"] step [where n = "ny s"]
        step [where n = "nz s"] unat_mod_u64 unat_div_u64 flip: dims_def)
qed

lemma chunk_coord_of_key_nat:
  assumes "valid_shape s" "unat (key_value k) < nx s * ny s * nz s"
  shows "unat (cc_x (chunk_coord_of_key s k)) = unat (key_value k) mod (nx s * ny s) mod nx s"
    and "unat (cc_y (chunk_coord_of_key s k)) = unat (key_value k) mod (nx s * ny s) div nx s"
    and "unat (cc_z (chunk_coord_of_key s k)) = unat (key_value k) div (nx s * ny s)"
    and "chunk_in_range s (chunk_coord_of_key s k)"
proof -
  note p = dims_pos [OF assms(1)]
  have xy: "unat (chunk_count_x s * chunk_count_y s) = nx s * ny s"
  proof -
    have "nx s * ny s \<le> nx s * ny s * nz s" using p by simp
    with count_dims(1) [OF assms(1)] have "nx s * ny s < 2 ^ 64" by linarith
    then show ?thesis by (simp only: dims_def unat_mult_u64)
  qed
  show "unat (cc_x (chunk_coord_of_key s k)) = unat (key_value k) mod (nx s * ny s) mod nx s"
    "unat (cc_y (chunk_coord_of_key s k)) = unat (key_value k) mod (nx s * ny s) div nx s"
    "unat (cc_z (chunk_coord_of_key s k)) = unat (key_value k) div (nx s * ny s)"
    by (simp_all add: chunk_coord_of_key_def Let_def unat_mod_u64 unat_div_u64 xy flip: nx_def)
  then show "chunk_in_range s (chunk_coord_of_key s k)"
    using assms(2) p by (simp add: chunk_in_range_def less_mult_imp_div_less mult.commute)
qed


lemma coord3_eqI:
  "unat (co_x a) = unat (co_x b) \<Longrightarrow> unat (co_y a) = unat (co_y b) \<Longrightarrow>
   unat (co_z a) = unat (co_z b) \<Longrightarrow> a = (b :: coord3)"
  by (cases a; cases b) (simp add: word_unat_eq_iff)

lemma chunk_coord3_eqI:
  "unat (cc_x a) = unat (cc_x b) \<Longrightarrow> unat (cc_y a) = unat (cc_y b) \<Longrightarrow>
   unat (cc_z a) = unat (cc_z b) \<Longrightarrow> a = (b :: chunk_coord3)"
  by (cases a; cases b) (simp add: word_unat_eq_iff)

lemma chunk_key_eqI: "unat (key_value a) = unat (key_value b) \<Longrightarrow> a = b"
  by (cases a; cases b) (simp add: word_unat_eq_iff)

lemma local_tile_id_eqI: "unat (tile_value a) = unat (tile_value b) \<Longrightarrow> a = b"
  by (cases a; cases b) (simp add: word_unat_eq_iff)

lemma chunk_key_round:
  assumes "valid_shape s"
  shows "chunk_in_range s c \<Longrightarrow> chunk_coord_of_key s (chunk_key s c) = c"
    and "unat (key_value k) < nx s * ny s * nz s \<Longrightarrow> chunk_key s (chunk_coord_of_key s k) = k"
proof -
  show "chunk_coord_of_key s (chunk_key s c) = c" if c: "chunk_in_range s c"
  proof -
    note k = chunk_key_nat [OF assms c]
    have r: "unat (cc_x c) < nx s" "unat (cc_y c) < ny s" using c by (simp_all add: chunk_in_range_def)
    show ?thesis
      by (rule chunk_coord3_eqI)
         (simp_all only: chunk_coord_of_key_nat [OF assms k(2)] k(1) mixed_radix_decode [OF r])
  qed
  show "chunk_key s (chunk_coord_of_key s k) = k" if k: "unat (key_value k) < nx s * ny s * nz s"
    by (rule chunk_key_eqI)
       (simp only: chunk_key_nat(1) [OF assms chunk_coord_of_key_nat(4) [OF assms k]]
          chunk_coord_of_key_nat(1-3) [OF assms k] mixed_radix_encode)
qed

lemma coord_of_chunk_local:
  assumes "valid_shape s" "shape_contains s c"
  shows "coord_of s (chunk_coord s c) (local_tile_id s (local_coord s c)) = c"
proof -
  note R = coords_in_range [OF assms]
  note l = local_tile_id_nat [OF assms(1) R(2)]
  have r: "unat (lc_x (local_coord s c)) < cx s" "unat (lc_y (local_coord s c)) < cy s"
    using R(2) by (simp_all add: local_in_range_def)
  show ?thesis
    by (rule coord3_eqI)
       (simp_all only: coord_of_nat [OF assms(1) R(1) l(2)] l(1) mixed_radix_decode [OF r]
          chunk_coord_nat local_coord_nat mixed_radix_decode [OF r [unfolded local_coord_nat]] div_mult_mod_eq)
qed

lemma coord_of_in_shape:
  assumes "valid_shape s" "chunk_in_range s cc" "unat (tile_value l) < cx s * cy s * cz s"
  shows "shape_contains s (coord_of s cc l)" "chunk_coord s (coord_of s cc l) = cc"
    "local_tile_id s (local_coord s (coord_of s cc l)) = l"
proof -
  note p = dims_pos [OF assms(1)] and co = coord_of_nat [OF assms]
  let ?v = "unat (tile_value l)"
  have bx: "?v mod (cx s * cy s) mod cx s < cx s" using p by simp
  have by': "?v mod (cx s * cy s) div cx s < cy s"
    using p by (simp add: less_mult_imp_div_less mult.commute)
  have bz: "?v div (cx s * cy s) < cz s"
    using assms(3) by (simp add: less_mult_imp_div_less mult.commute)
  have bound: "q * m + r < n * m" if "q < n" "r < m" for q m r n :: nat
    using mixed_radix_bound(1) [OF that(2,1) zero_less_one] by (simp only: add.commute mult.commute)
  show con: "shape_contains s (coord_of s cc l)"
    using assms(2) bx by' bz by (simp add: shape_contains_iff [OF assms(1)] co bound chunk_in_range_def)
  show "chunk_coord s (coord_of s cc l) = cc"
    by (rule chunk_coord3_eqI) (use bx by' bz in \<open>simp_all add: chunk_coord_nat co\<close>)
  have lc: "unat (lc_x (local_coord s (coord_of s cc l))) = ?v mod (cx s * cy s) mod cx s"
    "unat (lc_y (local_coord s (coord_of s cc l))) = ?v mod (cx s * cy s) div cx s"
    "unat (lc_z (local_coord s (coord_of s cc l))) = ?v div (cx s * cy s)"
    using bx by' bz by (simp_all add: local_coord_nat co)
  show "local_tile_id s (local_coord s (coord_of s cc l)) = l"
    by (rule local_tile_id_eqI)
       (simp only: local_tile_id_nat(1) [OF assms(1) coords_in_range(2) [OF assms(1) con]] lc
          mixed_radix_encode)
qed

text \<open>A key decodes to the parts it was packed from.\<close>

lemma tile_key_decode:
  assumes "valid_shape s" "tile_key s c = Some k"
  shows "tile_key_nat k < 2 ^ unat (tile_key_bits s)"
    "local_tile_id_of_tile s k = local_tile_id s (local_coord s c)"
    "chunk_key_of_tile s k = chunk_key s (chunk_coord s c)"
    "coord_of_key s k = c"
proof -
  have con: "shape_contains s c" using assms(2) by (simp add: tile_key_def split: if_splits)
  note R = coords_in_range [OF assms(1) con] and bc = bit_counts [OF assms(1)]
  note v = tile_key_value [OF assms]
  note l = local_tile_id_nat(2) [OF assms(1) R(2)] and ck = chunk_key_nat(2) [OF assms(1) R(1)]
  have l2: "unat (tile_value (local_tile_id s (local_coord s c))) < 2 ^ unat (local_bits s)"
    using l bc(1) by linarith
  have "unat (key_value (chunk_key s (chunk_coord s c))) < 2 ^ unat (chunk_bits s)"
    using ck bc(2) by linarith
  from mixed_radix_bound(1) [OF l2 this zero_less_one]
  show lt: "tile_key_nat k < 2 ^ unat (tile_key_bits s)"
    unfolding v(1) bc(5) by (subst add.commute, subst power_add)
  show l': "local_tile_id_of_tile s k = local_tile_id s (local_coord s c)"
    by (rule local_tile_id_eqI) (use l2 in \<open>simp only: unpack_key(1) [OF assms(1) v(2)] v(1), simp\<close>)
  show c': "chunk_key_of_tile s k = chunk_key s (chunk_coord s c)"
    by (rule chunk_key_eqI) (use l2 in \<open>simp only: unpack_key(2) [OF assms(1) v(2) lt] v(1), simp\<close>)
  show "coord_of_key s k = c"
    by (simp add: l' c' coord_of_key_def chunk_key_round [OF assms(1)] R coord_of_chunk_local [OF assms(1) con])
qed

subsection \<open>Properties\<close>

text \<open>
  C36. For every shape the static assertions accept, \<open>tile_key\<close> is defined exactly inside the
  shape, and decoding the key (64 or 128 bit, single or many chunks) returns the coordinate.
\<close>

theorem tile_key_roundtrip:
  assumes "valid_shape s"
  shows "(tile_key s c = None \<longleftrightarrow> \<not> shape_contains s c)
    \<and> (\<forall>k. tile_key s c = Some k \<longrightarrow>
          coord_of_key s k = c \<and> tile_key_nat k < 2 ^ unat (tile_key_bits s))"
  using tile_key_decode [OF assms] by (auto simp: tile_key_def Let_def)

definition example_shape :: shape where
  "example_shape = \<lparr>shape_size = mk_extent3 128 64 2, shape_chunk = mk_extent3 32 16 1,
                    shape_lattice = Orthogonal\<rparr>"

text \<open>Unfoldings that let the simplifier evaluate the shape functions on numerals.\<close>

lemmas shape_eval = mk_extent3_def mk_coord3_def is_valid_extent_def is_power_of_two_def
  is_divisible_by_def lattice_valid_shape_def product_fits_uint64_def
  chunk_count_x_def chunk_count_y_def chunk_count_z_def chunk_count_def local_tile_count_def
  precise_chunk_count_def precise_local_tile_count_def detail_chunk_count_def extent_product_def
  i64_max_def u64_max_def chunk_bits_def local_bits_def tile_key_bits_def key_storage_is_u64_def
  u128_mul_def mask32_def Let_def u128_of_u64_def u128_from_parts_def bits_for_count_def
  u128_sub_def bit_width_def bit_width_loop.simps u128_shr_def u128_zero_def u128_to_u64_def
  less_eq_uint128_def less_uint128_def

lemma example_shape_valid: "valid_shape example_shape"
  by (simp add: valid_shape_def shape_asserts_def traits_asserts_def example_shape_def shape_eval)

lemma tile_key_roundtrip_witness:
  "tile_key example_shape (mk_coord3 70 33 1) = Some (TileKey64 0x3426)
   \<and> coord_of_key example_shape (TileKey64 0x3426) = mk_coord3 70 33 1"
proof -
  have "tile_key example_shape (mk_coord3 70 33 1) = Some (TileKey64 0x3426)"
    by (simp add: word_le_nat_alt tile_key_def example_shape_def shape_contains_def box_contains_def axis_contains_def
        axis_delta_def i64_less_def local_tile_id_def local_coord_def chunk_key_def chunk_coord_def
        shape_eval)
  with tile_key_roundtrip [OF example_shape_valid, of "mk_coord3 70 33 1"] show ?thesis by blast
qed



end
