(* ===== verification/Chunk_Meta.thy ===== *)
theory Chunk_Meta imports Shape_Keys begin

text \<open>
  \<open>storage/metadata_types.h\<close> and \<open>storage/chunk_meta.h\<close>: dirty and active masks, the three
  monotone version counters, the dirty observation, and the mutation helpers both worlds share.
  The helpers take the mask and bounds by reference; here they return the updated values. A
  version increment at the numeric limit aborts the process and is \<open>None\<close>.
\<close>

subsection \<open>Masks and versions\<close>

datatype dirty_mask = DirtyMask (dm_value: u32)

datatype active_mask = ActiveMask (am_value: u32)

definition dirty_empty :: "dirty_mask \<Rightarrow> bool" where
  "dirty_empty m \<longleftrightarrow> dm_value m = 0"

definition dirty_or :: "dirty_mask \<Rightarrow> dirty_mask \<Rightarrow> dirty_mask" where
  "dirty_or l r = DirtyMask (dm_value l OR dm_value r)"

definition dirty_and :: "dirty_mask \<Rightarrow> dirty_mask \<Rightarrow> dirty_mask" where
  "dirty_and l r = DirtyMask (dm_value l AND dm_value r)"

definition dirty_not :: "dirty_mask \<Rightarrow> dirty_mask" where
  "dirty_not m = DirtyMask (NOT (dm_value m))"

definition active_empty :: "active_mask \<Rightarrow> bool" where
  "active_empty m \<longleftrightarrow> am_value m = 0"

definition active_or :: "active_mask \<Rightarrow> active_mask \<Rightarrow> active_mask" where
  "active_or l r = ActiveMask (am_value l OR am_value r)"

definition active_and :: "active_mask \<Rightarrow> active_mask \<Rightarrow> active_mask" where
  "active_and l r = ActiveMask (am_value l AND am_value r)"

definition active_not :: "active_mask \<Rightarrow> active_mask" where
  "active_not m = ActiveMask (NOT (am_value m))"

datatype content_version = ContentVersion (cv_value: u64)

definition content_version_inc :: "content_version \<Rightarrow> content_version option" where
  "content_version_inc v = (if cv_value v = u64_max then None else Some (ContentVersion (cv_value v + 1)))"

datatype topology_version = TopologyVersion (tv_value: u64)

definition topology_version_inc :: "topology_version \<Rightarrow> topology_version option" where
  "topology_version_inc v = (if tv_value v = u64_max then None else Some (TopologyVersion (tv_value v + 1)))"

datatype residency_generation = ResidencyGeneration (rg_value: u64)

definition residency_valid :: "residency_generation \<Rightarrow> bool" where
  "residency_valid g \<longleftrightarrow> rg_value g \<noteq> 0"

definition residency_generation_inc :: "residency_generation \<Rightarrow> residency_generation option" where
  "residency_generation_inc g =
     (if rg_value g = u64_max then None else Some (ResidencyGeneration (rg_value g + 1)))"

datatype chunk_activity = Sleeping | Active

record chunk_meta =
  cm_content_version :: content_version
  cm_topology_version :: topology_version
  cm_entity_count :: u32

definition default_chunk_meta :: chunk_meta where
  "default_chunk_meta = \<lparr>cm_content_version = ContentVersion 0,
     cm_topology_version = TopologyVersion 0, cm_entity_count = 0\<rparr>"

record dirty_observation =
  do_mask :: dirty_mask
  do_bounds :: box3
  do_content_version :: content_version
  do_residency_generation :: residency_generation

definition active_popcount :: "active_mask \<Rightarrow> u32" where
  "active_popcount m = of_nat (length (filter (bit (am_value m)) [0..<32]))"

subsection \<open>Unions of bounding boxes\<close>

definition box_axis_end :: "i64 \<Rightarrow> u64 \<Rightarrow> i64" where
  "box_axis_end origin extent =
     (if i64_max < extent then i64_max
      else if i64_less (i64_max - extent) origin then i64_max else origin + extent)"

definition box_min :: "i64 \<Rightarrow> i64 \<Rightarrow> i64" where
  "box_min l r = (if i64_less l r then l else r)"

definition box_max :: "i64 \<Rightarrow> i64 \<Rightarrow> i64" where
  "box_max l r = (if i64_less l r then r else l)"

definition union_box :: "box3 \<Rightarrow> box3 \<Rightarrow> box3" where
  "union_box l r =
     (let lo' = box_origin l; ro = box_origin r; le = box_extent l; re = box_extent r;
          min_x = box_min (co_x lo') (co_x ro);
          min_y = box_min (co_y lo') (co_y ro);
          min_z = box_min (co_z lo') (co_z ro);
          max_x = box_max (box_axis_end (co_x lo') (ext_x le)) (box_axis_end (co_x ro) (ext_x re));
          max_y = box_max (box_axis_end (co_y lo') (ext_y le)) (box_axis_end (co_y ro) (ext_y re));
          max_z = box_max (box_axis_end (co_z lo') (ext_z le)) (box_axis_end (co_z ro) (ext_z re))
      in \<lparr>box_origin = mk_coord3 min_x min_y min_z,
          box_extent = mk_extent3 (abs_delta max_x min_x) (abs_delta max_y min_y) (abs_delta max_z min_z)\<rparr>)"

subsection \<open>Metadata mutation helpers\<close>

definition meta_mark_dirty ::
    "dirty_mask \<Rightarrow> box3 \<Rightarrow> chunk_meta \<Rightarrow> dirty_mask \<Rightarrow> box3 \<Rightarrow> (dirty_mask \<times> box3 \<times> chunk_meta) option" where
  "meta_mark_dirty dirty bounds meta msk b =
     (if dirty_empty msk then Some (dirty, bounds, meta)
      else let bounds' = (if dirty_empty dirty then b else union_box bounds b)
           in map_option (\<lambda>v. (dirty_or dirty msk, bounds', meta\<lparr>cm_content_version := v\<rparr>))
                (content_version_inc (cm_content_version meta)))"

definition meta_mark_content_changed :: "chunk_meta \<Rightarrow> chunk_meta option" where
  "meta_mark_content_changed meta =
     map_option (\<lambda>v. meta\<lparr>cm_content_version := v\<rparr>) (content_version_inc (cm_content_version meta))"

definition meta_clear_dirty :: "dirty_mask \<Rightarrow> box3 \<Rightarrow> dirty_mask \<Rightarrow> dirty_mask \<times> box3" where
  "meta_clear_dirty dirty bounds msk =
     (if dirty_empty msk then (dirty, bounds)
      else let dirty' = dirty_and dirty (dirty_not msk)
           in (dirty', if dirty_empty dirty' then default_box3 else bounds))"

definition meta_observe_dirty ::
    "dirty_mask \<Rightarrow> box3 \<Rightarrow> chunk_meta \<Rightarrow> dirty_mask \<Rightarrow> residency_generation \<Rightarrow> dirty_observation" where
  "meta_observe_dirty dirty bounds meta msk gen =
     \<lparr>do_mask = dirty_and dirty msk, do_bounds = bounds,
      do_content_version = cm_content_version meta, do_residency_generation = gen\<rparr>"

definition meta_clear_dirty_observed ::
    "dirty_mask \<Rightarrow> box3 \<Rightarrow> chunk_meta \<Rightarrow> dirty_observation \<Rightarrow> residency_generation
     \<Rightarrow> bool \<times> dirty_mask \<times> box3" where
  "meta_clear_dirty_observed dirty bounds meta obs gen =
     (if gen \<noteq> do_residency_generation obs then (False, dirty, bounds)
      else if cm_content_version meta \<noteq> do_content_version obs then (False, dirty, bounds)
      else (True, meta_clear_dirty dirty bounds (do_mask obs)))"

definition meta_mark_active :: "active_mask \<Rightarrow> active_mask \<Rightarrow> active_mask" where
  "meta_mark_active active msk = (if active_empty msk then active else active_or active msk)"

definition meta_clear_active :: "active_mask \<Rightarrow> active_mask \<Rightarrow> active_mask" where
  "meta_clear_active active msk =
     (if active_empty msk then active else active_and active (active_not msk))"

subsection \<open>The union box contains both boxes\<close>

lemma sint_add_i64:
  "- (2 ^ 63) \<le> sint (a :: i64) + sint b \<Longrightarrow> sint a + sint b < 2 ^ 63 \<Longrightarrow> sint (a + b) = sint a + sint b"
  by (simp add: sint_word_ariths signed_take_bit_int_eq_self)

lemma sint_diff_i64:
  "- (2 ^ 63) \<le> sint (a :: i64) - sint b \<Longrightarrow> sint a - sint b < 2 ^ 63 \<Longrightarrow> sint (a - b) = sint a - sint b"
  by (simp add: sint_word_ariths signed_take_bit_int_eq_self)

text \<open>
  An extent beyond the int64 range gives the largest axis end, whatever the origin; otherwise the
  end is the saturated sum. In both cases it is at least the saturated sum.
\<close>

lemma sint_box_axis_end:
  "min (2 ^ 63 - 1) (sint origin + int (unat extent)) \<le> sint (box_axis_end origin extent)"
  "unat extent < 2 ^ 63 \<Longrightarrow> sint (box_axis_end origin extent) = min (2 ^ 63 - 1) (sint origin + int (unat extent))"
proof -
  show eq: "sint (box_axis_end origin extent) = min (2 ^ 63 - 1) (sint origin + int (unat extent))"
    if small: "unat extent < 2 ^ 63"
  proof -
    have le: "\<not> i64_max < extent" using small by (simp add: u64_less_nat i64_max_def)
    have e: "sint extent = int (unat extent)" using small by (rule sint_word_of_small)
    obtain n where n: "int (unat extent) = n" by blast
    have pos: "0 \<le> n" using n by linarith
    have d: "sint i64_max - sint extent = 2 ^ 63 - 1 - n" using e n by (simp only: sint_i64_max)
    have "sint (i64_max - extent) = sint i64_max - sint extent"
      by (rule sint_diff_i64) (use d pos i64_bounds [of extent] e n in linarith)+
    with d have "sint (i64_max - extent) = 2 ^ 63 - 1 - n" by (simp only:)
    moreover have "sint (origin + extent) = sint origin + n" if "sint origin + n < 2 ^ 63"
    proof -
      have "sint (origin + extent) = sint origin + sint extent"
        by (rule sint_add_i64) (use that pos i64_bounds [of origin] e n in linarith)+
      then show ?thesis by (simp only: e n)
    qed
    ultimately show ?thesis using le n
      by (cases "2 ^ 63 - 1 - n < sint origin")
         (auto simp only: box_axis_end_def if_False if_True i64_less_def min_def sint_i64_max split: if_splits)
  qed
  show "min (2 ^ 63 - 1) (sint origin + int (unat extent)) \<le> sint (box_axis_end origin extent)"
  proof (cases "unat extent < 2 ^ 63")
    case True
    then show ?thesis by (simp only: eq order_refl)
  next
    case False
    then have "i64_max < extent" by (simp add: u64_less_nat i64_max_def)
    then show ?thesis by (simp only: box_axis_end_def if_True sint_i64_max min.cobounded1)
  qed
qed

lemma sint_box_min: "sint (box_min l r) = min (sint l) (sint r)"
  by (simp add: box_min_def i64_less_def)

lemma sint_box_max: "sint (box_max l r) = max (sint l) (sint r)"
  by (simp add: box_max_def i64_less_def)

lemma axis_contains_union:
  assumes "axis_contains a e c \<or> axis_contains b f c" "c \<noteq> i64_max"
  shows "axis_contains (box_min a b)
           (abs_delta (box_max (box_axis_end a e) (box_axis_end b f)) (box_min a b)) c"
proof -
  have "sint c \<noteq> sint i64_max" using assms(2) by (metis signed_word_eqI)
  then have c: "sint c < 2 ^ 63 - 1" using i64_bounds(2) [of c] by simp
  obtain m n where mn: "int (unat e) = m" "int (unat f) = n" "0 \<le> m" "0 \<le> n" by auto
  show ?thesis
    using assms(1) c sint_box_axis_end(1) [of a e] sint_box_axis_end(1) [of b f] mn
    by (auto simp only: axis_contains_iff unat_abs_delta sint_box_min sint_box_max)
qed


lemma union_box_contains:
  assumes "box_contains l c \<or> box_contains r c"
    and "co_x c \<noteq> i64_max" "co_y c \<noteq> i64_max" "co_z c \<noteq> i64_max"
  shows "box_contains (union_box l r) c"
  using assms
  by (auto simp: box_contains_def union_box_def Let_def mk_coord3_def mk_extent3_def
      intro: axis_contains_union)

subsection \<open>The dirty protocol\<close>

text \<open>One chunk's dirty state, and the calls that may be made on it between two observations.\<close>

datatype dirty_call =
    MarkDirty dirty_mask box3
  | MarkContentChanged
  | ClearDirty dirty_mask
  | ClearDirtyObserved dirty_observation residency_generation

type_synonym dirty_state = "dirty_mask \<times> box3 \<times> chunk_meta"

fun dirty_step :: "dirty_call \<Rightarrow> dirty_state \<Rightarrow> dirty_state option" where
  "dirty_step (MarkDirty m b) (d, bd, meta) = meta_mark_dirty d bd meta m b"
| "dirty_step MarkContentChanged (d, bd, meta) =
     map_option (\<lambda>meta'. (d, bd, meta')) (meta_mark_content_changed meta)"
| "dirty_step (ClearDirty m) (d, bd, meta) =
     (case meta_clear_dirty d bd m of (d', bd') \<Rightarrow> Some (d', bd', meta))"
| "dirty_step (ClearDirtyObserved obs g) (d, bd, meta) =
     (case meta_clear_dirty_observed d bd meta obs g of (_, d', bd') \<Rightarrow> Some (d', bd', meta))"

fun dirty_run :: "dirty_call list \<Rightarrow> dirty_state \<Rightarrow> dirty_state option" where
  "dirty_run [] s = Some s"
| "dirty_run (c # cs) s = (case dirty_step c s of None \<Rightarrow> None | Some s' \<Rightarrow> dirty_run cs s')"

fun effective :: "dirty_call \<Rightarrow> bool" where
  "effective (MarkDirty m b) = (\<not> dirty_empty m)"
| "effective MarkContentChanged = True"
| "effective _ = False"

definition version_of :: "dirty_state \<Rightarrow> nat" where
  "version_of s = unat (cv_value (cm_content_version (snd (snd s))))"

definition mask_of :: "dirty_state \<Rightarrow> u32" where
  "mask_of s = dm_value (fst s)"

lemma content_version_inc_Some:
  "content_version_inc v = Some v' \<Longrightarrow> unat (cv_value v') = Suc (unat (cv_value v))"
proof -
  assume "content_version_inc v = Some v'"
  then have v': "v' = ContentVersion (cv_value v + 1)" and ne: "cv_value v \<noteq> u64_max"
    by (auto simp: content_version_inc_def split: if_splits)
  have "unat (cv_value v) \<noteq> 2 ^ 64 - 1" using ne by (simp add: word_unat_eq_iff)
  then have "unat (cv_value v) + 1 < 2 ^ 64" using u64_less [of "cv_value v"] by linarith
  then show ?thesis by (simp add: v' unat_add_u64)
qed

lemma dirty_step_version:
  "dirty_step c s = Some s' \<Longrightarrow> version_of s' = version_of s + (if effective c then 1 else 0)"
  by (cases "(c, s)" rule: dirty_step.cases)
     (auto simp: version_of_def meta_mark_dirty_def meta_mark_content_changed_def
       dest!: content_version_inc_Some split: if_splits prod.splits)

lemma dirty_run_version:
  "dirty_run cs s = Some s' \<Longrightarrow> version_of s' = version_of s + length (filter effective cs)"
  by (induction cs arbitrary: s) (auto dest: dirty_step_version split: option.splits)

lemma dirty_step_mask_bit:
  "dirty_step c s = Some s' \<Longrightarrow> \<not> effective c \<Longrightarrow> bit (mask_of s') i \<Longrightarrow> bit (mask_of s) i"
  by (cases "(c, s)" rule: dirty_step.cases)
     (auto simp: mask_of_def meta_mark_dirty_def meta_clear_dirty_def meta_clear_dirty_observed_def
       dirty_and_def bit_and_iff Let_def split: if_splits)

lemma dirty_run_mask_bit:
  "dirty_run cs s = Some s' \<Longrightarrow> filter effective cs = [] \<Longrightarrow> bit (mask_of s') i \<Longrightarrow> bit (mask_of s) i"
proof (induction cs arbitrary: s)
  case (Cons c cs)
  then show ?case by (auto split: option.splits if_splits dest: dirty_step_mask_bit)
qed simp

text \<open>Bounds cover: the bounds contain every tile of an outstanding mark.\<close>

definition bounds_cover :: "dirty_state \<Rightarrow> coord3 \<Rightarrow> bool" where
  "bounds_cover s c \<longleftrightarrow> mask_of s \<noteq> 0 \<and> box_contains (fst (snd s)) c"

lemma dirty_step_covers:
  assumes "dirty_step k s = Some s'" "bounds_cover s c" "mask_of s' \<noteq> 0"
    and "co_x c \<noteq> i64_max" "co_y c \<noteq> i64_max" "co_z c \<noteq> i64_max"
  shows "bounds_cover s' c"
  using assms
  by (cases "(k, s)" rule: dirty_step.cases)
     (auto simp: bounds_cover_def mask_of_def meta_mark_dirty_def meta_mark_content_changed_def
       meta_clear_dirty_def meta_clear_dirty_observed_def dirty_empty_def Let_def
       intro!: union_box_contains split: if_splits)

lemma or_eq_0_word: "(a OR b = (0 :: 'a :: len word)) \<longleftrightarrow> a = 0 \<and> b = 0"
  by (auto simp: bit_eq_iff bit_or_iff)

lemma dirty_step_mark_covers:
  assumes "dirty_step (MarkDirty m b) s = Some s'" "\<not> dirty_empty m" "box_contains b c"
    and "co_x c \<noteq> i64_max" "co_y c \<noteq> i64_max" "co_z c \<noteq> i64_max"
  shows "bounds_cover s' c"
  using assms
  by (cases s) (auto simp: bounds_cover_def mask_of_def meta_mark_dirty_def dirty_empty_def Let_def
       dirty_or_def or_eq_0_word intro!: union_box_contains split: if_splits)

fun stays_dirty :: "dirty_call list \<Rightarrow> dirty_state \<Rightarrow> bool" where
  "stays_dirty [] s \<longleftrightarrow> mask_of s \<noteq> 0"
| "stays_dirty (c # cs) s \<longleftrightarrow>
     mask_of s \<noteq> 0 \<and> (case dirty_step c s of None \<Rightarrow> True | Some s' \<Rightarrow> stays_dirty cs s')"

lemma stays_dirty_now: "stays_dirty cs s \<Longrightarrow> mask_of s \<noteq> 0"
  by (cases cs) auto

lemma dirty_run_covers:
  assumes "co_x c \<noteq> i64_max" "co_y c \<noteq> i64_max" "co_z c \<noteq> i64_max"
  shows "dirty_run cs s = Some s' \<Longrightarrow> bounds_cover s c \<Longrightarrow> stays_dirty cs s \<Longrightarrow> bounds_cover s' c"
proof (induction cs arbitrary: s)
  case (Cons k ks)
  then obtain t where t: "dirty_step k s = Some t" "dirty_run ks t = Some s'" "stays_dirty ks t"
    by (auto split: option.splits)
  with Cons.prems(2) assms have "bounds_cover t c"
    by (intro dirty_step_covers [OF t(1)]) (auto dest: stays_dirty_now)
  with t show ?case by (intro Cons.IH)
qed simp

subsection \<open>Properties\<close>

text \<open>
  C40. The observation protocol loses no work. Observe, run any calls, then clear what was
  observed: within one residency interval the clear succeeds exactly when no call marked dirty
  work or changed content in between; then it removes the observed bits and no other, each of
  them set at observation time. When it fails, or the interval differs, mask and bounds stay.
\<close>

theorem clear_observed_sound:
  assumes "dirty_run cs (d0, b0, m0) = Some (d1, b1, m1)"
    and "obs = meta_observe_dirty d0 b0 m0 m g"
    and "meta_clear_dirty_observed d1 b1 m1 obs g1 = (ok, d2, b2)"
  shows "(ok \<longleftrightarrow> g1 = g \<and> filter effective cs = [])
    \<and> (ok \<longrightarrow> dm_value d2 = dm_value d1 AND NOT (dm_value d0 AND dm_value m)
              \<and> (\<forall>i. bit (dm_value d1) i \<longrightarrow> bit (dm_value d0) i))
    \<and> (\<not> ok \<longrightarrow> d2 = d1 \<and> b2 = b1)"
proof -
  have v: "unat (cv_value (cm_content_version m1)) =
      unat (cv_value (cm_content_version m0)) + length (filter effective cs)"
    using dirty_run_version [OF assms(1)] by (simp add: version_of_def)
  have eq: "cm_content_version m1 = cm_content_version m0 \<longleftrightarrow> filter effective cs = []"
  proof -
    have "cm_content_version m1 = cm_content_version m0
        \<longleftrightarrow> unat (cv_value (cm_content_version m1)) = unat (cv_value (cm_content_version m0))"
      by (metis content_version.expand unsigned_word_eqI)
    then show ?thesis using v by simp
  qed
  have ok: "ok \<longleftrightarrow> g1 = g \<and> filter effective cs = []"
    using assms(2,3) eq by (auto simp: meta_clear_dirty_observed_def meta_observe_dirty_def split: if_splits)
  have bits: "bit (dm_value d1) i \<Longrightarrow> bit (dm_value d0) i" if ok for i
    using dirty_run_mask_bit [OF assms(1)] ok that by (simp add: mask_of_def)
  have "dm_value d2 = dm_value d1 AND NOT (dm_value (do_mask obs))" if ok
    using assms(3) that
    by (auto simp: meta_clear_dirty_observed_def meta_clear_dirty_def
        dirty_and_def dirty_not_def dirty_empty_def Let_def split: if_splits)
  then have "dm_value d2 = dm_value d1 AND NOT (dm_value d0 AND dm_value m)" if ok
    using that by (simp add: assms(2) meta_observe_dirty_def dirty_and_def)
  moreover have "d2 = d1 \<and> b2 = b1" if "\<not> ok"
    using assms(3) that by (auto simp: meta_clear_dirty_observed_def split: if_splits)
  ultimately show ?thesis using ok bits by blast
qed

text \<open>
  Dirty bounds cover outstanding work: after a mark with box \<open>b\<close> and any further calls that
  never empty the mask, every tile of \<open>b\<close> with coordinates below the int64 maximum is inside the
  chunk's dirty bounds.
\<close>

theorem dirty_bounds_cover:
  assumes "dirty_step (MarkDirty m b) s = Some t" "\<not> dirty_empty m"
    and "dirty_run cs t = Some s'" "stays_dirty cs t"
    and "box_contains b c" "co_x c \<noteq> i64_max" "co_y c \<noteq> i64_max" "co_z c \<noteq> i64_max"
  shows "box_contains (fst (snd s')) c"
proof -
  have "bounds_cover t c" by (rule dirty_step_mark_covers [OF assms(1,2,5-8)])
  then have "bounds_cover s' c" by (rule dirty_run_covers [OF assms(6-8) assms(3) _ assms(4)])
  then show ?thesis by (simp add: bounds_cover_def)
qed

definition clean_state :: dirty_state where
  "clean_state = (DirtyMask 0, default_box3, default_chunk_meta)"

definition box_at :: "i64 \<Rightarrow> i64 \<Rightarrow> u64 \<Rightarrow> u64 \<Rightarrow> box3" where
  "box_at x y w h = \<lparr>box_origin = mk_coord3 x y 0, box_extent = mk_extent3 w h 1\<rparr>"

lemmas dirty_eval = meta_mark_dirty_def meta_clear_dirty_def meta_clear_dirty_observed_def
  meta_observe_dirty_def meta_mark_content_changed_def content_version_inc_def dirty_empty_def
  dirty_or_def dirty_and_def dirty_not_def Let_def u64_max_def clean_state_def
  default_chunk_meta_def

lemma clear_observed_sound_witness:
  "\<exists>d1 b1 m1 d2 b2.
     dirty_run [MarkDirty (DirtyMask 3) (box_at 2 2 4 4), ClearDirty (DirtyMask 1)] clean_state = Some (d1, b1, m1)
   \<and> meta_clear_dirty_observed d1 b1 m1
       (meta_observe_dirty (DirtyMask 0) default_box3 default_chunk_meta (DirtyMask 1) (ResidencyGeneration 0))
       (ResidencyGeneration 0) = (False, d2, b2) \<and> d2 = d1"
proof -
  have run: "\<exists>d1 b1 m1. dirty_run [MarkDirty (DirtyMask 3) (box_at 2 2 4 4), ClearDirty (DirtyMask 1)] clean_state
      = Some (d1, b1, m1)"
    by (simp add: dirty_eval)
  then obtain d1 b1 m1 where run: "dirty_run [MarkDirty (DirtyMask 3) (box_at 2 2 4 4), ClearDirty (DirtyMask 1)]
      (DirtyMask 0, default_box3, default_chunk_meta) = Some (d1, b1, m1)"
    by (auto simp: clean_state_def)
  obtain ok d2 b2 where clr: "meta_clear_dirty_observed d1 b1 m1
       (meta_observe_dirty (DirtyMask 0) default_box3 default_chunk_meta (DirtyMask 1) (ResidencyGeneration 0))
       (ResidencyGeneration 0) = (ok, d2, b2)" by (cases "meta_clear_dirty_observed d1 b1 m1
       (meta_observe_dirty (DirtyMask 0) default_box3 default_chunk_meta (DirtyMask 1) (ResidencyGeneration 0))
       (ResidencyGeneration 0)") auto
  from clear_observed_sound [OF run refl clr] have "\<not> ok" "d2 = d1"
    by (simp_all add: dirty_empty_def)
  with run clr show ?thesis by (auto simp: clean_state_def)
qed

lemma dirty_bounds_cover_witness:
  "\<exists>t s'. dirty_step (MarkDirty (DirtyMask 1) (box_at 2 2 4 4)) clean_state = Some t
     \<and> dirty_run [MarkDirty (DirtyMask 2) (box_at 9 0 1 1), ClearDirty (DirtyMask 1)] t = Some s'
     \<and> box_contains (fst (snd s')) (mk_coord3 5 5 0)"
proof -
  have "\<exists>t s'. dirty_step (MarkDirty (DirtyMask 1) (box_at 2 2 4 4)) clean_state = Some t
     \<and> dirty_run [MarkDirty (DirtyMask 2) (box_at 9 0 1 1), ClearDirty (DirtyMask 1)] t = Some s'
     \<and> stays_dirty [MarkDirty (DirtyMask 2) (box_at 9 0 1 1), ClearDirty (DirtyMask 1)] t"
    by (simp add: dirty_eval mask_of_def)
  moreover have "box_contains (box_at 2 2 4 4) (mk_coord3 5 5 0)"
    by (simp add: box_at_def box_contains_def axis_contains_def axis_delta_def i64_less_def mk_coord3_def
        mk_extent3_def)
  ultimately show ?thesis
    using dirty_bounds_cover [where m = "DirtyMask 1" and b = "box_at 2 2 4 4" and c = "mk_coord3 5 5 0"]
    by (fastforce simp: dirty_empty_def mk_coord3_def i64_max_def)
qed

end
