(* ===== verification/Chunk_Page.thy ===== *)
theory Chunk_Page imports Shape_Keys begin

text \<open>
  \<open>storage/chunk_page.h\<close>: the field schema and the structure-of-arrays page of one chunk. A
  schema is the list of its tags, each with the value a value-initialised element has; the types
  of the fields are one value type of the model. A tag that is not in the schema is rejected at
  compile time in the source and gives \<^const>\<open>None\<close> here, as does a local id outside the page.
\<close>

type_synonym ('t, 'v) schema = "('t \<times> 'v) list"

fun contains_field_tag :: "'t \<Rightarrow> ('t, 'v) schema \<Rightarrow> bool" where
  "contains_field_tag t [] \<longleftrightarrow> False"
| "contains_field_tag t ((t', v) # fs) \<longleftrightarrow> t = t' \<or> contains_field_tag t fs"

fun unique_field_tags :: "('t, 'v) schema \<Rightarrow> bool" where
  "unique_field_tags [] \<longleftrightarrow> True"
| "unique_field_tags ((t, v) # fs) \<longleftrightarrow> \<not> contains_field_tag t fs \<and> unique_field_tags fs"

fun field_index :: "'t \<Rightarrow> nat \<Rightarrow> ('t, 'v) schema \<Rightarrow> nat option" where
  "field_index t i [] = None"
| "field_index t i ((t', v) # fs) = (if t = t' then Some i else field_index t (i + 1) fs)"

record 'v chunk_page =
  page_chunk_key :: chunk_key
  page_chunk_coord :: chunk_coord3
  page_fields :: "'v list list"

definition new_page :: "shape \<Rightarrow> ('t, 'v) schema \<Rightarrow> chunk_key \<Rightarrow> chunk_coord3 \<Rightarrow> 'v chunk_page" where
  "new_page s fs key coord =
     \<lparr>page_chunk_key = key, page_chunk_coord = coord,
      page_fields = map (\<lambda>(t, v). replicate (unat (local_tile_count s)) v) fs\<rparr>"

definition page_reset :: "('t, 'v) schema \<Rightarrow> 'v chunk_page \<Rightarrow> chunk_key \<Rightarrow> chunk_coord3 \<Rightarrow> 'v chunk_page" where
  "page_reset fs p key coord =
     p\<lparr>page_chunk_key := key, page_chunk_coord := coord,
       page_fields := map2 (\<lambda>(t, v) arr. map (\<lambda>_. v) arr) fs (page_fields p)\<rparr>"

definition page_field_span :: "('t, 'v) schema \<Rightarrow> 't \<Rightarrow> 'v chunk_page \<Rightarrow> 'v list option" where
  "page_field_span fs t p = Option.bind (field_index t 0 fs) (nth_opt (page_fields p))"

definition page_field :: "('t, 'v) schema \<Rightarrow> 't \<Rightarrow> 'v chunk_page \<Rightarrow> local_tile_id \<Rightarrow> 'v option" where
  "page_field fs t p l =
     Option.bind (page_field_span fs t p) (\<lambda>arr. nth_opt arr (unat (tile_value l)))"

definition page_write :: "('t, 'v) schema \<Rightarrow> 't \<Rightarrow> 'v chunk_page \<Rightarrow> local_tile_id \<Rightarrow> 'v \<Rightarrow> 'v chunk_page option" where
  "page_write fs t p l v =
     Option.bind (field_index t 0 fs) (\<lambda>i.
     Option.bind (nth_opt (page_fields p) i) (\<lambda>arr.
     Option.bind (upd_opt arr (unat (tile_value l)) v) (\<lambda>arr'.
     map_option (\<lambda>fields. p\<lparr>page_fields := fields\<rparr>) (upd_opt (page_fields p) i arr'))))"

definition page_fill :: "('t, 'v) schema \<Rightarrow> 't \<Rightarrow> 'v \<Rightarrow> 'v chunk_page \<Rightarrow> 'v chunk_page option" where
  "page_fill fs t v p =
     Option.bind (field_index t 0 fs) (\<lambda>i.
     Option.bind (nth_opt (page_fields p) i) (\<lambda>arr.
     map_option (\<lambda>fields. p\<lparr>page_fields := fields\<rparr>) (upd_opt (page_fields p) i (map (\<lambda>_. v) arr))))"

subsection \<open>Lemmas\<close>

definition page_ok :: "shape \<Rightarrow> ('t, 'v) schema \<Rightarrow> 'v chunk_page \<Rightarrow> bool" where
  "page_ok s fs p \<longleftrightarrow> length (page_fields p) = length fs
     \<and> (\<forall>i < length fs. length (page_fields p ! i) = unat (local_tile_count s))"

lemma contains_field_tag_iff: "contains_field_tag t fs \<longleftrightarrow> t \<in> fst ` set fs"
  by (induction fs) auto

lemma field_index_Some:
  "field_index t i fs = Some j \<Longrightarrow> i \<le> j \<and> j < i + length fs \<and> fst (fs ! (j - i)) = t"
proof (induction fs arbitrary: i)
  case (Cons f fs)
  then show ?case
    by (cases f) (fastforce split: if_splits simp: nth_Cons' Suc_diff_Suc)
qed simp

lemma field_index_None: "field_index t i fs = None \<longleftrightarrow> \<not> contains_field_tag t fs"
  by (induction t i fs rule: field_index.induct) auto

lemma field_index_lt: "field_index t 0 fs = Some j \<Longrightarrow> j < length fs"
  using field_index_Some [of t 0 fs j] by simp

lemma field_index_inj: "field_index t 0 fs = Some i \<Longrightarrow> field_index t' 0 fs = Some i \<Longrightarrow> t = t'"
  using field_index_Some [of t 0 fs i] field_index_Some [of t' 0 fs i] by simp

lemma field_index_obtain:
  assumes "contains_field_tag t fs"
  obtains i where "field_index t 0 fs = Some i" "i < length fs"
  using assms field_index_None [of t 0 fs] field_index_lt [of t fs] by (cases "field_index t 0 fs") auto

lemma page_ok_new: "page_ok s fs (new_page s fs key coord)"
  by (auto simp: page_ok_def new_page_def split: prod.splits)

lemma page_reset_eq_new: "page_ok s fs p \<Longrightarrow> page_reset fs p key coord = new_page s fs key coord"
proof -
  assume ok: "page_ok s fs p"
  have "page_fields (page_reset fs p key coord) = page_fields (new_page s fs key coord)"
    by (rule nth_equalityI)
       (use ok in \<open>auto simp: page_reset_def new_page_def page_ok_def map_replicate_const split: prod.splits\<close>)
  then show ?thesis by (simp add: page_reset_def new_page_def)
qed

text \<open>A write is the update of one cell of one column.\<close>

lemma page_write_cell:
  assumes "page_write fs t p l v = Some p'"
  obtains i where "field_index t 0 fs = Some i" "i < length (page_fields p)"
    "unat (tile_value l) < length (page_fields p ! i)"
    "p' = p\<lparr>page_fields := (page_fields p)[i := (page_fields p ! i)[unat (tile_value l) := v]]\<rparr>"
  using assms by (auto simp: page_write_def bind_eq_Some_conv)

lemma page_fill_column:
  assumes "page_fill fs t v p = Some p'"
  obtains i where "field_index t 0 fs = Some i" "i < length (page_fields p)"
    "p' = p\<lparr>page_fields := (page_fields p)[i := map (\<lambda>_. v) (page_fields p ! i)]\<rparr>"
  using assms by (auto simp: page_fill_def bind_eq_Some_conv)

lemma page_write_ok: "page_write fs t p l v = Some p' \<Longrightarrow> page_ok s fs p \<Longrightarrow> page_ok s fs p'"
  by (erule page_write_cell) (simp add: page_ok_def nth_list_update)

lemma page_write_key: "page_write fs t p l v = Some p' \<Longrightarrow>
    page_chunk_key p' = page_chunk_key p \<and> page_chunk_coord p' = page_chunk_coord p"
  by (erule page_write_cell) simp

lemma page_fill_ok: "page_fill fs t v p = Some p' \<Longrightarrow> page_ok s fs p \<Longrightarrow> page_ok s fs p'"
  by (erule page_fill_column) (simp add: page_ok_def nth_list_update)

lemma page_fill_key: "page_fill fs t v p = Some p' \<Longrightarrow>
    page_chunk_key p' = page_chunk_key p \<and> page_chunk_coord p' = page_chunk_coord p"
  by (erule page_fill_column) simp

lemma page_field_at:
  "field_index t 0 fs = Some i \<Longrightarrow> i < length (page_fields p) \<Longrightarrow>
   page_field fs t p l = nth_opt (page_fields p ! i) (unat (tile_value l))"
  by (simp add: page_field_def page_field_span_def nth_opt_in)

lemma page_field_none: "field_index t 0 fs = None \<Longrightarrow> page_field fs t p l = None"
  by (simp add: page_field_def page_field_span_def)

lemma page_defined:
  assumes "page_ok s fs p" "contains_field_tag t fs" "tile_value l < local_tile_count s"
  shows "\<exists>x. page_field fs t p l = Some x" "\<exists>p'. page_write fs t p l v = Some p'"
    "\<exists>p'. page_fill fs t v p = Some p'"
proof -
  obtain i where i: "field_index t 0 fs = Some i" "i < length fs"
    using assms(2) by (rule field_index_obtain)
  then have len: "length (page_fields p) = length fs" "unat (tile_value l) < length (page_fields p ! i)"
    using assms by (simp_all add: page_ok_def u64_less_nat)
  show "\<exists>x. page_field fs t p l = Some x" using i len by (simp add: page_field_at)
  show "\<exists>p'. page_write fs t p l v = Some p'" "\<exists>p'. page_fill fs t v p = Some p'"
    using i len by (simp_all add: page_write_def page_fill_def nth_opt_in bind_eq_Some_conv)
qed

lemma page_read_write:
  assumes "page_write fs t p l v = Some p'"
  shows "page_field fs t' p' l' = (if t' = t \<and> l' = l then Some v else page_field fs t' p l')"
  using assms
proof (rule page_write_cell)
  fix i assume i: "field_index t 0 fs = Some i" "i < length (page_fields p)"
      "unat (tile_value l) < length (page_fields p ! i)"
    and p': "p' = p\<lparr>page_fields := (page_fields p)[i := (page_fields p ! i)[unat (tile_value l) := v]]\<rparr>"
  have l: "nth_opt (xs[unat (tile_value l) := v]) (unat (tile_value l'))
      = (if l' = l then Some v else nth_opt xs (unat (tile_value l')))"
    if "unat (tile_value l) < length xs" for xs
    using that local_tile_id_eqI [of l l'] by (cases "l' = l") (auto simp: nth_opt_def nth_list_update)
  show ?thesis
  proof (cases "field_index t' 0 fs")
    case None
    with i(1) show ?thesis by (auto simp: page_field_none)
  next
    case (Some j)
    have "j = i \<longleftrightarrow> t' = t" using Some i(1) field_index_inj [of t' fs j t] by auto
    with Some i l [OF i(3)] show ?thesis
      by (cases "j = i") (simp_all add: p' page_field_def page_field_span_def nth_opt_def)
  qed
qed

lemma page_read_fill:
  assumes "page_fill fs t v p = Some p'" "page_ok s fs p" "tile_value l < local_tile_count s"
  shows "page_field fs t' p' l = (if t' = t then Some v else page_field fs t' p l)"
  using assms(1)
proof (rule page_fill_column)
  fix i assume i: "field_index t 0 fs = Some i" "i < length (page_fields p)"
    and p': "p' = p\<lparr>page_fields := (page_fields p)[i := map (\<lambda>_. v) (page_fields p ! i)]\<rparr>"
  have len: "unat (tile_value l) < length (page_fields p ! i)"
    using assms(2,3) i by (simp add: page_ok_def u64_less_nat)
  show ?thesis
  proof (cases "field_index t' 0 fs")
    case None
    with i(1) show ?thesis by (auto simp: page_field_none)
  next
    case (Some j)
    have "j = i \<longleftrightarrow> t' = t" using Some i(1) field_index_inj [of t' fs j t] by auto
    with Some i len show ?thesis
      by (auto simp: p' page_field_def page_field_span_def nth_opt_def nth_list_update)
  qed
qed

lemma page_field_new:
  "tile_value l < local_tile_count s \<Longrightarrow> field_index t 0 fs = Some i \<Longrightarrow>
   page_field fs t (new_page s fs key coord) l = Some (snd (fs ! i))"
  using field_index_lt [of t fs i]
  by (cases "fs ! i") (simp add: page_field_def page_field_span_def new_page_def u64_less_nat nth_opt_in)

end
