(* ===== verification/Dense_World.thy ===== *)
theory Dense_World imports Chunk_Meta Chunk_Page begin

text \<open>
  \<open>storage/world.h\<close>: the always-resident world, one page, one metadata entry and one entry of
  each parallel column for every chunk of the shape. The template arguments \<open>Shape\<close> and
  \<open>Schema\<close> are arguments of the operations. An operation that asserts its precondition is
  \<^const>\<open>None\<close> outside it.
\<close>

record 'v dense_world =
  dw_pages :: "'v chunk_page list"
  dw_metadata :: "chunk_meta list"
  dw_dirty_masks :: "dirty_mask list"
  dw_active_masks :: "active_mask list"
  dw_dirty_bounds :: "box3 list"

definition slot :: "chunk_key \<Rightarrow> nat" where
  "slot k = unat (key_value k)"

definition key_of_nat :: "nat \<Rightarrow> chunk_key" where
  "key_of_nat i = ChunkKey (of_nat i)"

definition dense_new :: "shape \<Rightarrow> ('t, 'v) schema \<Rightarrow> 'v dense_world" where
  "dense_new s fs =
     (let n = unat (chunk_count s)
      in \<lparr>dw_pages = map (\<lambda>i. new_page s fs (key_of_nat i) (chunk_coord_of_key s (key_of_nat i))) [0..<n],
          dw_metadata = replicate n default_chunk_meta,
          dw_dirty_masks = replicate n (DirtyMask 0),
          dw_active_masks = replicate n (ActiveMask 0),
          dw_dirty_bounds = replicate n default_box3\<rparr>)"

definition dense_valid_key :: "shape \<Rightarrow> chunk_key \<Rightarrow> bool" where
  "dense_valid_key s k \<longleftrightarrow> key_value k < chunk_count s"

definition dense_chunk :: "shape \<Rightarrow> 'v dense_world \<Rightarrow> chunk_key \<Rightarrow> 'v chunk_page option" where
  "dense_chunk s w k = (if dense_valid_key s k then nth_opt (dw_pages w) (slot k) else None)"

definition contains_chunk :: "shape \<Rightarrow> chunk_coord3 \<Rightarrow> bool" where
  "contains_chunk s c \<longleftrightarrow> cc_x c < chunk_count_x s \<and> cc_y c < chunk_count_y s \<and> cc_z c < chunk_count_z s"

definition dense_chunk_at :: "shape \<Rightarrow> 'v dense_world \<Rightarrow> chunk_coord3 \<Rightarrow> 'v chunk_page option" where
  "dense_chunk_at s w c = dense_chunk s w (chunk_key s c)"

text \<open>The checked lookups return a null pointer, the inner \<^const>\<open>None\<close>, out of bounds.\<close>

definition dense_try_chunk :: "shape \<Rightarrow> 'v dense_world \<Rightarrow> chunk_key \<Rightarrow> 'v chunk_page option option" where
  "dense_try_chunk s w k =
     (if chunk_count s \<le> key_value k then Some None else map_option Some (dense_chunk s w k))"

definition dense_try_chunk_at :: "shape \<Rightarrow> 'v dense_world \<Rightarrow> chunk_coord3 \<Rightarrow> 'v chunk_page option option" where
  "dense_try_chunk_at s w c =
     (if \<not> contains_chunk s c then Some None else map_option Some (dense_chunk_at s w c))"

definition dense_meta :: "shape \<Rightarrow> 'v dense_world \<Rightarrow> chunk_key \<Rightarrow> chunk_meta option" where
  "dense_meta s w k = (if dense_valid_key s k then nth_opt (dw_metadata w) (slot k) else None)"

definition dense_try_meta :: "shape \<Rightarrow> 'v dense_world \<Rightarrow> chunk_key \<Rightarrow> chunk_meta option option" where
  "dense_try_meta s w k =
     (if chunk_count s \<le> key_value k then Some None else map_option Some (dense_meta s w k))"

definition dense_dirty_mask :: "shape \<Rightarrow> 'v dense_world \<Rightarrow> chunk_key \<Rightarrow> dirty_mask option" where
  "dense_dirty_mask s w k = (if dense_valid_key s k then nth_opt (dw_dirty_masks w) (slot k) else None)"

definition dense_active_mask :: "shape \<Rightarrow> 'v dense_world \<Rightarrow> chunk_key \<Rightarrow> active_mask option" where
  "dense_active_mask s w k = (if dense_valid_key s k then nth_opt (dw_active_masks w) (slot k) else None)"

definition dense_dirty_bounds :: "shape \<Rightarrow> 'v dense_world \<Rightarrow> chunk_key \<Rightarrow> box3 option" where
  "dense_dirty_bounds s w k = (if dense_valid_key s k then nth_opt (dw_dirty_bounds w) (slot k) else None)"

definition dense_chunk_activity :: "shape \<Rightarrow> 'v dense_world \<Rightarrow> chunk_key \<Rightarrow> chunk_activity option" where
  "dense_chunk_activity s w k =
     map_option (\<lambda>m. if active_empty m then Sleeping else Active) (dense_active_mask s w k)"

definition dense_active_category_count :: "shape \<Rightarrow> 'v dense_world \<Rightarrow> chunk_key \<Rightarrow> u32 option" where
  "dense_active_category_count s w k = map_option active_popcount (dense_active_mask s w k)"

subsection \<open>Mutation of the metadata columns\<close>

definition dense_mark_dirty ::
    "shape \<Rightarrow> 'v dense_world \<Rightarrow> chunk_key \<Rightarrow> dirty_mask \<Rightarrow> box3 \<Rightarrow> 'v dense_world option" where
  "dense_mark_dirty s w k m b =
     (if \<not> dense_valid_key s k then None
      else Option.bind (nth_opt (dw_dirty_masks w) (slot k)) (\<lambda>d.
           Option.bind (nth_opt (dw_dirty_bounds w) (slot k)) (\<lambda>bd.
           Option.bind (dense_meta s w k) (\<lambda>meta.
           map_option (\<lambda>(d', bd', meta').
               w\<lparr>dw_dirty_masks := (dw_dirty_masks w)[slot k := d'],
                 dw_dirty_bounds := (dw_dirty_bounds w)[slot k := bd'],
                 dw_metadata := (dw_metadata w)[slot k := meta']\<rparr>)
             (meta_mark_dirty d bd meta m b)))))"

definition dense_mark_content_changed :: "shape \<Rightarrow> 'v dense_world \<Rightarrow> chunk_key \<Rightarrow> 'v dense_world option" where
  "dense_mark_content_changed s w k =
     Option.bind (dense_meta s w k) (\<lambda>meta.
     map_option (\<lambda>meta'. w\<lparr>dw_metadata := (dw_metadata w)[slot k := meta']\<rparr>)
       (meta_mark_content_changed meta))"

definition dense_bump_topology :: "shape \<Rightarrow> 'v dense_world \<Rightarrow> chunk_key \<Rightarrow> 'v dense_world option" where
  "dense_bump_topology s w k =
     Option.bind (dense_meta s w k) (\<lambda>meta.
     map_option (\<lambda>v. w\<lparr>dw_metadata := (dw_metadata w)[slot k := meta\<lparr>cm_topology_version := v\<rparr>]\<rparr>)
       (topology_version_inc (cm_topology_version meta)))"

definition dense_mark_topology_dirty ::
    "shape \<Rightarrow> 'v dense_world \<Rightarrow> chunk_key \<Rightarrow> dirty_mask \<Rightarrow> box3 \<Rightarrow> 'v dense_world option" where
  "dense_mark_topology_dirty s w k m b =
     (if dirty_empty m then Some w
      else Option.bind (dense_mark_dirty s w k m b) (\<lambda>w'. dense_bump_topology s w' k))"

definition dense_mark_topology_rebuilt :: "shape \<Rightarrow> 'v dense_world \<Rightarrow> chunk_key \<Rightarrow> 'v dense_world option" where
  "dense_mark_topology_rebuilt s w k = dense_bump_topology s w k"

definition dense_clear_dirty ::
    "shape \<Rightarrow> 'v dense_world \<Rightarrow> chunk_key \<Rightarrow> dirty_mask \<Rightarrow> 'v dense_world option" where
  "dense_clear_dirty s w k m =
     Option.bind (dense_dirty_mask s w k) (\<lambda>d.
     map_option (\<lambda>bd. case meta_clear_dirty d bd m of (d', bd') \<Rightarrow>
           w\<lparr>dw_dirty_masks := (dw_dirty_masks w)[slot k := d'],
             dw_dirty_bounds := (dw_dirty_bounds w)[slot k := bd']\<rparr>)
       (dense_dirty_bounds s w k))"

definition dense_observe_dirty ::
    "shape \<Rightarrow> 'v dense_world \<Rightarrow> chunk_key \<Rightarrow> dirty_mask \<Rightarrow> dirty_observation option" where
  "dense_observe_dirty s w k m =
     Option.bind (dense_dirty_mask s w k) (\<lambda>d.
     Option.bind (dense_dirty_bounds s w k) (\<lambda>bd.
     map_option (\<lambda>meta. meta_observe_dirty d bd meta m (ResidencyGeneration 0)) (dense_meta s w k)))"

definition dense_clear_dirty_observed ::
    "shape \<Rightarrow> 'v dense_world \<Rightarrow> chunk_key \<Rightarrow> dirty_observation \<Rightarrow> (bool \<times> 'v dense_world) option" where
  "dense_clear_dirty_observed s w k obs =
     Option.bind (dense_dirty_mask s w k) (\<lambda>d.
     Option.bind (dense_dirty_bounds s w k) (\<lambda>bd.
     map_option (\<lambda>meta.
         case meta_clear_dirty_observed d bd meta obs (ResidencyGeneration 0) of (ok, d', bd') \<Rightarrow>
           (ok, w\<lparr>dw_dirty_masks := (dw_dirty_masks w)[slot k := d'],
                  dw_dirty_bounds := (dw_dirty_bounds w)[slot k := bd']\<rparr>))
       (dense_meta s w k)))"

definition dense_mark_active ::
    "shape \<Rightarrow> 'v dense_world \<Rightarrow> chunk_key \<Rightarrow> active_mask \<Rightarrow> 'v dense_world option" where
  "dense_mark_active s w k m =
     map_option (\<lambda>a. w\<lparr>dw_active_masks := (dw_active_masks w)[slot k := meta_mark_active a m]\<rparr>)
       (dense_active_mask s w k)"

definition dense_clear_active ::
    "shape \<Rightarrow> 'v dense_world \<Rightarrow> chunk_key \<Rightarrow> active_mask \<Rightarrow> 'v dense_world option" where
  "dense_clear_active s w k m =
     map_option (\<lambda>a. w\<lparr>dw_active_masks := (dw_active_masks w)[slot k := meta_clear_active a m]\<rparr>)
       (dense_active_mask s w k)"

subsection \<open>Scans\<close>

definition collect_matching ::
    "shape \<Rightarrow> ('m \<Rightarrow> bool) \<Rightarrow> 'm list \<Rightarrow> chunk_key list \<Rightarrow> chunk_key list" where
  "collect_matching s p column out =
     fold (\<lambda>i acc. if p (column ! i) then acc @ [key_of_nat i] else acc) [0..<unat (chunk_count s)] out"

definition dense_collect_dirty ::
    "shape \<Rightarrow> 'v dense_world \<Rightarrow> dirty_mask \<Rightarrow> chunk_key list \<Rightarrow> chunk_key list" where
  "dense_collect_dirty s w m out =
     collect_matching s (\<lambda>d. \<not> dirty_empty (dirty_and d m)) (dw_dirty_masks w) out"

definition dense_collect_active ::
    "shape \<Rightarrow> 'v dense_world \<Rightarrow> active_mask \<Rightarrow> chunk_key list \<Rightarrow> chunk_key list" where
  "dense_collect_active s w m out =
     collect_matching s (\<lambda>a. \<not> active_empty (active_and a m)) (dw_active_masks w) out"

definition dense_dirty_chunks :: "shape \<Rightarrow> 'v dense_world \<Rightarrow> dirty_mask \<Rightarrow> chunk_key list" where
  "dense_dirty_chunks s w m = dense_collect_dirty s w m []"

definition dense_active_chunks :: "shape \<Rightarrow> 'v dense_world \<Rightarrow> active_mask \<Rightarrow> chunk_key list" where
  "dense_active_chunks s w m = dense_collect_active s w m []"

subsection \<open>Tiles\<close>

definition resolve :: "shape \<Rightarrow> coord3 \<Rightarrow> resolved_tile option" where
  "resolve s c =
     (if shape_contains s c
      then Some \<lparr>rt_chunk_key = chunk_key s (chunk_coord s c),
                 rt_local_tile_id = local_tile_id s (local_coord s c)\<rparr>
      else None)"

definition try_resolve :: "shape \<Rightarrow> coord3 \<Rightarrow> resolved_tile option" where
  "try_resolve s c = (if \<not> shape_contains s c then None else resolve s c)"

definition dense_field :: "shape \<Rightarrow> ('t, 'v) schema \<Rightarrow> 't \<Rightarrow> 'v dense_world \<Rightarrow> coord3 \<Rightarrow> 'v option" where
  "dense_field s fs t w c =
     Option.bind (resolve s c) (\<lambda>r.
     Option.bind (dense_chunk s w (rt_chunk_key r)) (\<lambda>p. page_field fs t p (rt_local_tile_id r)))"

definition dense_try_field :: "shape \<Rightarrow> ('t, 'v) schema \<Rightarrow> 't \<Rightarrow> 'v dense_world \<Rightarrow> coord3 \<Rightarrow> 'v option option" where
  "dense_try_field s fs t w c =
     (case try_resolve s c of
        None \<Rightarrow> Some None
      | Some r \<Rightarrow> Option.bind (dense_chunk s w (rt_chunk_key r))
                   (\<lambda>p. map_option Some (page_field fs t p (rt_local_tile_id r))))"

definition dense_write_field ::
    "shape \<Rightarrow> ('t, 'v) schema \<Rightarrow> 't \<Rightarrow> 'v dense_world \<Rightarrow> coord3 \<Rightarrow> 'v \<Rightarrow> 'v dense_world option" where
  "dense_write_field s fs t w c v =
     Option.bind (resolve s c) (\<lambda>r.
     Option.bind (dense_chunk s w (rt_chunk_key r)) (\<lambda>p.
     map_option (\<lambda>p'. w\<lparr>dw_pages := (dw_pages w)[slot (rt_chunk_key r) := p']\<rparr>)
       (page_write fs t p (rt_local_tile_id r) v)))"

definition dense_fill_field :: "('t, 'v) schema \<Rightarrow> 't \<Rightarrow> 'v \<Rightarrow> 'v dense_world \<Rightarrow> 'v dense_world option" where
  "dense_fill_field fs t v w =
     map_option (\<lambda>ps. w\<lparr>dw_pages := ps\<rparr>) (those (map (page_fill fs t v) (dw_pages w)))"


subsection \<open>The world invariant\<close>

definition dense_inv :: "shape \<Rightarrow> ('t, 'v) schema \<Rightarrow> 'v dense_world \<Rightarrow> bool" where
  "dense_inv s fs w \<longleftrightarrow>
     length (dw_pages w) = unat (chunk_count s) \<and>
     length (dw_metadata w) = unat (chunk_count s) \<and>
     length (dw_dirty_masks w) = unat (chunk_count s) \<and>
     length (dw_active_masks w) = unat (chunk_count s) \<and>
     length (dw_dirty_bounds w) = unat (chunk_count s) \<and>
     (\<forall>i < unat (chunk_count s).
        page_ok s fs (dw_pages w ! i) \<and> page_chunk_key (dw_pages w ! i) = key_of_nat i \<and>
        page_chunk_coord (dw_pages w ! i) = chunk_coord_of_key s (key_of_nat i))"

lemma dense_inv_lengths:
  "dense_inv s fs w \<Longrightarrow> length (dw_pages w) = unat (chunk_count s)"
  "dense_inv s fs w \<Longrightarrow> length (dw_metadata w) = unat (chunk_count s)"
  "dense_inv s fs w \<Longrightarrow> length (dw_dirty_masks w) = unat (chunk_count s)"
  "dense_inv s fs w \<Longrightarrow> length (dw_active_masks w) = unat (chunk_count s)"
  "dense_inv s fs w \<Longrightarrow> length (dw_dirty_bounds w) = unat (chunk_count s)"
  by (simp_all add: dense_inv_def)

lemma dense_inv_page:
  "dense_inv s fs w \<Longrightarrow> i < unat (chunk_count s) \<Longrightarrow> page_ok s fs (dw_pages w ! i)"
  by (simp add: dense_inv_def)

lemma slot_lt: "dense_valid_key s k \<longleftrightarrow> slot k < unat (chunk_count s)"
  by (simp add: dense_valid_key_def slot_def u64_less_nat)

lemma slot_inj: "slot a = slot b \<longleftrightarrow> a = b"
  by (auto simp: slot_def intro: chunk_key_eqI)

lemma dense_new_inv: "dense_inv s fs (dense_new s fs)"
  by (simp add: dense_inv_def dense_new_def Let_def page_ok_new) (simp add: new_page_def)

lemma resolve_Some:
  assumes "valid_shape s" "shape_contains s c"
  shows "\<exists>k l. resolve s c = Some \<lparr>rt_chunk_key = k, rt_local_tile_id = l\<rparr>
    \<and> slot k < unat (chunk_count s) \<and> tile_value l < local_tile_count s"
  using assms chunk_key_nat(2) [OF assms(1) coords_in_range(1) [OF assms]]
    local_tile_id_nat(2) [OF assms(1) coords_in_range(2) [OF assms]]
  by (simp add: resolve_def slot_def count_dims u64_less_nat)

lemma resolve_inj:
  assumes "valid_shape s" "resolve s c = Some r" "resolve s c' = Some r'"
    "rt_chunk_key r = rt_chunk_key r'" "rt_local_tile_id r = rt_local_tile_id r'"
  shows "c = c'"
proof -
  have c: "shape_contains s c" "shape_contains s c'" using assms(2,3) by (auto simp: resolve_def split: if_splits)
  have ck: "chunk_key s (chunk_coord s c) = chunk_key s (chunk_coord s c')"
    and li: "local_tile_id s (local_coord s c) = local_tile_id s (local_coord s c')"
    using assms(2-5) c by (auto simp: resolve_def)
  have "chunk_coord s c = chunk_coord s c'"
    using ck c coords_in_range(1) [OF assms(1)] by (metis chunk_key_round(1) [OF assms(1)])
  then show ?thesis using li coord_of_chunk_local [OF assms(1)] c by metis
qed

lemma dense_write_effect:
  assumes "valid_shape s" "dense_inv s fs w" "dense_write_field s fs t w c v = Some w'"
  obtains k l p p' where "resolve s c = Some \<lparr>rt_chunk_key = k, rt_local_tile_id = l\<rparr>"
    "slot k < unat (chunk_count s)" "p = dw_pages w ! slot k" "page_write fs t p l v = Some p'"
    "w' = w\<lparr>dw_pages := (dw_pages w)[slot k := p']\<rparr>"
proof -
  have "shape_contains s c" using assms(3) by (auto simp: dense_write_field_def resolve_def split: if_splits)
  from resolve_Some [OF assms(1) this] obtain k l where
    kl: "resolve s c = Some \<lparr>rt_chunk_key = k, rt_local_tile_id = l\<rparr>" "slot k < unat (chunk_count s)" by blast
  with assms(2,3) show thesis
    by (auto simp: dense_write_field_def dense_chunk_def slot_lt bind_eq_Some_conv intro: that)
qed

lemma dense_write_inv:
  assumes "valid_shape s" "dense_inv s fs w" "dense_write_field s fs t w c v = Some w'"
  shows "dense_inv s fs w'"
  using assms
proof (rule dense_write_effect)
  fix k l p p'
  assume "slot k < unat (chunk_count s)" "p = dw_pages w ! slot k" "page_write fs t p l v = Some p'"
    "w' = w\<lparr>dw_pages := (dw_pages w)[slot k := p']\<rparr>"
  with assms(2) page_write_ok [of fs t p l v p' s] page_write_key [of fs t p l v p'] show ?thesis
    by (auto simp: dense_inv_def nth_list_update)
qed

lemma dense_field_resolved:
  assumes "dense_inv s fs w" "resolve s c = Some \<lparr>rt_chunk_key = k, rt_local_tile_id = l\<rparr>"
    "slot k < unat (chunk_count s)"
  shows "dense_field s fs t w c = page_field fs t (dw_pages w ! slot k) l"
  using assms by (simp add: dense_field_def dense_chunk_def slot_lt nth_opt_in dense_inv_lengths)

lemma dense_field_outside: "\<not> shape_contains s c \<Longrightarrow> dense_field s fs t w c = None"
  by (simp add: dense_field_def resolve_def)

lemma dense_field_write:
  assumes "valid_shape s" "dense_inv s fs w" "dense_write_field s fs t w c v = Some w'"
  shows "dense_field s fs t' w' c' = (if t' = t \<and> c' = c then Some v else dense_field s fs t' w c')"
  using assms
proof (rule dense_write_effect)
  fix k l p p'
  assume kl: "resolve s c = Some \<lparr>rt_chunk_key = k, rt_local_tile_id = l\<rparr>" "slot k < unat (chunk_count s)"
    and p: "p = dw_pages w ! slot k" "page_write fs t p l v = Some p'"
    and w': "w' = w\<lparr>dw_pages := (dw_pages w)[slot k := p']\<rparr>"
  note inv' = dense_write_inv [OF assms]
  show ?thesis
  proof (cases "shape_contains s c'")
    case False
    then show ?thesis using kl by (auto simp: dense_field_outside resolve_def)
  next
    case True
    from resolve_Some [OF assms(1) this] obtain k' l' where
      kl': "resolve s c' = Some \<lparr>rt_chunk_key = k', rt_local_tile_id = l'\<rparr>" "slot k' < unat (chunk_count s)" by blast
    have cc: "c' = c \<longleftrightarrow> k' = k \<and> l' = l"
      using resolve_inj [OF assms(1) kl'(1) kl(1)] kl kl' by auto
    show ?thesis
      unfolding dense_field_resolved [OF inv' kl'] dense_field_resolved [OF assms(2) kl']
      using kl kl' p w' cc assms(2)
      by (cases "k' = k") (auto simp: slot_inj dense_inv_lengths page_read_write [OF p(2)])
  qed
qed

lemma dense_write_defined:
  assumes "valid_shape s" "dense_inv s fs w" "shape_contains s c" "contains_field_tag t fs"
  shows "\<exists>w'. dense_write_field s fs t w c v = Some w'" "\<exists>x. dense_field s fs t w c = Some x"
proof -
  from resolve_Some [OF assms(1,3)] obtain k l where
    kl: "resolve s c = Some \<lparr>rt_chunk_key = k, rt_local_tile_id = l\<rparr>" "slot k < unat (chunk_count s)"
    and l: "tile_value l < local_tile_count s" by blast
  note d = page_defined [OF dense_inv_page [OF assms(2) kl(2)] assms(4) l]
  show "\<exists>x. dense_field s fs t w c = Some x" using d(1) dense_field_resolved [OF assms(2) kl] by simp
  show "\<exists>w'. dense_write_field s fs t w c v = Some w'"
    using d(2) kl assms(2)
    by (simp add: dense_write_field_def dense_chunk_def slot_lt nth_opt_in dense_inv_lengths)
qed


lemma those_Some: "those xs = Some ys \<longleftrightarrow> xs = map Some ys"
proof (induction xs arbitrary: ys)
  case (Cons x xs)
  then show ?case by (cases ys) (auto split: option.splits)
qed auto

lemma dense_fill_effect:
  assumes "dense_fill_field fs t v w = Some w'"
  obtains ps where "w' = w\<lparr>dw_pages := ps\<rparr>" "length ps = length (dw_pages w)"
    "\<forall>i < length ps. page_fill fs t v (dw_pages w ! i) = Some (ps ! i)"
proof -
  from assms obtain ps where ps: "map (page_fill fs t v) (dw_pages w) = map Some ps" and w': "w' = w\<lparr>dw_pages := ps\<rparr>"
    by (auto simp: dense_fill_field_def those_Some)
  have "length ps = length (dw_pages w)" using ps by (metis length_map)
  moreover have "page_fill fs t v (dw_pages w ! i) = Some (ps ! i)" if "i < length ps" for i
    using ps that by (metis length_map nth_map)
  ultimately show thesis using w' that by blast
qed

lemma dense_fill_inv: "dense_inv s fs w \<Longrightarrow> dense_fill_field fs t v w = Some w' \<Longrightarrow> dense_inv s fs w'"
proof (erule dense_fill_effect)
  fix ps assume w: "dense_inv s fs w" "w' = w\<lparr>dw_pages := ps\<rparr>" "length ps = length (dw_pages w)"
    and ps: "\<forall>i < length ps. page_fill fs t v (dw_pages w ! i) = Some (ps ! i)"
  have "page_ok s fs (ps ! i) \<and> page_chunk_key (ps ! i) = page_chunk_key (dw_pages w ! i)
      \<and> page_chunk_coord (ps ! i) = page_chunk_coord (dw_pages w ! i)" if "i < unat (chunk_count s)" for i
    using w ps that page_fill_ok [of fs t v "dw_pages w ! i" "ps ! i" s]
      page_fill_key [of fs t v "dw_pages w ! i" "ps ! i"] by (simp add: dense_inv_def)
  with w show "dense_inv s fs w'" by (simp add: dense_inv_def)
qed

lemma dense_fill_defined:
  assumes "valid_shape s" "dense_inv s fs w" "contains_field_tag t fs"
  shows "\<exists>w'. dense_fill_field fs t v w = Some w'"
proof -
  have pos: "tile_value (LocalTileId 0) < local_tile_count s"
    using count_dims(6) [OF assms(1)] dims_pos [OF assms(1)] by (simp add: u64_less_nat)
  have "\<forall>i < length (dw_pages w). \<exists>p'. page_fill fs t v (dw_pages w ! i) = Some p'"
    using page_defined(3) [OF dense_inv_page [OF assms(2)] assms(3) pos]
    by (simp add: dense_inv_lengths [OF assms(2)])
  then obtain f where "\<forall>i < length (dw_pages w). page_fill fs t v (dw_pages w ! i) = Some (f i)" by metis
  then have "map (page_fill fs t v) (dw_pages w) = map Some (map f [0..<length (dw_pages w)])"
    by (intro nth_equalityI) auto
  then have "those (map (page_fill fs t v) (dw_pages w)) = Some (map f [0..<length (dw_pages w)])"
    by (simp only: those_Some)
  then show ?thesis by (simp add: dense_fill_field_def)
qed

lemma dense_field_fill:
  assumes "valid_shape s" "dense_inv s fs w" "dense_fill_field fs t v w = Some w'" "shape_contains s c"
  shows "dense_field s fs t' w' c = (if t' = t then Some v else dense_field s fs t' w c)"
proof -
  from resolve_Some [OF assms(1,4)] obtain k l where
    kl: "resolve s c = Some \<lparr>rt_chunk_key = k, rt_local_tile_id = l\<rparr>" "slot k < unat (chunk_count s)"
    and l: "tile_value l < local_tile_count s" by blast
  from assms(3) obtain ps where w': "w' = w\<lparr>dw_pages := ps\<rparr>" and len: "length ps = length (dw_pages w)"
    and ps: "\<forall>i < length ps. page_fill fs t v (dw_pages w ! i) = Some (ps ! i)" by (rule dense_fill_effect)
  have "page_fill fs t v (dw_pages w ! slot k) = Some (ps ! slot k)"
    using ps len kl(2) assms(2) by (simp add: dense_inv_lengths)
  from page_read_fill [OF this dense_inv_page [OF assms(2) kl(2)] l]
  show ?thesis
    unfolding dense_field_resolved [OF dense_fill_inv [OF assms(2,3)] kl] dense_field_resolved [OF assms(2) kl]
    by (simp add: w')
qed

lemma dense_field_new:
  assumes "valid_shape s" "shape_contains s c" "field_index t 0 fs = Some i"
  shows "dense_field s fs t (dense_new s fs) c = Some (snd (fs ! i))"
proof -
  from resolve_Some [OF assms(1,2)] obtain k l where
    kl: "resolve s c = Some \<lparr>rt_chunk_key = k, rt_local_tile_id = l\<rparr>" "slot k < unat (chunk_count s)"
    and l: "tile_value l < local_tile_count s" by blast
  show ?thesis
    unfolding dense_field_resolved [OF dense_new_inv kl]
    using kl(2) l assms(3) by (simp add: dense_new_def Let_def page_field_new)
qed

subsection \<open>The metadata columns refine the single-chunk protocol\<close>

definition dense_entry :: "'v dense_world \<Rightarrow> nat \<Rightarrow> dirty_state" where
  "dense_entry w i = (dw_dirty_masks w ! i, dw_dirty_bounds w ! i, dw_metadata w ! i)"

definition dense_dirty_call :: "shape \<Rightarrow> chunk_key \<Rightarrow> dirty_call \<Rightarrow> 'v dense_world \<Rightarrow> 'v dense_world option" where
  "dense_dirty_call s k c w =
     (case c of
        MarkDirty m b \<Rightarrow> dense_mark_dirty s w k m b
      | MarkContentChanged \<Rightarrow> dense_mark_content_changed s w k
      | ClearDirty m \<Rightarrow> dense_clear_dirty s w k m
      | ClearDirtyObserved obs g \<Rightarrow>
          (if g = ResidencyGeneration 0 then map_option snd (dense_clear_dirty_observed s w k obs) else None))"

lemmas dense_cols = dense_mark_dirty_def dense_mark_content_changed_def dense_clear_dirty_def
  dense_clear_dirty_observed_def dense_meta_def dense_dirty_mask_def dense_dirty_bounds_def
  dense_active_mask_def dense_bump_topology_def dense_mark_active_def dense_clear_active_def

lemma dense_meta_columns_inv:
  "dense_inv s fs w \<Longrightarrow> length ms = length (dw_metadata w) \<Longrightarrow> length ds = length (dw_dirty_masks w) \<Longrightarrow>
   length as = length (dw_active_masks w) \<Longrightarrow> length bs = length (dw_dirty_bounds w) \<Longrightarrow>
   dense_inv s fs \<lparr>dw_pages = dw_pages w, dw_metadata = ms, dw_dirty_masks = ds,
                  dw_active_masks = as, dw_dirty_bounds = bs\<rparr>"
  by (simp add: dense_inv_def)

lemma dense_dirty_call_some:
  assumes "dense_inv s fs w" "dense_valid_key s k" "\<And>obs g. c = ClearDirtyObserved obs g \<Longrightarrow> g = ResidencyGeneration 0"
  shows "dense_dirty_call s k c w =
    map_option (\<lambda>(d, b, m). w\<lparr>dw_dirty_masks := (dw_dirty_masks w)[slot k := d],
                              dw_dirty_bounds := (dw_dirty_bounds w)[slot k := b],
                              dw_metadata := (dw_metadata w)[slot k := m]\<rparr>)
      (dirty_step c (dense_entry w (slot k)))"
proof -
  have i: "slot k < length (dw_metadata w)" "slot k < length (dw_dirty_masks w)" "slot k < length (dw_dirty_bounds w)"
    using assms(1,2) by (simp_all add: slot_lt dense_inv_lengths)
  show ?thesis
  proof (cases c)
    case (MarkDirty m b)
    then show ?thesis using i assms(2)
      by (simp add: dense_dirty_call_def dense_cols dense_entry_def nth_opt_in option.map_comp)
  next
    case MarkContentChanged
    then show ?thesis using i assms(2)
      by (simp add: dense_dirty_call_def dense_cols dense_entry_def nth_opt_in option.map_comp comp_def)
  next
    case (ClearDirty m)
    then show ?thesis using i assms(2)
      by (simp add: dense_dirty_call_def dense_cols dense_entry_def nth_opt_in split: prod.splits)
  next
    case (ClearDirtyObserved obs g)
    then show ?thesis using i assms(2) assms(3) [OF ClearDirtyObserved]
      by (simp add: dense_dirty_call_def dense_cols dense_entry_def nth_opt_in split: prod.splits)
  qed
qed

lemma dense_call_effect:
  assumes "dense_inv s fs w" "dense_valid_key s k" "\<And>obs g. c = ClearDirtyObserved obs g \<Longrightarrow> g = ResidencyGeneration 0"
    and "dense_dirty_call s k c w = Some w'"
  shows "dense_inv s fs w' \<and> dirty_step c (dense_entry w (slot k)) = Some (dense_entry w' (slot k))
      \<and> (\<forall>i. i \<noteq> slot k \<longrightarrow> dense_entry w' i = dense_entry w i)
      \<and> dw_active_masks w' = dw_active_masks w \<and> dw_pages w' = dw_pages w"
proof -
  have lt: "slot k < unat (chunk_count s)" using assms(2) by (simp add: slot_lt)
  from assms(4) obtain d b m where st: "dirty_step c (dense_entry w (slot k)) = Some (d, b, m)"
    and "w' = w\<lparr>dw_dirty_masks := (dw_dirty_masks w)[slot k := d],
                dw_dirty_bounds := (dw_dirty_bounds w)[slot k := b],
                dw_metadata := (dw_metadata w)[slot k := m]\<rparr>"
    by (auto simp: dense_dirty_call_some [OF assms(1,2,3)])
  with lt assms(1) show ?thesis by (simp add: st dense_entry_def dense_inv_def)
qed

lemma fold_collect:
  "fold (\<lambda>i acc. if p i then acc @ [f i] else acc) xs out = out @ map f (filter p xs)"
  by (induction xs arbitrary: out) auto

lemma dense_dirty_chunks_eq:
  "dense_dirty_chunks s w m =
   map key_of_nat (filter (\<lambda>i. dm_value (dw_dirty_masks w ! i) AND dm_value m \<noteq> 0) [0..<unat (chunk_count s)])"
  by (simp add: dense_dirty_chunks_def dense_collect_dirty_def collect_matching_def fold_collect
      dirty_empty_def dirty_and_def)

subsection \<open>Properties\<close>


definition example_schema :: "(string \<times> nat) list" where
  "example_schema = [(''terrain'', 0), (''cost'', 1)]"




end
