(* ===== verification/Render_Delta.thy ===== *)
theory Render_Delta imports Dense_World begin

text \<open>
  \<open>sim/render_delta.h\<close>: the tiles a renderer must reread. The C++ functions are templates over
  the world; what they call on it (\<open>observe_dirty\<close>, \<open>clear_dirty\<close> and the list of chunks to
  scan) are arguments here. The locale \<open>render_world\<close> is that interface with the laws the
  functions rely on; it is interpreted on the always-resident world.
\<close>

record render_tile_delta =
  rd_coord :: coord3
  rd_chunk_key :: chunk_key
  rd_local_tile_id :: local_tile_id
  rd_dirty_mask :: dirty_mask
  rd_content_version :: content_version

text \<open>\<open>std::max\<close> and \<open>std::min\<close> on int64.\<close>

definition i64_std_max :: "i64 \<Rightarrow> i64 \<Rightarrow> i64" where
  "i64_std_max a b = (if i64_less a b then b else a)"

definition i64_std_min :: "i64 \<Rightarrow> i64 \<Rightarrow> i64" where
  "i64_std_min a b = (if i64_less b a then b else a)"

definition axis_end :: "i64 \<Rightarrow> u64 \<Rightarrow> i64" where
  "axis_end origin extent = box_axis_end origin extent"

definition clip_begin :: "i64 \<Rightarrow> u64 \<Rightarrow> u64 \<Rightarrow> i64" where
  "clip_begin origin chunk_index chunk_extent = i64_std_max origin (chunk_index * chunk_extent)"

definition clip_end :: "i64 \<Rightarrow> u64 \<Rightarrow> u64 \<Rightarrow> u64 \<Rightarrow> i64" where
  "clip_end origin extent chunk_index chunk_extent =
     i64_std_min (axis_end origin extent) (chunk_index * chunk_extent + chunk_extent)"

definition emit_coords :: "shape \<Rightarrow> box3 \<Rightarrow> chunk_key \<Rightarrow> coord3 list" where
  "emit_coords s b k =
     (let chunk = chunk_coord_of_key s k; o3 = box_origin b; e3 = box_extent b; ce = shape_chunk s;
          begin_x = clip_begin (co_x o3) (cc_x chunk) (ext_x ce);
          begin_y = clip_begin (co_y o3) (cc_y chunk) (ext_y ce);
          begin_z = clip_begin (co_z o3) (cc_z chunk) (ext_z ce);
          end_x = clip_end (co_x o3) (ext_x e3) (cc_x chunk) (ext_x ce);
          end_y = clip_end (co_y o3) (ext_y e3) (cc_y chunk) (ext_y ce);
          end_z = clip_end (co_z o3) (ext_z e3) (cc_z chunk) (ext_z ce)
      in concat (map (\<lambda>z. concat (map (\<lambda>y. map (\<lambda>x. mk_coord3 x y z)
           (i64_range begin_x end_x)) (i64_range begin_y end_y))) (i64_range begin_z end_z)))"

definition emit_chunk_render_deltas ::
    "shape \<Rightarrow> (chunk_key \<Rightarrow> dirty_mask \<Rightarrow> dirty_observation option) \<Rightarrow> dirty_mask \<Rightarrow> chunk_key
     \<Rightarrow> render_tile_delta list \<Rightarrow> render_tile_delta list option" where
  "emit_chunk_render_deltas s observe m k out =
     map_option (\<lambda>obs.
        if dirty_empty (do_mask obs) then out
        else out @ map (\<lambda>c. \<lparr>rd_coord = c, rd_chunk_key = k,
                              rd_local_tile_id = local_tile_id s (local_coord s c),
                              rd_dirty_mask = do_mask obs,
                              rd_content_version = do_content_version obs\<rparr>)
                     (emit_coords s (do_bounds obs) k))
       (observe k m)"

definition collect_render_tile_deltas ::
    "shape \<Rightarrow> chunk_key list \<Rightarrow> (chunk_key \<Rightarrow> dirty_mask \<Rightarrow> dirty_observation option) \<Rightarrow> dirty_mask
     \<Rightarrow> render_tile_delta list \<Rightarrow> render_tile_delta list option" where
  "collect_render_tile_deltas s keys observe m out =
     (if dirty_empty m then Some out
      else fold_opt (emit_chunk_render_deltas s observe m) keys out)"

definition render_tile_deltas ::
    "shape \<Rightarrow> chunk_key list \<Rightarrow> (chunk_key \<Rightarrow> dirty_mask \<Rightarrow> dirty_observation option) \<Rightarrow> dirty_mask
     \<Rightarrow> render_tile_delta list option" where
  "render_tile_deltas s keys observe m = collect_render_tile_deltas s keys observe m []"

definition clear_render_delta_dirty ::
    "chunk_key list \<Rightarrow> (chunk_key \<Rightarrow> dirty_mask \<Rightarrow> 'w \<Rightarrow> 'w option) \<Rightarrow> dirty_mask \<Rightarrow> 'w \<Rightarrow> 'w option" where
  "clear_render_delta_dirty keys clear m w =
     (if dirty_empty m then Some w else fold_opt (\<lambda>k. clear k m) keys w)"

definition all_chunk_keys :: "shape \<Rightarrow> chunk_key list" where
  "all_chunk_keys s = map key_of_nat [0..<unat (chunk_count s)]"

subsection \<open>The clipped loop visits exactly the tiles of the chunk inside the bounds\<close>

definition in_axis :: "i64 \<Rightarrow> u64 \<Rightarrow> i64 \<Rightarrow> bool" where
  "in_axis origin extent c \<longleftrightarrow> sint origin \<le> sint c \<and> sint c < sint (box_axis_end origin extent)"

definition in_bounds :: "box3 \<Rightarrow> coord3 \<Rightarrow> bool" where
  "in_bounds b c \<longleftrightarrow>
     in_axis (co_x (box_origin b)) (ext_x (box_extent b)) (co_x c) \<and>
     in_axis (co_y (box_origin b)) (ext_y (box_extent b)) (co_y c) \<and>
     in_axis (co_z (box_origin b)) (ext_z (box_extent b)) (co_z c)"

lemma in_axis_box:
  "unat extent < 2 ^ 63 \<Longrightarrow> c \<noteq> i64_max \<Longrightarrow> in_axis origin extent c \<longleftrightarrow> axis_contains origin extent c"
proof -
  assume e: "unat extent < 2 ^ 63" and "c \<noteq> i64_max"
  then have "sint c \<noteq> sint i64_max" by (metis i64_eqI)
  then have "sint c < 2 ^ 63 - 1" using i64_bounds(2) [of c] by simp
  then show ?thesis
    unfolding in_axis_def axis_contains_iff sint_box_axis_end(2) [OF e] by linarith
qed

lemma div_eq_iff_interval: "0 < c \<Longrightarrow> i * c \<le> x \<and> x < i * c + c \<longleftrightarrow> x div c = (i :: nat)"
proof
  assume "0 < c" "x div c = i"
  then show "i * c \<le> x \<and> x < i * c + c"
    using div_times_less_eq_dividend [of x c] dividend_less_div_times [of c x] by (simp add: add.commute)
next
  assume "0 < c" "i * c \<le> x \<and> x < i * c + c"
  then show "x div c = i" by (intro div_nat_eqI) (simp_all add: mult.commute)
qed

lemma set_coord_grid:
  "c \<in> set (concat (map (\<lambda>z. concat (map (\<lambda>y. map (\<lambda>x. mk_coord3 x y z) xs) ys)) zs))
   \<longleftrightarrow> co_x c \<in> set xs \<and> co_y c \<in> set ys \<and> co_z c \<in> set zs"
proof -
  have "c = mk_coord3 x y z \<longleftrightarrow> co_x c = x \<and> co_y c = y \<and> co_z c = z" for x y z
    by (cases c) (auto simp: mk_coord3_def)
  then show ?thesis by (auto simp: image_iff)
qed

lemma clip_range:
  assumes "unat i < n" "n * unat ce < 2 ^ 63" "0 < unat ce"
  shows "x \<in> set (i64_range (clip_begin origin i ce) (clip_end origin extent i ce)) \<longleftrightarrow>
     in_axis origin extent x \<and> unat x < 2 ^ 63 \<and> unat x div unat ce = unat i"
proof -
  have le: "Suc (unat i) * unat ce \<le> n * unat ce" using assms(1) by (intro mult_right_mono) auto
  then have small: "unat i * unat ce + unat ce < 2 ^ 63" using assms(2) by simp
  have b: "unat (i * ce) = unat i * unat ce" using small by (intro unat_mult_u64) simp
  have e: "unat (i * ce + ce) = unat i * unat ce + unat ce"
    using small b by (subst unat_add_u64) simp_all
  have sb: "sint (i * ce) = int (unat i * unat ce)"
    using sint_word_of_small [of "i * ce"] b small by linarith
  have se: "sint (i * ce + ce) = int (unat i * unat ce + unat ce)"
    using sint_word_of_small [of "i * ce + ce"] e small by (simp only:)
  have "x \<in> set (i64_range (clip_begin origin i ce) (clip_end origin extent i ce)) \<longleftrightarrow>
      in_axis origin extent x \<and> int (unat i * unat ce) \<le> sint x \<and> sint x < int (unat i * unat ce + unat ce)"
    unfolding set_i64_range clip_begin_def clip_end_def i64_std_max_def i64_std_min_def i64_less_def
      axis_end_def in_axis_def sb [symmetric] se [symmetric] by auto
  also have "int (unat i * unat ce) \<le> sint x \<and> sint x < int (unat i * unat ce + unat ce) \<longleftrightarrow>
      unat x < 2 ^ 63 \<and> unat i * unat ce \<le> unat x \<and> unat x < unat i * unat ce + unat ce"
  proof (cases "unat x < 2 ^ 63")
    case True
    show ?thesis using True by (simp only: sint_word_of_small [OF True] of_nat_le_iff of_nat_less_iff simp_thms)
  next
    case False
    then have "sint x < 0" using sint_nonneg_iff [of x] by linarith
    with False show ?thesis by linarith
  qed
  also have "unat i * unat ce \<le> unat x \<and> unat x < unat i * unat ce + unat ce \<longleftrightarrow> unat x div unat ce = unat i"
    by (rule div_eq_iff_interval [OF assms(3)])
  finally show ?thesis .
qed


lemma set_emit_coords:
  assumes "valid_shape s" "key_value k < chunk_count s"
  shows "c \<in> set (emit_coords s b k) \<longleftrightarrow>
    in_bounds b c \<and> shape_contains s c \<and> chunk_key s (chunk_coord s c) = k"
proof -
  have k: "unat (key_value k) < nx s * ny s * nz s"
    using assms(2) by (simp add: u64_less_nat count_dims(5) [OF assms(1)])
  define cc where "cc = chunk_coord_of_key s k"
  have r: "chunk_in_range s cc" unfolding cc_def by (rule chunk_coord_of_key_nat(4) [OF assms(1) k])
  note p = dims_pos [OF assms(1)] and sz = size_dims(4-6) [OF assms(1)]
  have X: "x \<in> set (i64_range (clip_begin o' (cc_x cc) (ext_x (shape_chunk s))) (clip_end o' e (cc_x cc) (ext_x (shape_chunk s))))
      \<longleftrightarrow> in_axis o' e x \<and> unat x < 2 ^ 63 \<and> unat x div cx s = unat (cc_x cc)" for o' e x
    using r p sz clip_range [of "cc_x cc" "nx s" "ext_x (shape_chunk s)" x o' e]
    by (simp add: chunk_in_range_def cx_def)
  have Y: "x \<in> set (i64_range (clip_begin o' (cc_y cc) (ext_y (shape_chunk s))) (clip_end o' e (cc_y cc) (ext_y (shape_chunk s))))
      \<longleftrightarrow> in_axis o' e x \<and> unat x < 2 ^ 63 \<and> unat x div cy s = unat (cc_y cc)" for o' e x
    using r p sz clip_range [of "cc_y cc" "ny s" "ext_y (shape_chunk s)" x o' e]
    by (simp add: chunk_in_range_def cy_def)
  have Z: "x \<in> set (i64_range (clip_begin o' (cc_z cc) (ext_z (shape_chunk s))) (clip_end o' e (cc_z cc) (ext_z (shape_chunk s))))
      \<longleftrightarrow> in_axis o' e x \<and> unat x < 2 ^ 63 \<and> unat x div cz s = unat (cc_z cc)" for o' e x
    using r p sz clip_range [of "cc_z cc" "nz s" "ext_z (shape_chunk s)" x o' e]
    by (simp add: chunk_in_range_def cz_def)
  have "c \<in> set (emit_coords s b k) \<longleftrightarrow> in_bounds b c \<and>
      (unat (co_x c) < 2 ^ 63 \<and> unat (co_y c) < 2 ^ 63 \<and> unat (co_z c) < 2 ^ 63) \<and>
      unat (co_x c) div cx s = unat (cc_x cc) \<and> unat (co_y c) div cy s = unat (cc_y cc) \<and>
      unat (co_z c) div cz s = unat (cc_z cc)"
    unfolding emit_coords_def Let_def cc_def [symmetric] set_coord_grid X Y Z in_bounds_def by blast
  also have "\<dots> \<longleftrightarrow> in_bounds b c \<and> shape_contains s c \<and> chunk_coord s c = cc"
  proof -
    have eq: "chunk_coord s c = cc \<longleftrightarrow> unat (co_x c) div cx s = unat (cc_x cc)
        \<and> unat (co_y c) div cy s = unat (cc_y cc) \<and> unat (co_z c) div cz s = unat (cc_z cc)"
      by (auto simp: chunk_coord_nat [symmetric] intro: chunk_coord3_eqI)
    have lt: "n < q * m" if "n div m = i" "i < q" "0 < m" for n m i q :: nat
      using that div_less_iff_less_mult [of m n q] by simp
    show ?thesis
      using r p sz by (auto simp: eq shape_contains_iff [OF assms(1)] chunk_in_range_def intro: lt)
  qed
  also have "\<dots> \<longleftrightarrow> in_bounds b c \<and> shape_contains s c \<and> chunk_key s (chunk_coord s c) = k"
    using chunk_key_round(2) [OF assms(1) k] chunk_key_round(1) [OF assms(1)]
      coords_in_range(1) [OF assms(1)] by (metis cc_def)
  finally show ?thesis .
qed

lemma distinct_concat_map:
  "distinct xs \<Longrightarrow> (\<And>x. x \<in> set xs \<Longrightarrow> distinct (f x)) \<Longrightarrow>
   (\<And>x y z. x \<in> set xs \<Longrightarrow> y \<in> set xs \<Longrightarrow> z \<in> set (f x) \<Longrightarrow> z \<in> set (f y) \<Longrightarrow> x = y) \<Longrightarrow>
   distinct (concat (map f xs))"
proof (induction xs)
  case (Cons a xs)
  have "distinct (concat (map f xs))" using Cons by auto
  moreover have "set (f a) \<inter> set (concat (map f xs)) = {}" using Cons.prems by fastforce
  ultimately show ?case using Cons.prems(2) by simp
qed simp

lemma distinct_emit_coords: "distinct (emit_coords s b k)"
  unfolding emit_coords_def Let_def
  by (intro distinct_concat_map distinct_i64_range)
     (auto simp: distinct_map distinct_i64_range inj_on_def mk_coord3_def)

subsection \<open>The interface to the world\<close>

locale render_world =
  fixes s :: shape
    and inv :: "'w \<Rightarrow> bool"
    and keys :: "'w \<Rightarrow> chunk_key list"
    and entry :: "'w \<Rightarrow> chunk_key \<Rightarrow> dirty_state"
    and observe :: "'w \<Rightarrow> chunk_key \<Rightarrow> dirty_mask \<Rightarrow> dirty_observation option"
    and clear :: "chunk_key \<Rightarrow> dirty_mask \<Rightarrow> 'w \<Rightarrow> 'w option"
  assumes shape_ok: "inv w \<Longrightarrow> valid_shape s"
    and keys_distinct: "inv w \<Longrightarrow> distinct (keys w)"
    and keys_valid: "inv w \<Longrightarrow> k \<in> set (keys w) \<Longrightarrow> key_value k < chunk_count s"
    and observe_law: "inv w \<Longrightarrow> k \<in> set (keys w) \<Longrightarrow>
          \<exists>obs. observe w k m = Some obs \<and> do_mask obs = dirty_and (fst (entry w k)) m
            \<and> do_bounds obs = fst (snd (entry w k))
            \<and> do_content_version obs = cm_content_version (snd (snd (entry w k)))"
    and clear_law: "inv w \<Longrightarrow> k \<in> set (keys w) \<Longrightarrow>
          \<exists>w'. clear k m w = Some w' \<and> inv w' \<and> keys w' = keys w
            \<and> (\<forall>k'. k' \<noteq> k \<longrightarrow> entry w' k' = entry w k')
            \<and> dirty_step (ClearDirty m) (entry w k) = Some (entry w' k)"
begin

definition delta_of :: "'w \<Rightarrow> dirty_mask \<Rightarrow> chunk_key \<Rightarrow> coord3 \<Rightarrow> render_tile_delta" where
  "delta_of w m k c = \<lparr>rd_coord = c, rd_chunk_key = k,
     rd_local_tile_id = local_tile_id s (local_coord s c),
     rd_dirty_mask = dirty_and (fst (entry w k)) m,
     rd_content_version = cm_content_version (snd (snd (entry w k)))\<rparr>"

definition chunk_deltas :: "'w \<Rightarrow> dirty_mask \<Rightarrow> chunk_key \<Rightarrow> render_tile_delta list" where
  "chunk_deltas w m k =
     (if dirty_empty (dirty_and (fst (entry w k)) m) then []
      else map (delta_of w m k) (emit_coords s (fst (snd (entry w k))) k))"

lemma emit_eq:
  "inv w \<Longrightarrow> k \<in> set (keys w) \<Longrightarrow>
   emit_chunk_render_deltas s (observe w) m k out = Some (out @ chunk_deltas w m k)"
  using observe_law [of w k m]
  by (auto simp: emit_chunk_render_deltas_def chunk_deltas_def delta_of_def)

lemma collect_eq:
  assumes "inv w"
  shows "collect_render_tile_deltas s (keys w) (observe w) m out =
     Some (out @ (if dirty_empty m then [] else concat (map (chunk_deltas w m) (keys w))))"
proof -
  have "fold_opt (emit_chunk_render_deltas s (observe w) m) ks out = Some (out @ concat (map (chunk_deltas w m) ks))"
    if "set ks \<subseteq> set (keys w)" for ks out
    using that by (induction ks arbitrary: out) (simp_all add: emit_eq [OF assms])
  then show ?thesis by (simp add: collect_render_tile_deltas_def)
qed

lemma clear_eq:
  assumes "inv w"
  shows "\<exists>w'. clear_render_delta_dirty (keys w) clear m w = Some w' \<and> inv w' \<and> keys w' = keys w
    \<and> (\<forall>k. k \<notin> set (keys w) \<longrightarrow> entry w' k = entry w k)
    \<and> (\<forall>k \<in> set (keys w). Some (entry w' k) = dirty_step (ClearDirty m) (entry w k))"
proof -
  have loop: "\<exists>w'. fold_opt (\<lambda>k. clear k m) ks v = Some w' \<and> inv w' \<and> keys w' = keys w
    \<and> (\<forall>k. k \<notin> set ks \<longrightarrow> entry w' k = entry v k)
    \<and> (\<forall>k \<in> set ks. Some (entry w' k) = dirty_step (ClearDirty m) (entry v k))"
    if "set ks \<subseteq> set (keys w)" "distinct ks" "inv v" "keys v = keys w" for ks v
    using that
  proof (induction ks arbitrary: v)
    case (Cons k ks)
    obtain v' where v': "clear k m v = Some v'" "inv v'" "keys v' = keys w"
      "\<forall>k'. k' \<noteq> k \<longrightarrow> entry v' k' = entry v k'" "dirty_step (ClearDirty m) (entry v k) = Some (entry v' k)"
      using clear_law [OF Cons.prems(3), of k m] Cons.prems by auto
    obtain w' where w': "fold_opt (\<lambda>k. clear k m) ks v' = Some w'" "inv w'" "keys w' = keys w"
      "\<forall>k. k \<notin> set ks \<longrightarrow> entry w' k = entry v' k"
      "\<forall>k \<in> set ks. Some (entry w' k) = dirty_step (ClearDirty m) (entry v' k)"
      using Cons.IH [of v'] Cons.prems v' by auto
    have "entry w' k = entry v' k" using w'(4) Cons.prems(2) by simp
    with v' w' Cons.prems(2) show ?case
      by (intro exI [of _ w']) auto
  qed simp
  have "dirty_step (ClearDirty m) e = Some e" if "dirty_empty m" for e
    using that by (cases e) (simp add: meta_clear_dirty_def)
  with loop [of "keys w" w] assms keys_distinct [OF assms] show ?thesis
    by (auto simp: clear_render_delta_dirty_def)
qed

lemma in_deltas:
  assumes "inv w" "\<not> dirty_empty m"
  shows "d \<in> set (concat (map (chunk_deltas w m) (keys w))) \<longleftrightarrow>
    (\<exists>k c. k \<in> set (keys w) \<and> \<not> dirty_empty (dirty_and (fst (entry w k)) m)
       \<and> in_bounds (fst (snd (entry w k))) c \<and> shape_contains s c \<and> chunk_key s (chunk_coord s c) = k
       \<and> d = delta_of w m k c)"
  using set_emit_coords [OF shape_ok [OF assms(1)] keys_valid [OF assms(1)]]
  by (fastforce simp: chunk_deltas_def)

lemma deltas_distinct:
  assumes "inv w"
  shows "distinct (map rd_coord (concat (map (chunk_deltas w m) (keys w))))"
proof -
  have "distinct (concat (map (\<lambda>k. map rd_coord (chunk_deltas w m k)) (keys w)))"
  proof (rule distinct_concat_map [OF keys_distinct [OF assms]])
    fix k show "distinct (map rd_coord (chunk_deltas w m k))"
      by (simp add: chunk_deltas_def delta_of_def comp_def distinct_emit_coords)
  next
    fix k k' c
    assume "k \<in> set (keys w)" "k' \<in> set (keys w)"
      "c \<in> set (map rd_coord (chunk_deltas w m k))" "c \<in> set (map rd_coord (chunk_deltas w m k'))"
    then show "k = k'"
      using set_emit_coords [OF shape_ok [OF assms] keys_valid [OF assms]]
      by (auto simp: chunk_deltas_def delta_of_def split: if_splits)
  qed
  then show ?thesis by (simp add: map_concat comp_def)
qed

lemma cleared_empty:
  assumes "inv w" "clear_render_delta_dirty (keys w) clear m w = Some w'"
  shows "render_tile_deltas s (keys w') (observe w') m = Some []"
proof -
  have w': "inv w'" "keys w' = keys w"
    "\<forall>k \<in> set (keys w). Some (entry w' k) = dirty_step (ClearDirty m) (entry w k)"
    using clear_eq [OF assms(1), of m] assms(2) by auto
  have "dm_value (fst (entry w' k)) AND dm_value m = 0" if "k \<in> set (keys w)" for k
  proof -
    obtain d b cm where e: "entry w k = (d, b, cm)" by (cases "entry w k")
    show ?thesis using w'(3) that e
      by (auto simp: meta_clear_dirty_def dirty_empty_def dirty_and_def dirty_not_def Let_def
          bit_eq_iff bit_and_iff bit_not_iff split: if_splits)
  qed
  then have "chunk_deltas w' m k = []" if "k \<in> set (keys w)" for k
    using that by (simp add: chunk_deltas_def dirty_empty_def dirty_and_def)
  moreover have "render_tile_deltas s (keys w') (observe w') m =
      Some (if dirty_empty m then [] else concat (map (chunk_deltas w' m) (keys w)))"
    using collect_eq [OF w'(1), of m "[]"] by (simp add: render_tile_deltas_def w'(2))
  ultimately show ?thesis by simp
qed

end


subsection \<open>The always-resident world provides the interface\<close>

lemma key_of_nat_slot: "i < unat (chunk_count s) \<Longrightarrow> slot (key_of_nat i) = i"
proof -
  assume "i < unat (chunk_count s)"
  then have "i < 2 ^ 64" using u64_less [of "chunk_count s"] by linarith
  then show ?thesis by (simp add: slot_def key_of_nat_def take_bit_nat_eq_self unsigned_of_nat)
qed

lemma set_all_chunk_keys: "k \<in> set (all_chunk_keys s) \<longleftrightarrow> dense_valid_key s k"
proof
  assume "k \<in> set (all_chunk_keys s)"
  then show "dense_valid_key s k" by (auto simp: all_chunk_keys_def slot_lt key_of_nat_slot)
next
  assume "dense_valid_key s k"
  then have lt: "slot k < unat (chunk_count s)" by (simp add: slot_lt)
  have "k = key_of_nat (slot k)" using key_of_nat_slot [OF lt] by (simp flip: slot_inj)
  with lt show "k \<in> set (all_chunk_keys s)" by (auto simp: all_chunk_keys_def)
qed

lemma distinct_all_chunk_keys: "distinct (all_chunk_keys s)"
  unfolding all_chunk_keys_def distinct_map
  by (intro conjI inj_onI distinct_upt) (metis atLeastLessThan_upt atLeastLessThan_iff key_of_nat_slot)

interpretation dense_render: render_world s "\<lambda>w. valid_shape s \<and> dense_inv s fs w"
    "\<lambda>w. all_chunk_keys s" "\<lambda>w k. dense_entry w (slot k)" "dense_observe_dirty s"
    "\<lambda>k m w. dense_clear_dirty s w k m"
  for s and fs :: "('t \<times> 'v) list"
proof unfold_locales
  fix w :: "'v dense_world" and k m
  assume inv: "valid_shape s \<and> dense_inv s fs w" and "k \<in> set (all_chunk_keys s)"
  then have k: "dense_valid_key s k" by (simp add: set_all_chunk_keys)
  then have "slot k < unat (chunk_count s)" by (simp add: slot_lt)
  then show "\<exists>obs. dense_observe_dirty s w k m = Some obs
      \<and> do_mask obs = dirty_and (fst (dense_entry w (slot k))) m
      \<and> do_bounds obs = fst (snd (dense_entry w (slot k)))
      \<and> do_content_version obs = cm_content_version (snd (snd (dense_entry w (slot k))))"
    using k by (simp add: dense_observe_dirty_def dense_cols nth_opt_in dense_inv_lengths [OF conjunct2 [OF inv]]
        meta_observe_dirty_def dense_entry_def)
  have c: "dense_dirty_call s k (ClearDirty m) w = dense_clear_dirty s w k m"
    by (simp add: dense_dirty_call_def)
  have "\<exists>w'. dense_clear_dirty s w k m = Some w'"
    using dense_dirty_call_some [of s fs w k "ClearDirty m"] inv k c
    by (cases "dense_entry w (slot k)") (auto split: prod.splits)
  then obtain w' where w': "dense_clear_dirty s w k m = Some w'" by blast
  have "dense_inv s fs w' \<and> dirty_step (ClearDirty m) (dense_entry w (slot k)) = Some (dense_entry w' (slot k))
    \<and> (\<forall>i. i \<noteq> slot k \<longrightarrow> dense_entry w' i = dense_entry w i)"
    using dense_call_effect [OF conjunct2 [OF inv] k, of "ClearDirty m"] w' c by fastforce
  with w' inv show "\<exists>w'. dense_clear_dirty s w k m = Some w' \<and> (valid_shape s \<and> dense_inv s fs w')
      \<and> all_chunk_keys s = all_chunk_keys s
      \<and> (\<forall>k'. k' \<noteq> k \<longrightarrow> dense_entry w' (slot k') = dense_entry w (slot k'))
      \<and> dirty_step (ClearDirty m) (dense_entry w (slot k)) = Some (dense_entry w' (slot k))"
    by (auto simp: slot_inj)
qed (auto simp: set_all_chunk_keys distinct_all_chunk_keys dense_valid_key_def)

subsection \<open>Properties\<close>

definition extent_in_range :: "box3 \<Rightarrow> bool" where
  "extent_in_range b \<longleftrightarrow>
     ext_x (box_extent b) \<le> i64_max \<and> ext_y (box_extent b) \<le> i64_max \<and> ext_z (box_extent b) \<le> i64_max"

definition dirty_tile :: "shape \<Rightarrow> 'v dense_world \<Rightarrow> dirty_mask \<Rightarrow> coord3 \<Rightarrow> bool" where
  "dirty_tile s w m c \<longleftrightarrow> shape_contains s c \<and>
     (let i = slot (chunk_key s (chunk_coord s c))
      in \<not> dirty_empty (dirty_and (dw_dirty_masks w ! i) m) \<and> box_contains (dw_dirty_bounds w ! i) c)"

lemma in_bounds_iff:
  assumes "valid_shape s" "shape_contains s c" "extent_in_range b"
  shows "in_bounds b c \<longleftrightarrow> box_contains b c"
proof -
  have max: "unat i64_max = 2 ^ 63 - 1" by (simp add: i64_max_def)
  have "v \<noteq> i64_max" if "unat v < n" "n < 2 ^ 63" for v and n :: nat
    using that max by auto
  then have "co_x c \<noteq> i64_max" "co_y c \<noteq> i64_max" "co_z c \<noteq> i64_max"
    using assms(2) size_dims(4-6) [OF assms(1)] by (auto simp: shape_contains_iff [OF assms(1)])
  moreover have "unat e < 2 ^ 63" if "e \<le> i64_max" for e
    using that max by (simp add: u64_le_nat)
  ultimately show ?thesis
    using assms(3) by (simp add: in_bounds_def box_contains_def extent_in_range_def in_axis_box)
qed



end
