(* ===== verification/Chunk_Directory.thy ===== *)
theory Chunk_Directory imports Shape_Keys begin

text \<open>
  \<open>detail::ChunkDirectory\<close> of \<open>storage/sparse_world.h\<close>: the fixed-capacity map from chunk keys to
  resident slots. Small key spaces use an array indexed by the key; larger ones an
  open-addressing table with linear probing and backward-shift deletion. The probing loops run
  with fuel equal to the table size and give \<^const>\<open>None\<close> when it is used up; the theory proves
  that they never do while one bucket is free, and that the table behaves as a finite map.
\<close>

definition npos :: u64 where
  "npos = u64_max"

record bucket =
  b_key :: chunk_key
  b_slot :: u64
  b_occupied :: bool

definition empty_bucket :: bucket where
  "empty_bucket = \<lparr>b_key = ChunkKey 0, b_slot = 0, b_occupied = False\<rparr>"

record chunk_directory =
  dir_buckets :: "bucket list"
  dir_direct_slots :: "u64 list"
  dir_mask :: u64

definition mix :: "u64 \<Rightarrow> u64" where
  "mix x0 =
     (let x1 = x0 + 0x9e3779b97f4a7c15;
          x2 = (x1 XOR drop_bit 30 x1) * 0xbf58476d1ce4e5b9;
          x3 = (x2 XOR drop_bit 27 x2) * 0x94d049bb133111eb
      in x3 XOR drop_bit 31 x3)"

definition home :: "u64 \<Rightarrow> chunk_key \<Rightarrow> u64" where
  "home m k = mix (key_value k) AND m"

definition in_cyclic_range :: "u64 \<Rightarrow> u64 \<Rightarrow> u64 \<Rightarrow> bool" where
  "in_cyclic_range lo' pos hi' \<longleftrightarrow> (if lo' \<le> hi' then lo' < pos \<and> pos \<le> hi' else lo' < pos \<or> pos \<le> hi')"

fun table_size :: "nat \<Rightarrow> u64 \<Rightarrow> u64 \<Rightarrow> u64 option" where
  "table_size 0 goal table = None"
| "table_size (Suc n) goal table =
     (if table < goal then table_size n goal (push_bit 1 table) else Some table)"

definition dir_reset :: "u64 \<Rightarrow> u64 \<Rightarrow> chunk_directory option" where
  "dir_reset capacity key_count =
     (if key_count \<le> capacity
      then Some \<lparr>dir_buckets = [], dir_direct_slots = replicate (unat key_count) npos, dir_mask = 0\<rparr>
      else map_option (\<lambda>table. \<lparr>dir_buckets = replicate (unat table) empty_bucket,
                                dir_direct_slots = [], dir_mask = table - 1\<rparr>)
             (table_size 64 (capacity * 2) 2))"

text \<open>The probe loop: follow the table from \<open>i\<close> until a bucket satisfies the exit condition.\<close>

fun probe :: "nat \<Rightarrow> (bucket \<Rightarrow> bool) \<Rightarrow> bucket list \<Rightarrow> u64 \<Rightarrow> u64 \<Rightarrow> u64 option" where
  "probe 0 stop bs m i = None"
| "probe (Suc n) stop bs m i =
     (case nth_opt bs (unat i) of
        None \<Rightarrow> None
      | Some b \<Rightarrow> if stop b then Some i else probe n stop bs m ((i + 1) AND m))"

definition dir_find :: "chunk_directory \<Rightarrow> chunk_key \<Rightarrow> u64 option" where
  "dir_find d k =
     (if dir_mask d = 0
      then Some (if length (dir_direct_slots d) \<le> unat (key_value k) then npos
                 else dir_direct_slots d ! unat (key_value k))
      else Option.bind (probe (length (dir_buckets d)) (\<lambda>b. \<not> b_occupied b \<or> b_key b = k)
                          (dir_buckets d) (dir_mask d) (home (dir_mask d) k))
             (\<lambda>i. map_option (\<lambda>b. if b_occupied b then b_slot b else npos)
                    (nth_opt (dir_buckets d) (unat i))))"

definition dir_insert :: "chunk_directory \<Rightarrow> chunk_key \<Rightarrow> u64 \<Rightarrow> chunk_directory option" where
  "dir_insert d k sl =
     (if dir_mask d = 0
      then map_option (\<lambda>xs. d\<lparr>dir_direct_slots := xs\<rparr>)
             (upd_opt (dir_direct_slots d) (unat (key_value k)) sl)
      else Option.bind (probe (length (dir_buckets d)) (\<lambda>b. \<not> b_occupied b)
                          (dir_buckets d) (dir_mask d) (home (dir_mask d) k))
             (\<lambda>i. map_option (\<lambda>bs. d\<lparr>dir_buckets := bs\<rparr>)
                    (upd_opt (dir_buckets d) (unat i) \<lparr>b_key = k, b_slot = sl, b_occupied = True\<rparr>)))"

text \<open>The backward-shift loop: \<open>i\<close> is the hole, \<open>j\<close> the bucket last examined.\<close>

fun shift_back :: "nat \<Rightarrow> bucket list \<Rightarrow> u64 \<Rightarrow> u64 \<Rightarrow> u64 \<Rightarrow> (bucket list \<times> u64) option" where
  "shift_back 0 bs m i j = None"
| "shift_back (Suc n) bs m i j =
     (let j' = (j + 1) AND m
      in case nth_opt bs (unat j') of
           None \<Rightarrow> None
         | Some b \<Rightarrow>
             if \<not> b_occupied b then Some (bs, i)
             else if \<not> in_cyclic_range i (home m (b_key b)) j'
                  then shift_back n (bs[unat i := b]) m j' j'
                  else shift_back n bs m i j')"

definition dir_erase :: "chunk_directory \<Rightarrow> chunk_key \<Rightarrow> (bool \<times> chunk_directory) option" where
  "dir_erase d k =
     (if dir_mask d = 0
      then if length (dir_direct_slots d) \<le> unat (key_value k) then Some (False, d)
           else if dir_direct_slots d ! unat (key_value k) = npos then Some (False, d)
           else Some (True, d\<lparr>dir_direct_slots := (dir_direct_slots d)[unat (key_value k) := npos]\<rparr>)
      else Option.bind (probe (length (dir_buckets d)) (\<lambda>b. \<not> (b_occupied b \<and> b_key b \<noteq> k))
                          (dir_buckets d) (dir_mask d) (home (dir_mask d) k)) (\<lambda>i.
           Option.bind (nth_opt (dir_buckets d) (unat i)) (\<lambda>b.
           if \<not> b_occupied b then Some (False, d)
           else Option.bind (shift_back (length (dir_buckets d)) (dir_buckets d) (dir_mask d) i i) (\<lambda>(bs, i').
                map_option (\<lambda>bs'. (True, d\<lparr>dir_buckets := bs'\<rparr>))
                  (upd_opt bs (unat i') empty_bucket)))))"

subsection \<open>Cyclic order on the table\<close>

definition nxt :: "nat \<Rightarrow> nat \<Rightarrow> nat" where
  "nxt n i = (if Suc i = n then 0 else Suc i)"

text \<open>\<open>on_path h q p\<close>: walking from \<open>h\<close>, bucket \<open>q\<close> is passed before \<open>p\<close> is reached.\<close>

definition on_path :: "nat \<Rightarrow> nat \<Rightarrow> nat \<Rightarrow> bool" where
  "on_path h q p \<longleftrightarrow> (if h \<le> p then h \<le> q \<and> q < p else h \<le> q \<or> q < p)"

definition cyc :: "nat \<Rightarrow> nat \<Rightarrow> nat \<Rightarrow> bool" where
  "cyc l p h \<longleftrightarrow> (if l \<le> h then l < p \<and> p \<le> h else l < p \<or> p \<le> h)"

definition cdist :: "nat \<Rightarrow> nat \<Rightarrow> nat \<Rightarrow> nat" where
  "cdist n c f = (if c \<le> f then f - c else f + n - c)"

lemmas cyclic_defs = nxt_def on_path_def cyc_def cdist_def

lemma nxt_lt: "i < n \<Longrightarrow> nxt n i < n"
  by (auto simp: nxt_def)

lemma cdist_nxt: "c < n \<Longrightarrow> f < n \<Longrightarrow> c \<noteq> f \<Longrightarrow> Suc (cdist n (nxt n c) f) = cdist n c f"
  by (auto simp: nxt_def cdist_def)

lemma cdist_lt: "c < n \<Longrightarrow> f < n \<Longrightarrow> cdist n c f < n"
  by (auto simp: cyclic_defs)

lemma on_path_start: "\<not> on_path h q h"
  by (auto simp: cyclic_defs)

lemma on_path_nxt:
  "c < n \<Longrightarrow> h < n \<Longrightarrow> q < n \<Longrightarrow> on_path h q (nxt n c) \<Longrightarrow> q = c \<or> on_path h q c"
  by (auto simp: cyclic_defs split: if_splits)

lemma on_path_from_nxt:
  "c < n \<Longrightarrow> p < n \<Longrightarrow> q < n \<Longrightarrow> on_path c q p \<Longrightarrow> q = c \<or> on_path (nxt n c) q p"
  by (auto simp: cyclic_defs split: if_splits)

lemma cyc_self: "\<not> cyc i q i"
  by (auto simp: cyclic_defs)

lemma cyc_nxt: "j < n \<Longrightarrow> i < n \<Longrightarrow> q < n \<Longrightarrow> cyc i q (nxt n j) \<Longrightarrow> q = nxt n j \<or> cyc i q j"
  by (auto simp: cyclic_defs split: if_splits)

lemma full_circle: "i < n \<Longrightarrow> j < n \<Longrightarrow> q < n \<Longrightarrow> nxt n j = i \<Longrightarrow> q = i \<or> cyc i q j"
  by (auto simp: cyclic_defs split: if_splits)

lemma path_past_hole:
  "i < n \<Longrightarrow> j < n \<Longrightarrow> h < n \<Longrightarrow> p < n \<Longrightarrow> on_path h i p \<Longrightarrow> \<not> cyc i p j \<Longrightarrow> p \<noteq> i \<Longrightarrow>
   p \<noteq> nxt n j \<Longrightarrow> nxt n j \<noteq> i \<Longrightarrow> on_path h (nxt n j) p"
  by (auto simp: cyclic_defs split: if_splits)

lemma path_to_hole:
  "i < n \<Longrightarrow> j < n \<Longrightarrow> k < n \<Longrightarrow> q < n \<Longrightarrow> \<not> cyc i k j \<Longrightarrow> i \<noteq> j \<Longrightarrow> on_path k q i \<Longrightarrow> on_path k q j"
  by (auto simp: cyclic_defs split: if_splits)

lemma path_avoids_hole:
  "i < n \<Longrightarrow> j < n \<Longrightarrow> k < n \<Longrightarrow> cyc i k j \<Longrightarrow> \<not> on_path k i j"
  by (auto simp: cyclic_defs split: if_splits)


lemma on_path_total: "p \<noteq> r \<Longrightarrow> on_path h p r \<or> on_path h r p"
  by (auto simp: cyclic_defs)

subsection \<open>Words as table positions\<close>

definition table_ok :: "bucket list \<Rightarrow> u64 \<Rightarrow> bool" where
  "table_ok bs m \<longleftrightarrow> m \<noteq> 0 \<and> (\<exists>e \<le> 63. length bs = 2 ^ e \<and> m = mask e)"

lemma table_ok_len:
  assumes "table_ok bs m"
  shows "0 < length bs" "unat ((i :: u64) AND m) = unat i mod length bs" "length bs < 2 ^ 64"
proof -
  obtain e where e: "e \<le> 63" "length bs = 2 ^ e" "m = mask e" using assms by (auto simp: table_ok_def)
  then show "0 < length bs" "unat (i AND m) = unat i mod length bs" by (simp_all add: unat_and_mask)
  have "(2 :: nat) ^ e \<le> 2 ^ 63" using e(1) by (intro power_increasing) auto
  then show "length bs < 2 ^ 64" using e(2) by simp
qed

lemma unat_next:
  assumes "table_ok bs m" "unat i < length bs"
  shows "unat ((i + 1) AND m) = nxt (length bs) (unat i)"
proof -
  have "unat (i + 1) = Suc (unat i)"
    using assms table_ok_len(3) [OF assms(1)] by (subst unat_add_u64) simp_all
  with assms show ?thesis by (auto simp: table_ok_len(2) [OF assms(1)] nxt_def mod_Suc)
qed

lemma unat_home: "table_ok bs m \<Longrightarrow> unat (home m k) < length bs"
  using table_ok_len(1) [of bs m] by (simp add: home_def table_ok_len(2))

lemma in_cyclic_range_cyc: "in_cyclic_range a b c \<longleftrightarrow> cyc (unat a) (unat b) (unat c)"
  by (simp add: in_cyclic_range_def cyc_def u64_less_nat u64_le_nat)

lemma probe_spec:
  assumes "table_ok bs m"
  shows "unat i < length bs \<Longrightarrow> f < length bs \<Longrightarrow> stop (bs ! f) \<Longrightarrow> cdist (length bs) (unat i) f < fuel \<Longrightarrow>
    \<exists>p. probe fuel stop bs m i = Some p \<and> unat p < length bs \<and> stop (bs ! unat p)
      \<and> (\<forall>q < length bs. on_path (unat i) q (unat p) \<longrightarrow> \<not> stop (bs ! q))"
proof (induction fuel arbitrary: i)
  case (Suc fuel)
  show ?case
  proof (cases "stop (bs ! unat i)")
    case True
    with Suc.prems show ?thesis by (intro exI [of _ i]) (simp add: nth_opt_in on_path_start)
  next
    case False
    let ?i = "(i + 1) AND m"
    have nx: "unat ?i = nxt (length bs) (unat i)" by (rule unat_next [OF assms Suc.prems(1)])
    have "unat i \<noteq> f" using False Suc.prems(3) by auto
    then have "cdist (length bs) (unat ?i) f < fuel"
      using cdist_nxt [OF Suc.prems(1,2)] Suc.prems(4) nx by simp
    moreover have "unat ?i < length bs" using nx nxt_lt [OF Suc.prems(1)] by simp
    ultimately obtain p where p: "probe fuel stop bs m ?i = Some p" "unat p < length bs" "stop (bs ! unat p)"
      "\<forall>q < length bs. on_path (unat ?i) q (unat p) \<longrightarrow> \<not> stop (bs ! q)"
      using Suc.IH [of ?i] Suc.prems(2,3) by blast
    have "\<forall>q < length bs. on_path (unat i) q (unat p) \<longrightarrow> \<not> stop (bs ! q)"
      using p(4) False on_path_from_nxt [OF Suc.prems(1) p(2)] nx by metis
    with p False Suc.prems(1) show ?thesis by (simp add: nth_opt_in)
  qed
qed simp

subsection \<open>The probe invariant\<close>

definition occ :: "bucket list \<Rightarrow> nat \<Rightarrow> bool" where
  "occ bs p \<longleftrightarrow> b_occupied (bs ! p)"

definition hm :: "u64 \<Rightarrow> bucket list \<Rightarrow> nat \<Rightarrow> nat" where
  "hm m bs p = unat (home m (b_key (bs ! p)))"

definition probe_inv :: "bucket list \<Rightarrow> u64 \<Rightarrow> bool" where
  "probe_inv bs m \<longleftrightarrow> table_ok bs m
     \<and> (\<forall>p < length bs. occ bs p \<longrightarrow> (\<forall>q < length bs. on_path (hm m bs p) q p \<longrightarrow> occ bs q))
     \<and> (\<forall>p < length bs. \<forall>q < length bs. occ bs p \<longrightarrow> occ bs q \<longrightarrow> b_key (bs ! p) = b_key (bs ! q) \<longrightarrow> p = q)"

definition tab_map :: "bucket list \<Rightarrow> chunk_key \<Rightarrow> u64 option" where
  "tab_map bs = map_of (map (\<lambda>b. (b_key b, b_slot b)) (filter b_occupied bs))"

definition has_free :: "bucket list \<Rightarrow> bool" where
  "has_free bs \<longleftrightarrow> (\<exists>f < length bs. \<not> occ bs f)"

lemma probe_inv_path:
  "probe_inv bs m \<Longrightarrow> p < length bs \<Longrightarrow> occ bs p \<Longrightarrow> q < length bs \<Longrightarrow> on_path (hm m bs p) q p \<Longrightarrow> occ bs q"
  unfolding probe_inv_def by blast

lemma probe_inv_key:
  "probe_inv bs m \<Longrightarrow> p < length bs \<Longrightarrow> q < length bs \<Longrightarrow> occ bs p \<Longrightarrow> occ bs q \<Longrightarrow>
   b_key (bs ! p) = b_key (bs ! q) \<Longrightarrow> p = q"
  unfolding probe_inv_def by blast

lemma tab_map_None: "tab_map bs k = None \<longleftrightarrow> (\<forall>p < length bs. occ bs p \<longrightarrow> b_key (bs ! p) \<noteq> k)"
proof -
  have "tab_map bs k = None \<longleftrightarrow> (\<forall>b \<in> set bs. b_occupied b \<longrightarrow> b_key b \<noteq> k)"
    unfolding tab_map_def map_of_eq_None_iff by force
  then show ?thesis by (simp add: occ_def all_set_conv_all_nth)
qed

lemma tab_map_at:
  assumes "probe_inv bs m" "p < length bs" "occ bs p"
  shows "tab_map bs (b_key (bs ! p)) = Some (b_slot (bs ! p))"
proof -
  from assms(2,3) have "tab_map bs (b_key (bs ! p)) \<noteq> None" unfolding tab_map_None by blast
  then obtain s where s: "tab_map bs (b_key (bs ! p)) = Some s" by blast
  then have "(b_key (bs ! p), s) \<in> set (map (\<lambda>b. (b_key b, b_slot b)) (filter b_occupied bs))"
    unfolding tab_map_def by (rule map_of_SomeD)
  then obtain q where "q < length bs" "occ bs q" "b_key (bs ! q) = b_key (bs ! p)" "b_slot (bs ! q) = s"
    by (auto simp: occ_def in_set_conv_nth)
  with probe_inv_key [OF assms(1), of q p] assms(2,3) have "s = b_slot (bs ! p)" by blast
  with s show ?thesis by simp
qed

lemma tab_map_Some:
  assumes "probe_inv bs m"
  shows "tab_map bs k = Some s \<longleftrightarrow> (\<exists>p < length bs. occ bs p \<and> b_key (bs ! p) = k \<and> b_slot (bs ! p) = s)"
  using tab_map_at [OF assms] tab_map_None [of bs k] by (metis option.distinct(1) option.inject)

text \<open>Where a probe for key \<open>k\<close> ends: at its bucket, or at a free bucket when it is absent.\<close>

lemma probe_key:
  assumes "probe_inv bs m" "has_free bs"
  shows "\<exists>p. probe (length bs) (\<lambda>b. \<not> b_occupied b \<or> b_key b = k) bs m (home m k) = Some p
     \<and> unat p < length bs
     \<and> (if occ bs (unat p) then b_key (bs ! unat p) = k else tab_map bs k = None)"
proof -
  have ok: "table_ok bs m" using assms(1) by (simp add: probe_inv_def)
  obtain f where f: "f < length bs" "\<not> occ bs f" using assms(2) by (auto simp: has_free_def)
  let ?h = "unat (home m k)"
  have h: "?h < length bs" by (rule unat_home [OF ok])
  obtain p where p: "probe (length bs) (\<lambda>b. \<not> b_occupied b \<or> b_key b = k) bs m (home m k) = Some p"
    "unat p < length bs" "\<not> b_occupied (bs ! unat p) \<or> b_key (bs ! unat p) = k"
    "\<forall>q < length bs. on_path ?h q (unat p) \<longrightarrow> \<not> (\<not> b_occupied (bs ! q) \<or> b_key (bs ! q) = k)"
    using probe_spec [OF ok h f(1), where stop = "\<lambda>b. \<not> b_occupied b \<or> b_key b = k"] f
      cdist_lt [OF h f(1)] by (auto simp: occ_def)
  have "tab_map bs k = None" if free: "\<not> occ bs (unat p)"
    unfolding tab_map_None
  proof (intro allI impI notI)
    fix r assume r: "r < length bs" "occ bs r" "b_key (bs ! r) = k"
    then have "unat p \<noteq> r" using free by auto
    then consider "on_path ?h (unat p) r" | "on_path ?h r (unat p)" using on_path_total by blast
    then show False
    proof cases
      case 1
      then show ?thesis using probe_inv_path [OF assms(1) r(1,2) p(2)] r(3) free by (simp add: hm_def)
    next
      case 2
      then show ?thesis using p(4) r by auto
    qed
  qed
  with p show ?thesis by (auto simp: occ_def)
qed

text \<open>Where a probe for a free bucket ends: every bucket passed is occupied.\<close>

lemma probe_free:
  assumes "table_ok bs m" "has_free bs"
  shows "\<exists>p. probe (length bs) (\<lambda>b. \<not> b_occupied b) bs m (home m k) = Some p
     \<and> unat p < length bs \<and> \<not> occ bs (unat p)
     \<and> (\<forall>q < length bs. on_path (unat (home m k)) q (unat p) \<longrightarrow> occ bs q)"
proof -
  obtain f where f: "f < length bs" "\<not> occ bs f" using assms(2) by (auto simp: has_free_def)
  have h: "unat (home m k) < length bs" by (rule unat_home [OF assms(1)])
  show ?thesis
    using probe_spec [OF assms(1) h f(1), where stop = "\<lambda>b. \<not> b_occupied b"] f
      cdist_lt [OF h f(1)] by (auto simp: occ_def)
qed

subsection \<open>Insertion\<close>

lemma insert_inv:
  fixes s :: u64
  assumes "probe_inv bs m" "tab_map bs k = None" "p < length bs" "\<not> occ bs p"
    and path: "\<forall>q < length bs. on_path (unat (home m k)) q p \<longrightarrow> occ bs q"
  defines "bs' \<equiv> bs[p := \<lparr>b_key = k, b_slot = s, b_occupied = True\<rparr>]"
  shows "probe_inv bs' m" "tab_map bs' = (tab_map bs)(k \<mapsto> s)"
proof -
  have occ': "q < length bs \<Longrightarrow> occ bs' q \<longleftrightarrow> q = p \<or> occ bs q" for q
    using assms(3) by (simp add: occ_def bs'_def nth_list_update)
  have key': "q < length bs \<Longrightarrow> b_key (bs' ! q) = (if q = p then k else b_key (bs ! q))"
    and slot': "q < length bs \<Longrightarrow> b_slot (bs' ! q) = (if q = p then s else b_slot (bs ! q))" for q
    using assms(3) by (simp_all add: bs'_def nth_list_update)
  have hm': "q < length bs \<Longrightarrow> hm m bs' q = (if q = p then unat (home m k) else hm m bs q)" for q
    by (simp add: hm_def key')
  have absent: "\<And>q. q < length bs \<Longrightarrow> occ bs q \<Longrightarrow> b_key (bs ! q) \<noteq> k"
    using assms(2) unfolding tab_map_None by blast
  have len: "length bs' = length bs" by (simp add: bs'_def)
  show inv': "probe_inv bs' m"
    unfolding probe_inv_def
  proof (intro conjI allI impI)
    show "table_ok bs' m" using assms(1) by (simp add: probe_inv_def table_ok_def len)
  next
    fix q r assume q: "q < length bs'" "occ bs' q" "r < length bs'" "on_path (hm m bs' q) r q"
    then show "occ bs' r"
      using path probe_inv_path [OF assms(1), of q r] by (cases "q = p") (auto simp: len occ' hm')
  next
    fix q r assume "q < length bs'" "r < length bs'" "occ bs' q" "occ bs' r" "b_key (bs' ! q) = b_key (bs' ! r)"
    then show "q = r"
      using probe_inv_key [OF assms(1), of q r] absent by (auto simp: len occ' key' split: if_splits)
  qed
  have "tab_map bs' k' = Some s' \<longleftrightarrow> ((tab_map bs)(k \<mapsto> s)) k' = Some s'" for k' s'
  proof (cases "k' = k")
    case True
    then show ?thesis unfolding tab_map_Some [OF inv'] using assms(3)
      by (auto simp: len occ' key' slot' dest: absent split: if_splits)
  next
    case False
    then show ?thesis unfolding tab_map_Some [OF inv'] using assms(4)
      by (auto simp: len occ' key' slot' tab_map_Some [OF assms(1)] split: if_splits)
  qed
  then show "tab_map bs' = (tab_map bs)(k \<mapsto> s)"
    by (intro ext) (metis not_None_eq)
qed


subsection \<open>Deletion\<close>

text \<open>
  The loop invariant of the backward shift. The hole \<open>i\<close> still holds a stale copy; buckets
  cyclically in \<open>(i, j]\<close> are occupied and known not to need the hole.
\<close>

definition shift_inv :: "bucket list \<Rightarrow> u64 \<Rightarrow> nat \<Rightarrow> nat \<Rightarrow> bool" where
  "shift_inv bs m i j \<longleftrightarrow> table_ok bs m \<and> i < length bs \<and> j < length bs \<and> occ bs i
     \<and> (\<forall>p < length bs. p \<noteq> i \<longrightarrow> occ bs p \<longrightarrow> (\<forall>q < length bs. on_path (hm m bs p) q p \<longrightarrow> occ bs q))
     \<and> (\<forall>q < length bs. cyc i q j \<longrightarrow> occ bs q)
     \<and> (\<forall>p < length bs. p \<noteq> i \<longrightarrow> occ bs p \<longrightarrow> cyc i p j \<longrightarrow> \<not> on_path (hm m bs p) i p)
     \<and> (\<forall>p < length bs. \<forall>q < length bs. p \<noteq> i \<longrightarrow> q \<noteq> i \<longrightarrow> occ bs p \<longrightarrow> occ bs q \<longrightarrow>
           b_key (bs ! p) = b_key (bs ! q) \<longrightarrow> p = q)"

text \<open>The entries the table will hold once the hole is emptied.\<close>

definition entries_but :: "bucket list \<Rightarrow> nat \<Rightarrow> (chunk_key \<times> u64) set" where
  "entries_but bs i = {(b_key (bs ! p), b_slot (bs ! p)) | p. p < length bs \<and> p \<noteq> i \<and> occ bs p}"

lemma shift_basic:
  assumes "shift_inv bs m i j"
  shows "table_ok bs m" "i < length bs" "j < length bs" "occ bs i"
  using assms unfolding shift_inv_def by blast+

lemma shift_path:
  "shift_inv bs m i j \<Longrightarrow> p < length bs \<Longrightarrow> p \<noteq> i \<Longrightarrow> occ bs p \<Longrightarrow> q < length bs \<Longrightarrow>
   on_path (hm m bs p) q p \<Longrightarrow> occ bs q"
  unfolding shift_inv_def by blast

lemma shift_cyc: "shift_inv bs m i j \<Longrightarrow> q < length bs \<Longrightarrow> cyc i q j \<Longrightarrow> occ bs q"
  unfolding shift_inv_def by blast

lemma shift_scanned:
  "shift_inv bs m i j \<Longrightarrow> p < length bs \<Longrightarrow> p \<noteq> i \<Longrightarrow> occ bs p \<Longrightarrow> cyc i p j \<Longrightarrow> \<not> on_path (hm m bs p) i p"
  unfolding shift_inv_def by blast

lemma shift_key:
  "shift_inv bs m i j \<Longrightarrow> p < length bs \<Longrightarrow> q < length bs \<Longrightarrow> p \<noteq> i \<Longrightarrow> q \<noteq> i \<Longrightarrow> occ bs p \<Longrightarrow> occ bs q \<Longrightarrow>
   b_key (bs ! p) = b_key (bs ! q) \<Longrightarrow> p = q"
  unfolding shift_inv_def by blast

lemma shift_occ_j: "shift_inv bs m i j \<Longrightarrow> occ bs j"
  using shift_basic [of bs m i j] shift_cyc [of bs m i j j] by (cases "i = j") (auto simp: cyc_def)

lemma hm_lt: "table_ok bs m \<Longrightarrow> hm m bs p < length bs"
  by (simp add: hm_def unat_home)

lemma shift_next_not_hole:
  assumes "shift_inv bs m i j" "has_free bs"
  shows "nxt (length bs) j \<noteq> i"
proof
  assume "nxt (length bs) j = i"
  then have "q = i \<or> cyc i q j" if "q < length bs" for q
    using full_circle shift_basic(2,3) [OF assms(1)] that by blast
  then have "occ bs q" if "q < length bs" for q
    using shift_basic(4) [OF assms(1)] shift_cyc [OF assms(1)] that by blast
  with assms(2) show False by (auto simp: has_free_def)
qed

lemma shift_stop:
  assumes "shift_inv bs m i j" "\<not> occ bs (nxt (length bs) j)"
  shows "probe_inv (bs[i := empty_bucket]) m"
    and "tab_map (bs[i := empty_bucket]) k = Some s \<longleftrightarrow> (k, s) \<in> entries_but bs i"
proof -
  let ?n = "length bs" and ?bs = "bs[i := empty_bucket]"
  note ok = shift_basic(1) [OF assms(1)] and i = shift_basic(2) [OF assms(1)] and j = shift_basic(3) [OF assms(1)]
  have ne: "nxt ?n j \<noteq> i" using assms(2) shift_basic(4) [OF assms(1)] by auto
  have occ': "q < ?n \<Longrightarrow> occ ?bs q \<longleftrightarrow> q \<noteq> i \<and> occ bs q" for q
    using i by (simp add: occ_def nth_list_update empty_bucket_def)
  show inv': "probe_inv ?bs m"
    unfolding probe_inv_def
  proof (intro conjI allI impI)
    show "table_ok ?bs m" using ok by (simp add: table_ok_def)
  next
    fix p q assume p: "p < length ?bs" "occ ?bs p" "q < length ?bs" "on_path (hm m ?bs p) q p"
    then have p': "p < ?n" "p \<noteq> i" "occ bs p" "q < ?n" "hm m ?bs p = hm m bs p"
      by (auto simp: occ' hm_def)
    then have path: "on_path (hm m bs p) q p" using p(4) by simp
    have "occ bs q" by (rule shift_path [OF assms(1) p'(1-4) path])
    moreover have "q \<noteq> i"
    proof
      assume "q = i"
      then have "\<not> cyc i p j" using shift_scanned [OF assms(1) p'(1-3)] path by blast
      then have "on_path (hm m bs p) (nxt ?n j) p"
        using path_past_hole [OF i j hm_lt [OF ok] p'(1)] path \<open>q = i\<close> p' ne assms(2) by metis
      then have "occ bs (nxt ?n j)"
        by (rule shift_path [OF assms(1) p'(1-3) nxt_lt [OF j]])
      with assms(2) show False by simp
    qed
    ultimately show "occ ?bs q" using p' occ' by simp
  next
    fix p q assume "p < length ?bs" "q < length ?bs" "occ ?bs p" "occ ?bs q" "b_key (?bs ! p) = b_key (?bs ! q)"
    then show "p = q" using shift_key [OF assms(1), of p q] by (simp add: occ')
  qed
  show "tab_map ?bs k = Some s \<longleftrightarrow> (k, s) \<in> entries_but bs i"
    unfolding tab_map_Some [OF inv'] entries_but_def by (auto simp: occ')
qed

lemma shift_keep:
  assumes "shift_inv bs m i j" "has_free bs" "occ bs (nxt (length bs) j)"
    "cyc i (hm m bs (nxt (length bs) j)) (nxt (length bs) j)"
  shows "shift_inv bs m i (nxt (length bs) j)"
proof -
  let ?n = "length bs"
  note ok = shift_basic(1) [OF assms(1)] and i = shift_basic(2) [OF assms(1)] and j = shift_basic(3) [OF assms(1)]
  have avoid: "\<not> on_path (hm m bs (nxt ?n j)) i (nxt ?n j)"
    by (rule path_avoids_hole [OF i nxt_lt [OF j] hm_lt [OF ok] assms(4)])
  show ?thesis
    unfolding shift_inv_def
  proof (intro conjI allI impI)
    fix q assume "q < ?n" "cyc i q (nxt ?n j)"
    then show "occ bs q" using cyc_nxt [OF j i] shift_cyc [OF assms(1)] assms(3) by blast
  next
    fix p assume p: "p < ?n" "p \<noteq> i" "occ bs p" "cyc i p (nxt ?n j)"
    then have "p = nxt ?n j \<or> cyc i p j" using cyc_nxt [OF j i] by blast
    then show "\<not> on_path (hm m bs p) i p" using avoid shift_scanned [OF assms(1)] p by blast
  qed (use shift_path [OF assms(1)] shift_key [OF assms(1)] shift_basic [OF assms(1)] nxt_lt [OF j] in blast)+
qed

lemma shift_move:
  assumes "shift_inv bs m i j" "has_free bs" "occ bs (nxt (length bs) j)"
    "\<not> cyc i (hm m bs (nxt (length bs) j)) (nxt (length bs) j)"
  defines "j' \<equiv> nxt (length bs) j"
  shows "shift_inv (bs[i := bs ! j']) m j' j'" "entries_but (bs[i := bs ! j']) j' = entries_but bs i"
    "has_free (bs[i := bs ! j'])"
proof -
  let ?n = "length bs" and ?bs = "bs[i := bs ! j']"
  note ok = shift_basic(1) [OF assms(1)] and i = shift_basic(2) [OF assms(1)] and j = shift_basic(3) [OF assms(1)]
    and oi = shift_basic(4) [OF assms(1)]
  have j': "j' < ?n" "j' \<noteq> i" "occ bs j'"
    using nxt_lt [OF j] shift_next_not_hole [OF assms(1,2)] assms(3) by (auto simp: j'_def)
  have nth': "q < ?n \<Longrightarrow> ?bs ! q = (if q = i then bs ! j' else bs ! q)" for q using i by (simp add: nth_list_update)
  have occ': "q < ?n \<Longrightarrow> occ ?bs q \<longleftrightarrow> occ bs q" for q
    using i oi j' by (auto simp: occ_def nth_list_update)
  have hm': "q < ?n \<Longrightarrow> hm m ?bs q = (if q = i then hm m bs j' else hm m bs q)" for q
    using i by (simp add: hm_def nth_list_update)
  show "shift_inv ?bs m j' j'"
    unfolding shift_inv_def
  proof (intro conjI allI impI)
    show "table_ok ?bs m" using ok by (simp add: table_ok_def)
    show "j' < length ?bs" "j' < length ?bs" "occ ?bs j'" using j' occ' by simp_all
  next
    fix p q assume p: "p < length ?bs" "p \<noteq> j'" "occ ?bs p" "q < length ?bs" "on_path (hm m ?bs p) q p"
    show "occ ?bs q"
    proof (cases "p = i")
      case True
      then have "on_path (hm m bs j') q i" using p hm' by simp
      then have "on_path (hm m bs j') q j'"
        using path_to_hole [OF i j'(1) hm_lt [OF ok]] assms(4) p(4) j'(2) by (metis j'_def length_list_update)
      then show ?thesis using shift_path [OF assms(1) j'] p(4) occ' by simp
    next
      case False
      then show ?thesis using shift_path [OF assms(1), of p q] p occ' hm' by simp
    qed
  next
    fix p q assume p: "p < length ?bs" "q < length ?bs" "p \<noteq> j'" "q \<noteq> j'" "occ ?bs p" "occ ?bs q"
      "b_key (?bs ! p) = b_key (?bs ! q)"
    have D: "b_key (bs ! a) = b_key (bs ! b) \<Longrightarrow> a = b"
      if "a < ?n" "b < ?n" "a \<noteq> i" "b \<noteq> i" "occ bs a" "occ bs b" for a b
      using shift_key [OF assms(1) that] .
    show "p = q"
      using p D [of p q] D [of j' q] D [of p j'] j' occ' by (auto simp: nth' split: if_splits)
  qed (simp_all add: cyc_self)
  show "entries_but ?bs j' = entries_but bs i"
  proof (intro set_eqI iffI)
    fix x assume "x \<in> entries_but ?bs j'"
    then obtain p where "p < ?n" "p \<noteq> j'" "occ bs p" "x = (b_key (?bs ! p), b_slot (?bs ! p))"
      by (auto simp: entries_but_def occ')
    then show "x \<in> entries_but bs i"
      using j' unfolding entries_but_def by (cases "p = i") (auto simp: nth')
  next
    fix x assume "x \<in> entries_but bs i"
    then obtain p where p: "p < ?n" "p \<noteq> i" "occ bs p" "x = (b_key (bs ! p), b_slot (bs ! p))"
      by (auto simp: entries_but_def)
    then show "x \<in> entries_but ?bs j'"
    proof (cases "p = j'")
      case True
      then show ?thesis
        using p i j' oi unfolding entries_but_def by (auto simp: occ' nth' intro!: exI [of _ i])
    next
      case False
      then show ?thesis
        using p unfolding entries_but_def by (auto simp: occ' nth' intro!: exI [of _ p])
    qed
  qed
  show "has_free ?bs" using assms(2) occ' by (auto simp: has_free_def)
qed

lemma shift_back_spec:
  assumes "f < length bs" "\<not> occ bs f"
  shows "shift_inv bs m (unat i) (unat j) \<Longrightarrow> cdist (length bs) (unat j) f \<le> fuel \<Longrightarrow>
    \<exists>bs' i'. shift_back fuel bs m i j = Some (bs', i') \<and> length bs' = length bs \<and> unat i' < length bs
      \<and> probe_inv (bs'[unat i' := empty_bucket]) m
      \<and> (\<forall>k s. tab_map (bs'[unat i' := empty_bucket]) k = Some s \<longleftrightarrow> (k, s) \<in> entries_but bs (unat i))"
  using assms
proof (induction fuel arbitrary: bs i j)
  case 0
  then have "unat j = f" using shift_basic(3) [OF 0(1)] by (simp add: cdist_def split: if_splits)
  moreover have "occ bs (unat j)" by (rule shift_occ_j [OF 0(1)])
  ultimately show ?case using 0(4) by simp
next
  case (Suc fuel)
  let ?n = "length bs" and ?j = "(j + 1) AND m"
  note ok = shift_basic(1) [OF Suc.prems(1)] and i = shift_basic(2) [OF Suc.prems(1)]
    and j = shift_basic(3) [OF Suc.prems(1)]
  have free: "has_free bs" using Suc.prems(3,4) by (auto simp: has_free_def)
  have nj: "unat ?j = nxt ?n (unat j)" by (rule unat_next [OF ok j])
  then have jlt: "unat ?j < ?n" using nxt_lt [OF j] by simp
  have "occ bs (unat j)" by (rule shift_occ_j [OF Suc.prems(1)])
  then have "unat j \<noteq> f" using Suc.prems(4) by auto
  then have fuel: "cdist ?n (unat ?j) f \<le> fuel"
    using cdist_nxt [OF j Suc.prems(3)] Suc.prems(2) nj by simp
  consider "\<not> occ bs (unat ?j)" | "occ bs (unat ?j)" "cyc (unat i) (hm m bs (unat ?j)) (unat ?j)"
    | "occ bs (unat ?j)" "\<not> cyc (unat i) (hm m bs (unat ?j)) (unat ?j)" by blast
  then show ?case
  proof cases
    case 1
    then have "shift_back (Suc fuel) bs m i j = Some (bs, i)"
      using jlt by (simp add: nth_opt_in occ_def Let_def)
    with shift_stop [OF Suc.prems(1)] 1 nj i show ?thesis by simp
  next
    case 2
    have "shift_back (Suc fuel) bs m i j = shift_back fuel bs m i ?j"
      using jlt 2 by (simp add: nth_opt_in occ_def Let_def in_cyclic_range_cyc hm_def)
    moreover have "shift_inv bs m (unat i) (unat ?j)"
      using shift_keep [OF Suc.prems(1) free] 2 nj by simp
    ultimately show ?thesis using Suc.IH [OF _ fuel Suc.prems(3,4), of i] by simp
  next
    case 3
    let ?bs = "bs[unat i := bs ! unat ?j]"
    have step: "shift_back (Suc fuel) bs m i j = shift_back fuel ?bs m ?j ?j"
      using jlt 3 by (simp add: nth_opt_in occ_def Let_def in_cyclic_range_cyc hm_def)
    have mv: "shift_inv ?bs m (unat ?j) (unat ?j)" "entries_but ?bs (unat ?j) = entries_but bs (unat i)"
      using shift_move [OF Suc.prems(1) free] 3 nj by simp_all
    have "f \<noteq> unat i" using Suc.prems(4) shift_basic(4) [OF Suc.prems(1)] by auto
    then have "\<not> occ ?bs f" using Suc.prems(4) by (simp add: occ_def)
    then show ?thesis
      using Suc.IH [of ?bs ?j ?j] mv fuel Suc.prems(3) unfolding step by simp
  qed
qed


subsection \<open>The directory refines a finite map\<close>

definition dir_map :: "chunk_directory \<Rightarrow> chunk_key \<Rightarrow> u64 option" where
  "dir_map d k =
     (if dir_mask d = 0
      then if unat (key_value k) < length (dir_direct_slots d) \<and> dir_direct_slots d ! unat (key_value k) \<noteq> npos
           then Some (dir_direct_slots d ! unat (key_value k)) else None
      else tab_map (dir_buckets d) k)"

text \<open>
  The invariant for a directory reset for \<open>capacity\<close> residents of a key space of
  \<open>key_count\<close> keys: the hashed table has more buckets than the capacity.
\<close>

definition dir_inv :: "nat \<Rightarrow> nat \<Rightarrow> chunk_directory \<Rightarrow> bool" where
  "dir_inv capacity key_count d \<longleftrightarrow>
     (if dir_mask d = 0 then length (dir_direct_slots d) = key_count \<and> key_count \<le> capacity
      else probe_inv (dir_buckets d) (dir_mask d) \<and> capacity < length (dir_buckets d))
     \<and> card (dom (dir_map d)) \<le> capacity \<and> finite (dom (dir_map d))
     \<and> (\<forall>k s. dir_map d k = Some s \<longrightarrow> s \<noteq> npos)"

lemma card_occupied:
  assumes "probe_inv bs m"
  shows "card (dom (tab_map bs)) = card {p. p < length bs \<and> occ bs p}" "finite (dom (tab_map bs))"
proof -
  have dom: "dom (tab_map bs) = (\<lambda>p. b_key (bs ! p)) ` {p. p < length bs \<and> occ bs p}"
  proof (rule set_eqI)
    fix k show "k \<in> dom (tab_map bs) \<longleftrightarrow> k \<in> (\<lambda>p. b_key (bs ! p)) ` {p. p < length bs \<and> occ bs p}"
      using tab_map_None [of bs k] by (auto simp: domIff simp del: not_None_eq)
  qed
  have "inj_on (\<lambda>p. b_key (bs ! p)) {p. p < length bs \<and> occ bs p}"
    using probe_inv_key [OF assms] by (auto intro: inj_onI)
  then show "card (dom (tab_map bs)) = card {p. p < length bs \<and> occ bs p}"
    unfolding dom by (rule card_image)
  show "finite (dom (tab_map bs))" unfolding dom by simp
qed

lemma free_if_small:
  assumes "probe_inv bs m" "card (dom (tab_map bs)) < length bs"
  shows "has_free bs"
proof (rule ccontr)
  assume "\<not> has_free bs"
  then have "{p. p < length bs \<and> occ bs p} = {..<length bs}" by (auto simp: has_free_def)
  with card_occupied(1) [OF assms(1)] assms(2) show False by simp
qed

lemma dir_inv_hashed:
  assumes "dir_inv c n d" "dir_mask d \<noteq> 0"
  shows "probe_inv (dir_buckets d) (dir_mask d)" "has_free (dir_buckets d)" "dir_map d = tab_map (dir_buckets d)"
proof -
  show inv: "probe_inv (dir_buckets d) (dir_mask d)" using assms by (simp add: dir_inv_def)
  show map: "dir_map d = tab_map (dir_buckets d)" using assms(2) by (intro ext) (simp add: dir_map_def)
  have "card (dom (tab_map (dir_buckets d))) < length (dir_buckets d)"
    using assms map by (simp add: dir_inv_def)
  with inv show "has_free (dir_buckets d)" by (rule free_if_small)
qed

lemma dir_find_spec:
  assumes "dir_inv c n d"
  shows "dir_find d k = Some (case dir_map d k of None \<Rightarrow> npos | Some s \<Rightarrow> s)"
proof (cases "dir_mask d = 0")
  case True
  then show ?thesis by (simp add: dir_find_def dir_map_def)
next
  case False
  note h = dir_inv_hashed [OF assms False]
  obtain p where p: "probe (length (dir_buckets d)) (\<lambda>b. \<not> b_occupied b \<or> b_key b = k) (dir_buckets d)
        (dir_mask d) (home (dir_mask d) k) = Some p" "unat p < length (dir_buckets d)"
    "if occ (dir_buckets d) (unat p) then b_key (dir_buckets d ! unat p) = k else tab_map (dir_buckets d) k = None"
    using probe_key [OF h(1,2)] by blast
  then show ?thesis
    using False h(3) tab_map_at [OF h(1) p(2)]
    by (cases "occ (dir_buckets d) (unat p)") (auto simp: dir_find_def nth_opt_in occ_def)
qed

lemma dir_insert_spec:
  assumes "dir_inv c n d" "dir_map d k = None" "sl \<noteq> npos" "card (dom (dir_map d)) < c"
    "unat (key_value k) < n"
  shows "\<exists>d'. dir_insert d k sl = Some d' \<and> dir_inv c n d' \<and> dir_map d' = (dir_map d)(k \<mapsto> sl)"
proof -
  have card: "card (dom ((dir_map d)(k \<mapsto> sl))) \<le> c" "finite (dom ((dir_map d)(k \<mapsto> sl)))"
    using assms by (simp_all add: dir_inv_def card_insert_if)
  have npos: "((dir_map d)(k \<mapsto> sl)) k' = Some s' \<Longrightarrow> s' \<noteq> npos" for k' s'
    using assms(1,3) by (auto simp: dir_inv_def split: if_splits)
  show ?thesis
  proof (cases "dir_mask d = 0")
    case True
    define d' where "d' = d\<lparr>dir_direct_slots := (dir_direct_slots d)[unat (key_value k) := sl]\<rparr>"
    have len: "length (dir_direct_slots d) = n" "n \<le> c" using assms(1) True by (auto simp: dir_inv_def)
    have "dir_map d' k' = ((dir_map d)(k \<mapsto> sl)) k'" for k'
      using True len assms(3,5) chunk_key_eqI [of k k']
      by (cases "k' = k") (auto simp: dir_map_def d'_def nth_list_update)
    then have "dir_map d' = (dir_map d)(k \<mapsto> sl)" by (rule ext)
    moreover have "dir_insert d k sl = Some d'"
      using True len assms(5) by (simp add: dir_insert_def d'_def upd_opt_def)
    ultimately show ?thesis using card npos len True
      by (intro exI [of _ d']) (simp add: dir_inv_def d'_def)
  next
    case False
    note h = dir_inv_hashed [OF assms(1) False]
    have ok: "table_ok (dir_buckets d) (dir_mask d)" using h(1) by (simp add: probe_inv_def)
    obtain p where p: "probe (length (dir_buckets d)) (\<lambda>b. \<not> b_occupied b) (dir_buckets d) (dir_mask d)
          (home (dir_mask d) k) = Some p" "unat p < length (dir_buckets d)" "\<not> occ (dir_buckets d) (unat p)"
      "\<forall>q < length (dir_buckets d). on_path (unat (home (dir_mask d) k)) q (unat p) \<longrightarrow> occ (dir_buckets d) q"
      using probe_free [OF ok h(2)] by blast
    define d' where "d' = d\<lparr>dir_buckets := (dir_buckets d)[unat p := \<lparr>b_key = k, b_slot = sl, b_occupied = True\<rparr>]\<rparr>"
    have absent: "tab_map (dir_buckets d) k = None" using assms(2) h(3) by simp
    note I = insert_inv [OF h(1) absent p(2-4), of sl]
    have map': "dir_map d' = (dir_map d)(k \<mapsto> sl)"
      using False I(2) h(3) by (intro ext) (simp add: dir_map_def d'_def)
    have "dir_insert d k sl = Some d'"
      using False p(1,2) by (simp add: dir_insert_def d'_def upd_opt_def)
    moreover have "dir_inv c n d'"
      using card npos map' I(1) False assms(1) by (simp add: dir_inv_def d'_def)
    ultimately show ?thesis using map' by blast
  qed
qed


lemma shift_start:
  assumes "probe_inv bs m" "p < length bs" "occ bs p"
  shows "shift_inv bs m p p"
  unfolding shift_inv_def
proof (intro conjI allI impI)
  show "table_ok bs m" using assms(1) by (simp add: probe_inv_def)
next
  fix p' q assume "p' < length bs" "occ bs p'" "q < length bs" "on_path (hm m bs p') q p'"
  then show "occ bs q" by (rule probe_inv_path [OF assms(1)])
next
  fix p' q assume "p' < length bs" "q < length bs" "occ bs p'" "occ bs q" "b_key (bs ! p') = b_key (bs ! q)"
  then show "p' = q" by (rule probe_inv_key [OF assms(1)])
qed (use assms(2,3) in \<open>simp_all add: cyc_self\<close>)

lemma entries_but_erase:
  assumes "probe_inv bs m" "p < length bs" "occ bs p"
  shows "(k', s) \<in> entries_but bs p \<longleftrightarrow> k' \<noteq> b_key (bs ! p) \<and> tab_map bs k' = Some s"
  unfolding tab_map_Some [OF assms(1)] entries_but_def
  using probe_inv_key [OF assms(1) _ assms(2) _ assms(3)] by auto

lemma dir_erase_spec:
  assumes "dir_inv c n d"
  shows "\<exists>d'. dir_erase d k = Some (dir_map d k \<noteq> None, d') \<and> dir_inv c n d' \<and> dir_map d' = (dir_map d)(k := None)"
proof -
  have fin: "finite (dom (dir_map d))" "card (dom (dir_map d)) \<le> c" using assms by (simp_all add: dir_inv_def)
  have "card (dom ((dir_map d)(k := None))) \<le> card (dom (dir_map d))"
    using fin(1) by (intro card_mono) auto
  then have card: "card (dom ((dir_map d)(k := None))) \<le> c" "finite (dom ((dir_map d)(k := None)))"
    using fin by simp_all
  have npos: "((dir_map d)(k := None)) k' = Some s' \<Longrightarrow> s' \<noteq> npos" for k' s'
    using assms by (auto simp: dir_inv_def split: if_splits)
  show ?thesis
  proof (cases "dir_mask d = 0")
    case True
    show ?thesis
    proof (cases "dir_map d k = None")
      case absent: True
      then have "dir_erase d k = Some (False, d)"
        using True by (auto simp: dir_erase_def dir_map_def split: if_splits)
      moreover have "(dir_map d)(k := None) = dir_map d" using absent by auto
      ultimately show ?thesis using assms absent by simp
    next
      case present: False
      define d' where "d' = d\<lparr>dir_direct_slots := (dir_direct_slots d)[unat (key_value k) := npos]\<rparr>"
      have lt: "unat (key_value k) < length (dir_direct_slots d)"
        using present True by (auto simp: dir_map_def split: if_splits)
      have er: "dir_erase d k = Some (True, d')"
        using present True by (auto simp: dir_erase_def dir_map_def d'_def split: if_splits)
      have "dir_map d' k' = ((dir_map d)(k := None)) k'" for k'
        using True lt chunk_key_eqI [of k k']
        by (cases "k' = k") (auto simp: dir_map_def d'_def nth_list_update)
      then have map': "dir_map d' = (dir_map d)(k := None)" by (rule ext)
      have "dir_inv c n d'" using card npos map' True assms by (simp add: dir_inv_def d'_def)
      with er map' present show ?thesis by simp
    qed
  next
    case False
    let ?bs = "dir_buckets d" and ?m = "dir_mask d"
    note h = dir_inv_hashed [OF assms False]
    have stop: "(\<lambda>b. \<not> (b_occupied b \<and> b_key b \<noteq> k)) = (\<lambda>b. \<not> b_occupied b \<or> b_key b = k)" by auto
    obtain p where p: "probe (length ?bs) (\<lambda>b. \<not> (b_occupied b \<and> b_key b \<noteq> k)) ?bs ?m (home ?m k) = Some p"
      "unat p < length ?bs" "if occ ?bs (unat p) then b_key (?bs ! unat p) = k else tab_map ?bs k = None"
      using probe_key [OF h(1,2), of k] unfolding stop by blast
    show ?thesis
    proof (cases "occ ?bs (unat p)")
      case free: False
      then have "dir_erase d k = Some (False, d)"
        using False p(1,2) by (simp add: dir_erase_def nth_opt_in occ_def)
      moreover have none: "dir_map d k = None" using free p(3) h(3) by simp
      moreover have "(dir_map d)(k := None) = dir_map d" using none by auto
      ultimately show ?thesis using assms by simp
    next
      case occupied: True
      then have key: "b_key (?bs ! unat p) = k" using p(3) by simp
      obtain f where f: "f < length ?bs" "\<not> occ ?bs f" using h(2) by (auto simp: has_free_def)
      have "cdist (length ?bs) (unat p) f \<le> length ?bs" using cdist_lt [OF p(2) f(1)] by simp
      from shift_back_spec [OF f shift_start [OF h(1) p(2) occupied] this]
      obtain bs' i' where sb: "shift_back (length ?bs) ?bs ?m p p = Some (bs', i')" "length bs' = length ?bs"
        "unat i' < length ?bs" "probe_inv (bs'[unat i' := empty_bucket]) ?m"
        and ent: "\<And>k' s. tab_map (bs'[unat i' := empty_bucket]) k' = Some s \<longleftrightarrow> (k', s) \<in> entries_but ?bs (unat p)"
        by blast
      define d' where "d' = d\<lparr>dir_buckets := bs'[unat i' := empty_bucket]\<rparr>"
      have er: "dir_erase d k = Some (True, d')"
        using False p(1,2) occupied sb(1-3) by (simp add: dir_erase_def nth_opt_in occ_def d'_def upd_opt_def)
      have "dir_map d' k' = Some s \<longleftrightarrow> ((dir_map d)(k := None)) k' = Some s" for k' s
        using False ent entries_but_erase [OF h(1) p(2) occupied] key h(3)
        by (simp add: dir_map_def d'_def)
      then have map': "dir_map d' = (dir_map d)(k := None)" by (intro ext) (metis not_None_eq)
      have "dir_inv c n d'"
        using card npos map' sb(2,4) False assms by (simp add: dir_inv_def d'_def)
      moreover have "dir_map d k \<noteq> None" using tab_map_at [OF h(1) p(2) occupied] key h(3) by simp
      ultimately show ?thesis using er map' by simp
    qed
  qed
qed

subsection \<open>Construction\<close>

lemma unat_pow2_u64: "a \<le> 63 \<Longrightarrow> unat ((2 :: u64) ^ a) = 2 ^ a"
proof -
  assume "a \<le> 63"
  then have "(2 :: nat) ^ a \<le> 2 ^ 63" by (intro power_increasing) auto
  then show ?thesis using unat_shl [of a "1 :: u64"] by (simp add: push_bit_of_1)
qed

lemma table_size_spec:
  "unat goal \<le> 2 ^ 63 \<Longrightarrow> e \<le> 63 \<Longrightarrow> 63 < e + n \<Longrightarrow> table = 2 ^ e \<Longrightarrow> 1 \<le> e \<Longrightarrow>
   \<exists>e' \<le> 63. 1 \<le> e' \<and> table_size n goal table = Some (2 ^ e') \<and> goal \<le> 2 ^ e'"
proof (induction n arbitrary: e table)
  case (Suc n)
  show ?case
  proof (cases "table < goal")
    case True
    then have "(2 :: nat) ^ e < 2 ^ 63" using Suc.prems unat_pow2_u64 [of e] by (simp add: u64_less_nat)
    then have e: "e < 63" by (rule power_less_imp_less_exp [rotated]) simp
    moreover have "push_bit 1 table = 2 ^ Suc e" using Suc.prems(4) by (simp add: push_bit_eq_mult)
    ultimately show ?thesis using Suc.IH [of "Suc e" "push_bit 1 table"] Suc.prems True by simp
  next
    case False
    then show ?thesis using Suc.prems by (auto simp: not_less)
  qed
qed simp

lemma dir_reset_spec:
  assumes "unat capacity \<le> 2 ^ 62"
  shows "\<exists>d. dir_reset capacity key_count = Some d \<and> dir_inv (unat capacity) (unat key_count) d
    \<and> dir_map d = Map.empty"
proof (cases "key_count \<le> capacity")
  case True
  define d where "d = \<lparr>dir_buckets = [], dir_direct_slots = replicate (unat key_count) npos, dir_mask = 0\<rparr>"
  have "dir_map d = Map.empty" by (intro ext) (simp add: dir_map_def d_def)
  with True show ?thesis
    by (intro exI [of _ d]) (simp add: dir_inv_def dir_reset_def u64_le_nat, simp add: d_def)
next
  case False
  have g: "unat (capacity * 2) = unat capacity * 2"
    using assms by (subst unat_mult_u64) simp_all
  obtain e where e: "e \<le> 63" "1 \<le> e" "table_size 64 (capacity * 2) 2 = Some (2 ^ e)" "capacity * 2 \<le> 2 ^ e"
    using table_size_spec [of "capacity * 2" 1 64 2] g assms by auto
  have pe: "unat ((2 :: u64) ^ e) = 2 ^ e" by (rule unat_pow2_u64 [OF e(1)])
  define d where "d = \<lparr>dir_buckets = replicate (2 ^ e) empty_bucket, dir_direct_slots = [],
                       dir_mask = mask e\<rparr>"
  have reset: "dir_reset capacity key_count = Some d"
    using False e(3) by (simp add: dir_reset_def d_def pe mask_eq_exp_minus_1)
  have m0: "(mask e :: u64) \<noteq> 0" using e(1,2) by (simp add: mask_eq_0_iff)
  have cap: "unat capacity < 2 ^ e"
  proof (cases "unat capacity = 0")
    case False
    have "unat (capacity * 2) \<le> unat ((2 :: u64) ^ e)" using e(4) by (simp only: u64_le_nat)
    then have "unat capacity * 2 \<le> 2 ^ e" by (simp only: g pe)
    with False show ?thesis by simp
  qed simp
  have noocc: "p < length (dir_buckets d) \<Longrightarrow> \<not> occ (dir_buckets d) p" for p
    by (simp add: d_def occ_def empty_bucket_def)
  then have map: "dir_map d = Map.empty"
    by (intro ext) (simp add: dir_map_def tab_map_None m0 d_def)
  have "table_ok (dir_buckets d) (dir_mask d)" using m0 e(1) by (auto simp: table_ok_def d_def)
  then have "probe_inv (dir_buckets d) (dir_mask d)" using noocc by (simp add: probe_inv_def)
  then have "dir_inv (unat capacity) (unat key_count) d" using m0 cap map by (simp add: dir_inv_def d_def)
  with reset map show ?thesis by blast
qed


subsection \<open>The interface the sparse world relies on\<close>

datatype map_op = FindKey chunk_key | InsertKey chunk_key u64 | EraseKey chunk_key

datatype map_result = FoundSlot u64 | Inserted | Erased bool

fun run_ops ::
    "('d \<Rightarrow> chunk_key \<Rightarrow> u64 option) \<Rightarrow> ('d \<Rightarrow> chunk_key \<Rightarrow> u64 \<Rightarrow> 'd option) \<Rightarrow>
     ('d \<Rightarrow> chunk_key \<Rightarrow> (bool \<times> 'd) option) \<Rightarrow> map_op list \<Rightarrow> 'd \<Rightarrow> (map_result list \<times> 'd) option" where
  "run_ops fnd ins era [] d = Some ([], d)"
| "run_ops fnd ins era (FindKey k # ops) d =
     Option.bind (fnd d k) (\<lambda>s. map_option (\<lambda>(rs, d'). (FoundSlot s # rs, d')) (run_ops fnd ins era ops d))"
| "run_ops fnd ins era (InsertKey k s # ops) d =
     Option.bind (ins d k s) (\<lambda>d1. map_option (\<lambda>(rs, d'). (Inserted # rs, d')) (run_ops fnd ins era ops d1))"
| "run_ops fnd ins era (EraseKey k # ops) d =
     Option.bind (era d k) (\<lambda>(b, d1). map_option (\<lambda>(rs, d'). (Erased b # rs, d')) (run_ops fnd ins era ops d1))"

text \<open>The same operations on a finite map, and the calls the source's preconditions allow.\<close>

fun spec_ops :: "map_op list \<Rightarrow> (chunk_key \<Rightarrow> u64 option) \<Rightarrow> map_result list \<times> (chunk_key \<Rightarrow> u64 option)" where
  "spec_ops [] M = ([], M)"
| "spec_ops (FindKey k # ops) M =
     (case spec_ops ops M of (rs, M') \<Rightarrow> (FoundSlot (case M k of None \<Rightarrow> npos | Some s \<Rightarrow> s) # rs, M'))"
| "spec_ops (InsertKey k s # ops) M =
     (case spec_ops ops (M(k \<mapsto> s)) of (rs, M') \<Rightarrow> (Inserted # rs, M'))"
| "spec_ops (EraseKey k # ops) M =
     (case spec_ops ops (M(k := None)) of (rs, M') \<Rightarrow> (Erased (M k \<noteq> None) # rs, M'))"

fun legal_ops :: "nat \<Rightarrow> nat \<Rightarrow> map_op list \<Rightarrow> (chunk_key \<Rightarrow> u64 option) \<Rightarrow> bool" where
  "legal_ops c n [] M \<longleftrightarrow> True"
| "legal_ops c n (FindKey k # ops) M \<longleftrightarrow> legal_ops c n ops M"
| "legal_ops c n (InsertKey k s # ops) M \<longleftrightarrow>
     M k = None \<and> s \<noteq> npos \<and> card (dom M) < c \<and> unat (key_value k) < n \<and> legal_ops c n ops (M(k \<mapsto> s))"
| "legal_ops c n (EraseKey k # ops) M \<longleftrightarrow> legal_ops c n ops (M(k := None))"

locale slot_map =
  fixes capacity key_count :: nat
    and inv :: "'d \<Rightarrow> bool"
    and contents :: "'d \<Rightarrow> chunk_key \<Rightarrow> u64 option"
    and fnd :: "'d \<Rightarrow> chunk_key \<Rightarrow> u64 option"
    and ins :: "'d \<Rightarrow> chunk_key \<Rightarrow> u64 \<Rightarrow> 'd option"
    and era :: "'d \<Rightarrow> chunk_key \<Rightarrow> (bool \<times> 'd) option"
  assumes find_law: "inv d \<Longrightarrow> fnd d k = Some (case contents d k of None \<Rightarrow> npos | Some s \<Rightarrow> s)"
    and insert_law: "inv d \<Longrightarrow> contents d k = None \<Longrightarrow> s \<noteq> npos \<Longrightarrow> card (dom (contents d)) < capacity \<Longrightarrow>
          unat (key_value k) < key_count \<Longrightarrow>
          \<exists>d'. ins d k s = Some d' \<and> inv d' \<and> contents d' = (contents d)(k \<mapsto> s)"
    and erase_law: "inv d \<Longrightarrow>
          \<exists>d'. era d k = Some (contents d k \<noteq> None, d') \<and> inv d' \<and> contents d' = (contents d)(k := None)"
    and slots_valid: "inv d \<Longrightarrow> contents d k = Some s \<Longrightarrow> s \<noteq> npos"
begin

lemma find_npos: "inv d \<Longrightarrow> fnd d k = Some npos \<longleftrightarrow> contents d k = None"
  using find_law [of d k] slots_valid [of d k] by (cases "contents d k") auto

lemma find_present: "inv d \<Longrightarrow> contents d k = Some s \<Longrightarrow> fnd d k = Some s"
  using find_law [of d k] by simp

lemma run_refines:
  "inv d \<Longrightarrow> legal_ops capacity key_count ops (contents d) \<Longrightarrow>
   \<exists>d'. run_ops fnd ins era ops d = Some (fst (spec_ops ops (contents d)), d')
      \<and> inv d' \<and> contents d' = snd (spec_ops ops (contents d))"
proof (induction ops arbitrary: d)
  case (Cons op ops)
  show ?case
  proof (cases op)
    case (FindKey k)
    obtain d' where "run_ops fnd ins era ops d = Some (fst (spec_ops ops (contents d)), d')"
      "inv d'" "contents d' = snd (spec_ops ops (contents d))" using Cons FindKey by auto
    then show ?thesis using find_law [OF Cons.prems(1), of k]
      by (simp add: FindKey split: prod.splits)
  next
    case (InsertKey k s)
    obtain d1 where d1: "ins d k s = Some d1" "inv d1" "contents d1 = (contents d)(k \<mapsto> s)"
      using insert_law [OF Cons.prems(1), of k s] Cons.prems(2) InsertKey by auto
    have "legal_ops capacity key_count ops (contents d1)" using Cons.prems(2) InsertKey d1(3) by simp
    from Cons.IH [OF d1(2) this] obtain d' where "run_ops fnd ins era ops d1 =
        Some (fst (spec_ops ops ((contents d)(k \<mapsto> s))), d')" "inv d'"
      "contents d' = snd (spec_ops ops ((contents d)(k \<mapsto> s)))" unfolding d1(3) by blast
    then show ?thesis using d1(1) by (simp add: InsertKey split: prod.splits)
  next
    case (EraseKey k)
    obtain d1 where d1: "era d k = Some (contents d k \<noteq> None, d1)" "inv d1" "contents d1 = (contents d)(k := None)"
      using erase_law [OF Cons.prems(1), of k] by auto
    have "legal_ops capacity key_count ops (contents d1)" using Cons.prems(2) EraseKey d1(3) by simp
    from Cons.IH [OF d1(2) this] obtain d' where "run_ops fnd ins era ops d1 =
        Some (fst (spec_ops ops ((contents d)(k := None))), d')" "inv d'"
      "contents d' = snd (spec_ops ops ((contents d)(k := None)))" unfolding d1(3) by blast
    then show ?thesis using d1(1) by (simp add: EraseKey split: prod.splits)
  qed
qed simp

end

interpretation directory: slot_map c n "dir_inv c n" dir_map dir_find dir_insert dir_erase for c n
proof unfold_locales
  fix d k s assume "dir_inv c n d" "dir_map d k = Some s"
  then show "s \<noteq> npos" by (simp add: dir_inv_def)
qed (use dir_find_spec dir_insert_spec dir_erase_spec in blast)+

subsection \<open>Properties\<close>

text \<open>
  C6. The chunk directory is a finite map. Reset for a capacity of at most \<open>2^62\<close> pages, in
  direct or in hashed mode, and then driven by any calls that respect the documented
  preconditions of \<open>insert\<close>, every probe terminates and every \<open>find\<close> and \<open>erase\<close> answers as
  the map does: backward-shift deletion never hides a key that is still present.
\<close>

theorem directory_refines_map:
  assumes "unat capacity \<le> 2 ^ 62" "legal_ops (unat capacity) (unat key_count) ops Map.empty"
  shows "\<exists>d d'. dir_reset capacity key_count = Some d
    \<and> run_ops dir_find dir_insert dir_erase ops d = Some (fst (spec_ops ops Map.empty), d')
    \<and> dir_map d' = snd (spec_ops ops Map.empty)"
proof -
  obtain d where d: "dir_reset capacity key_count = Some d" "dir_inv (unat capacity) (unat key_count) d"
    "dir_map d = Map.empty" using dir_reset_spec [OF assms(1)] by blast
  then show ?thesis using directory.run_refines [OF d(2), of ops] assms(2) by auto
qed

lemma directory_refines_map_witness:
  "\<exists>d d'. dir_reset 2 100 = Some d
     \<and> run_ops dir_find dir_insert dir_erase
         [InsertKey (ChunkKey 7) 0, InsertKey (ChunkKey 11) 1, EraseKey (ChunkKey 7), FindKey (ChunkKey 11)] d
       = Some ([Inserted, Inserted, Erased True, FoundSlot 1], d')"
proof -
  let ?ops = "[InsertKey (ChunkKey 7) 0, InsertKey (ChunkKey 11) 1, EraseKey (ChunkKey 7), FindKey (ChunkKey 11)]"
  have "legal_ops (unat (2 :: u64)) (unat (100 :: u64)) ?ops Map.empty"
    by (simp add: npos_def u64_max_def)
  from directory_refines_map [OF _ this] obtain d d' where d: "dir_reset 2 100 = Some d"
    "run_ops dir_find dir_insert dir_erase ?ops d = Some (fst (spec_ops ?ops Map.empty), d')" by auto
  have "fst (spec_ops ?ops Map.empty) = [Inserted, Inserted, Erased True, FoundSlot 1]" by simp
  with d show ?thesis by metis
qed

end
