(* ===== verification/LRU_List.thy ===== *)
theory LRU_List imports Chunk_Directory "HOL-Library.Monad_Syntax" begin

text \<open>
  The intrusive doubly linked list of \<open>storage/sparse_world.h\<close>: least-recently-used order over
  slot indices, kept in two pointer columns with a head and a tail. The theory shows that the
  pointer operations are removal, appending and move-to-back on the list of slots.
\<close>

record lru_list =
  lru_prev :: "u64 list"
  lru_next :: "u64 list"
  lru_head :: u64
  lru_tail :: u64

definition lru_new :: "nat \<Rightarrow> lru_list" where
  "lru_new capacity = \<lparr>lru_prev = replicate capacity npos, lru_next = replicate capacity npos,
                       lru_head = npos, lru_tail = npos\<rparr>"

definition lru_unlink :: "lru_list \<Rightarrow> u64 \<Rightarrow> lru_list option" where
  "lru_unlink l s = do {
     prev \<leftarrow> nth_opt (lru_prev l) (unat s);
     next \<leftarrow> nth_opt (lru_next l) (unat s);
     l1 \<leftarrow> (if prev \<noteq> npos
            then map_option (\<lambda>ns. l\<lparr>lru_next := ns\<rparr>) (upd_opt (lru_next l) (unat prev) next)
            else Some (l\<lparr>lru_head := next\<rparr>));
     l2 \<leftarrow> (if next \<noteq> npos
            then map_option (\<lambda>ps. l1\<lparr>lru_prev := ps\<rparr>) (upd_opt (lru_prev l1) (unat next) prev)
            else Some (l1\<lparr>lru_tail := prev\<rparr>));
     ps \<leftarrow> upd_opt (lru_prev l2) (unat s) npos;
     ns \<leftarrow> upd_opt (lru_next l2) (unat s) npos;
     Some (l2\<lparr>lru_prev := ps, lru_next := ns\<rparr>)
   }"

definition lru_push_mru :: "lru_list \<Rightarrow> u64 \<Rightarrow> lru_list option" where
  "lru_push_mru l s = do {
     ps \<leftarrow> upd_opt (lru_prev l) (unat s) (lru_tail l);
     ns \<leftarrow> upd_opt (lru_next l) (unat s) npos;
     l1 \<leftarrow> (if lru_tail l \<noteq> npos
            then map_option (\<lambda>ns'. l\<lparr>lru_prev := ps, lru_next := ns'\<rparr>) (upd_opt ns (unat (lru_tail l)) s)
            else Some (l\<lparr>lru_prev := ps, lru_next := ns, lru_head := s\<rparr>));
     Some (l1\<lparr>lru_tail := s\<rparr>)
   }"

definition lru_move_to_mru :: "lru_list \<Rightarrow> u64 \<Rightarrow> lru_list option" where
  "lru_move_to_mru l s =
     (if lru_tail l = s then Some l else do { l1 \<leftarrow> lru_unlink l s; lru_push_mru l1 s })"

subsection \<open>Doubly linked segments\<close>

definition first_ptr :: "u64 list \<Rightarrow> u64 \<Rightarrow> u64" where
  "first_ptr xs q = (case xs of [] \<Rightarrow> q | x # _ \<Rightarrow> x)"

definition last_ptr :: "u64 \<Rightarrow> u64 list \<Rightarrow> u64" where
  "last_ptr p xs = (if xs = [] then p else last xs)"

text \<open>\<open>seg P N p xs q\<close>: the columns link \<open>xs\<close>, entered from \<open>p\<close> and left to \<open>q\<close>.\<close>

fun seg :: "u64 list \<Rightarrow> u64 list \<Rightarrow> u64 \<Rightarrow> u64 list \<Rightarrow> u64 \<Rightarrow> bool" where
  "seg P N p [] q \<longleftrightarrow> True"
| "seg P N p (x # xs) q \<longleftrightarrow> P ! unat x = p \<and> N ! unat x = first_ptr xs q \<and> seg P N x xs q"

lemma first_ptr_simps [simp]: "first_ptr [] q = q" "first_ptr (x # xs) q = x"
  by (simp_all add: first_ptr_def)

lemma last_ptr_simps [simp]: "last_ptr p [] = p" "last_ptr p (xs @ [x]) = x" "last_ptr p (x # xs) = last_ptr x xs"
  by (simp_all add: last_ptr_def)

lemma first_ptr_append: "first_ptr (xs @ ys) q = first_ptr xs (first_ptr ys q)"
  by (cases xs) simp_all

lemma last_ptr_append: "last_ptr p (xs @ ys) = last_ptr (last_ptr p xs) ys"
  by (simp add: last_ptr_def)

lemma seg_append:
  "seg P N p (xs @ ys) q \<longleftrightarrow> seg P N p xs (first_ptr ys q) \<and> seg P N (last_ptr p xs) ys q"
  by (induction xs arbitrary: p) (auto simp: first_ptr_append)

lemma seg_frame:
  "(\<And>x. x \<in> set xs \<Longrightarrow> P' ! unat x = P ! unat x \<and> N' ! unat x = N ! unat x) \<Longrightarrow>
   seg P' N' p xs q = seg P N p xs q"
  by (induction xs arbitrary: p) auto

lemma seg_update_other:
  assumes "unat y \<notin> unat ` set xs"
  shows "seg (P[unat y := v]) N p xs q = seg P N p xs q" "seg P (N[unat y := v]) p xs q = seg P N p xs q"
proof -
  have "unat y \<noteq> unat x" if "x \<in> set xs" for x using assms that by (metis imageI)
  then show "seg (P[unat y := v]) N p xs q = seg P N p xs q" "seg P (N[unat y := v]) p xs q = seg P N p xs q"
    by (auto intro!: seg_frame)
qed

lemma unat_image: "unat (y :: u64) \<in> unat ` set xs \<longleftrightarrow> y \<in> set xs"
proof
  assume "unat y \<in> unat ` set xs"
  then obtain x where "x \<in> set xs" "unat y = unat x" by auto
  then show "y \<in> set xs" using word_unat_eq_iff [of y x] by simp
qed simp

text \<open>Redirecting the last next pointer or the first prev pointer of a segment.\<close>

lemma seg_set_next:
  assumes "seg P N p (xs @ [x]) q" "distinct (xs @ [x])" "unat x < length N"
  shows "seg P (N[unat x := q']) p (xs @ [x]) q'"
proof -
  have "unat x \<notin> unat ` set xs" using assms(2) by (auto simp: unat_image)
  with assms show ?thesis by (simp add: seg_append seg_update_other)
qed

lemma seg_set_prev:
  assumes "seg P N p (x # xs) q" "distinct (x # xs)" "unat x < length P"
  shows "seg (P[unat x := p']) N p' (x # xs) q"
proof -
  have "unat x \<notin> unat ` set xs" using assms(2) by (auto simp: unat_image)
  with assms show ?thesis by (simp add: seg_update_other)
qed

subsection \<open>The list the pointers represent\<close>

definition lru_rep :: "nat \<Rightarrow> lru_list \<Rightarrow> u64 list \<Rightarrow> bool" where
  "lru_rep n l xs \<longleftrightarrow> n < 2 ^ 64 - 1 \<and> length (lru_prev l) = n \<and> length (lru_next l) = n
     \<and> distinct xs \<and> (\<forall>x \<in> set xs. unat x < n)
     \<and> seg (lru_prev l) (lru_next l) npos xs npos
     \<and> lru_head l = first_ptr xs npos \<and> lru_tail l = last_ptr npos xs"

lemma slot_not_npos: "n < 2 ^ 64 - 1 \<Longrightarrow> unat x < n \<Longrightarrow> x \<noteq> npos"
  by (auto simp: npos_def)

lemma lru_rep_new: "n < 2 ^ 64 - 1 \<Longrightarrow> lru_rep n (lru_new n) []"
  by (simp add: lru_rep_def lru_new_def)

lemma lru_push:
  assumes "lru_rep n l xs" "unat s < n" "s \<notin> set xs"
  shows "\<exists>l'. lru_push_mru l s = Some l' \<and> lru_rep n l' (xs @ [s])"
proof (cases xs rule: rev_cases)
  case Nil
  with assms show ?thesis
    by (simp add: lru_rep_def lru_push_mru_def upd_opt_def npos_def)
next
  case (snoc ys y)
  let ?P = "lru_prev l" and ?N = "lru_next l"
  have y: "unat y < n" "y \<noteq> npos" "unat y \<noteq> unat s" and tail: "lru_tail l = y"
    and len: "length ?P = n" "length ?N = n"
    using assms snoc slot_not_npos [of n y] by (auto simp: lru_rep_def word_unat_eq_iff [symmetric])
  define l' where "l' = l\<lparr>lru_prev := ?P[unat s := y], lru_next := (?N[unat s := npos])[unat y := s], lru_tail := s\<rparr>"
  have push: "lru_push_mru l s = Some l'"
    using y len assms(2) tail by (simp add: lru_push_mru_def upd_opt_def l'_def)
  have s: "unat s \<notin> unat ` set (ys @ [y])" using assms(3) snoc unat_image by blast
  have "seg ?P ?N npos (ys @ [y]) npos" using assms(1) snoc by (simp add: lru_rep_def)
  then have "seg (?P[unat s := y]) (?N[unat s := npos]) npos (ys @ [y]) npos"
    using s by (simp add: seg_update_other)
  then have "seg (?P[unat s := y]) ((?N[unat s := npos])[unat y := s]) npos (ys @ [y]) s"
    using assms(1) snoc y len by (intro seg_set_next) (auto simp: lru_rep_def)
  then have "seg (lru_prev l') (lru_next l') npos (xs @ [s]) npos"
    using y len assms(2) snoc by (simp add: seg_append [of _ _ _ "ys @ [y]" "[s]"] l'_def del: append_assoc)
  moreover have "lru_head l' = first_ptr (xs @ [s]) npos" "lru_tail l' = last_ptr npos (xs @ [s])"
    using assms(1) snoc by (simp_all add: lru_rep_def l'_def first_ptr_append last_ptr_append)
  ultimately have "lru_rep n l' (xs @ [s])"
    using assms by (simp add: lru_rep_def l'_def)
  with push show ?thesis by blast
qed

lemma lru_unlink_rep:
  assumes "lru_rep n l (as @ s # bs)"
  shows "\<exists>l'. lru_unlink l s = Some l' \<and> lru_rep n l' (as @ bs)"
proof -
  let ?P = "lru_prev l" and ?N = "lru_next l"
  have rep: "n < 2 ^ 64 - 1" "length ?P = n" "length ?N = n" "distinct (as @ s # bs)"
    "\<forall>x \<in> set (as @ s # bs). unat x < n" and sg: "seg ?P ?N npos (as @ s # bs) npos"
    and ht: "lru_head l = first_ptr (as @ s # bs) npos" "lru_tail l = last_ptr npos (as @ s # bs)"
    using assms by (auto simp: lru_rep_def)
  define p where "p = last_ptr npos as"
  define q where "q = first_ptr bs npos"
  have sa: "seg ?P ?N npos as s" and sb: "seg ?P ?N s bs npos" and links: "?P ! unat s = p" "?N ! unat s = q"
    using sg by (simp_all add: seg_append p_def q_def)
  have s: "unat s < n" "unat s \<notin> unat ` set as" "unat s \<notin> unat ` set bs"
    using rep(4,5) by (auto simp: unat_image)
  define N1 where "N1 = (if p \<noteq> npos then ?N[unat p := q] else ?N)"
  define P1 where "P1 = (if q \<noteq> npos then ?P[unat q := p] else ?P)"
  define l' where "l' = l\<lparr>lru_prev := P1[unat s := npos], lru_next := N1[unat s := npos],
     lru_head := (if p \<noteq> npos then lru_head l else q), lru_tail := (if q \<noteq> npos then lru_tail l else p)\<rparr>"
  have pn: "p = npos \<longleftrightarrow> as = []" "as \<noteq> [] \<Longrightarrow> p = last as"
    and qn: "q = npos \<longleftrightarrow> bs = []" "bs \<noteq> [] \<Longrightarrow> q = hd bs"
    using rep(1,5) slot_not_npos [of n]
    by (auto simp: p_def q_def last_ptr_def first_ptr_def neq_Nil_conv split: list.splits)
  have plt: "p \<noteq> npos \<Longrightarrow> unat p < n" and qlt: "q \<noteq> npos \<Longrightarrow> unat q < n"
    using pn qn rep(5) by auto
  have unl: "lru_unlink l s = Some l'"
    using s(1) plt qlt rep(2,3) by (simp add: lru_unlink_def nth_opt_in links upd_opt_def l'_def N1_def P1_def)
  have sa': "seg P1 N1 npos as q"
  proof (cases as rule: rev_cases)
    case (snoc cs c)
    then have "seg ?P (?N[unat c := q]) npos (cs @ [c]) q"
      using sa rep by (intro seg_set_next) auto
    moreover have "unat q \<notin> unat ` set as" if "bs \<noteq> []"
      using that rep(4) qn(2) by (auto simp: unat_image)
    ultimately show ?thesis
      using snoc pn qn by (auto simp: P1_def N1_def p_def seg_update_other)
  qed simp
  have sb': "seg P1 N1 p bs npos"
  proof (cases bs)
    case (Cons c cs)
    then have "seg (?P[unat c := p]) ?N p (c # cs) npos"
      using sb rep by (intro seg_set_prev) auto
    moreover have "unat p \<notin> unat ` set bs" if "as \<noteq> []"
      using rep(4) pn(2) [OF that] last_in_set [OF that] by (simp add: unat_image disjoint_iff)
    ultimately show ?thesis
      using Cons pn qn by (auto simp: P1_def N1_def q_def seg_update_other)
  qed simp
  have "seg (lru_prev l') (lru_next l') npos (as @ bs) npos"
    using sa' sb' s(2,3) by (simp add: l'_def seg_append seg_update_other flip: p_def q_def)
  moreover have "lru_head l' = first_ptr (as @ bs) npos"
    using ht pn by (cases as) (simp_all add: l'_def first_ptr_append q_def)
  moreover have "lru_tail l' = last_ptr npos (as @ bs)"
    using ht qn by (cases bs) (simp_all add: l'_def last_ptr_append p_def)
  ultimately have "lru_rep n l' (as @ bs)" using rep by (simp add: lru_rep_def l'_def P1_def N1_def)
  with unl show ?thesis by blast
qed

lemma lru_remove:
  assumes "lru_rep n l xs" "s \<in> set xs"
  shows "\<exists>l'. lru_unlink l s = Some l' \<and> lru_rep n l' (remove1 s xs)"
proof -
  obtain as bs where xs: "xs = as @ s # bs" using assms(2) by (meson split_list)
  have "s \<notin> set as" using assms(1) xs by (simp add: lru_rep_def)
  then have "remove1 s xs = as @ bs" using xs by (simp add: remove1_append)
  with lru_unlink_rep assms(1) xs show ?thesis by simp
qed

lemma lru_touch:
  assumes "lru_rep n l xs" "s \<in> set xs"
  shows "\<exists>l'. lru_move_to_mru l s = Some l' \<and> lru_rep n l' (remove1 s xs @ [s])"
proof (cases "lru_tail l = s")
  case True
  have "xs \<noteq> []" using assms(2) by auto
  then have "last xs = s" using True assms(1) by (auto simp: lru_rep_def last_ptr_def)
  then obtain ys where ys: "xs = ys @ [s]" using \<open>xs \<noteq> []\<close> by (metis append_butlast_last_id)
  have "s \<notin> set ys" using assms(1) ys by (simp add: lru_rep_def)
  then have "remove1 s xs @ [s] = xs" by (simp add: ys remove1_append)
  with True assms(1) show ?thesis by (simp add: lru_move_to_mru_def)
next
  case False
  obtain l1 where l1: "lru_unlink l s = Some l1" "lru_rep n l1 (remove1 s xs)"
    using lru_remove [OF assms] by blast
  have "unat s < n" "s \<notin> set (remove1 s xs)" using assms by (auto simp: lru_rep_def)
  from lru_push [OF l1(2) this] l1(1) False show ?thesis by (auto simp: lru_move_to_mru_def)
qed

end
