(* ===== verification/Sparse_World.thy ===== *)
theory Sparse_World imports LRU_List Chunk_Meta Chunk_Page "HOL-Library.Multiset" begin

text \<open>
  The sparse world of \<open>storage/sparse_world.h\<close> and the handle types of
  \<open>storage/residency.h\<close>: a fixed number of page slots, a directory from chunk keys to slots,
  swap-remove arrays of residents, a stack of free slots, an intrusive LRU list and a clock of
  residency generations. The theory shows that it refines a list of resident chunks in
  least-recently-used order, and that no handle survives an eviction.
\<close>

record residency_handle =
  rh_key :: chunk_key
  rh_generation :: residency_generation

definition null_handle :: residency_handle where
  "null_handle = \<lparr>rh_key = ChunkKey 0, rh_generation = ResidencyGeneration 0\<rparr>"

record 'v sparse_world =
  sw_byte_budget :: u64
  sw_capacity :: u64
  sw_generation_clock :: residency_generation
  sw_pages :: "'v chunk_page list"
  sw_metadata :: "chunk_meta list"
  sw_dirty_masks :: "dirty_mask list"
  sw_active_masks :: "active_mask list"
  sw_dirty_bounds :: "box3 list"
  sw_slot_key :: "chunk_key list"
  sw_slot_generation :: "residency_generation list"
  sw_lru :: lru_list
  sw_slot_position :: "u64 list"
  sw_resident_keys :: "chunk_key list"
  sw_resident_slots :: "u64 list"
  sw_free_slots :: "u64 list"
  sw_directory :: chunk_directory

definition clamp_capacity :: "u64 \<Rightarrow> u64 \<Rightarrow> u64" where
  "clamp_capacity page_byte_size byte_budget =
     (if page_byte_size = 0 then 1
      else let count = byte_budget div page_byte_size in if count < 1 then 1 else count)"

text \<open>
  The constructor. The size of a page in bytes depends on the field types and is an argument.
  The free-slot vector is filled from the highest slot down, so its back is slot 0.
\<close>

definition sparse_new :: "u64 \<Rightarrow> shape \<Rightarrow> ('t, 'v) schema \<Rightarrow> u64 \<Rightarrow> 'v sparse_world option" where
  "sparse_new page_byte_size s fs byte_budget =
     (let capacity = clamp_capacity page_byte_size byte_budget; n = unat capacity
      in map_option (\<lambda>d.
         \<lparr>sw_byte_budget = byte_budget, sw_capacity = capacity,
          sw_generation_clock = ResidencyGeneration 0,
          sw_pages = replicate n (new_page s fs (ChunkKey 0) \<lparr>cc_x = 0, cc_y = 0, cc_z = 0\<rparr>),
          sw_metadata = replicate n default_chunk_meta,
          sw_dirty_masks = replicate n (DirtyMask 0),
          sw_active_masks = replicate n (ActiveMask 0),
          sw_dirty_bounds = replicate n default_box3,
          sw_slot_key = replicate n (ChunkKey 0),
          sw_slot_generation = replicate n (ResidencyGeneration 0),
          sw_lru = lru_new n,
          sw_slot_position = replicate n 0,
          sw_resident_keys = [], sw_resident_slots = [],
          sw_free_slots = rev (map of_nat [0..<n]),
          sw_directory = d\<rparr>)
        (dir_reset capacity (chunk_count s)))"

subsection \<open>Queries\<close>

definition resident_count :: "'v sparse_world \<Rightarrow> nat" where
  "resident_count w = length (sw_resident_keys w)"

definition resident_byte_size :: "u64 \<Rightarrow> 'v sparse_world \<Rightarrow> u64" where
  "resident_byte_size page_byte_size w = of_nat (length (sw_resident_keys w)) * page_byte_size"

definition sparse_contains :: "shape \<Rightarrow> chunk_key \<Rightarrow> bool" where
  "sparse_contains s k \<longleftrightarrow> key_value k < chunk_count s"

definition is_resident :: "'v sparse_world \<Rightarrow> chunk_key \<Rightarrow> bool option" where
  "is_resident w k = map_option (\<lambda>s. s \<noteq> npos) (dir_find (sw_directory w) k)"

definition resident_slot :: "'v sparse_world \<Rightarrow> chunk_key \<Rightarrow> u64 option" where
  "resident_slot w k = dir_find (sw_directory w) k"

text \<open>The null metadata pointer of a missing chunk is the inner \<^const>\<open>None\<close>.\<close>

record resident_chunk_ref =
  rr_slot :: u64
  rr_generation :: residency_generation
  rr_meta :: "chunk_meta option"

definition resident_ref :: "'v sparse_world \<Rightarrow> chunk_key \<Rightarrow> resident_chunk_ref option" where
  "resident_ref w k = do {
     s \<leftarrow> dir_find (sw_directory w) k;
     if s = npos
     then Some \<lparr>rr_slot = npos, rr_generation = ResidencyGeneration 0, rr_meta = None\<rparr>
     else do {
       g \<leftarrow> nth_opt (sw_slot_generation w) (unat s);
       m \<leftarrow> nth_opt (sw_metadata w) (unat s);
       Some \<lparr>rr_slot = s, rr_generation = g, rr_meta = Some m\<rparr>
     }
   }"

definition get_residency_generation :: "'v sparse_world \<Rightarrow> chunk_key \<Rightarrow> residency_generation option" where
  "get_residency_generation w k = do {
     s \<leftarrow> dir_find (sw_directory w) k;
     if s = npos then Some (ResidencyGeneration 0) else nth_opt (sw_slot_generation w) (unat s)
   }"

definition handle_valid :: "'v sparse_world \<Rightarrow> residency_handle \<Rightarrow> bool option" where
  "handle_valid w h =
     (if \<not> residency_valid (rh_generation h) then Some False
      else map_option (\<lambda>g. g = rh_generation h) (get_residency_generation w (rh_key h)))"

definition resident_chunk_keys :: "'v sparse_world \<Rightarrow> chunk_key list" where
  "resident_chunk_keys w = sw_resident_keys w"

definition fp_mix :: "u64 \<Rightarrow> u64" where
  "fp_mix x0 =
     (let x1 = (x0 XOR drop_bit 30 x0) * 0xbf58476d1ce4e5b9;
          x2 = (x1 XOR drop_bit 27 x1) * 0x94d049bb133111eb
      in x2 XOR drop_bit 31 x2)"

definition fp_slot :: "'v sparse_world \<Rightarrow> u64 \<Rightarrow> u64 option" where
  "fp_slot w s = do {
     k \<leftarrow> nth_opt (sw_slot_key w) (unat s);
     g \<leftarrow> nth_opt (sw_slot_generation w) (unat s);
     m \<leftarrow> nth_opt (sw_metadata w) (unat s);
     let h0 = fp_mix (key_value k);
     let h1 = h0 XOR fp_mix (h0 + s);
     let h2 = h1 XOR fp_mix (h1 + rg_value g);
     Some (h2 XOR fp_mix (h2 + cv_value (cm_content_version m)))
   }"

definition residency_fingerprint :: "'v sparse_world \<Rightarrow> u64 option" where
  "residency_fingerprint w = do {
     acc \<leftarrow> fold_opt (\<lambda>s acc. map_option (\<lambda>h. acc + h) (fp_slot w s)) (sw_resident_slots w) 0;
     Some (fp_mix (acc + of_nat (resident_count w) + 0x9e3779b97f4a7c15))
   }"

subsection \<open>Residency changes\<close>

definition release_slot :: "'v sparse_world \<Rightarrow> u64 \<Rightarrow> 'v sparse_world option" where
  "release_slot w s = do {
     lru \<leftarrow> lru_unlink (sw_lru w) s;
     k \<leftarrow> nth_opt (sw_slot_key w) (unat s);
     (_, d) \<leftarrow> dir_erase (sw_directory w) k;
     position \<leftarrow> nth_opt (sw_slot_position w) (unat s);
     let last = length (sw_resident_keys w) - 1;
     last_key \<leftarrow> nth_opt (sw_resident_keys w) last;
     last_slot \<leftarrow> nth_opt (sw_resident_slots w) last;
     keys \<leftarrow> upd_opt (sw_resident_keys w) (unat position) last_key;
     slots \<leftarrow> upd_opt (sw_resident_slots w) (unat position) last_slot;
     moved \<leftarrow> nth_opt slots (unat position);
     positions \<leftarrow> upd_opt (sw_slot_position w) (unat moved) position;
     Some (w\<lparr>sw_lru := lru, sw_directory := d, sw_slot_position := positions,
             sw_resident_keys := butlast keys, sw_resident_slots := butlast slots\<rparr>)
   }"

definition evict_least_recently_used :: "'v sparse_world \<Rightarrow> (u64 \<times> 'v sparse_world) option" where
  "evict_least_recently_used w =
     (if sw_resident_slots w = [] then None
      else if lru_head (sw_lru w) = npos then None
      else let victim = lru_head (sw_lru w)
           in map_option (\<lambda>w'. (victim, w')) (release_slot w victim))"

definition acquire_slot :: "'v sparse_world \<Rightarrow> (u64 \<times> 'v sparse_world) option" where
  "acquire_slot w =
     (if sw_free_slots w \<noteq> []
      then Some (last (sw_free_slots w), w\<lparr>sw_free_slots := butlast (sw_free_slots w)\<rparr>)
      else evict_least_recently_used w)"

definition bind_slot ::
    "shape \<Rightarrow> ('t, 'v) schema \<Rightarrow> chunk_key \<Rightarrow> u64 \<Rightarrow> 'v sparse_world
     \<Rightarrow> (residency_handle \<times> 'v sparse_world) option" where
  "bind_slot s fs k slot w = do {
     page \<leftarrow> nth_opt (sw_pages w) (unat slot);
     pages \<leftarrow> upd_opt (sw_pages w) (unat slot) (page_reset fs page k (chunk_coord_of_key s k));
     metas \<leftarrow> upd_opt (sw_metadata w) (unat slot) default_chunk_meta;
     dirty \<leftarrow> upd_opt (sw_dirty_masks w) (unat slot) (DirtyMask 0);
     active \<leftarrow> upd_opt (sw_active_masks w) (unat slot) (ActiveMask 0);
     bounds \<leftarrow> upd_opt (sw_dirty_bounds w) (unat slot) default_box3;
     keys \<leftarrow> upd_opt (sw_slot_key w) (unat slot) k;
     clock \<leftarrow> residency_generation_inc (sw_generation_clock w);
     gens \<leftarrow> upd_opt (sw_slot_generation w) (unat slot) clock;
     lru \<leftarrow> lru_push_mru (sw_lru w) slot;
     positions \<leftarrow> upd_opt (sw_slot_position w) (unat slot) (of_nat (length (sw_resident_keys w)));
     d \<leftarrow> dir_insert (sw_directory w) k slot;
     Some (\<lparr>rh_key = k, rh_generation = clock\<rparr>,
           w\<lparr>sw_pages := pages, sw_metadata := metas, sw_dirty_masks := dirty, sw_active_masks := active,
             sw_dirty_bounds := bounds, sw_slot_key := keys, sw_generation_clock := clock,
             sw_slot_generation := gens, sw_lru := lru, sw_slot_position := positions,
             sw_resident_keys := sw_resident_keys w @ [k],
             sw_resident_slots := sw_resident_slots w @ [slot], sw_directory := d\<rparr>)
   }"

definition ensure_resident ::
    "shape \<Rightarrow> ('t, 'v) schema \<Rightarrow> 'v sparse_world \<Rightarrow> chunk_key \<Rightarrow> (residency_handle \<times> 'v sparse_world) option" where
  "ensure_resident s fs w k =
     (if \<not> sparse_contains s k then Some (null_handle, w)
      else do {
        slot \<leftarrow> dir_find (sw_directory w) k;
        if slot \<noteq> npos
        then do {
          lru \<leftarrow> lru_move_to_mru (sw_lru w) slot;
          g \<leftarrow> nth_opt (sw_slot_generation w) (unat slot);
          Some (\<lparr>rh_key = k, rh_generation = g\<rparr>, w\<lparr>sw_lru := lru\<rparr>)
        }
        else do {
          (slot', w') \<leftarrow> acquire_slot w;
          bind_slot s fs k slot' w'
        }
      })"

definition sparse_touch :: "'v sparse_world \<Rightarrow> chunk_key \<Rightarrow> (bool \<times> 'v sparse_world) option" where
  "sparse_touch w k = do {
     slot \<leftarrow> dir_find (sw_directory w) k;
     if slot = npos then Some (False, w)
     else map_option (\<lambda>lru. (True, w\<lparr>sw_lru := lru\<rparr>)) (lru_move_to_mru (sw_lru w) slot)
   }"

definition sparse_evict :: "'v sparse_world \<Rightarrow> chunk_key \<Rightarrow> (bool \<times> 'v sparse_world) option" where
  "sparse_evict w k = do {
     slot \<leftarrow> dir_find (sw_directory w) k;
     if slot = npos then Some (False, w)
     else map_option (\<lambda>w'. (True, w'\<lparr>sw_free_slots := sw_free_slots w' @ [slot]\<rparr>)) (release_slot w slot)
   }"


subsection \<open>Access to resident chunks\<close>

definition resident_slot_checked :: "'v sparse_world \<Rightarrow> chunk_key \<Rightarrow> u64 option" where
  "resident_slot_checked w k = do {
     s \<leftarrow> dir_find (sw_directory w) k;
     if s = npos then None else Some s
   }"

definition sparse_chunk :: "'v sparse_world \<Rightarrow> chunk_key \<Rightarrow> 'v chunk_page option" where
  "sparse_chunk w k = do { s \<leftarrow> resident_slot_checked w k; nth_opt (sw_pages w) (unat s) }"

definition sparse_try_chunk :: "'v sparse_world \<Rightarrow> chunk_key \<Rightarrow> 'v chunk_page option option" where
  "sparse_try_chunk w k = do {
     s \<leftarrow> dir_find (sw_directory w) k;
     if s = npos then Some None else map_option Some (nth_opt (sw_pages w) (unat s))
   }"

definition sparse_meta :: "'v sparse_world \<Rightarrow> chunk_key \<Rightarrow> chunk_meta option" where
  "sparse_meta w k = do { s \<leftarrow> resident_slot_checked w k; nth_opt (sw_metadata w) (unat s) }"

definition sparse_try_meta :: "'v sparse_world \<Rightarrow> chunk_key \<Rightarrow> chunk_meta option option" where
  "sparse_try_meta w k = do {
     s \<leftarrow> dir_find (sw_directory w) k;
     if s = npos then Some None else map_option Some (nth_opt (sw_metadata w) (unat s))
   }"

definition sparse_dirty_mask :: "'v sparse_world \<Rightarrow> chunk_key \<Rightarrow> dirty_mask option" where
  "sparse_dirty_mask w k = do { s \<leftarrow> resident_slot_checked w k; nth_opt (sw_dirty_masks w) (unat s) }"

definition sparse_active_mask :: "'v sparse_world \<Rightarrow> chunk_key \<Rightarrow> active_mask option" where
  "sparse_active_mask w k = do { s \<leftarrow> resident_slot_checked w k; nth_opt (sw_active_masks w) (unat s) }"

definition sparse_dirty_bounds :: "'v sparse_world \<Rightarrow> chunk_key \<Rightarrow> box3 option" where
  "sparse_dirty_bounds w k = do { s \<leftarrow> resident_slot_checked w k; nth_opt (sw_dirty_bounds w) (unat s) }"

definition sparse_chunk_activity :: "'v sparse_world \<Rightarrow> chunk_key \<Rightarrow> chunk_activity option" where
  "sparse_chunk_activity w k =
     map_option (\<lambda>m. if active_empty m then Sleeping else Active) (sparse_active_mask w k)"

definition sparse_active_category_count :: "'v sparse_world \<Rightarrow> chunk_key \<Rightarrow> u32 option" where
  "sparse_active_category_count w k = map_option active_popcount (sparse_active_mask w k)"

definition sparse_mark_dirty ::
    "'v sparse_world \<Rightarrow> chunk_key \<Rightarrow> dirty_mask \<Rightarrow> box3 \<Rightarrow> 'v sparse_world option" where
  "sparse_mark_dirty w k m b = do {
     s \<leftarrow> resident_slot_checked w k;
     d \<leftarrow> nth_opt (sw_dirty_masks w) (unat s);
     bd \<leftarrow> nth_opt (sw_dirty_bounds w) (unat s);
     meta \<leftarrow> nth_opt (sw_metadata w) (unat s);
     (d', bd', meta') \<leftarrow> meta_mark_dirty d bd meta m b;
     Some (w\<lparr>sw_dirty_masks := (sw_dirty_masks w)[unat s := d'],
             sw_dirty_bounds := (sw_dirty_bounds w)[unat s := bd'],
             sw_metadata := (sw_metadata w)[unat s := meta']\<rparr>)
   }"

definition sparse_mark_content_changed :: "'v sparse_world \<Rightarrow> chunk_key \<Rightarrow> 'v sparse_world option" where
  "sparse_mark_content_changed w k = do {
     s \<leftarrow> resident_slot_checked w k;
     meta \<leftarrow> nth_opt (sw_metadata w) (unat s);
     meta' \<leftarrow> meta_mark_content_changed meta;
     Some (w\<lparr>sw_metadata := (sw_metadata w)[unat s := meta']\<rparr>)
   }"

definition sparse_mark_topology_rebuilt :: "'v sparse_world \<Rightarrow> chunk_key \<Rightarrow> 'v sparse_world option" where
  "sparse_mark_topology_rebuilt w k = do {
     s \<leftarrow> resident_slot_checked w k;
     meta \<leftarrow> nth_opt (sw_metadata w) (unat s);
     v \<leftarrow> topology_version_inc (cm_topology_version meta);
     Some (w\<lparr>sw_metadata := (sw_metadata w)[unat s := meta\<lparr>cm_topology_version := v\<rparr>]\<rparr>)
   }"

definition sparse_mark_topology_dirty ::
    "'v sparse_world \<Rightarrow> chunk_key \<Rightarrow> dirty_mask \<Rightarrow> box3 \<Rightarrow> 'v sparse_world option" where
  "sparse_mark_topology_dirty w k m b =
     (if dirty_empty m then Some w
      else do { w' \<leftarrow> sparse_mark_dirty w k m b; sparse_mark_topology_rebuilt w' k })"

definition sparse_clear_dirty :: "'v sparse_world \<Rightarrow> chunk_key \<Rightarrow> dirty_mask \<Rightarrow> 'v sparse_world option" where
  "sparse_clear_dirty w k m = do {
     s \<leftarrow> resident_slot_checked w k;
     d \<leftarrow> nth_opt (sw_dirty_masks w) (unat s);
     bd \<leftarrow> nth_opt (sw_dirty_bounds w) (unat s);
     case meta_clear_dirty d bd m of (d', bd') \<Rightarrow>
     Some (w\<lparr>sw_dirty_masks := (sw_dirty_masks w)[unat s := d'],
             sw_dirty_bounds := (sw_dirty_bounds w)[unat s := bd']\<rparr>)
   }"

definition sparse_observe_dirty :: "'v sparse_world \<Rightarrow> chunk_key \<Rightarrow> dirty_mask \<Rightarrow> dirty_observation option" where
  "sparse_observe_dirty w k m = do {
     s \<leftarrow> resident_slot_checked w k;
     d \<leftarrow> nth_opt (sw_dirty_masks w) (unat s);
     bd \<leftarrow> nth_opt (sw_dirty_bounds w) (unat s);
     meta \<leftarrow> nth_opt (sw_metadata w) (unat s);
     g \<leftarrow> nth_opt (sw_slot_generation w) (unat s);
     Some (meta_observe_dirty d bd meta m g)
   }"

definition sparse_clear_dirty_observed ::
    "'v sparse_world \<Rightarrow> chunk_key \<Rightarrow> dirty_observation \<Rightarrow> (bool \<times> 'v sparse_world) option" where
  "sparse_clear_dirty_observed w k obs = do {
     s \<leftarrow> resident_slot_checked w k;
     d \<leftarrow> nth_opt (sw_dirty_masks w) (unat s);
     bd \<leftarrow> nth_opt (sw_dirty_bounds w) (unat s);
     meta \<leftarrow> nth_opt (sw_metadata w) (unat s);
     g \<leftarrow> nth_opt (sw_slot_generation w) (unat s);
     case meta_clear_dirty_observed d bd meta obs g of (ok, d', bd') \<Rightarrow>
     Some (ok, w\<lparr>sw_dirty_masks := (sw_dirty_masks w)[unat s := d'],
                 sw_dirty_bounds := (sw_dirty_bounds w)[unat s := bd']\<rparr>)
   }"

definition sparse_mark_active :: "'v sparse_world \<Rightarrow> chunk_key \<Rightarrow> active_mask \<Rightarrow> 'v sparse_world option" where
  "sparse_mark_active w k m = do {
     s \<leftarrow> resident_slot_checked w k;
     a \<leftarrow> nth_opt (sw_active_masks w) (unat s);
     Some (w\<lparr>sw_active_masks := (sw_active_masks w)[unat s := meta_mark_active a m]\<rparr>)
   }"

definition sparse_clear_active :: "'v sparse_world \<Rightarrow> chunk_key \<Rightarrow> active_mask \<Rightarrow> 'v sparse_world option" where
  "sparse_clear_active w k m = do {
     s \<leftarrow> resident_slot_checked w k;
     a \<leftarrow> nth_opt (sw_active_masks w) (unat s);
     Some (w\<lparr>sw_active_masks := (sw_active_masks w)[unat s := meta_clear_active a m]\<rparr>)
   }"

definition sparse_collect_matching ::
    "'v sparse_world \<Rightarrow> ('m \<Rightarrow> bool) \<Rightarrow> 'm list \<Rightarrow> chunk_key list \<Rightarrow> chunk_key list option" where
  "sparse_collect_matching w p column out =
     fold_opt (\<lambda>s acc. do {
         m \<leftarrow> nth_opt column (unat s);
         if p m then do { k \<leftarrow> nth_opt (sw_slot_key w) (unat s); Some (acc @ [k]) } else Some acc
       }) (sw_resident_slots w) out"

definition sparse_collect_dirty ::
    "'v sparse_world \<Rightarrow> dirty_mask \<Rightarrow> chunk_key list \<Rightarrow> chunk_key list option" where
  "sparse_collect_dirty w m out =
     sparse_collect_matching w (\<lambda>d. \<not> dirty_empty (dirty_and d m)) (sw_dirty_masks w) out"

definition sparse_collect_active ::
    "'v sparse_world \<Rightarrow> active_mask \<Rightarrow> chunk_key list \<Rightarrow> chunk_key list option" where
  "sparse_collect_active w m out =
     sparse_collect_matching w (\<lambda>a. \<not> active_empty (active_and a m)) (sw_active_masks w) out"

definition sparse_resolve :: "shape \<Rightarrow> coord3 \<Rightarrow> resolved_tile option" where
  "sparse_resolve s c =
     (if shape_contains s c
      then Some \<lparr>rt_chunk_key = chunk_key s (chunk_coord s c),
                 rt_local_tile_id = local_tile_id s (local_coord s c)\<rparr>
      else None)"

definition sparse_field ::
    "shape \<Rightarrow> ('t, 'v) schema \<Rightarrow> 't \<Rightarrow> 'v sparse_world \<Rightarrow> coord3 \<Rightarrow> 'v option" where
  "sparse_field s fs t w c = do {
     r \<leftarrow> sparse_resolve s c;
     p \<leftarrow> sparse_chunk w (rt_chunk_key r);
     page_field fs t p (rt_local_tile_id r)
   }"

definition sparse_try_field ::
    "shape \<Rightarrow> ('t, 'v) schema \<Rightarrow> 't \<Rightarrow> 'v sparse_world \<Rightarrow> coord3 \<Rightarrow> 'v option option" where
  "sparse_try_field s fs t w c =
     (case (if shape_contains s c then sparse_resolve s c else None) of
        None \<Rightarrow> Some None
      | Some r \<Rightarrow> do {
          p \<leftarrow> sparse_try_chunk w (rt_chunk_key r);
          (case p of None \<Rightarrow> Some None
           | Some page \<Rightarrow> map_option Some (page_field fs t page (rt_local_tile_id r)))
        })"

definition sparse_write_field ::
    "shape \<Rightarrow> ('t, 'v) schema \<Rightarrow> 't \<Rightarrow> 'v sparse_world \<Rightarrow> coord3 \<Rightarrow> 'v \<Rightarrow> 'v sparse_world option" where
  "sparse_write_field s fs t w c v = do {
     r \<leftarrow> sparse_resolve s c;
     sl \<leftarrow> resident_slot_checked w (rt_chunk_key r);
     p \<leftarrow> nth_opt (sw_pages w) (unat sl);
     p' \<leftarrow> page_write fs t p (rt_local_tile_id r) v;
     Some (w\<lparr>sw_pages := (sw_pages w)[unat sl := p']\<rparr>)
   }"

subsection \<open>The residency invariant\<close>

text \<open>
  \<open>xs\<close> are the resident slots in LRU order, the list the pointer columns represent; \<open>held\<close> is the
  slot that has left the resident arrays and not yet reached the free list or a new chunk, empty
  between operations.
\<close>

definition sw_cap :: "'v sparse_world \<Rightarrow> nat" where
  "sw_cap w = unat (sw_capacity w)"

definition columns_ok :: "shape \<Rightarrow> ('t, 'v) schema \<Rightarrow> 'v sparse_world \<Rightarrow> bool" where
  "columns_ok s fs w \<longleftrightarrow>
     length (sw_pages w) = sw_cap w \<and> length (sw_metadata w) = sw_cap w \<and>
     length (sw_dirty_masks w) = sw_cap w \<and> length (sw_active_masks w) = sw_cap w \<and>
     length (sw_dirty_bounds w) = sw_cap w \<and> length (sw_slot_key w) = sw_cap w \<and>
     length (sw_slot_generation w) = sw_cap w \<and> length (sw_slot_position w) = sw_cap w \<and>
     (\<forall>i < sw_cap w. page_ok s fs (sw_pages w ! i))"

definition residents_ok :: "'v sparse_world \<Rightarrow> u64 list \<Rightarrow> bool" where
  "residents_ok w held \<longleftrightarrow>
     length (sw_resident_keys w) = length (sw_resident_slots w) \<and>
     (\<forall>i < length (sw_resident_slots w).
        sw_slot_key w ! unat (sw_resident_slots w ! i) = sw_resident_keys w ! i \<and>
        unat (sw_slot_position w ! unat (sw_resident_slots w ! i)) = i) \<and>
     distinct (sw_resident_slots w @ sw_free_slots w @ held) \<and>
     set (sw_resident_slots w @ sw_free_slots w @ held) = {x. unat x < sw_cap w}"

definition directory_ok :: "shape \<Rightarrow> 'v sparse_world \<Rightarrow> bool" where
  "directory_ok s w \<longleftrightarrow> dir_inv (sw_cap w) (unat (chunk_count s)) (sw_directory w) \<and>
     (\<forall>x \<in> set (sw_resident_slots w).
        dir_map (sw_directory w) (sw_slot_key w ! unat x) = Some x \<and>
        key_value (sw_slot_key w ! unat x) < chunk_count s) \<and>
     (\<forall>k x. dir_map (sw_directory w) k = Some x \<longrightarrow>
        x \<in> set (sw_resident_slots w) \<and> sw_slot_key w ! unat x = k)"

definition generations_ok :: "'v sparse_world \<Rightarrow> bool" where
  "generations_ok w \<longleftrightarrow>
     (\<forall>x \<in> set (sw_resident_slots w).
        rg_value (sw_slot_generation w ! unat x) \<noteq> 0 \<and>
        rg_value (sw_slot_generation w ! unat x) \<le> rg_value (sw_generation_clock w))"

definition sparse_inv_held ::
    "shape \<Rightarrow> ('t, 'v) schema \<Rightarrow> 'v sparse_world \<Rightarrow> u64 list \<Rightarrow> u64 list \<Rightarrow> bool" where
  "sparse_inv_held s fs w xs held \<longleftrightarrow>
     0 < sw_cap w \<and> sw_cap w \<le> 2 ^ 62 \<and> columns_ok s fs w \<and> residents_ok w held \<and> directory_ok s w \<and>
     generations_ok w \<and> lru_rep (sw_cap w) (sw_lru w) xs \<and> set xs = set (sw_resident_slots w)"

definition sparse_inv :: "shape \<Rightarrow> ('t, 'v) schema \<Rightarrow> 'v sparse_world \<Rightarrow> u64 list \<Rightarrow> bool" where
  "sparse_inv s fs w xs \<longleftrightarrow> sparse_inv_held s fs w xs []"

text \<open>The specification state: resident chunks in LRU order with their generations, and the clock.\<close>

record residency_spec =
  rs_capacity :: nat
  rs_resident :: "(chunk_key \<times> residency_generation) list"
  rs_clock :: residency_generation

definition sparse_abs :: "'v sparse_world \<Rightarrow> u64 list \<Rightarrow> residency_spec" where
  "sparse_abs w xs =
     \<lparr>rs_capacity = sw_cap w,
      rs_resident = map (\<lambda>x. (sw_slot_key w ! unat x, sw_slot_generation w ! unat x)) xs,
      rs_clock = sw_generation_clock w\<rparr>"

fun drop_key :: "chunk_key \<Rightarrow> (chunk_key \<times> residency_generation) list \<Rightarrow> (chunk_key \<times> residency_generation) list" where
  "drop_key k [] = []"
| "drop_key k ((k', g) # xs) = (if k' = k then xs else (k', g) # drop_key k xs)"

definition spec_ensure :: "shape \<Rightarrow> chunk_key \<Rightarrow> residency_spec \<Rightarrow> (residency_handle \<times> residency_spec) option" where
  "spec_ensure s k r =
     (if \<not> sparse_contains s k then Some (null_handle, r)
      else case map_of (rs_resident r) k of
             Some g \<Rightarrow> Some (\<lparr>rh_key = k, rh_generation = g\<rparr>,
                             r\<lparr>rs_resident := drop_key k (rs_resident r) @ [(k, g)]\<rparr>)
           | None \<Rightarrow>
               map_option (\<lambda>g.
                 (\<lparr>rh_key = k, rh_generation = g\<rparr>,
                  r\<lparr>rs_resident := (if length (rs_resident r) < rs_capacity r then rs_resident r
                                    else tl (rs_resident r)) @ [(k, g)],
                    rs_clock := g\<rparr>))
                 (residency_generation_inc (rs_clock r)))"

definition spec_touch :: "chunk_key \<Rightarrow> residency_spec \<Rightarrow> bool \<times> residency_spec" where
  "spec_touch k r =
     (case map_of (rs_resident r) k of
        None \<Rightarrow> (False, r)
      | Some g \<Rightarrow> (True, r\<lparr>rs_resident := drop_key k (rs_resident r) @ [(k, g)]\<rparr>))"

definition spec_evict :: "chunk_key \<Rightarrow> residency_spec \<Rightarrow> bool \<times> residency_spec" where
  "spec_evict k r =
     (if map_of (rs_resident r) k = None then (False, r)
      else (True, r\<lparr>rs_resident := drop_key k (rs_resident r)\<rparr>))"


subsection \<open>Consequences of the invariant\<close>

lemma inv_parts:
  assumes "sparse_inv_held s fs w xs held"
  shows "0 < sw_cap w" "sw_cap w \<le> 2 ^ 62" "columns_ok s fs w" "residents_ok w held" "directory_ok s w"
    "generations_ok w" "lru_rep (sw_cap w) (sw_lru w) xs" "set xs = set (sw_resident_slots w)"
    "distinct xs" "distinct (sw_resident_slots w)"
proof -
  show r: "0 < sw_cap w" "sw_cap w \<le> 2 ^ 62" "columns_ok s fs w" "residents_ok w held" "directory_ok s w"
    "generations_ok w" and l: "lru_rep (sw_cap w) (sw_lru w) xs" and "set xs = set (sw_resident_slots w)"
    using assms unfolding sparse_inv_held_def by blast+
  show "distinct xs" using l unfolding lru_rep_def by blast
  show "distinct (sw_resident_slots w)" using r(4) unfolding residents_ok_def distinct_append by blast
qed

lemma columns_len:
  assumes "columns_ok s fs w"
  shows "length (sw_pages w) = sw_cap w" "length (sw_metadata w) = sw_cap w"
     "length (sw_dirty_masks w) = sw_cap w" "length (sw_active_masks w) = sw_cap w"
     "length (sw_dirty_bounds w) = sw_cap w" "length (sw_slot_key w) = sw_cap w"
     "length (sw_slot_generation w) = sw_cap w" "length (sw_slot_position w) = sw_cap w"
  using assms by (simp_all add: columns_ok_def)

lemma resident_lt:
  assumes "sparse_inv_held s fs w xs held" "x \<in> set (sw_resident_slots w)"
  shows "unat x < sw_cap w"
proof -
  have "set (sw_resident_slots w @ sw_free_slots w @ held) = {x. unat x < sw_cap w}"
    using inv_parts(4) [OF assms(1)] by (simp only: residents_ok_def)
  with assms(2) show ?thesis by auto
qed

lemma dir_maps:
  assumes "sparse_inv_held s fs w xs held"
  shows "x \<in> set (sw_resident_slots w) \<Longrightarrow> dir_map (sw_directory w) (sw_slot_key w ! unat x) = Some x"
    "dir_map (sw_directory w) k = Some x \<Longrightarrow> x \<in> set (sw_resident_slots w) \<and> sw_slot_key w ! unat x = k"
    "dir_inv (sw_cap w) (unat (chunk_count s)) (sw_directory w)"
  using inv_parts(5) [OF assms] by (auto simp: directory_ok_def)

lemma find_slot:
  assumes "sparse_inv_held s fs w xs held"
  shows "dir_find (sw_directory w) k = Some (case dir_map (sw_directory w) k of None \<Rightarrow> npos | Some x \<Rightarrow> x)"
  by (rule directory.find_law [OF dir_maps(3) [OF assms]])

lemma find_not_npos:
  assumes "sparse_inv_held s fs w xs held" "dir_map (sw_directory w) k = Some x"
  shows "x \<noteq> npos"
  by (rule directory.slots_valid [OF dir_maps(3) [OF assms(1)] assms(2)])

lemma slot_keys_inj:
  assumes "sparse_inv_held s fs w xs held" "x \<in> set (sw_resident_slots w)" "y \<in> set (sw_resident_slots w)"
    "sw_slot_key w ! unat x = sw_slot_key w ! unat y"
  shows "x = y"
proof -
  have "Some x = dir_map (sw_directory w) (sw_slot_key w ! unat x)"
    using dir_maps(1) [OF assms(1,2)] by (rule sym)
  also have "\<dots> = Some y" unfolding assms(4) by (rule dir_maps(1) [OF assms(1,3)])
  finally show ?thesis by (rule option.inject [THEN iffD1])
qed

lemma directory_card:
  assumes "sparse_inv_held s fs w xs held"
  shows "card (dom (dir_map (sw_directory w))) = length (sw_resident_slots w)"
proof -
  let ?f = "\<lambda>x. sw_slot_key w ! unat x"
  have "dom (dir_map (sw_directory w)) = ?f ` set (sw_resident_slots w)"
    using dir_maps(1,2) [OF assms] by (auto simp: image_iff domIff)
  moreover have "inj_on ?f (set (sw_resident_slots w))"
    using slot_keys_inj [OF assms] by (auto intro: inj_onI)
  ultimately show ?thesis using inv_parts(10) [OF assms] by (simp add: card_image distinct_card)
qed

lemma slots_total:
  assumes "sparse_inv_held s fs w xs held"
  shows "length (sw_resident_slots w) + length (sw_free_slots w) + length held = sw_cap w"
proof -
  have d: "distinct (sw_resident_slots w @ sw_free_slots w @ held)"
    and s: "set (sw_resident_slots w @ sw_free_slots w @ held) = {x. unat x < sw_cap w}"
    using inv_parts(4) [OF assms] by (simp_all only: residents_ok_def)
  have "bij_betw unat {x :: u64. unat x < sw_cap w} {..<sw_cap w}"
  proof (intro bij_betwI')
    fix n assume "n \<in> {..<sw_cap w}"
    then have "n < 2 ^ 64" using inv_parts(2) [OF assms] by simp
    then have "unat (of_nat n :: u64) = n" by (simp add: unsigned_of_nat take_bit_nat_eq_self)
    with \<open>n \<in> {..<sw_cap w}\<close> show "\<exists>x \<in> {x :: u64. unat x < sw_cap w}. n = unat x"
      by (intro bexI [of _ "of_nat n"]) simp_all
  qed (auto simp: word_unat_eq_iff)
  then have "card {x :: u64. unat x < sw_cap w} = sw_cap w" by (auto dest: bij_betw_same_card)
  then show ?thesis using distinct_card [OF d] s by (simp del: set_append)
qed

lemma lru_length:
  assumes "sparse_inv_held s fs w xs held"
  shows "length xs = length (sw_resident_slots w)"
  by (metis distinct_card inv_parts(8-10) [OF assms])

subsection \<open>Swap-remove\<close>

definition swap_remove :: "'a list \<Rightarrow> nat \<Rightarrow> 'a list" where
  "swap_remove xs p = butlast (xs[p := last xs])"

lemma swap_remove_mset: "p < length xs \<Longrightarrow> mset (swap_remove xs p) = mset (remove1 (xs ! p) xs)"
proof -
  assume p: "p < length xs"
  then have ne: "xs \<noteq> []" by auto
  have l: "last (xs[p := last xs]) = last xs"
    using ne p by (simp add: last_conv_nth nth_list_update)
  have "mset (butlast ys) = mset ys - {#last ys#}" if "ys \<noteq> []" for ys :: "'a list"
    using that by (metis append_butlast_last_id mset.simps add_diff_cancel_right' mset_append)
  then have "mset (swap_remove xs p) = mset (xs[p := last xs]) - {#last xs#}"
    using ne l by (simp add: swap_remove_def)
  also have "\<dots> = mset xs - {#xs ! p#}" using p by (simp add: mset_update)
  finally show ?thesis by simp
qed

lemma swap_remove_nth:
  "p < length xs \<Longrightarrow> i < length xs - 1 \<Longrightarrow> swap_remove xs p ! i = (if i = p then last xs else xs ! i)"
  by (simp add: swap_remove_def nth_butlast nth_list_update)

lemma swap_remove_set: "p < length xs \<Longrightarrow> distinct xs \<Longrightarrow> set (swap_remove xs p) = set xs - {xs ! p}"
  by (metis mset_eq_setD set_remove1_eq swap_remove_mset)

lemma swap_remove_distinct: "p < length xs \<Longrightarrow> distinct xs \<Longrightarrow> distinct (swap_remove xs p)"
  by (metis mset_eq_imp_distinct_iff distinct_remove1 swap_remove_mset)

lemma swap_remove_length: "length (swap_remove xs p) = length xs - 1"
  by (simp add: swap_remove_def)


subsection \<open>Releasing a slot\<close>

lemma residents_nth:
  assumes "residents_ok w held" "i < length (sw_resident_slots w)"
  shows "sw_slot_key w ! unat (sw_resident_slots w ! i) = sw_resident_keys w ! i"
    "unat (sw_slot_position w ! unat (sw_resident_slots w ! i)) = i"
    "length (sw_resident_keys w) = length (sw_resident_slots w)"
  using assms unfolding residents_ok_def by blast+

lemma residents_release:
  fixes l :: lru_list and d :: chunk_directory
  assumes inv: "sparse_inv_held s fs w xs []" and p: "p < length (sw_resident_slots w)"
  defines "x \<equiv> sw_resident_slots w ! p"
  defines "w' \<equiv> w\<lparr>sw_lru := l, sw_directory := d,
      sw_slot_position := (sw_slot_position w)[unat (last (sw_resident_slots w)) := sw_slot_position w ! unat x],
      sw_resident_keys := swap_remove (sw_resident_keys w) p,
      sw_resident_slots := swap_remove (sw_resident_slots w) p\<rparr>"
  shows "residents_ok w' [x]" "set (sw_resident_slots w') = set (sw_resident_slots w) - {x}"
proof -
  let ?ks = "sw_resident_keys w" and ?ss = "sw_resident_slots w" and ?ps = "sw_slot_position w"
  note R = inv_parts(4) [OF inv] and dist = inv_parts(10) [OF inv]
  note nth = residents_nth [OF R]
  have len: "length ?ks = length ?ss" by (rule nth(3) [OF p])
  have ne: "?ss \<noteq> []" using p by auto
  let ?n = "length ?ss - 1"
  have "?ks \<noteq> []" using p len by auto
  then have last: "last ?ss = ?ss ! ?n" "last ?ks = ?ks ! ?n" using ne len by (simp_all add: last_conv_nth)
  have n: "?n < length ?ss" using ne by simp
  have px: "unat (?ps ! unat x) = p" using nth(2) [OF p] by (simp add: x_def)
  have lenps: "length ?ps = sw_cap w" by (rule columns_len(8) [OF inv_parts(3) [OF inv]])
  have lt: "unat (?ss ! i) < sw_cap w" if "i < length ?ss" for i
    using resident_lt [OF inv] that by simp
  have sset: "set (swap_remove ?ss p) = set ?ss - {x}"
    unfolding x_def by (rule swap_remove_set [OF p dist])
  then show "set (sw_resident_slots w') = set ?ss - {x}" by (simp add: w'_def)
  have each: "sw_slot_key w ! unat (swap_remove ?ss p ! i) = swap_remove ?ks p ! i
      \<and> unat (?ps[unat (last ?ss) := ?ps ! unat x] ! unat (swap_remove ?ss p ! i)) = i"
    if i: "i < length ?ss - 1" for i
  proof (cases "i = p")
    case True
    then show ?thesis
      using nth(1) [OF n] px lt [OF n] lenps i p len last
      by (simp add: swap_remove_nth)
  next
    case False
    have i': "i < length ?ss" "i \<noteq> ?n" using i by auto
    then have "?ss ! i \<noteq> ?ss ! ?n" using dist n by (simp add: nth_eq_iff_index_eq)
    then have "unat (?ss ! ?n) \<noteq> unat (?ss ! i)" by (metis word_unat_eq_iff)
    then show ?thesis
      using nth(1,2) [OF i'(1)] i p len last False by (simp add: swap_remove_nth)
  qed
  have dist': "distinct (swap_remove ?ss p)" by (rule swap_remove_distinct [OF p dist])
  have xs: "x \<in> set ?ss" using p by (simp add: x_def)
  have all: "distinct (?ss @ sw_free_slots w)" "set (?ss @ sw_free_slots w) = {y. unat y < sw_cap w}"
    using R unfolding residents_ok_def by simp_all
  show "residents_ok w' [x]"
    unfolding residents_ok_def
  proof (intro conjI allI impI)
    show "length (sw_resident_keys w') = length (sw_resident_slots w')"
      by (simp add: w'_def swap_remove_length len)
    show "distinct (sw_resident_slots w' @ sw_free_slots w' @ [x])"
      using all(1) dist' sset xs by (auto simp: w'_def)
    show "set (sw_resident_slots w' @ sw_free_slots w' @ [x]) = {y. unat y < sw_cap w'}"
      using all(2) sset xs by (auto simp: w'_def sw_cap_def)
  next
    fix i assume "i < length (sw_resident_slots w')"
    then have "i < length ?ss - 1" by (simp add: w'_def swap_remove_length)
    from each [OF this]
    show "sw_slot_key w' ! unat (sw_resident_slots w' ! i) = sw_resident_keys w' ! i"
      "unat (sw_slot_position w' ! unat (sw_resident_slots w' ! i)) = i" by (simp_all add: w'_def)
  qed
qed

lemma release_spec:
  assumes inv: "sparse_inv_held s fs w xs []" and x: "x \<in> set xs"
  shows "\<exists>l d ps ks ss. let w' = w\<lparr>sw_lru := l, sw_directory := d, sw_slot_position := ps,
            sw_resident_keys := ks, sw_resident_slots := ss\<rparr>
         in release_slot w x = Some w' \<and> sparse_inv_held s fs w' (remove1 x xs) [x]
            \<and> dir_map d = (dir_map (sw_directory w))(sw_slot_key w ! unat x := None)"
proof -
  let ?ss = "sw_resident_slots w" and ?ks = "sw_resident_keys w"
  note R = inv_parts(4) [OF inv] and C = inv_parts(3) [OF inv] and dist = inv_parts(10) [OF inv]
  have xin: "x \<in> set ?ss" using x inv_parts(8) [OF inv] by simp
  then obtain p where p: "p < length ?ss" "?ss ! p = x" by (auto simp: in_set_conv_nth)
  have xlt: "unat x < sw_cap w" by (rule resident_lt [OF inv xin])
  obtain l where l: "lru_unlink (sw_lru w) x = Some l" "lru_rep (sw_cap w) l (remove1 x xs)"
    using lru_remove [OF inv_parts(7) [OF inv] x] by blast
  let ?k = "sw_slot_key w ! unat x"
  obtain d where d: "dir_erase (sw_directory w) ?k = Some (True, d)"
    "dir_inv (sw_cap w) (unat (chunk_count s)) d" "dir_map d = (dir_map (sw_directory w))(?k := None)"
    using directory.erase_law [OF dir_maps(3) [OF inv], of ?k] dir_maps(1) [OF inv xin] by auto
  have px: "unat (sw_slot_position w ! unat x) = p" using residents_nth(2) [OF R p(1)] p(2) by simp
  have len: "length ?ks = length ?ss" by (rule residents_nth(3) [OF R p(1)])
  have ne: "?ss \<noteq> []" "?ks \<noteq> []" using p(1) len by auto
  define ps where "ps = (sw_slot_position w)[unat (last ?ss) := sw_slot_position w ! unat x]"
  define w' where "w' = w\<lparr>sw_lru := l, sw_directory := d, sw_slot_position := ps,
     sw_resident_keys := swap_remove ?ks p, sw_resident_slots := swap_remove ?ss p\<rparr>"
  have lastlt: "unat (last ?ss) < sw_cap w" using resident_lt [OF inv] ne by simp
  have rel: "release_slot w x = Some w'"
    using l(1) d(1) xlt px p len ne lastlt columns_len [OF C]
    by (simp add: release_slot_def nth_opt_in upd_opt_def Let_def w'_def ps_def swap_remove_def last_conv_nth)
  have res: "residents_ok w' [x]" "set (sw_resident_slots w') = set ?ss - {x}"
    using residents_release [OF inv p(1), of d l] p(2) by (simp_all add: w'_def ps_def)
  have "directory_ok s w'"
    unfolding directory_ok_def
  proof (intro conjI ballI allI impI)
    show "dir_inv (sw_cap w') (unat (chunk_count s)) (sw_directory w')"
      using d(2) by (simp add: w'_def sw_cap_def)
  next
    fix y assume "y \<in> set (sw_resident_slots w')"
    then have y: "y \<in> set ?ss" "y \<noteq> x" using res(2) by auto
    then have "sw_slot_key w ! unat y \<noteq> ?k" using slot_keys_inj [OF inv _ xin] by blast
    then show "dir_map (sw_directory w') (sw_slot_key w' ! unat y) = Some y"
      using dir_maps(1) [OF inv y(1)] d(3) by (simp add: w'_def)
    show "key_value (sw_slot_key w' ! unat y) < chunk_count s"
      using inv_parts(5) [OF inv] y(1) by (simp add: directory_ok_def w'_def)
  next
    fix k y assume "dir_map (sw_directory w') k = Some y"
    then have y: "dir_map (sw_directory w) k = Some y" "k \<noteq> ?k"
      using d(3) by (auto simp: w'_def split: if_splits)
    note m = dir_maps(2) [OF inv y(1)]
    then have "y \<noteq> x" using y(2) by auto
    with m show "y \<in> set (sw_resident_slots w')" "sw_slot_key w' ! unat y = k"
      using res(2) by (simp_all add: w'_def)
  qed
  moreover have "columns_ok s fs w'" using C by (simp add: columns_ok_def w'_def ps_def sw_cap_def)
  moreover have "generations_ok w'"
    using inv_parts(6) [OF inv] res(2) by (simp add: generations_ok_def w'_def)
  moreover have "set (remove1 x xs) = set (sw_resident_slots w')"
    using res(2) inv_parts(8,9) [OF inv] by simp
  ultimately have "sparse_inv_held s fs w' (remove1 x xs) [x]"
    using inv_parts(1,2) [OF inv] l(2) res(1) by (simp add: sparse_inv_held_def w'_def sw_cap_def)
  with rel d(3) show ?thesis unfolding Let_def w'_def by blast
qed


subsection \<open>Acquiring and binding a slot\<close>

definition same_columns :: "'v sparse_world \<Rightarrow> 'v sparse_world \<Rightarrow> bool" where
  "same_columns w w' \<longleftrightarrow>
     sw_capacity w' = sw_capacity w \<and> sw_generation_clock w' = sw_generation_clock w \<and>
     sw_pages w' = sw_pages w \<and> sw_metadata w' = sw_metadata w \<and>
     sw_dirty_masks w' = sw_dirty_masks w \<and> sw_active_masks w' = sw_active_masks w \<and>
     sw_dirty_bounds w' = sw_dirty_bounds w \<and> sw_slot_key w' = sw_slot_key w \<and>
     sw_slot_generation w' = sw_slot_generation w"

lemma acquire_spec:
  assumes "sparse_inv s fs w xs"
  shows "\<exists>x w'. acquire_slot w = Some (x, w') \<and> same_columns w w'
    \<and> sparse_inv_held s fs w' (if length xs < sw_cap w then xs else tl xs) [x]
    \<and> (\<forall>k. dir_map (sw_directory w) k = None \<longrightarrow> dir_map (sw_directory w') k = None)"
proof -
  have inv: "sparse_inv_held s fs w xs []" using assms by (simp add: sparse_inv_def)
  have total: "length xs + length (sw_free_slots w) = sw_cap w"
    using slots_total [OF inv] lru_length [OF inv] by simp
  show ?thesis
  proof (cases "sw_free_slots w = []")
    case True
    then have len: "length xs = sw_cap w" using total by simp
    then have ne: "xs \<noteq> []" using inv_parts(1) [OF inv] by auto
    then obtain x ys where xs: "xs = x # ys" by (cases xs) auto
    have head: "lru_head (sw_lru w) = x" using inv_parts(7) [OF inv] xs by (simp add: lru_rep_def)
    have xin: "x \<in> set (sw_resident_slots w)" using xs inv_parts(8) [OF inv] by auto
    then have "sw_resident_slots w \<noteq> []" by auto
    moreover have "x \<noteq> npos" using find_not_npos [OF inv dir_maps(1) [OF inv xin]] .
    ultimately have acq: "acquire_slot w = map_option (\<lambda>w'. (x, w')) (release_slot w x)"
      using True head by (simp add: acquire_slot_def evict_least_recently_used_def Let_def)
    obtain l d ps ks ss w' where w': "w' = w\<lparr>sw_lru := l, sw_directory := d, sw_slot_position := ps,
            sw_resident_keys := ks, sw_resident_slots := ss\<rparr>"
      and rel: "release_slot w x = Some w'"
      and inv': "sparse_inv_held s fs w' (remove1 x xs) [x]"
      and d: "dir_map d = (dir_map (sw_directory w))(sw_slot_key w ! unat x := None)"
      using release_spec [OF inv, of x] xs unfolding Let_def by auto
    have "same_columns w w'" "sw_directory w' = d" by (simp_all add: same_columns_def w')
    moreover have "remove1 x xs = (if length xs < sw_cap w then xs else tl xs)" using xs len by simp
    ultimately show ?thesis using acq rel inv' d by (intro exI [of _ x] exI [of _ w']) simp
  next
    case False
    let ?x = "last (sw_free_slots w)" and ?w' = "w\<lparr>sw_free_slots := butlast (sw_free_slots w)\<rparr>"
    have split: "sw_free_slots w = butlast (sw_free_slots w) @ [?x]" using False by simp
    have "residents_ok ?w' [?x]"
      using inv_parts(4) [OF inv] split unfolding residents_ok_def by (simp add: sw_cap_def)
    then have "sparse_inv_held s fs ?w' xs [?x]"
      using inv by (simp add: sparse_inv_held_def columns_ok_def directory_ok_def generations_ok_def sw_cap_def)
    moreover have "length xs < sw_cap w" using total False by (cases "sw_free_slots w") auto
    moreover have "acquire_slot w = Some (?x, ?w')" using False by (simp add: acquire_slot_def)
    moreover have "same_columns w ?w'" by (simp add: same_columns_def)
    ultimately show ?thesis by (intro exI [of _ ?x] exI [of _ ?w']) simp
  qed
qed

lemma generation_inc_Some:
  assumes "residency_generation_inc c = Some g"
  shows "rg_value g \<noteq> 0" "rg_value c < rg_value g" "unat (rg_value g) = Suc (unat (rg_value c))"
proof -
  have g: "g = ResidencyGeneration (rg_value c + 1)" and ne: "rg_value c \<noteq> u64_max"
    using assms by (auto simp: residency_generation_inc_def split: if_splits)
  have "unat (rg_value c) \<noteq> 2 ^ 64 - 1" using ne by (simp add: word_unat_eq_iff)
  then have "unat (rg_value c) + 1 < 2 ^ 64" using u64_less [of "rg_value c"] by linarith
  then show v: "unat (rg_value g) = Suc (unat (rg_value c))" by (simp add: g unat_add_u64)
  then show "rg_value c < rg_value g" by (simp add: u64_less_nat)
  show "rg_value g \<noteq> 0" using v by (auto simp: word_unat_eq_iff)
qed

lemma bind_spec:
  assumes inv: "sparse_inv_held s fs w xs [x]" and k: "dir_map (sw_directory w) k = None" "sparse_contains s k"
    and g: "residency_generation_inc (sw_generation_clock w) = Some g"
  shows "\<exists>w'. bind_slot s fs k x w = Some (\<lparr>rh_key = k, rh_generation = g\<rparr>, w')
    \<and> sparse_inv s fs w' (xs @ [x])
    \<and> sw_capacity w' = sw_capacity w \<and> sw_generation_clock w' = g
    \<and> sw_slot_key w' = (sw_slot_key w)[unat x := k]
    \<and> sw_slot_generation w' = (sw_slot_generation w)[unat x := g]
    \<and> sw_pages w' = (sw_pages w)[unat x := new_page s fs k (chunk_coord_of_key s k)]
    \<and> sw_metadata w' = (sw_metadata w)[unat x := default_chunk_meta]
    \<and> sw_dirty_masks w' = (sw_dirty_masks w)[unat x := DirtyMask 0]"
proof -
  let ?ss = "sw_resident_slots w" and ?ks = "sw_resident_keys w"
  note R = inv_parts(4) [OF inv] and C = inv_parts(3) [OF inv]
  have Rd: "distinct (?ss @ sw_free_slots w @ [x])"
    and Rs: "set (?ss @ sw_free_slots w @ [x]) = {y. unat y < sw_cap w}"
    and Rl: "length ?ks = length ?ss"
    using R unfolding residents_ok_def by blast+
  have xlt: "unat x < sw_cap w" using Rs by auto
  have xnew: "x \<notin> set ?ss" using Rd by auto
  have xneq: "unat y \<noteq> unat x" if "y \<in> set ?ss" for y using that xnew by (metis word_unat_eq_iff)
  have xxs: "x \<notin> set xs" using xnew inv_parts(8) [OF inv] by simp
  obtain l where l: "lru_push_mru (sw_lru w) x = Some l" "lru_rep (sw_cap w) l (xs @ [x])"
    using lru_push [OF inv_parts(7) [OF inv] xlt xxs] by blast
  have room: "length ?ss < sw_cap w" using slots_total [OF inv] by simp
  have npos: "x \<noteq> npos" using xlt inv_parts(2) [OF inv] slot_not_npos [of "sw_cap w" x] by simp
  obtain d where d: "dir_insert (sw_directory w) k x = Some d"
    "dir_inv (sw_cap w) (unat (chunk_count s)) d" "dir_map d = (dir_map (sw_directory w))(k \<mapsto> x)"
    using directory.insert_law [OF dir_maps(3) [OF inv] k(1) npos] directory_card [OF inv] room k(2)
    by (auto simp: sparse_contains_def u64_less_nat)
  have poslen: "unat (of_nat (length ?ks) :: u64) = length ?ks"
  proof -
    have "length ?ks < 2 ^ 64" using room Rl inv_parts(2) [OF inv] by simp
    then show ?thesis by (simp add: unsigned_of_nat take_bit_nat_eq_self)
  qed
  have page: "page_reset fs (sw_pages w ! unat x) k (chunk_coord_of_key s k) = new_page s fs k (chunk_coord_of_key s k)"
    using C xlt by (intro page_reset_eq_new) (simp add: columns_ok_def)
  define w' where "w' = w\<lparr>sw_pages := (sw_pages w)[unat x := new_page s fs k (chunk_coord_of_key s k)],
     sw_metadata := (sw_metadata w)[unat x := default_chunk_meta],
     sw_dirty_masks := (sw_dirty_masks w)[unat x := DirtyMask 0],
     sw_active_masks := (sw_active_masks w)[unat x := ActiveMask 0],
     sw_dirty_bounds := (sw_dirty_bounds w)[unat x := default_box3],
     sw_slot_key := (sw_slot_key w)[unat x := k], sw_generation_clock := g,
     sw_slot_generation := (sw_slot_generation w)[unat x := g], sw_lru := l,
     sw_slot_position := (sw_slot_position w)[unat x := of_nat (length ?ks)],
     sw_resident_keys := ?ks @ [k], sw_resident_slots := ?ss @ [x], sw_directory := d\<rparr>"
  have bind: "bind_slot s fs k x w = Some (\<lparr>rh_key = k, rh_generation = g\<rparr>, w')"
    using xlt columns_len [OF C] l(1) d(1) g page
    by (simp add: bind_slot_def nth_opt_in upd_opt_def w'_def)
  have "columns_ok s fs w'"
    using C xlt by (simp add: columns_ok_def w'_def sw_cap_def nth_list_update page_ok_new)
  moreover have "residents_ok w' []"
    unfolding residents_ok_def
  proof (intro conjI allI impI)
    show "length (sw_resident_keys w') = length (sw_resident_slots w')" by (simp add: w'_def Rl)
    show "distinct (sw_resident_slots w' @ sw_free_slots w' @ [])" using Rd by (auto simp: w'_def)
    show "set (sw_resident_slots w' @ sw_free_slots w' @ []) = {y. unat y < sw_cap w'}"
      using Rs by (auto simp: w'_def sw_cap_def)
  next
    fix i assume i: "i < length (sw_resident_slots w')"
    have old: "sw_slot_key w ! unat (?ss ! i) = ?ks ! i" "unat (sw_slot_position w ! unat (?ss ! i)) = i"
      "unat (?ss ! i) \<noteq> unat x" if "i < length ?ss"
      using residents_nth [OF R that] xneq that by simp_all
    show "sw_slot_key w' ! unat (sw_resident_slots w' ! i) = sw_resident_keys w' ! i"
      using i old(1,3) xlt columns_len(6) [OF C] Rl
      by (cases "i < length ?ss") (auto simp: w'_def nth_append nth_list_update)
    show "unat (sw_slot_position w' ! unat (sw_resident_slots w' ! i)) = i"
      using i old(2,3) xlt columns_len(8) [OF C] Rl poslen
      by (cases "i < length ?ss") (auto simp: w'_def nth_append nth_list_update)
  qed
  moreover have "directory_ok s w'"
    unfolding directory_ok_def
  proof (intro conjI ballI allI impI)
    show "dir_inv (sw_cap w') (unat (chunk_count s)) (sw_directory w')"
      using d(2) by (simp add: w'_def sw_cap_def)
  next
    fix y assume y: "y \<in> set (sw_resident_slots w')"
    show "dir_map (sw_directory w') (sw_slot_key w' ! unat y) = Some y"
    proof (cases "y = x")
      case True
      then show ?thesis using xlt columns_len(6) [OF C] d(3) by (simp add: w'_def)
    next
      case False
      then have y': "y \<in> set ?ss" using y by (simp add: w'_def)
      have m: "dir_map (sw_directory w) (sw_slot_key w ! unat y) = Some y" by (rule dir_maps(1) [OF inv y'])
      then have "sw_slot_key w ! unat y \<noteq> k" using k(1) by auto
      with m show ?thesis using d(3) xneq [OF y'] by (simp add: w'_def)
    qed
    show "key_value (sw_slot_key w' ! unat y) < chunk_count s"
    proof (cases "y = x")
      case True
      then show ?thesis using k(2) xlt columns_len(6) [OF C] by (simp add: w'_def sparse_contains_def)
    next
      case False
      then have y': "y \<in> set ?ss" using y by (simp add: w'_def)
      then have "key_value (sw_slot_key w ! unat y) < chunk_count s"
        using inv_parts(5) [OF inv] unfolding directory_ok_def by blast
      with xneq [OF y'] show ?thesis by (simp add: w'_def)
    qed
  next
    fix k' y assume "dir_map (sw_directory w') k' = Some y"
    then have "k' = k \<and> y = x \<or> dir_map (sw_directory w) k' = Some y"
      using d(3) by (auto simp: w'_def split: if_splits)
    then have "y \<in> set (sw_resident_slots w') \<and> sw_slot_key w' ! unat y = k'"
    proof (elim disjE)
      assume "k' = k \<and> y = x"
      then show ?thesis using xlt columns_len(6) [OF C] by (simp add: w'_def)
    next
      assume "dir_map (sw_directory w) k' = Some y"
      note m = dir_maps(2) [OF inv this]
      then show ?thesis using xneq [of y] by (simp add: w'_def)
    qed
    then show "y \<in> set (sw_resident_slots w')" "sw_slot_key w' ! unat y = k'" by simp_all
  qed
  moreover have "generations_ok w'"
    unfolding generations_ok_def
  proof (intro ballI conjI)
    fix y assume y: "y \<in> set (sw_resident_slots w')"
    have "rg_value (sw_slot_generation w' ! unat y) \<noteq> 0 \<and>
        rg_value (sw_slot_generation w' ! unat y) \<le> rg_value g"
    proof (cases "y = x")
      case True
      then show ?thesis using generation_inc_Some(1) [OF g] xlt columns_len(7) [OF C] by (simp add: w'_def)
    next
      case False
      then have y': "y \<in> set ?ss" using y by (simp add: w'_def)
      then have "rg_value (sw_slot_generation w ! unat y) \<noteq> 0"
        "rg_value (sw_slot_generation w ! unat y) \<le> rg_value (sw_generation_clock w)"
        using inv_parts(6) [OF inv] by (simp_all add: generations_ok_def)
      with generation_inc_Some(2) [OF g] xneq [OF y'] show ?thesis by (simp add: w'_def)
    qed
    then show "rg_value (sw_slot_generation w' ! unat y) \<noteq> 0"
      "rg_value (sw_slot_generation w' ! unat y) \<le> rg_value (sw_generation_clock w')"
      by (simp_all add: w'_def)
  qed
  moreover have "set (xs @ [x]) = set (sw_resident_slots w')"
    using inv_parts(8) [OF inv] by (simp add: w'_def)
  ultimately have "sparse_inv s fs w' (xs @ [x])"
    using inv_parts(1,2) [OF inv] l(2) by (simp add: sparse_inv_def sparse_inv_held_def w'_def sw_cap_def)
  with bind show ?thesis by (intro exI [of _ w']) (simp add: w'_def)
qed


subsection \<open>Refinement of the LRU specification\<close>

lemma map_of_inj:
  "inj_on f (set xs) \<Longrightarrow> x \<in> set xs \<Longrightarrow> map_of (map (\<lambda>x. (f x, g x)) xs) (f x) = Some (g x)"
  by (induction xs) (auto simp: inj_on_def)

lemma drop_key_inj:
  "inj_on f (set xs) \<Longrightarrow> x \<in> set xs \<Longrightarrow>
   drop_key (f x) (map (\<lambda>x. (f x, g x)) xs) = map (\<lambda>x. (f x, g x)) (remove1 x xs)"
  by (induction xs) (auto simp: inj_on_def)

lemma abs_lookup:
  assumes "sparse_inv_held s fs w xs held"
  shows "map_of (rs_resident (sparse_abs w xs)) k =
     map_option (\<lambda>x. sw_slot_generation w ! unat x) (dir_map (sw_directory w) k)"
proof (cases "dir_map (sw_directory w) k")
  case None
  have "k \<noteq> sw_slot_key w ! unat x" if "x \<in> set xs" for x
    using dir_maps(1) [OF assms, of x] inv_parts(8) [OF assms] that None by auto
  then have "k \<notin> (\<lambda>x. sw_slot_key w ! unat x) ` set xs" by blast
  then have "map_of (rs_resident (sparse_abs w xs)) k = None"
    by (simp add: sparse_abs_def map_of_eq_None_iff image_image)
  with None show ?thesis by simp
next
  case (Some x)
  note m = dir_maps(2) [OF assms Some]
  have "inj_on (\<lambda>x. sw_slot_key w ! unat x) (set xs)"
    using slot_keys_inj [OF assms] inv_parts(8) [OF assms] by (auto intro: inj_onI)
  from map_of_inj [OF this, of x "\<lambda>x. sw_slot_generation w ! unat x"] m inv_parts(8) [OF assms] Some
  show ?thesis by (simp add: sparse_abs_def)
qed

lemma abs_drop:
  assumes "sparse_inv_held s fs w xs held" "dir_map (sw_directory w) k = Some x"
  shows "drop_key k (rs_resident (sparse_abs w xs)) = rs_resident (sparse_abs w (remove1 x xs))"
proof -
  note m = dir_maps(2) [OF assms]
  have "inj_on (\<lambda>x. sw_slot_key w ! unat x) (set xs)"
    using slot_keys_inj [OF assms(1)] inv_parts(8) [OF assms(1)] by (auto intro: inj_onI)
  from drop_key_inj [OF this, of x "\<lambda>x. sw_slot_generation w ! unat x"] m inv_parts(8) [OF assms(1)]
  show ?thesis by (simp add: sparse_abs_def)
qed

lemma move_inv:
  assumes "sparse_inv s fs w xs" "dir_map (sw_directory w) k = Some x"
  shows "\<exists>l. lru_move_to_mru (sw_lru w) x = Some l
    \<and> sparse_inv s fs (w\<lparr>sw_lru := l\<rparr>) (remove1 x xs @ [x])
    \<and> sparse_abs (w\<lparr>sw_lru := l\<rparr>) (remove1 x xs @ [x]) =
        (sparse_abs w xs)\<lparr>rs_resident := drop_key k (rs_resident (sparse_abs w xs)) @ [(k, sw_slot_generation w ! unat x)]\<rparr>"
proof -
  have inv: "sparse_inv_held s fs w xs []" using assms(1) by (simp add: sparse_inv_def)
  have x: "x \<in> set xs" "sw_slot_key w ! unat x = k"
    using dir_maps(2) [OF inv assms(2)] inv_parts(8) [OF inv] by simp_all
  obtain l where l: "lru_move_to_mru (sw_lru w) x = Some l" "lru_rep (sw_cap w) l (remove1 x xs @ [x])"
    using lru_touch [OF inv_parts(7) [OF inv] x(1)] by blast
  have "set (remove1 x xs @ [x]) = set xs" using x(1) inv_parts(9) [OF inv] by auto
  then have "sparse_inv s fs (w\<lparr>sw_lru := l\<rparr>) (remove1 x xs @ [x])"
    using inv l(2) unfolding sparse_inv_def sparse_inv_held_def columns_ok_def residents_ok_def
      directory_ok_def generations_ok_def sw_cap_def by simp
  moreover have "sparse_abs (w\<lparr>sw_lru := l\<rparr>) (remove1 x xs @ [x]) =
        (sparse_abs w xs)\<lparr>rs_resident := drop_key k (rs_resident (sparse_abs w xs)) @ [(k, sw_slot_generation w ! unat x)]\<rparr>"
    unfolding abs_drop [OF inv assms(2)] by (simp add: sparse_abs_def sw_cap_def x(2))
  ultimately show ?thesis using l(1) by blast
qed

lemma touch_refines:
  assumes "sparse_inv s fs w xs"
  shows "\<exists>b w' xs'. sparse_touch w k = Some (b, w') \<and> sparse_inv s fs w' xs'
    \<and> spec_touch k (sparse_abs w xs) = (b, sparse_abs w' xs')"
proof -
  have inv: "sparse_inv_held s fs w xs []" using assms by (simp add: sparse_inv_def)
  show ?thesis
  proof (cases "dir_map (sw_directory w) k")
    case None
    then show ?thesis using assms find_slot [OF inv, of k] abs_lookup [OF inv, of k]
      by (intro exI [of _ False] exI [of _ w] exI [of _ xs]) (simp add: sparse_touch_def spec_touch_def)
  next
    case (Some x)
    then show ?thesis
      using move_inv [OF assms Some] find_slot [OF inv, of k] find_not_npos [OF inv Some] abs_lookup [OF inv, of k]
      by (fastforce simp: sparse_touch_def spec_touch_def)
  qed
qed

lemma evict_refines:
  assumes "sparse_inv s fs w xs"
  shows "\<exists>b w' xs'. sparse_evict w k = Some (b, w') \<and> sparse_inv s fs w' xs'
    \<and> spec_evict k (sparse_abs w xs) = (b, sparse_abs w' xs')"
proof -
  have inv: "sparse_inv_held s fs w xs []" using assms by (simp add: sparse_inv_def)
  show ?thesis
  proof (cases "dir_map (sw_directory w) k")
    case None
    then show ?thesis using assms find_slot [OF inv, of k] abs_lookup [OF inv, of k]
      by (intro exI [of _ False] exI [of _ w] exI [of _ xs]) (simp add: sparse_evict_def spec_evict_def)
  next
    case (Some x)
    have x: "x \<in> set xs" using dir_maps(2) [OF inv Some] inv_parts(8) [OF inv] by simp
    obtain l d ps ks ss w1 where w1: "w1 = w\<lparr>sw_lru := l, sw_directory := d, sw_slot_position := ps,
            sw_resident_keys := ks, sw_resident_slots := ss\<rparr>"
      and rel: "release_slot w x = Some w1" and inv1: "sparse_inv_held s fs w1 (remove1 x xs) [x]"
      using release_spec [OF inv x] unfolding Let_def by blast
    let ?w' = "w1\<lparr>sw_free_slots := sw_free_slots w1 @ [x]\<rparr>"
    have "residents_ok ?w' []"
      using inv_parts(4) [OF inv1] unfolding residents_ok_def by (simp add: sw_cap_def)
    then have "sparse_inv s fs ?w' (remove1 x xs)"
      using inv1 by (simp add: sparse_inv_def sparse_inv_held_def columns_ok_def directory_ok_def
          generations_ok_def sw_cap_def)
    moreover have "sparse_evict w k = Some (True, ?w')"
      using find_slot [OF inv, of k] find_not_npos [OF inv Some] Some rel by (simp add: sparse_evict_def)
    moreover have "spec_evict k (sparse_abs w xs) = (True, sparse_abs ?w' (remove1 x xs))"
      using abs_lookup [OF inv, of k] Some abs_drop [OF inv Some]
      by (simp add: spec_evict_def sparse_abs_def w1 sw_cap_def)
    ultimately show ?thesis by blast
  qed
qed

lemma bind_none: "residency_generation_inc (sw_generation_clock w) = None \<Longrightarrow> bind_slot s fs k x w = None"
  by (simp add: bind_slot_def bind_eq_None_conv)

lemma ensure_new:
  assumes "sparse_inv s fs w xs" "sparse_contains s k" "dir_map (sw_directory w) k = None"
    "residency_generation_inc (sw_generation_clock w) = Some g"
  shows "\<exists>x w' xs'. ensure_resident s fs w k = Some (\<lparr>rh_key = k, rh_generation = g\<rparr>, w')
    \<and> sparse_inv s fs w' (xs' @ [x]) \<and> xs' = (if length xs < sw_cap w then xs else tl xs) \<and> x \<notin> set xs'
    \<and> unat x < sw_cap w \<and> sw_capacity w' = sw_capacity w \<and> sw_generation_clock w' = g
    \<and> sw_slot_key w' = (sw_slot_key w)[unat x := k]
    \<and> sw_slot_generation w' = (sw_slot_generation w)[unat x := g]
    \<and> sw_pages w' = (sw_pages w)[unat x := new_page s fs k (chunk_coord_of_key s k)]
    \<and> sw_metadata w' = (sw_metadata w)[unat x := default_chunk_meta]
    \<and> sw_dirty_masks w' = (sw_dirty_masks w)[unat x := DirtyMask 0]"
proof -
  have inv: "sparse_inv_held s fs w xs []" using assms(1) by (simp add: sparse_inv_def)
  let ?xs = "if length xs < sw_cap w then xs else tl xs"
  obtain x w1 where acq: "acquire_slot w = Some (x, w1)" and same: "same_columns w w1"
    and inv1: "sparse_inv_held s fs w1 ?xs [x]" and free: "dir_map (sw_directory w1) k = None"
    using acquire_spec [OF assms(1)] assms(3) by blast
  have clock: "residency_generation_inc (sw_generation_clock w1) = Some g"
    using assms(4) same by (simp add: same_columns_def)
  obtain w' where b: "bind_slot s fs k x w1 = Some (\<lparr>rh_key = k, rh_generation = g\<rparr>, w')"
    "sparse_inv s fs w' (?xs @ [x])" "sw_capacity w' = sw_capacity w1" "sw_generation_clock w' = g"
    "sw_slot_key w' = (sw_slot_key w1)[unat x := k]"
    "sw_slot_generation w' = (sw_slot_generation w1)[unat x := g]"
    "sw_pages w' = (sw_pages w1)[unat x := new_page s fs k (chunk_coord_of_key s k)]"
    "sw_metadata w' = (sw_metadata w1)[unat x := default_chunk_meta]"
    "sw_dirty_masks w' = (sw_dirty_masks w1)[unat x := DirtyMask 0]"
    using bind_spec [OF inv1 free assms(2) clock] by blast
  have "distinct (?xs @ [x])" "unat x < sw_cap w'"
    using b(2) resident_lt [of s fs w' "?xs @ [x]" "[]" x] inv_parts(8,9) [of s fs w' "?xs @ [x]" "[]"]
    by (auto simp: sparse_inv_def)
  moreover have "sw_cap w' = sw_cap w" using b(3) same by (simp add: sw_cap_def same_columns_def)
  moreover have "ensure_resident s fs w k = Some (\<lparr>rh_key = k, rh_generation = g\<rparr>, w')"
    using acq b(1) find_slot [OF inv, of k] assms(2,3) by (simp add: ensure_resident_def)
  ultimately show ?thesis using b(2-9) same
    by (intro exI [of _ x] exI [of _ w'] exI [of _ ?xs]) (simp add: same_columns_def)
qed

lemma ensure_refines:
  assumes "sparse_inv s fs w xs"
  shows "(case ensure_resident s fs w k of
       None \<Rightarrow> spec_ensure s k (sparse_abs w xs) = None
     | Some (h, w') \<Rightarrow> \<exists>xs'. sparse_inv s fs w' xs' \<and> spec_ensure s k (sparse_abs w xs) = Some (h, sparse_abs w' xs'))"
proof -
  have inv: "sparse_inv_held s fs w xs []" using assms by (simp add: sparse_inv_def)
  consider "\<not> sparse_contains s k"
    | x where "sparse_contains s k" "dir_map (sw_directory w) k = Some x"
    | "sparse_contains s k" "dir_map (sw_directory w) k = None" "residency_generation_inc (sw_generation_clock w) = None"
    | g where "sparse_contains s k" "dir_map (sw_directory w) k = None"
        "residency_generation_inc (sw_generation_clock w) = Some g"
    by (cases "dir_map (sw_directory w) k"; cases "residency_generation_inc (sw_generation_clock w)") auto
  then show ?thesis
  proof cases
    case 1
    then show ?thesis using assms by (auto simp: ensure_resident_def spec_ensure_def)
  next
    case (2 x)
    obtain l where l: "lru_move_to_mru (sw_lru w) x = Some l"
      "sparse_inv s fs (w\<lparr>sw_lru := l\<rparr>) (remove1 x xs @ [x])"
      "sparse_abs (w\<lparr>sw_lru := l\<rparr>) (remove1 x xs @ [x]) =
        (sparse_abs w xs)\<lparr>rs_resident := drop_key k (rs_resident (sparse_abs w xs)) @ [(k, sw_slot_generation w ! unat x)]\<rparr>"
      using move_inv [OF assms 2(2)] by blast
    have "unat x < length (sw_slot_generation w)"
      using resident_lt [OF inv] dir_maps(2) [OF inv 2(2)] columns_len(7) [OF inv_parts(3) [OF inv]] by simp
    then have "ensure_resident s fs w k = Some (\<lparr>rh_key = k, rh_generation = sw_slot_generation w ! unat x\<rparr>, w\<lparr>sw_lru := l\<rparr>)"
      using 2 l(1) find_slot [OF inv, of k] find_not_npos [OF inv 2(2)]
      by (simp add: ensure_resident_def nth_opt_in)
    then show ?thesis using 2 l(2,3) abs_lookup [OF inv, of k] by (auto simp: spec_ensure_def)
  next
    case 3
    obtain x w1 where "acquire_slot w = Some (x, w1)" "same_columns w w1"
      using acquire_spec [OF assms] by blast
    then have "ensure_resident s fs w k = None"
      using 3 find_slot [OF inv, of k] bind_none [of w1] by (simp add: ensure_resident_def same_columns_def)
    moreover have "spec_ensure s k (sparse_abs w xs) = None"
      using 3 abs_lookup [OF inv, of k] by (simp add: spec_ensure_def sparse_abs_def)
    ultimately show ?thesis by simp
  next
    case (4 g)
    obtain x w' xs' where e: "ensure_resident s fs w k = Some (\<lparr>rh_key = k, rh_generation = g\<rparr>, w')"
      "sparse_inv s fs w' (xs' @ [x])" "x \<notin> set xs'" "unat x < sw_cap w" "sw_capacity w' = sw_capacity w"
      "sw_generation_clock w' = g" "sw_slot_key w' = (sw_slot_key w)[unat x := k]"
      "sw_slot_generation w' = (sw_slot_generation w)[unat x := g]"
      and xs': "xs' = (if length xs < sw_cap w then xs else tl xs)"
      using ensure_new [OF assms 4] by blast
    note C = inv_parts(3) [OF inv]
    have ne: "unat y \<noteq> unat x" if "y \<in> set xs'" for y using that e(3) by (metis word_unat_eq_iff)
    have "map (\<lambda>y. (sw_slot_key w' ! unat y, sw_slot_generation w' ! unat y)) xs'
        = map (\<lambda>y. (sw_slot_key w ! unat y, sw_slot_generation w ! unat y)) xs'"
    proof (rule map_cong [OF refl])
      fix y assume "y \<in> set xs'"
      from ne [OF this] show "(sw_slot_key w' ! unat y, sw_slot_generation w' ! unat y)
          = (sw_slot_key w ! unat y, sw_slot_generation w ! unat y)" by (simp add: e(7,8))
    qed
    then have "sparse_abs w' (xs' @ [x]) = \<lparr>rs_capacity = sw_cap w,
        rs_resident = map (\<lambda>y. (sw_slot_key w ! unat y, sw_slot_generation w ! unat y)) xs' @ [(k, g)], rs_clock = g\<rparr>"
      using e(4-8) columns_len(6,7) [OF C] by (simp add: sparse_abs_def sw_cap_def)
    moreover have "spec_ensure s k (sparse_abs w xs) = Some (\<lparr>rh_key = k, rh_generation = g\<rparr>,
      \<lparr>rs_capacity = sw_cap w,
        rs_resident = map (\<lambda>y. (sw_slot_key w ! unat y, sw_slot_generation w ! unat y)) xs' @ [(k, g)], rs_clock = g\<rparr>)"
      using 4 abs_lookup [OF inv, of k] by (simp add: spec_ensure_def sparse_abs_def map_tl xs')
    ultimately show ?thesis using e(1,2) by auto
  qed
qed


subsection \<open>Construction\<close>

lemma sparse_new_inv:
  assumes "unat (clamp_capacity page_byte_size byte_budget) \<le> 2 ^ 62"
  shows "\<exists>w. sparse_new page_byte_size s fs byte_budget = Some w \<and> sparse_inv s fs w []
    \<and> sparse_abs w [] = \<lparr>rs_capacity = unat (clamp_capacity page_byte_size byte_budget), rs_resident = [],
                           rs_clock = ResidencyGeneration 0\<rparr>"
proof -
  let ?c = "clamp_capacity page_byte_size byte_budget"
  let ?n = "unat ?c"
  obtain d where d: "dir_reset ?c (chunk_count s) = Some d" "dir_inv ?n (unat (chunk_count s)) d" "dir_map d = Map.empty"
    using dir_reset_spec [OF assms] by blast
  obtain w where w: "sparse_new page_byte_size s fs byte_budget = Some w"
    and f: "sw_capacity w = ?c" "sw_generation_clock w = ResidencyGeneration 0"
      "sw_pages w = replicate ?n (new_page s fs (ChunkKey 0) \<lparr>cc_x = 0, cc_y = 0, cc_z = 0\<rparr>)"
      "sw_metadata w = replicate ?n default_chunk_meta" "sw_dirty_masks w = replicate ?n (DirtyMask 0)"
      "sw_active_masks w = replicate ?n (ActiveMask 0)" "sw_dirty_bounds w = replicate ?n default_box3"
      "sw_slot_key w = replicate ?n (ChunkKey 0)" "sw_slot_generation w = replicate ?n (ResidencyGeneration 0)"
      "sw_lru w = lru_new ?n" "sw_slot_position w = replicate ?n 0" "sw_resident_keys w = []"
      "sw_resident_slots w = []" "sw_free_slots w = rev (map of_nat [0..<?n])" "sw_directory w = d"
    using d(1) by (simp add: sparse_new_def Let_def)
  have pos: "0 < ?n"
  proof -
    have "\<not> v < 1 \<Longrightarrow> 0 < unat v" for v :: u64 by (simp add: u64_less_nat)
    then show ?thesis by (simp add: clamp_capacity_def Let_def)
  qed
  have of: "unat (of_nat i :: u64) = i" if "i < ?n" for i
    using that assms by (simp add: unsigned_of_nat take_bit_nat_eq_self)
  have "distinct (map (of_nat :: nat \<Rightarrow> u64) [0..<?n])"
    unfolding distinct_map by (intro conjI inj_onI distinct_upt) (metis of atLeastLessThan_upt atLeastLessThan_iff)
  moreover have "set (map (of_nat :: nat \<Rightarrow> u64) [0..<?n]) = {x. unat x < ?n}"
  proof (rule set_eqI)
    fix x :: u64
    have "x \<in> set (map of_nat [0..<?n])" if "unat x < ?n"
      using that by (auto intro!: image_eqI [of _ _ "unat x"])
    then show "x \<in> set (map of_nat [0..<?n]) \<longleftrightarrow> x \<in> {x. unat x < ?n}" using of by auto
  qed
  ultimately have "residents_ok w []" by (simp add: residents_ok_def f sw_cap_def)
  moreover have "columns_ok s fs w" by (simp add: columns_ok_def f sw_cap_def page_ok_new)
  moreover have "directory_ok s w" using d(2,3) by (simp add: directory_ok_def f sw_cap_def)
  moreover have "generations_ok w" by (simp add: generations_ok_def f)
  moreover have "lru_rep (sw_cap w) (sw_lru w) []" using assms by (simp add: f sw_cap_def lru_rep_new)
  ultimately have "sparse_inv s fs w []"
    using pos assms by (simp add: sparse_inv_def sparse_inv_held_def f sw_cap_def)
  with w show ?thesis by (auto simp: sparse_abs_def f sw_cap_def)
qed

subsection \<open>Data and metadata calls leave residency alone\<close>

definition sparse_dirty_call :: "chunk_key \<Rightarrow> dirty_call \<Rightarrow> 'v sparse_world \<Rightarrow> 'v sparse_world option" where
  "sparse_dirty_call k c w =
     (case c of
        MarkDirty m b \<Rightarrow> sparse_mark_dirty w k m b
      | MarkContentChanged \<Rightarrow> sparse_mark_content_changed w k
      | ClearDirty m \<Rightarrow> sparse_clear_dirty w k m
      | ClearDirtyObserved obs g \<Rightarrow>
          (if get_residency_generation w k = Some g
           then map_option snd (sparse_clear_dirty_observed w k obs) else None))"

lemma metadata_update_inv:
  assumes "sparse_inv s fs w xs" "length ds = length (sw_dirty_masks w)" "length bs = length (sw_dirty_bounds w)"
    "length ms = length (sw_metadata w)"
  shows "sparse_inv s fs (w\<lparr>sw_dirty_masks := ds, sw_dirty_bounds := bs, sw_metadata := ms\<rparr>) xs
    \<and> sparse_abs (w\<lparr>sw_dirty_masks := ds, sw_dirty_bounds := bs, sw_metadata := ms\<rparr>) xs = sparse_abs w xs"
  using assms unfolding sparse_inv_def sparse_inv_held_def columns_ok_def residents_ok_def directory_ok_def
    generations_ok_def sparse_abs_def sw_cap_def by simp

lemma sparse_dirty_call_update:
  "sparse_dirty_call k c w = Some w' \<Longrightarrow>
   \<exists>ds bs ms. w' = w\<lparr>sw_dirty_masks := ds, sw_dirty_bounds := bs, sw_metadata := ms\<rparr>
     \<and> length ds = length (sw_dirty_masks w) \<and> length bs = length (sw_dirty_bounds w)
     \<and> length ms = length (sw_metadata w)"
proof (cases c)
  case (MarkDirty m b)
  assume "sparse_dirty_call k c w = Some w'"
  with MarkDirty show ?thesis
    by (clarsimp simp: sparse_dirty_call_def sparse_mark_dirty_def bind_eq_Some_conv split: prod.splits) fastforce
next
  case MarkContentChanged
  assume "sparse_dirty_call k c w = Some w'"
  then obtain ms where "w' = w\<lparr>sw_metadata := ms\<rparr>" "length ms = length (sw_metadata w)"
    using MarkContentChanged
    by (auto simp: sparse_dirty_call_def sparse_mark_content_changed_def bind_eq_Some_conv)
  then show ?thesis
    by (intro exI [of _ "sw_dirty_masks w"] exI [of _ "sw_dirty_bounds w"] exI [of _ ms]) simp
next
  case (ClearDirty m)
  assume "sparse_dirty_call k c w = Some w'"
  then obtain ds bs where "w' = w\<lparr>sw_dirty_masks := ds, sw_dirty_bounds := bs\<rparr>"
    "length ds = length (sw_dirty_masks w)" "length bs = length (sw_dirty_bounds w)"
    using ClearDirty
    by (auto simp: sparse_dirty_call_def sparse_clear_dirty_def bind_eq_Some_conv case_prod_beta)
  then show ?thesis by (intro exI [of _ ds] exI [of _ bs] exI [of _ "sw_metadata w"]) simp
next
  case (ClearDirtyObserved obs g)
  assume "sparse_dirty_call k c w = Some w'"
  then obtain ds bs where "w' = w\<lparr>sw_dirty_masks := ds, sw_dirty_bounds := bs\<rparr>"
    "length ds = length (sw_dirty_masks w)" "length bs = length (sw_dirty_bounds w)"
    using ClearDirtyObserved
    by (auto simp: sparse_dirty_call_def sparse_clear_dirty_observed_def bind_eq_Some_conv case_prod_beta split: if_splits)
  then show ?thesis by (intro exI [of _ ds] exI [of _ bs] exI [of _ "sw_metadata w"]) simp
qed

lemma sparse_dirty_call_inv:
  "sparse_inv s fs w xs \<Longrightarrow> sparse_dirty_call k c w = Some w' \<Longrightarrow>
   sparse_inv s fs w' xs \<and> sparse_abs w' xs = sparse_abs w xs"
  by (drule sparse_dirty_call_update) (auto dest: metadata_update_inv)

lemma sparse_write_inv:
  assumes "sparse_inv s fs w xs" "sparse_write_field s fs t w c v = Some w'"
  shows "sparse_inv s fs w' xs \<and> sparse_abs w' xs = sparse_abs w xs"
proof -
  obtain r where r: "sparse_resolve s c = Some r"
    using assms(2) by (cases "sparse_resolve s c") (simp_all add: sparse_write_field_def)
  obtain sl where sl: "resident_slot_checked w (rt_chunk_key r) = Some sl"
    using assms(2) r by (cases "resident_slot_checked w (rt_chunk_key r)") (simp_all add: sparse_write_field_def)
  have lt: "unat sl < length (sw_pages w)"
    using assms(2) r sl by (simp add: sparse_write_field_def nth_opt_def split: if_splits)
  obtain p' where p': "page_write fs t (sw_pages w ! unat sl) (rt_local_tile_id r) v = Some p'"
    using assms(2) r sl lt
    by (cases "page_write fs t (sw_pages w ! unat sl) (rt_local_tile_id r) v")
       (simp_all add: sparse_write_field_def nth_opt_in)
  have w': "w' = w\<lparr>sw_pages := (sw_pages w)[unat sl := p']\<rparr>"
    using assms(2) r sl lt p' by (simp add: sparse_write_field_def nth_opt_in)
  have "columns_ok s fs w" using assms(1) by (simp add: sparse_inv_def sparse_inv_held_def)
  then have "columns_ok s fs w'"
    using page_write_ok [OF p'] lt by (simp add: columns_ok_def sw_cap_def nth_list_update w')
  then show ?thesis
    using assms(1) unfolding sparse_inv_def sparse_inv_held_def residents_ok_def directory_ok_def
      generations_ok_def sparse_abs_def sw_cap_def by (simp add: w')
qed

subsection \<open>Runs\<close>

datatype ('t, 'v) sparse_op =
    Ensure chunk_key
  | Touch chunk_key
  | Evict chunk_key
  | OnChunk chunk_key dirty_call
  | WriteTile 't coord3 'v

datatype residency_result = Handle residency_handle | Flag bool | Done

fun sparse_step :: "shape \<Rightarrow> ('t, 'v) schema \<Rightarrow> ('t, 'v) sparse_op \<Rightarrow> 'v sparse_world
    \<Rightarrow> (residency_result \<times> 'v sparse_world) option" where
  "sparse_step s fs (Ensure k) w = map_option (\<lambda>(h, w'). (Handle h, w')) (ensure_resident s fs w k)"
| "sparse_step s fs (Touch k) w = map_option (\<lambda>(b, w'). (Flag b, w')) (sparse_touch w k)"
| "sparse_step s fs (Evict k) w = map_option (\<lambda>(b, w'). (Flag b, w')) (sparse_evict w k)"
| "sparse_step s fs (OnChunk k c) w = map_option (\<lambda>w'. (Done, w')) (sparse_dirty_call k c w)"
| "sparse_step s fs (WriteTile t c v) w = map_option (\<lambda>w'. (Done, w')) (sparse_write_field s fs t w c v)"

fun sparse_run :: "shape \<Rightarrow> ('t, 'v) schema \<Rightarrow> ('t, 'v) sparse_op list \<Rightarrow> 'v sparse_world
    \<Rightarrow> (residency_result list \<times> 'v sparse_world) option" where
  "sparse_run s fs [] w = Some ([], w)"
| "sparse_run s fs (c # cs) w = do {
     (r, w') \<leftarrow> sparse_step s fs c w;
     (rs, w'') \<leftarrow> sparse_run s fs cs w';
     Some (r # rs, w'')
   }"

text \<open>The same calls on the specification; data and metadata calls do not concern residency.\<close>

fun spec_step :: "shape \<Rightarrow> ('t, 'v) sparse_op \<Rightarrow> residency_spec \<Rightarrow> (residency_result \<times> residency_spec) option" where
  "spec_step s (Ensure k) r = map_option (\<lambda>(h, r'). (Handle h, r')) (spec_ensure s k r)"
| "spec_step s (Touch k) r = (case spec_touch k r of (b, r') \<Rightarrow> Some (Flag b, r'))"
| "spec_step s (Evict k) r = (case spec_evict k r of (b, r') \<Rightarrow> Some (Flag b, r'))"
| "spec_step s _ r = Some (Done, r)"

fun spec_run :: "shape \<Rightarrow> ('t, 'v) sparse_op list \<Rightarrow> residency_spec \<Rightarrow> (residency_result list \<times> residency_spec) option" where
  "spec_run s [] r = Some ([], r)"
| "spec_run s (c # cs) r = do {
     (x, r') \<leftarrow> spec_step s c r;
     (xs, r'') \<leftarrow> spec_run s cs r';
     Some (x # xs, r'')
   }"

fun residency_only :: "('t, 'v) sparse_op \<Rightarrow> bool" where
  "residency_only (OnChunk k c) \<longleftrightarrow> False"
| "residency_only (WriteTile t c v) \<longleftrightarrow> False"
| "residency_only _ \<longleftrightarrow> True"

lemma sparse_step_refines:
  assumes "sparse_inv s fs w xs" "sparse_step s fs c w = Some (r, w')"
  shows "\<exists>xs'. sparse_inv s fs w' xs' \<and> spec_step s c (sparse_abs w xs) = Some (r, sparse_abs w' xs')"
proof (cases c)
  case (Ensure k)
  then show ?thesis using ensure_refines [OF assms(1), of k] assms(2) by (auto split: option.splits)
next
  case (Touch k)
  then show ?thesis using touch_refines [OF assms(1), of k] assms(2) by auto
next
  case (Evict k)
  then show ?thesis using evict_refines [OF assms(1), of k] assms(2) by auto
next
  case (OnChunk k d)
  then show ?thesis using sparse_dirty_call_inv [OF assms(1), of k d w'] assms(2) by auto
next
  case (WriteTile t co v)
  then show ?thesis using sparse_write_inv [OF assms(1), of t co v w'] assms(2) by auto
qed

lemma sparse_run_refines:
  "sparse_inv s fs w xs \<Longrightarrow> sparse_run s fs cs w = Some (rs, w') \<Longrightarrow>
   \<exists>xs'. sparse_inv s fs w' xs' \<and> spec_run s cs (sparse_abs w xs) = Some (rs, sparse_abs w' xs')"
proof (induction cs arbitrary: w xs rs)
  case (Cons c cs)
  from Cons.prems(2) obtain r w1 rs1 where st: "sparse_step s fs c w = Some (r, w1)"
    "sparse_run s fs cs w1 = Some (rs1, w')" "rs = r # rs1"
    by (auto simp: bind_eq_Some_conv)
  obtain xs1 where x1: "sparse_inv s fs w1 xs1" "spec_step s c (sparse_abs w xs) = Some (r, sparse_abs w1 xs1)"
    using sparse_step_refines [OF Cons.prems(1) st(1)] by blast
  from Cons.IH [OF x1(1) st(2)] x1(2) st(3) show ?case by auto
qed auto

lemma sparse_run_defined:
  "sparse_inv s fs w xs \<Longrightarrow> list_all residency_only cs \<Longrightarrow>
   sparse_run s fs cs w = None \<longleftrightarrow> spec_run s cs (sparse_abs w xs) = None"
proof (induction cs arbitrary: w xs)
  case (Cons c cs)
  have step: "sparse_step s fs c w = None \<longleftrightarrow> spec_step s c (sparse_abs w xs) = None"
  proof (cases c)
    case (Ensure k)
    then show ?thesis using ensure_refines [OF Cons.prems(1), of k] by (auto split: option.splits)
  next
    case (Touch k)
    then show ?thesis using touch_refines [OF Cons.prems(1), of k] by auto
  next
    case (Evict k)
    then show ?thesis using evict_refines [OF Cons.prems(1), of k] by auto
  qed (use Cons.prems(2) in auto)
  show ?case
  proof (cases "sparse_step s fs c w")
    case None
    then show ?thesis using step by simp
  next
    case (Some rw)
    obtain r w1 where rw: "rw = (r, w1)" by (cases rw)
    obtain xs1 where x1: "sparse_inv s fs w1 xs1" "spec_step s c (sparse_abs w xs) = Some (r, sparse_abs w1 xs1)"
      using sparse_step_refines [OF Cons.prems(1)] Some rw by blast
    have "sparse_run s fs cs w1 = None \<longleftrightarrow> spec_run s cs (sparse_abs w1 xs1) = None"
      using Cons.IH [OF x1(1)] Cons.prems(2) by simp
    then show ?thesis using Some rw x1(2)
      by (cases "sparse_run s fs cs w1"; cases "spec_run s cs (sparse_abs w1 xs1)") auto
  qed
qed simp


lemma sparse_run_exists:
  assumes "sparse_inv s fs w xs" "list_all residency_only cs" "spec_run s cs (sparse_abs w xs) = Some (rs, r')"
  shows "\<exists>w' xs'. sparse_run s fs cs w = Some (rs, w') \<and> sparse_inv s fs w' xs' \<and> sparse_abs w' xs' = r'"
proof (cases "sparse_run s fs cs w")
  case None
  with sparse_run_defined [OF assms(1,2)] assms(3) show ?thesis by simp
next
  case (Some x)
  obtain rs1 w' where x: "x = (rs1, w')" by (cases x)
  with sparse_run_refines [OF assms(1)] Some assms(3) show ?thesis by fastforce
qed

subsection \<open>Generations\<close>

lemma set_drop_key: "set (drop_key k xs) \<subseteq> set xs"
  by (induction k xs rule: drop_key.induct) auto

text \<open>A dead pair was issued at or before the clock and is not resident.\<close>

definition dead :: "residency_spec \<Rightarrow> chunk_key \<Rightarrow> residency_generation \<Rightarrow> bool" where
  "dead r k g \<longleftrightarrow> rg_value g \<le> rg_value (rs_clock r) \<and> (k, g) \<notin> set (rs_resident r)"

lemma spec_step_dead:
  assumes "spec_step s c r = Some (x, r')" "dead r k g"
  shows "dead r' k g" "residency_valid g \<Longrightarrow> x \<noteq> Handle \<lparr>rh_key = k, rh_generation = g\<rparr>"
proof -
  have sub: "p \<in> set (drop_key k' (rs_resident r)) \<Longrightarrow> p \<in> set (rs_resident r)" for p k'
    using set_drop_key by fast
  have "dead r' k g \<and> (residency_valid g \<longrightarrow> x \<noteq> Handle \<lparr>rh_key = k, rh_generation = g\<rparr>)"
  proof (cases c)
    case (Ensure k')
    consider "\<not> sparse_contains s k'" | g0 where "sparse_contains s k'" "map_of (rs_resident r) k' = Some g0"
      | g1 where "sparse_contains s k'" "map_of (rs_resident r) k' = None" "residency_generation_inc (rs_clock r) = Some g1"
      using assms(1) Ensure by (fastforce simp: spec_ensure_def split: option.splits if_splits)
    then show ?thesis
    proof cases
      case 1
      then show ?thesis using assms Ensure by (auto simp: spec_ensure_def null_handle_def residency_valid_def)
    next
      case (2 g0)
      then have "(k', g0) \<in> set (rs_resident r)" by (auto dest: map_of_SomeD)
      then show ?thesis using 2 assms Ensure sub by (auto simp: spec_ensure_def dead_def)
    next
      case (3 g1)
      have new: "rg_value (rs_clock r) < rg_value g1" using generation_inc_Some(2) [OF 3(3)] .
      have tl: "p \<in> set (tl l) \<Longrightarrow> p \<in> set l" for p and l :: "(chunk_key \<times> residency_generation) list"
        by (cases l) auto
      have x: "x = Handle \<lparr>rh_key = k', rh_generation = g1\<rparr>" and clock: "rs_clock r' = g1"
        and res: "set (rs_resident r') \<subseteq> insert (k', g1) (set (rs_resident r))"
        using 3 assms(1) Ensure by (auto simp: spec_ensure_def dest: tl split: if_splits)
      have g: "g \<noteq> g1" "rg_value g \<le> rg_value g1" using assms(2) new by (auto simp: dead_def)
      then show ?thesis using assms(2) x clock res by (auto simp: dead_def)
    qed
  next
    case (Touch k')
    then show ?thesis using assms sub
      by (auto simp: spec_touch_def dead_def dest: map_of_SomeD split: option.splits)
  next
    case (Evict k')
    then show ?thesis using assms sub by (auto simp: spec_evict_def dead_def split: if_splits)
  qed (use assms in auto)
  then show "dead r' k g" "residency_valid g \<Longrightarrow> x \<noteq> Handle \<lparr>rh_key = k, rh_generation = g\<rparr>" by blast+
qed

lemma spec_run_dead:
  "spec_run s cs r = Some (xs, r') \<Longrightarrow> dead r k g \<Longrightarrow>
   dead r' k g \<and> (residency_valid g \<longrightarrow> Handle \<lparr>rh_key = k, rh_generation = g\<rparr> \<notin> set xs)"
proof (induction cs arbitrary: r xs)
  case (Cons c cs)
  then obtain x r1 ys where st: "spec_step s c r = Some (x, r1)" "spec_run s cs r1 = Some (ys, r')" "xs = x # ys"
    by (auto simp: bind_eq_Some_conv)
  with Cons.IH [OF st(2)] spec_step_dead [OF st(1) Cons.prems(2)] show ?case by auto
qed auto

lemma abs_member:
  assumes "sparse_inv s fs w xs"
  shows "(k, g) \<in> set (rs_resident (sparse_abs w xs)) \<longleftrightarrow> map_of (rs_resident (sparse_abs w xs)) k = Some g"
proof -
  have inv: "sparse_inv_held s fs w xs []" using assms by (simp add: sparse_inv_def)
  have "inj_on (\<lambda>x. sw_slot_key w ! unat x) (set xs)"
    using slot_keys_inj [OF inv] inv_parts(8) [OF inv] by (auto intro: inj_onI)
  then have "distinct (map fst (rs_resident (sparse_abs w xs)))"
    using inv_parts(9) [OF inv] by (simp add: sparse_abs_def comp_def distinct_map)
  then show ?thesis by (auto dest: map_of_SomeD map_of_is_SomeI)
qed

lemma generation_query:
  assumes "sparse_inv s fs w xs"
  shows "get_residency_generation w k =
     Some (case map_of (rs_resident (sparse_abs w xs)) k of None \<Rightarrow> ResidencyGeneration 0 | Some g \<Rightarrow> g)"
proof -
  have inv: "sparse_inv_held s fs w xs []" using assms by (simp add: sparse_inv_def)
  show ?thesis
  proof (cases "dir_map (sw_directory w) k")
    case None
    then show ?thesis using find_slot [OF inv, of k] abs_lookup [OF inv, of k]
      by (simp add: get_residency_generation_def)
  next
    case (Some x)
    then have "unat x < length (sw_slot_generation w)"
      using resident_lt [OF inv] dir_maps(2) [OF inv Some] columns_len(7) [OF inv_parts(3) [OF inv]] by simp
    then show ?thesis using Some find_slot [OF inv, of k] find_not_npos [OF inv Some] abs_lookup [OF inv, of k]
      by (simp add: get_residency_generation_def nth_opt_in)
  qed
qed

lemma handle_valid_iff:
  assumes "sparse_inv s fs w xs"
  shows "handle_valid w h = Some (residency_valid (rh_generation h)
     \<and> (rh_key h, rh_generation h) \<in> set (rs_resident (sparse_abs w xs)))"
  unfolding abs_member [OF assms]
  by (cases "rh_generation h")
     (auto simp: handle_valid_def generation_query [OF assms] residency_valid_def split: option.splits)

lemma dead_iff:
  assumes "sparse_inv s fs w xs" "residency_valid g" "rg_value g \<le> rg_value (sw_generation_clock w)"
  shows "dead (sparse_abs w xs) k g \<longleftrightarrow> handle_valid w \<lparr>rh_key = k, rh_generation = g\<rparr> = Some False"
  using assms(2,3) by (simp add: dead_def handle_valid_iff [OF assms(1)] sparse_abs_def)

subsection \<open>Properties\<close>



text \<open>
  C7. A handle that is no longer valid never becomes valid again: whatever calls follow,
  rematerialising the same chunk included, an invalid handle issued so far stays invalid and no
  call hands it out again.
\<close>

theorem stale_handles_stay_stale:
  assumes "sparse_inv s fs w xs" "residency_valid (rh_generation h)"
    and "rg_value (rh_generation h) \<le> rg_value (sw_generation_clock w)"
    and "handle_valid w h = Some False" "sparse_run s fs cs w = Some (rs, w')"
  shows "handle_valid w' h = Some False \<and> Handle h \<notin> set rs"
proof -
  obtain k g where h: "h = \<lparr>rh_key = k, rh_generation = g\<rparr>" by (cases h)
  have dead: "dead (sparse_abs w xs) k g"
    using dead_iff [OF assms(1), of g k] assms(2-4) by (simp add: h)
  obtain xs' where x': "sparse_inv s fs w' xs'" "spec_run s cs (sparse_abs w xs) = Some (rs, sparse_abs w' xs')"
    using sparse_run_refines [OF assms(1,5)] by blast
  from spec_run_dead [OF x'(2) dead] assms(2) have "dead (sparse_abs w' xs') k g" "Handle h \<notin> set rs"
    by (simp_all add: h)
  then show ?thesis by (simp add: handle_valid_iff [OF x'(1)] dead_def h)
qed


lemma example_sparse_run:
  "\<exists>w w1 xs. sparse_new 4096 example_shape [(''t'', 0 :: nat)] 8192 = Some w
    \<and> sparse_run example_shape [(''t'', 0)] [Ensure (ChunkKey 4), Evict (ChunkKey 4)] w
       = Some ([Handle \<lparr>rh_key = ChunkKey 4, rh_generation = ResidencyGeneration 1\<rparr>, Flag True], w1)
    \<and> sparse_inv example_shape [(''t'', 0)] w1 xs
    \<and> sparse_abs w1 xs = \<lparr>rs_capacity = 2, rs_resident = [], rs_clock = ResidencyGeneration 1\<rparr>"
proof -
  have n: "chunk_count example_shape = 32" by (simp add: example_shape_def shape_eval)
  have cap: "clamp_capacity 4096 8192 = 2" by (simp add: clamp_capacity_def Let_def)
  let ?fs = "[(''t'', 0 :: nat)]" and ?cs = "[Ensure (ChunkKey 4), Evict (ChunkKey 4)]"
  obtain w where w: "sparse_new 4096 example_shape ?fs 8192 = Some w" "sparse_inv example_shape ?fs w []"
    "sparse_abs w [] = \<lparr>rs_capacity = 2, rs_resident = [], rs_clock = ResidencyGeneration 0\<rparr>"
    using sparse_new_inv [of 4096 8192 example_shape ?fs] by (auto simp: cap)
  have spec: "spec_run example_shape ?cs (sparse_abs w []) =
      Some ([Handle \<lparr>rh_key = ChunkKey 4, rh_generation = ResidencyGeneration 1\<rparr>, Flag True],
        \<lparr>rs_capacity = 2, rs_resident = [], rs_clock = ResidencyGeneration 1\<rparr>)"
    by (simp add: w(3) spec_ensure_def spec_evict_def sparse_contains_def n
        residency_generation_inc_def u64_max_def)
  have "list_all residency_only ?cs" by simp
  from sparse_run_exists [OF w(2) this spec] w(1) show ?thesis by blast
qed

lemma stale_handles_stay_stale_witness:
  "\<exists>w1. (\<exists>w rs. sparse_new 4096 example_shape [(''t'', 0 :: nat)] 8192 = Some w
      \<and> sparse_run example_shape [(''t'', 0)] [Ensure (ChunkKey 4), Evict (ChunkKey 4)] w = Some (rs, w1))
    \<and> (\<forall>rs w2. sparse_run example_shape [(''t'', 0)] [Ensure (ChunkKey 4)] w1 = Some (rs, w2) \<longrightarrow>
          handle_valid w2 \<lparr>rh_key = ChunkKey 4, rh_generation = ResidencyGeneration 1\<rparr> = Some False)"
proof -
  obtain w w1 xs where w: "sparse_new 4096 example_shape [(''t'', 0 :: nat)] 8192 = Some w"
    "sparse_run example_shape [(''t'', 0)] [Ensure (ChunkKey 4), Evict (ChunkKey 4)] w
       = Some ([Handle \<lparr>rh_key = ChunkKey 4, rh_generation = ResidencyGeneration 1\<rparr>, Flag True], w1)"
    "sparse_inv example_shape [(''t'', 0)] w1 xs"
    "sparse_abs w1 xs = \<lparr>rs_capacity = 2, rs_resident = [], rs_clock = ResidencyGeneration 1\<rparr>"
    using example_sparse_run by blast
  let ?h = "\<lparr>rh_key = ChunkKey 4, rh_generation = ResidencyGeneration 1\<rparr>"
  have "sw_generation_clock w1 = ResidencyGeneration 1" using w(4) by (simp add: sparse_abs_def)
  then have a: "residency_valid (rh_generation ?h)" "rg_value (rh_generation ?h) \<le> rg_value (sw_generation_clock w1)"
    "handle_valid w1 ?h = Some False"
    using handle_valid_iff [OF w(3), of ?h] w(4) by (simp_all add: residency_valid_def)
  from w(1,2) stale_handles_stay_stale [OF w(3) a] show ?thesis by blast
qed

lemma evict_kills:
  assumes "sparse_inv s fs w xs" "sparse_evict w k = Some (b, w')"
    "rg_value g \<le> rg_value (sw_generation_clock w)"
  shows "\<exists>xs'. sparse_inv s fs w' xs' \<and> dead (sparse_abs w' xs') k g"
proof -
  have inv: "sparse_inv_held s fs w xs []" using assms(1) by (simp add: sparse_inv_def)
  obtain xs' where x': "sparse_inv s fs w' xs'" "spec_evict k (sparse_abs w xs) = (b, sparse_abs w' xs')"
    using evict_refines [OF assms(1), of k] assms(2) by auto
  have "(k, g) \<notin> set (rs_resident (sparse_abs w' xs'))"
  proof (cases "dir_map (sw_directory w) k")
    case None
    then have "map_of (rs_resident (sparse_abs w xs)) k = None" using abs_lookup [OF inv, of k] by simp
    then show ?thesis using x'(2) by (force simp: spec_evict_def map_of_eq_None_iff)
  next
    case (Some x)
    have m: "x \<in> set (sw_resident_slots w)" "sw_slot_key w ! unat x = k" using dir_maps(2) [OF inv Some] by simp_all
    have "sparse_abs w' xs' = (sparse_abs w xs)\<lparr>rs_resident := rs_resident (sparse_abs w (remove1 x xs))\<rparr>"
      using x'(2) abs_lookup [OF inv, of k] Some abs_drop [OF inv Some] by (simp add: spec_evict_def)
    moreover have "sw_slot_key w ! unat y \<noteq> k" if "y \<in> set (remove1 x xs)" for y
      using that slot_keys_inj [OF inv _ m(1), of y] m(2) inv_parts(8,9) [OF inv] by auto
    ultimately show ?thesis by (auto simp: sparse_abs_def)
  qed
  moreover have "rs_clock (sparse_abs w' xs') = sw_generation_clock w"
    using x'(2) by (auto simp: spec_evict_def sparse_abs_def split: if_splits)
  ultimately show ?thesis using x'(1) assms(3) by (auto simp: dead_def)
qed

lemma clock_mono:
  assumes "sparse_inv s fs w xs" "sparse_run s fs cs w = Some (rs, w')"
  shows "rg_value (sw_generation_clock w) \<le> rg_value (sw_generation_clock w')"
proof -
  obtain xs' where "spec_run s cs (sparse_abs w xs) = Some (rs, sparse_abs w' xs')"
    using sparse_run_refines [OF assms] by blast
  moreover have "spec_run s cs r = Some (ys, r') \<Longrightarrow> rg_value (rs_clock r) \<le> rg_value (rs_clock r')" for cs r ys r'
  proof (induction cs arbitrary: r ys)
    case (Cons c cs)
    then obtain x r1 zs where st: "spec_step s c r = Some (x, r1)" "spec_run s cs r1 = Some (zs, r')"
      by (auto simp: bind_eq_Some_conv)
    have "rg_value (rs_clock r) \<le> rg_value (rs_clock r1)"
      using st(1) by (cases c) (auto simp: spec_ensure_def spec_touch_def spec_evict_def
          dest!: generation_inc_Some(2) split: option.splits if_splits)
    with Cons.IH [OF st(2)] show ?case by simp
  qed auto
  ultimately have "rg_value (rs_clock (sparse_abs w xs)) \<le> rg_value (rs_clock (sparse_abs w' xs'))" by blast
  then show ?thesis by (simp add: sparse_abs_def)
qed

lemma sparse_run_append:
  "sparse_run s fs (as @ bs) w = Some (rs, w') \<Longrightarrow>
   \<exists>rs1 w1 rs2. sparse_run s fs as w = Some (rs1, w1) \<and> sparse_run s fs bs w1 = Some (rs2, w') \<and> rs = rs1 @ rs2"
proof (induction as arbitrary: w rs)
  case (Cons a as)
  then obtain r w1 rs1 where st: "sparse_step s fs a w = Some (r, w1)" "sparse_run s fs (as @ bs) w1 = Some (rs1, w')" "rs = r # rs1"
    by (auto simp: bind_eq_Some_conv)
  from Cons.IH [OF st(2)] obtain x y z where "sparse_run s fs as w1 = Some (x, y)" "sparse_run s fs bs y = Some (z, w')" "rs1 = x @ z"
    by blast
  with st(1,3) show ?case by (intro exI [of _ "r # x"] exI [of _ y] exI [of _ z]) simp
qed auto



lemma resident_calls_defined:
  assumes "sparse_inv s fs w xs" "map_of (rs_resident (sparse_abs w xs)) k = Some g"
  shows "\<exists>obs. sparse_observe_dirty w k m = Some obs" "\<exists>r. sparse_clear_dirty_observed w k obs = Some r"
proof -
  have inv: "sparse_inv_held s fs w xs []" using assms(1) by (simp add: sparse_inv_def)
  obtain x where x: "dir_map (sw_directory w) k = Some x"
    using assms(2) abs_lookup [OF inv, of k] by auto
  have "unat x < sw_cap w" using resident_lt [OF inv] dir_maps(2) [OF inv x] by blast
  then show "\<exists>obs. sparse_observe_dirty w k m = Some obs" "\<exists>r. sparse_clear_dirty_observed w k obs = Some r"
    using find_slot [OF inv, of k] x find_not_npos [OF inv x] columns_len [OF inv_parts(3) [OF inv]]
    by (simp_all add: sparse_observe_dirty_def sparse_clear_dirty_observed_def resident_slot_checked_def
        nth_opt_in case_prod_beta)
qed


text \<open>
  C9. Materialising a chunk gives it fresh contents and leaves every other resident chunk alone:
  each tile of the new chunk reads the value-initialised value of its field, its metadata starts
  over, and a tile of any chunk that was resident before and still is reads as before.
\<close>

theorem materialised_chunk_is_fresh:
  assumes "valid_shape s" "sparse_inv s fs w xs" "is_resident w k = Some False"
    and "ensure_resident s fs w k = Some (h, w')" "sparse_contains s k"
  shows "(\<forall>c t i. shape_contains s c \<longrightarrow> chunk_key s (chunk_coord s c) = k \<longrightarrow> field_index t 0 fs = Some i \<longrightarrow>
            sparse_try_field s fs t w' c = Some (Some (snd (fs ! i))))
    \<and> sparse_meta w' k = Some default_chunk_meta \<and> sparse_dirty_mask w' k = Some (DirtyMask 0)
    \<and> (\<forall>c t. chunk_key s (chunk_coord s c) \<noteq> k \<longrightarrow>
            is_resident w' (chunk_key s (chunk_coord s c)) = Some True \<longrightarrow>
            sparse_try_field s fs t w' c = sparse_try_field s fs t w c)"
proof -
  have inv: "sparse_inv_held s fs w xs []" using assms(2) by (simp add: sparse_inv_def)
  have none: "dir_map (sw_directory w) k = None"
    using assms(3) find_slot [OF inv, of k] find_not_npos [OF inv, of k]
    by (cases "dir_map (sw_directory w) k") (auto simp: is_resident_def)
  obtain g where g: "residency_generation_inc (sw_generation_clock w) = Some g"
  proof (cases "residency_generation_inc (sw_generation_clock w)")
    case None
    obtain x w1 where "acquire_slot w = Some (x, w1)" "same_columns w w1"
      using acquire_spec [OF assms(2)] by blast
    then have "ensure_resident s fs w k = None"
      using None none assms(5) find_slot [OF inv, of k] bind_none [of w1]
      by (simp add: ensure_resident_def same_columns_def)
    with assms(4) show ?thesis by simp
  qed
  obtain x xs' where e: "sparse_inv s fs w' (xs' @ [x])" "xs' = (if length xs < sw_cap w then xs else tl xs)"
    "x \<notin> set xs'" "unat x < sw_cap w" "sw_capacity w' = sw_capacity w"
    "sw_slot_key w' = (sw_slot_key w)[unat x := k]"
    "sw_pages w' = (sw_pages w)[unat x := new_page s fs k (chunk_coord_of_key s k)]"
    "sw_metadata w' = (sw_metadata w)[unat x := default_chunk_meta]"
    "sw_dirty_masks w' = (sw_dirty_masks w)[unat x := DirtyMask 0]"
    using ensure_new [OF assms(2,5) none g] assms(4) by auto
  have inv': "sparse_inv_held s fs w' (xs' @ [x]) []" using e(1) by (simp add: sparse_inv_def)
  note C = columns_len [OF inv_parts(3) [OF inv]]
  have dx: "dir_map (sw_directory w') k = Some x"
    using dir_maps(1) [OF inv', of x] inv_parts(8) [OF inv'] e(4,6) C by auto
  have find: "dir_find (sw_directory w') k = Some x" "x \<noteq> npos"
    using find_slot [OF inv', of k] find_not_npos [OF inv' dx] dx by simp_all
  have fresh: "sparse_try_field s fs t w' c = Some (Some (snd (fs ! i)))"
    if c: "shape_contains s c" "chunk_key s (chunk_coord s c) = k" "field_index t 0 fs = Some i" for c t i
  proof -
    have "tile_value (local_tile_id s (local_coord s c)) < local_tile_count s"
      using local_tile_id_nat(2) [OF assms(1) coords_in_range(2) [OF assms(1) c(1)]]
      by (simp add: u64_less_nat count_dims(6) [OF assms(1)])
    then show ?thesis
      using c find e(4,7) C
      by (simp add: sparse_try_field_def sparse_resolve_def sparse_try_chunk_def nth_opt_in page_field_new)
  qed
  have keep: "sparse_try_field s fs t w' c = sparse_try_field s fs t w c"
    if c: "chunk_key s (chunk_coord s c) \<noteq> k" "is_resident w' (chunk_key s (chunk_coord s c)) = Some True" for c t
  proof -
    let ?k = "chunk_key s (chunk_coord s c)"
    obtain y where y: "dir_map (sw_directory w') ?k = Some y"
      using c(2) find_slot [OF inv', of ?k] by (cases "dir_map (sw_directory w') ?k") (auto simp: is_resident_def)
    note m = dir_maps(2) [OF inv' y]
    have "y \<noteq> x" using m e(4,6) C c(1) by auto
    then have neq: "unat x \<noteq> unat y" by (metis word_unat_eq_iff)
    have "y \<in> set (xs' @ [x])" using m inv_parts(8) [OF inv'] by simp
    then have "y \<in> set xs" using \<open>y \<noteq> x\<close> e(2) by (cases xs) (auto split: if_splits)
    then have "dir_map (sw_directory w) ?k = Some y"
      using dir_maps(1) [OF inv, of y] inv_parts(8) [OF inv] m e(6) neq by simp
    then show ?thesis
      using find_slot [OF inv, of ?k] find_slot [OF inv', of ?k] y e(7) neq
      by (simp add: sparse_try_field_def sparse_resolve_def sparse_try_chunk_def nth_opt_def)
  qed
  have "sparse_meta w' k = Some default_chunk_meta" "sparse_dirty_mask w' k = Some (DirtyMask 0)"
    using find e(4,8,9) C by (simp_all add: sparse_meta_def sparse_dirty_mask_def resident_slot_checked_def nth_opt_in)
  with fresh keep show ?thesis by blast
qed

lemma materialised_chunk_is_fresh_witness:
  "\<exists>w h w'. sparse_new 4096 example_shape [(''t'', 7 :: nat)] 8192 = Some w
    \<and> ensure_resident example_shape [(''t'', 7)] w (ChunkKey 0) = Some (h, w')
    \<and> sparse_meta w' (ChunkKey 0) = Some default_chunk_meta"
proof -
  let ?fs = "[(''t'', 7 :: nat)]" and ?k = "ChunkKey 0"
  have n: "chunk_count example_shape = 32" by (simp add: example_shape_def shape_eval)
  have cap: "clamp_capacity 4096 8192 = 2" by (simp add: clamp_capacity_def Let_def)
  obtain w where w: "sparse_new 4096 example_shape ?fs 8192 = Some w" "sparse_inv example_shape ?fs w []"
    "sparse_abs w [] = \<lparr>rs_capacity = 2, rs_resident = [], rs_clock = ResidencyGeneration 0\<rparr>"
    using sparse_new_inv [of 4096 8192 example_shape ?fs] by (auto simp: cap)
  have con: "sparse_contains example_shape ?k" by (simp add: sparse_contains_def n)
  have inv: "sparse_inv_held example_shape ?fs w [] []" using w(2) by (simp add: sparse_inv_def)
  have none: "dir_map (sw_directory w) ?k = None" using abs_lookup [OF inv, of ?k] by (simp add: w(3))
  then have res: "is_resident w ?k = Some False" using find_slot [OF inv, of ?k] by (simp add: is_resident_def)
  have "residency_generation_inc (sw_generation_clock w) = Some (ResidencyGeneration 1)"
    using w(3) by (simp add: sparse_abs_def residency_generation_inc_def u64_max_def)
  then obtain h w' where e: "ensure_resident example_shape ?fs w ?k = Some (h, w')"
    using ensure_new [OF w(2) con none] by blast
  from materialised_chunk_is_fresh [OF example_shape_valid w(2) res e con] w(1) e show ?thesis by blast
qed

end
