(* ===== verification/Flow_Accounting.thy ===== *)
theory Flow_Accounting
  imports Tess_Prelude
begin

text \<open>
  Flow accounting (diagnostics/diagnostics.h): the counters of one bounded flow, the accountant
  that weights them by simulation ticks, and the contract that every flow keeps with its
  accountant. The locale \<open>accounted_flow\<close> states that contract once; the event stream and the
  resumable work queue are its instances.
\<close>

record flow_counters =
  fc_offered :: u64
  fc_admitted :: u64
  fc_rejected :: u64
  fc_coalesced_into_pending :: u64
  fc_completed :: u64
  fc_cancelled :: u64
  fc_superseded :: u64
  fc_stale :: u64
  fc_failed :: u64
  fc_dropped_after_admission :: u64
  fc_offered_work_units :: u64
  fc_consumed_work_units :: u64
  fc_outstanding_current :: u64
  fc_outstanding_high_water :: u64
  fc_inventory_tick_weighted :: u64
  fc_residence_ticks_accumulated :: u64
  fc_oldest_outstanding_age_ticks :: u64

definition default_flow_counters :: flow_counters where
  "default_flow_counters = \<lparr>fc_offered = 0, fc_admitted = 0, fc_rejected = 0,
     fc_coalesced_into_pending = 0, fc_completed = 0, fc_cancelled = 0, fc_superseded = 0,
     fc_stale = 0, fc_failed = 0, fc_dropped_after_admission = 0, fc_offered_work_units = 0,
     fc_consumed_work_units = 0, fc_outstanding_current = 0, fc_outstanding_high_water = 0,
     fc_inventory_tick_weighted = 0, fc_residence_ticks_accumulated = 0,
     fc_oldest_outstanding_age_ticks = 0\<rparr>"

definition flow_terminal :: "flow_counters \<Rightarrow> u64" where
  "flow_terminal c = fc_completed c + fc_cancelled c + fc_superseded c + fc_stale c + fc_failed c
     + fc_dropped_after_admission c"

definition admission_identity_holds :: "flow_counters \<Rightarrow> bool" where
  "admission_identity_holds c \<longleftrightarrow>
     fc_offered c = fc_admitted c + fc_rejected c + fc_coalesced_into_pending c"

definition retention_identity_holds :: "flow_counters \<Rightarrow> bool" where
  "retention_identity_holds c \<longleftrightarrow> fc_admitted c = flow_terminal c + fc_outstanding_current c"

definition counters_reset :: "flow_counters \<Rightarrow> flow_counters" where
  "counters_reset c = default_flow_counters"

record flow_accounting =
  fa_counters :: flow_counters
  fa_last_observed_tick :: u64

definition default_flow_accounting :: flow_accounting where
  "default_flow_accounting = \<lparr>fa_counters = default_flow_counters, fa_last_observed_tick = 0\<rparr>"

definition observe_tick :: "u64 \<Rightarrow> flow_accounting \<Rightarrow> flow_accounting" where
  "observe_tick t a =
     (if fa_last_observed_tick a < t
      then \<lparr>fa_counters = (fa_counters a)
              \<lparr>fc_inventory_tick_weighted := fc_inventory_tick_weighted (fa_counters a)
                 + fc_outstanding_current (fa_counters a) * (t - fa_last_observed_tick a)\<rparr>,
            fa_last_observed_tick = t\<rparr>
      else a)"

definition record_admitted :: "flow_accounting \<Rightarrow> flow_accounting" where
  "record_admitted a =
     (let c = fa_counters a;
          c1 = c\<lparr>fc_admitted := fc_admitted c + 1, fc_outstanding_current := fc_outstanding_current c + 1\<rparr>;
          c2 = (if fc_outstanding_high_water c1 < fc_outstanding_current c1
                then c1\<lparr>fc_outstanding_high_water := fc_outstanding_current c1\<rparr> else c1)
      in a\<lparr>fa_counters := c2\<rparr>)"

definition record_left_outstanding :: "flow_accounting \<Rightarrow> flow_accounting" where
  "record_left_outstanding a =
     (let c = fa_counters a
      in if 0 < fc_outstanding_current c
         then a\<lparr>fa_counters := c\<lparr>fc_outstanding_current := fc_outstanding_current c - 1\<rparr>\<rparr>
         else a)"

record flow_health_snapshot =
  fh_counters :: flow_counters
  fh_admission_identity_ok :: bool
  fh_retention_identity_ok :: bool

definition flow_snapshot :: "flow_accounting \<Rightarrow> flow_health_snapshot" where
  "flow_snapshot a = \<lparr>fh_counters = fa_counters a,
     fh_admission_identity_ok = admission_identity_holds (fa_counters a),
     fh_retention_identity_ok = retention_identity_holds (fa_counters a)\<rparr>"

definition account :: "(flow_counters \<Rightarrow> flow_counters) \<Rightarrow> flow_accounting \<Rightarrow> flow_accounting" where
  "account f a = a\<lparr>fa_counters := f (fa_counters a)\<rparr>"


subsection \<open>The balance of an accountant with its flow\<close>

text \<open>
  \<open>flow_balanced a ss\<close>: the accountant agrees with a flow whose outstanding items were admitted
  at the ticks \<open>ss\<close>. Both conservation identities hold, the outstanding count is exact, and the
  tick-weighted inventory is the residence of the items that left plus the age of those that
  stay: Little's identity, in the arithmetic modulo \<open>2^64\<close> of the counters.
\<close>

definition flow_balanced :: "flow_accounting \<Rightarrow> u64 list \<Rightarrow> bool" where
  "flow_balanced a ss \<longleftrightarrow>
     admission_identity_holds (fa_counters a) \<and> retention_identity_holds (fa_counters a)
     \<and> fc_outstanding_current (fa_counters a) = of_nat (length ss) \<and> length ss < 2 ^ 64
     \<and> fc_inventory_tick_weighted (fa_counters a)
         = fc_residence_ticks_accumulated (fa_counters a)
           + sum_list (map (\<lambda>s. fa_last_observed_tick a - s) ss)"

lemmas flow_identities = admission_identity_holds_def retention_identity_holds_def flow_terminal_def

lemma sum_list_shift: "sum_list (map (\<lambda>s. (t :: u64) - s) ss) =
    sum_list (map (\<lambda>s. l - s) ss) + of_nat (length ss) * (t - l)"
  by (induction ss) (simp_all add: algebra_simps)

lemma sum_list_ages: "sum_list (map (\<lambda>s. (t :: u64) - s) ss) = t * of_nat (length ss) - sum_list ss"
  by (induction ss) (simp_all add: algebra_simps)

lemma balanced_default: "flow_balanced default_flow_accounting []"
  by (simp add: flow_balanced_def default_flow_accounting_def default_flow_counters_def flow_identities)

lemma balanced_observe:
  assumes "flow_balanced a ss"
  shows "flow_balanced (observe_tick t a) ss"
proof (cases "fa_last_observed_tick a < t")
  case True
  show ?thesis
    using assms True sum_list_shift [of t ss "fa_last_observed_tick a"]
    unfolding flow_balanced_def observe_tick_def flow_identities by simp
qed (use assms in \<open>simp add: observe_tick_def\<close>)

lemma observe_tick_last: "fa_last_observed_tick (observe_tick t a) = max (fa_last_observed_tick a) t"
  by (auto simp: observe_tick_def max_def)

lemma balanced_reject:
  assumes "flow_balanced a ss"
  shows "flow_balanced (account (\<lambda>c. c\<lparr>fc_offered := fc_offered c + 1, fc_rejected := fc_rejected c + 1\<rparr>) a) ss"
  using assms unfolding flow_balanced_def account_def flow_identities by simp

lemma balanced_admit:
  assumes "flow_balanced a ss" "length ss + 1 < 2 ^ 64"
  shows "flow_balanced (record_admitted (account (\<lambda>c. c\<lparr>fc_offered := fc_offered c + 1\<rparr>) a))
           (ss @ [fa_last_observed_tick a])"
  using assms unfolding flow_balanced_def account_def flow_identities record_admitted_def
  by (simp add: Let_def algebra_simps)

lemma record_admitted_last [simp]:
  "fa_last_observed_tick (record_admitted a) = fa_last_observed_tick a"
  by (simp add: record_admitted_def Let_def)

lemma account_last [simp]: "fa_last_observed_tick (account f a) = fa_last_observed_tick a"
  by (simp add: account_def)

lemma left_outstanding_last [simp]:
  "fa_last_observed_tick (record_left_outstanding a) = fa_last_observed_tick a"
  by (simp add: record_left_outstanding_def Let_def)

text \<open>One item leaves: its bucket grew by one before, its residence is added after.\<close>

definition leave_item :: "u64 \<Rightarrow> flow_accounting \<Rightarrow> flow_accounting" where
  "leave_item s a =
     (let a' = record_left_outstanding a
      in account (\<lambda>c. c\<lparr>fc_residence_ticks_accumulated :=
           fc_residence_ticks_accumulated c + (fa_last_observed_tick a' - s)\<rparr>) a')"

lemma leave_item_last [simp]: "fa_last_observed_tick (leave_item s a) = fa_last_observed_tick a"
  by (simp add: leave_item_def Let_def)

definition one_terminal :: "(flow_counters \<Rightarrow> flow_counters) \<Rightarrow> bool" where
  "one_terminal f \<longleftrightarrow> (\<forall>c. flow_terminal (f c) = flow_terminal c + 1
     \<and> fc_offered (f c) = fc_offered c \<and> fc_admitted (f c) = fc_admitted c
     \<and> fc_rejected (f c) = fc_rejected c
     \<and> fc_coalesced_into_pending (f c) = fc_coalesced_into_pending c
     \<and> fc_outstanding_current (f c) = fc_outstanding_current c
     \<and> fc_inventory_tick_weighted (f c) = fc_inventory_tick_weighted c
     \<and> fc_residence_ticks_accumulated (f c) = fc_residence_ticks_accumulated c)"

lemma outstanding_positive:
  "length ss < 2 ^ 64 \<Longrightarrow> ss \<noteq> [] \<Longrightarrow> (0 :: u64) < of_nat (length ss)"
  by (cases ss) (simp_all add: word_less_nat_alt unat_of_nat del: of_nat_Suc)

lemma balanced_leave:
  assumes a: "flow_balanced a (xs @ s # ys)" and f: "one_terminal f"
  shows "flow_balanced (leave_item s (account f a)) (xs @ ys)"
proof -
  let ?c = "fa_counters a"
  have pos: "(0 :: u64) < of_nat (length (xs @ s # ys))"
    by (rule outstanding_positive) (use a in \<open>simp_all add: flow_balanced_def\<close>)
  have out: "fc_outstanding_current (f ?c) = of_nat (length (xs @ s # ys))"
    using a f by (simp add: flow_balanced_def one_terminal_def)
  have "fc_outstanding_current (f ?c) - 1 = of_nat (length (xs @ ys))"
    unfolding out by simp
  moreover have "admission_identity_holds (f ?c)"
    using a f by (simp add: flow_balanced_def one_terminal_def admission_identity_holds_def)
  moreover have "fc_admitted (f ?c) = flow_terminal (f ?c) + (fc_outstanding_current (f ?c) - 1)"
    using a f by (simp add: flow_balanced_def one_terminal_def retention_identity_holds_def)
  moreover have "fc_inventory_tick_weighted (f ?c) = fc_residence_ticks_accumulated (f ?c)
      + (fa_last_observed_tick a - s) + sum_list (map (\<lambda>s. fa_last_observed_tick a - s) (xs @ ys))"
    using a f by (simp add: flow_balanced_def one_terminal_def algebra_simps)
  moreover have "length (xs @ ys) < 2 ^ 64" using a by (simp add: flow_balanced_def)
  ultimately show ?thesis
    using pos out unfolding flow_balanced_def leave_item_def account_def record_left_outstanding_def
    by (simp add: Let_def admission_identity_holds_def retention_identity_holds_def flow_terminal_def)
qed

lemma one_terminal_intros:
  "one_terminal (\<lambda>c. c\<lparr>fc_completed := fc_completed c + 1\<rparr>)"
  "one_terminal (\<lambda>c. c\<lparr>fc_cancelled := fc_cancelled c + 1\<rparr>)"
  "one_terminal (\<lambda>c. c\<lparr>fc_superseded := fc_superseded c + 1\<rparr>)"
  "one_terminal (\<lambda>c. c\<lparr>fc_stale := fc_stale c + 1\<rparr>)"
  "one_terminal (\<lambda>c. c\<lparr>fc_failed := fc_failed c + 1\<rparr>)"
  "one_terminal (\<lambda>c. c\<lparr>fc_dropped_after_admission := fc_dropped_after_admission c + 1\<rparr>)"
  by (simp_all add: one_terminal_def flow_terminal_def)


subsection \<open>The contract of an accounted flow\<close>

text \<open>
  A flow takes calls on a state that includes its accountant; \<open>rep s ss\<close> says which admission
  ticks its outstanding items have.
\<close>

locale accounted_flow =
  fixes step :: "'c \<Rightarrow> 's \<Rightarrow> 's option"
    and accountant :: "'s \<Rightarrow> flow_accounting"
    and rep :: "'s \<Rightarrow> u64 list \<Rightarrow> bool"
  assumes step_balanced:
    "rep s ss \<Longrightarrow> flow_balanced (accountant s) ss \<Longrightarrow> step c s = Some s' \<Longrightarrow>
       \<exists>ss'. rep s' ss' \<and> flow_balanced (accountant s') ss'"
begin

lemma run_balanced:
  "rep s ss \<Longrightarrow> flow_balanced (accountant s) ss \<Longrightarrow> fold_opt step cs s = Some s' \<Longrightarrow>
     \<exists>ss'. rep s' ss' \<and> flow_balanced (accountant s') ss'"
proof (induction cs arbitrary: s ss)
  case (Cons c cs)
  then obtain s1 where s1: "step c s = Some s1" "fold_opt step cs s1 = Some s'"
    by (cases "step c s") auto
  obtain ss1 where "rep s1 ss1" "flow_balanced (accountant s1) ss1"
    using step_balanced [OF Cons.prems(1,2) s1(1)] by blast
  then show ?case using Cons.IH s1(2) by blast
qed auto

lemma run_healthy:
  assumes "rep s ss" "flow_balanced (accountant s) ss" "fold_opt step cs s = Some s'"
  shows "fh_admission_identity_ok (flow_snapshot (accountant s'))
    \<and> fh_retention_identity_ok (flow_snapshot (accountant s'))"
  using run_balanced [OF assms] by (auto simp: flow_snapshot_def flow_balanced_def)

lemma run_drained:
  assumes "rep s ss" "flow_balanced (accountant s) ss" "fold_opt step cs s = Some s'"
    and "\<And>ss'. rep s' ss' \<Longrightarrow> ss' = []"
  shows "fc_outstanding_current (fa_counters (accountant s')) = 0
    \<and> fc_inventory_tick_weighted (fa_counters (accountant s'))
        = fc_residence_ticks_accumulated (fa_counters (accountant s'))"
proof -
  obtain ss' where "rep s' ss'" "flow_balanced (accountant s') ss'"
    using run_balanced [OF assms(1-3)] by blast
  moreover have "ss' = []" using assms(4) calculation(1) by blast
  ultimately show ?thesis by (simp add: flow_balanced_def)
qed

end

end
