(* ===== verification/Event_Stream.thy ===== *)
theory Event_Stream
  imports Flow_Accounting
begin

text \<open>
  The bounded event stream (sim/event_stream.h). The payload type is a parameter. The attached
  accountant is a pointer to caller-owned data: the stream holds an address or null, and the
  operations thread a store of accountants.
\<close>

record 'a tick_stamped_event =
  ev_tick :: u64
  ev_sequence :: u64
  ev_value :: 'a

record 'a event_stream =
  es_events :: "'a tick_stamped_event list"
  es_max_events :: u64
  es_next_sequence :: u64
  es_rejected_events :: u64
  es_oldest_published_tick :: u64
  es_published_tick_total :: u64
  es_accounting :: "nat option"

type_synonym accountants = "nat \<Rightarrow> flow_accounting"

definition empty_stream :: "'a event_stream" where
  "empty_stream = \<lparr>es_events = [], es_max_events = 0, es_next_sequence = 0, es_rejected_events = 0,
     es_oldest_published_tick = 0, es_published_tick_total = 0, es_accounting = None\<rparr>"

definition reserve_events :: "u64 \<Rightarrow> 'a event_stream \<Rightarrow> 'a event_stream option" where
  "reserve_events count s = (if es_events s \<noteq> [] then None else Some (s\<lparr>es_max_events := count\<rparr>))"

definition account_publish ::
    "bool \<Rightarrow> 'a event_stream \<Rightarrow> accountants \<Rightarrow> 'a event_stream \<times> accountants" where
  "account_publish admitted s h =
     (case es_accounting s of
        None \<Rightarrow> (s, h)
      | Some p \<Rightarrow>
          let a = account (\<lambda>c. c\<lparr>fc_offered := fc_offered c + 1\<rparr>) (h p)
          in if \<not> admitted
             then (s, h(p := account (\<lambda>c. c\<lparr>fc_rejected := fc_rejected c + 1\<rparr>) a))
             else let a' = record_admitted a; now = fa_last_observed_tick a';
                      s1 = (if length (es_events s) = 1 then s\<lparr>es_oldest_published_tick := now\<rparr> else s)
                  in (s1\<lparr>es_published_tick_total := es_published_tick_total s1 + now\<rparr>, h(p := a')))"

definition publish ::
    "u64 \<Rightarrow> 'a \<Rightarrow> 'a event_stream \<Rightarrow> accountants \<Rightarrow> bool \<times> 'a event_stream \<times> accountants" where
  "publish tick v s h =
     (if unat (es_max_events s) \<le> length (es_events s)
      then (False, account_publish False (s\<lparr>es_rejected_events := es_rejected_events s + 1\<rparr>) h)
      else (True, account_publish True
              (s\<lparr>es_events := es_events s @ [\<lparr>ev_tick = tick, ev_sequence = es_next_sequence s, ev_value = v\<rparr>],
                 es_next_sequence := es_next_sequence s + 1\<rparr>) h))"

definition retire_batch ::
    "bool \<Rightarrow> 'a event_stream \<Rightarrow> accountants \<Rightarrow> 'a event_stream \<times> accountants" where
  "retire_batch consumed s h =
     (case es_accounting s of
        None \<Rightarrow> (s\<lparr>es_events := []\<rparr>, h)
      | Some p \<Rightarrow>
          let a = h p; n = of_nat (length (es_events s));
              c = fa_counters a;
              c1 = (if consumed then c\<lparr>fc_completed := fc_completed c + n\<rparr>
                    else c\<lparr>fc_dropped_after_admission := fc_dropped_after_admission c + n\<rparr>);
              c2 = c1\<lparr>fc_outstanding_current :=
                     fc_outstanding_current c1 - min (fc_outstanding_current c1) n\<rparr>;
              c3 = c2\<lparr>fc_residence_ticks_accumulated := fc_residence_ticks_accumulated c2
                     + (fa_last_observed_tick a * n - es_published_tick_total s)\<rparr>;
              c4 = c3\<lparr>fc_oldest_outstanding_age_ticks := 0\<rparr>
          in (s\<lparr>es_published_tick_total := 0, es_events := []\<rparr>, h(p := a\<lparr>fa_counters := c4\<rparr>)))"

definition stream_clear :: "'a event_stream \<Rightarrow> accountants \<Rightarrow> 'a event_stream \<times> accountants" where
  "stream_clear = retire_batch False"

definition consume_all :: "'a event_stream \<Rightarrow> accountants \<Rightarrow> 'a event_stream \<times> accountants" where
  "consume_all = retire_batch True"

definition discard_all :: "'a event_stream \<Rightarrow> accountants \<Rightarrow> 'a event_stream \<times> accountants" where
  "discard_all = retire_batch False"

definition stream_set_accounting :: "nat option \<Rightarrow> 'a event_stream \<Rightarrow> 'a event_stream option" where
  "stream_set_accounting p s = (if es_events s \<noteq> [] then None else Some (s\<lparr>es_accounting := p\<rparr>))"

definition stream_observe_tick :: "u64 \<Rightarrow> 'a event_stream \<Rightarrow> accountants \<Rightarrow> accountants" where
  "stream_observe_tick tick s h =
     (case es_accounting s of
        None \<Rightarrow> h
      | Some p \<Rightarrow>
          let a = observe_tick tick (h p); now = fa_last_observed_tick a
          in h(p := account (\<lambda>c. c\<lparr>fc_oldest_outstanding_age_ticks :=
                 (if es_events s = [] then 0 else now - es_oldest_published_tick s)\<rparr>) a))"

text \<open>Copies start unattached; moves hand the attachment over and leave the source empty.\<close>

definition stream_copy :: "'a event_stream \<Rightarrow> 'a event_stream" where
  "stream_copy other = other\<lparr>es_oldest_published_tick := 0, es_published_tick_total := 0, es_accounting := None\<rparr>"

definition stream_copy_assign :: "'a event_stream \<Rightarrow> 'a event_stream \<Rightarrow> 'a event_stream option" where
  "stream_copy_assign this other =
     (if es_accounting this \<noteq> None \<and> es_events this \<noteq> [] then None else Some (stream_copy other))"

definition stream_moved_from :: "'a event_stream \<Rightarrow> 'a event_stream" where
  "stream_moved_from other = other\<lparr>es_events := [], es_oldest_published_tick := 0,
     es_published_tick_total := 0, es_accounting := None\<rparr>"

definition stream_move :: "'a event_stream \<Rightarrow> 'a event_stream \<times> 'a event_stream" where
  "stream_move other = (other, stream_moved_from other)"

definition stream_move_assign ::
    "'a event_stream \<Rightarrow> 'a event_stream \<Rightarrow> ('a event_stream \<times> 'a event_stream) option" where
  "stream_move_assign this other =
     (if es_accounting this \<noteq> None \<and> es_events this \<noteq> [] then None
      else Some (stream_move other))"


subsection \<open>Calls and the specification of a bounded log\<close>

datatype 'a stream_call =
    Publish u64 'a
  | ConsumeAll
  | DiscardAll
  | ClearBatch
  | ObserveTick u64

fun stream_step :: "'a stream_call \<Rightarrow> 'a event_stream \<times> accountants \<Rightarrow> ('a event_stream \<times> accountants) option" where
  "stream_step (Publish t v) (s, h) = Some (snd (publish t v s h))"
| "stream_step ConsumeAll (s, h) = Some (consume_all s h)"
| "stream_step DiscardAll (s, h) = Some (discard_all s h)"
| "stream_step ClearBatch (s, h) = Some (stream_clear s h)"
| "stream_step (ObserveTick t) (s, h) = Some (s, stream_observe_tick t s h)"

text \<open>
  The specification: the offers of the current batch in order, how many were accepted before it,
  and how many were refused so far.
\<close>

record 'a log_spec =
  lg_batch :: "(u64 \<times> 'a) list"
  lg_before :: nat
  lg_refused :: nat

fun log_step :: "nat \<Rightarrow> 'a stream_call \<Rightarrow> 'a log_spec \<Rightarrow> 'a log_spec" where
  "log_step cap (Publish t v) l =
     (if length (lg_batch l) < cap then l\<lparr>lg_batch := lg_batch l @ [(t, v)]\<rparr>
      else l\<lparr>lg_refused := lg_refused l + 1\<rparr>)"
| "log_step cap (ObserveTick t) l = l"
| "log_step cap c l = l\<lparr>lg_batch := [], lg_before := lg_before l + length (lg_batch l)\<rparr>"

definition stream_abs :: "'a event_stream \<Rightarrow> 'a log_spec \<Rightarrow> bool" where
  "stream_abs s l \<longleftrightarrow>
     es_events s = map (\<lambda>(i, t, v). \<lparr>ev_tick = t, ev_sequence = of_nat (lg_before l + i), ev_value = v\<rparr>)
                     (zip [0..<length (lg_batch l)] (lg_batch l))
     \<and> es_next_sequence s = of_nat (lg_before l + length (lg_batch l))
     \<and> es_rejected_events s = of_nat (lg_refused l)"

lemma account_publish_fields [simp]:
  "es_events (fst (account_publish b s h)) = es_events s"
  "es_max_events (fst (account_publish b s h)) = es_max_events s"
  "es_next_sequence (fst (account_publish b s h)) = es_next_sequence s"
  "es_rejected_events (fst (account_publish b s h)) = es_rejected_events s"
  "es_accounting (fst (account_publish b s h)) = es_accounting s"
  by (simp_all add: account_publish_def Let_def split: option.split)

lemma retire_batch_fields [simp]:
  "es_events (fst (retire_batch b s h)) = []"
  "es_max_events (fst (retire_batch b s h)) = es_max_events s"
  "es_next_sequence (fst (retire_batch b s h)) = es_next_sequence s"
  "es_rejected_events (fst (retire_batch b s h)) = es_rejected_events s"
  "es_accounting (fst (retire_batch b s h)) = es_accounting s"
  by (simp_all add: retire_batch_def Let_def split: option.split)

lemma retire_abs: "stream_abs s l \<Longrightarrow>
    stream_abs (fst (retire_batch b s h)) (l\<lparr>lg_batch := [], lg_before := lg_before l + length (lg_batch l)\<rparr>)"
  by (simp add: stream_abs_def)

lemma stream_step_abs:
  assumes "stream_abs s l" "stream_step c (s, h) = Some (s', h')"
  shows "stream_abs s' (log_step (unat (es_max_events s)) c l) \<and> es_max_events s' = es_max_events s"
proof (cases c)
  case (Publish t v)
  have len: "length (es_events s) = length (lg_batch l)" using assms(1) by (simp add: stream_abs_def)
  have s': "s' = fst (snd (publish t v s h))" using assms(2) Publish by (auto simp: prod_eq_iff)
  show ?thesis
    using assms(1) unfolding s' Publish stream_abs_def publish_def
    by (auto simp: len add.commute)
next
  case (ObserveTick t)
  then show ?thesis using assms by auto
qed (use assms retire_abs [OF assms(1)] in \<open>auto simp: consume_all_def discard_all_def stream_clear_def
       intro: retire_batch_fields dest!: arg_cong [where f = fst]\<close>)

lemma stream_run_abs:
  "stream_abs s l \<Longrightarrow> fold_opt stream_step cs (s, h) = Some (s', h') \<Longrightarrow>
     stream_abs s' (fold (log_step (unat (es_max_events s))) cs l) \<and> es_max_events s' = es_max_events s"
proof (induction cs arbitrary: s h l)
  case (Cons c cs)
  obtain s1 h1 where s1: "stream_step c (s, h) = Some (s1, h1)" "fold_opt stream_step cs (s1, h1) = Some (s', h')"
    using Cons.prems(2) by (cases "stream_step c (s, h)") auto
  have "stream_abs s1 (log_step (unat (es_max_events s)) c l)" "es_max_events s1 = es_max_events s"
    using stream_step_abs [OF Cons.prems(1) s1(1)] by simp_all
  then show ?case using Cons.IH s1(2) by fastforce
qed simp

lemma stream_step_total: "\<exists>x'. stream_step c x = Some x'"
  by (cases x; cases c) simp_all

lemma stream_run_total: "\<exists>x'. fold_opt stream_step cs x = Some x'"
proof (induction cs arbitrary: x)
  case (Cons c cs)
  obtain x1 where "stream_step c x = Some x1" using stream_step_total by blast
  with Cons.IH [of x1] show ?case by simp
qed simp

lemma consume_drains:
  assumes "fold_opt stream_step (cs @ [ConsumeAll]) x = Some (s', h')"
  shows "es_events s' = []"
proof -
  obtain x1 where "stream_step ConsumeAll x1 = Some (s', h')"
    using assms by (cases "fold_opt stream_step cs x") (simp_all add: fold_opt_append bind_eq_Some_conv)
  moreover obtain s1 h1 where "x1 = (s1, h1)" by (cases x1)
  ultimately have "stream_step ConsumeAll (s1, h1) = Some (s', h')" by simp
  then have "s' = fst (consume_all s1 h1)" by (auto simp: prod_eq_iff)
  then show ?thesis by (simp add: consume_all_def)
qed

lemma log_batch_bound: "length (lg_batch l) \<le> cap \<Longrightarrow> length (lg_batch (fold (log_step cap) cs l)) \<le> cap"
proof (induction cs arbitrary: l)
  case (Cons c cs)
  have "length (lg_batch (log_step cap c l)) \<le> cap" using Cons.prems by (cases c) simp_all
  with Cons.IH show ?case by simp
qed simp

lemma publish_accepts:
  "fst (publish t v s h) \<longleftrightarrow> length (es_events s) < unat (es_max_events s)"
  by (simp add: publish_def not_le)

definition empty_log :: "'a log_spec" where
  "empty_log = \<lparr>lg_batch = [], lg_before = 0, lg_refused = 0\<rparr>"

lemma reserved_stream_abs:
  "reserve_events cap empty_stream = Some s \<Longrightarrow> stream_abs s empty_log \<and> es_max_events s = cap \<and> es_events s = []"
  by (auto simp: reserve_events_def empty_stream_def stream_abs_def empty_log_def)


subsection \<open>The stream as an accounted flow\<close>

definition stream_rep :: "nat \<Rightarrow> 'a event_stream \<times> accountants \<Rightarrow> u64 list \<Rightarrow> bool" where
  "stream_rep p x ss \<longleftrightarrow> (case x of (s, h) \<Rightarrow>
     es_accounting s = Some p \<and> length ss = length (es_events s)
     \<and> es_published_tick_total s = sum_list ss \<and> length (es_events s) \<le> unat (es_max_events s)
     \<and> (ss \<noteq> [] \<longrightarrow> es_oldest_published_tick s = hd ss))"

definition stream_accountant :: "nat \<Rightarrow> 'a event_stream \<times> accountants \<Rightarrow> flow_accounting" where
  "stream_accountant p x = snd x p"

lemma balanced_age:
  "flow_balanced (account (\<lambda>c. c\<lparr>fc_oldest_outstanding_age_ticks := n\<rparr>) a) ss = flow_balanced a ss"
  by (simp add: flow_balanced_def account_def flow_identities)

lemma publish_balanced:
  assumes rep: "stream_rep p (s, h) ss" and bal: "flow_balanced (h p) ss"
  shows "\<exists>ss'. stream_rep p (snd (publish t v s h)) ss'
    \<and> flow_balanced (snd (snd (publish t v s h)) p) ss'"
proof (cases "unat (es_max_events s) \<le> length (es_events s)")
  case True
  have "stream_rep p (snd (publish t v s h)) ss"
    using rep True by (auto simp: stream_rep_def publish_def account_publish_def Let_def)
  moreover have "flow_balanced (snd (snd (publish t v s h)) p) ss"
    using balanced_reject [OF bal] rep True
    by (simp add: stream_rep_def publish_def account_publish_def account_def Let_def)
  ultimately show ?thesis by blast
next
  case False
  let ?now = "fa_last_observed_tick (h p)"
  have len: "length ss + 1 < 2 ^ 64"
    using rep False u64_less [of "es_max_events s"] unfolding stream_rep_def by auto
  have "stream_rep p (snd (publish t v s h)) (ss @ [?now])"
    using rep False by (cases ss) (auto simp: stream_rep_def publish_def account_publish_def Let_def)
  moreover have "flow_balanced (snd (snd (publish t v s h)) p) (ss @ [?now])"
    using balanced_admit [OF bal len] rep False
    by (simp add: stream_rep_def publish_def account_publish_def Let_def)
  ultimately show ?thesis by blast
qed

lemma retire_balanced:
  assumes rep: "stream_rep p (s, h) ss" and bal: "flow_balanced (h p) ss"
  shows "stream_rep p (retire_batch b s h) [] \<and> flow_balanced (snd (retire_batch b s h) p) []"
proof -
  have acc: "es_accounting s = Some p" and len: "length (es_events s) = length ss"
    and tot: "es_published_tick_total s = sum_list ss" using rep by (simp_all add: stream_rep_def)
  have out: "fc_outstanding_current (fa_counters (h p)) = of_nat (length ss)"
    and inv: "fc_inventory_tick_weighted (fa_counters (h p)) = fc_residence_ticks_accumulated (fa_counters (h p))
      + (fa_last_observed_tick (h p) * of_nat (length ss) - sum_list ss)"
    using bal by (simp_all add: flow_balanced_def sum_list_ages)
  have "flow_balanced (snd (retire_batch b s h) p) []"
    using bal unfolding retire_batch_def flow_balanced_def flow_identities
    by (cases b) (simp_all add: acc len tot out inv Let_def)
  moreover have "stream_rep p (retire_batch b s h) []"
    using rep by (simp add: stream_rep_def retire_batch_def Let_def)
  ultimately show ?thesis by blast
qed

lemma observe_balanced:
  assumes rep: "stream_rep p (s, h) ss" and bal: "flow_balanced (h p) ss"
  shows "stream_rep p (s, stream_observe_tick t s h) ss
    \<and> flow_balanced (stream_observe_tick t s h p) ss"
  using rep balanced_observe [OF bal, of t]
  by (simp add: stream_rep_def stream_observe_tick_def balanced_age Let_def)

interpretation stream_flow: accounted_flow stream_step "stream_accountant p" "stream_rep p" for p
proof (unfold_locales, goal_cases)
  case (1 x ss c x')
  obtain s h where x: "x = (s, h)" by (cases x)
  note rep = 1(1) [unfolded x] and bal = 1(2) [unfolded x stream_accountant_def snd_conv]
  show ?case
  proof (cases c)
    case (Publish t v)
    then show ?thesis using publish_balanced [OF rep bal, of t v] 1(3) by (auto simp: x stream_accountant_def)
  next
    case (ObserveTick t)
    then show ?thesis using observe_balanced [OF rep bal, of t] 1(3) by (auto simp: x stream_accountant_def)
  qed (use retire_balanced [OF rep bal] 1(3) in
      \<open>auto simp: x stream_accountant_def consume_all_def discard_all_def stream_clear_def\<close>)
qed

subsection \<open>Properties\<close>

text \<open>
  C35. An event stream is an exact bounded log. After \<open>reserve_events(cap)\<close> and any calls the
  batch holds the offers accepted since it was started, in order, with consecutive sequence
  numbers that go on across batches; it never exceeds \<open>cap\<close>; every refused offer is counted and
  an offer is refused exactly when the batch is full.
\<close>

theorem event_stream_is_bounded_log:
  assumes "reserve_events cap empty_stream = Some s"
  shows "\<exists>s' h'. fold_opt stream_step cs (s, h) = Some (s', h')
    \<and> stream_abs s' (fold (log_step (unat cap)) cs empty_log)
    \<and> length (es_events s') \<le> unat cap
    \<and> (\<forall>t v h. fst (publish t v s' h) \<longleftrightarrow> length (es_events s') < unat cap)"
proof -
  have s: "stream_abs s empty_log" "es_max_events s = cap" using reserved_stream_abs [OF assms] by simp_all
  obtain s' h' where run: "fold_opt stream_step cs (s, h) = Some (s', h')"
    using stream_run_total [of cs "(s, h)"] by auto
  have abs: "stream_abs s' (fold (log_step (unat cap)) cs empty_log)" and cap: "es_max_events s' = cap"
    using stream_run_abs [OF s(1) run] s(2) by simp_all
  have bound: "length (es_events s') \<le> unat cap"
    using abs log_batch_bound [of empty_log "unat cap" cs] by (simp add: stream_abs_def empty_log_def)
  have "\<forall>t v h. fst (publish t v s' h) \<longleftrightarrow> length (es_events s') < unat cap"
    by (simp add: publish_accepts cap)
  with run abs bound show ?thesis by (intro exI conjI)
qed

lemma event_stream_is_bounded_log_witness:
  "\<exists>s' h'. fold_opt stream_step [Publish 4 10, Publish 5 20, Publish 5 30, ConsumeAll, Publish 9 (40 :: nat)]
      (empty_stream\<lparr>es_max_events := 2\<rparr>, \<lambda>_. default_flow_accounting) = Some (s', h')
    \<and> es_events s' = [\<lparr>ev_tick = 9, ev_sequence = 2, ev_value = 40\<rparr>] \<and> es_rejected_events s' = 1"
proof -
  let ?cs = "[Publish 4 10, Publish 5 20, Publish 5 30, ConsumeAll, Publish 9 (40 :: nat)]"
  have res: "reserve_events 2 (empty_stream :: nat event_stream) = Some (empty_stream\<lparr>es_max_events := 2\<rparr>)"
    by (simp add: reserve_events_def empty_stream_def)
  have "fold (log_step (unat (2 :: u64))) ?cs empty_log = \<lparr>lg_batch = [(9, 40)], lg_before = 2, lg_refused = 1\<rparr>"
    by (simp add: empty_log_def)
  note run = event_stream_is_bounded_log [OF res, of ?cs "\<lambda>_. default_flow_accounting", unfolded this]
  have "es_events s' = [\<lparr>ev_tick = 9, ev_sequence = 2, ev_value = 40\<rparr>] \<and> es_rejected_events s' = 1"
    if "stream_abs s' \<lparr>lg_batch = [(9, 40)], lg_before = 2, lg_refused = 1\<rparr>" for s' :: "nat event_stream"
    using that by (simp add: stream_abs_def)
  note final = this
  obtain s' where s': "\<exists>h'. fold_opt stream_step ?cs (empty_stream\<lparr>es_max_events := 2\<rparr>, \<lambda>_. default_flow_accounting) = Some (s', h')
      \<and> stream_abs s' \<lparr>lg_batch = [(9, 40)], lg_before = 2, lg_refused = 1\<rparr>"
    using run by blast
  then show ?thesis using final [of s'] by blast
qed

text \<open>
  Flow accounting of a stream never loses an event: with a fresh accountant attached, after any
  calls every offer is admitted or rejected, every admitted event is completed, dropped or still
  in the batch, and once the batch is retired the tick-weighted inventory equals the accumulated
  residence of the events, as Little's law demands.
\<close>

theorem event_stream_conserves_flow:
  assumes "reserve_events cap (empty_stream\<lparr>es_accounting := Some p\<rparr>) = Some s"
    and "h p = default_flow_accounting" "fold_opt stream_step cs (s, h) = Some (s', h')"
  shows "fh_admission_identity_ok (flow_snapshot (h' p)) \<and> fh_retention_identity_ok (flow_snapshot (h' p))
    \<and> fc_outstanding_current (fa_counters (h' p)) = of_nat (length (es_events s'))
    \<and> (es_events s' = [] \<longrightarrow> fc_inventory_tick_weighted (fa_counters (h' p))
          = fc_residence_ticks_accumulated (fa_counters (h' p)))"
proof -
  have rep: "stream_rep p (s, h) []" and bal: "flow_balanced (stream_accountant p (s, h)) []"
    using assms(1,2) balanced_default
    by (auto simp: stream_rep_def reserve_events_def empty_stream_def stream_accountant_def)
  obtain ss where ss: "stream_rep p (s', h') ss" "flow_balanced (stream_accountant p (s', h')) ss"
    using stream_flow.run_balanced [OF rep bal assms(3)] by blast
  have drained: "ss' = []" if "es_events s' = []" "stream_rep p (s', h') ss'" for ss'
    using that by (simp add: stream_rep_def)
  show ?thesis
    using stream_flow.run_healthy [OF rep bal assms(3)] stream_flow.run_drained [OF rep bal assms(3)]
      ss drained
    by (auto simp: stream_accountant_def stream_rep_def flow_balanced_def)
qed

lemma event_stream_conserves_flow_witness:
  "\<exists>s' h'. fold_opt stream_step [Publish 4 ''a'', ObserveTick 7, Publish 5 ''b'', ObserveTick 9, ConsumeAll]
      (empty_stream\<lparr>es_accounting := Some 0, es_max_events := 2\<rparr>, \<lambda>_. default_flow_accounting) = Some (s', h')
    \<and> fc_inventory_tick_weighted (fa_counters (h' 0)) = fc_residence_ticks_accumulated (fa_counters (h' 0))"
proof -
  let ?s = "empty_stream\<lparr>es_accounting := Some 0, es_max_events := 2\<rparr> :: string event_stream"
  let ?cs = "[Publish 4 ''a'', ObserveTick 7, Publish 5 ''b'', ObserveTick 9, ConsumeAll]"
  have s: "reserve_events 2 (empty_stream\<lparr>es_accounting := Some 0\<rparr>) = Some ?s"
    by (simp add: reserve_events_def empty_stream_def)
  obtain s' h' where run: "fold_opt stream_step ?cs (?s, \<lambda>_. default_flow_accounting) = Some (s', h')"
    using stream_run_total [of ?cs "(?s, \<lambda>_. default_flow_accounting)"] by auto
  have "es_events s' = []"
    using consume_drains [of "[Publish 4 ''a'', ObserveTick 7, Publish 5 ''b'', ObserveTick 9]"] run by fastforce
  then show ?thesis using event_stream_conserves_flow [OF s refl run] run by blast
qed

end
