(* ===== verification/Async_Work.thy ===== *)
theory Async_Work
  imports Event_Stream
begin

text \<open>
  The cooperative work queue (ops/async_work.h). A continuation is a parameter of the model: a
  function of its budget, its result value and the application state, which either reports a
  step or throws. It cannot reach the queue's mutating operations, which abort during
  \<open>advance\<close>; \<open>None\<close> is a failed precondition or \<open>fail_fast\<close>.
\<close>

record async_ticket =
  at_index :: u32
  at_generation :: u64

definition null_ticket :: async_ticket where
  "null_ticket = \<lparr>at_index = 0, at_generation = 0\<rparr>"

datatype async_version = AsyncVersion (av_value: u64)

datatype async_result_state =
  Unbound | Immediate | Pending | Ready | Failed | Cancelled | Superseded | Stale

datatype async_step_state = StepPending | StepReady | StepFailed | StepStale

record async_work_step =
  ws_state :: async_step_state
  ws_items_done :: u32
  ws_result_version :: async_version

record async_advance_stats =
  as_invoked :: u32
  as_items_done :: u32
  as_pending :: u32
  as_ready :: u32
  as_failed :: u32
  as_stale :: u32

definition default_advance_stats :: async_advance_stats where
  "default_advance_stats = \<lparr>as_invoked = 0, as_items_done = 0, as_pending = 0, as_ready = 0,
     as_failed = 0, as_stale = 0\<rparr>"

type_synonym ('v, 'c) work_fn = "u32 \<Rightarrow> 'v \<Rightarrow> 'c \<Rightarrow> async_work_step option \<times> 'v \<times> 'c"

record ('v, 'c) work_slot =
  sl_value :: 'v
  sl_work :: "('v, 'c) work_fn option"
  sl_required_version :: async_version
  sl_result_version :: async_version
  sl_source :: string
  sl_state :: async_result_state
  sl_submitted_tick :: u64

definition default_slot :: "'v \<Rightarrow> ('v, 'c) work_slot" where
  "default_slot d = \<lparr>sl_value = d, sl_work = None, sl_required_version = AsyncVersion 0,
     sl_result_version = AsyncVersion 0, sl_source = [], sl_state = Unbound, sl_submitted_tick = 0\<rparr>"

record ('v, 'c) work_queue =
  rq_slots :: "('v, 'c) work_slot list"
  rq_generation :: u64
  rq_in_advance :: bool
  rq_accounting :: "nat option"

definition empty_queue :: "('v, 'c) work_queue" where
  "empty_queue = \<lparr>rq_slots = [], rq_generation = 1, rq_in_advance = False, rq_accounting = None\<rparr>"

definition on_accountant :: "nat option \<Rightarrow> (flow_accounting \<Rightarrow> flow_accounting) \<Rightarrow> accountants \<Rightarrow> accountants" where
  "on_accountant p f h = (case p of None \<Rightarrow> h | Some a \<Rightarrow> h(a := f (h a)))"

definition queue_set_accounting :: "nat option \<Rightarrow> ('v, 'c) work_queue \<Rightarrow> ('v, 'c) work_queue option" where
  "queue_set_accounting p q = (if rq_slots q \<noteq> [] then None else Some (q\<lparr>rq_accounting := p\<rparr>))"

definition queue_observe_tick :: "u64 \<Rightarrow> ('v, 'c) work_queue \<Rightarrow> accountants \<Rightarrow> accountants option" where
  "queue_observe_tick t q h =
     (if rq_in_advance q then None
      else Some (on_accountant (rq_accounting q) (\<lambda>a.
        let a' = observe_tick t a; now = fa_last_observed_tick a';
            pending = filter (\<lambda>s. sl_state s = Pending) (rq_slots q);
            oldest = fold (\<lambda>s m. if sl_submitted_tick s < m then sl_submitted_tick s else m) pending now
        in account (\<lambda>c. c\<lparr>fc_oldest_outstanding_age_ticks := (if pending \<noteq> [] then now - oldest else 0)\<rparr>) a') h))"

definition submit ::
    "'v \<Rightarrow> ('v, 'c) work_fn option \<Rightarrow> async_version \<Rightarrow> string \<Rightarrow> ('v, 'c) work_queue \<Rightarrow> accountants
     \<Rightarrow> (async_ticket \<times> ('v, 'c) work_queue \<times> accountants) option" where
  "submit d work required source q h =
     (if rq_in_advance q \<or> work = None \<or> 2 ^ 32 - 1 < length (rq_slots q) then None
      else let h' = on_accountant (rq_accounting q)
                      (\<lambda>a. record_admitted (account (\<lambda>c. c\<lparr>fc_offered := fc_offered c + 1\<rparr>) a)) h;
               stamp = (case rq_accounting q of None \<Rightarrow> 0 | Some p \<Rightarrow> fa_last_observed_tick (h' p));
               s = (default_slot d)\<lparr>sl_work := work, sl_required_version := required,
                     sl_source := source, sl_state := Pending, sl_submitted_tick := stamp\<rparr>
           in Some (\<lparr>at_index = of_nat (length (rq_slots q)), at_generation = rq_generation q\<rparr>,
                    q\<lparr>rq_slots := rq_slots q @ [s]\<rparr>, h'))"

definition submit_immediate ::
    "'v \<Rightarrow> async_version \<Rightarrow> string \<Rightarrow> ('v, 'c) work_queue \<Rightarrow> accountants
     \<Rightarrow> (async_ticket \<times> ('v, 'c) work_queue \<times> accountants) option" where
  "submit_immediate v version source q h =
     (if rq_in_advance q \<or> 2 ^ 32 - 1 < length (rq_slots q) then None
      else let s = (default_slot v)\<lparr>sl_result_version := version, sl_source := source, sl_state := Immediate\<rparr>
           in Some (\<lparr>at_index = of_nat (length (rq_slots q)), at_generation = rq_generation q\<rparr>,
                    q\<lparr>rq_slots := rq_slots q @ [s]\<rparr>,
                    on_accountant (rq_accounting q) (account (\<lambda>c. c\<lparr>fc_offered := fc_offered c + 1,
                      fc_admitted := fc_admitted c + 1, fc_completed := fc_completed c + 1\<rparr>)) h))"

definition terminal_bucket :: "async_result_state \<Rightarrow> flow_counters \<Rightarrow> flow_counters" where
  "terminal_bucket st c =
     (case st of
        Ready \<Rightarrow> c\<lparr>fc_completed := fc_completed c + 1\<rparr>
      | Failed \<Rightarrow> c\<lparr>fc_failed := fc_failed c + 1\<rparr>
      | Cancelled \<Rightarrow> c\<lparr>fc_cancelled := fc_cancelled c + 1\<rparr>
      | Superseded \<Rightarrow> c\<lparr>fc_superseded := fc_superseded c + 1\<rparr>
      | Stale \<Rightarrow> c\<lparr>fc_stale := fc_stale c + 1\<rparr>
      | _ \<Rightarrow> c)"

definition close_outstanding :: "('v, 'c) work_slot \<Rightarrow> flow_accounting \<Rightarrow> flow_accounting" where
  "close_outstanding s a = leave_item (sl_submitted_tick s) a"

definition account_terminal :: "('v, 'c) work_slot \<Rightarrow> flow_accounting \<Rightarrow> flow_accounting" where
  "account_terminal s a =
     (if sl_state s \<in> {Unbound, Immediate, Pending} then a
      else close_outstanding s (account (terminal_bucket (sl_state s)) a))"

definition step_result_state :: "async_step_state \<Rightarrow> async_result_state" where
  "step_result_state st = (case st of StepPending \<Rightarrow> Pending | StepReady \<Rightarrow> Ready
     | StepFailed \<Rightarrow> Failed | StepStale \<Rightarrow> Stale)"

fun advance_slots ::
    "('v, 'c) work_slot list \<Rightarrow> u32 \<Rightarrow> u32 \<Rightarrow> nat option \<Rightarrow> accountants \<Rightarrow> async_advance_stats \<Rightarrow> 'c
     \<Rightarrow> (bool \<times> ('v, 'c) work_slot list \<times> accountants \<times> async_advance_stats \<times> 'c) option" where
  "advance_slots [] remaining invocations p h st c = Some (True, [], h, st, c)"
| "advance_slots (s # ss) remaining invocations p h st c =
     (if remaining = 0 \<or> invocations = 0 then Some (True, s # ss, h, st, c)
      else if sl_state s \<noteq> Pending
      then map_option (\<lambda>(ok, ss', r). (ok, s # ss', r)) (advance_slots ss remaining invocations p h st c)
      else case sl_work s of
             None \<Rightarrow> None
           | Some work \<Rightarrow>
               (case work remaining (sl_value s) c of
                  (None, v, c') \<Rightarrow> Some (False, s\<lparr>sl_value := v\<rparr> # ss, h, st, c')
                | (Some step, v, c') \<Rightarrow>
                    let s1 = s\<lparr>sl_value := v\<rparr>; st1 = st\<lparr>as_invoked := as_invoked st + 1\<rparr>
                    in if remaining < ws_items_done step
                       then let s2 = s1\<lparr>sl_state := Failed\<rparr>
                            in map_option (\<lambda>(ok, ss', r). (ok, s2 # ss', r))
                                 (advance_slots ss remaining (invocations - 1) p
                                    (on_accountant p (account_terminal s2) h) st1 c')
                       else let s2 = s1\<lparr>sl_result_version := ws_result_version step,
                                        sl_state := step_result_state (ws_state step)\<rparr>;
                                h1 = on_accountant p (account (\<lambda>k. k\<lparr>fc_consumed_work_units :=
                                       fc_consumed_work_units k + ucast (ws_items_done step)\<rparr>)) h
                            in map_option (\<lambda>(ok, ss', r). (ok, s2 # ss', r))
                                 (advance_slots ss (remaining - ws_items_done step) (invocations - 1) p
                                    (on_accountant p (account_terminal s2) h1)
                                    (st1\<lparr>as_items_done := as_items_done st1 + ws_items_done step\<rparr>) c')))"

definition summarize_slot :: "('v, 'c) work_slot \<Rightarrow> async_advance_stats \<Rightarrow> async_advance_stats" where
  "summarize_slot s st =
     (case sl_state s of
        Pending \<Rightarrow> st\<lparr>as_pending := as_pending st + 1\<rparr>
      | Immediate \<Rightarrow> st\<lparr>as_ready := as_ready st + 1\<rparr>
      | Ready \<Rightarrow> st\<lparr>as_ready := as_ready st + 1\<rparr>
      | Failed \<Rightarrow> st\<lparr>as_failed := as_failed st + 1\<rparr>
      | Cancelled \<Rightarrow> st\<lparr>as_failed := as_failed st + 1\<rparr>
      | Superseded \<Rightarrow> st\<lparr>as_failed := as_failed st + 1\<rparr>
      | Stale \<Rightarrow> st\<lparr>as_stale := as_stale st + 1\<rparr>
      | Unbound \<Rightarrow> st)"

definition summarize_states :: "('v, 'c) work_slot list \<Rightarrow> async_advance_stats \<Rightarrow> async_advance_stats" where
  "summarize_states ss st = fold summarize_slot ss st"

text \<open>\<open>advance\<close> returns the statistics, or no statistics when a continuation threw.\<close>

definition advance ::
    "u32 \<Rightarrow> ('v, 'c) work_queue \<Rightarrow> accountants \<Rightarrow> 'c
     \<Rightarrow> (async_advance_stats option \<times> ('v, 'c) work_queue \<times> accountants \<times> 'c) option" where
  "advance budget q h c =
     (if rq_in_advance q then None
      else let h0 = on_accountant (rq_accounting q) (account (\<lambda>k. k\<lparr>fc_offered_work_units :=
                      fc_offered_work_units k + ucast budget\<rparr>)) h
           in map_option (\<lambda>(ok, ss, h', st, c').
                ((if ok then Some (summarize_states ss st) else None),
                 q\<lparr>rq_slots := ss, rq_in_advance := False\<rparr>, h', c'))
                (advance_slots (rq_slots q) budget budget (rq_accounting q) h0 default_advance_stats c))"

definition queue_find :: "async_ticket \<Rightarrow> ('v, 'c) work_queue \<Rightarrow> ('v, 'c) work_slot option" where
  "queue_find t q = (if at_generation t \<noteq> rq_generation q then None
     else nth_opt (rq_slots q) (unat (at_index t)))"

definition ticket_state :: "async_ticket \<Rightarrow> ('v, 'c) work_queue \<Rightarrow> async_result_state" where
  "ticket_state t q = (case queue_find t q of None \<Rightarrow> Unbound | Some s \<Rightarrow> sl_state s)"

definition ticket_result :: "async_ticket \<Rightarrow> ('v, 'c) work_queue \<Rightarrow> 'v option" where
  "ticket_result t q = (case queue_find t q of None \<Rightarrow> None
     | Some s \<Rightarrow> if sl_state s \<noteq> Immediate \<and> sl_state s \<noteq> Ready then None else Some (sl_value s))"

definition ticket_required_version :: "async_ticket \<Rightarrow> ('v, 'c) work_queue \<Rightarrow> async_version" where
  "ticket_required_version t q = (case queue_find t q of None \<Rightarrow> AsyncVersion 0 | Some s \<Rightarrow> sl_required_version s)"

definition ticket_result_version :: "async_ticket \<Rightarrow> ('v, 'c) work_queue \<Rightarrow> async_version" where
  "ticket_result_version t q = (case queue_find t q of None \<Rightarrow> AsyncVersion 0 | Some s \<Rightarrow> sl_result_version s)"

definition ticket_source :: "async_ticket \<Rightarrow> ('v, 'c) work_queue \<Rightarrow> string" where
  "ticket_source t q = (case queue_find t q of None \<Rightarrow> [] | Some s \<Rightarrow> sl_source s)"

definition put_slot :: "async_ticket \<Rightarrow> ('v, 'c) work_slot \<Rightarrow> ('v, 'c) work_queue \<Rightarrow> ('v, 'c) work_queue" where
  "put_slot t s q = q\<lparr>rq_slots := (rq_slots q)[unat (at_index t) := s]\<rparr>"

definition set_terminal ::
    "async_ticket \<Rightarrow> async_result_state \<Rightarrow> ('v, 'c) work_queue \<Rightarrow> accountants
     \<Rightarrow> (bool \<times> ('v, 'c) work_queue \<times> accountants) option" where
  "set_terminal t st q h =
     (if rq_in_advance q then None
      else case queue_find t q of
             None \<Rightarrow> Some (False, q, h)
           | Some s \<Rightarrow>
               if sl_state s \<noteq> Pending then Some (False, q, h)
               else let s' = s\<lparr>sl_state := st\<rparr>
                    in Some (True, put_slot t s' q, on_accountant (rq_accounting q) (account_terminal s') h))"

definition cancel where "cancel t = set_terminal t Cancelled"
definition supersede where "supersede t = set_terminal t Superseded"
definition fail_ticket where "fail_ticket t = set_terminal t Failed"
definition mark_stale where "mark_stale t = set_terminal t Stale"

definition mark_stale_if_version ::
    "async_ticket \<Rightarrow> async_version \<Rightarrow> ('v, 'c) work_queue \<Rightarrow> accountants
     \<Rightarrow> (bool \<times> ('v, 'c) work_queue \<times> accountants) option" where
  "mark_stale_if_version t current q h =
     (if rq_in_advance q then None
      else case queue_find t q of
             None \<Rightarrow> Some (False, q, h)
           | Some s \<Rightarrow>
               if (sl_state s \<noteq> Immediate \<and> sl_state s \<noteq> Ready) \<or> sl_result_version s = current
               then Some (False, q, h)
               else Some (True, put_slot t (s\<lparr>sl_state := Stale\<rparr>) q,
                      on_accountant (rq_accounting q) (account (\<lambda>c.
                        let c1 = (if 0 < fc_completed c then c\<lparr>fc_completed := fc_completed c - 1\<rparr> else c)
                        in c1\<lparr>fc_stale := fc_stale c1 + 1\<rparr>)) h))"

definition drop_pending :: "('v, 'c) work_slot \<Rightarrow> flow_accounting \<Rightarrow> flow_accounting" where
  "drop_pending s a =
     (if sl_state s = Pending
      then close_outstanding s (account (\<lambda>c. c\<lparr>fc_dropped_after_admission := fc_dropped_after_admission c + 1\<rparr>) a)
      else a)"

definition queue_clear ::
    "('v, 'c) work_queue \<Rightarrow> accountants \<Rightarrow> (('v, 'c) work_queue \<times> accountants) option" where
  "queue_clear q h =
     (if rq_in_advance q then None
      else Some (let g = rq_generation q + 1
                 in (q\<lparr>rq_slots := [], rq_generation := (if g = 0 then g + 1 else g)\<rparr>,
                     on_accountant (rq_accounting q) (fold drop_pending (rq_slots q)) h)))"

subsection \<open>Calls\<close>

datatype ('v, 'c) queue_call =
    Submit 'v "('v, 'c) work_fn option" async_version string
  | SubmitImmediate 'v async_version string
  | Advance u32
  | Cancel async_ticket
  | Supersede async_ticket
  | FailTicket async_ticket
  | MarkStale async_ticket
  | MarkStaleIfVersion async_ticket async_version
  | ClearQueue
  | QueueTick u64

type_synonym ('v, 'c) queue_state = "('v, 'c) work_queue \<times> accountants \<times> 'c"

definition in_app :: "'c \<Rightarrow> ('r \<times> ('v, 'c) work_queue \<times> accountants) option \<Rightarrow> ('v, 'c) queue_state option" where
  "in_app c r = map_option (\<lambda>(_, q, h). (q, h, c)) r"

fun queue_step :: "('v, 'c) queue_call \<Rightarrow> ('v, 'c) queue_state \<Rightarrow> ('v, 'c) queue_state option" where
  "queue_step (Submit d w v src) (q, h, c) = in_app c (submit d w v src q h)"
| "queue_step (SubmitImmediate v ver src) (q, h, c) = in_app c (submit_immediate v ver src q h)"
| "queue_step (Advance b) (q, h, c) = map_option snd (advance b q h c)"
| "queue_step (Cancel t) (q, h, c) = in_app c (cancel t q h)"
| "queue_step (Supersede t) (q, h, c) = in_app c (supersede t q h)"
| "queue_step (FailTicket t) (q, h, c) = in_app c (fail_ticket t q h)"
| "queue_step (MarkStale t) (q, h, c) = in_app c (mark_stale t q h)"
| "queue_step (MarkStaleIfVersion t v) (q, h, c) = in_app c (mark_stale_if_version t v q h)"
| "queue_step ClearQueue (q, h, c) = map_option (\<lambda>(q', h'). (q', h', c)) (queue_clear q h)"
| "queue_step (QueueTick t) (q, h, c) = map_option (\<lambda>h'. (q, h', c)) (queue_observe_tick t q h)"

lemmas setter_defs = cancel_def supersede_def fail_ticket_def mark_stale_def

fun_cases queue_stepE: "queue_step c (q, h, a) = Some x'"


subsection \<open>One pass of the queue\<close>

definition slot_progress :: "('v, 'c) work_slot \<Rightarrow> ('v, 'c) work_slot \<Rightarrow> bool" where
  "slot_progress s s' \<longleftrightarrow> (if sl_state s \<noteq> Pending then s' = s
     else sl_state s' \<in> {Pending, Ready, Failed, Stale} \<and> sl_submitted_tick s' = sl_submitted_tick s
          \<and> sl_work s' = sl_work s \<and> sl_required_version s' = sl_required_version s \<and> sl_source s' = sl_source s)"

lemma slot_progress_refl [simp]: "slot_progress s s"
  by (simp add: slot_progress_def)

lemma all_progress_refl [simp]: "list_all2 slot_progress ss ss"
  by (simp add: list.rel_refl)

abbreviation pending_slots :: "('v, 'c) work_slot list \<Rightarrow> ('v, 'c) work_slot list" where
  "pending_slots ss \<equiv> filter (\<lambda>s. sl_state s = Pending) ss"

lemma step_result_state_cases: "step_result_state st \<in> {Pending, Ready, Failed, Stale}"
  by (cases st) (simp_all add: step_result_state_def)

text \<open>
  \<open>pass_of ss k di dn\<close>: the pass reached exactly the first \<open>k\<close> slots, invoked \<open>di\<close> continuations
  and consumed \<open>dn\<close> items.
\<close>

definition pass_ok ::
    "bool \<Rightarrow> ('v, 'c) work_slot list \<Rightarrow> ('v, 'c) work_slot list \<Rightarrow> nat \<Rightarrow> nat \<Rightarrow> nat \<Rightarrow> nat \<Rightarrow> nat \<Rightarrow> bool" where
  "pass_ok ok ss ss' r i k di dn \<longleftrightarrow>
     k \<le> length ss \<and> drop k ss' = drop k ss \<and> list_all2 slot_progress ss ss' \<and> di \<le> i \<and> dn \<le> r
     \<and> (ok \<longrightarrow> di = length (pending_slots (take k ss)) \<and> (k < length ss \<longrightarrow> di = i \<or> dn = r))
     \<and> (\<not> ok \<longrightarrow> 0 < k \<and> sl_state (ss' ! (k - 1)) = Pending \<and> Suc di = length (pending_slots (take k ss)))"

lemma pass_skip:
  assumes "pass_ok ok ss ss' r i k di dn" "sl_state s \<noteq> Pending"
  shows "pass_ok ok (s # ss) (s # ss') r i (Suc k) di dn"
  using assms by (auto simp: pass_ok_def nth_Cons')

lemma pass_invoke:
  assumes "pass_ok ok ss ss' r' i' k di dn" "sl_state s = Pending" "slot_progress s s'"
    and "Suc i' \<le> i" "r' + e \<le> r" "Suc i' = i" "r' + e = r"
  shows "pass_ok ok (s # ss) (s' # ss') r i (Suc k) (Suc di) (dn + e)"
  using assms by (auto simp: pass_ok_def nth_Cons')

lemma pass_stop:
  "r = 0 \<or> i = 0 \<Longrightarrow> pass_ok True ss ss r i 0 0 0"
  by (auto simp: pass_ok_def)

lemma pass_throw:
  "0 < i \<Longrightarrow> sl_state s = Pending \<Longrightarrow> slot_progress s s' \<Longrightarrow> sl_state s' = Pending \<Longrightarrow>
     pass_ok False (s # ss) (s' # ss) r i 1 0 0"
  by (simp add: pass_ok_def)

lemma u32_pred: "(i :: u32) \<noteq> 0 \<Longrightarrow> Suc (unat (i - 1)) = unat i"
  using unat_minus_one [of i] by (simp add: unat_gt_0)

lemma u32_sub: "\<not> (r :: u32) < n \<Longrightarrow> unat (r - n) + unat n = unat r"
  using unat_sub [of n r] by (simp add: word_le_nat_alt not_less)

text \<open>
  The three ways a pending slot at the front of the remaining list is served, as one
  case distinction for the inductions over a pass.
\<close>

lemma advance_slots_cases:
  assumes "advance_slots (s # ss) r i p h st c = Some (ok, out, h', st', c')"
  obtains (stop) "r = 0 \<or> i = 0" "ok" "out = s # ss" "h' = h" "st' = st"
  | (skip) ss' where "r \<noteq> 0" "i \<noteq> 0" "sl_state s \<noteq> Pending" "out = s # ss'"
      "advance_slots ss r i p h st c = Some (ok, ss', h', st', c')"
  | (throw) v where "r \<noteq> 0" "i \<noteq> 0" "sl_state s = Pending" "\<not> ok" "out = s\<lparr>sl_value := v\<rparr> # ss" "h' = h" "st' = st"
  | (overrun) v c1 ss' n where "r \<noteq> 0" "i \<noteq> 0" "sl_state s = Pending" "out = s\<lparr>sl_value := v, sl_state := Failed\<rparr> # ss'"
      "advance_slots ss r (i - 1) p (on_accountant p (account_terminal (s\<lparr>sl_value := v, sl_state := Failed\<rparr>)) h)
         (st\<lparr>as_invoked := as_invoked st + 1\<rparr>) c1 = Some (ok, ss', h', st', c')" "r < n"
  | (served) v and step :: async_work_step and c1 ss' s2 where "r \<noteq> 0" "i \<noteq> 0" "sl_state s = Pending" "out = s2 # ss'"
      "s2 = s\<lparr>sl_value := v, sl_result_version := ws_result_version step, sl_state := step_result_state (ws_state step)\<rparr>"
      "advance_slots ss (r - ws_items_done step) (i - 1) p
         (on_accountant p (account_terminal s2) (on_accountant p (account (\<lambda>k. k\<lparr>fc_consumed_work_units :=
            fc_consumed_work_units k + ucast (ws_items_done step)\<rparr>)) h))
         (st\<lparr>as_invoked := as_invoked st + 1, as_items_done := as_items_done st + ws_items_done step\<rparr>) c1
       = Some (ok, ss', h', st', c')" "\<not> r < ws_items_done step"
proof (cases "r = 0 \<or> i = 0")
  case True
  with assms stop show thesis by simp
next
  case False
  show thesis
  proof (cases "sl_state s = Pending")
    case no: False
    obtain x where x: "advance_slots ss r i p h st c = Some x"
      using assms False no by (cases "advance_slots ss r i p h st c") simp_all
    obtain ok1 ss1 h1 st1 c2 where "x = (ok1, ss1, h1, st1, c2)" by (cases x)
    with x assms False no show thesis by (intro skip [where ss' = ss1]) simp_all
  next
    case yes: True
    obtain w where w: "sl_work s = Some w" using assms False yes by (cases "sl_work s") simp_all
    obtain res v c1 where wr: "w r (sl_value s) c = (res, v, c1)" by (cases "w r (sl_value s) c")
    show thesis
    proof (cases res)
      case None
      with assms False yes w wr show thesis by (intro throw [where v = v]) simp_all
    next
      case (Some step)
      show thesis
      proof (cases "r < ws_items_done step")
        case True
        let ?call = "advance_slots ss r (i - 1) p (on_accountant p (account_terminal (s\<lparr>sl_value := v, sl_state := Failed\<rparr>)) h)
            (st\<lparr>as_invoked := as_invoked st + 1\<rparr>) c1"
        obtain x where x: "?call = Some x" using assms False yes w wr Some True by (cases ?call) simp_all
        obtain ok1 ss1 h1 st1 c2 where "x = (ok1, ss1, h1, st1, c2)" by (cases x)
        with x assms False yes w wr Some True show thesis
          by (intro overrun [where v = v and ?c1.0 = c1 and ss' = ss1 and n = "ws_items_done step"]) simp_all
      next
        case ge: False
        let ?s2 = "s\<lparr>sl_value := v, sl_result_version := ws_result_version step, sl_state := step_result_state (ws_state step)\<rparr>"
        let ?call = "advance_slots ss (r - ws_items_done step) (i - 1) p
         (on_accountant p (account_terminal ?s2) (on_accountant p (account (\<lambda>k. k\<lparr>fc_consumed_work_units :=
            fc_consumed_work_units k + ucast (ws_items_done step)\<rparr>)) h))
         (st\<lparr>as_invoked := as_invoked st + 1, as_items_done := as_items_done st + ws_items_done step\<rparr>) c1"
        obtain x where x: "?call = Some x" using assms False yes w wr Some ge by (cases ?call) (simp_all add: Let_def)
        obtain ok1 ss1 h1 st1 c2 where "x = (ok1, ss1, h1, st1, c2)" by (cases x)
        with x assms False yes w wr Some ge show thesis
          by (intro served [where v = v and step = step and ?c1.0 = c1 and ss' = ss1 and ?s2.0 = ?s2]) (simp_all add: Let_def)
      qed
    qed
  qed
qed

lemma advance_slots_pass:
  "advance_slots ss r i p h st c = Some (ok, ss', h', st', c') \<Longrightarrow>
     \<exists>k di dn. pass_ok ok ss ss' (unat r) (unat i) k di dn
       \<and> as_invoked st' = as_invoked st + of_nat di \<and> as_items_done st' = as_items_done st + of_nat dn"
proof (induction ss arbitrary: r i h st c ss' h' st' c')
  case Nil
  then show ?case by (intro exI [of _ 0]) (simp add: pass_ok_def)
next
  case (Cons s ss)
  from Cons.prems show ?case
  proof (cases rule: advance_slots_cases)
    case stop
    then show ?thesis using pass_stop [of "unat r" "unat i" "s # ss"] by (intro exI [of _ 0]) (auto simp: unat_eq_0)
  next
    case (skip ss1)
    obtain k di dn where k: "pass_ok ok ss ss1 (unat r) (unat i) k di dn"
      "as_invoked st' = as_invoked st + of_nat di" "as_items_done st' = as_items_done st + of_nat dn"
      using Cons.IH [OF skip(5)] by blast
    show ?thesis unfolding skip(4) using pass_skip [OF k(1) skip(3)] k(2,3) by blast
  next
    case (throw v)
    have "pass_ok False (s # ss) (s\<lparr>sl_value := v\<rparr> # ss) (unat r) (unat i) 1 0 0"
      by (rule pass_throw) (use throw in \<open>simp_all add: unat_gt_0 slot_progress_def\<close>)
    then show ?thesis using throw by (intro exI [of _ 1] exI [of _ 0]) simp
  next
    case (overrun v c1 ss1 n)
    obtain k di dn where k: "pass_ok ok ss ss1 (unat r) (unat (i - 1)) k di dn"
      "as_invoked st' = as_invoked st + 1 + of_nat di" "as_items_done st' = as_items_done st + of_nat dn"
      using Cons.IH [OF overrun(5)] by auto
    have "pass_ok ok (s # ss) out (unat r) (unat i) (Suc k) (Suc di) (dn + 0)" if "out = s\<lparr>sl_value := v, sl_state := Failed\<rparr> # ss1" for out
      unfolding that by (rule pass_invoke [OF k(1) overrun(3)])
        (use u32_pred [OF overrun(2)] overrun(3) in \<open>simp_all add: slot_progress_def\<close>)
    from this [OF overrun(4)] show ?thesis using k(2,3) by (intro exI [of _ "Suc k"] exI [of _ "Suc di"] exI [of _ dn]) simp
  next
    case (served v step c1 ss1 s2)
    obtain k di dn where k: "pass_ok ok ss ss1 (unat (r - ws_items_done step)) (unat (i - 1)) k di dn"
      "as_invoked st' = as_invoked st + 1 + of_nat di"
      "as_items_done st' = as_items_done st + ws_items_done step + of_nat dn"
      using Cons.IH [OF served(6)] by auto
    have prog: "slot_progress s s2"
      using served(3,5) step_result_state_cases [of "ws_state step"] by (simp add: slot_progress_def)
    have "pass_ok ok (s # ss) (s2 # ss1) (unat r) (unat i) (Suc k) (Suc di) (dn + unat (ws_items_done step))"
      by (rule pass_invoke [OF k(1) served(3) prog])
        (use u32_pred [OF served(2)] u32_sub [OF served(7)] in simp_all)
    then show ?thesis unfolding served(4) using k(2,3)
      by (intro exI [of _ "Suc k"] exI [of _ "Suc di"] exI [of _ "dn + unat (ws_items_done step)"])
        (simp add: algebra_simps)
  qed
qed

subsection \<open>The queue as an accounted flow\<close>

text \<open>
  Besides the balance, the reclassification in \<open>mark_stale_if_version\<close> needs \<open>completed\<close> to count
  the settled results that are still in the queue; it does as long as the counter has not
  wrapped, which \<open>y\<close> bounds: pending tickets plus calls still to come.
\<close>

definition acct_ok :: "flow_accounting \<Rightarrow> u64 list \<Rightarrow> nat \<Rightarrow> nat \<Rightarrow> bool" where
  "acct_ok a stamps x y \<longleftrightarrow> flow_balanced a stamps \<and> x \<le> unat (fc_completed (fa_counters a))
     \<and> unat (fc_completed (fa_counters a)) + y < 2 ^ 64"

definition stamps :: "('v, 'c) work_slot list \<Rightarrow> u64 list" where
  "stamps ss = map sl_submitted_tick (pending_slots ss)"

definition settled :: "('v, 'c) work_slot list \<Rightarrow> nat" where
  "settled ss = length (filter (\<lambda>s. sl_state s = Immediate \<or> sl_state s = Ready) ss)"

lemma stamps_simps [simp]:
  "stamps [] = []"
  "stamps (s # ss) = (if sl_state s = Pending then sl_submitted_tick s # stamps ss else stamps ss)"
  "stamps (xs @ ys) = stamps xs @ stamps ys"
  by (simp_all add: stamps_def)

lemma settled_simps [simp]:
  "settled [] = 0"
  "settled (s # ss) = (if sl_state s = Immediate \<or> sl_state s = Ready then Suc (settled ss) else settled ss)"
  "settled (xs @ ys) = settled xs + settled ys"
  by (simp_all add: settled_def)

lemma one_terminal_bucket:
  "st \<notin> {Unbound, Immediate, Pending} \<Longrightarrow> one_terminal (terminal_bucket st)"
  by (cases st) (simp_all add: terminal_bucket_def [abs_def] one_terminal_intros)

lemma leave_item_completed [simp]:
  "fc_completed (fa_counters (leave_item s a)) = fc_completed (fa_counters a)"
  by (simp add: leave_item_def record_left_outstanding_def account_def Let_def)

lemma acct_ok_terminal:
  assumes "acct_ok a (xs @ sl_submitted_tick s # ys) x (Suc y)" "sl_state s \<notin> {Unbound, Immediate, Pending}"
  shows "acct_ok (account_terminal s a) (xs @ ys) (x + (if sl_state s = Ready then 1 else 0)) y"
proof -
  have eq: "account_terminal s a = leave_item (sl_submitted_tick s) (account (terminal_bucket (sl_state s)) a)"
    using assms(2) by (auto simp: account_terminal_def close_outstanding_def)
  have "flow_balanced (account_terminal s a) (xs @ ys)"
    unfolding eq by (rule balanced_leave [OF _ one_terminal_bucket [OF assms(2)]])
      (use assms(1) in \<open>simp add: acct_ok_def\<close>)
  moreover have "unat (fc_completed (fa_counters a) + 1) = Suc (unat (fc_completed (fa_counters a)))"
    using assms(1) by (simp add: acct_ok_def unat_word_ariths)
  ultimately show ?thesis
    using assms unfolding acct_ok_def
    by (cases "sl_state s") (auto simp: eq account_def terminal_bucket_def)
qed

lemma acct_ok_work:
  "acct_ok (account (\<lambda>k. k\<lparr>fc_consumed_work_units := n\<rparr>) a) ss x y = acct_ok a ss x y"
  "acct_ok (account (\<lambda>k. k\<lparr>fc_offered_work_units := n\<rparr>) a) ss x y = acct_ok a ss x y"
  "acct_ok (account (\<lambda>k. k\<lparr>fc_oldest_outstanding_age_ticks := n\<rparr>) a) ss x y = acct_ok a ss x y"
  by (simp_all add: acct_ok_def flow_balanced_def account_def flow_identities)

lemma acct_ok_mono: "acct_ok a ss x y \<Longrightarrow> x' \<le> x \<Longrightarrow> y' \<le> y \<Longrightarrow> acct_ok a ss x' y'"
  by (simp add: acct_ok_def)

lemma on_accountant_some [simp]: "on_accountant (Some p) f h p = f (h p)"
  by (simp add: on_accountant_def)

lemma acct_ok_leave:
  assumes "acct_ok a (xs @ t # ys) x (Suc y)" "one_terminal f"
    and "\<And>c. fc_completed (f c) = fc_completed c"
  shows "acct_ok (leave_item t (account f a)) (xs @ ys) x y"
  using assms balanced_leave [of a xs t ys f] by (simp add: acct_ok_def account_def)

lemma account_terminal_pending [simp]: "sl_state s = Pending \<Longrightarrow> account_terminal s a = a"
  by (simp add: account_terminal_def)

lemma advance_slots_acct:
  "advance_slots ss r i (Some p) h st c = Some (ok, ss', h', st', c') \<Longrightarrow>
   acct_ok (h p) (pre @ stamps ss) (x + settled ss) (length (stamps ss) + y) \<Longrightarrow>
   acct_ok (h' p) (pre @ stamps ss') (x + settled ss') (length (stamps ss') + y)"
proof (induction ss arbitrary: r i h st c ss' h' st' c' pre x y)
  case (Cons s ss)
  from Cons.prems(1) show ?case
  proof (cases rule: advance_slots_cases)
    case (skip ss1)
    let ?x = "x + settled [s]"
    have "acct_ok (h p) (pre @ stamps ss) (?x + settled ss) (length (stamps ss) + y)"
      using Cons.prems(2) skip(3) by (cases "sl_state s") simp_all
    from Cons.IH [OF skip(5) this] show ?thesis using skip(3,4) by (cases "sl_state s") simp_all
  next
    case (overrun v c1 ss1 n)
    let ?s = "s\<lparr>sl_value := v, sl_state := Failed\<rparr>"
    have "acct_ok (account_terminal ?s (h p)) (pre @ stamps ss) (x + settled ss + 0) (length (stamps ss) + y)"
      using acct_ok_terminal [of "h p" pre ?s "stamps ss" "x + settled ss" "length (stamps ss) + y"]
        Cons.prems(2) overrun(3) by simp
    with Cons.IH [OF overrun(5), of pre x y] show ?thesis using overrun(4) by simp
  next
    case (served v step c1 ss1 s2)
    let ?h = "account (\<lambda>k. k\<lparr>fc_consumed_work_units := fc_consumed_work_units k + ucast (ws_items_done step)\<rparr>) (h p)"
    have tick: "sl_submitted_tick s2 = sl_submitted_tick s" and st2: "sl_state s2 = step_result_state (ws_state step)"
      using served(5) by simp_all
    have work: "acct_ok ?h (pre @ sl_submitted_tick s2 # stamps ss) (x + settled ss) (Suc (length (stamps ss) + y))"
      using Cons.prems(2) served(3) by (simp add: acct_ok_work(1) [of _ "h p", simplified] tick acct_ok_def
          flow_balanced_def account_def flow_identities)
    show ?thesis
    proof (cases "sl_state s2 = Pending")
      case True
      have "acct_ok (account_terminal s2 ?h) ((pre @ [sl_submitted_tick s2]) @ stamps ss) (x + settled ss)
          (length (stamps ss) + Suc y)"
        using work True by simp
      with Cons.IH [OF served(6), of "pre @ [sl_submitted_tick s2]" x "Suc y"] show ?thesis
        using served(4) True by simp
    next
      case False
      then have nz: "sl_state s2 \<notin> {Unbound, Immediate, Pending}"
        using step_result_state_cases [of "ws_state step"] st2 by auto
      let ?x = "x + (if sl_state s2 = Ready then 1 else 0)"
      have "acct_ok (account_terminal s2 ?h) (pre @ stamps ss) (?x + settled ss) (length (stamps ss) + y)"
        using acct_ok_terminal [OF work nz] by (simp add: ac_simps)
      with Cons.IH [OF served(6), of pre ?x y] show ?thesis
        using served(4) False nz by (cases "sl_state s2 = Ready") simp_all
    qed
  qed (use Cons.prems(2) in simp_all)
qed auto

lemma slots_split:
  "i < length ss \<Longrightarrow> ss = take i ss @ ss ! i # drop (Suc i) ss \<and> ss[i := s] = take i ss @ s # drop (Suc i) ss"
  by (simp add: id_take_nth_drop upd_conv_take_nth_drop)

lemma clear_acct:
  "acct_ok a (stamps ss) x (length (stamps ss) + y) \<Longrightarrow> acct_ok (fold drop_pending ss a) [] x y"
proof (induction ss arbitrary: a)
  case (Cons s ss)
  show ?case
  proof (cases "sl_state s = Pending")
    case True
    have "acct_ok (drop_pending s a) ([] @ stamps ss) x (length (stamps ss) + y)"
      using Cons.prems True unfolding drop_pending_def close_outstanding_def
      by (simp add: acct_ok_leave [where xs = "[]", simplified] one_terminal_intros)
    with Cons.IH show ?thesis by simp
  next
    case False
    with Cons show ?thesis by (simp add: drop_pending_def)
  qed
qed simp

text \<open>
  The flow of the queue: \<open>n\<close> counts the calls still to come, which keeps the counters below the
  point where they wrap.
\<close>

fun counted_step :: "('v, 'c) queue_call \<Rightarrow> nat \<times> ('v, 'c) queue_state \<Rightarrow> (nat \<times> ('v, 'c) queue_state) option" where
  "counted_step c (0, x) = None"
| "counted_step c (Suc n, x) = map_option (Pair n) (queue_step c x)"

fun queue_rep :: "nat \<Rightarrow> nat \<times> ('v, 'c) queue_state \<Rightarrow> u64 list \<Rightarrow> bool" where
  "queue_rep p (n, q, h, c) ss \<longleftrightarrow> rq_accounting q = Some p \<and> length (rq_slots q) \<le> 2 ^ 32
     \<and> ss = stamps (rq_slots q) \<and> acct_ok (h p) ss (settled (rq_slots q)) (length ss + n)"

fun queue_accountant :: "nat \<Rightarrow> nat \<times> ('v, 'c) queue_state \<Rightarrow> flow_accounting" where
  "queue_accountant p (n, q, h, c) = h p"

lemma queue_repI:
  assumes "rq_accounting q = Some p" "length (rq_slots q) \<le> 2 ^ 32"
    and "acct_ok (h p) (stamps (rq_slots q)) (settled (rq_slots q)) (length (stamps (rq_slots q)) + n)"
  shows "\<exists>ss. queue_rep p (n, q, h, c) ss"
  using assms by simp

lemma queue_repD:
  assumes "queue_rep p (n, q, h, c) ss"
  shows "rq_accounting q = Some p" "length (rq_slots q) \<le> 2 ^ 32"
    "acct_ok (h p) (stamps (rq_slots q)) (settled (rq_slots q)) (length (stamps (rq_slots q)) + n)"
  using assms by auto

lemma stamps_length: "length (stamps ss) \<le> length ss"
  by (simp add: stamps_def)

lemma submit_rep:
  assumes "queue_rep p (Suc n, q, h, c) ss" "submit d w v src q h = Some (t, q', h')"
  shows "\<exists>ss'. queue_rep p (n, q', h', c') ss'"
proof (rule queue_repI)
  have q': "q' = q\<lparr>rq_slots := rq_slots q @ [(default_slot d)\<lparr>sl_work := w, sl_required_version := v,
      sl_source := src, sl_state := Pending, sl_submitted_tick := fa_last_observed_tick (h p)\<rparr>]\<rparr>"
    and h': "h' p = record_admitted (account (\<lambda>c. c\<lparr>fc_offered := fc_offered c + 1\<rparr>) (h p))"
    and room: "length (rq_slots q) < 2 ^ 32"
    using assms queue_repD [OF assms(1)] by (auto simp: submit_def Let_def split: if_splits)
  show "rq_accounting q' = Some p" "length (rq_slots q') \<le> 2 ^ 32" using queue_repD [OF assms(1)] q' room by simp_all
  have "flow_balanced (h' p) (stamps (rq_slots q) @ [fa_last_observed_tick (h p)])"
    unfolding h' by (rule balanced_admit)
      (use queue_repD [OF assms(1)] room stamps_length [of "rq_slots q"] in \<open>simp_all add: acct_ok_def\<close>)
  then show "acct_ok (h' p) (stamps (rq_slots q')) (settled (rq_slots q')) (length (stamps (rq_slots q')) + n)"
    using queue_repD [OF assms(1)] q' by (simp add: acct_ok_def h' record_admitted_def account_def Let_def)
qed

lemma submit_immediate_rep:
  assumes "queue_rep p (Suc n, q, h, c) ss" "submit_immediate v ver src q h = Some (t, q', h')"
  shows "\<exists>ss'. queue_rep p (n, q', h', c') ss'"
proof (rule queue_repI)
  have q': "q' = q\<lparr>rq_slots := rq_slots q @ [(default_slot v)\<lparr>sl_result_version := ver, sl_source := src,
      sl_state := Immediate\<rparr>]\<rparr>"
    and h': "h' p = account (\<lambda>c. c\<lparr>fc_offered := fc_offered c + 1, fc_admitted := fc_admitted c + 1,
      fc_completed := fc_completed c + 1\<rparr>) (h p)"
    and room: "length (rq_slots q) < 2 ^ 32"
    using assms by (auto simp: submit_immediate_def Let_def split: if_splits)
  show "rq_accounting q' = Some p" "length (rq_slots q') \<le> 2 ^ 32" using queue_repD [OF assms(1)] q' room by simp_all
  have "flow_balanced (h' p) (stamps (rq_slots q))"
    using queue_repD(3) [OF assms(1)] by (simp add: h' acct_ok_def flow_balanced_def account_def flow_identities)
  moreover have "unat (fc_completed (fa_counters (h p)) + 1) = Suc (unat (fc_completed (fa_counters (h p))))"
    using queue_repD(3) [OF assms(1)] by (simp add: acct_ok_def unat_word_ariths)
  ultimately show "acct_ok (h' p) (stamps (rq_slots q')) (settled (rq_slots q')) (length (stamps (rq_slots q')) + n)"
    using queue_repD [OF assms(1)] q' by (simp add: acct_ok_def h' account_def)
qed

lemma advance_rep:
  assumes "queue_rep p (Suc n, q, h, c) ss" "advance b q h c = Some (r, q', h', c')"
  shows "\<exists>ss'. queue_rep p (n, q', h', c') ss'"
proof -
  let ?h0 = "on_accountant (Some p) (account (\<lambda>k. k\<lparr>fc_offered_work_units := fc_offered_work_units k + ucast b\<rparr>)) h"
  have p: "rq_accounting q = Some p" using assms(1) by simp
  obtain ok ss1 st where a: "advance_slots (rq_slots q) b b (Some p) ?h0 default_advance_stats c = Some (ok, ss1, h', st, c')"
    and q': "q' = q\<lparr>rq_slots := ss1, rq_in_advance := False\<rparr>"
    using assms(2) p by (auto simp: advance_def Let_def split: if_splits)
  have "acct_ok (?h0 p) ([] @ stamps (rq_slots q)) (0 + settled (rq_slots q)) (length (stamps (rq_slots q)) + n)"
    using queue_repD(3) [OF assms(1)] by (simp add: acct_ok_def flow_balanced_def account_def flow_identities)
  from advance_slots_acct [OF a this]
  have "acct_ok (h' p) (stamps ss1) (settled ss1) (length (stamps ss1) + n)" by simp
  moreover have "length ss1 = length (rq_slots q)"
    using advance_slots_pass [OF a] by (auto simp: pass_ok_def dest: list_all2_lengthD)
  ultimately show ?thesis using assms(1) p by (intro queue_repI) (simp_all add: q')
qed

lemma queue_find_Some:
  "queue_find t q = Some s \<longleftrightarrow>
     at_generation t = rq_generation q \<and> unat (at_index t) < length (rq_slots q) \<and> rq_slots q ! unat (at_index t) = s"
  by (auto simp: queue_find_def)

lemma put_slot_split:
  assumes "queue_find t q = Some s"
  obtains xs ys where "rq_slots q = xs @ s # ys" "rq_slots (put_slot t s' q) = xs @ s' # ys"
  using assms slots_split [of "unat (at_index t)" "rq_slots q" s']
  by (metis put_slot_def queue_find_Some work_queue.simps(1) work_queue.surjective work_queue.update_convs(1))

lemma put_slot_fields [simp]:
  "rq_accounting (put_slot t s q) = rq_accounting q" "rq_generation (put_slot t s q) = rq_generation q"
  "length (rq_slots (put_slot t s q)) = length (rq_slots q)"
  by (simp_all add: put_slot_def)

lemma set_terminal_rep:
  assumes "queue_rep p (Suc n, q, h, c) ss" "set_terminal t st q h = Some (b, q', h')"
    and "st \<in> {Cancelled, Superseded, Failed, Stale}"
  shows "\<exists>ss'. queue_rep p (n, q', h', c') ss'"
proof -
  note rep = queue_repD [OF assms(1)]
  consider (no) "q' = q" "h' = h" | (yes) s where "queue_find t q = Some s" "sl_state s = Pending"
      "q' = put_slot t (s\<lparr>sl_state := st\<rparr>) q" "h' p = account_terminal (s\<lparr>sl_state := st\<rparr>) (h p)"
    using assms(2) rep(1) by (auto simp: set_terminal_def Let_def split: if_splits option.splits)
  then show ?thesis
  proof cases
    case no
    then show ?thesis using rep acct_ok_mono [OF rep(3)] by (intro queue_repI) simp_all
  next
    case yes
    obtain xs ys where xs: "rq_slots q = xs @ s # ys" "rq_slots q' = xs @ s\<lparr>sl_state := st\<rparr> # ys"
      using put_slot_split [OF yes(1)] yes(3) by metis
    let ?s = "s\<lparr>sl_state := st\<rparr>"
    have a: "acct_ok (h p) (stamps xs @ sl_submitted_tick ?s # stamps ys) (settled xs + settled ys)
        (Suc (length (stamps xs) + length (stamps ys) + Suc n))"
      using rep(3) yes(2) unfolding xs by simp
    have "acct_ok (h' p) (stamps xs @ stamps ys) (settled xs + settled ys)
        (length (stamps xs) + length (stamps ys) + Suc n)"
      unfolding yes(4) using acct_ok_terminal [OF a] assms(3) by auto
    then show ?thesis
      using rep(1,2) assms(3) acct_ok_mono yes(3) xs by (intro queue_repI) (auto intro: acct_ok_mono)
  qed
qed

lemma stale_version_rep:
  assumes "queue_rep p (Suc n, q, h, c) ss" "mark_stale_if_version t v q h = Some (b, q', h')"
  shows "\<exists>ss'. queue_rep p (n, q', h', c') ss'"
proof -
  note rep = queue_repD [OF assms(1)]
  let ?f = "\<lambda>c. let c1 = (if 0 < fc_completed c then c\<lparr>fc_completed := fc_completed c - 1\<rparr> else c)
       in c1\<lparr>fc_stale := fc_stale c1 + 1\<rparr>"
  consider (no) "q' = q" "h' = h" | (yes) s where "queue_find t q = Some s" "sl_state s = Immediate \<or> sl_state s = Ready"
      "q' = put_slot t (s\<lparr>sl_state := Stale\<rparr>) q" "h' p = account ?f (h p)"
    using assms(2) rep(1) by (auto simp: mark_stale_if_version_def split: if_splits option.splits)
  then show ?thesis
  proof cases
    case no
    then show ?thesis using rep acct_ok_mono [OF rep(3)] by (intro queue_repI) simp_all
  next
    case yes
    obtain xs ys where xs: "rq_slots q = xs @ s # ys" "rq_slots q' = xs @ s\<lparr>sl_state := Stale\<rparr> # ys"
      using put_slot_split [OF yes(1)] yes(3) by metis
    let ?c = "fc_completed (fa_counters (h p))"
    have cnt: "Suc (settled xs + settled ys) \<le> unat ?c" and st: "stamps (rq_slots q) = stamps xs @ stamps ys"
      using rep(3) yes(2) xs by (auto simp: acct_ok_def)
    have pos: "0 < ?c" using cnt by (auto simp: word_less_nat_alt)
    have nat: "unat (?c - 1) = unat ?c - 1" using pos by (simp add: unat_minus_one word_gt_0)
    have "acct_ok (h' p) (stamps xs @ stamps ys) (settled xs + settled ys) (length (stamps xs @ stamps ys) + n)"
      using rep(3) pos cnt nat unfolding st
      by (auto simp: yes(4) acct_ok_def flow_balanced_def account_def flow_identities Let_def)
    moreover have "stamps (rq_slots q') = stamps xs @ stamps ys" "settled (rq_slots q') = settled xs + settled ys"
      by (simp_all add: xs(2))
    moreover have "rq_accounting q' = Some p" "length (rq_slots q') \<le> 2 ^ 32"
      using rep(1,2) by (simp_all add: yes(3))
    ultimately show ?thesis by (intro queue_repI) simp_all
  qed
qed

lemma clear_rep:
  assumes "queue_rep p (Suc n, q, h, c) ss" "queue_clear q h = Some (q', h')"
  shows "\<exists>ss'. queue_rep p (n, q', h', c') ss'"
proof -
  note rep = queue_repD [OF assms(1)]
  have "acct_ok (fold drop_pending (rq_slots q) (h p)) [] (settled (rq_slots q)) (Suc n)"
    by (rule clear_acct) (rule rep(3))
  then show ?thesis
    using assms(2) rep(1) by (intro queue_repI) (auto simp: queue_clear_def Let_def split: if_splits intro: acct_ok_mono)
qed

lemma tick_rep:
  assumes "queue_rep p (Suc n, q, h, c) ss" "queue_observe_tick t q h = Some h'"
  shows "\<exists>ss'. queue_rep p (n, q, h', c') ss'"
proof -
  note rep = queue_repD [OF assms(1)]
  have "fc_completed (fa_counters (observe_tick t (h p))) = fc_completed (fa_counters (h p))"
    by (simp add: observe_tick_def)
  then have "acct_ok (observe_tick t (h p)) (stamps (rq_slots q)) (settled (rq_slots q)) (length (stamps (rq_slots q)) + n)"
    using rep(3) balanced_observe [of "h p" "stamps (rq_slots q)" t] by (simp add: acct_ok_def)
  then show ?thesis
    using assms(2) rep(1,2)
    by (intro queue_repI) (auto simp: queue_observe_tick_def Let_def acct_ok_work split: if_splits)
qed

lemma counted_step_rep:
  assumes rep: "queue_rep p (Suc n, q, h, c) ss" and step: "queue_step call (q, h, c) = Some (q', h', c')"
  shows "\<exists>ss'. queue_rep p (n, q', h', c') ss'"
  using rep step
  by (cases call)
    (auto simp: in_app_def setter_defs simp del: queue_rep.simps intro: submit_rep submit_immediate_rep advance_rep
      set_terminal_rep stale_version_rep clear_rep tick_rep)

interpretation queue_flow: accounted_flow counted_step "queue_accountant p" "queue_rep p" for p
proof (unfold_locales, goal_cases)
  case (1 x ss call x')
  obtain n q h c where x: "x = (n, q, h, c)" by (cases x)
  obtain m where m: "n = Suc m" using 1(3) by (cases n) (simp_all add: x)
  obtain q' h' c' where x': "x' = (m, q', h', c')" "queue_step call (q, h, c) = Some (q', h', c')"
    using 1(3) by (auto simp: x m)
  obtain ss' where "queue_rep p x' ss'" using counted_step_rep [OF 1(1) [unfolded x m] x'(2)] x'(1) by blast
  then show ?case by (auto simp: x'(1) acct_ok_def)
qed

subsection \<open>The life of a ticket\<close>

inductive ticket_moves :: "async_result_state \<Rightarrow> async_result_state \<Rightarrow> bool" where
  settle: "st \<in> {Ready, Failed, Cancelled, Superseded, Stale} \<Longrightarrow> ticket_moves Pending st"
| outdate: "st \<in> {Immediate, Ready} \<Longrightarrow> ticket_moves st Stale"

inductive_simps ticket_moves_simps: "ticket_moves st st'"
inductive_cases ticket_moves_toE: "ticket_moves st Pending"

lemma no_return: "ticket_moves\<^sup>*\<^sup>* st Pending \<Longrightarrow> st = Pending"
  by (induction rule: converse_rtranclp_induct) (auto simp: ticket_moves_simps)

lemma final_states:
  "ticket_moves\<^sup>*\<^sup>* st st' \<Longrightarrow> st \<in> {Failed, Cancelled, Superseded, Stale} \<Longrightarrow> st' = st"
  by (induction rule: rtranclp_induct) (auto simp: ticket_moves_simps)

definition slot_moves :: "('v, 'c) work_slot \<Rightarrow> ('v, 'c) work_slot \<Rightarrow> bool" where
  "slot_moves s s' \<longleftrightarrow> ticket_moves\<^sup>*\<^sup>* (sl_state s) (sl_state s')
     \<and> (sl_state s \<noteq> Pending \<longrightarrow> sl_value s' = sl_value s \<and> sl_result_version s' = sl_result_version s)"

lemma slot_moves_refl [simp]: "slot_moves s s"
  by (simp add: slot_moves_def)

lemma slot_moves_trans: "slot_moves s s' \<Longrightarrow> slot_moves s' s'' \<Longrightarrow> slot_moves s s''"
  unfolding slot_moves_def using no_return by (metis rtranclp_trans)

lemma slot_progress_moves: "slot_progress s s' \<Longrightarrow> slot_moves s s'"
  by (auto simp: slot_progress_def slot_moves_def settle intro: r_into_rtranclp split: if_splits)

definition queue_grows :: "('v, 'c) work_queue \<Rightarrow> ('v, 'c) work_queue \<Rightarrow> bool" where
  "queue_grows q q' \<longleftrightarrow> rq_generation q' = rq_generation q \<and> length (rq_slots q) \<le> length (rq_slots q')
     \<and> (\<forall>i < length (rq_slots q). slot_moves (rq_slots q ! i) (rq_slots q' ! i))"

lemma queue_grows_refl [simp]: "queue_grows q q"
  by (simp add: queue_grows_def)

lemma queue_grows_trans: "queue_grows q q' \<Longrightarrow> queue_grows q' q'' \<Longrightarrow> queue_grows q q''"
  unfolding queue_grows_def by (auto intro: slot_moves_trans)

lemma put_slot_grows:
  assumes "queue_find t q = Some s" "slot_moves s s'"
  shows "queue_grows q (put_slot t s' q)"
  using assms by (auto simp: queue_grows_def queue_find_Some put_slot_def nth_list_update)

lemma set_terminal_grows:
  assumes "set_terminal t st q h = Some (b, q', h')" "st \<in> {Cancelled, Superseded, Failed, Stale}"
  shows "queue_grows q q'"
proof -
  have "slot_moves s (s\<lparr>sl_state := st\<rparr>)" if "sl_state s = Pending" for s :: "('a, 'b) work_slot"
    using that assms(2) by (auto simp: slot_moves_def settle intro: r_into_rtranclp)
  then show ?thesis
    using assms(1) by (auto simp: set_terminal_def Let_def put_slot_grows split: if_splits option.splits)
qed

lemma stale_version_grows:
  assumes "mark_stale_if_version t v q h = Some (b, q', h')"
  shows "queue_grows q q'"
proof -
  have "slot_moves s (s\<lparr>sl_state := Stale\<rparr>)" if "sl_state s = Immediate \<or> sl_state s = Ready" for s :: "('a, 'b) work_slot"
    using that by (auto simp: slot_moves_def outdate intro: r_into_rtranclp)
  then show ?thesis
    using assms by (auto simp: mark_stale_if_version_def put_slot_grows split: if_splits option.splits)
qed

lemma advance_grows:
  assumes "advance b q h c = Some (r, q', h', c')"
  shows "queue_grows q q'"
proof -
  obtain ok ss p h0 st where "advance_slots (rq_slots q) b b p h0 default_advance_stats c = Some (ok, ss, h', st, c')"
    and q': "q' = q\<lparr>rq_slots := ss, rq_in_advance := False\<rparr>"
    using assms by (auto simp: advance_def Let_def split: if_splits)
  then have "list_all2 slot_progress (rq_slots q) ss"
    using advance_slots_pass by (fastforce simp: pass_ok_def)
  then show ?thesis
    by (auto simp: queue_grows_def q' list_all2_conv_all_nth slot_progress_moves)
qed

lemma append_grows: "queue_grows q (q\<lparr>rq_slots := rq_slots q @ ss\<rparr>)"
  by (simp add: queue_grows_def nth_append)

definition is_clear :: "('v, 'c) queue_call \<Rightarrow> bool" where
  "is_clear call \<longleftrightarrow> (case call of ClearQueue \<Rightarrow> True | _ \<Rightarrow> False)"

lemma queue_step_grows:
  assumes "queue_step call (q, h, c) = Some (q', h', c')" "\<not> is_clear call"
  shows "queue_grows q q'"
  using assms
  by (cases call)
    (auto simp: in_app_def setter_defs is_clear_def submit_def submit_immediate_def Let_def append_grows
      intro: advance_grows stale_version_grows elim!: set_terminal_grows split: if_splits)

text \<open>Generations count the clears modulo \<open>2^64 - 1\<close>, never zero.\<close>

definition gen_nat :: "('v, 'c) work_queue \<Rightarrow> nat" where
  "gen_nat q = unat (rq_generation q) - 1"

lemma clear_generation:
  assumes "queue_clear q h = Some (q', h')" "rq_generation q \<noteq> 0"
  shows "rq_generation q' \<noteq> 0 \<and> gen_nat q' = Suc (gen_nat q) mod (2 ^ 64 - 1)"
proof (cases "rq_generation q + 1 = 0")
  case True
  then have "rq_generation q = u64_max" by (simp add: u64_max_def eq_neg_iff_add_eq_0 [symmetric])
  then have "unat (rq_generation q) = 2 ^ 64 - 1" by simp
  then show ?thesis using assms True by (auto simp: queue_clear_def Let_def gen_nat_def split: if_splits)
next
  case False
  have pos: "0 < unat (rq_generation q)" using assms(2) by (simp add: unat_gt_0)
  have "unat (rq_generation q + 1) = Suc (unat (rq_generation q))" using False by (simp add: add.commute unatSuc)
  moreover from this have "Suc (unat (rq_generation q)) < 2 ^ 64" by (metis u64_less)
  ultimately show ?thesis
    using assms False pos by (auto simp: queue_clear_def Let_def gen_nat_def split: if_splits)
qed

definition clears :: "('v, 'c) queue_call list \<Rightarrow> nat" where
  "clears cs = length (filter is_clear cs)"

lemma queue_step_clear:
  assumes "queue_step call (q, h, c) = Some (q', h', c')" "is_clear call"
  shows "queue_clear q h = Some (q', h')"
  using assms by (cases call) (auto simp: is_clear_def)

lemma gen_nat_less: "gen_nat q < 2 ^ 64 - 1"
  using u64_less [of "rq_generation q"] by (auto simp: gen_nat_def)

lemma run_generation:
  "fold_opt queue_step cs (q, h, c) = Some (q', h', c') \<Longrightarrow> rq_generation q \<noteq> 0 \<Longrightarrow>
     rq_generation q' \<noteq> 0 \<and> gen_nat q' = (gen_nat q + clears cs) mod (2 ^ 64 - 1)"
proof (induction cs arbitrary: q h c)
  case Nil
  then show ?case using gen_nat_less [of q] by (simp add: clears_def)
next
  case (Cons call cs)
  obtain x1 where x1: "queue_step call (q, h, c) = Some x1" "fold_opt queue_step cs x1 = Some (q', h', c')"
    using Cons.prems(1) by (cases "queue_step call (q, h, c)") simp_all
  obtain q1 h1 c1 where x: "x1 = (q1, h1, c1)" by (cases x1)
  have "rq_generation q1 \<noteq> 0 \<and> gen_nat q1 = (gen_nat q + (if is_clear call then 1 else 0)) mod (2 ^ 64 - 1)"
  proof (cases "is_clear call")
    case True
    with clear_generation [OF queue_step_clear [OF x1(1) [unfolded x]] Cons.prems(2)] show ?thesis by simp
  next
    case False
    with queue_step_grows [OF x1(1) [unfolded x]] Cons.prems(2) gen_nat_less [of q] show ?thesis
      by (simp add: queue_grows_def gen_nat_def)
  qed
  then show ?case
    using Cons.IH [OF x1(2) [unfolded x]] by (simp add: clears_def mod_simps)
qed

lemma run_grows:
  "fold_opt queue_step cs (q, h, c) = Some (q', h', c') \<Longrightarrow> clears cs = 0 \<Longrightarrow> queue_grows q q'"
proof (induction cs arbitrary: q h c)
  case (Cons call cs)
  obtain x1 where x1: "queue_step call (q, h, c) = Some x1" "fold_opt queue_step cs x1 = Some (q', h', c')"
    using Cons.prems(1) by (cases "queue_step call (q, h, c)") simp_all
  obtain q1 h1 c1 where x: "x1 = (q1, h1, c1)" by (cases x1)
  have nc: "\<not> is_clear call" "clears cs = 0" using Cons.prems(2) by (simp_all add: clears_def split: if_splits)
  show ?case
    using queue_grows_trans [OF queue_step_grows [OF x1(1) [unfolded x] nc(1)] Cons.IH [OF x1(2) [unfolded x] nc(2)]] .
qed simp

lemma cleared_generation_differs:
  assumes "fold_opt queue_step cs (q, h, c) = Some (q', h', c')" "rq_generation q \<noteq> 0"
    and "0 < clears cs" "clears cs < 2 ^ 64 - 1"
  shows "rq_generation q' \<noteq> rq_generation q"
proof
  assume "rq_generation q' = rq_generation q"
  then have "(gen_nat q + clears cs) mod (2 ^ 64 - 1) = gen_nat q"
    using run_generation [OF assms(1,2)] by (simp add: gen_nat_def)
  moreover have "gen_nat q + clears cs < 2 * (2 ^ 64 - 1)" using gen_nat_less [of q] assms(4) by simp
  ultimately show False
    using assms(3,4) gen_nat_less [of q] by (auto simp: mod_if split: if_split_asm)
qed


lemma summarize_counts:
  "as_invoked (summarize_states ss st) = as_invoked st"
  "as_items_done (summarize_states ss st) = as_items_done st"
  "as_pending (summarize_states ss st) = as_pending st + of_nat (length (pending_slots ss))"
  "as_ready (summarize_states ss st) = as_ready st + of_nat (settled ss)"
  unfolding summarize_states_def settled_def
  by (induction ss arbitrary: st) (auto simp: summarize_slot_def split: async_result_state.splits)

lemma default_zero:
  "as_pending default_advance_stats = 0" "as_ready default_advance_stats = 0"
  by (simp_all add: default_advance_stats_def)

lemma advance_keeps:
  "advance_slots ss r i p h st c = Some (ok, ss', h', st', c') \<Longrightarrow>
     as_pending st' = as_pending st \<and> as_ready st' = as_ready st"
proof (induction ss arbitrary: r i h st c ss' h' st' c')
  case (Cons s ss)
  from Cons.prems show ?case by (cases rule: advance_slots_cases) (auto dest: Cons.IH)
qed simp


subsection \<open>Properties\<close>

definition example_work :: "(nat, nat) work_fn" where
  "example_work b v c = (Some \<lparr>ws_state = StepReady, ws_items_done = 1, ws_result_version = AsyncVersion 7\<rparr>, v + c, c)"

definition example_queue :: "(nat, nat) work_queue" where
  "example_queue = empty_queue\<lparr>rq_slots := [(default_slot 5)\<lparr>sl_work := Some example_work, sl_state := Pending\<rparr>]\<rparr>"

lemmas queue_eval = example_work_def example_queue_def empty_queue_def default_slot_def advance_def
  on_accountant_def default_advance_stats_def mark_stale_if_version_def queue_find_def put_slot_def
  queue_clear_def in_app_def step_result_state_def nth_opt_def

text \<open>
  C32. Tickets have a well-behaved life. Until the queue is cleared a ticket only ever moves along
  the documented transitions: from pending to one outcome, and from a usable result to stale; a
  result that was readable reads the same or becomes unreadable. After between one and
  \<open>2^64 - 2\<close> clears the ticket names nothing, whatever was submitted since.
\<close>

theorem ticket_lifecycle:
  assumes "fold_opt queue_step cs (q, h, c) = Some (q', h', c')" "queue_find t q = Some s"
    and "rq_generation q \<noteq> 0" "clears cs < 2 ^ 64 - 1"
  shows "(clears cs = 0 \<longrightarrow> ticket_moves\<^sup>*\<^sup>* (ticket_state t q) (ticket_state t q')
            \<and> (\<forall>v. ticket_result t q = Some v \<longrightarrow> ticket_result t q' \<in> {Some v, None}))
    \<and> (0 < clears cs \<longrightarrow> ticket_state t q' = Unbound \<and> ticket_result t q' = None)"
proof (intro conjI impI)
  assume z: "clears cs = 0"
  have g: "queue_grows q q'" by (rule run_grows [OF assms(1) z])
  have find: "queue_find t q' = Some (rq_slots q' ! unat (at_index t))"
    and mv: "slot_moves s (rq_slots q' ! unat (at_index t))"
    using assms(2) g by (auto simp: queue_find_Some queue_grows_def)
  show "ticket_moves\<^sup>*\<^sup>* (ticket_state t q) (ticket_state t q')"
    using mv by (simp add: ticket_state_def assms(2) find slot_moves_def)
  show "\<forall>v. ticket_result t q = Some v \<longrightarrow> ticket_result t q' \<in> {Some v, None}"
    using mv by (auto simp: ticket_result_def assms(2) find slot_moves_def split: if_splits)
next
  assume "0 < clears cs"
  then have "queue_find t q' = None"
    using cleared_generation_differs [OF assms(1,3) _ assms(4)] assms(2) by (auto simp: queue_find_def split: if_splits)
  then show "ticket_state t q' = Unbound" "ticket_result t q' = None"
    by (simp_all add: ticket_state_def ticket_result_def)
qed

lemma ticket_lifecycle_witness:
  "\<exists>q' h' c'. fold_opt queue_step [Advance 3, MarkStaleIfVersion \<lparr>at_index = 0, at_generation = 1\<rparr> (AsyncVersion 8)]
      (example_queue, \<lambda>_. default_flow_accounting, 10) = Some (q', h', c')
    \<and> ticket_moves\<^sup>*\<^sup>* Pending (ticket_state \<lparr>at_index = 0, at_generation = 1\<rparr> q')"
proof -
  let ?cs = "[Advance 3, MarkStaleIfVersion \<lparr>at_index = 0, at_generation = 1\<rparr> (AsyncVersion 8)] :: (nat, nat) queue_call list"
  let ?t = "\<lparr>at_index = 0, at_generation = 1\<rparr>"
  obtain q' h' c' where run: "fold_opt queue_step ?cs (example_queue, \<lambda>_. default_flow_accounting, 10) = Some (q', h', c')"
    by (simp add: queue_eval)
  have t: "queue_find ?t example_queue = Some (hd (rq_slots example_queue))"
    and st: "ticket_state ?t example_queue = Pending"
    by (simp_all add: queue_eval ticket_state_def)
  have "rq_generation example_queue \<noteq> 0" "clears ?cs < 2 ^ 64 - 1" "clears ?cs = 0"
    by (simp_all add: queue_eval clears_def is_clear_def)
  then show ?thesis using ticket_lifecycle [OF run t] run st by auto
qed





end
