(* ===== verification/Schedule.thy ===== *)
theory Schedule
  imports Event_Stream Chunk_Meta "HOL-Library.Monad_Syntax" "HOL-Library.Sublist" "HOL-Library.Multiset"
begin

text \<open>
  The fixed-tick schedule (sim/schedule.h and the integer part of sim/time.h). A task body is a
  parameter: a function of its context and the application state that makes calls back into the
  schedule and then reports a result or throws. \<open>None\<close> is \<open>fail_fast\<close> (or termination, when a
  \<open>noexcept\<close> body throws). A tick also returns the trace of the bodies it invoked, which is what
  an observer of the callbacks sees.
\<close>

subsection \<open>Time\<close>

datatype sim_speed = Paused | Speed1x | Speed2x | Speed4x

record sim_clock =
  clk_tick :: u64

definition advance_sim_tick :: "sim_clock \<Rightarrow> u64 \<times> sim_clock" where
  "advance_sim_tick c = (clk_tick c + 1, c\<lparr>clk_tick := clk_tick c + 1\<rparr>)"

definition sim_speed_multiplier :: "sim_speed \<Rightarrow> u32" where
  "sim_speed_multiplier s = (case s of Paused \<Rightarrow> 0 | Speed1x \<Rightarrow> 1 | Speed2x \<Rightarrow> 2 | Speed4x \<Rightarrow> 4)"

definition effective_tps :: "u32 \<Rightarrow> sim_speed \<Rightarrow> u32" where
  "effective_tps base s =
     (let product = (ucast base :: u64) * ucast (sim_speed_multiplier s)
      in if 0xffffffff < product then 0xffffffff else ucast product)"

subsection \<open>Cadences, tasks and the schedule\<close>

datatype cadence_kind = EveryTick | EveryN | OnDirty | OnEvent | Background | Manual

record cadence =
  cd_kind :: cadence_kind
  cd_every_n :: u32
  cd_dirty_mask :: dirty_mask
  cd_max_items :: u32
  cd_event_mask :: u32

definition cadence_every_tick :: cadence where
  "cadence_every_tick = \<lparr>cd_kind = EveryTick, cd_every_n = 1, cd_dirty_mask = DirtyMask 0,
     cd_max_items = 1, cd_event_mask = 0\<rparr>"

definition cadence_every_ticks :: "u32 \<Rightarrow> cadence" where
  "cadence_every_ticks n = cadence_every_tick\<lparr>cd_kind := EveryN, cd_every_n := (if n = 0 then 1 else n)\<rparr>"

definition cadence_on_dirty :: "dirty_mask \<Rightarrow> cadence" where
  "cadence_on_dirty m = cadence_every_tick\<lparr>cd_kind := OnDirty, cd_dirty_mask := m\<rparr>"

definition cadence_on_event :: "u32 \<Rightarrow> cadence" where
  "cadence_on_event m = cadence_every_tick\<lparr>cd_kind := OnEvent, cd_event_mask := m\<rparr>"

definition cadence_background :: "u32 \<Rightarrow> cadence" where
  "cadence_background n = cadence_every_tick\<lparr>cd_kind := Background, cd_max_items := (if n = 0 then 1 else n)\<rparr>"

definition cadence_manual :: cadence where
  "cadence_manual = cadence_every_tick\<lparr>cd_kind := Manual\<rparr>"

datatype sim_phase =
  PhInput | PhPreUpdate | PhAI | PhPathing | PhMovement | PhCommit | PhTopology | PhFields
  | PhBackground | PhRenderDelta | PhDiagnostics | PhCount

definition phase_index :: "sim_phase \<Rightarrow> nat" where
  "phase_index p = (case p of PhInput \<Rightarrow> 0 | PhPreUpdate \<Rightarrow> 1 | PhAI \<Rightarrow> 2 | PhPathing \<Rightarrow> 3
     | PhMovement \<Rightarrow> 4 | PhCommit \<Rightarrow> 5 | PhTopology \<Rightarrow> 6 | PhFields \<Rightarrow> 7 | PhBackground \<Rightarrow> 8
     | PhRenderDelta \<Rightarrow> 9 | PhDiagnostics \<Rightarrow> 10 | PhCount \<Rightarrow> 11)"

record schedule_task_context =
  tc_clock :: sim_clock
  tc_pending_dirty :: dirty_mask
  tc_budget_items :: u32
  tc_pending_events :: u32

record schedule_task_result =
  tr_dirty_mask :: dirty_mask
  tr_items_done :: u32
  tr_more_work :: bool
  tr_event_mask :: u32

text \<open>What a task body may call; \<open>Reentrant\<close> stands for the calls that fail fast inside a tick.\<close>

datatype sched_call =
    NotifyDirty dirty_mask
  | NotifyEvents u32
  | RequestRun u32
  | SetEnabled u32 bool
  | SealAgain
  | Reentrant

type_synonym 'c task_fn =
  "schedule_task_context \<Rightarrow> 'c \<Rightarrow> sched_call list \<times> schedule_task_result option \<times> 'c"

record schedule_task_desc =
  td_name :: string
  td_phase :: sim_phase
  td_cadence :: cadence

record schedule_task_stats =
  ts_runs :: u64
  ts_skipped :: u64
  ts_background_items :: u64
  ts_last_run_tick :: u64

record 'c task_record =
  tk_desc :: schedule_task_desc
  tk_fn :: "'c task_fn option"
  tk_no_throw_fn :: "'c task_fn option"
  tk_pending_mask :: dirty_mask
  tk_pending_events :: u32
  tk_ticks_until_due :: u32
  tk_run_requested :: bool
  tk_in_progress :: bool
  tk_enabled :: bool
  tk_stats :: schedule_task_stats

abbreviation tk_cadence :: "'c task_record \<Rightarrow> cadence" where
  "tk_cadence t \<equiv> td_cadence (tk_desc t)"

record schedule_tick_stats =
  ss_tick :: u64
  ss_tasks_due :: u32
  ss_tasks_run :: u32
  ss_tasks_skipped :: u32
  ss_background_items :: u32
  ss_dirty_mask_produced :: dirty_mask
  ss_event_mask_produced :: u32

definition default_tick_stats :: schedule_tick_stats where
  "default_tick_stats = \<lparr>ss_tick = 0, ss_tasks_due = 0, ss_tasks_run = 0, ss_tasks_skipped = 0,
     ss_background_items = 0, ss_dirty_mask_produced = DirtyMask 0, ss_event_mask_produced = 0\<rparr>"

record 'c schedule =
  sc_tasks :: "'c task_record list"
  sc_phase_order :: "u32 list"
  sc_dirty_task_ids :: "u32 list"
  sc_event_task_ids :: "u32 list"
  sc_sealed :: bool
  sc_in_run :: bool

definition empty_schedule :: "'c schedule" where
  "empty_schedule = \<lparr>sc_tasks = [], sc_phase_order = [], sc_dirty_task_ids = [],
     sc_event_task_ids = [], sc_sealed = False, sc_in_run = False\<rparr>"

definition reserve_tasks :: "nat \<Rightarrow> 'c schedule \<Rightarrow> 'c schedule option" where
  "reserve_tasks n s = (if sc_sealed s then None else Some s)"

definition add_task_record ::
    "schedule_task_desc \<Rightarrow> 'c task_fn option \<Rightarrow> 'c task_fn option \<Rightarrow> 'c schedule \<Rightarrow> (u32 \<times> 'c schedule) option" where
  "add_task_record desc fn no_throw_fn s =
     (let cad = td_cadence desc
      in if sc_sealed s then None
         else if fn = None \<and> no_throw_fn = None then None
         else if phase_index PhCount \<le> phase_index (td_phase desc) then None
         else if cd_kind cad = EveryN \<and> cd_every_n cad = 0 then None
         else if cd_kind cad = Background \<and> cd_max_items cad = 0 then None
         else let cad1 = (if cd_every_n cad = 0 then cad\<lparr>cd_every_n := 1\<rparr> else cad);
                  cad2 = (if cd_max_items cad1 = 0 then cad1\<lparr>cd_max_items := 1\<rparr> else cad1);
                  t = \<lparr>tk_desc = desc\<lparr>td_cadence := cad2\<rparr>, tk_fn = fn, tk_no_throw_fn = no_throw_fn,
                       tk_pending_mask = DirtyMask 0, tk_pending_events = 0,
                       tk_ticks_until_due = (if cd_kind cad = EveryN then cd_every_n cad2 else 0),
                       tk_run_requested = False, tk_in_progress = False, tk_enabled = True,
                       tk_stats = \<lparr>ts_runs = 0, ts_skipped = 0, ts_background_items = 0, ts_last_run_tick = 0\<rparr>\<rparr>
              in Some (of_nat (length (sc_tasks s)), s\<lparr>sc_tasks := sc_tasks s @ [t]\<rparr>))"

definition task_ids :: "('c task_record \<Rightarrow> bool) \<Rightarrow> 'c task_record list \<Rightarrow> u32 list" where
  "task_ids P ts = map of_nat (filter (\<lambda>i. P (ts ! i)) [0..<length ts])"

definition seal :: "'c schedule \<Rightarrow> 'c schedule" where
  "seal s =
     (if sc_sealed s then s
      else s\<lparr>sc_phase_order := concat (map (\<lambda>ph. task_ids (\<lambda>t. phase_index (td_phase (tk_desc t)) = ph) (sc_tasks s))
               [0..<phase_index PhCount]),
             sc_dirty_task_ids := task_ids (\<lambda>t. cd_kind (tk_cadence t) = OnDirty) (sc_tasks s),
             sc_event_task_ids := task_ids (\<lambda>t. cd_kind (tk_cadence t) = OnEvent) (sc_tasks s),
             sc_sealed := True\<rparr>)"

definition upd_task :: "u32 \<Rightarrow> ('c task_record \<Rightarrow> 'c task_record) \<Rightarrow> 'c schedule \<Rightarrow> 'c schedule option" where
  "upd_task i f s = map_option (\<lambda>t. s\<lparr>sc_tasks := (sc_tasks s)[unat i := f t]\<rparr>) (nth_opt (sc_tasks s) (unat i))"

definition set_enabled :: "u32 \<Rightarrow> bool \<Rightarrow> 'c schedule \<Rightarrow> 'c schedule option" where
  "set_enabled i b = upd_task i (\<lambda>t. t\<lparr>tk_enabled := b\<rparr>)"

definition request_run :: "u32 \<Rightarrow> 'c schedule \<Rightarrow> 'c schedule option" where
  "request_run i = upd_task i (\<lambda>t. t\<lparr>tk_run_requested := True\<rparr>)"

definition add_dirty :: "dirty_mask \<Rightarrow> 'c task_record \<Rightarrow> 'c task_record" where
  "add_dirty m t = t\<lparr>tk_pending_mask := dirty_or (tk_pending_mask t) m\<rparr>"

definition add_events :: "u32 \<Rightarrow> 'c task_record \<Rightarrow> 'c task_record" where
  "add_events m t = t\<lparr>tk_pending_events := tk_pending_events t OR m\<rparr>"

definition merge_dirty :: "dirty_mask \<Rightarrow> 'c schedule \<Rightarrow> 'c schedule option" where
  "merge_dirty m s = fold_opt (\<lambda>i. upd_task i (add_dirty m)) (sc_dirty_task_ids s) s"

definition merge_events :: "u32 \<Rightarrow> 'c schedule \<Rightarrow> 'c schedule option" where
  "merge_events m s = fold_opt (\<lambda>i. upd_task i (add_events m)) (sc_event_task_ids s) s"

definition notify_dirty :: "dirty_mask \<Rightarrow> 'c schedule \<Rightarrow> 'c schedule option" where
  "notify_dirty m s = (if sc_sealed s then merge_dirty m s
     else Some (s\<lparr>sc_tasks := map (add_dirty m) (sc_tasks s)\<rparr>))"

definition notify_events :: "u32 \<Rightarrow> 'c schedule \<Rightarrow> 'c schedule option" where
  "notify_events m s = (if sc_sealed s then merge_events m s
     else Some (s\<lparr>sc_tasks := map (add_events m) (sc_tasks s)\<rparr>))"

definition publish_event ::
    "u32 \<Rightarrow> u64 \<Rightarrow> 'a \<Rightarrow> 'a event_stream \<Rightarrow> accountants \<Rightarrow> 'c schedule
     \<Rightarrow> (bool \<times> ('a event_stream \<times> accountants) \<times> 'c schedule) option" where
  "publish_event m tick v stream h s =
     (case publish tick v stream h of (ok, sh) \<Rightarrow>
        if \<not> ok then Some (False, sh, s) else map_option (\<lambda>s'. (True, sh, s')) (notify_events m s))"

definition task_stats :: "u32 \<Rightarrow> 'c schedule \<Rightarrow> schedule_task_stats option" where
  "task_stats i s = map_option tk_stats (nth_opt (sc_tasks s) (unat i))"

fun apply_call :: "sched_call \<Rightarrow> 'c schedule \<Rightarrow> 'c schedule option" where
  "apply_call (NotifyDirty m) s = notify_dirty m s"
| "apply_call (NotifyEvents m) s = notify_events m s"
| "apply_call (RequestRun i) s = request_run i s"
| "apply_call (SetEnabled i b) s = set_enabled i b s"
| "apply_call SealAgain s = Some (seal s)"
| "apply_call Reentrant s = None"

subsection \<open>One tick\<close>

record invocation =
  iv_task :: u32
  iv_context :: schedule_task_context
  iv_calls :: "sched_call list"
  iv_result :: "schedule_task_result option"

record 'c run_state =
  rs_schedule :: "'c schedule"
  rs_stats :: schedule_tick_stats
  rs_app :: 'c
  rs_trace :: "invocation list"

record poll =
  po_due :: bool
  po_fired_dirty :: dirty_mask
  po_fired_events :: u32
  po_budget :: u32

definition count_down :: "'c task_record \<Rightarrow> 'c task_record" where
  "count_down t = t\<lparr>tk_ticks_until_due :=
     (if tk_ticks_until_due t - 1 = 0 then cd_every_n (tk_cadence t) else tk_ticks_until_due t - 1)\<rparr>"

definition poll_cadence :: "'c task_record \<Rightarrow> poll \<times> 'c task_record" where
  "poll_cadence t =
     (let c = tk_cadence t; none = \<lparr>po_due = False, po_fired_dirty = DirtyMask 0, po_fired_events = 0, po_budget = 0\<rparr>
      in case cd_kind c of
           EveryTick \<Rightarrow> (none\<lparr>po_due := True\<rparr>, t)
         | EveryN \<Rightarrow> (none\<lparr>po_due := tk_ticks_until_due t - 1 = 0 \<or> tk_run_requested t\<rparr>, count_down t)
         | OnDirty \<Rightarrow>
             let fired = dirty_and (tk_pending_mask t) (cd_dirty_mask c)
             in (none\<lparr>po_fired_dirty := fired, po_due := \<not> dirty_empty fired \<or> tk_run_requested t\<rparr>, t)
         | OnEvent \<Rightarrow>
             let fired = tk_pending_events t AND cd_event_mask c
             in (none\<lparr>po_fired_events := fired, po_due := fired \<noteq> 0 \<or> tk_run_requested t\<rparr>, t)
         | Background \<Rightarrow> (none\<lparr>po_due := tk_in_progress t \<or> tk_run_requested t, po_budget := cd_max_items c\<rparr>, t)
         | Manual \<Rightarrow> (none\<lparr>po_due := tk_run_requested t\<rparr>, t))"

definition consume_triggers :: "poll \<Rightarrow> 'c task_record \<Rightarrow> 'c task_record" where
  "consume_triggers p t = t\<lparr>tk_pending_mask := dirty_and (tk_pending_mask t) (dirty_not (po_fired_dirty p)),
     tk_pending_events := tk_pending_events t AND NOT (po_fired_events p), tk_run_requested := False\<rparr>"

definition restore_triggers :: "poll \<Rightarrow> bool \<Rightarrow> 'c task_record \<Rightarrow> 'c task_record" where
  "restore_triggers p requested t = t\<lparr>tk_pending_mask := dirty_or (tk_pending_mask t) (po_fired_dirty p),
     tk_pending_events := tk_pending_events t OR po_fired_events p,
     tk_run_requested := (tk_run_requested t \<or> requested)\<rparr>"

definition record_run :: "sim_clock \<Rightarrow> schedule_task_result \<Rightarrow> 'c task_record \<Rightarrow> 'c task_record" where
  "record_run clock r t = t\<lparr>tk_stats := (tk_stats t)\<lparr>ts_runs := ts_runs (tk_stats t) + 1,
     ts_background_items := ts_background_items (tk_stats t) + ucast (tr_items_done r),
     ts_last_run_tick := clk_tick clock\<rparr>\<rparr>"

definition settle_result ::
    "u32 \<Rightarrow> sim_clock \<Rightarrow> cadence_kind \<Rightarrow> u32 \<Rightarrow> schedule_task_result \<Rightarrow> schedule_tick_stats \<Rightarrow> 'c schedule
     \<Rightarrow> (schedule_tick_stats \<times> 'c schedule) option" where
  "settle_result i clock kind budget r st s =
     (if kind = Background \<and> budget < tr_items_done r then None
      else if kind \<noteq> Background \<and> tr_items_done r \<noteq> 0 then None
      else do {
        s1 \<leftarrow> upd_task i (\<lambda>t. t\<lparr>tk_in_progress := (kind = Background \<and> tr_more_work r)\<rparr>) s;
        s2 \<leftarrow> (if dirty_empty (tr_dirty_mask r) then Some s1 else merge_dirty (tr_dirty_mask r) s1);
        s3 \<leftarrow> (if tr_event_mask r = 0 then Some s2 else merge_events (tr_event_mask r) s2);
        s4 \<leftarrow> upd_task i (record_run clock r) s3;
        Some (st\<lparr>ss_dirty_mask_produced := dirty_or (ss_dirty_mask_produced st) (tr_dirty_mask r),
                 ss_event_mask_produced := ss_event_mask_produced st OR tr_event_mask r,
                 ss_tasks_run := ss_tasks_run st + 1,
                 ss_background_items := ss_background_items st + tr_items_done r\<rparr>, s4)
      })"

definition run_task_if_due :: "u32 \<Rightarrow> sim_clock \<Rightarrow> 'c run_state \<Rightarrow> (bool \<times> 'c run_state) option" where
  "run_task_if_due i clock rs = do {
     t \<leftarrow> nth_opt (sc_tasks (rs_schedule rs)) (unat i);
     let (p, t1) = poll_cadence t;
     s1 \<leftarrow> upd_task i (\<lambda>_. t1) (rs_schedule rs);
     let st = rs_stats rs;
     if \<not> po_due p then Some (True, rs\<lparr>rs_schedule := s1\<rparr>)
     else if \<not> tk_enabled t1 then do {
       s2 \<leftarrow> upd_task i (\<lambda>t. t\<lparr>tk_stats := (tk_stats t)\<lparr>ts_skipped := ts_skipped (tk_stats t) + 1\<rparr>\<rparr>) s1;
       Some (True, rs\<lparr>rs_schedule := s2, rs_stats := st\<lparr>ss_tasks_due := ss_tasks_due st + 1,
                       ss_tasks_skipped := ss_tasks_skipped st + 1\<rparr>\<rparr>)
     }
     else do {
       s2 \<leftarrow> upd_task i (consume_triggers p) s1;
       body \<leftarrow> (case tk_no_throw_fn t1 of Some f \<Rightarrow> Some f | None \<Rightarrow> tk_fn t1);
       let ctx = \<lparr>tc_clock = clock, tc_pending_dirty = po_fired_dirty p, tc_budget_items = po_budget p,
                  tc_pending_events = po_fired_events p\<rparr>;
       let (calls, res, c') = body ctx (rs_app rs);
       s3 \<leftarrow> fold_opt apply_call calls s2;
       let st1 = st\<lparr>ss_tasks_due := ss_tasks_due st + 1\<rparr>;
       let trace = rs_trace rs @ [\<lparr>iv_task = i, iv_context = ctx, iv_calls = calls, iv_result = res\<rparr>];
       case res of
         None \<Rightarrow> if tk_no_throw_fn t1 \<noteq> None then None
           else do {
             s4 \<leftarrow> upd_task i (restore_triggers p (tk_run_requested t1)) s3;
             Some (False, \<lparr>rs_schedule = s4, rs_stats = st1, rs_app = c', rs_trace = trace\<rparr>)
           }
       | Some r \<Rightarrow> do {
           (st2, s4) \<leftarrow> settle_result i clock (cd_kind (tk_cadence t1)) (po_budget p) r st1 s3;
           Some (True, \<lparr>rs_schedule = s4, rs_stats = st2, rs_app = c', rs_trace = trace\<rparr>)
         }
     }
   }"

definition advance_aborted_tick_cadence :: "'c task_record \<Rightarrow> 'c task_record" where
  "advance_aborted_tick_cadence t = (if cd_kind (tk_cadence t) \<noteq> EveryN then t else count_down t)"

fun run_tasks :: "u32 list \<Rightarrow> sim_clock \<Rightarrow> 'c run_state \<Rightarrow> (bool \<times> 'c run_state) option" where
  "run_tasks [] clock rs = Some (True, rs)"
| "run_tasks (i # is) clock rs = do {
     (ok, rs1) \<leftarrow> run_task_if_due i clock rs;
     if ok then run_tasks is clock rs1
     else do {
       s \<leftarrow> fold_opt (\<lambda>j. upd_task j advance_aborted_tick_cadence) is (rs_schedule rs1);
       Some (False, rs1\<lparr>rs_schedule := s\<rparr>)
     }
   }"

text \<open>\<open>run_tick\<close> returns whether the tick completed (else a body's exception propagates).\<close>

definition run_tick ::
    "sim_clock \<Rightarrow> 'c schedule \<Rightarrow> 'c \<Rightarrow> (bool \<times> sim_clock \<times> 'c run_state) option" where
  "run_tick clock s c =
     (if \<not> sc_sealed s then None
      else if sc_in_run s then None
      else case advance_sim_tick clock of (tick, clock') \<Rightarrow> do {
        (ok, rs) \<leftarrow> run_tasks (sc_phase_order s) clock'
          \<lparr>rs_schedule = s\<lparr>sc_in_run := True\<rparr>, rs_stats = default_tick_stats\<lparr>ss_tick := tick\<rparr>,
           rs_app = c, rs_trace = []\<rparr>;
        Some (ok, clock', rs\<lparr>rs_schedule := (rs_schedule rs)\<lparr>sc_in_run := False\<rparr>\<rparr>)
      })"

subsection \<open>What never changes: the plan\<close>

definition task_sig :: "'c task_record \<Rightarrow> schedule_task_desc \<times> 'c task_fn option \<times> 'c task_fn option" where
  "task_sig t = (tk_desc t, tk_fn t, tk_no_throw_fn t)"

definition plan where
  "plan s = (map task_sig (sc_tasks s), sc_phase_order s, sc_dirty_task_ids s, sc_event_task_ids s,
     sc_sealed s, sc_in_run s)"

definition keeps_sig :: "('c task_record \<Rightarrow> 'c task_record) \<Rightarrow> bool" where
  "keeps_sig f \<longleftrightarrow> (\<forall>t. task_sig (f t) = task_sig t)"

lemma keeps_sig_intros [simp]:
  "keeps_sig (add_dirty m)" "keeps_sig (add_events e)" "keeps_sig count_down"
  "keeps_sig (\<lambda>t. t\<lparr>tk_enabled := b\<rparr>)" "keeps_sig (\<lambda>t. t\<lparr>tk_run_requested := b\<rparr>)"
  "keeps_sig (\<lambda>t. t\<lparr>tk_in_progress := b\<rparr>)" "keeps_sig (consume_triggers p)"
  "keeps_sig (restore_triggers p b)" "keeps_sig (record_run clock r)"
  "keeps_sig advance_aborted_tick_cadence"
  by (simp_all add: keeps_sig_def task_sig_def add_dirty_def add_events_def count_down_def
      consume_triggers_def restore_triggers_def record_run_def advance_aborted_tick_cadence_def)

lemma upd_task_Some:
  "upd_task i f s = Some s' \<longleftrightarrow>
     unat i < length (sc_tasks s) \<and> s' = s\<lparr>sc_tasks := (sc_tasks s)[unat i := f (sc_tasks s ! unat i)]\<rparr>"
  by (auto simp: upd_task_def)

lemma upd_task_task:
  assumes "upd_task i f s = Some s'"
  shows "length (sc_tasks s') = length (sc_tasks s)"
    and "k < length (sc_tasks s) \<Longrightarrow> sc_tasks s' ! k = (if unat i = k then f (sc_tasks s ! k) else sc_tasks s ! k)"
  using assms by (auto simp: upd_task_Some nth_list_update)

lemma plan_upd_at:
  assumes "upd_task i f s = Some s'" "task_sig (f (sc_tasks s ! unat i)) = task_sig (sc_tasks s ! unat i)"
  shows "plan s' = plan s"
  using assms by (auto simp: plan_def upd_task_Some map_update list_update_same_conv)

lemma plan_upd: "upd_task i f s = Some s' \<Longrightarrow> keeps_sig f \<Longrightarrow> plan s' = plan s"
  by (erule plan_upd_at) (simp add: keeps_sig_def)

lemma plan_fold:
  "fold_opt (\<lambda>j. upd_task j f) js s = Some s' \<Longrightarrow> keeps_sig f \<Longrightarrow> plan s' = plan s"
  by (rule fold_opt_inv [where P = "\<lambda>s'. plan s' = plan s"]) (auto dest: plan_upd)

lemma plan_length: "plan s' = plan s \<Longrightarrow> length (sc_tasks s') = length (sc_tasks s)"
  by (auto simp: plan_def dest: arg_cong [where f = length])

lemma plan_sig:
  "plan s' = plan s \<Longrightarrow> i < length (sc_tasks s) \<Longrightarrow> task_sig (sc_tasks s' ! i) = task_sig (sc_tasks s ! i)"
  using plan_length [of s' s] by (auto simp: plan_def dest: arg_cong [where f = "\<lambda>xs. xs ! i"])

lemma fold_upd_idem:
  assumes "fold_opt (\<lambda>j. upd_task j f) js s = Some s'" "\<And>t. f (f t) = f t" "i < length (sc_tasks s)"
  shows "sc_tasks s' ! i = (if i \<in> unat ` set js then f (sc_tasks s ! i) else sc_tasks s ! i)
    \<and> length (sc_tasks s') = length (sc_tasks s)"
  using assms(1,3)
proof (induction js arbitrary: s)
  case (Cons j js)
  obtain s1 where s1: "upd_task j f s = Some s1" "fold_opt (\<lambda>j. upd_task j f) js s1 = Some s'"
    using Cons.prems(1) by (cases "upd_task j f s") simp_all
  show ?case
    using Cons.IH [OF s1(2)] upd_task_task [OF s1(1)] Cons.prems(2) assms(2) by auto
qed simp

lemma fold_upd_once:
  assumes "fold_opt (\<lambda>j. upd_task j f) js s = Some s'" "distinct (map unat js)" "i < length (sc_tasks s)"
  shows "sc_tasks s' ! i = (if i \<in> unat ` set js then f (sc_tasks s ! i) else sc_tasks s ! i)"
  using assms
proof (induction js arbitrary: s)
  case (Cons j js)
  obtain s1 where s1: "upd_task j f s = Some s1" "fold_opt (\<lambda>j. upd_task j f) js s1 = Some s'"
    using Cons.prems(1) by (cases "upd_task j f s") simp_all
  show ?case
    using Cons.IH [OF s1(2)] upd_task_task [OF s1(1)] Cons.prems(2,3) by auto
qed simp


subsection \<open>Sealed schedules\<close>

text \<open>The indexes of a sealed schedule are the ones \<open>seal\<close> builds for its tasks.\<close>

definition sealed_ok :: "'c schedule \<Rightarrow> bool" where
  "sealed_ok s \<longleftrightarrow> sc_sealed s \<and> length (sc_tasks s) \<le> 2 ^ 32
     \<and> sc_phase_order s = sc_phase_order (seal (s\<lparr>sc_sealed := False\<rparr>))
     \<and> sc_dirty_task_ids s = sc_dirty_task_ids (seal (s\<lparr>sc_sealed := False\<rparr>))
     \<and> sc_event_task_ids s = sc_event_task_ids (seal (s\<lparr>sc_sealed := False\<rparr>))
     \<and> (\<forall>t \<in> set (sc_tasks s). phase_index (td_phase (tk_desc t)) < phase_index PhCount)"

lemma task_ids_sig:
  assumes "map task_sig ts' = map task_sig ts" "\<And>t t'. task_sig t = task_sig t' \<Longrightarrow> P t = P t'"
  shows "task_ids P ts' = task_ids P ts"
proof -
  have len: "length ts' = length ts" using assms(1) by (auto dest: arg_cong [where f = length])
  have "P (ts' ! i) = P (ts ! i)" if "i < length ts" for i
    by (rule assms(2)) (use that len assms(1) in \<open>metis nth_map\<close>)
  then have "filter (\<lambda>i. P (ts' ! i)) [0..<length ts] = filter (\<lambda>i. P (ts ! i)) [0..<length ts]"
    by (intro filter_cong) simp_all
  then show ?thesis by (simp add: task_ids_def len)
qed

lemma sealed_ok_plan:
  assumes "plan s' = plan s" "sealed_ok s"
  shows "sealed_ok s'"
proof -
  have sig: "map task_sig (sc_tasks s') = map task_sig (sc_tasks s)" using assms(1) by (simp add: plan_def)
  have desc: "map tk_desc (sc_tasks s') = map tk_desc (sc_tasks s)"
    using arg_cong [OF sig, of "map fst"] by (simp add: task_sig_def comp_def)
  then have "tk_desc ` set (sc_tasks s') = tk_desc ` set (sc_tasks s)" by (metis set_map)
  then have "\<forall>t \<in> set (sc_tasks s'). phase_index (td_phase (tk_desc t)) < phase_index PhCount"
    using assms(2) unfolding sealed_ok_def by (metis (no_types, lifting) imageE imageI)
  moreover have "task_ids (\<lambda>t. phase_index (td_phase (tk_desc t)) = ph) (sc_tasks s')
      = task_ids (\<lambda>t. phase_index (td_phase (tk_desc t)) = ph) (sc_tasks s)" for ph
    by (rule task_ids_sig [OF sig]) (simp add: task_sig_def)
  moreover have "task_ids (\<lambda>t. cd_kind (tk_cadence t) = k) (sc_tasks s')
      = task_ids (\<lambda>t. cd_kind (tk_cadence t) = k) (sc_tasks s)" for k
    by (rule task_ids_sig [OF sig]) (simp add: task_sig_def)
  ultimately show ?thesis
    using assms plan_length [OF assms(1)] by (simp add: sealed_ok_def seal_def plan_def)
qed

lemma unat_ids: "length ts \<le> 2 ^ 32 \<Longrightarrow> map unat (task_ids P ts) = filter (\<lambda>i. P (ts ! i)) [0..<length ts]"
  by (auto simp: task_ids_def comp_def unat_of_nat intro!: map_idI)

lemma sealed_ids:
  assumes "sealed_ok s" "i < length (sc_tasks s)"
  shows "i \<in> unat ` set (sc_dirty_task_ids s) \<longleftrightarrow> cd_kind (tk_cadence (sc_tasks s ! i)) = OnDirty"
    and "i \<in> unat ` set (sc_event_task_ids s) \<longleftrightarrow> cd_kind (tk_cadence (sc_tasks s ! i)) = OnEvent"
  using assms unat_ids [of "sc_tasks s"]
  by (simp_all add: sealed_ok_def seal_def flip: set_map)

subsection \<open>Effect of the callbacks on one task\<close>

abbreviation dirty_task :: "'c task_record \<Rightarrow> bool" where
  "dirty_task t \<equiv> cd_kind (tk_cadence t) = OnDirty"

abbreviation event_task :: "'c task_record \<Rightarrow> bool" where
  "event_task t \<equiv> cd_kind (tk_cadence t) = OnEvent"

definition dirty_raised :: "sched_call list \<Rightarrow> nat \<Rightarrow> bool" where
  "dirty_raised cs b \<longleftrightarrow> (\<exists>m. NotifyDirty m \<in> set cs \<and> bit (dm_value m) b)"

definition event_raised :: "sched_call list \<Rightarrow> nat \<Rightarrow> bool" where
  "event_raised cs b \<longleftrightarrow> (\<exists>m. NotifyEvents m \<in> set cs \<and> bit m b)"

definition run_asked :: "sched_call list \<Rightarrow> nat \<Rightarrow> bool" where
  "run_asked cs i \<longleftrightarrow> (\<exists>j. RequestRun j \<in> set cs \<and> unat j = i)"

definition enabled_touched :: "sched_call list \<Rightarrow> nat \<Rightarrow> bool" where
  "enabled_touched cs i \<longleftrightarrow> (\<exists>j b. SetEnabled j b \<in> set cs \<and> unat j = i)"

definition after_calls :: "nat \<Rightarrow> sched_call list \<Rightarrow> 'c task_record \<Rightarrow> 'c task_record \<Rightarrow> bool" where
  "after_calls i cs t t' \<longleftrightarrow>
     task_sig t' = task_sig t \<and> tk_ticks_until_due t' = tk_ticks_until_due t
     \<and> (\<forall>b. bit (dm_value (tk_pending_mask t')) b \<longleftrightarrow>
           bit (dm_value (tk_pending_mask t)) b \<or> dirty_task t \<and> dirty_raised cs b)
     \<and> (\<forall>b. bit (tk_pending_events t') b \<longleftrightarrow>
           bit (tk_pending_events t) b \<or> event_task t \<and> event_raised cs b)
     \<and> (tk_run_requested t' \<longleftrightarrow> tk_run_requested t \<or> run_asked cs i)
     \<and> (\<not> enabled_touched cs i \<longrightarrow> tk_enabled t' = tk_enabled t)"

lemmas call_effects = dirty_raised_def event_raised_def run_asked_def enabled_touched_def

lemma after_calls_Nil [simp]: "after_calls i [] t t"
  by (simp add: after_calls_def call_effects)

lemma raised_append:
  "dirty_raised (cs @ ds) b \<longleftrightarrow> dirty_raised cs b \<or> dirty_raised ds b"
  "event_raised (cs @ ds) b \<longleftrightarrow> event_raised cs b \<or> event_raised ds b"
  "run_asked (cs @ ds) i \<longleftrightarrow> run_asked cs i \<or> run_asked ds i"
  "enabled_touched (cs @ ds) i \<longleftrightarrow> enabled_touched cs i \<or> enabled_touched ds i"
  unfolding call_effects by auto

lemma after_calls_append:
  assumes "after_calls i cs t t1" "after_calls i ds t1 t2"
  shows "after_calls i (cs @ ds) t t2"
proof -
  have "tk_desc t1 = tk_desc t" using assms(1) by (simp add: after_calls_def task_sig_def)
  with assms show ?thesis by (simp add: after_calls_def raised_append) blast
qed

lemma bit_dirty:
  "bit (dm_value (dirty_or a b)) n = (bit (dm_value a) n \<or> bit (dm_value b) n)"
  "bit (dm_value (dirty_and a b)) n = (bit (dm_value a) n \<and> bit (dm_value b) n)"
  by (simp_all add: dirty_or_def dirty_and_def bit_simps)

lemma bit_dirty_cleared:
  "bit (dm_value (dirty_and a (dirty_not b))) n = (bit (dm_value a) n \<and> \<not> bit (dm_value b) n)"
  by (auto simp: dirty_not_def dirty_and_def bit_simps dest: bit_imp_le_length)

lemma bit_cleared: "bit (a AND NOT (b :: u32)) n = (bit a n \<and> \<not> bit b n)"
  by (auto simp: bit_simps dest: bit_imp_le_length)

lemma add_dirty_idem: "add_dirty m (add_dirty m t) = add_dirty m t"
  by (simp add: add_dirty_def dirty_or_def or.assoc)

lemma add_events_idem: "add_events m (add_events m t) = add_events m t"
  by (simp add: add_events_def or.assoc)

lemma notify_dirty_effect:
  assumes "notify_dirty m s = Some s'" "sealed_ok s"
  shows "plan s' = plan s"
    and "i < length (sc_tasks s) \<Longrightarrow>
       sc_tasks s' ! i = (if dirty_task (sc_tasks s ! i) then add_dirty m (sc_tasks s ! i) else sc_tasks s ! i)"
proof -
  have run: "fold_opt (\<lambda>j. upd_task j (add_dirty m)) (sc_dirty_task_ids s) s = Some s'"
    using assms by (simp add: notify_dirty_def merge_dirty_def sealed_ok_def)
  show "plan s' = plan s" by (rule plan_fold [OF run]) simp
  show "sc_tasks s' ! i = (if dirty_task (sc_tasks s ! i) then add_dirty m (sc_tasks s ! i) else sc_tasks s ! i)"
    if "i < length (sc_tasks s)"
    using fold_upd_idem [OF run add_dirty_idem that] sealed_ids(1) [OF assms(2) that] by simp
qed

lemma notify_events_effect:
  assumes "notify_events m s = Some s'" "sealed_ok s"
  shows "plan s' = plan s"
    and "i < length (sc_tasks s) \<Longrightarrow>
       sc_tasks s' ! i = (if event_task (sc_tasks s ! i) then add_events m (sc_tasks s ! i) else sc_tasks s ! i)"
proof -
  have run: "fold_opt (\<lambda>j. upd_task j (add_events m)) (sc_event_task_ids s) s = Some s'"
    using assms by (simp add: notify_events_def merge_events_def sealed_ok_def)
  show "plan s' = plan s" by (rule plan_fold [OF run]) simp
  show "sc_tasks s' ! i = (if event_task (sc_tasks s ! i) then add_events m (sc_tasks s ! i) else sc_tasks s ! i)"
    if "i < length (sc_tasks s)"
    using fold_upd_idem [OF run add_events_idem that] sealed_ids(2) [OF assms(2) that] by simp
qed

text \<open>Calls touch nothing else of a task: its progress flag and statistics are its own.\<close>

definition own_fields :: "'c task_record \<Rightarrow> bool \<times> schedule_task_stats" where
  "own_fields t = (tk_in_progress t, tk_stats t)"

lemma apply_call_effect:
  assumes "apply_call c s = Some s'" "sealed_ok s"
  shows "plan s' = plan s \<and> (\<forall>i < length (sc_tasks s). after_calls i [c] (sc_tasks s ! i) (sc_tasks s' ! i)
    \<and> own_fields (sc_tasks s' ! i) = own_fields (sc_tasks s ! i))"
proof (cases c)
  case (NotifyDirty m)
  with assms notify_dirty_effect [of m s s'] show ?thesis
    by (auto simp: after_calls_def call_effects task_sig_def own_fields_def add_dirty_def bit_dirty)
next
  case (NotifyEvents m)
  with assms notify_events_effect [of m s s'] show ?thesis
    by (auto simp: after_calls_def call_effects task_sig_def own_fields_def add_events_def bit_simps)
next
  case (RequestRun j)
  then have u: "upd_task j (\<lambda>t. t\<lparr>tk_run_requested := True\<rparr>) s = Some s'" using assms by (simp add: request_run_def)
  from plan_upd [OF u] upd_task_task [OF u] RequestRun show ?thesis
    by (auto simp: after_calls_def call_effects task_sig_def own_fields_def)
next
  case (SetEnabled j b)
  then have u: "upd_task j (\<lambda>t. t\<lparr>tk_enabled := b\<rparr>) s = Some s'" using assms by (simp add: set_enabled_def)
  from plan_upd [OF u] upd_task_task [OF u] SetEnabled show ?thesis
    by (auto simp: after_calls_def call_effects task_sig_def own_fields_def)
next
  case SealAgain
  with assms show ?thesis by (auto simp: sealed_ok_def seal_def after_calls_def call_effects)
qed (use assms in simp)

lemma calls_effect:
  "fold_opt apply_call cs s = Some s' \<Longrightarrow> sealed_ok s \<Longrightarrow>
     plan s' = plan s \<and> (\<forall>i < length (sc_tasks s). after_calls i cs (sc_tasks s ! i) (sc_tasks s' ! i)
       \<and> own_fields (sc_tasks s' ! i) = own_fields (sc_tasks s ! i))"
proof (induction cs arbitrary: s)
  case (Cons c cs)
  obtain s1 where s1: "apply_call c s = Some s1" "fold_opt apply_call cs s1 = Some s'"
    using Cons.prems(1) by (cases "apply_call c s") simp_all
  note e1 = apply_call_effect [OF s1(1) Cons.prems(2)]
  have "sealed_ok s1" using sealed_ok_plan e1 Cons.prems(2) by blast
  note e2 = Cons.IH [OF s1(2) this]
  have len: "length (sc_tasks s1) = length (sc_tasks s)" using plan_length e1 by blast
  have "after_calls i ([c] @ cs) (sc_tasks s ! i) (sc_tasks s' ! i)" if "i < length (sc_tasks s)" for i
    by (rule after_calls_append [of i "[c]" _ "sc_tasks s1 ! i"]) (use e1 e2 len that in simp_all)
  then show ?case using e1 e2 len by simp
qed simp

subsection \<open>Effect of one dispatch on one task\<close>

definition made_calls :: "invocation \<Rightarrow> sched_call list" where
  "made_calls e = iv_calls e @ (case iv_result e of None \<Rightarrow> []
     | Some r \<Rightarrow> [NotifyDirty (tr_dirty_mask r), NotifyEvents (tr_event_mask r)])"

lemma after_calls_own:
  "task_sig t' = task_sig t \<Longrightarrow> tk_ticks_until_due t' = tk_ticks_until_due t \<Longrightarrow>
   tk_pending_mask t' = tk_pending_mask t \<Longrightarrow> tk_pending_events t' = tk_pending_events t \<Longrightarrow>
   tk_run_requested t' = tk_run_requested t \<Longrightarrow> tk_enabled t' = tk_enabled t \<Longrightarrow> after_calls i [] t t'"
  by (simp add: after_calls_def call_effects)

lemma merge_step:
  fixes s :: "'c schedule"
  assumes "(if none then Some s else apply_call c s) = Some s'" "sealed_ok s"
    and "none \<Longrightarrow> (\<forall>i (t :: 'c task_record). after_calls i [c] t t)"
  shows "plan s' = plan s \<and> (\<forall>i < length (sc_tasks s). after_calls i [c] (sc_tasks s ! i) (sc_tasks s' ! i)
    \<and> own_fields (sc_tasks s' ! i) = own_fields (sc_tasks s ! i))"
  using assms apply_call_effect [of c s s'] by (cases none) auto

lemma no_bits_no_effect:
  "dirty_empty m \<Longrightarrow> after_calls i [NotifyDirty m] t t" "v = 0 \<Longrightarrow> after_calls i [NotifyEvents v] t t"
  by (auto simp: after_calls_def call_effects dirty_empty_def)

lemma settle_effect:
  assumes settle: "settle_result j clock kind budget r st s = Some (st', s')" and ok: "sealed_ok s"
  shows "plan s' = plan s \<and> (\<forall>i < length (sc_tasks s).
      after_calls i [NotifyDirty (tr_dirty_mask r), NotifyEvents (tr_event_mask r)] (sc_tasks s ! i) (sc_tasks s' ! i)
      \<and> (if unat j = i then tk_in_progress (sc_tasks s' ! i) = (kind = Background \<and> tr_more_work r)
            \<and> ts_skipped (tk_stats (sc_tasks s' ! i)) = ts_skipped (tk_stats (sc_tasks s ! i))
         else own_fields (sc_tasks s' ! i) = own_fields (sc_tasks s ! i)))"
proof -
  let ?flag = "\<lambda>t. t\<lparr>tk_in_progress := (kind = Background \<and> tr_more_work r)\<rparr>"
  obtain s1 where s1: "upd_task j ?flag s = Some s1"
    and r1: "Option.bind (if dirty_empty (tr_dirty_mask r) then Some s1 else merge_dirty (tr_dirty_mask r) s1)
      (\<lambda>s2. Option.bind (if tr_event_mask r = 0 then Some s2 else merge_events (tr_event_mask r) s2)
        (\<lambda>s3. map_option (Pair st') (upd_task j (record_run clock r) s3))) = Some (st', s')"
    using settle by (auto simp: settle_result_def bind_eq_Some_conv split: if_splits)
  have p1: "plan s1 = plan s" by (rule plan_upd [OF s1]) simp
  have ok1: "sealed_ok s1" by (rule sealed_ok_plan [OF p1 ok])
  obtain s2 where s2: "(if dirty_empty (tr_dirty_mask r) then Some s1 else apply_call (NotifyDirty (tr_dirty_mask r)) s1) = Some s2"
    and r2: "Option.bind (if tr_event_mask r = 0 then Some s2 else merge_events (tr_event_mask r) s2)
        (\<lambda>s3. map_option (Pair st') (upd_task j (record_run clock r) s3)) = Some (st', s')"
    using r1 ok1 by (auto simp: bind_eq_Some_conv notify_dirty_def sealed_ok_def split: if_splits)
  note e2 = merge_step [OF s2 ok1 no_bits_no_effect(1) [THEN allI, THEN allI]]
  have ok2: "sealed_ok s2" using e2 ok1 sealed_ok_plan by blast
  obtain s3 where s3: "(if tr_event_mask r = 0 then Some s2 else apply_call (NotifyEvents (tr_event_mask r)) s2) = Some s3"
    and s4: "upd_task j (record_run clock r) s3 = Some s'"
    using r2 ok2 by (auto simp: bind_eq_Some_conv notify_events_def sealed_ok_def split: if_splits)
  note e3 = merge_step [OF s3 ok2 no_bits_no_effect(2) [THEN allI, THEN allI]]
  have p4: "plan s' = plan s3" by (rule plan_upd [OF s4]) simp
  have plan: "plan s' = plan s" using p1 e2 e3 p4 by simp
  have len: "length (sc_tasks s1) = length (sc_tasks s)" "length (sc_tasks s2) = length (sc_tasks s)"
    "length (sc_tasks s3) = length (sc_tasks s)"
    using p1 e2 e3 plan_length by metis+
  show ?thesis
  proof (intro conjI allI impI plan)
    fix i assume i: "i < length (sc_tasks s)"
    have t1: "sc_tasks s1 ! i = (if unat j = i then ?flag (sc_tasks s ! i) else sc_tasks s ! i)"
      and t4: "sc_tasks s' ! i = (if unat j = i then record_run clock r (sc_tasks s3 ! i) else sc_tasks s3 ! i)"
      using upd_task_task(2) [OF s1 i] upd_task_task(2) [OF s4, of i] i len by simp_all
    have a1: "after_calls i [] (sc_tasks s ! i) (sc_tasks s1 ! i)"
      by (rule after_calls_own) (simp_all add: t1 task_sig_def)
    have a4: "after_calls i [] (sc_tasks s3 ! i) (sc_tasks s' ! i)"
      by (rule after_calls_own) (simp_all add: t4 task_sig_def record_run_def)
    have a2: "after_calls i [NotifyDirty (tr_dirty_mask r)] (sc_tasks s1 ! i) (sc_tasks s2 ! i)"
      and a3: "after_calls i [NotifyEvents (tr_event_mask r)] (sc_tasks s2 ! i) (sc_tasks s3 ! i)"
      using e2 e3 i len by simp_all
    show "after_calls i [NotifyDirty (tr_dirty_mask r), NotifyEvents (tr_event_mask r)] (sc_tasks s ! i) (sc_tasks s' ! i)"
      using after_calls_append [OF after_calls_append [OF after_calls_append [OF a1 a2] a3] a4] by simp
    have "own_fields (sc_tasks s3 ! i) = own_fields (sc_tasks s1 ! i)" using e2 e3 i len by simp
    then show "if unat j = i then tk_in_progress (sc_tasks s' ! i) = (kind = Background \<and> tr_more_work r)
            \<and> ts_skipped (tk_stats (sc_tasks s' ! i)) = ts_skipped (tk_stats (sc_tasks s ! i))
         else own_fields (sc_tasks s' ! i) = own_fields (sc_tasks s ! i)"
      by (auto simp: t1 t4 own_fields_def record_run_def)
  qed
qed

definition poll_context :: "sim_clock \<Rightarrow> poll \<Rightarrow> schedule_task_context" where
  "poll_context clock p = \<lparr>tc_clock = clock, tc_pending_dirty = po_fired_dirty p,
     tc_budget_items = po_budget p, tc_pending_events = po_fired_events p\<rparr>"

definition skip_task :: "'c task_record \<Rightarrow> 'c task_record" where
  "skip_task t = t\<lparr>tk_stats := (tk_stats t)\<lparr>ts_skipped := ts_skipped (tk_stats t) + 1\<rparr>\<rparr>"

text \<open>What a dispatch does to the task it dispatches, and to any other task.\<close>

definition own_step :: "nat \<Rightarrow> sim_clock \<Rightarrow> bool \<Rightarrow> invocation list \<Rightarrow> 'c task_record \<Rightarrow> 'c task_record \<Rightarrow> bool" where
  "own_step i clock ok es t t' \<longleftrightarrow>
     (case poll_cadence t of (p, t1) \<Rightarrow>
        (es = [] \<and> ok \<and> (if po_due p then \<not> tk_enabled t \<and> t' = skip_task t1 else t' = t1))
        \<or> (\<exists>e. es = [e] \<and> po_due p \<and> tk_enabled t \<and> unat (iv_task e) = i \<and> iv_context e = poll_context clock p
            \<and> (case iv_result e of
                 None \<Rightarrow> \<not> ok \<and> (\<exists>t2. after_calls i (made_calls e) (consume_triggers p t1) t2
                      \<and> own_fields t2 = own_fields t1 \<and> t' = restore_triggers p (tk_run_requested t1) t2)
               | Some r \<Rightarrow> ok \<and> after_calls i (made_calls e) (consume_triggers p t1) t'
                      \<and> tk_in_progress t' = (cd_kind (tk_cadence t) = Background \<and> tr_more_work r)
                      \<and> ts_skipped (tk_stats t') = ts_skipped (tk_stats t))))"

definition other_step :: "nat \<Rightarrow> invocation list \<Rightarrow> 'c task_record \<Rightarrow> 'c task_record \<Rightarrow> bool" where
  "other_step i es t t' \<longleftrightarrow> own_fields t' = own_fields t \<and> after_calls i (concat (map made_calls es)) t t'
     \<and> (\<forall>e \<in> set es. unat (iv_task e) \<noteq> i)"

lemma poll_cadence_same [simp]:
  "task_sig (snd (poll_cadence t)) = task_sig t" "tk_enabled (snd (poll_cadence t)) = tk_enabled t"
  "tk_cadence (snd (poll_cadence t)) = tk_cadence t"
  "tk_run_requested (snd (poll_cadence t)) = tk_run_requested t"
  "tk_stats (snd (poll_cadence t)) = tk_stats t"
  "tk_in_progress (snd (poll_cadence t)) = tk_in_progress t"
  "tk_pending_mask (snd (poll_cadence t)) = tk_pending_mask t"
  "tk_pending_events (snd (poll_cadence t)) = tk_pending_events t"
  by (simp_all add: poll_cadence_def task_sig_def count_down_def Let_def split: cadence_kind.split)

text \<open>\<open>dispatch_step\<close>: one dispatch, seen from every task.\<close>

definition dispatch_step :: "u32 \<Rightarrow> sim_clock \<Rightarrow> bool \<Rightarrow> invocation list \<Rightarrow> 'c schedule \<Rightarrow> 'c schedule \<Rightarrow> bool" where
  "dispatch_step j clock ok es s s' \<longleftrightarrow> plan s' = plan s \<and> unat j < length (sc_tasks s)
     \<and> (\<forall>i < length (sc_tasks s).
          if unat j = i then own_step i clock ok es (sc_tasks s ! i) (sc_tasks s' ! i)
          else other_step i es (sc_tasks s ! i) (sc_tasks s' ! i))"

lemma run_task_cases:
  assumes "run_task_if_due j clock rs = Some (ok, rs')"
  obtains (idle) t p t1 s1 where "nth_opt (sc_tasks (rs_schedule rs)) (unat j) = Some t" "poll_cadence t = (p, t1)"
      "upd_task j (\<lambda>_. t1) (rs_schedule rs) = Some s1" "\<not> po_due p" "ok" "rs' = rs\<lparr>rs_schedule := s1\<rparr>"
  | (skipped) t p t1 s1 s2 st where "nth_opt (sc_tasks (rs_schedule rs)) (unat j) = Some t" "poll_cadence t = (p, t1)"
      "upd_task j (\<lambda>_. t1) (rs_schedule rs) = Some s1" "po_due p" "\<not> tk_enabled t1"
      "upd_task j skip_task s1 = Some s2" "ok" "rs' = rs\<lparr>rs_schedule := s2, rs_stats := st\<rparr>"
  | (thrown) t p t1 s1 s2 s3 s4 e where "nth_opt (sc_tasks (rs_schedule rs)) (unat j) = Some t" "poll_cadence t = (p, t1)"
      "upd_task j (\<lambda>_. t1) (rs_schedule rs) = Some s1" "po_due p" "tk_enabled t1"
      "upd_task j (consume_triggers p) s1 = Some s2" "fold_opt apply_call (iv_calls e) s2 = Some s3"
      "upd_task j (restore_triggers p (tk_run_requested t1)) s3 = Some s4"
      "iv_task e = j" "iv_context e = poll_context clock p" "iv_result e = None" "\<not> ok"
      "rs_schedule rs' = s4" "rs_trace rs' = rs_trace rs @ [e]"
  | (ran) t p t1 s1 s2 s3 s4 e r st st' where "nth_opt (sc_tasks (rs_schedule rs)) (unat j) = Some t" "poll_cadence t = (p, t1)"
      "upd_task j (\<lambda>_. t1) (rs_schedule rs) = Some s1" "po_due p" "tk_enabled t1"
      "upd_task j (consume_triggers p) s1 = Some s2" "fold_opt apply_call (iv_calls e) s2 = Some s3"
      "settle_result j clock (cd_kind (tk_cadence t1)) (po_budget p) r st s3 = Some (st', s4)"
      "iv_task e = j" "iv_context e = poll_context clock p" "iv_result e = Some r" "ok"
      "rs_schedule rs' = s4" "rs_trace rs' = rs_trace rs @ [e]"
proof -
  obtain t where t: "nth_opt (sc_tasks (rs_schedule rs)) (unat j) = Some t"
    using assms by (cases "nth_opt (sc_tasks (rs_schedule rs)) (unat j)") (simp_all add: run_task_if_due_def)
  obtain p t1 where p: "poll_cadence t = (p, t1)" by (cases "poll_cadence t")
  note start = assms [unfolded run_task_if_due_def, simplified t bind.simps Let_def p prod.case]
  obtain s1 where s1: "upd_task j (\<lambda>_. t1) (rs_schedule rs) = Some s1"
    using start by (cases "upd_task j (\<lambda>_. t1) (rs_schedule rs)") (simp_all only: bind.simps option.distinct)
  note body = start [simplified s1 bind.simps]
  show thesis
  proof (cases "po_due p")
    case False
    with body show thesis by (intro idle [OF t p s1]) simp_all
  next
    case due: True
    show thesis
    proof (cases "tk_enabled t1")
      case False
      have skip: "upd_task j (\<lambda>t. t\<lparr>tk_stats := tk_stats t\<lparr>ts_skipped := ts_skipped (tk_stats t) + 1\<rparr>\<rparr>) s1 = upd_task j skip_task s1"
        by (simp add: skip_task_def [abs_def])
      obtain s2 where s2: "upd_task j skip_task s1 = Some s2"
        using body due False by (cases "upd_task j skip_task s1") (simp_all add: skip)
      show thesis using body due False s2 by (intro skipped [OF t p s1 due False s2]) (auto simp: skip)
    next
      case on: True
      obtain s2 where s2: "upd_task j (consume_triggers p) s1 = Some s2"
        using body due on by (cases "upd_task j (consume_triggers p) s1") simp_all
      define fn where "fn = (case tk_no_throw_fn t1 of Some f \<Rightarrow> Some f | None \<Rightarrow> tk_fn t1)"
      obtain f where f: "fn = Some f" using body due on s2 by (cases fn) (simp_all add: fn_def [symmetric])
      obtain calls res c' where call: "f (poll_context clock p) (rs_app rs) = (calls, res, c')"
        by (cases "f (poll_context clock p) (rs_app rs)")
      note body1 = body [simplified due on s2 fn_def [symmetric] f poll_context_def [symmetric] bind.simps
          not_True_eq_False if_False]
      note body2 = body1 [unfolded call prod.case]
      obtain s3 where s3: "fold_opt apply_call calls s2 = Some s3"
        using body2 by (cases "fold_opt apply_call calls s2") simp_all
      define e where "e = \<lparr>iv_task = j, iv_context = poll_context clock p, iv_calls = calls, iv_result = res\<rparr>"
      have e: "iv_task e = j" "iv_context e = poll_context clock p" "iv_calls e = calls" "iv_result e = res"
        by (simp_all add: e_def)
      have s3e: "fold_opt apply_call (iv_calls e) s2 = Some s3" using s3 e by simp
      show thesis
      proof (cases res)
        case None
        obtain s4 where "upd_task j (restore_triggers p (tk_run_requested t1)) s3 = Some s4"
          using body2 s3 None by (cases "upd_task j (restore_triggers p (tk_run_requested t1)) s3") (simp_all split: if_splits)
        then show thesis using body2 s3 None e
          by (intro thrown [OF t p s1 due on s2 s3e]) (auto simp: e_def split: if_splits)
      next
        case (Some r)
        let ?st = "(rs_stats rs)\<lparr>ss_tasks_due := ss_tasks_due (rs_stats rs) + 1\<rparr>"
        obtain x where x: "settle_result j clock (cd_kind (tk_cadence t1)) (po_budget p) r ?st s3 = Some x"
          using body2 s3 Some by (cases "settle_result j clock (cd_kind (tk_cadence t1)) (po_budget p) r ?st s3") simp_all
        obtain st' s4 where "x = (st', s4)" by (cases x)
        with x show thesis using body2 s3 Some e
          by (intro ran [OF t p s1 due on s2 s3e]) (auto simp: e_def)
      qed
    qed
  qed
qed

lemma keeps_skip [simp]: "keeps_sig skip_task"
  by (simp add: keeps_sig_def task_sig_def skip_task_def)

lemma dispatch_effect:
  assumes run: "run_task_if_due j clock rs = Some (ok, rs')" and ok: "sealed_ok (rs_schedule rs)"
  shows "\<exists>es. rs_trace rs' = rs_trace rs @ es \<and> dispatch_step j clock ok es (rs_schedule rs) (rs_schedule rs')"
  using run
proof (cases rule: run_task_cases)
  case (idle t p t1 s1)
  have "plan s1 = plan (rs_schedule rs)"
    by (rule plan_upd_at [OF idle(3)]) (use idle(1) poll_cadence_same(1) [of t] in \<open>simp add: idle(2)\<close>)
  then have "dispatch_step j clock ok [] (rs_schedule rs) s1"
    using idle upd_task_task(2) [OF idle(3)]
    by (auto simp: dispatch_step_def own_step_def other_step_def own_fields_def)
  then show ?thesis using idle by auto
next
  case (skipped t p t1 s1 s2 st)
  have p1: "plan s1 = plan (rs_schedule rs)"
    by (rule plan_upd_at [OF skipped(3)]) (use skipped(1) poll_cadence_same(1) [of t] in \<open>simp add: skipped(2)\<close>)
  moreover have "plan s2 = plan s1" by (rule plan_upd [OF skipped(6)]) simp
  ultimately have "dispatch_step j clock ok [] (rs_schedule rs) s2"
    using skipped poll_cadence_same(2) [of t] upd_task_task [OF skipped(3)] upd_task_task [OF skipped(6)]
    by (auto simp: dispatch_step_def own_step_def other_step_def own_fields_def)
  then show ?thesis using skipped by auto
next
  case (thrown t p t1 s1 s2 s3 s4 e)
  have p1: "plan s1 = plan (rs_schedule rs)"
    by (rule plan_upd_at [OF thrown(3)]) (use thrown(1) poll_cadence_same(1) [of t] in \<open>simp add: thrown(2)\<close>)
  have p2: "plan s2 = plan s1" by (rule plan_upd [OF thrown(6)]) simp
  have ok2: "sealed_ok s2" using ok p1 p2 sealed_ok_plan by metis
  note c = calls_effect [OF thrown(7) ok2]
  have p4: "plan s4 = plan s3" by (rule plan_upd [OF thrown(8)]) simp
  have len: "length (sc_tasks s1) = length (sc_tasks (rs_schedule rs))" "length (sc_tasks s2) = length (sc_tasks (rs_schedule rs))"
    "length (sc_tasks s3) = length (sc_tasks (rs_schedule rs))"
    using p1 p2 c plan_length by metis+
  have made: "made_calls e = iv_calls e" using thrown by (simp add: made_calls_def)
  have "dispatch_step j clock ok [e] (rs_schedule rs) s4"
    unfolding dispatch_step_def
  proof (intro conjI allI impI)
    fix i assume i: "i < length (sc_tasks (rs_schedule rs))"
    let ?t = "sc_tasks (rs_schedule rs) ! i"
    have t2: "sc_tasks s2 ! i = (if unat j = i then consume_triggers p t1 else ?t)"
      and t4: "sc_tasks s4 ! i = (if unat j = i then restore_triggers p (tk_run_requested t1) (sc_tasks s3 ! i) else sc_tasks s3 ! i)"
      using upd_task_task(2) [OF thrown(3) i] upd_task_task(2) [OF thrown(6), of i] upd_task_task(2) [OF thrown(8), of i] i len
      by auto
    have own: "own_fields (sc_tasks s3 ! i) = own_fields (sc_tasks s2 ! i)"
      and a: "after_calls i (made_calls e) (sc_tasks s2 ! i) (sc_tasks s3 ! i)" using c i len made by auto
    show "if unat j = i then own_step i clock ok [e] ?t (sc_tasks s4 ! i) else other_step i [e] ?t (sc_tasks s4 ! i)"
      using thrown t2 t4 own a poll_cadence_same(2) [of t]
      by (auto simp: own_step_def other_step_def own_fields_def consume_triggers_def)
  qed (use p1 p2 c p4 thrown in auto)
  then show ?thesis using thrown by auto
next
  case (ran t p t1 s1 s2 s3 s4 e r st st')
  have p1: "plan s1 = plan (rs_schedule rs)"
    by (rule plan_upd_at [OF ran(3)]) (use ran(1) poll_cadence_same(1) [of t] in \<open>simp add: ran(2)\<close>)
  have p2: "plan s2 = plan s1" by (rule plan_upd [OF ran(6)]) simp
  have ok2: "sealed_ok s2" using ok p1 p2 sealed_ok_plan by metis
  note c = calls_effect [OF ran(7) ok2]
  have ok3: "sealed_ok s3" using c ok2 sealed_ok_plan by blast
  note d = settle_effect [OF ran(8) ok3]
  have len: "length (sc_tasks s1) = length (sc_tasks (rs_schedule rs))" "length (sc_tasks s2) = length (sc_tasks (rs_schedule rs))"
    "length (sc_tasks s3) = length (sc_tasks (rs_schedule rs))"
    using p1 p2 c plan_length by metis+
  have made: "made_calls e = iv_calls e @ [NotifyDirty (tr_dirty_mask r), NotifyEvents (tr_event_mask r)]"
    using ran by (simp add: made_calls_def)
  have "dispatch_step j clock ok [e] (rs_schedule rs) s4"
    unfolding dispatch_step_def
  proof (intro conjI allI impI)
    fix i assume i: "i < length (sc_tasks (rs_schedule rs))"
    let ?t = "sc_tasks (rs_schedule rs) ! i"
    have t2: "sc_tasks s2 ! i = (if unat j = i then consume_triggers p t1 else ?t)"
      using upd_task_task(2) [OF ran(3) i] upd_task_task(2) [OF ran(6), of i] i len by auto
    have a: "after_calls i (made_calls e) (sc_tasks s2 ! i) (sc_tasks s4 ! i)"
      unfolding made by (rule after_calls_append [of _ _ _ "sc_tasks s3 ! i"]) (use c d i len in auto)
    have own3: "own_fields (sc_tasks s3 ! i) = own_fields (sc_tasks s2 ! i)" using c i len by auto
    have own4: "if unat j = i then tk_in_progress (sc_tasks s4 ! i) = (cd_kind (tk_cadence t1) = Background \<and> tr_more_work r)
            \<and> ts_skipped (tk_stats (sc_tasks s4 ! i)) = ts_skipped (tk_stats (sc_tasks s3 ! i))
         else own_fields (sc_tasks s4 ! i) = own_fields (sc_tasks s3 ! i)" using d i len by auto
    show "if unat j = i then own_step i clock ok [e] ?t (sc_tasks s4 ! i) else other_step i [e] ?t (sc_tasks s4 ! i)"
      using ran t2 a own3 own4 poll_cadence_same [of t]
      by (auto simp: own_step_def other_step_def own_fields_def consume_triggers_def)
  qed (use p1 p2 c d ran in auto)
  then show ?thesis using ran by auto
qed

subsection \<open>Phase order\<close>

lemma concat_buckets_sort_key:
  assumes "\<And>x. x \<in> set xs \<Longrightarrow> key x < (K :: nat)"
  shows "concat (map (\<lambda>k. filter (\<lambda>x. key x = k) xs) [0..<K]) = sort_key key xs"
proof (rule sym, rule properties_for_sort_key)
  have part: "filter (\<lambda>x. key x = k) (concat (map (\<lambda>k. filter (\<lambda>x. key x = k) xs) ks))
      = (if k \<in> set ks then filter (\<lambda>x. key x = k) xs else [])" if "distinct ks" for k ks
    using that by (induction ks) (auto simp: filter_filter conj_commute intro!: filter_False filter_cong)
  have "count (mset (concat (map (\<lambda>k. filter (\<lambda>x. key x = k) xs) [0..<K]))) y = count (mset xs) y" for y
  proof -
    have c: "count (mset zs) y = length (filter ((=) y) (filter (\<lambda>x. key x = key y) zs))" for zs
      by (induction zs) auto
    show ?thesis
    proof (cases "y \<in> set xs")
      case True
      then show ?thesis using assms by (simp only: c part [OF distinct_upt]) simp
    next
      case False
      then show ?thesis by (simp add: count_eq_zero_iff [THEN iffD2] not_in_iff [symmetric])
    qed
  qed
  then show "mset (concat (map (\<lambda>k. filter (\<lambda>x. key x = k) xs) [0..<K])) = mset xs"
    by (rule multiset_eqI)
  show "filter (\<lambda>x. key k = key x) (concat (map (\<lambda>k. filter (\<lambda>x. key x = k) xs) [0..<K]))
      = filter (\<lambda>x. key k = key x) xs" if "k \<in> set (concat (map (\<lambda>k. filter (\<lambda>x. key x = k) xs) [0..<K]))" for k
    using part [OF distinct_upt, of "key k" 0 K] that assms by (auto simp: eq_commute [of "key k"])
  have "sorted (map key (concat (map (\<lambda>k. filter (\<lambda>x. key x = k) xs) [a..<b])))" for a b
  proof (induction "b - a" arbitrary: a)
    case (Suc d)
    then have "[a..<b] = a # [Suc a..<b]" by (simp add: upt_conv_Cons)
    moreover have "sorted (map key (filter (\<lambda>x. key x = a) xs))"
      by (rule sorted_map_same)
    ultimately show ?case using Suc by (auto simp: sorted_append)
  qed simp
  then show "sorted (map key (concat (map (\<lambda>k. filter (\<lambda>x. key x = k) xs) [0..<K])))" .
qed

lemma phase_order_sorted:
  assumes "sealed_ok s"
  shows "map unat (sc_phase_order s)
    = sort_key (\<lambda>i. phase_index (td_phase (tk_desc (sc_tasks s ! i)))) [0..<length (sc_tasks s)]"
proof -
  have "map unat (sc_phase_order s) = concat (map (\<lambda>ph. filter (\<lambda>i. phase_index (td_phase (tk_desc (sc_tasks s ! i))) = ph)
      [0..<length (sc_tasks s)]) [0..<phase_index PhCount])"
    using assms by (simp add: sealed_ok_def seal_def map_concat unat_ids comp_def)
  also have "\<dots> = sort_key (\<lambda>i. phase_index (td_phase (tk_desc (sc_tasks s ! i)))) [0..<length (sc_tasks s)]"
    by (rule concat_buckets_sort_key) (use assms in \<open>auto simp: sealed_ok_def\<close>)
  finally show ?thesis .
qed

lemma phase_order_each_once:
  assumes "sealed_ok s"
  shows "distinct (map unat (sc_phase_order s))" "unat ` set (sc_phase_order s) = {..<length (sc_tasks s)}"
proof -
  show "distinct (map unat (sc_phase_order s))" unfolding phase_order_sorted [OF assms] by simp
  have "set (map unat (sc_phase_order s)) = {..<length (sc_tasks s)}"
    unfolding phase_order_sorted [OF assms] by auto
  then show "unat ` set (sc_phase_order s) = {..<length (sc_tasks s)}" by simp
qed


subsection \<open>Effect of a tick on one task\<close>

lemma other_step_Nil [simp]: "other_step i [] t t"
  by (simp add: other_step_def)

lemma other_step_append:
  "other_step i es t t1 \<Longrightarrow> other_step i fs t1 t2 \<Longrightarrow> other_step i (es @ fs) t t2"
  by (auto simp: other_step_def intro: after_calls_append)

definition tick_effect :: "nat \<Rightarrow> sim_clock \<Rightarrow> bool \<Rightarrow> invocation list \<Rightarrow> 'c task_record \<Rightarrow> 'c task_record \<Rightarrow> bool" where
  "tick_effect i clock ok es t t' \<longleftrightarrow>
     (\<exists>es1 es2 es3 ta tb ok2. es = es1 @ es2 @ es3 \<and> other_step i es1 t ta \<and> own_step i clock ok2 es2 ta tb
        \<and> other_step i es3 tb t' \<and> (ok \<longrightarrow> ok2))
     \<or> (\<not> ok \<and> (\<exists>ta. other_step i es t ta \<and> t' = advance_aborted_tick_cadence ta))"

lemma tick_effect_turn:
  assumes "own_step i clock ok2 es2 t tb" "other_step i es3 tb t'" "ok \<longrightarrow> ok2"
  shows "tick_effect i clock ok (es2 @ es3) t t'"
  unfolding tick_effect_def
  by (intro disjI1 exI [of _ "[]"] exI [of _ es2] exI [of _ es3] exI [of _ t] exI [of _ tb] exI [of _ ok2])
    (use assms in simp)

lemma tick_effect_prefix:
  assumes "other_step i es t ta" "tick_effect i clock ok fs ta t'"
  shows "tick_effect i clock ok (es @ fs) t t'"
proof (cases "\<not> ok \<and> (\<exists>tb. other_step i fs ta tb \<and> t' = advance_aborted_tick_cadence tb)")
  case True
  then show ?thesis using other_step_append [OF assms(1)] unfolding tick_effect_def by blast
next
  case False
  then obtain es1 es2 es3 tb tc ok2 where "fs = es1 @ es2 @ es3" "other_step i es1 ta tb" "own_step i clock ok2 es2 tb tc"
    "other_step i es3 tc t'" "ok \<longrightarrow> ok2"
    using assms(2) unfolding tick_effect_def by blast
  then show ?thesis using other_step_append [OF assms(1)] unfolding tick_effect_def
    by (intro disjI1 exI [of _ "es @ es1"] exI [of _ es2] exI [of _ es3] exI [of _ tb] exI [of _ tc] exI [of _ ok2])
      simp
qed

lemma own_step_task:
  assumes "own_step i clock ok es t t'"
  shows "es = [] \<or> (\<exists>e. es = [e] \<and> unat (iv_task e) = i \<and> tc_clock (iv_context e) = clock)"
  using assms by (auto simp: own_step_def poll_context_def split: prod.splits)

lemma run_tasks_effect:
  assumes "run_tasks is clock rs = Some (ok, rs')" "sealed_ok (rs_schedule rs)" "distinct (map unat is)"
  shows "\<exists>es. rs_trace rs' = rs_trace rs @ es \<and> plan (rs_schedule rs') = plan (rs_schedule rs)
    \<and> subseq (map iv_task es) is \<and> (\<forall>e \<in> set es. tc_clock (iv_context e) = clock)
    \<and> (\<forall>i < length (sc_tasks (rs_schedule rs)).
         if i \<in> unat ` set is then tick_effect i clock ok es (sc_tasks (rs_schedule rs) ! i) (sc_tasks (rs_schedule rs') ! i)
         else other_step i es (sc_tasks (rs_schedule rs) ! i) (sc_tasks (rs_schedule rs') ! i))"
  using assms
proof (induction "is" arbitrary: rs)
  case Nil
  then show ?case by (intro exI [of _ "[]"]) simp
next
  case (Cons j js)
  obtain ok1 rs1 where r1: "run_task_if_due j clock rs = Some (ok1, rs1)"
    using Cons.prems(1) by (cases "run_task_if_due j clock rs") auto
  obtain es1 where es1: "rs_trace rs1 = rs_trace rs @ es1"
    and d: "dispatch_step j clock ok1 es1 (rs_schedule rs) (rs_schedule rs1)"
    using dispatch_effect [OF r1 Cons.prems(2)] by blast
  let ?n = "length (sc_tasks (rs_schedule rs))"
  have plan1: "plan (rs_schedule rs1) = plan (rs_schedule rs)" and j: "unat j < ?n"
    using d by (simp_all add: dispatch_step_def)
  have step: "if unat j = i then own_step i clock ok1 es1 (sc_tasks (rs_schedule rs) ! i) (sc_tasks (rs_schedule rs1) ! i)
      else other_step i es1 (sc_tasks (rs_schedule rs) ! i) (sc_tasks (rs_schedule rs1) ! i)" if "i < ?n" for i
    using d that by (simp add: dispatch_step_def)
  have len: "length (sc_tasks (rs_schedule rs1)) = ?n" by (rule plan_length [OF plan1])
  have "own_step (unat j) clock ok1 es1 (sc_tasks (rs_schedule rs) ! unat j) (sc_tasks (rs_schedule rs1) ! unat j)"
    using step [OF j] by simp
  then have head: "es1 = [] \<or> (\<exists>e. es1 = [e] \<and> iv_task e = j \<and> tc_clock (iv_context e) = clock)"
    using own_step_task word_unat_eq_iff by blast
  show ?case
  proof (cases ok1)
    case True
    have r2: "run_tasks js clock rs1 = Some (ok, rs')" using Cons.prems(1) r1 True by simp
    have ok': "sealed_ok (rs_schedule rs1)" by (rule sealed_ok_plan [OF plan1 Cons.prems(2)])
    obtain es2 where es2: "rs_trace rs' = rs_trace rs1 @ es2" "plan (rs_schedule rs') = plan (rs_schedule rs1)"
      "subseq (map iv_task es2) js" "\<forall>e \<in> set es2. tc_clock (iv_context e) = clock"
      and rest: "\<And>i. i < ?n \<Longrightarrow>
         if i \<in> unat ` set js then tick_effect i clock ok es2 (sc_tasks (rs_schedule rs1) ! i) (sc_tasks (rs_schedule rs') ! i)
         else other_step i es2 (sc_tasks (rs_schedule rs1) ! i) (sc_tasks (rs_schedule rs') ! i)"
      using Cons.IH [OF r2 ok'] Cons.prems(3) len by auto
    have "if i \<in> unat ` set (j # js) then tick_effect i clock ok (es1 @ es2) (sc_tasks (rs_schedule rs) ! i) (sc_tasks (rs_schedule rs') ! i)
         else other_step i (es1 @ es2) (sc_tasks (rs_schedule rs) ! i) (sc_tasks (rs_schedule rs') ! i)" if i: "i < ?n" for i
    proof (cases "unat j = i")
      case ij: True
      then have "i \<notin> unat ` set js" using Cons.prems(3) by auto
      then have "tick_effect i clock ok (es1 @ es2) (sc_tasks (rs_schedule rs) ! i) (sc_tasks (rs_schedule rs') ! i)"
        using step [OF i] rest [OF i] ij True by (intro tick_effect_turn) auto
      then show ?thesis using ij by simp
    next
      case False
      then have "other_step i es1 (sc_tasks (rs_schedule rs) ! i) (sc_tasks (rs_schedule rs1) ! i)"
        using step [OF i] by simp
      then show ?thesis using rest [OF i] False tick_effect_prefix other_step_append by (auto split: if_splits)
    qed
    moreover have "subseq (map iv_task (es1 @ es2)) (j # js)" using head es2(3) by auto
    ultimately show ?thesis
      using es1 es2 plan1 head by (intro exI [of _ "es1 @ es2"]) auto
  next
    case False
    obtain s where s: "fold_opt (\<lambda>j. upd_task j advance_aborted_tick_cadence) js (rs_schedule rs1) = Some s"
      and rs': "rs' = rs1\<lparr>rs_schedule := s\<rparr>" "\<not> ok"
      using Cons.prems(1) r1 False by (auto simp: bind_eq_Some_conv)
    have at: "sc_tasks s ! i = (if i \<in> unat ` set js then advance_aborted_tick_cadence (sc_tasks (rs_schedule rs1) ! i)
        else sc_tasks (rs_schedule rs1) ! i)" if "i < ?n" for i
      by (rule fold_upd_once [OF s]) (use Cons.prems(3) len that in simp_all)
    have eff: "if i \<in> unat ` set (j # js) then tick_effect i clock ok es1 (sc_tasks (rs_schedule rs) ! i) (sc_tasks s ! i)
         else other_step i es1 (sc_tasks (rs_schedule rs) ! i) (sc_tasks s ! i)" if i: "i < ?n" for i
    proof (cases "unat j = i")
      case ij: True
      then have "i \<notin> unat ` set js" using Cons.prems(3) by auto
      then have "tick_effect i clock ok es1 (sc_tasks (rs_schedule rs) ! i) (sc_tasks s ! i)"
        using step [OF i] at [OF i] ij rs'(2) tick_effect_turn [of i clock ok1 es1 _ "sc_tasks s ! i" "[]" "sc_tasks s ! i" ok]
        by auto
      then show ?thesis using ij by simp
    next
      case nj: False
      then have "other_step i es1 (sc_tasks (rs_schedule rs) ! i) (sc_tasks (rs_schedule rs1) ! i)"
        using step [OF i] by simp
      then show ?thesis using at [OF i] nj rs'(2) unfolding tick_effect_def by auto
    qed
    have trace: "subseq (map iv_task es1) (j # js)" "\<forall>e \<in> set es1. tc_clock (iv_context e) = clock"
      using head by auto
    show ?thesis
    proof (intro exI [of _ es1] conjI trace allI impI)
      fix i assume "i < ?n"
      from eff [OF this] show "if i \<in> unat ` set (j # js)
        then tick_effect i clock ok es1 (sc_tasks (rs_schedule rs) ! i) (sc_tasks (rs_schedule rs') ! i)
        else other_step i es1 (sc_tasks (rs_schedule rs) ! i) (sc_tasks (rs_schedule rs') ! i)" by (simp only: rs') simp
    qed (use es1 rs' plan_fold [OF s] plan1 in simp_all)
  qed
qed

lemma run_tick_effect:
  assumes run: "run_tick clock s c = Some (ok, clock', rs)" and ok: "sealed_ok s"
  shows "clk_tick clock' = clk_tick clock + 1 \<and> plan (rs_schedule rs) = plan s
    \<and> subseq (map iv_task (rs_trace rs)) (sc_phase_order s)
    \<and> (\<forall>e \<in> set (rs_trace rs). tc_clock (iv_context e) = clock')
    \<and> (\<forall>i < length (sc_tasks s). tick_effect i clock' ok (rs_trace rs) (sc_tasks s ! i) (sc_tasks (rs_schedule rs) ! i))"
proof -
  let ?s = "s\<lparr>sc_in_run := True\<rparr>"
  let ?rs = "\<lparr>rs_schedule = ?s, rs_stats = default_tick_stats\<lparr>ss_tick := clk_tick clock + 1\<rparr>, rs_app = c, rs_trace = []\<rparr>"
  obtain rs1 where r: "run_tasks (sc_phase_order s) (clock\<lparr>clk_tick := clk_tick clock + 1\<rparr>) ?rs = Some (ok, rs1)"
    and eq: "clock' = clock\<lparr>clk_tick := clk_tick clock + 1\<rparr>" "rs = rs1\<lparr>rs_schedule := (rs_schedule rs1)\<lparr>sc_in_run := False\<rparr>\<rparr>"
      "\<not> sc_in_run s"
    using run by (auto simp: run_tick_def advance_sim_tick_def bind_eq_Some_conv split: if_splits)
  have "sealed_ok ?s" using ok by (simp add: sealed_ok_def seal_def)
  then have ok': "sealed_ok (rs_schedule ?rs)" by simp
  have sel: "sc_tasks (rs_schedule ?rs) = sc_tasks s" "plan (rs_schedule ?rs) = plan ?s" "rs_trace ?rs = []"
    by simp_all
  obtain es where es: "rs_trace rs1 = es" "plan (rs_schedule rs1) = plan ?s" "subseq (map iv_task es) (sc_phase_order s)"
    "\<forall>e \<in> set es. tc_clock (iv_context e) = clock'"
    "\<forall>i < length (sc_tasks s). if i \<in> unat ` set (sc_phase_order s)
       then tick_effect i clock' ok es (sc_tasks s ! i) (sc_tasks (rs_schedule rs1) ! i)
       else other_step i es (sc_tasks s ! i) (sc_tasks (rs_schedule rs1) ! i)"
    using run_tasks_effect [OF r ok' phase_order_each_once(1) [OF ok], unfolded sel append_Nil eq(1) [symmetric]] by blast
  have "plan (rs_schedule rs) = plan s" using es(2) eq(2,3) by (simp add: plan_def)
  then show ?thesis using es eq phase_order_each_once(2) [OF ok] by auto
qed


subsection \<open>Reachable schedules\<close>

definition register ::
    "(schedule_task_desc \<times> 'c task_fn option \<times> 'c task_fn option) list \<Rightarrow> 'c schedule \<Rightarrow> 'c schedule option" where
  "register = fold_opt (\<lambda>(d, f, g) s. map_option snd (add_task_record d f g s))"

inductive sched_reachable :: "'c schedule \<Rightarrow> bool" where
  start: "register ds empty_schedule = Some s \<Longrightarrow> length ds \<le> 2 ^ 32 \<Longrightarrow> sched_reachable (seal s)"
| ticked: "sched_reachable s \<Longrightarrow> run_tick clock s c = Some (ok, clock', rs) \<Longrightarrow> sched_reachable (rs_schedule rs)"
| called: "sched_reachable s \<Longrightarrow> apply_call a s = Some s' \<Longrightarrow> sched_reachable s'"

definition unsealed_ok :: "'c schedule \<Rightarrow> bool" where
  "unsealed_ok s \<longleftrightarrow> \<not> sc_sealed s \<and> (\<forall>t \<in> set (sc_tasks s). phase_index (td_phase (tk_desc t)) < phase_index PhCount
     \<and> (cd_kind (tk_cadence t) = EveryN \<longrightarrow> 0 < cd_every_n (tk_cadence t)
          \<and> tk_ticks_until_due t = cd_every_n (tk_cadence t)))"

lemma add_task_ok:
  assumes "add_task_record d f g s = Some (i, s')" "unsealed_ok s"
  shows "unsealed_ok s' \<and> (\<exists>t. sc_tasks s' = sc_tasks s @ [t] \<and> tk_desc t =
      d\<lparr>td_cadence := (td_cadence d)\<lparr>cd_every_n := (if cd_every_n (td_cadence d) = 0 then 1 else cd_every_n (td_cadence d)),
        cd_max_items := (if cd_max_items (td_cadence d) = 0 then 1 else cd_max_items (td_cadence d))\<rparr>\<rparr>)"
  using assms by (auto simp: add_task_record_def unsealed_ok_def Let_def word_gt_0 split: if_splits)

end
