(* ===== verification/Schedule_Props.thy ===== *)
theory Schedule_Props
  imports Schedule
begin

text \<open>
  What the fixed-tick schedule guarantees: the phase order, the lockstep of \<open>EveryN\<close> tasks, and
  the conservation of dirty and event triggers across ticks, disabled tasks and exceptions.
\<close>

lemma unsealed_sealed:
  assumes "unsealed_ok s" "length (sc_tasks s) \<le> 2 ^ 32"
  shows "sealed_ok (seal s)"
  using assms by (simp add: unsealed_ok_def sealed_ok_def seal_def)

lemma register_ok:
  "register ds s = Some s' \<Longrightarrow> unsealed_ok s \<Longrightarrow>
     unsealed_ok s' \<and> length (sc_tasks s') = length (sc_tasks s) + length ds"
proof (induction ds arbitrary: s)
  case (Cons d ds)
  obtain x f g where d: "d = (x, f, g)" by (cases d)
  obtain r where r: "add_task_record x f g s = Some r" "register ds (snd r) = Some s'"
    using Cons.prems(1) by (cases "add_task_record x f g s") (simp_all add: register_def d)
  obtain i s1 where s1: "r = (i, s1)" by (cases r)
  show ?case
    using Cons.IH [of s1] r add_task_ok [of x f g s i s1] Cons.prems(2) by (auto simp: s1)
qed (simp add: register_def)

lemma empty_unsealed: "unsealed_ok empty_schedule"
  by (simp add: unsealed_ok_def empty_schedule_def)

lemma registered_ok:
  assumes "register ds empty_schedule = Some s" "length ds \<le> 2 ^ 32"
  shows "sealed_ok (seal s)" "unsealed_ok s" "length (sc_tasks s) = length ds"
  using register_ok [OF assms(1) empty_unsealed] assms(2) unsealed_sealed [of s]
  by (simp_all add: empty_schedule_def)

lemma seal_tasks [simp]: "sc_tasks (seal s) = sc_tasks s"
  by (simp add: seal_def)

lemma reachable_ok: "sched_reachable s \<Longrightarrow> sealed_ok s"
proof (induction rule: sched_reachable.induct)
  case (ticked s clock c ok clock' rs)
  have "plan (rs_schedule rs) = plan s" using run_tick_effect [OF ticked.hyps(2) ticked.IH] by simp
  then show ?case by (rule sealed_ok_plan [OF _ ticked.IH])
next
  case (called s a s')
  have "plan s' = plan s" using apply_call_effect [OF called.hyps(2) called.IH] by simp
  then show ?case by (rule sealed_ok_plan [OF _ called.IH])
qed (rule registered_ok(1))


subsection \<open>An example schedule\<close>

definition example_body :: "nat task_fn" where
  "example_body ctx c = ([NotifyDirty (DirtyMask 4)],
     Some \<lparr>tr_dirty_mask = DirtyMask 1, tr_items_done = 0, tr_more_work = False, tr_event_mask = 0\<rparr>, c + 1)"

definition example_tasks :: "(schedule_task_desc \<times> nat task_fn option \<times> nat task_fn option) list" where
  "example_tasks =
     [(\<lparr>td_name = ''render'', td_phase = PhRenderDelta, td_cadence = cadence_on_dirty (DirtyMask 3)\<rparr>, Some example_body, None),
      (\<lparr>td_name = ''move'', td_phase = PhMovement, td_cadence = cadence_every_ticks 1\<rparr>, None, Some example_body)]"

lemma example_computed:
  "case register example_tasks empty_schedule of
     None \<Rightarrow> False
   | Some s \<Rightarrow>
       length (sc_tasks s) = 2 \<and> cd_kind (tk_cadence (sc_tasks s ! 1)) = EveryN
       \<and> cd_every_n (tk_cadence (sc_tasks s ! 1)) = 1 \<and> cd_kind (tk_cadence (sc_tasks s ! 0)) = OnDirty
       \<and> (case run_tick \<lparr>clk_tick = 0\<rparr> (seal s) 0 of
            None \<Rightarrow> False
          | Some (ok, clock, rs) \<Rightarrow> ok \<and> clk_tick clock = 1 \<and> map iv_task (rs_trace rs) = [1, 0]
              \<and> map (\<lambda>e. tc_pending_dirty (iv_context e)) (rs_trace rs) = [DirtyMask 0, DirtyMask 1])"
  by code_simp

lemma example_run:
  "\<exists>s clock rs. register example_tasks empty_schedule = Some s \<and> sched_reachable (seal s)
    \<and> run_tick \<lparr>clk_tick = 0\<rparr> (seal s) 0 = Some (True, clock, rs)
    \<and> length (sc_tasks s) = 2 \<and> cd_kind (tk_cadence (sc_tasks s ! 1)) = EveryN
    \<and> cd_every_n (tk_cadence (sc_tasks s ! 1)) = 1 \<and> cd_kind (tk_cadence (sc_tasks s ! 0)) = OnDirty"
proof -
  obtain s where s: "register example_tasks empty_schedule = Some s"
    using example_computed by (cases "register example_tasks empty_schedule :: nat schedule option") auto
  obtain x where x: "run_tick \<lparr>clk_tick = 0\<rparr> (seal s) 0 = Some x"
    using example_computed s by (cases "run_tick \<lparr>clk_tick = 0\<rparr> (seal s) 0") auto
  obtain ok clock rs where "x = (ok, clock, rs)" by (cases x)
  moreover have "sched_reachable (seal s)"
    by (rule sched_reachable.start [OF s]) (simp add: example_tasks_def)
  ultimately show ?thesis using example_computed s x by simp
qed

subsection \<open>Order of a tick\<close>

lemma subseq_distinct: "subseq xs ys \<Longrightarrow> distinct ys \<Longrightarrow> distinct xs"
proof (induction rule: list_emb.induct)
  case (list_emb_Cons2 x y xs ys)
  then show ?case by (auto dest: list_emb_set)
qed simp_all

text \<open>
  C31. A tick dispatches in phase order. In every reachable schedule the dispatch order is the
  stable sort of the registered tasks by phase; the bodies invoked in a tick are a subsequence of
  it, so none runs twice, and each sees the clock of the tick, which advanced by one. Neither the
  order nor any task's description ever changes.
\<close>

theorem tick_dispatches_in_phase_order:
  assumes "sched_reachable s" "run_tick clock s c = Some (ok, clock', rs)"
  shows "map unat (sc_phase_order s)
      = sort_key (\<lambda>i. phase_index (td_phase (tk_desc (sc_tasks s ! i)))) [0..<length (sc_tasks s)]
    \<and> subseq (map iv_task (rs_trace rs)) (sc_phase_order s) \<and> distinct (map iv_task (rs_trace rs))
    \<and> (\<forall>e \<in> set (rs_trace rs). tc_clock (iv_context e) = clock')
    \<and> clk_tick clock' = clk_tick clock + 1
    \<and> sc_phase_order (rs_schedule rs) = sc_phase_order s
    \<and> map tk_desc (sc_tasks (rs_schedule rs)) = map tk_desc (sc_tasks s)"
proof -
  have ok: "sealed_ok s" by (rule reachable_ok [OF assms(1)])
  note e = run_tick_effect [OF assms(2) ok]
  have "map task_sig (sc_tasks (rs_schedule rs)) = map task_sig (sc_tasks s)"
    and order: "sc_phase_order (rs_schedule rs) = sc_phase_order s"
    using e by (simp_all add: plan_def)
  then have "map tk_desc (sc_tasks (rs_schedule rs)) = map tk_desc (sc_tasks s)"
    by (auto simp: task_sig_def comp_def dest: arg_cong [where f = "map fst"])
  moreover have "distinct (map iv_task (rs_trace rs))"
    using e phase_order_each_once(1) [OF ok] subseq_distinct distinct_map by blast
  ultimately show ?thesis using e order phase_order_sorted [OF ok] by blast
qed


lemma tick_dispatches_in_phase_order_witness:
  "\<exists>s clock rs. run_tick \<lparr>clk_tick = 0\<rparr> (seal s) (0 :: nat) = Some (True, clock, rs) \<and> length (sc_tasks s) = 2
    \<and> subseq (map iv_task (rs_trace rs)) (sc_phase_order (seal s)) \<and> clk_tick clock = 1"
proof -
  obtain s clock rs where e: "sched_reachable (seal s)" "run_tick \<lparr>clk_tick = 0\<rparr> (seal s) (0 :: nat) = Some (True, clock, rs)"
    "length (sc_tasks s) = 2" using example_run by blast
  from tick_dispatches_in_phase_order [OF e(1,2)]
  have "subseq (map iv_task (rs_trace rs)) (sc_phase_order (seal s))" "clk_tick clock = 1" by simp_all
  with e(2,3) show ?thesis by blast
qed

subsection \<open>EveryN\<close>

abbreviation every_n_task :: "u32 \<Rightarrow> 'c task_record \<Rightarrow> bool" where
  "every_n_task n t \<equiv> cd_kind (tk_cadence t) = EveryN \<and> cd_every_n (tk_cadence t) = n"

lemma other_step_countdown: "other_step i es t t' \<Longrightarrow>
    tk_ticks_until_due t' = tk_ticks_until_due t \<and> tk_desc t' = tk_desc t \<and> own_fields t' = own_fields t"
  by (simp add: other_step_def after_calls_def task_sig_def)

lemma own_step_countdown:
  assumes "own_step i clock ok es t t'" "every_n_task n t"
  shows "tk_ticks_until_due t' = tk_ticks_until_due (count_down t) \<and> tk_desc t' = tk_desc t"
  using assms
  by (auto simp: own_step_def poll_cadence_def Let_def skip_task_def after_calls_def task_sig_def
      consume_triggers_def restore_triggers_def count_down_def split: option.splits if_split_asm)

lemma own_step_desc:
  assumes "own_step i clock ok es t t'"
  shows "tk_desc t' = tk_desc t"
proof -
  obtain p t1 where p: "poll_cadence t = (p, t1)" by (cases "poll_cadence t")
  have "tk_desc t1 = tk_desc t" using poll_cadence_same(1) [of t] by (simp add: p task_sig_def)
  then show ?thesis
    using assms by (auto simp: own_step_def p skip_task_def after_calls_def task_sig_def consume_triggers_def
        restore_triggers_def split: option.splits if_split_asm)
qed

lemma tick_countdown:
  assumes "tick_effect i clock ok es t t'" "every_n_task n t"
  shows "tk_ticks_until_due t' = tk_ticks_until_due (count_down t)"
  using assms unfolding tick_effect_def
proof (elim disjE exE conjE)
  fix es1 es2 es3 ta tb ok2
  assume "other_step i es1 t ta" "own_step i clock ok2 es2 ta tb" "other_step i es3 tb t'"
  then show ?thesis using assms(2) own_step_countdown [of i clock ok2 es2 ta tb n]
    by (auto simp: count_down_def dest!: other_step_countdown)
next
  fix ta assume "other_step i es t ta" "t' = advance_aborted_tick_cadence ta"
  then show ?thesis using assms(2)
    by (auto simp: advance_aborted_tick_cadence_def count_down_def dest!: other_step_countdown)
qed

definition countdown_at :: "u32 \<Rightarrow> nat \<Rightarrow> 'c task_record \<Rightarrow> bool" where
  "countdown_at n k t \<longleftrightarrow> every_n_task n t \<and> unat (tk_ticks_until_due t) = unat n - k mod unat n"

lemma count_down_step:
  assumes "countdown_at n k t" "0 < n"
  shows "unat (tk_ticks_until_due (count_down t)) = unat n - Suc k mod unat n"
    and "tk_ticks_until_due t - 1 = 0 \<longleftrightarrow> unat n dvd Suc k"
proof -
  let ?d = "tk_ticks_until_due t"
  have n: "0 < unat n" using assms(2) by (simp add: word_less_nat_alt)
  have d: "unat ?d = unat n - k mod unat n" using assms(1) by (simp add: countdown_at_def)
  have pos: "0 < unat ?d" using d n mod_less_divisor [OF n, of k] by simp
  have pred: "unat (?d - 1) = unat ?d - 1" using pos by (simp add: unat_minus_one word_gt_0 unat_gt_0)
  have zero: "?d - 1 = 0 \<longleftrightarrow> unat ?d = 1" using pred pos by (metis One_nat_def Suc_pred unat_eq_0 unat_0 diff_Suc_1)
  have dvd: "unat ?d = 1 \<longleftrightarrow> unat n dvd Suc k"
    using d n mod_less_divisor [OF n, of k] by (auto simp: mod_Suc dvd_eq_mod_eq_0 split: if_splits)
  show "?d - 1 = 0 \<longleftrightarrow> unat n dvd Suc k" using zero dvd by simp
  show "unat (tk_ticks_until_due (count_down t)) = unat n - Suc k mod unat n"
    using assms(1) d zero dvd pred n mod_less_divisor [OF n, of k]
    by (auto simp: count_down_def countdown_at_def mod_Suc dvd_eq_mod_eq_0 split: if_splits)
qed

datatype sched_action = Tick | Call sched_call

type_synonym 'c sched_state = "sim_clock \<times> 'c schedule \<times> 'c"

fun sched_step :: "sched_action \<Rightarrow> 'c sched_state \<Rightarrow> 'c sched_state option" where
  "sched_step Tick (clock, s, c) = map_option (\<lambda>(ok, clock', rs). (clock', rs_schedule rs, rs_app rs)) (run_tick clock s c)"
| "sched_step (Call a) (clock, s, c) = map_option (\<lambda>s'. (clock, s', c)) (apply_call a s)"

definition ticks_in :: "sched_action list \<Rightarrow> nat" where
  "ticks_in as = length (filter ((=) Tick) as)"

lemma sched_step_cases:
  assumes "sched_step a (clock, s, c) = Some (clock', s', c')"
  obtains (tick) ok rs where "a = Tick" "run_tick clock s c = Some (ok, clock', rs)" "s' = rs_schedule rs"
  | (call) f where "a = Call f" "apply_call f s = Some s'"
  using assms by (cases a) auto

lemma call_countdown:
  assumes "apply_call f s = Some s'" "sealed_ok s" "i < length (sc_tasks s)" "countdown_at n k (sc_tasks s ! i)"
  shows "countdown_at n k (sc_tasks s' ! i)"
  using apply_call_effect [OF assms(1,2)] assms(3,4) by (auto simp: countdown_at_def after_calls_def task_sig_def)

lemma tick_sig: "plan s' = plan s \<Longrightarrow> i < length (sc_tasks s) \<Longrightarrow> tk_desc (sc_tasks s' ! i) = tk_desc (sc_tasks s ! i)"
  using plan_sig [of s' s i] by (simp add: task_sig_def)

lemma run_countdown:
  "fold_opt sched_step as (clock, s, c) = Some (clock', s', c') \<Longrightarrow> sched_reachable s \<Longrightarrow>
     i < length (sc_tasks s) \<Longrightarrow> countdown_at n k (sc_tasks s ! i) \<Longrightarrow> 0 < n \<Longrightarrow>
     sched_reachable s' \<and> length (sc_tasks s') = length (sc_tasks s) \<and> countdown_at n (k + ticks_in as) (sc_tasks s' ! i)"
proof (induction as arbitrary: clock s c k)
  case (Cons a as)
  obtain x where x: "sched_step a (clock, s, c) = Some x" "fold_opt sched_step as x = Some (clock', s', c')"
    using Cons.prems(1) by (cases "sched_step a (clock, s, c)") simp_all
  obtain clock1 s1 c1 where x1: "x = (clock1, s1, c1)" by (cases x)
  have ok: "sealed_ok s" by (rule reachable_ok [OF Cons.prems(2)])
  have "sched_reachable s1 \<and> length (sc_tasks s1) = length (sc_tasks s)
      \<and> countdown_at n (if a = Tick then Suc k else k) (sc_tasks s1 ! i)"
    using x(1) [unfolded x1]
  proof (cases rule: sched_step_cases)
    case (tick ok1 rs)
    note e = run_tick_effect [OF tick(2) ok]
    have eff: "tick_effect i clock1 ok1 (rs_trace rs) (sc_tasks s ! i) (sc_tasks s1 ! i)"
      and plan: "plan s1 = plan s" using e Cons.prems(3) tick(3) by simp_all
    have n: "every_n_task n (sc_tasks s ! i)" using Cons.prems(4) by (simp add: countdown_at_def)
    have "countdown_at n (Suc k) (sc_tasks s1 ! i)"
      using tick_countdown [OF eff n] count_down_step(1) [OF Cons.prems(4,5)] n tick_sig [OF plan Cons.prems(3)]
      by (simp add: countdown_at_def)
    then show ?thesis using sched_reachable.ticked [OF Cons.prems(2) tick(2)] tick plan_length [OF plan] by simp
  next
    case (call f)
    then show ?thesis
      using call_countdown [OF call(2) ok Cons.prems(3,4)] sched_reachable.called [OF Cons.prems(2) call(2)]
        apply_call_effect [OF call(2) ok] plan_length [of s1 s] by simp
  qed
  then show ?case
    using Cons.IH [OF x(2) [unfolded x1], of "if a = Tick then Suc k else k"] Cons.prems(3,5)
    by (cases "a = Tick") (simp_all add: ticks_in_def)
qed (simp add: ticks_in_def)

text \<open>When an \<open>EveryN\<close> task is due in a tick it runs or is counted as skipped; otherwise only a request runs it.\<close>

lemma own_step_every_n:
  assumes "own_step i clock True es t t'" "countdown_at n k t" "0 < n"
  shows "unat n dvd Suc k \<longrightarrow> es \<noteq> [] \<or> ts_skipped (tk_stats t') = ts_skipped (tk_stats t) + 1"
    and "es \<noteq> [] \<longrightarrow> unat n dvd Suc k \<or> tk_run_requested t"
  using assms(1) count_down_step(2) [OF assms(2,3)] assms(2)
  by (auto simp: own_step_def poll_cadence_def Let_def skip_task_def countdown_at_def count_down_def
      split: option.splits if_split_asm)

lemma requested_by:
  assumes "other_step i es t t'" "tk_run_requested t'"
  shows "tk_run_requested t \<or> (\<exists>e \<in> set es. run_asked (made_calls e) i)"
  using assms by (auto simp: other_step_def after_calls_def run_asked_def)

lemma tick_every_n:
  assumes "tick_effect i clock True es t t'" "countdown_at n k t" "0 < n"
  shows "(unat n dvd Suc k \<longrightarrow> (\<exists>e \<in> set es. unat (iv_task e) = i) \<or> ts_skipped (tk_stats t') = ts_skipped (tk_stats t) + 1)
    \<and> ((\<exists>e \<in> set es. unat (iv_task e) = i) \<longrightarrow>
         unat n dvd Suc k \<or> tk_run_requested t \<or> (\<exists>e \<in> set es. run_asked (made_calls e) i))"
proof -
  obtain es1 es2 es3 ta tb where es: "es = es1 @ es2 @ es3" and steps: "other_step i es1 t ta"
    "own_step i clock True es2 ta tb" "other_step i es3 tb t'"
    using assms(1) unfolding tick_effect_def by (metis (full_types))
  have ta: "countdown_at n k ta" using assms(2) other_step_countdown [OF steps(1)] by (simp add: countdown_at_def)
  have own: "es2 = [] \<or> (\<exists>e. es2 = [e] \<and> unat (iv_task e) = i)" using own_step_task [OF steps(2)] by auto
  have others: "\<forall>e \<in> set es1 \<union> set es3. unat (iv_task e) \<noteq> i" using steps(1,3) by (auto simp: other_step_def)
  have invoked: "(\<exists>e \<in> set es. unat (iv_task e) = i) \<longleftrightarrow> es2 \<noteq> []" using own others by (auto simp: es)
  have "own_fields t' = own_fields tb" "own_fields ta = own_fields t"
    using other_step_countdown [OF steps(3)] other_step_countdown [OF steps(1)] by simp_all
  then have stats: "tk_stats t' = tk_stats tb" "tk_stats ta = tk_stats t" by (simp_all add: own_fields_def)
  show ?thesis
    using own_step_every_n [OF steps(2) ta assms(3)] requested_by [OF steps(1)] unfolding invoked stats
    by (auto simp: es)
qed

text \<open>
  C30. \<open>EveryN\<close> tasks keep lockstep. After any ticks, aborted ones included, and any notifications,
  requests, enabling and disabling, the countdown of a task registered with period \<open>n\<close> depends
  only on the number of ticks. In the next completed tick the task runs or is counted as skipped
  when that tick's number is a multiple of \<open>n\<close>, and otherwise it runs only on request.
\<close>

theorem every_n_lockstep:
  assumes "register ds empty_schedule = Some s0" "length ds \<le> 2 ^ 32" "i < length ds"
    and "every_n_task n (sc_tasks s0 ! i)"
    and "fold_opt sched_step as (clock0, seal s0, c0) = Some (clock, s, c)"
    and "run_tick clock s c = Some (True, clock', rs)"
  shows "unat (tk_ticks_until_due (sc_tasks s ! i)) = unat n - ticks_in as mod unat n
    \<and> (unat n dvd Suc (ticks_in as) \<longrightarrow> (\<exists>e \<in> set (rs_trace rs). unat (iv_task e) = i)
          \<or> ts_skipped (tk_stats (sc_tasks (rs_schedule rs) ! i)) = ts_skipped (tk_stats (sc_tasks s ! i)) + 1)
    \<and> ((\<exists>e \<in> set (rs_trace rs). unat (iv_task e) = i) \<longrightarrow> unat n dvd Suc (ticks_in as)
          \<or> tk_run_requested (sc_tasks s ! i) \<or> (\<exists>e \<in> set (rs_trace rs). run_asked (made_calls e) i))"
proof -
  note reg = registered_ok [OF assms(1,2)]
  have i: "i < length (sc_tasks s0)" using assms(3) reg(3) by simp
  then have "sc_tasks s0 ! i \<in> set (sc_tasks s0)" by simp
  then have "0 < n" "countdown_at n 0 (sc_tasks (seal s0) ! i)"
    using reg(2) assms(4) by (auto simp: unsealed_ok_def countdown_at_def)
  with run_countdown [OF assms(5) sched_reachable.start [OF assms(1,2)], of i n 0] i
  have s: "sched_reachable s" "length (sc_tasks s) = length (sc_tasks s0)" "countdown_at n (ticks_in as) (sc_tasks s ! i)"
    by simp_all
  have "tick_effect i clock' True (rs_trace rs) (sc_tasks s ! i) (sc_tasks (rs_schedule rs) ! i)"
    using run_tick_effect [OF assms(6) reachable_ok [OF s(1)]] i s(2) by simp
  from tick_every_n [OF this s(3) \<open>0 < n\<close>] s(3) show ?thesis by (simp add: countdown_at_def)
qed


lemma every_n_lockstep_witness:
  "\<exists>s clock rs. run_tick \<lparr>clk_tick = 0\<rparr> (seal s) (0 :: nat) = Some (True, clock, rs)
    \<and> unat (tk_ticks_until_due (sc_tasks (seal s) ! 1)) = 1 \<and> length (sc_tasks s) = 2"
proof -
  obtain s clock rs where e: "register example_tasks empty_schedule = Some s"
    "run_tick \<lparr>clk_tick = 0\<rparr> (seal s) (0 :: nat) = Some (True, clock, rs)" "length (sc_tasks s) = 2"
    "cd_kind (tk_cadence (sc_tasks s ! 1)) = EveryN \<and> cd_every_n (tk_cadence (sc_tasks s ! 1)) = 1"
    using example_run by blast
  have len: "length example_tasks \<le> 2 ^ 32" "1 < length example_tasks" by (simp_all add: example_tasks_def)
  have "fold_opt sched_step [] (\<lparr>clk_tick = 0\<rparr>, seal s, 0) = Some (\<lparr>clk_tick = 0\<rparr>, seal s, 0 :: nat)" by simp
  from every_n_lockstep [OF e(1) len e(4) this e(2)]
  have "unat (tk_ticks_until_due (sc_tasks (seal s) ! 1)) = 1" by (simp add: ticks_in_def)
  with e(2,3) show ?thesis by blast
qed

subsection \<open>Triggers\<close>

text \<open>
  \<open>trigger_flow pend raised given allowed es t t'\<close>: between \<open>t\<close> and \<open>t'\<close> the invocations \<open>es\<close> took
  place; no bit is lost, none is invented, and a body is given only bits that were pending.
\<close>

definition trigger_flow ::
    "nat \<Rightarrow> ('c task_record \<Rightarrow> nat \<Rightarrow> bool) \<Rightarrow> (invocation \<Rightarrow> nat \<Rightarrow> bool) \<Rightarrow> (invocation \<Rightarrow> nat \<Rightarrow> bool)
     \<Rightarrow> (nat \<Rightarrow> bool) \<Rightarrow> invocation list \<Rightarrow> 'c task_record \<Rightarrow> 'c task_record \<Rightarrow> bool" where
  "trigger_flow i pend raised given allowed es t t' \<longleftrightarrow> (\<forall>b.
     (pend t b \<or> (\<exists>e \<in> set es. raised e b) \<longrightarrow>
        pend t' b \<or> (\<exists>e \<in> set es. unat (iv_task e) = i \<and> iv_result e \<noteq> None \<and> given e b))
     \<and> (pend t' b \<longrightarrow> pend t b \<or> (\<exists>e \<in> set es. raised e b))
     \<and> (\<forall>e \<in> set es. unat (iv_task e) = i \<and> given e b \<longrightarrow> allowed b \<and> (pend t b \<or> (\<exists>e \<in> set es. raised e b))))"

lemma trigger_flow_append:
  assumes "trigger_flow i pend raised given allowed es t t1" "trigger_flow i pend raised given allowed fs t1 t2"
  shows "trigger_flow i pend raised given allowed (es @ fs) t t2"
  using assms unfolding trigger_flow_def by (simp add: ball_Un bex_Un) blast

definition pending_dirty_bit :: "'c task_record \<Rightarrow> nat \<Rightarrow> bool" where
  "pending_dirty_bit t b \<longleftrightarrow> bit (dm_value (tk_pending_mask t)) b"

definition pending_event_bit :: "'c task_record \<Rightarrow> nat \<Rightarrow> bool" where
  "pending_event_bit t b \<longleftrightarrow> bit (tk_pending_events t) b"

definition dirty_flow :: "nat \<Rightarrow> dirty_mask \<Rightarrow> invocation list \<Rightarrow> 'c task_record \<Rightarrow> 'c task_record \<Rightarrow> bool" where
  "dirty_flow i m = trigger_flow i pending_dirty_bit (\<lambda>e. dirty_raised (made_calls e))
     (\<lambda>e b. bit (dm_value (tc_pending_dirty (iv_context e))) b) (\<lambda>b. bit (dm_value m) b)"

definition event_flow :: "nat \<Rightarrow> u32 \<Rightarrow> invocation list \<Rightarrow> 'c task_record \<Rightarrow> 'c task_record \<Rightarrow> bool" where
  "event_flow i m = trigger_flow i pending_event_bit (\<lambda>e. event_raised (made_calls e))
     (\<lambda>e b. bit (tc_pending_events (iv_context e)) b) (\<lambda>b. bit m b)"

lemma raised_concat:
  "dirty_raised (concat (map made_calls es)) b \<longleftrightarrow> (\<exists>e \<in> set es. dirty_raised (made_calls e) b)"
  "event_raised (concat (map made_calls es)) b \<longleftrightarrow> (\<exists>e \<in> set es. event_raised (made_calls e) b)"
  unfolding call_effects by auto

lemma other_step_flow:
  assumes "other_step i es t t'"
  shows "dirty_task t \<Longrightarrow> dirty_flow i m es t t'" and "event_task t \<Longrightarrow> event_flow i v es t t'"
  using assms
  by (auto simp: other_step_def dirty_flow_def event_flow_def trigger_flow_def pending_dirty_bit_def
      pending_event_bit_def after_calls_def raised_concat)

lemma flow_idle: "pend t' = pend t \<Longrightarrow> trigger_flow i pend raised given allowed [] t t'"
  by (simp add: trigger_flow_def)

lemma flow_invoked:
  assumes "unat (iv_task e) = i"
    and "\<And>b. pend t' b \<longleftrightarrow> (pend t b \<and> \<not> given e b) \<or> raised e b \<or> (iv_result e = None \<and> given e b)"
    and "\<And>b. given e b \<longleftrightarrow> pend t b \<and> allowed b"
  shows "trigger_flow i pend raised given allowed [e] t t'"
  by (cases "iv_result e") (auto simp: trigger_flow_def assms)

lemma poll_dirty: "dirty_task t \<Longrightarrow> poll_cadence t =
    (let fired = dirty_and (tk_pending_mask t) (cd_dirty_mask (tk_cadence t))
     in (\<lparr>po_due = \<not> dirty_empty fired \<or> tk_run_requested t, po_fired_dirty = fired, po_fired_events = 0, po_budget = 0\<rparr>, t))"
  by (simp add: poll_cadence_def Let_def)

lemma poll_event: "event_task t \<Longrightarrow> poll_cadence t =
    (let fired = tk_pending_events t AND cd_event_mask (tk_cadence t)
     in (\<lparr>po_due = fired \<noteq> 0 \<or> tk_run_requested t, po_fired_dirty = DirtyMask 0, po_fired_events = fired, po_budget = 0\<rparr>, t))"
  by (simp add: poll_cadence_def Let_def)

lemma skip_pending [simp]:
  "tk_pending_mask (skip_task t) = tk_pending_mask t" "tk_pending_events (skip_task t) = tk_pending_events t"
  by (simp_all add: skip_task_def)

text \<open>The pending masks after an invocation, whatever its outcome.\<close>

lemma own_step_invoked:
  assumes "own_step i clock ok [e] t t'" "poll_cadence t = (p, t1)"
  shows "unat (iv_task e) = i" "iv_context e = poll_context clock p"
    and "bit (dm_value (tk_pending_mask t')) b \<longleftrightarrow>
       (bit (dm_value (tk_pending_mask t1)) b \<and> \<not> bit (dm_value (po_fired_dirty p)) b)
       \<or> (dirty_task t1 \<and> dirty_raised (made_calls e) b)
       \<or> (iv_result e = None \<and> bit (dm_value (po_fired_dirty p)) b)"
    and "bit (tk_pending_events t') b \<longleftrightarrow>
       (bit (tk_pending_events t1) b \<and> \<not> bit (po_fired_events p) b)
       \<or> (event_task t1 \<and> event_raised (made_calls e) b)
       \<or> (iv_result e = None \<and> bit (po_fired_events p) b)"
proof -
  have desc: "dirty_task (consume_triggers p t1) = dirty_task t1" "event_task (consume_triggers p t1) = event_task t1"
    by (simp_all add: consume_triggers_def)
  note own = assms(1) [unfolded own_step_def assms(2) prod.case]
  show "unat (iv_task e) = i" "iv_context e = poll_context clock p" using own by auto
  have "(bit (dm_value (tk_pending_mask t')) b \<longleftrightarrow>
       (bit (dm_value (tk_pending_mask t1)) b \<and> \<not> bit (dm_value (po_fired_dirty p)) b)
       \<or> (dirty_task t1 \<and> dirty_raised (made_calls e) b) \<or> (iv_result e = None \<and> bit (dm_value (po_fired_dirty p)) b))
     \<and> (bit (tk_pending_events t') b \<longleftrightarrow>
       (bit (tk_pending_events t1) b \<and> \<not> bit (po_fired_events p) b)
       \<or> (event_task t1 \<and> event_raised (made_calls e) b) \<or> (iv_result e = None \<and> bit (po_fired_events p) b))"
  proof (cases "iv_result e")
    case None
    obtain t2 where t2: "after_calls i (made_calls e) (consume_triggers p t1) t2" "t' = restore_triggers p (tk_run_requested t1) t2"
      using own None by auto
    show ?thesis
      using t2(1) unfolding after_calls_def desc t2(2)
      by (simp add: None restore_triggers_def consume_triggers_def bit_dirty(1) bit_dirty_cleared bit_cleared bit_or_iff disj_assoc)
  next
    case (Some r)
    have "after_calls i (made_calls e) (consume_triggers p t1) t'" using own Some by auto
    then show ?thesis
      unfolding after_calls_def desc by (simp add: Some consume_triggers_def bit_dirty_cleared bit_cleared)
  qed
  then show "bit (dm_value (tk_pending_mask t')) b \<longleftrightarrow>
       (bit (dm_value (tk_pending_mask t1)) b \<and> \<not> bit (dm_value (po_fired_dirty p)) b)
       \<or> (dirty_task t1 \<and> dirty_raised (made_calls e) b) \<or> (iv_result e = None \<and> bit (dm_value (po_fired_dirty p)) b)"
    "bit (tk_pending_events t') b \<longleftrightarrow>
       (bit (tk_pending_events t1) b \<and> \<not> bit (po_fired_events p) b)
       \<or> (event_task t1 \<and> event_raised (made_calls e) b) \<or> (iv_result e = None \<and> bit (po_fired_events p) b)"
    by blast+
qed

lemma own_step_flow:
  assumes "own_step i clock ok es t t'"
  shows "dirty_task t \<Longrightarrow> dirty_flow i (cd_dirty_mask (tk_cadence t)) es t t'"
    and "event_task t \<Longrightarrow> event_flow i (cd_event_mask (tk_cadence t)) es t t'"
proof -
  consider (idle) "es = []" | (invoked) e where "es = [e]" using own_step_task [OF assms] by blast
  then have "(dirty_task t \<longrightarrow> dirty_flow i (cd_dirty_mask (tk_cadence t)) es t t')
    \<and> (event_task t \<longrightarrow> event_flow i (cd_event_mask (tk_cadence t)) es t t')"
  proof cases
    case idle
    obtain p t1 where p: "poll_cadence t = (p, t1)" by (cases "poll_cadence t")
    have "tk_pending_mask t1 = tk_pending_mask t" "tk_pending_events t1 = tk_pending_events t"
      using poll_cadence_same(7,8) [of t] by (simp_all add: p)
    then have "tk_pending_mask t' = tk_pending_mask t \<and> tk_pending_events t' = tk_pending_events t"
      using assms idle by (auto simp: own_step_def p split: if_splits)
    then show ?thesis
      unfolding idle dirty_flow_def event_flow_def
      by (intro conjI impI flow_idle) (simp_all add: pending_dirty_bit_def [abs_def] pending_event_bit_def [abs_def])
  next
    case (invoked e)
    note step = assms [unfolded invoked]
    show ?thesis unfolding invoked dirty_flow_def event_flow_def
    proof (intro conjI impI)
      assume d: "dirty_task t"
      note inv = own_step_invoked [OF step poll_dirty [OF d, unfolded Let_def]]
      show "trigger_flow i pending_dirty_bit (\<lambda>e. dirty_raised (made_calls e))
          (\<lambda>e. bit (dm_value (tc_pending_dirty (iv_context e)))) (bit (dm_value (cd_dirty_mask (tk_cadence t)))) [e] t t'"
        by (rule flow_invoked) (simp_all add: inv d pending_dirty_bit_def poll_context_def bit_dirty)
    next
      assume d: "event_task t"
      note inv = own_step_invoked [OF step poll_event [OF d, unfolded Let_def]]
      show "trigger_flow i pending_event_bit (\<lambda>e. event_raised (made_calls e))
          (\<lambda>e. bit (tc_pending_events (iv_context e))) (bit (cd_event_mask (tk_cadence t))) [e] t t'"
        by (rule flow_invoked) (simp_all add: inv d pending_event_bit_def poll_context_def bit_and_iff)
    qed
  qed
  then show "dirty_task t \<Longrightarrow> dirty_flow i (cd_dirty_mask (tk_cadence t)) es t t'"
    and "event_task t \<Longrightarrow> event_flow i (cd_event_mask (tk_cadence t)) es t t'" by blast+
qed

lemma tick_flow:
  assumes "tick_effect i clock ok es t t'"
  shows "dirty_task t \<Longrightarrow> dirty_flow i (cd_dirty_mask (tk_cadence t)) es t t'"
    and "event_task t \<Longrightarrow> event_flow i (cd_event_mask (tk_cadence t)) es t t'"
proof -
  have "(dirty_task t \<longrightarrow> dirty_flow i (cd_dirty_mask (tk_cadence t)) es t t')
    \<and> (event_task t \<longrightarrow> event_flow i (cd_event_mask (tk_cadence t)) es t t')"
    using assms unfolding tick_effect_def
  proof (elim disjE exE conjE)
    fix es1 es2 es3 ta tb ok2
    assume es: "es = es1 @ es2 @ es3" and o1: "other_step i es1 t ta" and o2: "own_step i clock ok2 es2 ta tb"
      and o3: "other_step i es3 tb t'"
    have d: "tk_desc ta = tk_desc t" "tk_desc tb = tk_desc t"
      using other_step_countdown [OF o1] other_step_countdown [OF o3] own_step_desc [OF o2] by simp_all
    show ?thesis
    proof (intro conjI impI)
      assume "dirty_task t"
      then show "dirty_flow i (cd_dirty_mask (tk_cadence t)) es t t'"
        using other_step_flow(1) [OF o1] own_step_flow(1) [OF o2] other_step_flow(1) [OF o3]
        unfolding es d dirty_flow_def by (blast intro: trigger_flow_append)
    next
      assume "event_task t"
      then show "event_flow i (cd_event_mask (tk_cadence t)) es t t'"
        using other_step_flow(2) [OF o1] own_step_flow(2) [OF o2] other_step_flow(2) [OF o3]
        unfolding es d event_flow_def by (blast intro: trigger_flow_append)
    qed
  next
    fix ta assume o: "other_step i es t ta" and t': "t' = advance_aborted_tick_cadence ta"
    have "trigger_flow i pend raised given allowed es t t'" if "trigger_flow i pend raised given allowed es t ta"
      "pend t' = pend ta" for pend raised given allowed
      using that by (simp add: trigger_flow_def)
    moreover have "pending_dirty_bit t' = pending_dirty_bit ta" "pending_event_bit t' = pending_event_bit ta"
      by (simp_all add: t' advance_aborted_tick_cadence_def count_down_def pending_dirty_bit_def [abs_def] pending_event_bit_def [abs_def])
    ultimately show ?thesis using other_step_flow [OF o] unfolding dirty_flow_def event_flow_def by blast
  qed
  then show "dirty_task t \<Longrightarrow> dirty_flow i (cd_dirty_mask (tk_cadence t)) es t t'"
    and "event_task t \<Longrightarrow> event_flow i (cd_event_mask (tk_cadence t)) es t t'" by blast+
qed



end
