(* ===== verification/Tile_World.thy ===== *)
theory Tile_World imports Dense_World Sparse_World begin

text \<open>
  The interface the movement headers have to their template argument \<open>World\<close>: the calls they make
  on it, collected in a record, the laws those calls obey, stated as a locale, and the two worlds
  of the library that provide them (\<open>storage/world.h\<close>, \<open>storage/sparse_world.h\<close>). A lookup by
  \<open>try_chunk\<close> answers a null pointer, the inner \<^const>\<open>None\<close>, for a chunk that is not resident; the
  outer \<^const>\<open>None\<close> is a failed assertion.
\<close>

record ('t, 'v, 'w) world_api =
  wa_shape :: shape
  wa_schema :: "('t, 'v) schema"
  wa_sparse :: bool
  wa_is_resident :: "'w \<Rightarrow> chunk_key \<Rightarrow> bool option"
  wa_chunk :: "'w \<Rightarrow> chunk_key \<Rightarrow> 'v chunk_page option"
  wa_try_chunk :: "'w \<Rightarrow> chunk_key \<Rightarrow> 'v chunk_page option option"
  wa_meta :: "'w \<Rightarrow> chunk_key \<Rightarrow> chunk_meta option"
  wa_set_tile :: "'w \<Rightarrow> chunk_key \<Rightarrow> 't \<Rightarrow> local_tile_id \<Rightarrow> 'v \<Rightarrow> 'w option"
  wa_mark_dirty :: "'w \<Rightarrow> chunk_key \<Rightarrow> dirty_mask \<Rightarrow> box3 \<Rightarrow> 'w option"

text \<open>The field assignment \<open>world.chunk(key).template field<Tag>(id) = value\<close> of each world.\<close>

definition dense_set_tile ::
    "shape \<Rightarrow> ('t, 'v) schema \<Rightarrow> 'v dense_world \<Rightarrow> chunk_key \<Rightarrow> 't \<Rightarrow> local_tile_id \<Rightarrow> 'v \<Rightarrow> 'v dense_world option" where
  "dense_set_tile s fs w k t l v = do {
     p \<leftarrow> dense_chunk s w k;
     p' \<leftarrow> page_write fs t p l v;
     Some (w\<lparr>dw_pages := (dw_pages w)[slot k := p']\<rparr>)
   }"

definition sparse_set_tile ::
    "('t, 'v) schema \<Rightarrow> 'v sparse_world \<Rightarrow> chunk_key \<Rightarrow> 't \<Rightarrow> local_tile_id \<Rightarrow> 'v \<Rightarrow> 'v sparse_world option" where
  "sparse_set_tile fs w k t l v = do {
     sl \<leftarrow> resident_slot_checked w k;
     p \<leftarrow> nth_opt (sw_pages w) (unat sl);
     p' \<leftarrow> page_write fs t p l v;
     Some (w\<lparr>sw_pages := (sw_pages w)[unat sl := p']\<rparr>)
   }"

text \<open>The headers ask a sparse world only for residency, so the answer of the other world is not used.\<close>

definition dense_api :: "shape \<Rightarrow> ('t, 'v) schema \<Rightarrow> ('t, 'v, 'v dense_world) world_api" where
  "dense_api s fs =
     \<lparr>wa_shape = s, wa_schema = fs, wa_sparse = False, wa_is_resident = \<lambda>w k. Some True,
      wa_chunk = dense_chunk s, wa_try_chunk = dense_try_chunk s, wa_meta = dense_meta s,
      wa_set_tile = dense_set_tile s fs, wa_mark_dirty = dense_mark_dirty s\<rparr>"

definition sparse_api :: "shape \<Rightarrow> ('t, 'v) schema \<Rightarrow> ('t, 'v, 'v sparse_world) world_api" where
  "sparse_api s fs =
     \<lparr>wa_shape = s, wa_schema = fs, wa_sparse = True, wa_is_resident = is_resident,
      wa_chunk = sparse_chunk, wa_try_chunk = sparse_try_chunk, wa_meta = sparse_meta,
      wa_set_tile = sparse_set_tile fs, wa_mark_dirty = sparse_mark_dirty\<rparr>"

lemmas api_sel [simp] = world_api.select_convs

text \<open>The value a tile has in a field, the observation every law is about.\<close>

definition tile_value_at :: "('t, 'v, 'w) world_api \<Rightarrow> 'w \<Rightarrow> 't \<Rightarrow> coord3 \<Rightarrow> 'v option" where
  "tile_value_at A w t c = do {
     r \<leftarrow> resolve (wa_shape A) c;
     p \<leftarrow> wa_chunk A w (rt_chunk_key r);
     page_field (wa_schema A) t p (rt_local_tile_id r)
   }"

subsection \<open>The laws\<close>

locale tile_world =
  fixes A :: "('t, 'v, 'w) world_api"
    and inv :: "'w \<Rightarrow> bool"
    and res :: "'w \<Rightarrow> chunk_key \<Rightarrow> bool"
    and page :: "'w \<Rightarrow> chunk_key \<Rightarrow> 'v chunk_page"
    and entry :: "'w \<Rightarrow> chunk_key \<Rightarrow> dirty_state"
  assumes shape_ok: "inv w \<Longrightarrow> valid_shape (wa_shape A)"
    and dense_resident: "inv w \<Longrightarrow> \<not> wa_sparse A \<Longrightarrow> dense_valid_key (wa_shape A) k \<Longrightarrow> res w k"
    and resident_law: "inv w \<Longrightarrow> dense_valid_key (wa_shape A) k \<Longrightarrow> wa_is_resident A w k = Some (res w k)"
    and try_chunk_law: "inv w \<Longrightarrow> dense_valid_key (wa_shape A) k \<Longrightarrow>
          wa_try_chunk A w k = Some (if res w k then Some (page w k) else None)"
    and chunk_law: "inv w \<Longrightarrow> dense_valid_key (wa_shape A) k \<Longrightarrow>
          wa_chunk A w k = (if res w k then Some (page w k) else None)"
    and page_law: "inv w \<Longrightarrow> dense_valid_key (wa_shape A) k \<Longrightarrow> res w k \<Longrightarrow>
          page_ok (wa_shape A) (wa_schema A) (page w k)"
    and meta_law: "inv w \<Longrightarrow> dense_valid_key (wa_shape A) k \<Longrightarrow> res w k \<Longrightarrow>
          wa_meta A w k = Some (snd (snd (entry w k)))"
    and set_law: "inv w \<Longrightarrow> dense_valid_key (wa_shape A) k \<Longrightarrow> res w k \<Longrightarrow>
          page_write (wa_schema A) t (page w k) l v = Some p' \<Longrightarrow>
          \<exists>w'. wa_set_tile A w k t l v = Some w' \<and> inv w' \<and> res w' = res w \<and> entry w' = entry w
            \<and> (\<forall>k'. dense_valid_key (wa_shape A) k' \<and> res w k' \<longrightarrow>
                 page w' k' = (if k' = k then p' else page w k'))"
    and mark_law: "inv w \<Longrightarrow> dense_valid_key (wa_shape A) k \<Longrightarrow> res w k \<Longrightarrow>
          dirty_step (MarkDirty m b) (entry w k) = Some e \<Longrightarrow>
          \<exists>w'. wa_mark_dirty A w k m b = Some w' \<and> inv w' \<and> res w' = res w
            \<and> (\<forall>k'. dense_valid_key (wa_shape A) k' \<and> res w k' \<longrightarrow>
                 page w' k' = page w k' \<and> entry w' k' = (if k' = k then e else entry w k'))"
    and mark_none: "inv w \<Longrightarrow> dense_valid_key (wa_shape A) k \<Longrightarrow> res w k \<Longrightarrow>
          dirty_step (MarkDirty m b) (entry w k) = None \<Longrightarrow> wa_mark_dirty A w k m b = None"
begin

definition tile_res :: "'w \<Rightarrow> coord3 \<Rightarrow> bool" where
  "tile_res w c \<longleftrightarrow> shape_contains (wa_shape A) c \<and> res w (chunk_key (wa_shape A) (chunk_coord (wa_shape A) c))"

abbreviation key_at :: "coord3 \<Rightarrow> chunk_key" where
  "key_at c \<equiv> chunk_key (wa_shape A) (chunk_coord (wa_shape A) c)"

abbreviation id_at :: "coord3 \<Rightarrow> local_tile_id" where
  "id_at c \<equiv> local_tile_id (wa_shape A) (local_coord (wa_shape A) c)"

lemma resolved:
  assumes "inv w" "shape_contains (wa_shape A) c"
  shows "resolve (wa_shape A) c = Some \<lparr>rt_chunk_key = key_at c, rt_local_tile_id = id_at c\<rparr>"
    "dense_valid_key (wa_shape A) (key_at c)" "tile_value (id_at c) < local_tile_count (wa_shape A)"
  using resolve_Some [OF shape_ok [OF assms(1)] assms(2)] assms(2)
  by (auto simp: resolve_def slot_lt)

lemma value_at:
  assumes "inv w" "shape_contains (wa_shape A) c"
  shows "tile_value_at A w t c =
    (if res w (key_at c) then page_field (wa_schema A) t (page w (key_at c)) (id_at c) else None)"
  using resolved [OF assms] chunk_law [OF assms(1)] by (simp add: tile_value_at_def)

lemma value_outside: "\<not> shape_contains (wa_shape A) c \<Longrightarrow> tile_value_at A w t c = None"
  by (simp add: tile_value_at_def resolve_def)

lemma value_defined:
  assumes "inv w" "tile_res w c" "contains_field_tag t (wa_schema A)"
  shows "\<exists>v. tile_value_at A w t c = Some v"
proof -
  have c: "shape_contains (wa_shape A) c" "res w (key_at c)" using assms(2) by (simp_all add: tile_res_def)
  show ?thesis
    using page_defined(1) [OF page_law [OF assms(1) resolved(2) [OF assms(1) c(1)] c(2)] assms(3)
        resolved(3) [OF assms(1) c(1)]] value_at [OF assms(1) c(1)] c(2) by simp
qed

lemma key_id_inj:
  assumes "inv w" "shape_contains (wa_shape A) c" "shape_contains (wa_shape A) c'"
    "key_at c = key_at c'" "id_at c = id_at c'"
  shows "c = c'"
  using resolve_inj [OF shape_ok [OF assms(1)] resolved(1) [OF assms(1,2)] resolved(1) [OF assms(1,3)]]
    assms(4,5) by simp

text \<open>An assignment to a resident tile is defined and changes that one value.\<close>

lemma set_tile:
  assumes "inv w" "tile_res w c" "contains_field_tag t (wa_schema A)"
  shows "\<exists>w'. wa_set_tile A w (key_at c) t (id_at c) v = Some w' \<and> inv w' \<and> res w' = res w \<and> entry w' = entry w
    \<and> (\<forall>t' c'. tile_value_at A w' t' c' = (if t' = t \<and> c' = c then Some v else tile_value_at A w t' c'))"
proof -
  have c: "shape_contains (wa_shape A) c" "res w (key_at c)" using assms(2) by (simp_all add: tile_res_def)
  note r = resolved [OF assms(1) c(1)]
  obtain p' where p': "page_write (wa_schema A) t (page w (key_at c)) (id_at c) v = Some p'"
    using page_defined(2) [OF page_law [OF assms(1) r(2) c(2)] assms(3) r(3)] by blast
  obtain w' where w': "wa_set_tile A w (key_at c) t (id_at c) v = Some w'" "inv w'" "res w' = res w"
      "entry w' = entry w"
    and pages: "\<forall>k'. dense_valid_key (wa_shape A) k' \<and> res w k' \<longrightarrow>
      page w' k' = (if k' = key_at c then p' else page w k')"
    using set_law [OF assms(1) r(2) c(2) p'] by blast
  have "tile_value_at A w' t' c' = (if t' = t \<and> c' = c then Some v else tile_value_at A w t' c')" for t' c'
  proof (cases "shape_contains (wa_shape A) c'")
    case False
    then show ?thesis using c(1) by (auto simp: value_outside)
  next
    case True
    show ?thesis
    proof (cases "res w (key_at c')")
      case False
      then show ?thesis using c by (auto simp: value_at [OF w'(2) True] value_at [OF assms(1) True] w'(3))
    next
      case res: True
      have pg: "page w' (key_at c') = (if key_at c' = key_at c then p' else page w (key_at c'))"
        using pages resolved(2) [OF assms(1) True] res by blast
      have same: "key_at c' = key_at c \<Longrightarrow> id_at c' = id_at c \<longleftrightarrow> c' = c"
        using key_id_inj [OF assms(1) True c(1)] by auto
      show ?thesis
        using same res page_read_write [OF p', of t' "id_at c'"]
        by (auto simp: value_at [OF w'(2) True] value_at [OF assms(1) True] w'(3) pg)
    qed
  qed
  with w' show ?thesis by blast
qed

lemma set_tile_res: "res w' = res w \<Longrightarrow> tile_res w' = tile_res w"
  by (simp add: tile_res_def fun_eq_iff)

lemma mark_tile:
  assumes "inv w" "tile_res w c" "dirty_step (MarkDirty m b) (entry w (key_at c)) = Some e"
  shows "\<exists>w'. wa_mark_dirty A w (key_at c) m b = Some w' \<and> inv w' \<and> res w' = res w
    \<and> tile_value_at A w' = tile_value_at A w
    \<and> (\<forall>k. dense_valid_key (wa_shape A) k \<and> res w k \<longrightarrow>
         entry w' k = (if k = key_at c then e else entry w k))"
proof -
  have c: "shape_contains (wa_shape A) c" "res w (key_at c)" using assms(2) by (simp_all add: tile_res_def)
  obtain w' where w': "wa_mark_dirty A w (key_at c) m b = Some w'" "inv w'" "res w' = res w"
    and pages: "\<forall>k'. dense_valid_key (wa_shape A) k' \<and> res w k' \<longrightarrow>
      page w' k' = page w k' \<and> entry w' k' = (if k' = key_at c then e else entry w k')"
    using mark_law [OF assms(1) resolved(2) [OF assms(1) c(1)] c(2) assms(3)] by blast
  have "tile_value_at A w' t' c' = tile_value_at A w t' c'" for t' c'
    using pages resolved(2) [OF assms(1), of c']
    by (cases "shape_contains (wa_shape A) c'")
       (simp_all add: value_outside value_at [OF w'(2)] value_at [OF assms(1)] w'(3))
  with w' pages show ?thesis by blast
qed

end

subsection \<open>The always-resident world\<close>

interpretation dense: tile_world "dense_api s fs" "\<lambda>w. valid_shape s \<and> dense_inv s fs w" "\<lambda>w k. True"
    "\<lambda>w k. dw_pages w ! slot k" "\<lambda>w k. dense_entry w (slot k)"
  for s and fs :: "('t, 'v) schema"
proof unfold_locales
  fix w :: "'v dense_world" and k t l v p'
  assume i: "valid_shape s \<and> dense_inv s fs w" and k: "dense_valid_key (wa_shape (dense_api s fs)) k"
    and p': "page_write (wa_schema (dense_api s fs)) t (dw_pages w ! slot k) l v = Some p'"
  then have lt: "slot k < unat (chunk_count s)" by (simp add: dense_api_def slot_lt)
  let ?w = "w\<lparr>dw_pages := (dw_pages w)[slot k := p']\<rparr>"
  have "wa_set_tile (dense_api s fs) w k t l v = Some ?w"
    using p' lt dense_inv_lengths(1) [OF conjunct2 [OF i]]
    by (simp add: dense_api_def dense_set_tile_def dense_chunk_def slot_lt nth_opt_in)
  moreover have "dense_inv s fs ?w"
    using i lt p' page_write_ok [of fs t "dw_pages w ! slot k" l v p' s]
      page_write_key [of fs t "dw_pages w ! slot k" l v p']
    by (auto simp: dense_inv_def nth_list_update dense_api_def)
  moreover have "dw_pages ?w ! slot k' = (if k' = k then p' else dw_pages w ! slot k')" for k'
    using lt dense_inv_lengths(1) [OF conjunct2 [OF i]] by (simp add: nth_list_update slot_inj)
  moreover have "dense_entry ?w = dense_entry w" by (simp add: dense_entry_def fun_eq_iff)
  ultimately show "\<exists>w'. wa_set_tile (dense_api s fs) w k t l v = Some w' \<and> (valid_shape s \<and> dense_inv s fs w')
      \<and> (\<lambda>k. True) = (\<lambda>k. True) \<and> (\<lambda>k. dense_entry w' (slot k)) = (\<lambda>k. dense_entry w (slot k))
      \<and> (\<forall>k'. dense_valid_key (wa_shape (dense_api s fs)) k' \<and> True \<longrightarrow>
           dw_pages w' ! slot k' = (if k' = k then p' else dw_pages w ! slot k'))"
    using i by (intro exI [of _ ?w] conjI allI impI) simp_all
next
  fix w :: "'v dense_world" and k m b e
  assume i: "valid_shape s \<and> dense_inv s fs w" and k: "dense_valid_key (wa_shape (dense_api s fs)) k"
    and e: "dirty_step (MarkDirty m b) (dense_entry w (slot k)) = Some e"
  then have k': "dense_valid_key s k" by (simp add: dense_api_def)
  have call: "dense_dirty_call s k (MarkDirty m b) w = dense_mark_dirty s w k m b"
    by (simp add: dense_dirty_call_def)
  have "\<exists>w'. dense_mark_dirty s w k m b = Some w'"
    using dense_dirty_call_some [OF conjunct2 [OF i] k', of "MarkDirty m b"] e
    by (auto simp: call simp del: dirty_step.simps)
  then obtain w' where w': "dense_mark_dirty s w k m b = Some w'" by blast
  have "dense_inv s fs w' \<and> dirty_step (MarkDirty m b) (dense_entry w (slot k)) = Some (dense_entry w' (slot k))
      \<and> (\<forall>i. i \<noteq> slot k \<longrightarrow> dense_entry w' i = dense_entry w i) \<and> dw_pages w' = dw_pages w"
    using dense_call_effect [OF conjunct2 [OF i] k', of "MarkDirty m b" w'] w' by (simp add: call)
  then show "\<exists>w'. wa_mark_dirty (dense_api s fs) w k m b = Some w' \<and> (valid_shape s \<and> dense_inv s fs w')
      \<and> (\<lambda>k. True) = (\<lambda>k. True)
      \<and> (\<forall>k'. dense_valid_key (wa_shape (dense_api s fs)) k' \<and> True \<longrightarrow>
           dw_pages w' ! slot k' = dw_pages w ! slot k'
           \<and> dense_entry w' (slot k') = (if k' = k then e else dense_entry w (slot k')))"
    using i w' e by (intro exI [of _ w']) (simp add: dense_api_def slot_inj del: dirty_step.simps)
next
  fix w :: "'v dense_world" and k m b
  assume i: "valid_shape s \<and> dense_inv s fs w" and k: "dense_valid_key (wa_shape (dense_api s fs)) k"
    and "dirty_step (MarkDirty m b) (dense_entry w (slot k)) = None"
  then show "wa_mark_dirty (dense_api s fs) w k m b = None"
    using dense_dirty_call_some [of s fs w k "MarkDirty m b"]
    by (simp add: dense_api_def dense_dirty_call_def del: dirty_step.simps)
qed (auto simp: dense_api_def dense_try_chunk_def dense_chunk_def dense_meta_def dense_entry_def slot_lt
       nth_opt_in dense_inv_lengths dense_inv_page not_le dense_valid_key_def [symmetric] simp flip: not_less)

subsection \<open>The sparse world\<close>

definition sparse_slot :: "'v sparse_world \<Rightarrow> chunk_key \<Rightarrow> nat" where
  "sparse_slot w k = unat (the (dir_map (sw_directory w) k))"

definition sparse_res :: "'v sparse_world \<Rightarrow> chunk_key \<Rightarrow> bool" where
  "sparse_res w k \<longleftrightarrow> dir_map (sw_directory w) k \<noteq> None"

definition sparse_entry :: "'v sparse_world \<Rightarrow> chunk_key \<Rightarrow> dirty_state" where
  "sparse_entry w k = (sw_dirty_masks w ! sparse_slot w k, sw_dirty_bounds w ! sparse_slot w k,
     sw_metadata w ! sparse_slot w k)"

definition sparse_ok :: "shape \<Rightarrow> ('t, 'v) schema \<Rightarrow> 'v sparse_world \<Rightarrow> bool" where
  "sparse_ok s fs w \<longleftrightarrow> valid_shape s \<and> (\<exists>xs. sparse_inv s fs w xs)"

lemma sparse_okE:
  assumes "sparse_ok s fs w"
  obtains xs where "valid_shape s" "sparse_inv_held s fs w xs []"
  using assms by (auto simp: sparse_ok_def sparse_inv_def)

lemma sparse_find:
  assumes "sparse_ok s fs w"
  shows "dir_find (sw_directory w) k = Some (if sparse_res w k then the (dir_map (sw_directory w) k) else npos)"
    "resident_slot_checked w k = (if sparse_res w k then dir_map (sw_directory w) k else None)"
    "sparse_res w k \<Longrightarrow> sparse_slot w k < sw_cap w"
    "sparse_res w k \<Longrightarrow> the (dir_map (sw_directory w) k) \<noteq> npos"
    "sparse_res w k \<Longrightarrow> sparse_res w k' \<Longrightarrow> sparse_slot w k = sparse_slot w k' \<longleftrightarrow> k = k'"
proof -
  obtain xs where i: "sparse_inv_held s fs w xs []" using assms by (rule sparse_okE)
  show f: "dir_find (sw_directory w) k = Some (if sparse_res w k then the (dir_map (sw_directory w) k) else npos)"
    using find_slot [OF i, of k] by (auto simp: sparse_res_def split: option.splits)
  show n: "sparse_res w k \<Longrightarrow> the (dir_map (sw_directory w) k) \<noteq> npos" for k
    using find_not_npos [OF i, of k] by (auto simp: sparse_res_def)
  show "resident_slot_checked w k = (if sparse_res w k then dir_map (sw_directory w) k else None)"
    using f n [of k] by (auto simp: resident_slot_checked_def sparse_res_def)
  show "sparse_res w k \<Longrightarrow> sparse_slot w k < sw_cap w"
    using resident_lt [OF i] dir_maps(2) [OF i] by (auto simp: sparse_res_def sparse_slot_def)
  show "sparse_slot w k = sparse_slot w k' \<longleftrightarrow> k = k'" if "sparse_res w k" "sparse_res w k'"
  proof
    assume "sparse_slot w k = sparse_slot w k'"
    then have "the (dir_map (sw_directory w) k) = the (dir_map (sw_directory w) k')"
      by (simp add: sparse_slot_def u64_eq_nat)
    then have "dir_map (sw_directory w) k = dir_map (sw_directory w) k'"
      using that unfolding sparse_res_def by (metis option.collapse)
    then show "k = k'" using that dir_maps(2) [OF i] unfolding sparse_res_def by (metis option.exhaust)
  qed simp
qed

lemma sparse_lengths:
  assumes "sparse_ok s fs w"
  shows "length (sw_pages w) = sw_cap w" "length (sw_metadata w) = sw_cap w"
    "length (sw_dirty_masks w) = sw_cap w" "length (sw_dirty_bounds w) = sw_cap w"
    "i < sw_cap w \<Longrightarrow> page_ok s fs (sw_pages w ! i)"
proof -
  obtain xs where i: "sparse_inv_held s fs w xs []" using assms by (rule sparse_okE)
  show "length (sw_pages w) = sw_cap w" "length (sw_metadata w) = sw_cap w"
    "length (sw_dirty_masks w) = sw_cap w" "length (sw_dirty_bounds w) = sw_cap w"
    using columns_len [OF inv_parts(3) [OF i]] by simp_all
  show "i < sw_cap w \<Longrightarrow> page_ok s fs (sw_pages w ! i)" using inv_parts(3) [OF i] by (simp add: columns_ok_def)
qed

lemma sparse_pages_ok:
  assumes "sparse_ok s fs w" "sparse_res w k" "page_ok s fs p'"
  shows "sparse_ok s fs (w\<lparr>sw_pages := (sw_pages w)[sparse_slot w k := p']\<rparr>)"
proof -
  obtain xs where v: "valid_shape s" and i: "sparse_inv_held s fs w xs []" using assms(1) by (rule sparse_okE)
  let ?w = "w\<lparr>sw_pages := (sw_pages w)[sparse_slot w k := p']\<rparr>"
  have "columns_ok s fs ?w"
    using inv_parts(3) [OF i] assms(3) sparse_find(3) [OF assms(1,2)]
    by (simp add: columns_ok_def sw_cap_def nth_list_update)
  then have "sparse_inv s fs ?w xs"
    using i unfolding sparse_inv_def sparse_inv_held_def residents_ok_def directory_ok_def generations_ok_def
      sw_cap_def by simp
  with v show ?thesis by (auto simp: sparse_ok_def)
qed

lemma sparse_mark_eq:
  assumes "sparse_ok s fs w" "sparse_res w k"
  shows "sparse_mark_dirty w k m b =
    map_option (\<lambda>(d, bd, meta). w\<lparr>sw_dirty_masks := (sw_dirty_masks w)[sparse_slot w k := d],
        sw_dirty_bounds := (sw_dirty_bounds w)[sparse_slot w k := bd],
        sw_metadata := (sw_metadata w)[sparse_slot w k := meta]\<rparr>)
      (dirty_step (MarkDirty m b) (sparse_entry w k))"
proof (cases "dirty_step (MarkDirty m b) (sparse_entry w k)")
  case None
  then show ?thesis
    using sparse_find(2,3) [OF assms(1), of k] assms(2) sparse_lengths [OF assms(1)]
    by (auto simp: sparse_mark_dirty_def sparse_entry_def sparse_res_def sparse_slot_def nth_opt_in)
next
  case (Some e)
  then show ?thesis
    using sparse_find(2,3) [OF assms(1), of k] assms(2) sparse_lengths [OF assms(1)]
    by (cases e) (auto simp: sparse_mark_dirty_def sparse_entry_def sparse_res_def sparse_slot_def nth_opt_in)
qed

interpretation sparse: tile_world "sparse_api s fs" "sparse_ok s fs" sparse_res
    "\<lambda>w k. sw_pages w ! sparse_slot w k" sparse_entry
  for s and fs :: "('t, 'v) schema"
proof unfold_locales
  fix w :: "'v sparse_world" and k t l v p'
  assume ok: "sparse_ok s fs w" and r: "sparse_res w k"
    and p': "page_write (wa_schema (sparse_api s fs)) t (sw_pages w ! sparse_slot w k) l v = Some p'"
  note f = sparse_find [OF ok] and len = sparse_lengths [OF ok]
  let ?w = "w\<lparr>sw_pages := (sw_pages w)[sparse_slot w k := p']\<rparr>"
  have "wa_set_tile (sparse_api s fs) w k t l v = Some ?w"
    using f(2,3) [of k] r p' len by (auto simp: sparse_api_def sparse_set_tile_def sparse_res_def sparse_slot_def nth_opt_in)
  moreover have "sparse_ok s fs ?w"
    using sparse_pages_ok [OF ok r] page_write_ok [of fs t "sw_pages w ! sparse_slot w k" l v p' s] p'
      len(5) f(3) [OF r] by (simp add: sparse_api_def)
  moreover have "sparse_res ?w = sparse_res w" "sparse_entry ?w = sparse_entry w" "sparse_slot ?w = sparse_slot w"
    by (simp_all add: sparse_res_def sparse_entry_def sparse_slot_def fun_eq_iff)
  moreover have "sw_pages ?w ! sparse_slot w k' = (if k' = k then p' else sw_pages w ! sparse_slot w k')"
    if "sparse_res w k'" for k'
    using f(3,5) [OF r] that len by (auto simp: nth_list_update)
  ultimately show "\<exists>w'. wa_set_tile (sparse_api s fs) w k t l v = Some w' \<and> sparse_ok s fs w'
      \<and> sparse_res w' = sparse_res w \<and> sparse_entry w' = sparse_entry w
      \<and> (\<forall>k'. dense_valid_key (wa_shape (sparse_api s fs)) k' \<and> sparse_res w k' \<longrightarrow>
           sw_pages w' ! sparse_slot w' k' = (if k' = k then p' else sw_pages w ! sparse_slot w k'))"
    by (intro exI [of _ ?w] conjI allI impI) simp_all
next
  fix w :: "'v sparse_world" and k m b e
  assume ok: "sparse_ok s fs w" and r: "sparse_res w k"
    and e: "dirty_step (MarkDirty m b) (sparse_entry w k) = Some e"
  note f = sparse_find [OF ok] and len = sparse_lengths [OF ok]
  obtain d bd meta where e': "e = (d, bd, meta)" by (cases e)
  let ?w = "w\<lparr>sw_dirty_masks := (sw_dirty_masks w)[sparse_slot w k := d],
        sw_dirty_bounds := (sw_dirty_bounds w)[sparse_slot w k := bd],
        sw_metadata := (sw_metadata w)[sparse_slot w k := meta]\<rparr>"
  have "wa_mark_dirty (sparse_api s fs) w k m b = Some ?w"
    using sparse_mark_eq [OF ok r] e e' by (simp add: sparse_api_def)
  moreover have "sparse_ok s fs ?w"
  proof -
    obtain xs where "valid_shape s" "sparse_inv s fs w xs" using ok by (auto simp: sparse_ok_def)
    then show ?thesis
      using metadata_update_inv [of s fs w xs "(sw_dirty_masks w)[sparse_slot w k := d]"
          "(sw_dirty_bounds w)[sparse_slot w k := bd]" "(sw_metadata w)[sparse_slot w k := meta]"]
      by (auto simp: sparse_ok_def)
  qed
  moreover have "sparse_res ?w = sparse_res w" "sparse_slot ?w = sparse_slot w"
    by (simp_all add: sparse_res_def sparse_slot_def fun_eq_iff)
  moreover have "sparse_entry ?w k' = (if k' = k then e else sparse_entry w k')" if "sparse_res w k'" for k'
    using f(3,5) [OF r] that len e' \<open>sparse_slot ?w = sparse_slot w\<close> by (auto simp: sparse_entry_def)
  ultimately show "\<exists>w'. wa_mark_dirty (sparse_api s fs) w k m b = Some w' \<and> sparse_ok s fs w'
      \<and> sparse_res w' = sparse_res w
      \<and> (\<forall>k'. dense_valid_key (wa_shape (sparse_api s fs)) k' \<and> sparse_res w k' \<longrightarrow>
           sw_pages w' ! sparse_slot w' k' = sw_pages w ! sparse_slot w k'
           \<and> sparse_entry w' k' = (if k' = k then e else sparse_entry w k'))"
    by (intro exI [of _ ?w] conjI allI impI) simp_all
next
  fix w :: "'v sparse_world" and k m b
  assume "sparse_ok s fs w" "sparse_res w k" "dirty_step (MarkDirty m b) (sparse_entry w k) = None"
  then show "wa_mark_dirty (sparse_api s fs) w k m b = None"
    using sparse_mark_eq [of s fs w k m b] by (simp add: sparse_api_def)
next
  fix w :: "'v sparse_world" assume "sparse_ok s fs w"
  then show "valid_shape (wa_shape (sparse_api s fs))" by (simp add: sparse_ok_def sparse_api_def)
next
  fix w :: "'v sparse_world" and k
  assume ok: "sparse_ok s fs w"
  note f = sparse_find [OF ok, of k] and len = sparse_lengths [OF ok]
  show "wa_is_resident (sparse_api s fs) w k = Some (sparse_res w k)"
    using f(1,4) by (auto simp: sparse_api_def is_resident_def)
  show "wa_try_chunk (sparse_api s fs) w k = Some (if sparse_res w k then Some (sw_pages w ! sparse_slot w k) else None)"
    using f(1,3,4) len by (auto simp: sparse_api_def sparse_try_chunk_def sparse_slot_def nth_opt_in)
  show "wa_chunk (sparse_api s fs) w k = (if sparse_res w k then Some (sw_pages w ! sparse_slot w k) else None)"
    using f(2,3) len by (auto simp: sparse_api_def sparse_chunk_def sparse_slot_def sparse_res_def nth_opt_in)
  show "page_ok (wa_shape (sparse_api s fs)) (wa_schema (sparse_api s fs)) (sw_pages w ! sparse_slot w k)"
    if "sparse_res w k" using f(3) that len by (simp add: sparse_api_def)
  show "wa_meta (sparse_api s fs) w k = Some (snd (snd (sparse_entry w k)))" if "sparse_res w k"
    using f(2,3) that len by (auto simp: sparse_api_def sparse_meta_def sparse_slot_def sparse_res_def nth_opt_in sparse_entry_def)
qed (simp add: sparse_api_def)

end
