(* ===== verification/Movement_Class.thy ===== *)
theory Movement_Class imports Tile_World begin

text \<open>
  \<open>topology/step_policy.h\<close> and \<open>topology/movement_class.h\<close>: which regular steps a mover takes, and
  the vocabulary of passability terms and entry-cost expressions over the fields of a tile. The
  compile-time types of the vocabulary are the constructors of two datatypes and \<open>eval\<close> their
  interpreter; a field value is the mathematical value of an integral C++ value. A term that names
  a field outside the schema is rejected at compile time in the source and has no value here.
\<close>

subsection \<open>Step policies\<close>

datatype corner_rule = RequireBothClear | RequireOneClear

datatype step_policy = DefaultSteps | DiagonalSteps corner_rule

datatype step_policy_identity = StepPolicyIdentity (spi_value: u32)

definition step_policy_identity :: "step_policy \<Rightarrow> step_policy_identity" where
  "step_policy_identity p = StepPolicyIdentity (case p of
      DefaultSteps \<Rightarrow> 0x44454654
    | DiagonalSteps RequireBothClear \<Rightarrow> 0x44474243
    | DiagonalSteps RequireOneClear \<Rightarrow> 0x44474f43)"

definition cost_scale :: "step_policy \<Rightarrow> u32" where
  "cost_scale p = (case p of DefaultSteps \<Rightarrow> 1 | DiagonalSteps r \<Rightarrow> 128)"

definition diagonal_step_multiplier :: u32 where
  "diagonal_step_multiplier = 181"

definition maximum_step_multiplier :: "step_policy \<Rightarrow> u32" where
  "maximum_step_multiplier p = (case p of DefaultSteps \<Rightarrow> 1 | DiagonalSteps r \<Rightarrow> diagonal_step_multiplier)"

definition degenerate_x :: "shape \<Rightarrow> bool" where
  "degenerate_x s \<longleftrightarrow> ext_x (shape_size s) = 1"

definition degenerate_y :: "shape \<Rightarrow> bool" where
  "degenerate_y s \<longleftrightarrow> ext_y (shape_size s) = 1"

definition degenerate_z :: "shape \<Rightarrow> bool" where
  "degenerate_z s \<longleftrightarrow> ext_z (shape_size s) = 1"

definition effective_axis_count :: "shape \<Rightarrow> nat" where
  "effective_axis_count s =
     (if ext_x (shape_size s) \<noteq> 1 then 1 else 0) + (if ext_y (shape_size s) \<noteq> 1 then 1 else 0)
     + (if ext_z (shape_size s) \<noteq> 1 then 1 else 0)"

definition step_policy_for :: "step_policy \<Rightarrow> shape \<Rightarrow> bool" where
  "step_policy_for p s \<longleftrightarrow> 0 < cost_scale p \<and>
     (p = DefaultSteps \<or>
      (\<exists>r \<in> {RequireBothClear, RequireOneClear}. p = DiagonalSteps r)
        \<and> shape_lattice s = Orthogonal \<and> effective_axis_count s = 2)"

subsection \<open>Passability terms\<close>

datatype 't pass_term =
    Field 't
  | NotZero 't
  | Negation "'t pass_term"
  | AllOf "'t pass_term list"
  | AnyOf "'t pass_term list"

definition field_truth :: "('t, int) schema \<Rightarrow> 't \<Rightarrow> int chunk_page \<Rightarrow> local_tile_id \<Rightarrow> bool option" where
  "field_truth fs t p l = map_option (\<lambda>v. v \<noteq> 0) (page_field fs t p l)"

text \<open>The folds over \<open>&&\<close> and \<open>||\<close> stop at the first term that decides them.\<close>

fun term_eval :: "('t, int) schema \<Rightarrow> int chunk_page \<Rightarrow> local_tile_id \<Rightarrow> 't pass_term \<Rightarrow> bool option"
  and all_eval :: "('t, int) schema \<Rightarrow> int chunk_page \<Rightarrow> local_tile_id \<Rightarrow> 't pass_term list \<Rightarrow> bool option"
  and any_eval :: "('t, int) schema \<Rightarrow> int chunk_page \<Rightarrow> local_tile_id \<Rightarrow> 't pass_term list \<Rightarrow> bool option" where
  "term_eval fs p l (Field t) = field_truth fs t p l"
| "term_eval fs p l (NotZero t) = field_truth fs t p l"
| "term_eval fs p l (Negation e) = map_option Not (term_eval fs p l e)"
| "term_eval fs p l (AllOf es) = all_eval fs p l es"
| "term_eval fs p l (AnyOf es) = any_eval fs p l es"
| "all_eval fs p l [] = Some True"
| "all_eval fs p l (e # es) = do { b \<leftarrow> term_eval fs p l e; if b then all_eval fs p l es else Some False }"
| "any_eval fs p l [] = Some False"
| "any_eval fs p l (e # es) = do { b \<leftarrow> term_eval fs p l e; if b then Some True else any_eval fs p l es }"

fun term_tags :: "'t pass_term \<Rightarrow> 't set" where
  "term_tags (Field t) = {t}"
| "term_tags (NotZero t) = {t}"
| "term_tags (Negation e) = term_tags e"
| "term_tags (AllOf es) = (\<Union>e \<in> set es. term_tags e)"
| "term_tags (AnyOf es) = (\<Union>e \<in> set es. term_tags e)"

subsection \<open>Cost expressions\<close>

definition u32_max :: u32 where
  "u32_max = 0xFFFFFFFF"

definition normalize_cost :: "int \<Rightarrow> u32" where
  "normalize_cost v =
     (if v \<le> 0 then 0
      else let u = (word_of_int v :: u64)
           in if ucast u32_max < u then u32_max else ucast u)"

datatype 't cost_expr =
    UnitCost
  | ConstantCost u32
  | FieldCost 't
  | OverlayCost "'t cost_expr" "'t cost_expr"
  | SelectCost 't "'t cost_expr" "'t cost_expr"

definition saturating_sum32 :: "u32 \<Rightarrow> u32 \<Rightarrow> u32" where
  "saturating_sum32 a b =
     (let sum = (ucast a + ucast b :: u64) in if ucast u32_max < sum then u32_max else ucast sum)"

fun cost_eval :: "('t, int) schema \<Rightarrow> int chunk_page \<Rightarrow> local_tile_id \<Rightarrow> 't cost_expr \<Rightarrow> u32 option" where
  "cost_eval fs p l UnitCost = Some 1"
| "cost_eval fs p l (ConstantCost n) = Some n"
| "cost_eval fs p l (FieldCost t) = map_option normalize_cost (page_field fs t p l)"
| "cost_eval fs p l (OverlayCost base overlay) = do {
     b \<leftarrow> cost_eval fs p l base;
     if b = 0 then Some 0 else map_option (saturating_sum32 b) (cost_eval fs p l overlay)
   }"
| "cost_eval fs p l (SelectCost t when_set when_clear) = do {
     sel \<leftarrow> field_truth fs t p l;
     if sel then cost_eval fs p l when_set else cost_eval fs p l when_clear
   }"

fun cost_tags :: "'t cost_expr \<Rightarrow> 't set" where
  "cost_tags UnitCost = {}"
| "cost_tags (ConstantCost n) = {}"
| "cost_tags (FieldCost t) = {t}"
| "cost_tags (OverlayCost base overlay) = cost_tags base \<union> cost_tags overlay"
| "cost_tags (SelectCost t a b) = insert t (cost_tags a \<union> cost_tags b)"

subsection \<open>Movement classes\<close>

record 't movement_class =
  mc_pass :: "'t pass_term"
  mc_cost :: "'t cost_expr"
  mc_policy :: step_policy

definition passable :: "('t, int) schema \<Rightarrow> 't movement_class \<Rightarrow> int chunk_page \<Rightarrow> local_tile_id \<Rightarrow> bool option" where
  "passable fs c p l = term_eval fs p l (mc_pass c)"

definition entry_cost :: "('t, int) schema \<Rightarrow> 't movement_class \<Rightarrow> int chunk_page \<Rightarrow> local_tile_id \<Rightarrow> u32 option" where
  "entry_cost fs c p l = cost_eval fs p l (mc_cost c)"

definition unit_cost_field_movement :: "'t \<Rightarrow> 't movement_class" where
  "unit_cost_field_movement t = \<lparr>mc_pass = Field t, mc_cost = UnitCost, mc_policy = DefaultSteps\<rparr>"

definition positive_cost_field_movement :: "'t \<Rightarrow> 't \<Rightarrow> 't movement_class" where
  "positive_cost_field_movement t c =
     \<lparr>mc_pass = AllOf [Field t, NotZero c], mc_cost = FieldCost c, mc_policy = DefaultSteps\<rparr>"

definition passable_span :: "('t, int) schema \<Rightarrow> 't \<Rightarrow> int chunk_page \<Rightarrow> int list option" where
  "passable_span fs t p = page_field_span fs t p"

text \<open>A template argument that is a class or a raw field tag.\<close>

definition movement_class_of :: "'t movement_class + 't \<Rightarrow> 't movement_class" where
  "movement_class_of c = (case c of Inl m \<Rightarrow> m | Inr t \<Rightarrow> unit_cost_field_movement t)"

definition unit_movement_class :: "'t movement_class \<Rightarrow> 't movement_class" where
  "unit_movement_class c = c\<lparr>mc_cost := UnitCost\<rparr>"

definition class_ok :: "('t, int) schema \<Rightarrow> 't movement_class \<Rightarrow> bool" where
  "class_ok fs c \<longleftrightarrow> term_tags (mc_pass c) \<union> cost_tags (mc_cost c) \<subseteq> fst ` set fs"

subsection \<open>Terms have a value\<close>

lemma field_truth_defined:
  assumes "page_ok s fs p" "tile_value l < local_tile_count s" "t \<in> fst ` set fs"
  shows "\<exists>b. field_truth fs t p l = Some b"
  using page_defined(1) [OF assms(1) _ assms(2), of t] assms(3) by (auto simp: field_truth_def contains_field_tag_iff)

lemma eval_defined:
  "\<forall>t \<in> term_tags e. \<exists>b. field_truth fs t p l = Some b \<Longrightarrow> \<exists>b. term_eval fs p l e = Some b"
  "\<forall>e \<in> set es. \<forall>t \<in> term_tags e. \<exists>b. field_truth fs t p l = Some b \<Longrightarrow> \<exists>b. all_eval fs p l es = Some b"
  "\<forall>e \<in> set es'. \<forall>t \<in> term_tags e. \<exists>b. field_truth fs t p l = Some b \<Longrightarrow> \<exists>b. any_eval fs p l es' = Some b"
proof (induction fs p l e and fs p l es and fs p l es' rule: term_eval_all_eval_any_eval.induct)
  case (7 fs p l e es)
  then show ?case by (cases "term_eval fs p l e") (auto split: bool.splits)
next
  case (9 fs p l e es)
  then show ?case by (cases "term_eval fs p l e") (auto split: bool.splits)
qed auto

lemma cost_defined:
  assumes "page_ok s fs p" "tile_value l < local_tile_count s" "cost_tags e \<subseteq> fst ` set fs"
  shows "\<exists>n. cost_eval fs p l e = Some n"
  using assms(3)
proof (induction e)
  case (FieldCost t)
  then show ?case using page_defined(1) [OF assms(1) _ assms(2), of t] by (auto simp: contains_field_tag_iff)
next
  case (OverlayCost b v)
  then obtain x y where "cost_eval fs p l b = Some x" "cost_eval fs p l v = Some y" by auto
  then show ?case by simp
next
  case (SelectCost t a b)
  then obtain x y z where "cost_eval fs p l a = Some x" "cost_eval fs p l b = Some y"
    "field_truth fs t p l = Some z"
    using field_truth_defined [OF assms(1,2), of t] by auto
  then show ?case by simp
qed auto

lemma class_defined:
  assumes "page_ok s fs p" "tile_value l < local_tile_count s" "class_ok fs c"
  shows "\<exists>b. passable fs c p l = Some b" "\<exists>n. entry_cost fs c p l = Some n"
proof -
  have tags: "term_tags (mc_pass c) \<subseteq> fst ` set fs" "cost_tags (mc_cost c) \<subseteq> fst ` set fs"
    using assms(3) by (simp_all add: class_ok_def)
  then have "\<forall>t \<in> term_tags (mc_pass c). \<exists>b. field_truth fs t p l = Some b"
    using field_truth_defined [OF assms(1,2)] by blast
  then show "\<exists>b. passable fs c p l = Some b" unfolding passable_def by (rule eval_defined(1))
  show "\<exists>n. entry_cost fs c p l = Some n"
    unfolding entry_cost_def by (rule cost_defined [OF assms(1,2) tags(2)])
qed

lemma class_ok_unit: "class_ok fs c \<Longrightarrow> class_ok fs (unit_movement_class c)"
  by (simp add: class_ok_def unit_movement_class_def)

text \<open>The meaning of the folds: conjunction and disjunction.\<close>

definition truth_at :: "('t, int) schema \<Rightarrow> int chunk_page \<Rightarrow> local_tile_id \<Rightarrow> 't pass_term \<Rightarrow> bool" where
  "truth_at fs p l e = the (term_eval fs p l e)"

lemma fold_meaning:
  "list_all (\<lambda>e. term_eval fs p l e \<noteq> None) es \<Longrightarrow> all_eval fs p l es = Some (list_all (truth_at fs p l) es)"
  "list_all (\<lambda>e. term_eval fs p l e \<noteq> None) es \<Longrightarrow> any_eval fs p l es = Some (list_ex (truth_at fs p l) es)"
  by (induction es) (auto simp: truth_at_def)

subsection \<open>Costs on natural numbers\<close>

lemma u64_of_u32 [simp]: "unat (ucast (x :: u32) :: u64) = unat x"
  using unsigned_less [of x, where 'a = nat] by (simp add: unsigned_ucast_eq take_bit_nat_eq_self)

lemma u32_bound: "unat (x :: u32) \<le> 2 ^ 32 - 1"
  using unsigned_less [of x, where 'a = nat] by simp

lemma unat_u32_max [simp]: "unat u32_max = 2 ^ 32 - 1"
  by (simp add: u32_max_def)

lemma unat_ucast_small: "unat (x :: u64) \<le> 2 ^ 32 - 1 \<Longrightarrow> unat (ucast x :: u32) = unat x"
  by (simp add: unsigned_ucast_eq take_bit_nat_eq_self)

lemma unat_saturating_sum32: "unat (saturating_sum32 a b) = min (2 ^ 32 - 1) (unat a + unat b)"
proof -
  have "unat a + unat b < 2 ^ 64" using u32_bound [of a] u32_bound [of b] by simp
  then have s: "unat (ucast a + ucast b :: u64) = unat a + unat b"
    by (simp add: unat_add_u64)
  show ?thesis
    by (auto simp: saturating_sum32_def Let_def word_less_nat_alt s unat_ucast_small)
qed

lemma unat_normalize_cost:
  assumes "v < 2 ^ 64"
  shows "unat (normalize_cost v) = nat (min (2 ^ 32 - 1) (max 0 v))"
proof (cases "v \<le> 0")
  case False
  then have u: "unat (word_of_int v :: u64) = nat v"
    using assms by (simp add: unat_eq_nat_uint uint_word_of_int)
  show ?thesis using False u by (auto simp: normalize_cost_def Let_def word_less_nat_alt unat_ucast_small)
qed (simp add: normalize_cost_def)

end
