(* ===== verification/Transition_Model.thy ===== *)
theory Transition_Model imports Movement_Class begin

text \<open>
  \<open>topology/transition_model.h\<close>: the transitions a mover of a movement class can take. Candidates
  are the geometric neighbours of the lattice and the step policy; a probe is a candidate resolved
  against the world. An enumeration calls a sink for each item in order; here it returns the list
  of the items. The transition provider is the consumer's, so its enumerations are fields of a
  parameter, or the default provider \<open>AdjacentTransitions\<close>, which has none.
\<close>

datatype transition_kind = Regular | Special

datatype transition_availability = Legal | Blocked | MissingTopology

record transition_probe =
  tp_to :: coord3
  tp_to_index :: u64
  tp_cost :: u32
  tp_kind :: transition_kind
  tp_availability :: transition_availability
  tp_cost_overflow :: bool

record special_candidate =
  sc_to :: coord3
  sc_cost :: u32
  sc_missing_topology :: bool

text \<open>
  An enumeration that throws is \<^const>\<open>None\<close>. A provider may declare the largest cost of its
  candidates.
\<close>

record 'w provider_calls =
  pc_forward :: "'w \<Rightarrow> coord3 \<Rightarrow> special_candidate list option"
  pc_reverse :: "'w \<Rightarrow> coord3 \<Rightarrow> special_candidate list option"
  pc_revision :: u64
  pc_maximum_cost :: "u32 option"

datatype 'w provider = AdjacentTransitions | Provider "'w provider_calls"

definition provider_forward :: "'w provider \<Rightarrow> 'w \<Rightarrow> coord3 \<Rightarrow> special_candidate list option" where
  "provider_forward p w c = (case p of AdjacentTransitions \<Rightarrow> Some [] | Provider q \<Rightarrow> pc_forward q w c)"

definition provider_reverse :: "'w provider \<Rightarrow> 'w \<Rightarrow> coord3 \<Rightarrow> special_candidate list option" where
  "provider_reverse p w c = (case p of AdjacentTransitions \<Rightarrow> Some [] | Provider q \<Rightarrow> pc_reverse q w c)"

definition transition_provider_revision :: "'w provider \<Rightarrow> u64" where
  "transition_provider_revision p = (case p of AdjacentTransitions \<Rightarrow> 0 | Provider q \<Rightarrow> pc_revision q)"

subsection \<open>Regular candidates\<close>

record regular_candidate =
  rc_to :: coord3
  rc_clearance_a :: coord3
  rc_clearance_b :: coord3
  rc_multiplier :: u32
  rc_clearance_count :: nat

definition emit_regular_candidate :: "shape \<Rightarrow> coord3 \<Rightarrow> u32 \<Rightarrow> regular_candidate list" where
  "emit_regular_candidate s to multiplier =
     (if shape_contains s to
      then [\<lparr>rc_to = to, rc_clearance_a = default_coord3, rc_clearance_b = default_coord3,
             rc_multiplier = multiplier, rc_clearance_count = 0\<rparr>]
      else [])"

definition emit_diagonal_candidate :: "shape \<Rightarrow> coord3 \<Rightarrow> coord3 \<Rightarrow> coord3 \<Rightarrow> regular_candidate list" where
  "emit_diagonal_candidate s to a b =
     (if shape_contains s to
      then [\<lparr>rc_to = to, rc_clearance_a = a, rc_clearance_b = b,
             rc_multiplier = diagonal_step_multiplier, rc_clearance_count = 2\<rparr>]
      else [])"

definition orthogonal_face_candidates :: "shape \<Rightarrow> coord3 \<Rightarrow> u32 \<Rightarrow> regular_candidate list" where
  "orthogonal_face_candidates s c m =
     (let x = co_x c; y = co_y c; z = co_z c in
      emit_regular_candidate s (mk_coord3 (x + 1) y z) m
      @ emit_regular_candidate s (mk_coord3 (x - 1) y z) m
      @ emit_regular_candidate s (mk_coord3 x (y + 1) z) m
      @ emit_regular_candidate s (mk_coord3 x (y - 1) z) m
      @ emit_regular_candidate s (mk_coord3 x y (z + 1)) m
      @ emit_regular_candidate s (mk_coord3 x y (z - 1)) m)"

definition hex_candidates :: "shape \<Rightarrow> coord3 \<Rightarrow> regular_candidate list" where
  "hex_candidates s c =
     (if co_z c \<noteq> 0 then []
      else let x = co_x c; y = co_y c; z = co_z c in
        emit_regular_candidate s (mk_coord3 (x + 1) y z) 1
        @ emit_regular_candidate s (mk_coord3 (x - 1) y z) 1
        @ emit_regular_candidate s (mk_coord3 x (y + 1) z) 1
        @ emit_regular_candidate s (mk_coord3 x (y - 1) z) 1
        @ emit_regular_candidate s (mk_coord3 (x + 1) (y - 1) z) 1
        @ emit_regular_candidate s (mk_coord3 (x - 1) (y + 1) z) 1)"

definition diagonal_candidates :: "shape \<Rightarrow> step_policy \<Rightarrow> coord3 \<Rightarrow> regular_candidate list" where
  "diagonal_candidates s p c =
     (let x = co_x c; y = co_y c; z = co_z c in
      orthogonal_face_candidates s c (cost_scale p)
      @ (if \<not> degenerate_x s \<and> \<not> degenerate_y s
         then emit_diagonal_candidate s (mk_coord3 (x + 1) (y + 1) z) (mk_coord3 (x + 1) y z) (mk_coord3 x (y + 1) z)
            @ emit_diagonal_candidate s (mk_coord3 (x + 1) (y - 1) z) (mk_coord3 (x + 1) y z) (mk_coord3 x (y - 1) z)
            @ emit_diagonal_candidate s (mk_coord3 (x - 1) (y + 1) z) (mk_coord3 (x - 1) y z) (mk_coord3 x (y + 1) z)
            @ emit_diagonal_candidate s (mk_coord3 (x - 1) (y - 1) z) (mk_coord3 (x - 1) y z) (mk_coord3 x (y - 1) z)
         else if \<not> degenerate_x s \<and> \<not> degenerate_z s
         then emit_diagonal_candidate s (mk_coord3 (x + 1) y (z + 1)) (mk_coord3 (x + 1) y z) (mk_coord3 x y (z + 1))
            @ emit_diagonal_candidate s (mk_coord3 (x + 1) y (z - 1)) (mk_coord3 (x + 1) y z) (mk_coord3 x y (z - 1))
            @ emit_diagonal_candidate s (mk_coord3 (x - 1) y (z + 1)) (mk_coord3 (x - 1) y z) (mk_coord3 x y (z + 1))
            @ emit_diagonal_candidate s (mk_coord3 (x - 1) y (z - 1)) (mk_coord3 (x - 1) y z) (mk_coord3 x y (z - 1))
         else emit_diagonal_candidate s (mk_coord3 x (y + 1) (z + 1)) (mk_coord3 x (y + 1) z) (mk_coord3 x y (z + 1))
            @ emit_diagonal_candidate s (mk_coord3 x (y + 1) (z - 1)) (mk_coord3 x (y + 1) z) (mk_coord3 x y (z - 1))
            @ emit_diagonal_candidate s (mk_coord3 x (y - 1) (z + 1)) (mk_coord3 x (y - 1) z) (mk_coord3 x y (z + 1))
            @ emit_diagonal_candidate s (mk_coord3 x (y - 1) (z - 1)) (mk_coord3 x (y - 1) z) (mk_coord3 x y (z - 1))))"

definition regular_candidates :: "shape \<Rightarrow> step_policy \<Rightarrow> coord3 \<Rightarrow> regular_candidate list" where
  "regular_candidates s p c =
     (if \<not> shape_contains s c then []
      else case p of
          DefaultSteps \<Rightarrow>
            (case shape_lattice s of
               Orthogonal \<Rightarrow> orthogonal_face_candidates s c 1
             | HexAxial \<Rightarrow> hex_candidates s c)
        | DiagonalSteps r \<Rightarrow> diagonal_candidates s p c)"

text \<open>The static assertion asks for tile keys of at most 64 bits.\<close>

definition transition_index :: "shape \<Rightarrow> coord3 \<Rightarrow> u64 option" where
  "transition_index s c =
     (if tile_key_bits s \<le> 64
      then Option.bind (tile_key s c) (\<lambda>k. case k of TileKey64 v \<Rightarrow> Some v | TileKey128 v \<Rightarrow> None)
      else None)"

definition saturating_u32 :: "uint128 \<Rightarrow> u32" where
  "saturating_u32 v = (if hi v \<noteq> 0 \<or> ucast u32_max < lo v then u32_max else ucast (lo v))"

subsection \<open>Clearance\<close>

datatype clearance = Clear | ClearanceBlocked | ClearanceMissing

type_synonym ('t, 'w) tile_api = "('t, int, 'w) world_api"

definition clearance_at :: "('t, 'w) tile_api \<Rightarrow> 't movement_class \<Rightarrow> 'w \<Rightarrow> coord3 \<Rightarrow> clearance option" where
  "clearance_at A cls w c = do {
     r \<leftarrow> resolve (wa_shape A) c;
     page \<leftarrow> wa_try_chunk A w (rt_chunk_key r);
     case page of
       None \<Rightarrow> Some ClearanceMissing
     | Some p \<Rightarrow> map_option (\<lambda>ok. if ok then Clear else ClearanceBlocked)
                  (passable (wa_schema A) cls p (rt_local_tile_id r))
   }"

fun combine_clearance :: "corner_rule \<Rightarrow> clearance \<Rightarrow> clearance \<Rightarrow> transition_availability" where
  "combine_clearance RequireBothClear a b =
     (if a = ClearanceBlocked \<or> b = ClearanceBlocked then Blocked
      else if a = ClearanceMissing \<or> b = ClearanceMissing then MissingTopology else Legal)"
| "combine_clearance RequireOneClear a b =
     (if a = Clear \<or> b = Clear then Legal
      else if a = ClearanceMissing \<or> b = ClearanceMissing then MissingTopology else Blocked)"

definition clearance_availability ::
    "('t, 'w) tile_api \<Rightarrow> 't movement_class \<Rightarrow> 'w \<Rightarrow> regular_candidate \<Rightarrow> transition_availability option" where
  "clearance_availability A cls w cand =
     (case mc_policy cls of
        DefaultSteps \<Rightarrow> Some Legal
      | DiagonalSteps rule \<Rightarrow>
          if rc_clearance_count cand = 0 then Some Legal
          else do {
            a \<leftarrow> clearance_at A cls w (rc_clearance_a cand);
            b \<leftarrow> clearance_at A cls w (rc_clearance_b cand);
            Some (combine_clearance rule a b)
          })"

subsection \<open>Resolved transitions\<close>

definition missing_probe :: "transition_kind \<Rightarrow> coord3 \<Rightarrow> u64 \<Rightarrow> transition_probe" where
  "missing_probe kind to index =
     \<lparr>tp_to = to, tp_to_index = index, tp_cost = 0, tp_kind = kind,
      tp_availability = MissingTopology, tp_cost_overflow = False\<rparr>"

definition precise_overflow :: "uint128 \<Rightarrow> bool" where
  "precise_overflow v \<longleftrightarrow> hi v \<noteq> 0 \<or> ucast u32_max \<le> lo v"

definition emit_candidate ::
    "('t, 'w) tile_api \<Rightarrow> 't movement_class \<Rightarrow> 'w \<Rightarrow> regular_candidate \<Rightarrow> coord3 \<Rightarrow> transition_probe list option" where
  "emit_candidate A cls w cand cost_coord = do {
     r \<leftarrow> resolve (wa_shape A) (rc_to cand);
     page \<leftarrow> wa_try_chunk A w (rt_chunk_key r);
     case page of
       None \<Rightarrow> map_option (\<lambda>i. [missing_probe Regular (rc_to cand) i]) (transition_index (wa_shape A) (rc_to cand))
     | Some p \<Rightarrow> do {
         ok \<leftarrow> passable (wa_schema A) cls p (rt_local_tile_id r);
         if \<not> ok then Some [] else do {
           clearance \<leftarrow> clearance_availability A cls w cand;
           if clearance = Blocked then Some [] else do {
             cr \<leftarrow> resolve (wa_shape A) cost_coord;
             cost_page \<leftarrow> wa_try_chunk A w (rt_chunk_key cr);
             case cost_page of
               None \<Rightarrow> map_option (\<lambda>i. [missing_probe Regular (rc_to cand) i]) (transition_index (wa_shape A) (rc_to cand))
             | Some cp \<Rightarrow> do {
                 cost \<leftarrow> entry_cost (wa_schema A) cls cp (rt_local_tile_id cr);
                 if cost = 0 then Some [] else do {
                   let precise = u128_mul (u128_of_u64 (ucast cost)) (u128_of_u64 (ucast (rc_multiplier cand)));
                   i \<leftarrow> transition_index (wa_shape A) (rc_to cand);
                   Some [\<lparr>tp_to = rc_to cand, tp_to_index = i, tp_cost = saturating_u32 precise,
                          tp_kind = Regular, tp_availability = clearance,
                          tp_cost_overflow = precise_overflow precise\<rparr>]
                 }
               }
           }
         }
       }
   }"

definition emit_special_candidate ::
    "('t, 'w) tile_api \<Rightarrow> 't movement_class \<Rightarrow> 'w \<Rightarrow> special_candidate \<Rightarrow> coord3 \<Rightarrow> transition_probe list option" where
  "emit_special_candidate A cls w cand forward_destination =
     (if \<not> shape_contains (wa_shape A) (sc_to cand) then Some []
      else do {
        i \<leftarrow> transition_index (wa_shape A) (sc_to cand);
        if sc_missing_topology cand then Some [missing_probe Special (sc_to cand) i]
        else do {
          r \<leftarrow> resolve (wa_shape A) (sc_to cand);
          page \<leftarrow> wa_try_chunk A w (rt_chunk_key r);
          case page of
            None \<Rightarrow> Some [missing_probe Special (sc_to cand) i]
          | Some p \<Rightarrow> do {
              ok \<leftarrow> passable (wa_schema A) cls p (rt_local_tile_id r);
              if \<not> ok then Some [] else do {
                dr \<leftarrow> resolve (wa_shape A) forward_destination;
                dpage \<leftarrow> wa_try_chunk A w (rt_chunk_key dr);
                case dpage of
                  None \<Rightarrow> Some []
                | Some dp \<Rightarrow> do {
                    cost \<leftarrow> entry_cost (wa_schema A) cls dp (rt_local_tile_id dr);
                    if cost = 0 \<or> sc_cost cand = 0 then Some []
                    else (let precise = u128_mul (u128_of_u64 (ucast (sc_cost cand)))
                                          (u128_of_u64 (ucast (cost_scale (mc_policy cls))))
                          in Some [\<lparr>tp_to = sc_to cand, tp_to_index = i, tp_cost = saturating_u32 precise,
                                    tp_kind = Special, tp_availability = Legal,
                                    tp_cost_overflow = precise_overflow precise\<rparr>])
                  }
              }
            }
        }
      })"

text \<open>The concatenation of the items a loop over the candidates emits.\<close>

definition concat_opt :: "('a \<Rightarrow> 'b list option) \<Rightarrow> 'a list \<Rightarrow> 'b list option" where
  "concat_opt f xs = fold_opt (\<lambda>x acc. map_option (\<lambda>ys. acc @ ys) (f x)) xs []"

definition for_each_forward ::
    "('t, 'w) tile_api \<Rightarrow> 't movement_class \<Rightarrow> 'w provider \<Rightarrow> 'w \<Rightarrow> coord3 \<Rightarrow> transition_probe list option" where
  "for_each_forward A cls pr w from = do {
     regular \<leftarrow> concat_opt (\<lambda>cand. emit_candidate A cls w cand (rc_to cand))
                  (regular_candidates (wa_shape A) (mc_policy cls) from);
     special \<leftarrow> provider_forward pr w from;
     extra \<leftarrow> concat_opt (\<lambda>cand. emit_special_candidate A cls w cand (sc_to cand)) special;
     Some (regular @ extra)
   }"

definition for_each_reverse ::
    "('t, 'w) tile_api \<Rightarrow> 't movement_class \<Rightarrow> 'w provider \<Rightarrow> 'w \<Rightarrow> coord3 \<Rightarrow> transition_probe list option" where
  "for_each_reverse A cls pr w to =
     (if \<not> shape_contains (wa_shape A) to then Some []
      else do {
        origin \<leftarrow> resolve (wa_shape A) to;
        page \<leftarrow> wa_try_chunk A w (rt_chunk_key origin);
        case page of
          None \<Rightarrow> Some []
        | Some p \<Rightarrow> do {
            ok \<leftarrow> passable (wa_schema A) cls p (rt_local_tile_id origin);
            if \<not> ok then Some [] else do {
              regular \<leftarrow> concat_opt (\<lambda>cand. emit_candidate A cls w cand to)
                           (regular_candidates (wa_shape A) (mc_policy cls) to);
              special \<leftarrow> provider_reverse pr w to;
              extra \<leftarrow> concat_opt (\<lambda>cand. emit_special_candidate A cls w cand to) special;
              Some (regular @ extra)
            }
          }
      })"

definition dependency_chunks ::
    "('t, 'w) tile_api \<Rightarrow> 't movement_class \<Rightarrow> 'w provider \<Rightarrow> 'w \<Rightarrow> coord3 \<Rightarrow> chunk_key list option" where
  "dependency_chunks A cls pr w from =
     (let s = wa_shape A; chunk_of = (\<lambda>c. chunk_key s (chunk_coord s c)) in
      if \<not> shape_contains s from then Some []
      else map_option (\<lambda>special.
             chunk_of from
             # concat (map (\<lambda>cand. chunk_of (rc_to cand)
                  # (if rc_clearance_count cand \<noteq> 0
                     then [chunk_of (rc_clearance_a cand), chunk_of (rc_clearance_b cand)] else []))
                 (regular_candidates s (mc_policy cls) from))
             @ map (\<lambda>cand. chunk_of (sc_to cand)) (filter (\<lambda>cand. shape_contains s (sc_to cand)) special))
           (provider_forward pr w from))"

definition is_regular_candidate :: "shape \<Rightarrow> step_policy \<Rightarrow> coord3 \<Rightarrow> coord3 \<Rightarrow> bool" where
  "is_regular_candidate s p from to =
     fold (\<lambda>cand found. found \<or> rc_to cand = to) (regular_candidates s p from) False"

definition regular_availability ::
    "('t, 'w) tile_api \<Rightarrow> 't movement_class \<Rightarrow> 'w \<Rightarrow> coord3 \<Rightarrow> coord3 \<Rightarrow> transition_availability option" where
  "regular_availability A cls w from to =
     fold_opt (\<lambda>cand availability. if rc_to cand = to then clearance_availability A cls w cand else Some availability)
       (regular_candidates (wa_shape A) (mc_policy cls) from) Blocked"

subsection \<open>The heuristic\<close>

definition has_special_transitions :: "'w provider \<Rightarrow> bool" where
  "has_special_transitions pr \<longleftrightarrow> (case pr of AdjacentTransitions \<Rightarrow> False | Provider q \<Rightarrow> True)"

definition clamp_distance :: "u64 \<Rightarrow> u32" where
  "clamp_distance d = (if ucast u32_max < d then u32_max else ucast d)"

definition diagonal_heuristic :: "shape \<Rightarrow> step_policy \<Rightarrow> coord3 \<Rightarrow> coord3 \<Rightarrow> u32" where
  "diagonal_heuristic s p from goal =
     (let (a, b) =
        (if \<not> degenerate_x s \<and> \<not> degenerate_y s
         then (abs_delta (co_x from) (co_x goal), abs_delta (co_y from) (co_y goal))
         else if \<not> degenerate_x s \<and> \<not> degenerate_z s
         then (abs_delta (co_x from) (co_x goal), abs_delta (co_z from) (co_z goal))
         else (abs_delta (co_y from) (co_y goal), abs_delta (co_z from) (co_z goal)));
        minor = min a b; major = max a b;
        ticks = u128_add (u128_mul (u128_of_u64 minor) (u128_of_u64 (ucast diagonal_step_multiplier)))
                         (u128_mul (u128_of_u64 (major - minor)) (u128_of_u64 (ucast (cost_scale p))))
      in saturating_u32 ticks)"

definition heuristic :: "shape \<Rightarrow> step_policy \<Rightarrow> 'w provider \<Rightarrow> coord3 \<Rightarrow> coord3 \<Rightarrow> u32 option" where
  "heuristic s p pr from goal =
     (if has_special_transitions pr then Some 0
      else case p of
          DefaultSteps \<Rightarrow>
            (case shape_lattice s of
               HexAxial \<Rightarrow> do {
                 f \<leftarrow> to_hex_coord from; g \<leftarrow> to_hex_coord goal;
                 Some (clamp_distance (hex_distance f g))
               }
             | Orthogonal \<Rightarrow> Some (clamp_distance (manhattan_distance from goal)))
        | DiagonalSteps r \<Rightarrow> Some (diagonal_heuristic s p from goal))"

subsection \<open>The range of path costs\<close>

text \<open>
  The largest cost an expression can take; \<open>tmax\<close> gives \<open>numeric_limits<value_type>::max()\<close> of the
  field of a tag.
\<close>

fun cost_expression_maximum :: "('t \<Rightarrow> int) \<Rightarrow> 't cost_expr \<Rightarrow> u32" where
  "cost_expression_maximum tmax UnitCost = 1"
| "cost_expression_maximum tmax (ConstantCost n) = n"
| "cost_expression_maximum tmax (FieldCost t) =
     (if ucast u32_max < (word_of_int (tmax t) :: u64) then u32_max else word_of_int (tmax t))"
| "cost_expression_maximum tmax (SelectCost t a b) =
     (if cost_expression_maximum tmax b < cost_expression_maximum tmax a
      then cost_expression_maximum tmax a else cost_expression_maximum tmax b)"
| "cost_expression_maximum tmax (OverlayCost base overlay) =
     saturating_sum32 (cost_expression_maximum tmax base) (cost_expression_maximum tmax overlay)"

definition movement_class_maximum :: "('t \<Rightarrow> int) \<Rightarrow> 't movement_class \<Rightarrow> u32" where
  "movement_class_maximum tmax cls = cost_expression_maximum tmax (mc_cost cls)"

text \<open>\<^const>\<open>None\<close> when the maximum of the provider is not known.\<close>

definition provider_maximum :: "'w provider \<Rightarrow> u32 option" where
  "provider_maximum pr = (case pr of AdjacentTransitions \<Rightarrow> Some 0 | Provider q \<Rightarrow> pc_maximum_cost q)"

definition compact_cost_bound_overflows :: "uint128 \<Rightarrow> u32 \<Rightarrow> u32 \<Rightarrow> bool" where
  "compact_cost_bound_overflows edges maximum_cost maximum_multiplier =
     (if edges = u128_zero \<or> maximum_cost = 0 \<or> maximum_multiplier = 0 then False
      else let factor = ucast maximum_cost * ucast maximum_multiplier :: u64;
               first_overflowing_edge_count = (ucast u32_max + factor - 1) div factor
           in u128_of_u64 first_overflowing_edge_count \<le> edges)"

datatype cost_range_assessment = ProvenSafe | PotentialOverflow | UnknownRange

definition path_cost_range_assessment ::
    "shape \<Rightarrow> ('t \<Rightarrow> int) \<Rightarrow> 't movement_class \<Rightarrow> 'w provider \<Rightarrow> cost_range_assessment" where
  "path_cost_range_assessment s tmax cls pr =
     (let tile_count = u128_mul (u128_of_u64 (chunk_count s)) (u128_of_u64 (local_tile_count s));
          edges = u128_sub tile_count (u128_of_u64 1)
      in if edges = u128_zero then ProvenSafe
         else case provider_maximum pr of
             None \<Rightarrow> UnknownRange
           | Some provider_max \<Rightarrow>
               let class_max = movement_class_maximum tmax cls;
                   maximum_cost = (if provider_max < class_max then class_max else provider_max)
               in if compact_cost_bound_overflows edges maximum_cost (maximum_step_multiplier (mc_policy cls))
                  then PotentialOverflow else ProvenSafe)"

end
