(* ===== verification/Transition_Geometry.thy ===== *)
theory Transition_Geometry imports Transition_Model begin

text \<open>
  The geometry of the regular candidates of \<open>topology/transition_model.h\<close>: a candidate list is the
  origin shifted by a fixed list of offsets, those that stay inside the shape. The offsets are
  closed under negation, so adjacency is symmetric, and reversing a diagonal step swaps its two
  clearance tiles.
\<close>

type_synonym offset = "i64 \<times> i64 \<times> i64"

definition shift :: "coord3 \<Rightarrow> offset \<Rightarrow> coord3" where
  "shift c d = (case d of (dx, dy, dz) \<Rightarrow> mk_coord3 (co_x c + dx) (co_y c + dy) (co_z c + dz))"

definition neg_offset :: "offset \<Rightarrow> offset" where
  "neg_offset d = (case d of (dx, dy, dz) \<Rightarrow> (- dx, - dy, - dz))"

definition face_offsets :: "offset list" where
  "face_offsets = [(1, 0, 0), (-1, 0, 0), (0, 1, 0), (0, -1, 0), (0, 0, 1), (0, 0, -1)]"

definition hex_offsets :: "offset list" where
  "hex_offsets = [(1, 0, 0), (-1, 0, 0), (0, 1, 0), (0, -1, 0), (1, -1, 0), (-1, 1, 0)]"

definition diagonal_offsets :: "shape \<Rightarrow> offset list" where
  "diagonal_offsets s =
     (if \<not> degenerate_x s \<and> \<not> degenerate_y s then [(1, 1, 0), (1, -1, 0), (-1, 1, 0), (-1, -1, 0)]
      else if \<not> degenerate_x s \<and> \<not> degenerate_z s then [(1, 0, 1), (1, 0, -1), (-1, 0, 1), (-1, 0, -1)]
      else [(0, 1, 1), (0, 1, -1), (0, -1, 1), (0, -1, -1)])"

definition step_offsets :: "shape \<Rightarrow> step_policy \<Rightarrow> offset list" where
  "step_offsets s p =
     (case p of
        DefaultSteps \<Rightarrow> (case shape_lattice s of Orthogonal \<Rightarrow> face_offsets | HexAxial \<Rightarrow> hex_offsets)
      | DiagonalSteps r \<Rightarrow> face_offsets @ diagonal_offsets s)"

text \<open>A diagonal step goes along two axes; each of its clearance tiles is one of the two halves.\<close>

definition is_diagonal :: "step_policy \<Rightarrow> offset \<Rightarrow> bool" where
  "is_diagonal p d \<longleftrightarrow> p \<noteq> DefaultSteps \<and> d \<notin> set face_offsets"

definition first_half :: "offset \<Rightarrow> offset" where
  "first_half d = (case d of (dx, dy, dz) \<Rightarrow> if dx \<noteq> 0 then (dx, 0, 0) else (0, dy, 0))"

definition second_half :: "offset \<Rightarrow> offset" where
  "second_half d = (case d of (dx, dy, dz) \<Rightarrow> if dz \<noteq> 0 then (0, 0, dz) else (0, dy, 0))"

definition step_multiplier :: "step_policy \<Rightarrow> offset \<Rightarrow> u32" where
  "step_multiplier p d = (if is_diagonal p d then diagonal_step_multiplier else cost_scale p)"

definition candidate_at :: "step_policy \<Rightarrow> coord3 \<Rightarrow> offset \<Rightarrow> regular_candidate" where
  "candidate_at p c d =
     \<lparr>rc_to = shift c d,
      rc_clearance_a = if is_diagonal p d then shift c (first_half d) else default_coord3,
      rc_clearance_b = if is_diagonal p d then shift c (second_half d) else default_coord3,
      rc_multiplier = step_multiplier p d,
      rc_clearance_count = if is_diagonal p d then 2 else 0\<rparr>"

lemma candidate_at_to [simp]: "rc_to (candidate_at p c d) = shift c d"
  by (simp add: candidate_at_def)

lemma face_emit:
  "d \<in> set face_offsets \<Longrightarrow> emit_regular_candidate s (shift c d) (cost_scale p) =
     (if shape_contains s (shift c d) then [candidate_at p c d] else [])"
  by (simp add: emit_regular_candidate_def candidate_at_def is_diagonal_def step_multiplier_def)

lemma default_emit:
  "emit_regular_candidate s (shift c d) 1 =
     (if shape_contains s (shift c d) then [candidate_at DefaultSteps c d] else [])"
  by (simp add: emit_regular_candidate_def candidate_at_def is_diagonal_def step_multiplier_def cost_scale_def)

lemma diagonal_emit:
  "is_diagonal p d \<Longrightarrow> emit_diagonal_candidate s (shift c d) (shift c (first_half d)) (shift c (second_half d)) =
     (if shape_contains s (shift c d) then [candidate_at p c d] else [])"
  by (simp add: emit_diagonal_candidate_def candidate_at_def step_multiplier_def)

lemma filter_map_concat:
  "concat (map (\<lambda>d. if P d then [f d] else []) ds) = map f (filter P ds)"
  by (induction ds) auto

lemma faces_concat:
  "orthogonal_face_candidates s c m = concat (map (\<lambda>d. emit_regular_candidate s (shift c d) m) face_offsets)"
  by (simp add: orthogonal_face_candidates_def face_offsets_def shift_def Let_def)

lemma hex_concat:
  "co_z c = 0 \<Longrightarrow> hex_candidates s c = concat (map (\<lambda>d. emit_regular_candidate s (shift c d) 1) hex_offsets)"
  by (simp add: hex_candidates_def hex_offsets_def shift_def Let_def)

lemma diagonals_concat:
  "diagonal_candidates s p c = orthogonal_face_candidates s c (cost_scale p)
     @ concat (map (\<lambda>d. emit_diagonal_candidate s (shift c d) (shift c (first_half d)) (shift c (second_half d)))
         (diagonal_offsets s))"
  by (simp add: diagonal_candidates_def diagonal_offsets_def shift_def first_half_def second_half_def Let_def)

lemma contained_hex_z:
  assumes "valid_shape s" "shape_lattice s = HexAxial" "shape_contains s c"
  shows "co_z c = 0"
proof -
  have "ext_z (shape_size s) = 1"
    using assms(1,2) by (simp add: valid_shape_def shape_asserts_def lattice_valid_shape_def)
  then have "unat (co_z c) < 1"
    using assms(3) size_dims [OF assms(1)] by (simp add: shape_contains_iff [OF assms(1)])
  then show ?thesis by (simp add: unat_eq_0)
qed

text \<open>Facts about a literal list of offsets are checked element by element.\<close>

lemma diagonal_not_face: "d \<in> set (diagonal_offsets s) \<Longrightarrow> d \<notin> set face_offsets"
proof -
  have "list_all (\<lambda>d. d \<notin> set face_offsets) (diagonal_offsets s)"
    by (simp add: diagonal_offsets_def face_offsets_def)
  then show "d \<in> set (diagonal_offsets s) \<Longrightarrow> d \<notin> set face_offsets" unfolding list_all_iff by blast
qed

text \<open>The candidate list of the source, as the shifts that stay inside.\<close>

lemma regular_candidates_eq:
  assumes "valid_shape s" "shape_contains s c"
  shows "regular_candidates s p c =
    map (candidate_at p c) (filter (\<lambda>d. shape_contains s (shift c d)) (step_offsets s p))"
proof (cases p)
  case DefaultSteps
  then show ?thesis
    using assms contained_hex_z [OF assms(1) _ assms(2)]
    by (cases "shape_lattice s")
       (simp_all add: regular_candidates_def step_offsets_def faces_concat hex_concat default_emit filter_map_concat)
next
  case (DiagonalSteps r)
  have face: "map (\<lambda>d. emit_regular_candidate s (shift c d) (cost_scale p)) face_offsets =
      map (\<lambda>d. if shape_contains s (shift c d) then [candidate_at p c d] else []) face_offsets"
    by (rule map_cong [OF refl]) (rule face_emit)
  have diag: "map (\<lambda>d. emit_diagonal_candidate s (shift c d) (shift c (first_half d)) (shift c (second_half d)))
        (diagonal_offsets s)
      = map (\<lambda>d. if shape_contains s (shift c d) then [candidate_at p c d] else []) (diagonal_offsets s)"
    by (rule map_cong [OF refl], rule diagonal_emit)
       (simp add: is_diagonal_def DiagonalSteps diagonal_not_face)
  show ?thesis
    using DiagonalSteps assms
    by (simp add: regular_candidates_def diagonals_concat faces_concat step_offsets_def
        face [unfolded DiagonalSteps] diag [unfolded DiagonalSteps] filter_map_concat)
qed

subsection \<open>Symmetry\<close>

lemma shift_neg [simp]: "shift (shift c d) (neg_offset d) = c"
  by (cases d) (simp add: shift_def neg_offset_def mk_coord3_def)

lemma neg_neg [simp]: "neg_offset (neg_offset d) = d"
  by (cases d) (simp add: neg_offset_def)

lemma negations:
  "list_all (\<lambda>d. neg_offset d \<in> set face_offsets) face_offsets"
  "list_all (\<lambda>d. neg_offset d \<in> set hex_offsets) hex_offsets"
  "list_all (\<lambda>d. neg_offset d \<in> set (diagonal_offsets s)) (diagonal_offsets s)"
  by (simp_all add: face_offsets_def hex_offsets_def diagonal_offsets_def neg_offset_def)

lemma neg_in_offsets: "d \<in> set (step_offsets s p) \<Longrightarrow> neg_offset d \<in> set (step_offsets s p)"
  using negations(1,2) negations(3) [of s] unfolding list_all_iff step_offsets_def
  by (auto split: step_policy.splits lattice_identity.splits)

lemma neg_in_faces: "neg_offset d \<in> set face_offsets \<longleftrightarrow> d \<in> set face_offsets"
  using negations(1) unfolding list_all_iff by (metis neg_neg)

lemma neg_diagonal [simp]: "is_diagonal p (neg_offset d) = is_diagonal p d"
  by (simp add: is_diagonal_def neg_in_faces)

lemma neg_multiplier [simp]: "step_multiplier p (neg_offset d) = step_multiplier p d"
  by (simp add: step_multiplier_def)

lemma shift_inj: "shift c d = shift c d' \<longleftrightarrow> d = d'"
  by (cases d, cases d') (simp add: shift_def mk_coord3_def)

lemma diagonal_offset:
  "d \<in> set (step_offsets s p) \<Longrightarrow> is_diagonal p d \<Longrightarrow> d \<in> set (diagonal_offsets s)"
  by (auto simp: step_offsets_def is_diagonal_def split: step_policy.splits)

lemma shift_shift_diagonal:
  assumes "d \<in> set (step_offsets s p)" "is_diagonal p d"
  shows "shift (shift c d) (first_half (neg_offset d)) = shift c (second_half d)"
    "shift (shift c d) (second_half (neg_offset d)) = shift c (first_half d)"
proof -
  have "list_all (\<lambda>d. shift (shift c d) (first_half (neg_offset d)) = shift c (second_half d)
      \<and> shift (shift c d) (second_half (neg_offset d)) = shift c (first_half d)) (diagonal_offsets s)"
    by (simp add: diagonal_offsets_def shift_def first_half_def second_half_def neg_offset_def mk_coord3_def)
  then show "shift (shift c d) (first_half (neg_offset d)) = shift c (second_half d)"
    "shift (shift c d) (second_half (neg_offset d)) = shift c (first_half d)"
    using diagonal_offset [OF assms] by (simp_all only: list_all_iff)
qed

lemma distinct_offsets: "distinct (step_offsets s p)"
  by (simp add: step_offsets_def face_offsets_def hex_offsets_def diagonal_offsets_def
      split: step_policy.split lattice_identity.split)

lemma diagonal_inside:
  assumes "valid_shape s" "d \<in> set (step_offsets s p)" "is_diagonal p d" "shape_contains s c" "shape_contains s (shift c d)"
  shows "shape_contains s (shift c (first_half d))" "shape_contains s (shift c (second_half d))"
proof -
  have "list_all (\<lambda>d. shape_contains s (shift c d) \<longrightarrow>
      shape_contains s (shift c (first_half d)) \<and> shape_contains s (shift c (second_half d))) (diagonal_offsets s)"
    using assms(4)
    by (simp add: diagonal_offsets_def shift_def first_half_def second_half_def mk_coord3_def
        shape_contains_iff [OF assms(1)])
  then show "shape_contains s (shift c (first_half d))" "shape_contains s (shift c (second_half d))"
    using diagonal_offset [OF assms(2,3)] assms(5) by (simp_all only: list_all_iff simp_thms)
qed

end
