(* ===== verification/Transition_Edges.thy ===== *)
theory Transition_Edges imports Transition_Geometry begin

text \<open>
  What the enumerations of \<open>topology/transition_model.h\<close> emit, for any world that obeys the laws
  of \<open>tile_world\<close>: the locale \<open>mover_world\<close> adds a movement class valid for the world. Each
  emission is a case distinction on residency, passability, clearance and entry cost of the
  tiles involved; the reverse enumeration is the converse of the forward one.
\<close>

lemma concat_opt_eq:
  assumes "\<And>x. x \<in> set xs \<Longrightarrow> f (h x) = Some (g x)"
  shows "concat_opt f (map h xs) = Some (concat (map g xs))"
proof -
  have "fold_opt (\<lambda>x acc. map_option (\<lambda>ys. acc @ ys) (f x)) (map h xs) acc = Some (acc @ concat (map g xs))" for acc
    using assms by (induction xs arbitrary: acc) simp_all
  then show ?thesis by (simp add: concat_opt_def)
qed

lemma transition_index_defined:
  assumes "valid_shape s" "tile_key_bits s \<le> 64" "shape_contains s c"
  shows "\<exists>i. transition_index s c = Some i"
  using assms by (simp add: transition_index_def tile_key_def key_storage_is_u64_def Let_def)

text \<open>\<open>emits ps c x\<close>: the list has a probe of tile \<open>c\<close> with the price, kind and availability \<open>x\<close>.\<close>

definition probe_data :: "transition_probe \<Rightarrow> u32 \<times> transition_kind \<times> transition_availability \<times> bool" where
  "probe_data p = (tp_cost p, tp_kind p, tp_availability p, tp_cost_overflow p)"

definition emits :: "transition_probe list \<Rightarrow> coord3 \<Rightarrow> u32 \<times> transition_kind \<times> transition_availability \<times> bool \<Rightarrow> bool" where
  "emits ps c x \<longleftrightarrow> (\<exists>p \<in> set ps. tp_to p = c \<and> probe_data p = x)"

lemma emits_simps:
  "emits (ps @ qs) c x \<longleftrightarrow> emits ps c x \<or> emits qs c x"
  "emits (concat (map f ds)) c x \<longleftrightarrow> (\<exists>d \<in> set ds. emits (f d) c x)"
  by (auto simp: emits_def)

locale mover_world = tile_world A inv res page entry
  for A :: "('t, int, 'w) world_api" and inv and res and page and entry +
  fixes cls :: "'t movement_class"
  assumes class_law: "inv w \<Longrightarrow> class_ok (wa_schema A) cls"
    and policy_law: "inv w \<Longrightarrow> step_policy_for (mc_policy cls) (wa_shape A)"
    and index_law: "inv w \<Longrightarrow> tile_key_bits (wa_shape A) \<le> 64"
begin

definition pass :: "'w \<Rightarrow> coord3 \<Rightarrow> bool" where
  "pass w c = the (passable (wa_schema A) cls (page w (key_at c)) (id_at c))"

definition cost :: "'w \<Rightarrow> coord3 \<Rightarrow> u32" where
  "cost w c = the (entry_cost (wa_schema A) cls (page w (key_at c)) (id_at c))"

definition index_of :: "coord3 \<Rightarrow> u64" where
  "index_of c = the (transition_index (wa_shape A) c)"

lemma pass_cost:
  assumes "inv w" "tile_res w c"
  shows "passable (wa_schema A) cls (page w (key_at c)) (id_at c) = Some (pass w c)"
    "entry_cost (wa_schema A) cls (page w (key_at c)) (id_at c) = Some (cost w c)"
proof -
  have c: "shape_contains (wa_shape A) c" "res w (key_at c)" using assms(2) by (simp_all add: tile_res_def)
  note r = resolved [OF assms(1) c(1)]
  show "passable (wa_schema A) cls (page w (key_at c)) (id_at c) = Some (pass w c)"
    "entry_cost (wa_schema A) cls (page w (key_at c)) (id_at c) = Some (cost w c)"
    using class_defined [OF page_law [OF assms(1) r(2) c(2)] r(3) class_law [OF assms(1)]]
    by (auto simp: pass_def cost_def)
qed

lemma index_at: "inv w \<Longrightarrow> shape_contains (wa_shape A) c \<Longrightarrow> transition_index (wa_shape A) c = Some (index_of c)"
  using transition_index_defined [OF shape_ok index_law, of w w c] by (auto simp: index_of_def)

lemma try_at:
  "inv w \<Longrightarrow> shape_contains (wa_shape A) c \<Longrightarrow>
   wa_try_chunk A w (key_at c) = Some (if tile_res w c then Some (page w (key_at c)) else None)"
  by (simp add: try_chunk_law resolved(2) tile_res_def)

subsection \<open>Clearance\<close>

definition clear_at :: "'w \<Rightarrow> coord3 \<Rightarrow> clearance" where
  "clear_at w c = (if tile_res w c then if pass w c then Clear else ClearanceBlocked else ClearanceMissing)"

lemma clearance_at_eq:
  "inv w \<Longrightarrow> shape_contains (wa_shape A) c \<Longrightarrow> clearance_at A cls w c = Some (clear_at w c)"
  by (simp add: clearance_at_def resolved(1) try_at pass_cost(1) clear_at_def)

lemma clearance_at_Clear: "inv w \<Longrightarrow> clearance_at A cls w c = Some Clear \<longleftrightarrow> tile_res w c \<and> pass w c"
  by (cases "shape_contains (wa_shape A) c")
     (simp_all add: clearance_at_eq clear_at_def, simp add: clearance_at_def resolve_def tile_res_def)

definition availability :: "'w \<Rightarrow> coord3 \<Rightarrow> offset \<Rightarrow> transition_availability" where
  "availability w c d =
     (case mc_policy cls of
        DefaultSteps \<Rightarrow> Legal
      | DiagonalSteps rule \<Rightarrow>
          if is_diagonal (mc_policy cls) d
          then combine_clearance rule (clear_at w (shift c (first_half d))) (clear_at w (shift c (second_half d)))
          else Legal)"

abbreviation step :: "coord3 \<Rightarrow> offset \<Rightarrow> bool" where
  "step c d \<equiv> shape_contains (wa_shape A) c \<and> d \<in> set (step_offsets (wa_shape A) (mc_policy cls))
     \<and> shape_contains (wa_shape A) (shift c d)"

lemma clearance_availability_eq:
  assumes "inv w" "step c d"
  shows "clearance_availability A cls w (candidate_at (mc_policy cls) c d) = Some (availability w c d)"
  using diagonal_inside [OF shape_ok [OF assms(1)], of d "mc_policy cls" c] assms
  by (auto simp: clearance_availability_def availability_def candidate_at_def clearance_at_eq
      split: step_policy.splits)

lemma combine_clearance_commute: "combine_clearance r a b = combine_clearance r b a"
  by (cases r) auto

lemma availability_neg:
  assumes "step c d"
  shows "availability w (shift c d) (neg_offset d) = availability w c d"
  using shift_shift_diagonal [of d "wa_shape A" "mc_policy cls"] assms
  by (auto simp: availability_def combine_clearance_commute split: step_policy.splits)

subsection \<open>What is emitted\<close>

definition step_cost :: "'w \<Rightarrow> coord3 \<Rightarrow> offset \<Rightarrow> uint128" where
  "step_cost w cc d = u128_mul (u128_of_u64 (ucast (cost w cc)))
     (u128_of_u64 (ucast (step_multiplier (mc_policy cls) d)))"

definition regular_probes :: "'w \<Rightarrow> coord3 \<Rightarrow> offset \<Rightarrow> coord3 \<Rightarrow> transition_probe list" where
  "regular_probes w c d cc =
     (if \<not> tile_res w (shift c d) then [missing_probe Regular (shift c d) (index_of (shift c d))]
      else if \<not> pass w (shift c d) \<or> availability w c d = Blocked then []
      else if \<not> tile_res w cc then [missing_probe Regular (shift c d) (index_of (shift c d))]
      else if cost w cc = 0 then []
      else [\<lparr>tp_to = shift c d, tp_to_index = index_of (shift c d), tp_cost = saturating_u32 (step_cost w cc d),
             tp_kind = Regular, tp_availability = availability w c d,
             tp_cost_overflow = precise_overflow (step_cost w cc d)\<rparr>])"

lemma emit_candidate_eq:
  assumes "inv w" "step c d" "shape_contains (wa_shape A) cc"
  shows "emit_candidate A cls w (candidate_at (mc_policy cls) c d) cc = Some (regular_probes w c d cc)"
  using assms
  by (simp add: emit_candidate_def resolved(1) try_at pass_cost clearance_availability_eq index_at
      regular_probes_def step_cost_def Let_def candidate_at_def [of _ _ d, THEN arg_cong [of _ _ rc_multiplier]])

definition special_probes :: "'w \<Rightarrow> special_candidate \<Rightarrow> coord3 \<Rightarrow> transition_probe list" where
  "special_probes w k dest =
     (if \<not> shape_contains (wa_shape A) (sc_to k) then []
      else if sc_missing_topology k \<or> \<not> tile_res w (sc_to k)
      then [missing_probe Special (sc_to k) (index_of (sc_to k))]
      else if \<not> pass w (sc_to k) \<or> \<not> tile_res w dest \<or> cost w dest = 0 \<or> sc_cost k = 0 then []
      else let precise = u128_mul (u128_of_u64 (ucast (sc_cost k))) (u128_of_u64 (ucast (cost_scale (mc_policy cls))))
           in [\<lparr>tp_to = sc_to k, tp_to_index = index_of (sc_to k), tp_cost = saturating_u32 precise,
                tp_kind = Special, tp_availability = Legal, tp_cost_overflow = precise_overflow precise\<rparr>])"

lemma emit_special_eq:
  assumes "inv w" "shape_contains (wa_shape A) dest \<or> dest = sc_to k"
  shows "emit_special_candidate A cls w k dest = Some (special_probes w k dest)"
  using assms
  by (auto simp: emit_special_candidate_def special_probes_def index_at resolved(1) try_at pass_cost Let_def)

definition steps :: "coord3 \<Rightarrow> offset list" where
  "steps c = filter (\<lambda>d. shape_contains (wa_shape A) (shift c d)) (step_offsets (wa_shape A) (mc_policy cls))"

lemma in_steps: "shape_contains (wa_shape A) c \<Longrightarrow> d \<in> set (steps c) \<longleftrightarrow> step c d"
  by (auto simp: steps_def)

lemma candidates_eq:
  "inv w \<Longrightarrow> shape_contains (wa_shape A) c \<Longrightarrow>
   regular_candidates (wa_shape A) (mc_policy cls) c = map (candidate_at (mc_policy cls) c) (steps c)"
  unfolding steps_def by (rule regular_candidates_eq [OF shape_ok])

lemma forward_eq:
  assumes "inv w" "shape_contains (wa_shape A) c" "provider_forward pr w c = Some ks"
  shows "for_each_forward A cls pr w c =
    Some (concat (map (\<lambda>d. regular_probes w c d (shift c d)) (steps c))
          @ concat (map (\<lambda>k. special_probes w k (sc_to k)) ks))"
proof -
  have reg: "concat_opt (\<lambda>k. emit_candidate A cls w k (rc_to k)) (map (candidate_at (mc_policy cls) c) (steps c))
      = Some (concat (map (\<lambda>d. regular_probes w c d (shift c d)) (steps c)))"
    by (rule concat_opt_eq) (use in_steps [OF assms(2)] emit_candidate_eq [OF assms(1)] in simp)
  have "concat_opt (\<lambda>k. emit_special_candidate A cls w k (sc_to k)) (map (\<lambda>k. k) ks)
      = Some (concat (map (\<lambda>k. special_probes w k (sc_to k)) ks))"
    by (rule concat_opt_eq) (simp add: emit_special_eq [OF assms(1)])
  with reg show ?thesis by (simp add: for_each_forward_def candidates_eq [OF assms(1,2)] assms(3))
qed

lemma reverse_eq:
  assumes "inv w" "tile_res w c" "pass w c" "provider_reverse pr w c = Some ks"
  shows "for_each_reverse A cls pr w c =
    Some (concat (map (\<lambda>d. regular_probes w c d c) (steps c)) @ concat (map (\<lambda>k. special_probes w k c) ks))"
proof -
  have c: "shape_contains (wa_shape A) c" using assms(2) by (simp add: tile_res_def)
  have reg: "concat_opt (\<lambda>k. emit_candidate A cls w k c) (map (candidate_at (mc_policy cls) c) (steps c))
      = Some (concat (map (\<lambda>d. regular_probes w c d c) (steps c)))"
    by (rule concat_opt_eq) (use in_steps [OF c] emit_candidate_eq [OF assms(1) _ c] in simp)
  have "concat_opt (\<lambda>k. emit_special_candidate A cls w k c) (map (\<lambda>k. k) ks)
      = Some (concat (map (\<lambda>k. special_probes w k c) ks))"
    by (rule concat_opt_eq) (simp add: emit_special_eq [OF assms(1)] c)
  with reg show ?thesis
    by (simp add: for_each_reverse_def c resolved(1) [OF assms(1) c] try_at [OF assms(1) c] assms(2,4)
        pass_cost(1) [OF assms(1,2)] assms(3) candidates_eq [OF assms(1) c])
qed

lemma reverse_blocked:
  "inv w \<Longrightarrow> \<not> (tile_res w c \<and> pass w c) \<Longrightarrow> for_each_reverse A cls pr w c = Some []"
  by (cases "shape_contains (wa_shape A) c"; cases "tile_res w c")
     (simp_all add: for_each_reverse_def resolved(1) try_at pass_cost(1))

subsection \<open>Reversal\<close>

lemma regular_to: "emits (regular_probes w c d cc) c' x \<Longrightarrow> c' = shift c d"
  by (auto simp: emits_def regular_probes_def missing_probe_def split: if_splits)

lemma regular_reversed:
  assumes "step c d" "tile_res w c" "pass w c" "tile_res w (shift c d)" "pass w (shift c d)"
  shows "emits (regular_probes w c d (shift c d)) (shift c d) x \<longleftrightarrow>
    emits (regular_probes w (shift c d) (neg_offset d) (shift c d)) c x"
  using assms availability_neg [OF assms(1), of w]
  by (simp add: emits_def regular_probes_def probe_data_def step_cost_def)

lemma special_reversed:
  assumes "tile_res w a" "pass w a" "tile_res w b" "pass w b"
  shows "emits (special_probes w \<lparr>sc_to = b, sc_cost = n, sc_missing_topology = m\<rparr> b) b x \<longleftrightarrow>
    emits (special_probes w \<lparr>sc_to = a, sc_cost = n, sc_missing_topology = m\<rparr> b) a x"
  using assms by (auto simp: emits_def special_probes_def probe_data_def missing_probe_def Let_def tile_res_def)

lemma special_to: "emits (special_probes w k cc) c' x \<Longrightarrow> c' = sc_to k"
  by (auto simp: emits_def special_probes_def missing_probe_def Let_def split: if_splits)

lemma forward_reverse:
  assumes "inv w" "tile_res w a" "pass w a" "tile_res w b" "pass w b"
    and "provider_forward pr w a = Some fk" "provider_reverse pr w b = Some rk"
    and conv: "\<And>n m. \<lparr>sc_to = b, sc_cost = n, sc_missing_topology = m\<rparr> \<in> set fk
      \<longleftrightarrow> \<lparr>sc_to = a, sc_cost = n, sc_missing_topology = m\<rparr> \<in> set rk"
  shows "\<exists>fw rv. for_each_forward A cls pr w a = Some fw \<and> for_each_reverse A cls pr w b = Some rv
    \<and> (\<forall>x. emits fw b x \<longleftrightarrow> emits rv a x)"
proof -
  have ab: "shape_contains (wa_shape A) a" "shape_contains (wa_shape A) b"
    using assms(2,4) by (simp_all add: tile_res_def)
  have reg: "(\<exists>d \<in> set (steps a). emits (regular_probes w a d (shift a d)) b x)
      \<longleftrightarrow> (\<exists>d \<in> set (steps b). emits (regular_probes w b d b) a x)" for x
  proof
    assume "\<exists>d \<in> set (steps a). emits (regular_probes w a d (shift a d)) b x"
    then obtain d where d: "step a d" "emits (regular_probes w a d (shift a d)) b x"
      using in_steps [OF ab(1)] by blast
    have b: "b = shift a d" using regular_to [OF d(2)] .
    have "neg_offset d \<in> set (steps b)" using d(1) b ab neg_in_offsets [of d] by (simp add: in_steps)
    moreover have "emits (regular_probes w b (neg_offset d) b) a x"
      using regular_reversed [OF d(1) assms(2,3)] d(2) assms(4,5) b by simp
    ultimately show "\<exists>d \<in> set (steps b). emits (regular_probes w b d b) a x" by blast
  next
    assume "\<exists>d \<in> set (steps b). emits (regular_probes w b d b) a x"
    then obtain d where d: "step b d" "emits (regular_probes w b d b) a x"
      using in_steps [OF ab(2)] by blast
    have a: "a = shift b d" using regular_to [OF d(2)] .
    have s: "step a (neg_offset d)" using d(1) a ab neg_in_offsets [of d] by simp
    have b: "shift a (neg_offset d) = b" by (simp add: a)
    have "emits (regular_probes w a (neg_offset d) b) b x"
      using regular_reversed [OF s assms(2,3)] d(2) assms(4,5) b by simp
    then show "\<exists>d \<in> set (steps a). emits (regular_probes w a d (shift a d)) b x"
      using s in_steps [OF ab(1)] b by (intro bexI [of _ "neg_offset d"]) simp_all
  qed
  have spec: "(\<exists>k \<in> set fk. emits (special_probes w k (sc_to k)) b x)
      \<longleftrightarrow> (\<exists>k \<in> set rk. emits (special_probes w k b) a x)" for x
  proof
    assume "\<exists>k \<in> set fk. emits (special_probes w k (sc_to k)) b x"
    then obtain k where k: "k \<in> set fk" "emits (special_probes w k (sc_to k)) b x" by blast
    have kb: "sc_to k = b" using special_to [OF k(2)] by simp
    obtain n m where nm: "k = \<lparr>sc_to = b, sc_cost = n, sc_missing_topology = m\<rparr>" using kb by (cases k) simp
    show "\<exists>k \<in> set rk. emits (special_probes w k b) a x"
      using k conv [of n m] special_reversed [OF assms(2-5), of n m x] nm kb
      by (intro bexI [of _ "\<lparr>sc_to = a, sc_cost = n, sc_missing_topology = m\<rparr>"]) simp_all
  next
    assume "\<exists>k \<in> set rk. emits (special_probes w k b) a x"
    then obtain k where k: "k \<in> set rk" "emits (special_probes w k b) a x" by blast
    have ka: "sc_to k = a" using special_to [OF k(2)] by simp
    obtain n m where nm: "k = \<lparr>sc_to = a, sc_cost = n, sc_missing_topology = m\<rparr>" using ka by (cases k) simp
    show "\<exists>k \<in> set fk. emits (special_probes w k (sc_to k)) b x"
      using k conv [of n m] special_reversed [OF assms(2-5), of n m x] nm
      by (intro bexI [of _ "\<lparr>sc_to = b, sc_cost = n, sc_missing_topology = m\<rparr>"]) simp_all
  qed
  show ?thesis
    unfolding forward_eq [OF assms(1) ab(1) assms(6)] reverse_eq [OF assms(1,4,5,7)]
    by (simp add: emits_simps reg spec)
qed

end

end
