(* ===== verification/Stair_Transitions.thy ===== *)
theory Stair_Transitions imports Transition_Edges begin

text \<open>
  The built-in vertical provider \<open>StairTransitions\<close> of \<open>topology/transition_provider.h\<close>. An integral
  field marks the foot of a stair; its landing is one step sideways and one level up, and the
  stair can be walked both ways. The provider enumerates stairs by tile, for exact search, and by
  chunk, for the region graph; the theory shows that both enumerations give the same edges.
\<close>

datatype stair_direction = StairNone | PositiveX | NegativeX | PositiveY | NegativeY

text \<open>A value outside the range of the enumeration reads as \<open>None\<close>, before any narrowing.\<close>

definition stair_of_value :: "int \<Rightarrow> stair_direction" where
  "stair_of_value v =
     (if v \<le> 0 then StairNone
      else if 4 < (word_of_int v :: u64) then StairNone
      else let b = (word_of_int v :: 8 word) in
        if b = 1 then PositiveX else if b = 2 then NegativeX
        else if b = 3 then PositiveY else if b = 4 then NegativeY else StairNone)"

definition landing_of :: "coord3 \<Rightarrow> stair_direction \<Rightarrow> coord3 option" where
  "landing_of foot d =
     (let up = foot\<lparr>co_z := co_z foot + 1\<rparr> in
      case d of
        PositiveX \<Rightarrow> Some (up\<lparr>co_x := co_x foot + 1\<rparr>)
      | NegativeX \<Rightarrow> Some (up\<lparr>co_x := co_x foot - 1\<rparr>)
      | PositiveY \<Rightarrow> Some (up\<lparr>co_y := co_y foot + 1\<rparr>)
      | NegativeY \<Rightarrow> Some (up\<lparr>co_y := co_y foot - 1\<rparr>)
      | StairNone \<Rightarrow> None)"

definition chunk_crossings :: "shape \<Rightarrow> coord3 \<Rightarrow> coord3 \<Rightarrow> nat" where
  "chunk_crossings s a b =
     (let ca = chunk_coord s a; cb = chunk_coord s b in
      (if cc_x ca \<noteq> cc_x cb then 1 else 0) + (if cc_y ca \<noteq> cc_y cb then 1 else 0)
      + (if cc_z ca \<noteq> cc_z cb then 1 else 0))"

definition checked_landing :: "shape \<Rightarrow> coord3 \<Rightarrow> int \<Rightarrow> coord3 option" where
  "checked_landing s foot v =
     (case landing_of foot (stair_of_value v) of
        None \<Rightarrow> None
      | Some landing \<Rightarrow>
          if \<not> shape_contains s landing then None
          else if chunk_crossings s foot landing \<le> 1 then Some landing else None)"

text \<open>The inner \<^const>\<open>None\<close> is the answer \<open>false\<close>.\<close>

definition try_landing :: "('t, 'w) tile_api \<Rightarrow> 't \<Rightarrow> 'w \<Rightarrow> coord3 \<Rightarrow> coord3 option option" where
  "try_landing A tag w foot =
     (if \<not> shape_contains (wa_shape A) foot then Some None
      else do {
        r \<leftarrow> resolve (wa_shape A) foot;
        page \<leftarrow> wa_try_chunk A w (rt_chunk_key r);
        case page of
          None \<Rightarrow> Some None
        | Some p \<Rightarrow> map_option (checked_landing (wa_shape A) foot)
                     (page_field (wa_schema A) tag p (rt_local_tile_id r))
      })"

definition special_to :: "coord3 \<Rightarrow> bool \<Rightarrow> special_candidate" where
  "special_to c missing = \<lparr>sc_to = c, sc_cost = 1, sc_missing_topology = missing\<rparr>"

definition probe_foot :: "('t, 'w) tile_api \<Rightarrow> 't \<Rightarrow> 'w \<Rightarrow> coord3 \<Rightarrow> coord3 \<Rightarrow> special_candidate list option" where
  "probe_foot A tag w from foot =
     (if \<not> shape_contains (wa_shape A) foot then Some []
      else do {
        r \<leftarrow> resolve (wa_shape A) foot;
        page \<leftarrow> wa_try_chunk A w (rt_chunk_key r);
        case page of
          None \<Rightarrow> Some [special_to foot True]
        | Some p \<Rightarrow> map_option (\<lambda>l. if l = Some from then [special_to foot False] else [])
                     (try_landing A tag w foot)
      })"

definition for_each_from :: "('t, 'w) tile_api \<Rightarrow> 't \<Rightarrow> 'w \<Rightarrow> coord3 \<Rightarrow> special_candidate list option" where
  "for_each_from A tag w from =
     (if \<not> shape_contains (wa_shape A) from then Some []
      else do {
        landing \<leftarrow> try_landing A tag w from;
        let up = (case landing of None \<Rightarrow> [] | Some l \<Rightarrow> [special_to l False]);
        if co_z from = 0 then Some up
        else do {
          let z = co_z from - 1;
          down \<leftarrow> concat_opt (probe_foot A tag w from)
            [mk_coord3 (co_x from - 1) (co_y from) z, mk_coord3 (co_x from + 1) (co_y from) z,
             mk_coord3 (co_x from) (co_y from - 1) z, mk_coord3 (co_x from) (co_y from + 1) z];
          Some (up @ down)
        }
      })"

definition stair_provider :: "('t, 'w) tile_api \<Rightarrow> 't \<Rightarrow> 'w provider" where
  "stair_provider A tag = Provider
     \<lparr>pc_forward = for_each_from A tag, pc_reverse = for_each_from A tag, pc_revision = 0, pc_maximum_cost = Some 1\<rparr>"

subsection \<open>Enumeration by chunk\<close>

definition local_coord_of :: "shape \<Rightarrow> u64 \<Rightarrow> coord3" where
  "local_coord_of s raw =
     (let xy = ext_x (shape_chunk s) * ext_y (shape_chunk s);
          z = raw div xy;
          rest = raw mod xy
      in mk_coord3 (rest mod ext_x (shape_chunk s)) (rest div ext_x (shape_chunk s)) z)"

definition feet_at :: "shape \<Rightarrow> chunk_key \<Rightarrow> chunk_key \<Rightarrow> u64 \<Rightarrow> int \<Rightarrow> (coord3 \<times> coord3) list" where
  "feet_at s foot_chunk origin_chunk raw v =
     (let o_c = chunk_coord_of_key s foot_chunk;
          l = local_coord_of s raw;
          foot = mk_coord3 (cc_x o_c * ext_x (shape_chunk s) + co_x l)
                           (cc_y o_c * ext_y (shape_chunk s) + co_y l)
                           (cc_z o_c * ext_z (shape_chunk s) + co_z l)
      in case checked_landing s foot v of
           None \<Rightarrow> []
         | Some landing \<Rightarrow>
             let landing_chunk = chunk_key s (chunk_coord s landing) in
             if foot_chunk = origin_chunk
             then (foot, landing) # (if landing_chunk = origin_chunk then [(landing, foot)] else [])
             else if landing_chunk = origin_chunk then [(landing, foot)] else [])"

definition emit_for_feet ::
    "('t, 'w) tile_api \<Rightarrow> 't \<Rightarrow> 'w \<Rightarrow> chunk_key \<Rightarrow> chunk_key \<Rightarrow> (coord3 \<times> coord3) list option" where
  "emit_for_feet A tag w foot_chunk origin_chunk = do {
     p \<leftarrow> wa_chunk A w foot_chunk;
     concat_opt (\<lambda>i. map_option (feet_at (wa_shape A) foot_chunk origin_chunk (of_nat i))
         (page_field (wa_schema A) tag p (LocalTileId (of_nat i))))
       [0..<unat (local_tile_count (wa_shape A))]
   }"

definition scan_foot_chunk ::
    "('t, 'w) tile_api \<Rightarrow> 't \<Rightarrow> 'w \<Rightarrow> chunk_key \<Rightarrow> chunk_coord3 \<Rightarrow> (coord3 \<times> coord3) list option" where
  "scan_foot_chunk A tag w chunk neighbor = do {
     let key = chunk_key (wa_shape A) neighbor;
     resident \<leftarrow> (if wa_sparse A then wa_is_resident A w key else Some True);
     if \<not> resident then Some [] else emit_for_feet A tag w key chunk
   }"

definition foot_neighbors :: "shape \<Rightarrow> chunk_coord3 \<Rightarrow> chunk_coord3 list" where
  "foot_neighbors s c =
     (if 0 < cc_z c then [c\<lparr>cc_z := cc_z c - 1\<rparr>] else [])
     @ (if 0 < cc_x c then [c\<lparr>cc_x := cc_x c - 1\<rparr>] else [])
     @ (if cc_x c + 1 < chunk_count_x s then [c\<lparr>cc_x := cc_x c + 1\<rparr>] else [])
     @ (if 0 < cc_y c then [c\<lparr>cc_y := cc_y c - 1\<rparr>] else [])
     @ (if cc_y c + 1 < chunk_count_y s then [c\<lparr>cc_y := cc_y c + 1\<rparr>] else [])"

definition for_each_transition ::
    "('t, 'w) tile_api \<Rightarrow> 't \<Rightarrow> 'w \<Rightarrow> chunk_key \<Rightarrow> (coord3 \<times> coord3) list option" where
  "for_each_transition A tag w chunk = do {
     own \<leftarrow> emit_for_feet A tag w chunk chunk;
     others \<leftarrow> concat_opt (scan_foot_chunk A tag w chunk)
       (foot_neighbors (wa_shape A) (chunk_coord_of_key (wa_shape A) chunk));
     Some (own @ others)
   }"

subsection \<open>The landing of a foot\<close>

lemma foot_coord:
  "(let o_c = chunk_coord_of_key s k; l = local_coord_of s raw
    in mk_coord3 (cc_x o_c * ext_x (shape_chunk s) + co_x l) (cc_y o_c * ext_y (shape_chunk s) + co_y l)
         (cc_z o_c * ext_z (shape_chunk s) + co_z l))
   = coord_of s (chunk_coord_of_key s k) (LocalTileId raw)"
  by (simp add: coord_of_def local_coord_of_def mk_coord3_def Let_def)

lemma feet_at_eq:
  "feet_at s k origin raw v =
     (let foot = coord_of s (chunk_coord_of_key s k) (LocalTileId raw) in
      case checked_landing s foot v of
        None \<Rightarrow> []
      | Some landing \<Rightarrow>
          (if k = origin then [(foot, landing)] else [])
          @ (if chunk_key s (chunk_coord s landing) = origin then [(landing, foot)] else []))"
  unfolding feet_at_def foot_coord [symmetric] Let_def by (simp split: option.split)

text \<open>A foot lies one level below its landing, at one of four places.\<close>

lemma landing_places:
  assumes "landing_of foot d = Some l"
  shows "co_z l = co_z foot + 1"
    "foot \<in> {mk_coord3 (co_x l - 1) (co_y l) (co_z l - 1), mk_coord3 (co_x l + 1) (co_y l) (co_z l - 1),
             mk_coord3 (co_x l) (co_y l - 1) (co_z l - 1), mk_coord3 (co_x l) (co_y l + 1) (co_z l - 1)}"
  using assms by (cases d; cases foot; auto simp: landing_of_def mk_coord3_def Let_def)+

lemma checked_landingD:
  assumes "checked_landing s foot v = Some l"
  shows "shape_contains s l" "chunk_crossings s foot l \<le> 1" "\<exists>d. landing_of foot d = Some l"
  using assms by (auto simp: checked_landing_def split: option.splits if_splits)

lemma step_div:
  "(x + 1) div c \<in> {x div c, x div c + (1 :: nat)}"
  "x div c \<in> {(x - 1) div c, (x - 1) div c + (1 :: nat)}"
proof -
  have *: "(x + 1) div c \<in> {x div c, x div c + 1}" for x by (cases "c = 0") (auto simp: div_Suc)
  show "(x + 1) div c \<in> {x div c, x div c + 1}" by (rule *)
  show "x div c \<in> {(x - 1) div c, (x - 1) div c + 1}" using * [of "x - 1"] by (cases x) auto
qed

lemma landing_axes:
  assumes "valid_shape s" "shape_contains s f" "shape_contains s l" "landing_of f d = Some l"
  shows "unat (co_z l) = unat (co_z f) + 1"
    "co_y l = co_y f \<and> (unat (co_x l) = unat (co_x f) + 1 \<or> unat (co_x f) = unat (co_x l) + 1)
     \<or> co_x l = co_x f \<and> (unat (co_y l) = unat (co_y f) + 1 \<or> unat (co_y f) = unat (co_y l) + 1)"
proof -
  have small: "unat (co_x c) < 2 ^ 63" "unat (co_y c) < 2 ^ 63" "unat (co_z c) < 2 ^ 63"
    if "shape_contains s c" for c
    using that size_dims [OF assms(1)] by (simp_all add: shape_contains_iff [OF assms(1)])
  have up: "unat (v + 1 :: u64) = unat v + 1" if "unat v < 2 ^ 63" for v
    using that by (simp add: unat_add_u64)
  have down: "unat u = unat v + 1" if "v = u - 1" "unat v < 2 ^ 63" for u v :: u64
    using up [OF that(2)] that(1) by simp
  note f = small [OF assms(2)] and l = small [OF assms(3)]
  show "unat (co_z l) = unat (co_z f) + 1" using landing_places(1) [OF assms(4)] up [OF f(3)] by simp
  show "co_y l = co_y f \<and> (unat (co_x l) = unat (co_x f) + 1 \<or> unat (co_x f) = unat (co_x l) + 1)
     \<or> co_x l = co_x f \<and> (unat (co_y l) = unat (co_y f) + 1 \<or> unat (co_y f) = unat (co_y l) + 1)"
  proof (cases d)
    case PositiveX
    then have "co_x l = co_x f + 1" "co_y l = co_y f" using assms(4) by (auto simp: landing_of_def Let_def)
    then show ?thesis using up [OF f(1)] by simp
  next
    case NegativeX
    then have "co_x l = co_x f - 1" "co_y l = co_y f" using assms(4) by (auto simp: landing_of_def Let_def)
    then show ?thesis using down [OF _ l(1)] by blast
  next
    case PositiveY
    then have "co_y l = co_y f + 1" "co_x l = co_x f" using assms(4) by (auto simp: landing_of_def Let_def)
    then show ?thesis using up [OF f(2)] by simp
  next
    case NegativeY
    then have "co_y l = co_y f - 1" "co_x l = co_x f" using assms(4) by (auto simp: landing_of_def Let_def)
    then show ?thesis using down [OF _ l(2)] by blast
  qed (use assms(4) in \<open>simp add: landing_of_def\<close>)
qed

text \<open>A stair that leaves its chunk leaves it through one of the five faces that are scanned.\<close>

lemma foot_chunk_is_neighbor:
  assumes "valid_shape s" "shape_contains s f" "shape_contains s l" "landing_of f d = Some l"
    and "chunk_crossings s f l \<le> 1" "chunk_coord s f \<noteq> chunk_coord s l"
  shows "chunk_coord s f \<in> set (foot_neighbors s (chunk_coord s l))"
proof -
  let ?F = "chunk_coord s f" and ?L = "chunk_coord s l"
  note nat = chunk_coord_nat [of s]
  note ax = landing_axes [OF assms(1-4)]
  have range: "unat (cc_x ?F) < nx s" "unat (cc_y ?F) < ny s"
    using coords_in_range(1) [OF assms(1,2)] by (simp_all add: chunk_in_range_def)
  have small: "unat v + 1 < 2 ^ 64" if "unat v < unat (u :: u64)" for u v :: u64
    using that u64_less [of u] by linarith
  have succ: "v = u + 1" "0 < v" "u = v - 1" if "unat v = unat u + 1" for u v :: u64
  proof -
    show v: "v = u + 1" using that u64_less [of v] by (simp add: u64_eq_nat unat_add_u64)
    show "0 < v" using that by (simp add: word_greater_zero_iff unat_gt_0 [symmetric])
    show "u = v - 1" by (simp add: v)
  qed
  have z: "cc_z ?L = cc_z ?F \<or> unat (cc_z ?L) = unat (cc_z ?F) + 1"
    using step_div(1) [of "unat (co_z f)" "cz s"] ax(1) by (auto simp: nat u64_eq_nat)
  have x: "cc_x ?L = cc_x ?F \<or> unat (cc_x ?L) = unat (cc_x ?F) + 1 \<or> unat (cc_x ?F) = unat (cc_x ?L) + 1"
    using step_div(1) [of "unat (co_x f)" "cx s"] step_div(1) [of "unat (co_x l)" "cx s"] ax(2)
    by (auto simp: nat u64_eq_nat)
  have y: "cc_y ?L = cc_y ?F \<or> unat (cc_y ?L) = unat (cc_y ?F) + 1 \<or> unat (cc_y ?F) = unat (cc_y ?L) + 1"
    using step_div(1) [of "unat (co_y f)" "cy s"] step_div(1) [of "unat (co_y l)" "cy s"] ax(2)
    by (auto simp: nat u64_eq_nat)
  have eq: "cc_x ?F = cc_x ?L \<Longrightarrow> cc_y ?F = cc_y ?L \<Longrightarrow> cc_z ?F = cc_z ?L \<Longrightarrow> False"
    using assms(6) by (metis chunk_coord3_eqI)
  have one: "(if cc_x ?F \<noteq> cc_x ?L then 1 else 0) + (if cc_y ?F \<noteq> cc_y ?L then 1 else 0)
      + (if cc_z ?F \<noteq> cc_z ?L then 1 else 0) \<le> (1 :: nat)"
    using assms(5) by (simp only: chunk_crossings_def Let_def)
  have upd: "?F = ?L\<lparr>cc_z := cc_z ?F\<rparr>" if "cc_x ?F = cc_x ?L" "cc_y ?F = cc_y ?L"
    using that by (cases ?F, cases ?L) simp
  have updx: "?F = ?L\<lparr>cc_x := cc_x ?F\<rparr>" if "cc_z ?F = cc_z ?L" "cc_y ?F = cc_y ?L"
    using that by (cases ?F, cases ?L) simp
  have updy: "?F = ?L\<lparr>cc_y := cc_y ?F\<rparr>" if "cc_z ?F = cc_z ?L" "cc_x ?F = cc_x ?L"
    using that by (cases ?F, cases ?L) simp
  consider (z) "cc_x ?F = cc_x ?L" "cc_y ?F = cc_y ?L" "cc_z ?F \<noteq> cc_z ?L"
    | (x) "cc_x ?F \<noteq> cc_x ?L" "cc_y ?F = cc_y ?L" "cc_z ?F = cc_z ?L"
    | (y) "cc_x ?F = cc_x ?L" "cc_y ?F \<noteq> cc_y ?L" "cc_z ?F = cc_z ?L"
    using one eq by (auto split: if_splits)
  then show ?thesis
  proof cases
    case z
    then have "unat (cc_z ?L) = unat (cc_z ?F) + 1" using \<open>cc_z ?L = cc_z ?F \<or> _\<close> by auto
    from succ [OF this] upd [OF z(1,2)] show ?thesis by (simp add: foot_neighbors_def)
  next
    case x
    then have "unat (cc_x ?L) = unat (cc_x ?F) + 1 \<or> unat (cc_x ?F) = unat (cc_x ?L) + 1"
      using \<open>cc_x ?L = cc_x ?F \<or> _\<close> by auto
    then show ?thesis
    proof
      assume "unat (cc_x ?L) = unat (cc_x ?F) + 1"
      from succ [OF this] updx [OF x(3,2)] show ?thesis by (simp add: foot_neighbors_def)
    next
      assume e: "unat (cc_x ?F) = unat (cc_x ?L) + 1"
      have "cc_x ?F < chunk_count_x s" using range(1) by (simp add: u64_less_nat nx_def)
      with succ [OF e] updx [OF x(3,2)] show ?thesis by (simp add: foot_neighbors_def)
    qed
  next
    case y
    then have "unat (cc_y ?L) = unat (cc_y ?F) + 1 \<or> unat (cc_y ?F) = unat (cc_y ?L) + 1"
      using \<open>cc_y ?L = cc_y ?F \<or> _\<close> by auto
    then show ?thesis
    proof
      assume "unat (cc_y ?L) = unat (cc_y ?F) + 1"
      from succ [OF this] updy [OF y(3,1)] show ?thesis by (simp add: foot_neighbors_def)
    next
      assume e: "unat (cc_y ?F) = unat (cc_y ?L) + 1"
      have "cc_y ?F < chunk_count_y s" using range(2) by (simp add: u64_less_nat ny_def)
      with succ [OF e] updy [OF y(3,1)] show ?thesis by (simp add: foot_neighbors_def)
    qed
  qed
qed

lemma foot_neighbors_irrefl: "c \<notin> set (foot_neighbors s c)"
  by (cases c) (auto simp: foot_neighbors_def)

lemma foot_neighbors_in_range:
  assumes "chunk_in_range s c" "n \<in> set (foot_neighbors s c)"
  shows "chunk_in_range s n"
proof -
  have dec: "unat (v - 1 :: u64) < m" if "0 < v" "unat v < m" for v m
    using that by (simp add: unat_sub_u64 word_le_nat_alt word_less_nat_alt)
  have inc: "unat (v + 1 :: u64) < unat m" if "v + 1 < m" for v m :: u64
    using that by (simp add: word_less_nat_alt)
  show ?thesis
    using assms dec inc by (auto simp: foot_neighbors_def chunk_in_range_def nx_def ny_def split: if_splits)
qed

locale stair_world = tile_world A inv res page entry
  for A :: "('t, int, 'w) world_api" and inv and res and page and entry +
  fixes tag :: 't
  assumes tag_law: "inv w \<Longrightarrow> contains_field_tag tag (wa_schema A)"
begin

definition stair_at :: "'w \<Rightarrow> coord3 \<Rightarrow> int" where
  "stair_at w c = the (page_field (wa_schema A) tag (page w (key_at c)) (id_at c))"

definition landing :: "'w \<Rightarrow> coord3 \<Rightarrow> coord3 option" where
  "landing w c = (if tile_res w c then checked_landing (wa_shape A) c (stair_at w c) else None)"

lemma stair_field:
  assumes "inv w" "tile_res w c"
  shows "page_field (wa_schema A) tag (page w (key_at c)) (id_at c) = Some (stair_at w c)"
proof -
  have c: "shape_contains (wa_shape A) c" "res w (key_at c)" using assms(2) by (simp_all add: tile_res_def)
  note r = resolved [OF assms(1) c(1)]
  show ?thesis
    using page_defined(1) [OF page_law [OF assms(1) r(2) c(2)] tag_law [OF assms(1)] r(3)]
    by (auto simp: stair_at_def)
qed

lemma try_here:
  "inv w \<Longrightarrow> shape_contains (wa_shape A) c \<Longrightarrow>
   wa_try_chunk A w (key_at c) = Some (if tile_res w c then Some (page w (key_at c)) else None)"
  by (simp add: try_chunk_law resolved(2) tile_res_def)

lemma try_landing_eq: "inv w \<Longrightarrow> try_landing A tag w c = Some (landing w c)"
  by (cases "shape_contains (wa_shape A) c"; cases "tile_res w c")
     (simp_all add: try_landing_def landing_def resolved(1) try_here stair_field, simp_all add: tile_res_def)

lemma landingD:
  assumes "inv w" "landing w f = Some l"
  shows "tile_res w f" "shape_contains (wa_shape A) f" "shape_contains (wa_shape A) l"
    "chunk_crossings (wa_shape A) f l \<le> 1" "\<exists>d. landing_of f d = Some l" "co_z l \<noteq> 0"
proof -
  show r: "tile_res w f" using assms(2) by (simp add: landing_def split: if_splits)
  then show f: "shape_contains (wa_shape A) f" by (simp add: tile_res_def)
  have "checked_landing (wa_shape A) f (stair_at w f) = Some l" using assms(2) r by (simp add: landing_def)
  note c = checked_landingD [OF this]
  show "shape_contains (wa_shape A) l" "chunk_crossings (wa_shape A) f l \<le> 1" "\<exists>d. landing_of f d = Some l"
    using c by simp_all
  have z: "co_z l = co_z f + 1" using c(3) landing_places(1) by blast
  have "unat (co_z f) < 2 ^ 63"
    using f size_dims [OF shape_ok [OF assms(1)]] by (simp add: shape_contains_iff [OF shape_ok [OF assms(1)]])
  then have "unat (co_z l) = unat (co_z f) + 1" by (simp add: z unat_add_u64)
  then show "co_z l \<noteq> 0" by auto
qed

definition foot_probes :: "'w \<Rightarrow> coord3 \<Rightarrow> coord3 \<Rightarrow> special_candidate list" where
  "foot_probes w c f =
     (if \<not> shape_contains (wa_shape A) f then []
      else if \<not> tile_res w f then [special_to f True]
      else if landing w f = Some c then [special_to f False] else [])"

lemma probe_foot_eq: "inv w \<Longrightarrow> probe_foot A tag w c f = Some (foot_probes w c f)"
  by (simp add: probe_foot_def foot_probes_def resolved(1) try_here try_landing_eq)

lemma from_eq:
  assumes "inv w" "shape_contains (wa_shape A) c"
  shows "\<exists>ks. for_each_from A tag w c = Some ks
    \<and> (\<forall>b m. tile_res w b \<longrightarrow> special_to b m \<in> set ks \<longleftrightarrow> \<not> m \<and> (landing w c = Some b \<or> landing w b = Some c))
    \<and> (\<forall>k \<in> set ks. sc_cost k = 1)"
proof -
  let ?places = "[mk_coord3 (co_x c - 1) (co_y c) (co_z c - 1), mk_coord3 (co_x c + 1) (co_y c) (co_z c - 1),
             mk_coord3 (co_x c) (co_y c - 1) (co_z c - 1), mk_coord3 (co_x c) (co_y c + 1) (co_z c - 1)]"
  let ?up = "case landing w c of None \<Rightarrow> [] | Some l \<Rightarrow> [special_to l False]"
  let ?down = "if co_z c = 0 then [] else concat (map (foot_probes w c) ?places)"
  have down: "concat_opt (probe_foot A tag w c) (map (\<lambda>f. f) ?places) = Some (concat (map (foot_probes w c) ?places))"
    by (rule concat_opt_eq) (simp add: probe_foot_eq [OF assms(1)])
  have eq: "for_each_from A tag w c = Some (?up @ ?down)"
    using down by (simp add: for_each_from_def assms(2) try_landing_eq [OF assms(1)] Let_def)
  have up: "special_to b m \<in> set ?up \<longleftrightarrow> \<not> m \<and> landing w c = Some b" for b m
    by (auto simp: special_to_def split: option.splits)
  have dn: "special_to b m \<in> set ?down \<longleftrightarrow> \<not> m \<and> landing w b = Some c" if b: "tile_res w b" for b m
  proof
    assume "special_to b m \<in> set ?down"
    then show "\<not> m \<and> landing w b = Some c" using b by (auto simp: foot_probes_def special_to_def split: if_splits)
  next
    assume l: "\<not> m \<and> landing w b = Some c"
    then have l: "\<not> m" and lb: "landing w b = Some c" by simp_all
    obtain d where "landing_of b d = Some c" using landingD(5) [OF assms(1) lb] by blast
    then have "b \<in> set ?places" using landing_places(2) by fastforce
    moreover have "foot_probes w c b = [special_to b m]"
      using l lb b landingD(2) [OF assms(1) lb] by (simp add: foot_probes_def)
    then have "special_to b m \<in> set (foot_probes w c b)" by simp
    ultimately have "special_to b m \<in> set (concat (map (foot_probes w c) ?places))"
      unfolding set_concat set_map by blast
    then show "special_to b m \<in> set ?down" using landingD(6) [OF assms(1) lb] by simp
  qed
  have join: "x \<in> set (xs @ ys) \<longleftrightarrow> P \<and> (Q \<or> R)"
    if "x \<in> set xs \<longleftrightarrow> P \<and> Q" "x \<in> set ys \<longleftrightarrow> P \<and> R" for x :: special_candidate and xs ys P Q R
    using that by auto
  have "special_to b m \<in> set (?up @ ?down) \<longleftrightarrow> \<not> m \<and> (landing w c = Some b \<or> landing w b = Some c)"
    if "tile_res w b" for b m
    by (rule join [OF up dn [OF that]])
  moreover have "sc_cost k = 1" if "k \<in> set (foot_probes w c f)" for k f
    using that by (auto simp: special_to_def foot_probes_def split: if_splits)
  then have "\<forall>k \<in> set (?up @ ?down). sc_cost k = 1"
    by (auto simp: special_to_def split: option.splits)
  ultimately show ?thesis by (intro exI [of _ "?up @ ?down"] conjI eq allI impI)
qed

subsection \<open>The chunk enumeration\<close>

lemma feet_eq:
  assumes "inv w" "dense_valid_key (wa_shape A) k" "res w k"
  shows "\<exists>ps. emit_for_feet A tag w k origin = Some ps
    \<and> (\<forall>a b. (a, b) \<in> set ps \<longleftrightarrow>
         (k = origin \<and> key_at a = k \<and> landing w a = Some b)
         \<or> (key_at a = origin \<and> key_at b = k \<and> landing w b = Some a))"
proof -
  let ?s = "wa_shape A" and ?n = "unat (local_tile_count (wa_shape A))"
  note v = shape_ok [OF assms(1)]
  define tile where "tile i = coord_of ?s (chunk_coord_of_key ?s k) (LocalTileId (of_nat i))" for i
  have kin: "unat (key_value k) < nx ?s * ny ?s * nz ?s"
    using assms(2) by (simp add: dense_valid_key_def u64_less_nat count_dims(5) [OF v])
  note cin = chunk_coord_of_key_nat(4) [OF v kin]
  have small: "unat (of_nat i :: u64) = i" if "i < ?n" for i
    using that u64_less [of "local_tile_count ?s"] by (simp add: unsigned_of_nat take_bit_nat_eq_self)
  have tile: "shape_contains ?s (tile i)" "key_at (tile i) = k" "id_at (tile i) = LocalTileId (of_nat i)"
      "tile_res w (tile i)" if "i < ?n" for i
  proof -
    have l: "unat (tile_value (LocalTileId (of_nat i))) < cx ?s * cy ?s * cz ?s"
      using small [OF that] that by (simp add: count_dims(6) [OF v])
    note co = coord_of_in_shape [OF v cin l, folded tile_def]
    show "shape_contains ?s (tile i)" "key_at (tile i) = k" "id_at (tile i) = LocalTileId (of_nat i)"
      using co chunk_key_round(2) [OF v kin] by simp_all
    with assms(3) show "tile_res w (tile i)" by (simp add: tile_res_def)
  qed
  have onto: "\<exists>i < ?n. tile i = c" if "shape_contains ?s c" "key_at c = k" for c
  proof (intro exI conjI)
    show "unat (tile_value (id_at c)) < ?n" using resolved(3) [OF assms(1) that(1)] by (simp add: u64_less_nat)
    have "chunk_coord_of_key ?s k = chunk_coord ?s c"
      using chunk_key_round(1) [OF v coords_in_range(1) [OF v that(1)]] that(2) by simp
    then show "tile (unat (tile_value (id_at c))) = c"
      using coord_of_chunk_local [OF v that(1)] by (simp add: tile_def)
  qed
  let ?g = "\<lambda>i. feet_at ?s k origin (of_nat i) (stair_at w (tile i))"
  have pg: "wa_chunk A w k = Some (page w k)" using chunk_law [OF assms(1,2)] assms(3) by simp
  have "page_field (wa_schema A) tag (page w k) (LocalTileId (of_nat i)) = Some (stair_at w (tile i))"
    if "i < ?n" for i
    using stair_field [OF assms(1) tile(4) [OF that]] tile(2,3) [OF that] by simp
  then have "concat_opt (\<lambda>i. map_option (feet_at ?s k origin (of_nat i))
         (page_field (wa_schema A) tag (page w k) (LocalTileId (of_nat i)))) (map (\<lambda>i. i) [0..<?n])
      = Some (concat (map ?g [0..<?n]))"
    by (intro concat_opt_eq) simp
  then have eq: "emit_for_feet A tag w k origin = Some (concat (map ?g [0..<?n]))"
    by (simp add: emit_for_feet_def pg)
  have g: "(a, b) \<in> set (?g i) \<longleftrightarrow>
      (k = origin \<and> a = tile i \<and> landing w a = Some b) \<or> (key_at a = origin \<and> b = tile i \<and> landing w b = Some a)"
    if "i < ?n" for a b i
    using tile(4) [OF that]
    by (auto simp: feet_at_eq tile_def [symmetric] landing_def Let_def split: option.splits)
  have "(a, b) \<in> set (concat (map ?g [0..<?n])) \<longleftrightarrow>
      (k = origin \<and> key_at a = k \<and> landing w a = Some b) \<or> (key_at a = origin \<and> key_at b = k \<and> landing w b = Some a)"
    (is "?in \<longleftrightarrow> ?R") for a b
  proof
    assume ?in
    then obtain i where i: "i < ?n" "(a, b) \<in> set (?g i)" by auto
    then show ?R using tile(2) [OF i(1)] unfolding g [OF i(1)] by auto
  next
    assume ?R
    then show ?in
    proof
      assume R: "k = origin \<and> key_at a = k \<and> landing w a = Some b"
      then have "shape_contains ?s a" using landingD(2) [OF assms(1)] by blast
      then obtain i where i: "i < ?n" "tile i = a" using R onto by blast
      then have "(a, b) \<in> set (?g i)" using R unfolding g [OF i(1)] by simp
      with i show ?in by (auto simp del: upt_Suc)
    next
      assume R: "key_at a = origin \<and> key_at b = k \<and> landing w b = Some a"
      then have "shape_contains ?s b" using landingD(2) [OF assms(1)] by blast
      then obtain i where i: "i < ?n" "tile i = b" using R onto by blast
      then have "(a, b) \<in> set (?g i)" using R unfolding g [OF i(1)] by simp
      with i show ?in by (auto simp del: upt_Suc)
    qed
  qed
  with eq show ?thesis by blast
qed

lemma transitions_eq:
  assumes "inv w" "tile_res w a" "tile_res w b"
  shows "\<exists>ps. for_each_transition A tag w (key_at a) = Some ps
    \<and> ((a, b) \<in> set ps \<longleftrightarrow> landing w a = Some b \<or> landing w b = Some a)"
proof -
  let ?s = "wa_shape A" and ?k = "key_at a"
  note v = shape_ok [OF assms(1)]
  have a: "shape_contains ?s a" "res w (key_at a)" and b: "shape_contains ?s b" "res w (key_at b)"
    using assms(2,3) by (simp_all add: tile_res_def)
  note ra = coords_in_range(1) [OF v a(1)] and rb = coords_in_range(1) [OF v b(1)]
  have ck: "chunk_coord_of_key ?s ?k = chunk_coord ?s a" by (rule chunk_key_round(1) [OF v ra])
  have valid: "dense_valid_key ?s (chunk_key ?s n)" if "chunk_in_range ?s n" for n
    using chunk_key_nat(2) [OF v that] by (simp add: dense_valid_key_def u64_less_nat count_dims(5) [OF v])
  obtain own where own: "emit_for_feet A tag w ?k ?k = Some own"
    "\<And>x y. (x, y) \<in> set own \<longleftrightarrow> (?k = ?k \<and> key_at x = ?k \<and> landing w x = Some y)
         \<or> (key_at x = ?k \<and> key_at y = ?k \<and> landing w y = Some x)"
    using feet_eq [OF assms(1) resolved(2) [OF assms(1) a(1)] a(2), of ?k] by blast
  have scan: "\<exists>ps. scan_foot_chunk A tag w ?k n = Some ps \<and> (chunk_key ?s n \<noteq> ?k \<longrightarrow>
      ((a, b) \<in> set ps \<longleftrightarrow> res w (chunk_key ?s n) \<and> key_at b = chunk_key ?s n \<and> landing w b = Some a))"
    if "n \<in> set (foot_neighbors ?s (chunk_coord ?s a))" for n
  proof -
    note k = valid [OF foot_neighbors_in_range [OF ra that]]
    show ?thesis
    proof (cases "res w (chunk_key ?s n)")
      case True
      then have "scan_foot_chunk A tag w ?k n = emit_for_feet A tag w (chunk_key ?s n) ?k"
        by (simp add: scan_foot_chunk_def resident_law [OF assms(1) k] Let_def)
      with feet_eq [OF assms(1) k True, of ?k] True show ?thesis by auto
    next
      case False
      then have "wa_sparse A" using dense_resident [OF assms(1) _ k] by blast
      with False show ?thesis by (simp add: scan_foot_chunk_def resident_law [OF assms(1) k] Let_def)
    qed
  qed
  then obtain g where g: "\<And>n. n \<in> set (foot_neighbors ?s (chunk_coord ?s a)) \<Longrightarrow>
      scan_foot_chunk A tag w ?k n = Some (g n) \<and> (chunk_key ?s n \<noteq> ?k \<longrightarrow>
      ((a, b) \<in> set (g n) \<longleftrightarrow> res w (chunk_key ?s n) \<and> key_at b = chunk_key ?s n \<and> landing w b = Some a))"
    by metis
  let ?others = "concat (map g (foot_neighbors ?s (chunk_coord ?s a)))"
  have eq: "for_each_transition A tag w ?k = Some (own @ ?others)"
    using own(1) concat_opt_eq [of "foot_neighbors ?s (chunk_coord ?s a)" "scan_foot_chunk A tag w ?k" "\<lambda>n. n" g] g
    by (simp add: for_each_transition_def ck)
  have apart: "chunk_key ?s n \<noteq> ?k" if "n \<in> set (foot_neighbors ?s (chunk_coord ?s a))" for n
  proof
    assume "chunk_key ?s n = ?k"
    then have "n = chunk_coord ?s a"
      by (metis chunk_key_round(1) [OF v ra] chunk_key_round(1) [OF v foot_neighbors_in_range [OF ra that]])
    with that show False by (simp add: foot_neighbors_irrefl)
  qed
  have "(a, b) \<in> set ?others \<longleftrightarrow> landing w b = Some a \<and> key_at b \<noteq> ?k"
  proof
    assume "(a, b) \<in> set ?others"
    then obtain n where "n \<in> set (foot_neighbors ?s (chunk_coord ?s a))" "(a, b) \<in> set (g n)" by auto
    then show "landing w b = Some a \<and> key_at b \<noteq> ?k" using g apart by metis
  next
    assume l: "landing w b = Some a \<and> key_at b \<noteq> ?k"
    note ld = landingD [OF assms(1) conjunct1 [OF l]]
    obtain d where "landing_of b d = Some a" using ld(5) by blast
    moreover have "chunk_coord ?s b \<noteq> chunk_coord ?s a" using l by auto
    ultimately have n: "chunk_coord ?s b \<in> set (foot_neighbors ?s (chunk_coord ?s a))"
      using foot_chunk_is_neighbor [OF v b(1) a(1)] ld(4) by blast
    then have "(a, b) \<in> set (g (chunk_coord ?s b))" using g [OF n] l b(2) by simp
    with n show "(a, b) \<in> set ?others" by auto
  qed
  with own(2) [of a b] eq show ?thesis by auto
qed

end

end
