(* ===== verification/Transition_Costs.thy ===== *)
theory Transition_Costs imports Stair_Transitions begin

text \<open>
  Costs along transitions: the lattice distance the heuristic of
  \<open>topology/transition_model.h\<close> computes, its consistency with the cost of every step, and the
  static assessment of the range of path costs.
\<close>

subsection \<open>Saturated costs\<close>

lemma unat_saturating_u32: "unat (saturating_u32 v) = min (2 ^ 32 - 1) (u128_nat v)"
proof (cases "hi v = 0")
  case True
  then have "u128_nat v = unat (lo v)" by (simp add: u128_nat_def)
  with True show ?thesis by (auto simp: saturating_u32_def word_less_nat_alt unat_ucast_small)
next
  case False
  then have "0 < unat (hi v)" by (simp add: unat_gt_0)
  then have "2 ^ 64 \<le> u128_nat v" by (simp add: u128_nat_def)
  with False show ?thesis by (simp add: saturating_u32_def)
qed

lemma precise_overflow_nat: "precise_overflow v \<longleftrightarrow> 2 ^ 32 - 1 \<le> u128_nat v"
proof (cases "hi v = 0")
  case True
  then have "u128_nat v = unat (lo v)" by (simp add: u128_nat_def)
  with True show ?thesis by (simp add: precise_overflow_def word_le_nat_alt)
next
  case False
  then have "0 < unat (hi v)" by (simp add: unat_gt_0)
  then have "2 ^ 64 \<le> u128_nat v" by (simp add: u128_nat_def)
  with False show ?thesis by (simp add: precise_overflow_def)
qed

lemma u32_product: "unat (a :: u32) * unat (b :: u32) < 2 ^ 64"
proof -
  have "unat a * unat b \<le> (2 ^ 32 - 1) * (2 ^ 32 - 1)" by (rule mult_mono [OF u32_bound u32_bound]) simp_all
  also have "\<dots> < 2 ^ 64" by simp
  finally show ?thesis .
qed

lemma u128_nat_u32_product:
  "u128_nat (u128_mul (u128_of_u64 (ucast (a :: u32))) (u128_of_u64 (ucast (b :: u32)))) = unat a * unat b"
proof -
  have "unat a * unat b < 2 ^ 128" using u32_product [of a b] by simp
  then show ?thesis by (simp add: u128_nat_mul)
qed

subsection \<open>The lattice distance\<close>

definition octile :: "int \<Rightarrow> int \<Rightarrow> int" where
  "octile a b = 128 * max a b + 53 * min a b"

definition lattice_distance :: "shape \<Rightarrow> step_policy \<Rightarrow> coord3 \<Rightarrow> coord3 \<Rightarrow> int" where
  "lattice_distance s p a b =
     (let dx = sint (co_x a) - sint (co_x b); dy = sint (co_y a) - sint (co_y b); dz = sint (co_z a) - sint (co_z b) in
      case p of
        DefaultSteps \<Rightarrow>
          (case shape_lattice s of
             Orthogonal \<Rightarrow> \<bar>dx\<bar> + \<bar>dy\<bar> + \<bar>dz\<bar>
           | HexAxial \<Rightarrow> (\<bar>dx\<bar> + \<bar>dy\<bar> + \<bar>dx + dy\<bar>) div 2)
      | DiagonalSteps r \<Rightarrow>
          if \<not> degenerate_x s \<and> \<not> degenerate_y s then octile \<bar>dx\<bar> \<bar>dy\<bar>
          else if \<not> degenerate_x s \<and> \<not> degenerate_z s then octile \<bar>dx\<bar> \<bar>dz\<bar> else octile \<bar>dy\<bar> \<bar>dz\<bar>)"

lemma lattice_distance_refl [simp]: "lattice_distance s p a a = 0"
  by (simp add: lattice_distance_def octile_def split: step_policy.split lattice_identity.split)

lemma unat_clamp_distance: "unat (clamp_distance d) = min (2 ^ 32 - 1) (unat d)"
  by (auto simp: clamp_distance_def word_less_nat_alt unat_ucast_small)

lemma clamp_distance_int:
  assumes "int (unat d) = min (2 ^ 64 - 1) n"
  shows "int (unat (clamp_distance d)) = min (2 ^ 32 - 1) n"
proof -
  have "int (unat (clamp_distance d)) = min (2 ^ 32 - 1) (int (unat d))"
    by (simp only: unat_clamp_distance of_nat_min) simp
  then show ?thesis unfolding assms by (simp del: of_nat_unat)
qed

lemma unat_max_minus_min: "unat (max a b - min a b :: u64) = max (unat a) (unat b) - min (unat a) (unat b)"
  by (auto simp: max_def min_def word_le_nat_alt unat_sub_u64)

lemma octile_u128:
  "int (u128_nat (u128_add (u128_mul (u128_of_u64 (min a b)) (u128_of_u64 181))
                    (u128_mul (u128_of_u64 (max a b - min a b)) (u128_of_u64 128))))
     = octile (int (unat a)) (int (unat b))"
proof -
  have lt: "unat a < 18446744073709551616" "unat b < 18446744073709551616" by (rule u64_less_num)+
  have m: "unat (min a b) = min (unat a) (unat b)" by (auto simp: min_def word_le_nat_alt)
  have p: "u128_nat (u128_mul (u128_of_u64 (min a b)) (u128_of_u64 181)) = min (unat a) (unat b) * 181"
    using lt by (simp add: u128_nat_mul m)
  have q: "u128_nat (u128_mul (u128_of_u64 (max a b - min a b)) (u128_of_u64 128))
      = (max (unat a) (unat b) - min (unat a) (unat b)) * 128"
    using lt by (simp add: u128_nat_mul unat_max_minus_min)
  have small: "min (unat a) (unat b) * 181 + (max (unat a) (unat b) - min (unat a) (unat b)) * 128 < 2 ^ 128"
    using lt by (simp split: split_min split_max)
  have "octile (int x) (int y) = int (min x y * 181 + (max x y - min x y) * 128)" for x y :: nat
    by (cases "x \<le> y") (simp_all add: octile_def max_def min_def of_nat_diff)
  then show ?thesis using small by (simp only: u128_nat_add p q)
qed

lemma u32_step_words [simp]: "ucast diagonal_step_multiplier = (181 :: u64)" "ucast (cost_scale (DiagonalSteps r)) = (128 :: u64)"
  by (simp_all add: diagonal_step_multiplier_def cost_scale_def)

lemma heuristic_distance:
  assumes "shape_lattice s = HexAxial \<Longrightarrow> p = DefaultSteps \<Longrightarrow> co_z a = 0 \<and> co_z b = 0" "\<not> has_special_transitions pr"
  shows "\<exists>h. heuristic s p pr a b = Some h \<and> int (unat h) = min (2 ^ 32 - 1) (lattice_distance s p a b)"
proof (cases p)
  case DefaultSteps
  show ?thesis
  proof (cases "shape_lattice s")
    case Orthogonal
    then show ?thesis
      using DefaultSteps assms(2)
      by (simp add: heuristic_def clamp_distance_int [OF manhattan_distance_nat] lattice_distance_def Let_def
          del: of_nat_unat)
  next
    case HexAxial
    then have "co_z a = 0" "co_z b = 0" using assms(1) DefaultSteps by simp_all
    then show ?thesis
      using DefaultSteps HexAxial assms(2)
      by (simp add: heuristic_def clamp_distance_int [OF hex_distance_nat] lattice_distance_def Let_def
          to_hex_coord_def del: of_nat_unat)
  qed
next
  case (DiagonalSteps r)
  have oct: "int (unat (saturating_u32 (u128_add (u128_mul (u128_of_u64 (min x y)) (u128_of_u64 181))
                    (u128_mul (u128_of_u64 (max x y - min x y)) (u128_of_u64 128)))))
      = min (2 ^ 32 - 1) (octile (int (unat x)) (int (unat y)))" for x y
    using octile_u128 [of x y] by (simp add: unat_saturating_u32)
  show ?thesis
    using DiagonalSteps assms(2)
    by (simp add: heuristic_def diagonal_heuristic_def Let_def oct unat_abs_delta lattice_distance_def
        del: of_nat_unat)
qed

subsection \<open>One step changes the distance by at most its price\<close>

lemma contained_sint:
  assumes "valid_shape s" "shape_contains s c"
  shows "sint (co_x c) = int (unat (co_x c))" "sint (co_y c) = int (unat (co_y c))" "sint (co_z c) = int (unat (co_z c))"
  using assms size_dims [OF assms(1)]
  by (simp_all add: shape_contains_iff sint_word_of_small)

lemma sint_unit_step:
  assumes "d \<in> {0, 1, - 1 :: i64}" "0 \<le> sint x" "0 \<le> sint (x + d)" "sint (x :: i64) < 2 ^ 63 - 1"
  shows "sint (x + d) = sint x + sint d"
proof -
  consider "d = 0" | "d = 1" | "d = - 1" using assms(1) by blast
  then show ?thesis
  proof cases
    case 2
    have x: "sint x = int (unat x)" by (rule sint_nonneg_unat [OF assms(2)])
    then have lt: "unat x + 1 < 2 ^ 63" using assms(4) by (simp del: of_nat_unat)
    then have s: "unat (x + 1) = unat x + 1" by (simp add: unat_add_u64)
    with lt have "unat (x + 1) < 2 ^ 63" by simp
    from sint_word_of_small [OF this] show ?thesis unfolding 2 s x by simp
  next
    case 3
    have y: "sint (x - 1) = int (unat (x - 1))" using sint_nonneg_unat [of "x - 1"] assms(3) 3 by simp
    have "unat (x - 1) < 2 ^ 63" using y i64_bounds(2) [of "x - 1"] by (simp del: of_nat_unat)
    then have "unat (x - 1 + 1) = unat (x - 1) + 1" by (subst unat_add_u64) simp_all
    then show ?thesis using y sint_nonneg_unat [OF assms(2)] 3 by simp
  qed simp
qed

lemma shift_sint:
  assumes "valid_shape s" "shape_contains s c" "shape_contains s (shift c (dx, dy, dz))"
    and "dx \<in> {0, 1, - 1}" "dy \<in> {0, 1, - 1}" "dz \<in> {0, 1, - 1}"
  shows "sint (co_x (shift c (dx, dy, dz))) = sint (co_x c) + sint dx"
    "sint (co_y (shift c (dx, dy, dz))) = sint (co_y c) + sint dy"
    "sint (co_z (shift c (dx, dy, dz))) = sint (co_z c) + sint dz"
proof -
  have "unat (co_x c) < 2 ^ 63 - 1" "unat (co_y c) < 2 ^ 63 - 1" "unat (co_z c) < 2 ^ 63 - 1"
    using assms(2) size_dims(4-6) [OF assms(1)] unfolding shape_contains_iff [OF assms(1)] by linarith+
  then have lt: "sint (co_x c) < 2 ^ 63 - 1" "sint (co_y c) < 2 ^ 63 - 1" "sint (co_z c) < 2 ^ 63 - 1"
    unfolding contained_sint [OF assms(1,2)] by (simp_all del: of_nat_unat)
  have nn: "0 \<le> sint (co_x c')" "0 \<le> sint (co_y c')" "0 \<le> sint (co_z c')" if "shape_contains s c'" for c'
    using contained_sint [OF assms(1) that] by simp_all
  note n = nn [OF assms(2)] and n' = nn [OF assms(3), unfolded shift_def mk_coord3_def, simplified]
  show "sint (co_x (shift c (dx, dy, dz))) = sint (co_x c) + sint dx"
    "sint (co_y (shift c (dx, dy, dz))) = sint (co_y c) + sint dy"
    "sint (co_z (shift c (dx, dy, dz))) = sint (co_z c) + sint dz"
    using sint_unit_step [OF assms(4) n(1) n'(1) lt(1)] sint_unit_step [OF assms(5) n(2) n'(2) lt(2)]
      sint_unit_step [OF assms(6) n(3) n'(3) lt(3)]
    by (simp_all add: shift_def mk_coord3_def)
qed

lemma octile_eq_max: "octile a b = max (128 * a + 53 * b) (53 * a + 128 * b)"
  by (cases "a \<le> b") (simp_all add: octile_def max_def min_def)

lemma octile_step:
  assumes "\<bar>a - a'\<bar> \<le> 1" "\<bar>b - b'\<bar> \<le> 1"
  shows "octile \<bar>a\<bar> \<bar>b\<bar> \<le> 181 + octile \<bar>a'\<bar> \<bar>b'\<bar>"
    "a = a' \<or> b = b' \<Longrightarrow> octile \<bar>a\<bar> \<bar>b\<bar> \<le> 128 + octile \<bar>a'\<bar> \<bar>b'\<bar>"
proof -
  define m where "m = octile \<bar>a'\<bar> \<bar>b'\<bar>"
  have m: "128 * \<bar>a'\<bar> + 53 * \<bar>b'\<bar> \<le> m" "53 * \<bar>a'\<bar> + 128 * \<bar>b'\<bar> \<le> m"
    by (simp_all add: m_def octile_eq_max)
  have "\<bar>a\<bar> \<le> \<bar>a'\<bar> + 1" "\<bar>b\<bar> \<le> \<bar>b'\<bar> + 1" using assms by linarith+
  then show "octile \<bar>a\<bar> \<bar>b\<bar> \<le> 181 + octile \<bar>a'\<bar> \<bar>b'\<bar>"
    unfolding m_def [symmetric] octile_eq_max [of "\<bar>a\<bar>"] using m by (intro max.boundedI) linarith+
  assume "a = a' \<or> b = b'"
  then have "\<bar>a\<bar> \<le> \<bar>a'\<bar> + 1 \<and> \<bar>b\<bar> = \<bar>b'\<bar> \<or> \<bar>a\<bar> = \<bar>a'\<bar> \<and> \<bar>b\<bar> \<le> \<bar>b'\<bar> + 1" using assms by linarith
  then show "octile \<bar>a\<bar> \<bar>b\<bar> \<le> 128 + octile \<bar>a'\<bar> \<bar>b'\<bar>"
    unfolding m_def [symmetric] octile_eq_max [of "\<bar>a\<bar>"] using m by (intro max.boundedI) linarith+
qed

lemma le_sums:
  fixes x y z :: int
  assumes "p + q + r \<le> 1" "x \<le> x' + p" "y \<le> y' + q" "z \<le> z' + r"
  shows "x + y + z \<le> 1 + (x' + y' + z')"
  using assms by linarith

lemma hex_step:
  assumes "(dx, dy) \<in> {(1, 0), (-1, 0), (0, 1), (0, -1), (1, -1), (-1, 1 :: int)}"
  shows "(\<bar>a\<bar> + \<bar>b\<bar> + \<bar>a + b\<bar>) div 2 \<le> 1 + (\<bar>a + dx\<bar> + \<bar>b + dy\<bar> + \<bar>(a + dx) + (b + dy)\<bar>) div 2"
proof -
  have "\<bar>a\<bar> + \<bar>b\<bar> + \<bar>a + b\<bar> \<le> 2 + (\<bar>a + dx\<bar> + \<bar>b + dy\<bar> + \<bar>(a + dx) + (b + dy)\<bar>)"
    using assms by auto
  then show ?thesis by linarith
qed

lemma step_units:
  assumes "(dx, dy, dz) \<in> set (step_offsets s p)"
  shows "dx \<in> {0, 1, - 1} \<and> dy \<in> {0, 1, - 1} \<and> dz \<in> {0, 1, - 1}"
proof -
  have "list_all (\<lambda>(dx, dy, dz). dx \<in> {0, 1, - 1} \<and> dy \<in> {0, 1, - 1} \<and> dz \<in> {0, 1, - 1}) (step_offsets s p)"
    by (simp add: step_offsets_def face_offsets_def hex_offsets_def diagonal_offsets_def
        split: step_policy.split lattice_identity.split)
  then show ?thesis using assms unfolding list_all_iff by fastforce
qed

text \<open>The distance to a goal changes by at most the multiplier of the step.\<close>

lemma lattice_distance_step:
  assumes "valid_shape s" "shape_contains s c" "shape_contains s (shift c d)" "d \<in> set (step_offsets s p)"
  shows "lattice_distance s p c g \<le> int (unat (step_multiplier p d)) + lattice_distance s p (shift c d) g"
proof -
  obtain dx dy dz where d: "d = (dx, dy, dz)" by (cases d)
  have u: "dx \<in> {0, 1, - 1}" "dy \<in> {0, 1, - 1}" "dz \<in> {0, 1, - 1}"
    using step_units [OF assms(4) [unfolded d]] by simp_all
  note sh = shift_sint [OF assms(1,2) assms(3) [unfolded d] u]
  define a where "a = sint (co_x c) - sint (co_x g)"
  define b where "b = sint (co_y c) - sint (co_y g)"
  define e where "e = sint (co_z c) - sint (co_z g)"
  have abe: "sint (co_x (shift c d)) - sint (co_x g) = a + sint dx" "sint (co_y (shift c d)) - sint (co_y g) = b + sint dy"
    "sint (co_z (shift c d)) - sint (co_z g) = e + sint dz"
    by (simp_all add: d sh a_def b_def e_def)
  have one: "\<bar>sint x\<bar> \<le> 1" if "x \<in> {0, 1, - 1}" for x :: i64 using that by auto
  show ?thesis
  proof (cases p)
    case DefaultSteps
    have m: "step_multiplier p d = 1" by (simp add: step_multiplier_def is_diagonal_def cost_scale_def DefaultSteps)
    show ?thesis
    proof (cases "shape_lattice s")
      case Orthogonal
      have "list_all (\<lambda>(dx, dy, dz). \<bar>sint dx\<bar> + \<bar>sint dy\<bar> + \<bar>sint dz\<bar> \<le> 1) face_offsets"
        by (simp add: face_offsets_def)
      then have "\<bar>sint dx\<bar> + \<bar>sint dy\<bar> + \<bar>sint dz\<bar> \<le> 1"
        using assms(4) DefaultSteps Orthogonal d unfolding list_all_iff step_offsets_def by fastforce
      moreover have "\<bar>a\<bar> \<le> \<bar>a + sint dx\<bar> + \<bar>sint dx\<bar>" "\<bar>b\<bar> \<le> \<bar>b + sint dy\<bar> + \<bar>sint dy\<bar>"
        "\<bar>e\<bar> \<le> \<bar>e + sint dz\<bar> + \<bar>sint dz\<bar>" by linarith+
      ultimately have "\<bar>a\<bar> + \<bar>b\<bar> + \<bar>e\<bar> \<le> 1 + (\<bar>a + sint dx\<bar> + \<bar>b + sint dy\<bar> + \<bar>e + sint dz\<bar>)"
        by (rule le_sums)
      then show ?thesis
        using DefaultSteps Orthogonal m
        by (simp add: lattice_distance_def abe a_def [symmetric] b_def [symmetric] e_def [symmetric])
    next
      case HexAxial
      have "list_all (\<lambda>(dx, dy, dz). (sint dx, sint dy) \<in> {(1, 0), (-1, 0), (0, 1), (0, -1), (1, -1), (-1, 1)}) hex_offsets"
        by (simp add: hex_offsets_def)
      then have "(sint dx, sint dy) \<in> {(1, 0), (-1, 0), (0, 1), (0, -1), (1, -1), (-1, 1)}"
        using assms(4) DefaultSteps HexAxial d unfolding list_all_iff step_offsets_def by fastforce
      note hs = hex_step [OF this, of a b]
      have "lattice_distance s p c g = (\<bar>a\<bar> + \<bar>b\<bar> + \<bar>a + b\<bar>) div 2"
        "lattice_distance s p (shift c d) g = (\<bar>a + sint dx\<bar> + \<bar>b + sint dy\<bar> + \<bar>(a + sint dx) + (b + sint dy)\<bar>) div 2"
        by (simp_all only: lattice_distance_def DefaultSteps HexAxial step_policy.case lattice_identity.case Let_def
            abe a_def b_def)
      with hs m show ?thesis by (simp only: unsigned_1 of_nat_1)
    qed
  next
    case (DiagonalSteps r)
    have le: "\<bar>a - (a + sint dx)\<bar> \<le> 1" "\<bar>b - (b + sint dy)\<bar> \<le> 1" "\<bar>e - (e + sint dz)\<bar> \<le> 1"
      using one [OF u(1)] one [OF u(2)] one [OF u(3)] by simp_all
    have pick: "(if P then x else if Q then y else z) \<le> k + (if P then x' else if Q then y' else z')"
      if "x \<le> k + x'" "y \<le> k + y'" "z \<le> k + z'" for P Q and x y z k x' y' z' :: int
      using that by simp
    have dist: "lattice_distance s p c g = (if \<not> degenerate_x s \<and> \<not> degenerate_y s then octile \<bar>a\<bar> \<bar>b\<bar>
          else if \<not> degenerate_x s \<and> \<not> degenerate_z s then octile \<bar>a\<bar> \<bar>e\<bar> else octile \<bar>b\<bar> \<bar>e\<bar>)"
      "lattice_distance s p (shift c d) g = (if \<not> degenerate_x s \<and> \<not> degenerate_y s then octile \<bar>a + sint dx\<bar> \<bar>b + sint dy\<bar>
          else if \<not> degenerate_x s \<and> \<not> degenerate_z s then octile \<bar>a + sint dx\<bar> \<bar>e + sint dz\<bar>
          else octile \<bar>b + sint dy\<bar> \<bar>e + sint dz\<bar>)"
      by (simp_all only: lattice_distance_def DiagonalSteps step_policy.case Let_def abe a_def b_def e_def)
    note o1 = octile_step(1) [OF le(1,2)] octile_step(1) [OF le(1,3)] octile_step(1) [OF le(2,3)]
    note o2 = octile_step(2) [OF le(1,2)] octile_step(2) [OF le(1,3)] octile_step(2) [OF le(2,3)]
    show ?thesis
    proof (cases "is_diagonal p d")
      case True
      then have "int (unat (step_multiplier p d)) = 181"
        by (simp add: step_multiplier_def diagonal_step_multiplier_def)
      with o1 show ?thesis unfolding dist by (simp only: pick)
    next
      case False
      then have m: "int (unat (step_multiplier p d)) = 128"
        by (simp add: step_multiplier_def cost_scale_def DiagonalSteps)
      have "list_all (\<lambda>(dx, dy, dz). (dx = 0 \<or> dy = 0) \<and> (dx = 0 \<or> dz = 0) \<and> (dy = 0 \<or> dz = 0)) face_offsets"
        by (simp add: face_offsets_def)
      then have z: "(dx = 0 \<or> dy = 0) \<and> (dx = 0 \<or> dz = 0) \<and> (dy = 0 \<or> dz = 0)"
        using False DiagonalSteps unfolding list_all_iff is_diagonal_def d by fastforce
      have "a = a + sint dx \<or> b = b + sint dy" "a = a + sint dx \<or> e = e + sint dz" "b = b + sint dy \<or> e = e + sint dz"
        using z by (elim conjE disjE; simp)+
      note o2' = o2(1) [OF this(1)] o2(2) [OF this(2)] o2(3) [OF this(3)]
      with m show ?thesis unfolding dist by (simp only: pick)
    qed
  qed
qed

subsection \<open>Paths of probes\<close>

text \<open>A path takes, at every tile, one legal probe the forward enumeration emits there.\<close>

inductive probe_path ::
    "('t, 'w) tile_api \<Rightarrow> 't movement_class \<Rightarrow> 'w provider \<Rightarrow> 'w \<Rightarrow> coord3 \<Rightarrow> transition_probe list \<Rightarrow> coord3 \<Rightarrow> bool"
  for A cls pr w where
  path_end: "shape_contains (wa_shape A) c \<Longrightarrow> probe_path A cls pr w c [] c"
| path_step: "shape_contains (wa_shape A) c \<Longrightarrow> for_each_forward A cls pr w c = Some qs \<Longrightarrow> p \<in> set qs \<Longrightarrow>
    tp_availability p = Legal \<Longrightarrow> probe_path A cls pr w (tp_to p) ps g \<Longrightarrow> probe_path A cls pr w c (p # ps) g"

inductive_cases path_nilE: "probe_path A cls pr w c [] g"
inductive_cases path_consE: "probe_path A cls pr w c (p # ps) g"

definition path_cost :: "transition_probe list \<Rightarrow> nat" where
  "path_cost ps = sum_list (map (\<lambda>p. unat (tp_cost p)) ps)"

lemma path_cost_simps [simp]: "path_cost [] = 0" "path_cost (p # ps) = unat (tp_cost p) + path_cost ps"
  by (simp_all add: path_cost_def)

lemma probe_path_inside: "probe_path A cls pr w c ps g \<Longrightarrow> shape_contains (wa_shape A) c \<and> shape_contains (wa_shape A) g
    \<and> (\<forall>p \<in> set ps. shape_contains (wa_shape A) (tp_to p))"
  by (induction rule: probe_path.induct) auto

subsection \<open>Largest costs\<close>

lemma unat_cost_maximum_field:
  assumes "0 \<le> tmax t" "tmax t < 2 ^ 64"
  shows "unat (cost_expression_maximum tmax (FieldCost t)) = nat (min (2 ^ 32 - 1) (tmax t))"
proof -
  have u: "unat (word_of_int (tmax t) :: u64) = nat (tmax t)"
    using assms by (simp add: unat_eq_nat_uint uint_word_of_int)
  show ?thesis
  proof (cases "tmax t \<le> 2 ^ 32 - 1")
    case True
    then have "unat (word_of_int (tmax t) :: u32) = nat (tmax t)"
      using assms(1) by (simp add: unat_eq_nat_uint uint_word_of_int)
    then show ?thesis using True u by (auto simp: word_less_nat_alt)
  next
    case False
    then show ?thesis using u by (auto simp: word_less_nat_alt)
  qed
qed

text \<open>The declared maximum bounds every value of the expression.\<close>

lemma cost_maximum_bounds:
  assumes "\<And>t v. page_field fs t p l = Some v \<Longrightarrow> v \<le> tmax t" "\<And>t. 0 \<le> tmax t \<and> tmax t < 2 ^ 64"
  shows "cost_eval fs p l e = Some n \<Longrightarrow> unat n \<le> unat (cost_expression_maximum tmax e)"
proof (induction e arbitrary: n)
  case (FieldCost t)
  then obtain v where v: "page_field fs t p l = Some v" "n = normalize_cost v" by auto
  have "v \<le> tmax t" by (rule assms(1) [OF v(1)])
  moreover from this have "v < 2 ^ 64" using assms(2) [of t] by simp
  ultimately show ?case
    using assms(2) [of t] unfolding v(2) unat_normalize_cost [OF \<open>v < 2 ^ 64\<close>]
    by (subst unat_cost_maximum_field) (auto intro: nat_mono)
next
  case (OverlayCost b v)
  then obtain x where x: "cost_eval fs p l b = Some x" by (cases "cost_eval fs p l b") simp_all
  show ?case
  proof (cases "x = 0")
    case True
    then show ?thesis using OverlayCost.prems x by simp
  next
    case False
    then obtain y where y: "cost_eval fs p l v = Some y" "n = saturating_sum32 x y"
      using OverlayCost.prems x by auto
    show ?thesis using OverlayCost.IH(1) [OF x] OverlayCost.IH(2) [OF y(1)] y(2)
      by (simp add: unat_saturating_sum32)
  qed
next
  case (SelectCost t a b)
  then obtain s where s: "field_truth fs t p l = Some s" by (cases "field_truth fs t p l") simp_all
  show ?case
    using SelectCost.IH(1) [of n] SelectCost.IH(2) [of n] SelectCost.prems s
    by (cases s) (auto simp: word_less_nat_alt)
qed auto

lemma finite_tiles: "valid_shape s \<Longrightarrow> finite {c. shape_contains s c}"
  and card_tiles: "valid_shape s \<Longrightarrow> card {c. shape_contains s c} \<le> unat (chunk_count s) * unat (local_tile_count s)"
proof -
  assume v: "valid_shape s"
  let ?f = "\<lambda>c. (unat (key_value (chunk_key s (chunk_coord s c))), unat (tile_value (local_tile_id s (local_coord s c))))"
  let ?B = "{..<unat (chunk_count s)} \<times> {..<unat (local_tile_count s)}"
  have r: "resolve s c = Some \<lparr>rt_chunk_key = chunk_key s (chunk_coord s c), rt_local_tile_id = local_tile_id s (local_coord s c)\<rparr>"
    if "shape_contains s c" for c using that by (simp add: resolve_def)
  have inj: "inj_on ?f {c. shape_contains s c}"
  proof (rule inj_onI)
    fix a b assume "a \<in> {c. shape_contains s c}" "b \<in> {c. shape_contains s c}" "?f a = ?f b"
    then show "a = b"
      using resolve_inj [OF v r r, of a b] by (auto intro: chunk_key_eqI local_tile_id_eqI)
  qed
  have into: "?f ` {c. shape_contains s c} \<subseteq> ?B"
    using resolve_Some [OF v] r by (fastforce simp: slot_def u64_less_nat)
  show "finite {c. shape_contains s c}" by (rule inj_on_finite [OF inj into]) simp
  show "card {c. shape_contains s c} \<le> unat (chunk_count s) * unat (local_tile_count s)"
    using card_inj_on_le [OF inj into] by (simp add: card_cartesian_product)
qed

text \<open>The conservative bound: below it, no sum of that many costs reaches the reserved maximum.\<close>

lemma cost_bound_sound:
  assumes "\<not> compact_cost_bound_overflows edges m k" "n \<le> u128_nat edges"
  shows "n * (unat m * unat k) < 2 ^ 32 - 1"
proof (cases "edges = u128_zero \<or> m = 0 \<or> k = 0")
  case True
  then show ?thesis using assms(2) by auto
next
  case False
  let ?f = "unat m * unat k"
  have pos: "0 < ?f" using False by (simp add: unat_gt_0)
  have f: "unat (ucast m * ucast k :: u64) = ?f"
    using u32_product [of m k] by (simp add: unat_mult_u64)
  have le: "?f \<le> (2 ^ 32 - 1) * (2 ^ 32 - 1)" by (rule mult_mono [OF u32_bound u32_bound]) simp_all
  have s1: "unat (ucast u32_max + ucast m * ucast k :: u64) = 2 ^ 32 - 1 + ?f"
    using le by (subst unat_add_u64) (simp_all add: f)
  have s2: "unat (ucast u32_max + ucast m * ucast k - 1 :: u64) = 2 ^ 32 - 1 + ?f - 1"
    using pos by (subst unat_sub_u64) (simp_all add: s1 word_le_nat_alt)
  have "u128_nat edges < (2 ^ 32 - 1 + ?f - 1) div ?f"
    using assms(1) False by (simp add: compact_cost_bound_overflows_def Let_def u128_le_nat unat_div_u64 s2 f)
  then have "n + 1 \<le> (2 ^ 32 - 1 + ?f - 1) div ?f" using assms(2) by simp
  then have "(n + 1) * ?f \<le> 2 ^ 32 - 1 + ?f - 1" using pos by (simp add: less_eq_div_iff_mult_less_eq)
  then show ?thesis using pos by simp
qed

subsection \<open>Prices of emitted probes\<close>

context mover_world
begin

lemma regular_price:
  assumes "p \<in> set (regular_probes w c d cc)" "tp_availability p = Legal"
  shows "tp_to p = shift c d" "tile_res w cc" "0 < unat (cost w cc)"
    "unat (tp_cost p) = min (2 ^ 32 - 1) (unat (cost w cc) * unat (step_multiplier (mc_policy cls) d))"
    "tp_cost_overflow p \<longleftrightarrow> 2 ^ 32 - 1 \<le> unat (cost w cc) * unat (step_multiplier (mc_policy cls) d)"
  using assms
  by (auto simp: regular_probes_def missing_probe_def step_cost_def unat_saturating_u32 precise_overflow_nat
      u128_nat_u32_product unat_gt_0 split: if_splits)

lemma special_price:
  assumes "p \<in> set (special_probes w k cc)" "tp_availability p = Legal"
  shows "tp_to p = sc_to k" "shape_contains (wa_shape A) (sc_to k)"
    "unat (tp_cost p) = min (2 ^ 32 - 1) (unat (sc_cost k) * unat (cost_scale (mc_policy cls)))"
    "tp_cost_overflow p \<longleftrightarrow> 2 ^ 32 - 1 \<le> unat (sc_cost k) * unat (cost_scale (mc_policy cls))"
  using assms
  by (auto simp: special_probes_def missing_probe_def Let_def unat_saturating_u32 precise_overflow_nat
      u128_nat_u32_product split: if_splits)

lemma forward_probe:
  assumes "inv w" "shape_contains (wa_shape A) c" "for_each_forward A cls pr w c = Some qs" "p \<in> set qs"
    "tp_availability p = Legal"
  shows "(\<exists>d. step c d \<and> p \<in> set (regular_probes w c d (shift c d)))
    \<or> (\<exists>ks k. provider_forward pr w c = Some ks \<and> k \<in> set ks \<and> p \<in> set (special_probes w k (sc_to k)))"
proof -
  obtain ks where ks: "provider_forward pr w c = Some ks"
    using assms(3) by (cases "provider_forward pr w c") (simp_all add: for_each_forward_def bind_eq_None_conv)
  have "p \<in> set (concat (map (\<lambda>d. regular_probes w c d (shift c d)) (steps c)) @
      concat (map (\<lambda>k. special_probes w k (sc_to k)) ks))"
    using assms(3,4) forward_eq [OF assms(1,2) ks] by simp
  then show ?thesis
    unfolding set_append set_concat set_map using ks in_steps [OF assms(2)] by blast
qed

text \<open>A clear neighbour with a positive entry cost is offered.\<close>

lemma legal_step:
  assumes "inv w" "step c d" "availability w c d = Legal" "tile_res w (shift c d)" "pass w (shift c d)"
    "cost w (shift c d) \<noteq> 0" "provider_forward pr w c = Some ks"
  shows "\<exists>qs p. for_each_forward A cls pr w c = Some (qs @
      concat (map (\<lambda>k. special_probes w k (sc_to k)) ks)) \<and> p \<in> set qs \<and> tp_to p = shift c d
    \<and> tp_availability p = Legal"
proof -
  have "\<exists>p. p \<in> set (regular_probes w c d (shift c d)) \<and> tp_to p = shift c d \<and> tp_availability p = Legal"
    using assms(2-6) by (simp add: regular_probes_def)
  moreover have "d \<in> set (steps c)" using assms(2) in_steps by blast
  ultimately show ?thesis
    using forward_eq [OF assms(1) _ assms(7)] assms(2) by fastforce
qed

lemma multiplier_pos: "0 < unat (step_multiplier p d)"
  by (simp add: step_multiplier_def diagonal_step_multiplier_def cost_scale_def split: step_policy.split)

lemma heuristic_value:
  assumes "inv w" "shape_contains (wa_shape A) a" "shape_contains (wa_shape A) b" "\<not> has_special_transitions pr"
  shows "\<exists>h. heuristic (wa_shape A) (mc_policy cls) pr a b = Some h
    \<and> int (unat h) = min (2 ^ 32 - 1) (lattice_distance (wa_shape A) (mc_policy cls) a b)"
  using heuristic_distance [of "wa_shape A" "mc_policy cls" a b pr] assms(4)
    contained_hex_z [OF shape_ok [OF assms(1)]] assms(2,3) by blast

text \<open>The heuristic drops by at most the price of a step.\<close>

lemma heuristic_consistent:
  assumes "inv w" "shape_contains (wa_shape A) c" "for_each_forward A cls pr w c = Some qs" "p \<in> set qs"
    "tp_availability p = Legal" "shape_contains (wa_shape A) g" "shape_contains (wa_shape A) (tp_to p)"
    "heuristic (wa_shape A) (mc_policy cls) pr c g = Some h"
    "heuristic (wa_shape A) (mc_policy cls) pr (tp_to p) g = Some h'"
  shows "unat h \<le> unat (tp_cost p) + unat h'"
proof (cases "has_special_transitions pr")
  case True
  then show ?thesis using assms(8) by (simp add: heuristic_def)
next
  case False
  then have "pr = AdjacentTransitions" by (simp add: has_special_transitions_def split: provider.splits)
  then obtain d where d: "step c d" "p \<in> set (regular_probes w c d (shift c d))"
    using forward_probe [OF assms(1-5)] by (auto simp: provider_forward_def)
  note pr = regular_price [OF d(2) assms(5)]
  let ?m = "unat (step_multiplier (mc_policy cls) d)" and ?n = "unat (cost w (shift c d))"
  have le: "lattice_distance (wa_shape A) (mc_policy cls) c g \<le> int ?m + lattice_distance (wa_shape A) (mc_policy cls) (tp_to p) g"
    unfolding pr(1) using lattice_distance_step [OF shape_ok [OF assms(1)]] d(1) by blast
  have "1 * ?m \<le> ?n * ?m" using pr(3) by (intro mult_le_mono1) simp
  then have "min (2 ^ 32 - 1) ?m \<le> unat (tp_cost p)" unfolding pr(4) by (intro min.mono) simp_all
  then have "int (min (2 ^ 32 - 1) ?m) \<le> int (unat (tp_cost p))" by (simp only: of_nat_le_iff)
  then have "min (2 ^ 32 - 1) (int ?m) \<le> int (unat (tp_cost p))" by (simp only: of_nat_min) simp
  moreover have "int (unat h) = min (2 ^ 32 - 1) (lattice_distance (wa_shape A) (mc_policy cls) c g)"
    "int (unat h') = min (2 ^ 32 - 1) (lattice_distance (wa_shape A) (mc_policy cls) (tp_to p) g)"
    using heuristic_value [OF assms(1,2,6) False] heuristic_value [OF assms(1,7,6) False] assms(8,9)
    by (simp_all del: of_nat_unat)
  ultimately have "int (unat h) \<le> int (unat (tp_cost p)) + int (unat h')"
    using le of_nat_0_le_iff [of ?m] by linarith
  then show ?thesis by (simp only: of_nat_add [symmetric] of_nat_le_iff)
qed

lemma heuristic_admissible:
  assumes "inv w" "probe_path A cls pr w c ps g"
  shows "\<exists>h. heuristic (wa_shape A) (mc_policy cls) pr c g = Some h \<and> unat h \<le> path_cost ps"
  using assms(2)
proof (induction rule: probe_path.induct)
  case (path_end c)
  show ?case
  proof (cases "has_special_transitions pr")
    case True
    then show ?thesis by (simp add: heuristic_def)
  next
    case False
    then show ?thesis using heuristic_value [OF assms(1) path_end path_end False] by (auto simp del: of_nat_unat)
  qed
next
  case (path_step c qs p ps g)
  have inside: "shape_contains (wa_shape A) (tp_to p)" "shape_contains (wa_shape A) g"
    using probe_path_inside [OF path_step.hyps(5)] by simp_all
  obtain h' where h': "heuristic (wa_shape A) (mc_policy cls) pr (tp_to p) g = Some h'" "unat h' \<le> path_cost ps"
    using path_step.IH by blast
  have "\<exists>h. heuristic (wa_shape A) (mc_policy cls) pr c g = Some h"
    using heuristic_value [OF assms(1) path_step.hyps(1) inside(2), of pr]
    by (cases "has_special_transitions pr") (auto simp: heuristic_def)
  then obtain h where h: "heuristic (wa_shape A) (mc_policy cls) pr c g = Some h" by blast
  have "unat h \<le> unat (tp_cost p) + unat h'"
    by (rule heuristic_consistent [OF assms(1) path_step.hyps(1-4) inside(2,1) h h'(1)])
  with h h'(2) show ?case by auto
qed

subsection \<open>A proven cost range\<close>

definition fields_bounded :: "('t \<Rightarrow> int) \<Rightarrow> 'w \<Rightarrow> bool" where
  "fields_bounded tmax w \<longleftrightarrow> (\<forall>t. 0 \<le> tmax t \<and> tmax t < 2 ^ 64) \<and>
     (\<forall>t c v. tile_value_at A w t c = Some v \<longrightarrow> v \<le> tmax t)"

lemma cost_bounded:
  assumes "inv w" "fields_bounded tmax w" "tile_res w c"
  shows "unat (cost w c) \<le> unat (movement_class_maximum tmax cls)"
proof -
  have c: "shape_contains (wa_shape A) c" "res w (key_at c)" using assms(3) by (simp_all add: tile_res_def)
  have "page_field (wa_schema A) t (page w (key_at c)) (id_at c) = Some v \<Longrightarrow> v \<le> tmax t" for t v
    using assms(2) value_at [OF assms(1) c(1), of t] c(2) by (auto simp: fields_bounded_def)
  moreover have "\<And>t. 0 \<le> tmax t \<and> tmax t < 2 ^ 64" using assms(2) by (simp add: fields_bounded_def)
  ultimately show ?thesis
    using cost_maximum_bounds [of "wa_schema A" "page w (key_at c)" "id_at c" tmax "mc_cost cls" "cost w c"]
      pass_cost(2) [OF assms(1,3)] by (simp add: entry_cost_def movement_class_maximum_def)
qed

lemma multiplier_max: "unat (step_multiplier p d) \<le> unat (maximum_step_multiplier p)"
    "unat (cost_scale p) \<le> unat (maximum_step_multiplier p)"
  by (simp_all add: step_multiplier_def maximum_step_multiplier_def cost_scale_def diagonal_step_multiplier_def
      is_diagonal_def split: step_policy.split)

lemma probe_price_bound:
  assumes "inv w" "fields_bounded tmax w" "provider_maximum pr = Some m"
    and provider: "\<And>c ks k. provider_forward pr w c = Some ks \<Longrightarrow> k \<in> set ks \<Longrightarrow> sc_cost k \<le> m"
    and "shape_contains (wa_shape A) c" "for_each_forward A cls pr w c = Some qs" "p \<in> set qs"
    "tp_availability p = Legal"
    and M: "unat (movement_class_maximum tmax cls) \<le> M" "unat m \<le> M"
    and small: "M * unat (maximum_step_multiplier (mc_policy cls)) < 2 ^ 32 - 1"
  shows "unat (tp_cost p) \<le> M * unat (maximum_step_multiplier (mc_policy cls)) \<and> \<not> tp_cost_overflow p"
proof -
  have *: "unat (tp_cost p) \<le> M * unat (maximum_step_multiplier (mc_policy cls)) \<and> \<not> tp_cost_overflow p"
    if "unat (tp_cost p) = min (2 ^ 32 - 1) (x * y)" "tp_cost_overflow p \<longleftrightarrow> 2 ^ 32 - 1 \<le> x * y"
      "x \<le> M" "y \<le> unat (maximum_step_multiplier (mc_policy cls))" for x y
  proof -
    have "x * y \<le> M * unat (maximum_step_multiplier (mc_policy cls))" by (rule mult_le_mono [OF that(3,4)])
    then show ?thesis using that(1,2) small by auto
  qed
  from forward_probe [OF assms(1,5-8)] show ?thesis
  proof (elim disjE exE conjE)
    fix d assume "p \<in> set (regular_probes w c d (shift c d))"
    note r = regular_price [OF this assms(8)]
    show ?thesis by (rule * [OF r(4,5)]) (use cost_bounded [OF assms(1,2) r(2)] M(1) multiplier_max in auto)
  next
    fix ks k assume "provider_forward pr w c = Some ks" "k \<in> set ks" and s: "p \<in> set (special_probes w k (sc_to k))"
    then have "unat (sc_cost k) \<le> M" using provider M(2) by (simp add: word_le_nat_alt) (meson le_trans)
    note r = special_price [OF s assms(8)]
    show ?thesis by (rule * [OF r(3,4)]) (use \<open>unat (sc_cost k) \<le> M\<close> multiplier_max in auto)
  qed
qed

lemma path_cost_bound:
  assumes "probe_path A cls pr w c ps g"
    and "\<And>c qs p. shape_contains (wa_shape A) c \<Longrightarrow> for_each_forward A cls pr w c = Some qs \<Longrightarrow> p \<in> set qs \<Longrightarrow>
        tp_availability p = Legal \<Longrightarrow> unat (tp_cost p) \<le> f \<and> \<not> tp_cost_overflow p"
  shows "path_cost ps \<le> length ps * f \<and> (\<forall>p \<in> set ps. \<not> tp_cost_overflow p)"
  using assms(1)
proof (induction rule: probe_path.induct)
  case (path_step c qs p ps g)
  then show ?case using assms(2) [OF path_step.hyps(1-4)] by auto
qed simp

lemma simple_path_edges:
  assumes "inv w" "probe_path A cls pr w c ps g" "distinct (c # map tp_to ps)"
  shows "length ps + 1 \<le> unat (chunk_count (wa_shape A)) * unat (local_tile_count (wa_shape A))"
proof -
  note v = shape_ok [OF assms(1)]
  have "set (c # map tp_to ps) \<subseteq> {c. shape_contains (wa_shape A) c}" using probe_path_inside [OF assms(2)] by auto
  then have "card (set (c # map tp_to ps)) \<le> card {c. shape_contains (wa_shape A) c}"
    by (rule card_mono [OF finite_tiles [OF v]])
  then show ?thesis using distinct_card [OF assms(3)] card_tiles [OF v] by simp
qed

lemma cost_range_sound:
  assumes "inv w" "fields_bounded tmax w"
    and provider: "\<And>c ks k m. provider_maximum pr = Some m \<Longrightarrow> provider_forward pr w c = Some ks \<Longrightarrow>
        k \<in> set ks \<Longrightarrow> sc_cost k \<le> m"
    and safe: "path_cost_range_assessment (wa_shape A) tmax cls pr = ProvenSafe"
    and path: "probe_path A cls pr w c ps g" "distinct (c # map tp_to ps)"
  shows "path_cost ps < 2 ^ 32 - 1 \<and> (\<forall>p \<in> set ps. \<not> tp_cost_overflow p)"
proof -
  let ?s = "wa_shape A" and ?k = "maximum_step_multiplier (mc_policy cls)"
  let ?edges = "u128_sub (u128_mul (u128_of_u64 (chunk_count ?s)) (u128_of_u64 (local_tile_count ?s))) (u128_of_u64 1)"
  let ?tiles = "unat (chunk_count ?s) * unat (local_tile_count ?s)"
  have tiles: "u128_nat (u128_mul (u128_of_u64 (chunk_count ?s)) (u128_of_u64 (local_tile_count ?s)))
      = unat (chunk_count ?s) * unat (local_tile_count ?s)"
  proof -
    have "unat (chunk_count ?s) * unat (local_tile_count ?s) < 2 ^ 64 * 2 ^ 64"
      by (rule mult_strict_mono) (simp_all only: u64_less, simp_all)
    then show ?thesis by (simp add: u128_nat_mul)
  qed
  note len = simple_path_edges [OF assms(1) path]
  have minus_one: "(int t - 1) mod 2 ^ 128 = int t - 1" if "0 < t" "t < 2 ^ 128" for t :: nat
    using that by (intro mod_pos_pos_trivial) simp_all
  have "0 < ?tiles" "?tiles < 2 ^ 128" using len u128_nat_bound tiles by (linarith, metis)
  from minus_one [OF this] have "int (u128_nat ?edges) = int ?tiles - 1"
    by (simp only: u128_nat_sub tiles u128_nat_of_u64 unsigned_1 of_nat_1)
  then have e: "length ps \<le> u128_nat ?edges" using len by linarith
  show ?thesis
  proof (cases "?edges = u128_zero")
    case True
    then have "ps = []" using e by simp
    then show ?thesis by simp
  next
    case False
    obtain m where m: "provider_maximum pr = Some m"
      using safe False by (cases "provider_maximum pr") (simp_all add: path_cost_range_assessment_def Let_def)
    define M where "M = (if m < movement_class_maximum tmax cls then movement_class_maximum tmax cls else m)"
    have ov: "\<not> compact_cost_bound_overflows ?edges M ?k"
      using safe False m by (simp add: path_cost_range_assessment_def Let_def M_def split: if_splits)
    have M: "unat (movement_class_maximum tmax cls) \<le> unat M" "unat m \<le> unat M"
      by (auto simp: M_def word_less_nat_alt)
    have "1 \<le> u128_nat ?edges" using False u128_nat_eq_0 [of ?edges] by simp
    from cost_bound_sound [OF ov this] have small: "unat M * unat ?k < 2 ^ 32 - 1" by simp
    have "path_cost ps \<le> length ps * (unat M * unat ?k) \<and> (\<forall>p \<in> set ps. \<not> tp_cost_overflow p)"
      by (rule path_cost_bound [OF path(1)])
         (rule probe_price_bound [OF assms(1,2) m provider [OF m] _ _ _ _ M small])
    with cost_bound_sound [OF ov e] show ?thesis by linarith
  qed
qed

end

end
