(* ===== verification/Mover_Worlds.thy ===== *)
theory Mover_Worlds imports Transition_Edges begin

text \<open>
  What a shape, a schema and a movement class must satisfy together for the two worlds of the
  library to be worlds of a mover, and one small sparse and one small dense world on which the
  examples of the later theories evaluate.
\<close>

definition mover_ok :: "shape \<Rightarrow> ('t, int) schema \<Rightarrow> 't movement_class \<Rightarrow> bool" where
  "mover_ok s fs cls \<longleftrightarrow> class_ok fs cls \<and> step_policy_for (mc_policy cls) s \<and> tile_key_bits s \<le> 64"

text \<open>A world restricted to the states in which a fixed fact holds obeys the same laws.\<close>

lemma tile_world_restrict:
  "tile_world A ok res page entry \<Longrightarrow> tile_world A (\<lambda>w. ok w \<and> P) res page entry"
  unfolding tile_world_def by (cases P) auto

subsection \<open>A small world for the witnesses\<close>

definition small_shape :: shape where
  "small_shape = \<lparr>shape_size = mk_extent3 4 4 2, shape_chunk = mk_extent3 2 2 1, shape_lattice = Orthogonal\<rparr>"

datatype small_tag = Floor | Price | Stair | Occupied_by | Reserved_by

definition small_schema :: "(small_tag, int) schema" where
  "small_schema = [(Floor, 0), (Price, 0), (Stair, 0), (Occupied_by, 0), (Reserved_by, 0)]"

definition small_walk :: "small_tag movement_class" where
  "small_walk = \<lparr>mc_pass = AllOf [Field Floor, NotZero Price], mc_cost = FieldCost Price,
     mc_policy = DefaultSteps\<rparr>"

definition small_calls :: "(small_tag, int) sparse_op list" where
  "small_calls = [Ensure (ChunkKey 0), Ensure (ChunkKey 4),
     WriteTile Floor (mk_coord3 0 0 0) 1, WriteTile Price (mk_coord3 0 0 0) 2,
     WriteTile Floor (mk_coord3 1 0 0) 1, WriteTile Price (mk_coord3 1 0 0) 3,
     WriteTile Floor (mk_coord3 1 0 1) 1, WriteTile Price (mk_coord3 1 0 1) 5,
     WriteTile Stair (mk_coord3 0 0 0) 1]"

definition small_sparse :: "int sparse_world" where
  "small_sparse = snd (the (Option.bind (sparse_new 64 small_shape small_schema 256)
     (sparse_run small_shape small_schema small_calls)))"

lemma small_valid: "valid_shape small_shape" by code_simp

lemma small_sparse_ok: "sparse_ok small_shape small_schema small_sparse"
proof -
  obtain w where w: "sparse_new 64 small_shape small_schema 256 = Some w" "sparse_inv small_shape small_schema w []"
    using sparse_new_inv [of 64 256 small_shape small_schema] by (auto simp: clamp_capacity_def Let_def)
  have "Option.bind (sparse_new 64 small_shape small_schema 256) (sparse_run small_shape small_schema small_calls) \<noteq> None"
    by code_simp
  then obtain rs w' where r: "sparse_run small_shape small_schema small_calls w = Some (rs, w')" by (auto simp: w(1))
  then have "small_sparse = w'" by (simp add: small_sparse_def w(1))
  with sparse_run_refines [OF w(2) r] small_valid show ?thesis by (auto simp: sparse_ok_def)
qed

lemma small_mover: "mover_ok small_shape small_schema small_walk"
  by code_simp

definition small_dense :: "int dense_world" where
  "small_dense = the (Option.bind (dense_fill_field small_schema Floor 1 (dense_new small_shape small_schema))
     (dense_fill_field small_schema Price 7))"

lemma small_dense_ok: "dense_inv small_shape small_schema small_dense"
proof -
  have "Option.bind (dense_fill_field small_schema Floor 1 (dense_new small_shape small_schema))
     (dense_fill_field small_schema Price 7) \<noteq> None" by code_simp
  then obtain w1 w2 where w: "dense_fill_field small_schema Floor 1 (dense_new small_shape small_schema) = Some w1"
    "dense_fill_field small_schema Price 7 w1 = Some w2"
    by (auto simp: bind_eq_None_conv)
  then have "small_dense = w2" by (simp add: small_dense_def)
  with dense_fill_inv [OF dense_fill_inv [OF dense_new_inv w(1)] w(2)] show ?thesis by simp
qed

end
