(* ===== verification/Movement.thy ===== *)
theory Movement imports Transition_Edges begin

text \<open>
  \<open>sim/movement.h\<close>: validation of a movement intent against a world, and its commit. The model is
  over the world interface of \<open>Tile_World\<close>, so both worlds share it. \<open>false\<close> and \<open>true\<close> are 0 and 1
  in an occupancy or reservation field. A provider that throws is \<^const>\<open>None\<close>, as a failed
  assertion is.
\<close>

subsection \<open>Statuses and intents\<close>

datatype movement_status =
    Moved | InvalidFrom | InvalidTo | NotAdjacent | ImpassableFrom | ImpassableTo
  | Blocked_step | Occupied | Reserved | StaleContent | StaleTopology

record movement_version_check =
  vc_from_content :: "content_version option"
  vc_to_content :: "content_version option"
  vc_from_topology :: "topology_version option"
  vc_to_topology :: "topology_version option"

definition no_versions :: movement_version_check where
  "no_versions = \<lparr>vc_from_content = None, vc_to_content = None, vc_from_topology = None, vc_to_topology = None\<rparr>"

record movement_intent =
  mi_from :: coord3
  mi_to :: coord3
  mi_versions :: movement_version_check

record movement_result =
  mr_status :: movement_status
  mr_from :: coord3
  mr_to :: coord3

record movement_failure_counts =
  mf_invalid :: u64
  mf_impassable :: u64
  mf_blocked :: u64
  mf_occupied :: u64
  mf_reserved :: u64
  mf_stale_content :: u64
  mf_stale_topology :: u64

definition no_failures :: movement_failure_counts where
  "no_failures = \<lparr>mf_invalid = 0, mf_impassable = 0, mf_blocked = 0, mf_occupied = 0, mf_reserved = 0,
     mf_stale_content = 0, mf_stale_topology = 0\<rparr>"

definition record_movement_failure :: "movement_status \<Rightarrow> movement_failure_counts \<Rightarrow> movement_failure_counts" where
  "record_movement_failure st c =
     (case st of
        Moved \<Rightarrow> c
      | InvalidFrom \<Rightarrow> c\<lparr>mf_invalid := mf_invalid c + 1\<rparr>
      | InvalidTo \<Rightarrow> c\<lparr>mf_invalid := mf_invalid c + 1\<rparr>
      | NotAdjacent \<Rightarrow> c\<lparr>mf_invalid := mf_invalid c + 1\<rparr>
      | ImpassableFrom \<Rightarrow> c\<lparr>mf_impassable := mf_impassable c + 1\<rparr>
      | ImpassableTo \<Rightarrow> c\<lparr>mf_impassable := mf_impassable c + 1\<rparr>
      | Blocked_step \<Rightarrow> c\<lparr>mf_blocked := mf_blocked c + 1\<rparr>
      | Occupied \<Rightarrow> c\<lparr>mf_occupied := mf_occupied c + 1\<rparr>
      | Reserved \<Rightarrow> c\<lparr>mf_reserved := mf_reserved c + 1\<rparr>
      | StaleContent \<Rightarrow> c\<lparr>mf_stale_content := mf_stale_content c + 1\<rparr>
      | StaleTopology \<Rightarrow> c\<lparr>mf_stale_topology := mf_stale_topology c + 1\<rparr>)"

definition is_transient_movement_failure :: "movement_status \<Rightarrow> bool" where
  "is_transient_movement_failure st \<longleftrightarrow>
     st \<in> {ImpassableFrom, ImpassableTo, Blocked_step, Occupied, Reserved, StaleContent, StaleTopology}"

subsection \<open>Versions\<close>

definition movement_versions_match_meta ::
    "chunk_meta \<Rightarrow> chunk_meta \<Rightarrow> movement_version_check \<Rightarrow> movement_status" where
  "movement_versions_match_meta from_meta to_meta v =
     (if vc_from_content v \<noteq> None \<and> cm_content_version from_meta \<noteq> the (vc_from_content v) then StaleContent
      else if vc_to_content v \<noteq> None \<and> cm_content_version to_meta \<noteq> the (vc_to_content v) then StaleContent
      else if vc_from_topology v \<noteq> None \<and> cm_topology_version from_meta \<noteq> the (vc_from_topology v) then StaleTopology
      else if vc_to_topology v \<noteq> None \<and> cm_topology_version to_meta \<noteq> the (vc_to_topology v) then StaleTopology
      else Moved)"

definition has_version_expectations :: "movement_version_check \<Rightarrow> bool" where
  "has_version_expectations v \<longleftrightarrow>
     vc_from_content v \<noteq> None \<or> vc_to_content v \<noteq> None \<or> vc_from_topology v \<noteq> None \<or> vc_to_topology v \<noteq> None"

text \<open>The residency test of the sparse branch, with the short circuit of its disjunction.\<close>

definition endpoints_resident ::
    "('t, 'w) tile_api \<Rightarrow> 'w \<Rightarrow> resolved_tile \<Rightarrow> resolved_tile \<Rightarrow> bool option" where
  "endpoints_resident A w from to = do {
     r \<leftarrow> wa_is_resident A w (rt_chunk_key from);
     if \<not> r then Some False else wa_is_resident A w (rt_chunk_key to)
   }"

definition movement_versions_match :: "('t, 'w) tile_api \<Rightarrow> 'w \<Rightarrow> movement_intent \<Rightarrow> movement_status option" where
  "movement_versions_match A w i =
     (let s = wa_shape A;
          compare = (\<lambda>from to. do {
            from_meta \<leftarrow> wa_meta A w (rt_chunk_key from);
            to_meta \<leftarrow> wa_meta A w (rt_chunk_key to);
            Some (movement_versions_match_meta from_meta to_meta (mi_versions i))
          })
      in if wa_sparse A then do {
           from \<leftarrow> resolve s (mi_from i);
           to \<leftarrow> resolve s (mi_to i);
           resident \<leftarrow> endpoints_resident A w from to;
           if \<not> resident then Some StaleContent
           else if \<not> has_version_expectations (mi_versions i) then Some Moved
           else compare from to
         }
         else if \<not> has_version_expectations (mi_versions i) then Some Moved
         else do {
           from \<leftarrow> resolve s (mi_from i);
           to \<leftarrow> resolve s (mi_to i);
           compare from to
         })"

subsection \<open>Validation\<close>

record validated_movement =
  vm_result :: movement_result
  vm_from :: resolved_tile
  vm_to :: resolved_tile

definition default_resolved :: resolved_tile where
  "default_resolved = \<lparr>rt_chunk_key = ChunkKey 0, rt_local_tile_id = LocalTileId 0\<rparr>"

definition movement_failed :: "movement_intent \<Rightarrow> movement_status \<Rightarrow> validated_movement option" where
  "movement_failed i st = Some \<lparr>vm_result = \<lparr>mr_status = st, mr_from = mi_from i, mr_to = mi_to i\<rparr>,
     vm_from = default_resolved, vm_to = default_resolved\<rparr>"

text \<open>The callback of the enumeration: the strongest matching probe wins.\<close>

definition match_probe :: "coord3 \<Rightarrow> transition_probe \<Rightarrow> bool \<times> transition_availability \<Rightarrow> bool \<times> transition_availability" where
  "match_probe to p = (\<lambda>(is_candidate, availability).
     if tp_to p \<noteq> to then (is_candidate, availability)
     else (True,
           if tp_availability p = Legal then Legal
           else if tp_availability p = MissingTopology \<and> availability \<noteq> Legal then MissingTopology
           else availability))"

definition step_availability ::
    "('t, 'w) tile_api \<Rightarrow> 't movement_class \<Rightarrow> 'w provider \<Rightarrow> 'w \<Rightarrow> coord3 \<Rightarrow> coord3
     \<Rightarrow> (bool \<times> transition_availability) option" where
  "step_availability A cls pr w from to = do {
     let is_candidate = is_regular_candidate (wa_shape A) (mc_policy cls) from to;
     availability \<leftarrow> (if is_candidate then regular_availability A cls w from to else Some Blocked);
     if has_special_transitions pr \<and> availability \<noteq> Legal then do {
       probes \<leftarrow> for_each_forward A cls pr w from;
       Some (fold (match_probe to) probes (is_candidate, availability))
     }
     else Some (is_candidate, availability)
   }"

text \<open>The tests on the target's own fields and on the versions, the last stage of validation.\<close>

definition target_status ::
    "('t, 'w) tile_api \<Rightarrow> 't \<Rightarrow> 't \<Rightarrow> 'w \<Rightarrow> movement_version_check \<Rightarrow> resolved_tile \<Rightarrow> resolved_tile
     \<Rightarrow> int chunk_page \<Rightarrow> movement_status option" where
  "target_status A otag rtag w versions from to to_page = do {
     occupied \<leftarrow> page_field (wa_schema A) otag to_page (rt_local_tile_id to);
     if occupied \<noteq> 0 then Some Occupied else do {
       reserved \<leftarrow> page_field (wa_schema A) rtag to_page (rt_local_tile_id to);
       if reserved \<noteq> 0 then Some Reserved
       else if has_version_expectations versions then do {
         from_meta \<leftarrow> wa_meta A w (rt_chunk_key from);
         to_meta \<leftarrow> wa_meta A w (rt_chunk_key to);
         Some (movement_versions_match_meta from_meta to_meta versions)
       }
       else Some Moved
     }
   }"

definition validate_movement_intent_resolved ::
    "('t, 'w) tile_api \<Rightarrow> 't movement_class \<Rightarrow> 't \<Rightarrow> 't \<Rightarrow> 'w provider \<Rightarrow> 'w \<Rightarrow> movement_intent
     \<Rightarrow> validated_movement option" where
  "validate_movement_intent_resolved A cls otag rtag pr w i =
     (let s = wa_shape A; fs = wa_schema A; failed = movement_failed i in
      case try_resolve s (mi_from i) of
        None \<Rightarrow> failed InvalidFrom
      | Some from \<Rightarrow> (case try_resolve s (mi_to i) of
        None \<Rightarrow> failed InvalidTo
      | Some to \<Rightarrow> do {
          resident \<leftarrow> (if wa_sparse A then endpoints_resident A w from to else Some True);
          if \<not> resident then failed StaleContent else do {
          from_page \<leftarrow> wa_chunk A w (rt_chunk_key from);
          to_page \<leftarrow> wa_chunk A w (rt_chunk_key to);
          from_ok \<leftarrow> passable fs cls from_page (rt_local_tile_id from);
          if \<not> from_ok then failed ImpassableFrom else do {
          to_ok \<leftarrow> passable fs cls to_page (rt_local_tile_id to);
          if \<not> to_ok then failed ImpassableTo else do {
          price \<leftarrow> entry_cost fs cls to_page (rt_local_tile_id to);
          if price = 0 then failed ImpassableTo else do {
          (is_candidate, availability) \<leftarrow> step_availability A cls pr w (mi_from i) (mi_to i);
          if \<not> is_candidate then failed (if has_special_transitions pr then StaleTopology else NotAdjacent)
          else if availability = MissingTopology then failed StaleTopology
          else if availability \<noteq> Legal then failed Blocked_step else do {
          status \<leftarrow> target_status A otag rtag w (mi_versions i) from to to_page;
          if status \<noteq> Moved then failed status
          else Some \<lparr>vm_result = \<lparr>mr_status = Moved, mr_from = mi_from i, mr_to = mi_to i\<rparr>,
                     vm_from = from, vm_to = to\<rparr>
          }}}}}}))"

definition validate_movement_intent ::
    "('t, 'w) tile_api \<Rightarrow> 't movement_class \<Rightarrow> 't \<Rightarrow> 't \<Rightarrow> 'w provider \<Rightarrow> 'w \<Rightarrow> movement_intent
     \<Rightarrow> movement_result option" where
  "validate_movement_intent A cls otag rtag pr w i =
     map_option vm_result (validate_movement_intent_resolved A cls otag rtag pr w i)"

text \<open>The overload without a provider.\<close>

definition validate_adjacent_intent ::
    "('t, 'w) tile_api \<Rightarrow> 't movement_class \<Rightarrow> 't \<Rightarrow> 't \<Rightarrow> 'w \<Rightarrow> movement_intent \<Rightarrow> movement_result option" where
  "validate_adjacent_intent A cls otag rtag = validate_movement_intent A cls otag rtag AdjacentTransitions"

subsection \<open>Commit\<close>

definition unit_box :: "coord3 \<Rightarrow> box3" where
  "unit_box c = \<lparr>box_origin = c, box_extent = mk_extent3 1 1 1\<rparr>"

text \<open>The writes of a commit; an empty mask marks nothing.\<close>

definition apply_movement ::
    "('t, 'w) tile_api \<Rightarrow> 't \<Rightarrow> 't \<Rightarrow> dirty_mask \<Rightarrow> validated_movement \<Rightarrow> 'w \<Rightarrow> 'w option" where
  "apply_movement A otag rtag dirty v w =
     (let from = vm_from v; to = vm_to v in do {
      w1 \<leftarrow> wa_set_tile A w (rt_chunk_key from) otag (rt_local_tile_id from) 0;
      w2 \<leftarrow> wa_set_tile A w1 (rt_chunk_key to) otag (rt_local_tile_id to) 1;
      w3 \<leftarrow> wa_set_tile A w2 (rt_chunk_key to) rtag (rt_local_tile_id to) 0;
      if dirty_empty dirty then Some w3 else do {
        w4 \<leftarrow> wa_mark_dirty A w3 (rt_chunk_key from) dirty (unit_box (mr_from (vm_result v)));
        wa_mark_dirty A w4 (rt_chunk_key to) dirty (unit_box (mr_to (vm_result v)))
      }
    })"

definition commit_movement_intent ::
    "('t, 'w) tile_api \<Rightarrow> 't movement_class \<Rightarrow> 't \<Rightarrow> 't \<Rightarrow> 'w provider \<Rightarrow> dirty_mask \<Rightarrow> 'w \<Rightarrow> movement_intent
     \<Rightarrow> (movement_result \<times> 'w) option" where
  "commit_movement_intent A cls otag rtag pr dirty w i = do {
     v \<leftarrow> validate_movement_intent_resolved A cls otag rtag pr w i;
     if mr_status (vm_result v) \<noteq> Moved then Some (vm_result v, w)
     else do {
       w' \<leftarrow> apply_movement A otag rtag dirty v w;
       Some (vm_result v, w')
     }
   }"

definition commit_adjacent_intent ::
    "('t, 'w) tile_api \<Rightarrow> 't movement_class \<Rightarrow> 't \<Rightarrow> 't \<Rightarrow> dirty_mask \<Rightarrow> 'w \<Rightarrow> movement_intent
     \<Rightarrow> (movement_result \<times> 'w) option" where
  "commit_adjacent_intent A cls otag rtag = commit_movement_intent A cls otag rtag AdjacentTransitions"

subsection \<open>What validation decides\<close>

text \<open>The candidate folds pick the one step that leads to the target, if there is one.\<close>

lemma fold_found: "fold (\<lambda>k found. found \<or> P k) ks b \<longleftrightarrow> b \<or> (\<exists>k \<in> set ks. P k)"
  by (induction ks arbitrary: b) auto

lemma fold_opt_pick:
  assumes "\<And>k. k \<in> set ks \<Longrightarrow> P k \<Longrightarrow> f k = Some x"
  shows "fold_opt (\<lambda>k a. if P k then f k else Some a) ks a = Some (if \<exists>k \<in> set ks. P k then x else a)"
  using assms
proof (induction ks arbitrary: a)
  case (Cons k ks)
  then show ?case by (cases "P k") auto
qed simp

text \<open>The callback keeps the strongest probe.\<close>

lemma fold_match_probe:
  "fold (match_probe to) ps (c, a) =
     (c \<or> (\<exists>p \<in> set ps. tp_to p = to),
      if a = Legal \<or> (\<exists>p \<in> set ps. tp_to p = to \<and> tp_availability p = Legal) then Legal
      else if a = MissingTopology \<or> (\<exists>p \<in> set ps. tp_to p = to \<and> tp_availability p = MissingTopology)
      then MissingTopology else a)"
  by (induction ps arbitrary: c a) (auto simp: match_probe_def)

context mover_world
begin

definition regular_edge :: "coord3 \<Rightarrow> coord3 \<Rightarrow> bool" where
  "regular_edge a b \<longleftrightarrow> (\<exists>d. step a d \<and> shift a d = b)"

lemma is_candidate_eq:
  assumes "inv w" "shape_contains (wa_shape A) c"
  shows "is_regular_candidate (wa_shape A) (mc_policy cls) c to \<longleftrightarrow> regular_edge c to"
proof -
  have "is_regular_candidate (wa_shape A) (mc_policy cls) c to \<longleftrightarrow> (\<exists>d \<in> set (steps c). shift c d = to)"
    by (simp add: is_regular_candidate_def fold_found candidates_eq [OF assms])
  then show ?thesis unfolding regular_edge_def using in_steps [OF assms(2)] by blast
qed

lemma regular_availability_eq:
  assumes "inv w" "step c d"
  shows "regular_availability A cls w c (shift c d) = Some (availability w c d)"
proof -
  have c: "shape_contains (wa_shape A) c" using assms(2) by simp
  have "clearance_availability A cls w k = Some (availability w c d)"
    if "k \<in> set (map (candidate_at (mc_policy cls) c) (steps c))" "rc_to k = shift c d" for k
    using that in_steps [OF c] clearance_availability_eq [OF assms(1)] by (auto simp: shift_inj)
  then show ?thesis
    using in_steps [OF c, of d] assms(2)
    by (subst regular_availability_def, subst candidates_eq [OF assms(1) c], subst fold_opt_pick) (auto simp: shift_inj)
qed

text \<open>The probes of the enumeration that lead to a resident, passable, priced tile.\<close>

lemma probes_to:
  assumes "inv w" "shape_contains (wa_shape A) c" "provider_forward pr w c = Some ks"
    and "tile_res w to" "pass w to" "cost w to \<noteq> 0"
  shows "\<exists>ps. for_each_forward A cls pr w c = Some ps
    \<and> (\<exists>p \<in> set ps. tp_to p = to \<and> tp_availability p = Legal)
       = ((\<exists>d. step c d \<and> shift c d = to \<and> availability w c d = Legal)
          \<or> (\<exists>k \<in> set ks. sc_to k = to \<and> \<not> sc_missing_topology k \<and> sc_cost k \<noteq> 0))
    \<and> (\<exists>p \<in> set ps. tp_to p = to \<and> tp_availability p = MissingTopology)
       = ((\<exists>d. step c d \<and> shift c d = to \<and> availability w c d = MissingTopology)
          \<or> (\<exists>k \<in> set ks. sc_to k = to \<and> sc_missing_topology k))
    \<and> (\<exists>p \<in> set ps. tp_to p = to)
       = ((\<exists>d. step c d \<and> shift c d = to \<and> availability w c d \<noteq> Blocked)
          \<or> (\<exists>k \<in> set ks. sc_to k = to \<and> (sc_missing_topology k \<or> sc_cost k \<noteq> 0)))"
proof -
  have to: "shape_contains (wa_shape A) to" using assms(4) by (simp add: tile_res_def)
  have reg: "(\<exists>p \<in> set (regular_probes w c d (shift c d)). tp_to p = to \<and> Q (tp_availability p))
      \<longleftrightarrow> shift c d = to \<and> availability w c d \<noteq> Blocked \<and> Q (availability w c d)" for d Q
    using assms(4-6) by (cases "shift c d = to") (auto simp: regular_probes_def missing_probe_def split: if_splits)
  have spec: "(\<exists>p \<in> set (special_probes w k (sc_to k)). tp_to p = to \<and> Q (tp_availability p))
      \<longleftrightarrow> sc_to k = to \<and> (if sc_missing_topology k then Q MissingTopology else sc_cost k \<noteq> 0 \<and> Q Legal)" for k Q
    using assms(4-6) to by (cases "sc_to k = to") (auto simp: special_probes_def missing_probe_def Let_def split: if_splits)
  have any: "(\<exists>p \<in> set (concat (map (\<lambda>d. regular_probes w c d (shift c d)) (steps c))
          @ concat (map (\<lambda>k. special_probes w k (sc_to k)) ks)). tp_to p = to \<and> Q (tp_availability p))
      \<longleftrightarrow> (\<exists>d. step c d \<and> shift c d = to \<and> availability w c d \<noteq> Blocked \<and> Q (availability w c d))
        \<or> (\<exists>k \<in> set ks. sc_to k = to \<and> (if sc_missing_topology k then Q MissingTopology else sc_cost k \<noteq> 0 \<and> Q Legal))"
    (is "_ = ?R") for Q
  proof -
    have "?thesis \<longleftrightarrow> ((\<exists>d \<in> set (steps c). \<exists>p \<in> set (regular_probes w c d (shift c d)). tp_to p = to \<and> Q (tp_availability p))
        \<or> (\<exists>k \<in> set ks. \<exists>p \<in> set (special_probes w k (sc_to k)). tp_to p = to \<and> Q (tp_availability p))) = ?R"
      by simp blast
    then show ?thesis unfolding reg spec using in_steps [OF assms(2)] by blast
  qed
  have few: "x \<noteq> Blocked \<and> x = Legal \<longleftrightarrow> x = Legal" "x \<noteq> Blocked \<and> x = MissingTopology \<longleftrightarrow> x = MissingTopology"
    "(if m then MissingTopology = Legal else n \<and> Legal = Legal) \<longleftrightarrow> \<not> m \<and> n"
    "(if m then MissingTopology = MissingTopology else n \<and> Legal = MissingTopology) \<longleftrightarrow> m"
    "(if m then True else n) \<longleftrightarrow> m \<or> n" for x m n
    by auto
  note r = forward_eq [OF assms(1,2,3)]
  note legal = any [of "\<lambda>x. x = Legal", unfolded few] and missing = any [of "\<lambda>x. x = MissingTopology", unfolded few]
    and all = any [of "\<lambda>_. True", unfolded few simp_thms]
  show ?thesis unfolding r using legal missing all by (intro exI conjI) (rule refl)
qed

text \<open>
  The verdict in terms of the tiles: the geometry and residency of the endpoints, then passability
  and price, then the edge between them, then the target's own fields and the versions.
\<close>

definition legal_edge :: "'w \<Rightarrow> special_candidate list \<Rightarrow> coord3 \<Rightarrow> coord3 \<Rightarrow> bool" where
  "legal_edge w ks a b \<longleftrightarrow> (\<exists>d. step a d \<and> shift a d = b \<and> availability w a d = Legal)
     \<or> (\<exists>k \<in> set ks. sc_to k = b \<and> \<not> sc_missing_topology k \<and> sc_cost k \<noteq> 0)"

definition unknown_edge :: "'w \<Rightarrow> special_candidate list \<Rightarrow> coord3 \<Rightarrow> coord3 \<Rightarrow> bool" where
  "unknown_edge w ks a b \<longleftrightarrow> (\<exists>d. step a d \<and> shift a d = b \<and> availability w a d = MissingTopology)
     \<or> (\<exists>k \<in> set ks. sc_to k = b \<and> sc_missing_topology k)"

definition edge_status :: "'w provider \<Rightarrow> 'w \<Rightarrow> special_candidate list \<Rightarrow> coord3 \<Rightarrow> coord3 \<Rightarrow> movement_status" where
  "edge_status pr w ks a b =
     (if legal_edge w ks a b then Moved
      else if unknown_edge w ks a b then StaleTopology
      else if regular_edge a b then Blocked_step
      else if has_special_transitions pr then StaleTopology else NotAdjacent)"

lemma adjacent_provider: "\<not> has_special_transitions pr \<Longrightarrow> provider_forward pr w c = Some []"
  by (auto simp: has_special_transitions_def provider_forward_def split: provider.splits)

lemma step_availability_eq:
  assumes "inv w" "shape_contains (wa_shape A) a" "provider_forward pr w a = Some ks"
    and "tile_res w b" "pass w b" "cost w b \<noteq> 0"
  shows "\<exists>c v. step_availability A cls pr w a b = Some (c, v)
    \<and> (if \<not> c then if has_special_transitions pr then StaleTopology else NotAdjacent
       else if v = MissingTopology then StaleTopology else if v \<noteq> Legal then Blocked_step else Moved)
      = edge_status pr w ks a b"
proof -
  obtain ps where ps: "for_each_forward A cls pr w a = Some ps"
      "(\<exists>p \<in> set ps. tp_to p = b \<and> tp_availability p = Legal) = legal_edge w ks a b"
      "(\<exists>p \<in> set ps. tp_to p = b \<and> tp_availability p = MissingTopology) = unknown_edge w ks a b"
      "(\<exists>p \<in> set ps. tp_to p = b) = ((\<exists>d. step a d \<and> shift a d = b \<and> availability w a d \<noteq> Blocked)
          \<or> (\<exists>k \<in> set ks. sc_to k = b \<and> (sc_missing_topology k \<or> sc_cost k \<noteq> 0)))"
    using probes_to [OF assms, folded legal_edge_def unknown_edge_def] by (elim exE conjE) (rule that)
  have none: "\<not> has_special_transitions pr \<Longrightarrow> ks = []"
    using adjacent_provider [of pr w a] assms(3) by simp
  note cand = is_candidate_eq [OF assms(1,2), of b]
  show ?thesis
  proof (cases "regular_edge a b")
    case True
    then obtain d where d: "step a d" "shift a d = b" unfolding regular_edge_def by blast
    have uniq: "(\<exists>d'. step a d' \<and> shift a d' = b \<and> Q (availability w a d')) = Q (availability w a d)" for Q
      using d(1) by (simp add: d(2) [symmetric] shift_inj del: split_paired_Ex)
    have av: "regular_availability A cls w a b = Some (availability w a d)"
      using regular_availability_eq [OF assms(1) d(1)] d(2) by simp
    have base: "step_availability A cls pr w a b = Some (if has_special_transitions pr \<and> availability w a d \<noteq> Legal
        then fold (match_probe b) ps (True, availability w a d) else (True, availability w a d))"
      by (simp add: step_availability_def cand [THEN iffD2, OF True] av ps(1))
    define sl where "sl \<longleftrightarrow> (\<exists>k \<in> set ks. sc_to k = b \<and> \<not> sc_missing_topology k \<and> sc_cost k \<noteq> 0)"
    define sm where "sm \<longleftrightarrow> (\<exists>k \<in> set ks. sc_to k = b \<and> sc_missing_topology k)"
    have le: "legal_edge w ks a b \<longleftrightarrow> availability w a d = Legal \<or> sl"
      unfolding legal_edge_def sl_def using uniq [of "\<lambda>x. x = Legal"] by simp
    have ue: "unknown_edge w ks a b \<longleftrightarrow> availability w a d = MissingTopology \<or> sm"
      unfolding unknown_edge_def sm_def using uniq [of "\<lambda>x. x = MissingTopology"] by simp
    have special: "\<not> has_special_transitions pr \<Longrightarrow> \<not> sl \<and> \<not> sm" using none by (simp add: sl_def sm_def)
    show ?thesis
      unfolding base edge_status_def fold_match_probe ps(2,3) le ue using True special
      by (cases "availability w a d"; cases "has_special_transitions pr") (simp_all add: ex_bool_eq)
  next
    case False
    have "\<not> is_regular_candidate (wa_shape A) (mc_policy cls) a b" using cand False by blast
    then have base: "step_availability A cls pr w a b = Some (if has_special_transitions pr
        then fold (match_probe b) ps (False, Blocked) else (False, Blocked))"
      by (simp add: step_availability_def ps(1))
    have "(\<exists>p \<in> set ps. tp_to p = b) = (legal_edge w ks a b \<or> unknown_edge w ks a b)"
      using False ps(4) unfolding legal_edge_def unknown_edge_def regular_edge_def by blast
    moreover have "\<not> legal_edge w ks a b \<and> \<not> unknown_edge w ks a b" if "\<not> has_special_transitions pr"
    proof -
      have "step a d \<Longrightarrow> shift a d \<noteq> b" for d using False unfolding regular_edge_def by blast
      with none [OF that] show ?thesis unfolding legal_edge_def unknown_edge_def by auto
    qed
    ultimately show ?thesis
      unfolding base edge_status_def fold_match_probe ps(2,3) using False
      by (cases "has_special_transitions pr") (simp_all add: ex_bool_eq)
  qed
qed

end

text \<open>A world whose schema has the occupancy and the reservation field.\<close>

locale crowd_world = mover_world A inv res page entry cls
  for A :: "('t, int, 'w) world_api" and inv and res and page and entry and cls +
  fixes otag :: 't and rtag :: 't
  assumes tags_law: "inv w \<Longrightarrow> contains_field_tag otag (wa_schema A) \<and> contains_field_tag rtag (wa_schema A)"
    and tags_distinct: "inv w \<Longrightarrow> otag \<noteq> rtag"
begin

definition held :: "'w \<Rightarrow> coord3 \<Rightarrow> bool" where
  "held w c \<longleftrightarrow> the (tile_value_at A w otag c) \<noteq> 0"

definition flagged :: "'w \<Rightarrow> coord3 \<Rightarrow> bool" where
  "flagged w c \<longleftrightarrow> the (tile_value_at A w rtag c) \<noteq> 0"

definition version_status :: "'w \<Rightarrow> movement_intent \<Rightarrow> movement_status" where
  "version_status w i = movement_versions_match_meta (snd (snd (entry w (key_at (mi_from i)))))
     (snd (snd (entry w (key_at (mi_to i))))) (mi_versions i)"

definition verdict :: "'w provider \<Rightarrow> special_candidate list \<Rightarrow> 'w \<Rightarrow> movement_intent \<Rightarrow> movement_status" where
  "verdict pr ks w i =
     (let a = mi_from i; b = mi_to i in
      if \<not> shape_contains (wa_shape A) a then InvalidFrom
      else if \<not> shape_contains (wa_shape A) b then InvalidTo
      else if \<not> tile_res w a \<or> \<not> tile_res w b then StaleContent
      else if \<not> pass w a then ImpassableFrom
      else if \<not> pass w b \<or> cost w b = 0 then ImpassableTo
      else if edge_status pr w ks a b \<noteq> Moved then edge_status pr w ks a b
      else if held w b then Occupied
      else if flagged w b then Reserved
      else version_status w i)"

definition tile_at :: "coord3 \<Rightarrow> resolved_tile" where
  "tile_at c = \<lparr>rt_chunk_key = key_at c, rt_local_tile_id = id_at c\<rparr>"

lemma no_expectations: "\<not> has_version_expectations v \<Longrightarrow> movement_versions_match_meta f t v = Moved"
  by (simp add: has_version_expectations_def movement_versions_match_meta_def)

lemma target_status_eq:
  assumes "inv w" "tile_res w (mi_from i)" "tile_res w (mi_to i)"
  shows "target_status A otag rtag w (mi_versions i) (tile_at (mi_from i)) (tile_at (mi_to i)) (page w (key_at (mi_to i)))
    = Some (if held w (mi_to i) then Occupied else if flagged w (mi_to i) then Reserved else version_status w i)"
proof -
  let ?a = "mi_from i" and ?b = "mi_to i"
  have c: "shape_contains (wa_shape A) ?a" "res w (key_at ?a)" "shape_contains (wa_shape A) ?b" "res w (key_at ?b)"
    using assms(2,3) by (simp_all add: tile_res_def)
  obtain o' r' where v: "tile_value_at A w otag ?b = Some o'" "tile_value_at A w rtag ?b = Some r'"
    using value_defined [OF assms(1,3)] tags_law [OF assms(1)] by blast
  then have "page_field (wa_schema A) otag (page w (key_at ?b)) (id_at ?b) = Some o'"
    "page_field (wa_schema A) rtag (page w (key_at ?b)) (id_at ?b) = Some r'"
    using value_at [OF assms(1) c(3)] c(4) by simp_all
  moreover have "wa_meta A w (key_at ?a) = Some (snd (snd (entry w (key_at ?a))))"
    "wa_meta A w (key_at ?b) = Some (snd (snd (entry w (key_at ?b))))"
    using meta_law [OF assms(1) resolved(2)] assms(1) c by simp_all
  ultimately show ?thesis
    by (simp add: target_status_def tile_at_def held_def flagged_def v version_status_def no_expectations)
qed

lemma residency_eq:
  assumes "inv w" "shape_contains (wa_shape A) a" "shape_contains (wa_shape A) b"
  shows "(if wa_sparse A then endpoints_resident A w (tile_at a) (tile_at b) else Some True)
    = Some (tile_res w a \<and> tile_res w b)"
  using resolved(2) [OF assms(1)] assms resident_law [OF assms(1)] dense_resident [OF assms(1)]
  by (simp add: endpoints_resident_def tile_at_def tile_res_def)

lemma validate_eq:
  assumes "inv w" "shape_contains (wa_shape A) (mi_from i) \<Longrightarrow> provider_forward pr w (mi_from i) = Some ks"
  shows "validate_movement_intent_resolved A cls otag rtag pr w i =
    (if verdict pr ks w i = Moved
     then Some \<lparr>vm_result = \<lparr>mr_status = Moved, mr_from = mi_from i, mr_to = mi_to i\<rparr>,
                vm_from = tile_at (mi_from i), vm_to = tile_at (mi_to i)\<rparr>
     else movement_failed i (verdict pr ks w i))"
proof (cases "shape_contains (wa_shape A) (mi_from i) \<and> shape_contains (wa_shape A) (mi_to i)")
  case False
  then show ?thesis
    by (auto simp: validate_movement_intent_resolved_def try_resolve_def verdict_def Let_def resolve_def)
next
  case True
  let ?a = "mi_from i" and ?b = "mi_to i"
  have ab: "shape_contains (wa_shape A) ?a" "shape_contains (wa_shape A) ?b" using True by simp_all
  have r: "try_resolve (wa_shape A) ?a = Some (tile_at ?a)" "try_resolve (wa_shape A) ?b = Some (tile_at ?b)"
    using ab resolved(1) [OF assms(1)] by (simp_all add: try_resolve_def tile_at_def)
  show ?thesis
  proof (cases "tile_res w ?a \<and> tile_res w ?b")
    case False
    then show ?thesis
      by (simp only: validate_movement_intent_resolved_def Let_def r option.case residency_eq [OF assms(1) ab])
         (simp add: verdict_def ab)
  next
    case True
    then have tr: "tile_res w ?a" "tile_res w ?b" by simp_all
    have pages: "wa_chunk A w (rt_chunk_key (tile_at ?a)) = Some (page w (key_at ?a))"
      "wa_chunk A w (rt_chunk_key (tile_at ?b)) = Some (page w (key_at ?b))"
      using tr chunk_law [OF assms(1) resolved(2) [OF assms(1)]] ab by (simp_all add: tile_at_def tile_res_def)
    have ids: "rt_local_tile_id (tile_at c) = id_at c" for c by (simp add: tile_at_def)
    note pc = pass_cost [OF assms(1) tr(1)] pass_cost [OF assms(1) tr(2)]
    note run = validate_movement_intent_resolved_def r residency_eq [OF assms(1) ab] pages ids pc Let_def
    show ?thesis
    proof (cases "pass w ?a \<and> pass w ?b \<and> cost w ?b \<noteq> 0")
      case False
      then show ?thesis using ab tr by (auto simp: run verdict_def)
    next
      case True
      then obtain c v where cv: "step_availability A cls pr w ?a ?b = Some (c, v)"
        "(if \<not> c then if has_special_transitions pr then StaleTopology else NotAdjacent
          else if v = MissingTopology then StaleTopology else if v \<noteq> Legal then Blocked_step else Moved)
         = edge_status pr w ks ?a ?b"
        using step_availability_eq [OF assms(1) ab(1) assms(2) [OF ab(1)] tr(2)] by blast
      show ?thesis
        using True ab tr cv(2) [symmetric]
        by (simp add: run cv(1) verdict_def target_status_eq [OF assms(1) tr])
    qed
  qed
qed

text \<open>The moves validation accepts are the legal probes of the enumeration, to a free target.\<close>

lemma legal_probe:
  assumes "inv w" "shape_contains (wa_shape A) a" "provider_forward pr w a = Some ks"
    and "for_each_forward A cls pr w a = Some ps"
  shows "(\<exists>p \<in> set ps. tp_to p = b \<and> tp_availability p = Legal)
    \<longleftrightarrow> tile_res w b \<and> pass w b \<and> cost w b \<noteq> 0 \<and> legal_edge w ks a b"
proof
  assume "\<exists>p \<in> set ps. tp_to p = b \<and> tp_availability p = Legal"
  then obtain p where p: "p \<in> set ps" "tp_to p = b" "tp_availability p = Legal" by blast
  have "tile_res w b \<and> pass w b \<and> cost w b \<noteq> 0"
    using p assms(4) unfolding forward_eq [OF assms(1-3)]
    by (auto simp: regular_probes_def special_probes_def missing_probe_def Let_def split: if_splits)
  moreover from this have "legal_edge w ks a b"
    using probes_to [OF assms(1-3), of b, folded legal_edge_def] assms(4) p by auto
  ultimately show "tile_res w b \<and> pass w b \<and> cost w b \<noteq> 0 \<and> legal_edge w ks a b" by blast
next
  assume "tile_res w b \<and> pass w b \<and> cost w b \<noteq> 0 \<and> legal_edge w ks a b"
  then show "\<exists>p \<in> set ps. tp_to p = b \<and> tp_availability p = Legal"
    using probes_to [OF assms(1-3), of b, folded legal_edge_def] assms(4) by auto
qed

lemma edge_status_Moved: "edge_status pr w ks a b = Moved \<longleftrightarrow> legal_edge w ks a b"
  by (simp add: edge_status_def)

lemma verdict_Moved:
  assumes "inv w" "shape_contains (wa_shape A) (mi_from i)" "provider_forward pr w (mi_from i) = Some ks"
    and "for_each_forward A cls pr w (mi_from i) = Some ps"
  shows "verdict pr ks w i = Moved \<longleftrightarrow>
    tile_res w (mi_from i) \<and> pass w (mi_from i)
    \<and> (\<exists>p \<in> set ps. tp_to p = mi_to i \<and> tp_availability p = Legal)
    \<and> \<not> held w (mi_to i) \<and> \<not> flagged w (mi_to i) \<and> version_status w i = Moved"
  unfolding legal_probe [OF assms] using assms(2)
  by (auto simp: verdict_def Let_def edge_status_Moved tile_res_def)

subsection \<open>What a commit changes\<close>

definition marks :: "movement_intent \<Rightarrow> dirty_mask \<Rightarrow> chunk_key \<Rightarrow> dirty_call list" where
  "marks i m k = (if k = key_at (mi_from i) then [MarkDirty m (unit_box (mi_from i))] else [])
     @ (if k = key_at (mi_to i) then [MarkDirty m (unit_box (mi_to i))] else [])"

lemma mark_none_iff: "dirty_step (MarkDirty m b) e = None \<longleftrightarrow> \<not> dirty_empty m \<and> version_of e = 2 ^ 64 - 1"
proof (cases e)
  case (fields d bd meta)
  have "cv_value (cm_content_version meta) = u64_max \<longleftrightarrow> unat (cv_value (cm_content_version meta)) = 2 ^ 64 - 1"
    by (simp add: word_unat_eq_iff)
  then show ?thesis
    by (auto simp: fields meta_mark_dirty_def version_of_def content_version_inc_def Let_def)
qed

lemma mark_empty: "dirty_empty m \<Longrightarrow> dirty_step (MarkDirty m b) e = Some e"
  by (cases e) (simp add: meta_mark_dirty_def)

lemma run_marks_empty: "dirty_empty m \<Longrightarrow> dirty_run (marks i m k) e = Some e"
  by (simp add: marks_def mark_empty del: dirty_step.simps)

lemma mark_at:
  assumes "inv w" "tile_res w c"
  shows "case dirty_step (MarkDirty m b) (entry w (key_at c)) of
      None \<Rightarrow> wa_mark_dirty A w (key_at c) m b = None
    | Some e \<Rightarrow> \<exists>w'. wa_mark_dirty A w (key_at c) m b = Some w' \<and> inv w' \<and> res w' = res w
        \<and> tile_value_at A w' = tile_value_at A w
        \<and> (\<forall>k. dense_valid_key (wa_shape A) k \<and> res w k \<longrightarrow>
             entry w' k = (if k = key_at c then e else entry w k))"
proof (cases "dirty_step (MarkDirty m b) (entry w (key_at c))")
  case None
  have "shape_contains (wa_shape A) c" "res w (key_at c)" using assms(2) by (simp_all add: tile_res_def)
  with None mark_none [OF assms(1) resolved(2) [OF assms(1)]] show ?thesis by simp
next
  case (Some e)
  with mark_tile [OF assms Some] show ?thesis by simp
qed

lemma apply_effect:
  assumes "inv w" "tile_res w a" "tile_res w b" "vm_from v = tile_at a" "vm_to v = tile_at b"
    and "vm_result v = \<lparr>mr_status = Moved, mr_from = a, mr_to = b\<rparr>" "mi_from i = a" "mi_to i = b"
  shows "case apply_movement A otag rtag m v w of
      None \<Rightarrow> \<not> dirty_empty m \<and> (2 ^ 64 - 2 \<le> version_of (entry w (key_at a)) \<or> 2 ^ 64 - 2 \<le> version_of (entry w (key_at b)))
    | Some w' \<Rightarrow> inv w' \<and> res w' = res w
        \<and> (\<forall>t c. tile_value_at A w' t c =
             (if t = otag \<and> c = b then Some 1 else if t = otag \<and> c = a then Some 0
              else if t = rtag \<and> c = b then Some 0 else tile_value_at A w t c))
        \<and> (\<forall>k. dense_valid_key (wa_shape A) k \<and> res w k \<longrightarrow> dirty_run (marks i m k) (entry w k) = Some (entry w' k))"
proof -
  note tags = tags_law [OF assms(1)] tags_distinct [OF assms(1)]
  have sch: "contains_field_tag otag (wa_schema A)" "contains_field_tag rtag (wa_schema A)" using tags by simp_all
  obtain w1 where w1: "wa_set_tile A w (key_at a) otag (id_at a) 0 = Some w1" "inv w1" "res w1 = res w" "entry w1 = entry w"
    "\<forall>t c. tile_value_at A w1 t c = (if t = otag \<and> c = a then Some 0 else tile_value_at A w t c)"
    using set_tile [OF assms(1,2) sch(1), of 0] by blast
  have b1: "tile_res w1 b" using assms(3) set_tile_res [OF w1(3)] by simp
  obtain w2 where w2: "wa_set_tile A w1 (key_at b) otag (id_at b) 1 = Some w2" "inv w2" "res w2 = res w1" "entry w2 = entry w1"
    "\<forall>t c. tile_value_at A w2 t c = (if t = otag \<and> c = b then Some 1 else tile_value_at A w1 t c)"
    using set_tile [OF w1(2) b1 sch(1), of 1] by blast
  have b2: "tile_res w2 b" using b1 set_tile_res [OF w2(3)] by simp
  obtain w3 where w3: "wa_set_tile A w2 (key_at b) rtag (id_at b) 0 = Some w3" "inv w3" "res w3 = res w2" "entry w3 = entry w2"
    "\<forall>t c. tile_value_at A w3 t c = (if t = rtag \<and> c = b then Some 0 else tile_value_at A w2 t c)"
    using set_tile [OF w2(2) b2 sch(2), of 0] by blast
  have a3: "tile_res w3 a" and b3: "tile_res w3 b"
    using assms(2,3) set_tile_res [of w3 w] w1(3) w2(3) w3(3) by simp_all
  have vals: "tile_value_at A w3 t c =
      (if t = otag \<and> c = b then Some 1 else if t = otag \<and> c = a then Some 0
       else if t = rtag \<and> c = b then Some 0 else tile_value_at A w t c)" for t c
    using w1(5) w2(5) w3(5) tags(2) by auto
  have ent: "entry w3 = entry w" using w1(4) w2(4) w3(4) by simp
  have run: "apply_movement A otag rtag m v w = (if dirty_empty m then Some w3
      else Option.bind (wa_mark_dirty A w3 (key_at a) m (unit_box a)) (\<lambda>w4. wa_mark_dirty A w4 (key_at b) m (unit_box b)))"
    by (simp add: apply_movement_def assms(4-6) tile_at_def w1(1) w2(1) w3(1) Let_def)
  show ?thesis
  proof (cases "dirty_empty m")
    case True
    then show ?thesis using w1(3) w2(3) w3(2,3) vals ent by (simp add: run run_marks_empty del: dirty_run.simps)
  next
    case False
    have keys: "dense_valid_key (wa_shape A) (key_at a)" "res w (key_at a)"
      "dense_valid_key (wa_shape A) (key_at b)" "res w (key_at b)"
      using assms(2,3) resolved(2) [OF assms(1)] by (simp_all add: tile_res_def)
    show ?thesis
    proof (cases "dirty_step (MarkDirty m (unit_box a)) (entry w (key_at a))")
      case None
      then have "wa_mark_dirty A w3 (key_at a) m (unit_box a) = None"
        using mark_at [OF w3(2) a3, of m "unit_box a"] by (simp only: ent option.case)
      with None False show ?thesis by (simp add: run mark_none_iff del: dirty_step.simps)
    next
      case (Some e)
      then obtain w4 where w4: "wa_mark_dirty A w3 (key_at a) m (unit_box a) = Some w4" "inv w4" "res w4 = res w3"
        "tile_value_at A w4 = tile_value_at A w3"
        "\<forall>k. dense_valid_key (wa_shape A) k \<and> res w3 k \<longrightarrow> entry w4 k = (if k = key_at a then e else entry w3 k)"
        using mark_at [OF w3(2) a3, of m "unit_box a"] unfolding ent by (simp only: option.case) blast
      have res3: "res w3 = res w" using w1(3) w2(3) w3(3) by simp
      have b4: "tile_res w4 b" using b3 set_tile_res [OF w4(3)] by simp
      have e4: "entry w4 (key_at b) = (if key_at b = key_at a then e else entry w (key_at b))"
        using w4(5) keys(3,4) res3 ent by simp
      have ver: "version_of e = version_of (entry w (key_at a)) + 1" using dirty_step_version [OF Some] False by simp
      show ?thesis
      proof (cases "dirty_step (MarkDirty m (unit_box b)) (entry w4 (key_at b))")
        case None
        then have "wa_mark_dirty A w4 (key_at b) m (unit_box b) = None"
          using mark_at [OF w4(2) b4, of m "unit_box b"] by (simp only: option.case)
        moreover have "version_of (entry w4 (key_at b)) = 2 ^ 64 - 1" using None by (simp add: mark_none_iff del: dirty_step.simps)
        ultimately show ?thesis using False ver e4 by (auto simp: run w4(1) split: if_splits)
      next
        case Some': (Some e')
        then obtain w5 where w5: "wa_mark_dirty A w4 (key_at b) m (unit_box b) = Some w5" "inv w5" "res w5 = res w4"
          "tile_value_at A w5 = tile_value_at A w4"
          "\<forall>k. dense_valid_key (wa_shape A) k \<and> res w4 k \<longrightarrow> entry w5 k = (if k = key_at b then e' else entry w4 k)"
          using mark_at [OF w4(2) b4, of m "unit_box b"] by (simp only: option.case) blast
        have "dirty_run (marks i m k) (entry w k) = Some (entry w5 k)"
          if k: "dense_valid_key (wa_shape A) k \<and> res w k" for k
        proof -
          have k4: "entry w4 k = (if k = key_at a then e else entry w k)" using w4(5) k res3 ent by simp
          have k5: "entry w5 k = (if k = key_at b then e' else entry w4 k)" using w5(5) k res3 w4(3) by simp
          show ?thesis using Some Some' [unfolded e4] k4 k5
            by (cases "key_at b = key_at a"; cases "k = key_at b") (simp_all add: marks_def assms(7,8) del: dirty_step.simps)
        qed
        then show ?thesis using False w5 w4(3,4) res3 vals by (simp add: run w4(1))
      qed
    qed
  qed
qed

lemma commit_eq:
  assumes "inv w" "shape_contains (wa_shape A) (mi_from i) \<Longrightarrow> provider_forward pr w (mi_from i) = Some ks"
  shows "if verdict pr ks w i \<noteq> Moved
    then commit_movement_intent A cls otag rtag pr m w i
      = Some (\<lparr>mr_status = verdict pr ks w i, mr_from = mi_from i, mr_to = mi_to i\<rparr>, w)
    else case commit_movement_intent A cls otag rtag pr m w i of
      None \<Rightarrow> \<not> dirty_empty m \<and> (2 ^ 64 - 2 \<le> version_of (entry w (key_at (mi_from i)))
        \<or> 2 ^ 64 - 2 \<le> version_of (entry w (key_at (mi_to i))))
    | Some (r, w') \<Rightarrow> r = \<lparr>mr_status = Moved, mr_from = mi_from i, mr_to = mi_to i\<rparr> \<and> inv w' \<and> res w' = res w
        \<and> (\<forall>t c. tile_value_at A w' t c =
             (if t = otag \<and> c = mi_to i then Some 1 else if t = otag \<and> c = mi_from i then Some 0
              else if t = rtag \<and> c = mi_to i then Some 0 else tile_value_at A w t c))
        \<and> (\<forall>k. dense_valid_key (wa_shape A) k \<and> res w k \<longrightarrow> dirty_run (marks i m k) (entry w k) = Some (entry w' k))"
proof (cases "verdict pr ks w i = Moved")
  case False
  then show ?thesis
    by (simp add: commit_movement_intent_def validate_eq [where w=w and pr=pr, OF assms] movement_failed_def)
next
  case True
  let ?a = "mi_from i" and ?b = "mi_to i"
  define v where "v = \<lparr>vm_result = \<lparr>mr_status = Moved, mr_from = ?a, mr_to = ?b\<rparr>, vm_from = tile_at ?a, vm_to = tile_at ?b\<rparr>"
  have res: "tile_res w ?a" "tile_res w ?b" using True by (auto simp: verdict_def Let_def split: if_splits)
  have commit: "commit_movement_intent A cls otag rtag pr m w i
      = Option.bind (apply_movement A otag rtag m v w) (\<lambda>w'. Some (vm_result v, w'))"
    using True by (simp add: commit_movement_intent_def validate_eq [where w=w and pr=pr, OF assms] v_def)
  show ?thesis
    using apply_effect [OF assms(1) res, of v i m] True
    by (cases "apply_movement A otag rtag m v w") (simp_all add: commit v_def)
qed

lemma commit_Some:
  assumes "inv w" "shape_contains (wa_shape A) (mi_from i) \<Longrightarrow> provider_forward pr w (mi_from i) = Some ks"
    and "commit_movement_intent A cls otag rtag pr m w i = Some (r, w')"
  shows "r = \<lparr>mr_status = verdict pr ks w i, mr_from = mi_from i, mr_to = mi_to i\<rparr>"
    and "inv w'" "res w' = res w"
    and "verdict pr ks w i \<noteq> Moved \<Longrightarrow> w' = w"
    and "verdict pr ks w i = Moved \<Longrightarrow> tile_value_at A w' t c =
             (if t = otag \<and> c = mi_to i then Some 1 else if t = otag \<and> c = mi_from i then Some 0
              else if t = rtag \<and> c = mi_to i then Some 0 else tile_value_at A w t c)"
    and "verdict pr ks w i = Moved \<Longrightarrow> dense_valid_key (wa_shape A) k \<Longrightarrow> res w k \<Longrightarrow>
             dirty_run (marks i m k) (entry w k) = Some (entry w' k)"
  using commit_eq [where w=w and pr=pr and m=m, OF assms(1,2)] assms(1,3) by (auto split: if_splits)

lemma versions_match_eq:
  assumes "inv w" "tile_res w (mi_from i)" "tile_res w (mi_to i)"
  shows "movement_versions_match A w i = Some (version_status w i)"
proof -
  have c: "shape_contains (wa_shape A) (mi_from i)" "shape_contains (wa_shape A) (mi_to i)"
    "res w (key_at (mi_from i))" "res w (key_at (mi_to i))"
    using assms(2,3) by (simp_all add: tile_res_def)
  note r = resolved [OF assms(1) c(1)] resolved [OF assms(1) c(2)]
  show ?thesis
    using c r meta_law [OF assms(1) r(2) c(3)] meta_law [OF assms(1) r(5) c(4)]
      resident_law [OF assms(1) r(2)] resident_law [OF assms(1) r(5)]
    by (simp add: movement_versions_match_def endpoints_resident_def version_status_def no_expectations Let_def)
qed

end

end
