(* ===== verification/Path_Types.thy ===== *)
theory Path_Types imports Shape_Keys begin

text \<open>
  The values path requests and results are made of (\<open>path/request.h\<close>, the first part of
  \<open>path/path.h\<close>) and the request book of \<open>path/path_runtime.h\<close>: the batch of submitted requests,
  the published results and the generation that stamps their tickets. A path view is the list of
  its coordinates. The calls that terminate the process on a bad ticket are \<^const>\<open>None\<close>.
\<close>

record path_request =
  pq_start :: coord3
  pq_goal :: coord3

datatype missing_chunk_policy = AssumeImpassable | ReportIndeterminate

datatype path_tie_break = PathTieBreak (tie_seed: u64)

datatype path_status =
  NotComputed | Found | InvalidStart | InvalidGoal | NoPath | Indeterminate | CostOverflow | NoCandidate

record path_result =
  pr_status :: path_status
  pr_cost :: u32
  pr_expanded_nodes :: u64
  pr_reached_nodes :: u64
  pr_path :: "coord3 list"
  pr_cost_scale :: u32

definition default_path_result :: path_result where
  "default_path_result = \<lparr>pr_status = NotComputed, pr_cost = 0, pr_expanded_nodes = 0, pr_reached_nodes = 0,
     pr_path = [], pr_cost_scale = 1\<rparr>"

subsection \<open>The request book\<close>

record path_ticket =
  pt_value :: u64
  pt_generation :: u64

definition default_path_ticket :: path_ticket where
  "default_path_ticket = \<lparr>pt_value = 0, pt_generation = 0\<rparr>"

record request_book =
  rb_requests :: "path_request list"
  rb_results :: "path_result list"
  rb_published :: bool
  rb_generation :: u64

definition clear_requests :: "request_book \<Rightarrow> request_book" where
  "clear_requests b = b\<lparr>rb_requests := [], rb_results := [], rb_published := False,
     rb_generation := rb_generation b + 1\<rparr>"

definition submit_request :: "path_request \<Rightarrow> request_book \<Rightarrow> path_ticket \<times> request_book" where
  "submit_request q b =
     (\<lparr>pt_value = of_nat (length (rb_requests b)), pt_generation = rb_generation b\<rparr>,
      b\<lparr>rb_requests := rb_requests b @ [q]\<rparr>)"

definition try_result :: "path_ticket \<Rightarrow> request_book \<Rightarrow> path_result option" where
  "try_result t b =
     (if pt_generation t \<noteq> rb_generation b \<or> \<not> rb_published b \<or> length (rb_results b) \<le> unat (pt_value t) then None
      else nth_opt (rb_results b) (unat (pt_value t)))"

definition request_result :: "path_ticket \<Rightarrow> request_book \<Rightarrow> path_result option" where
  "request_result t b =
     (if pt_generation t \<noteq> rb_generation b then None
      else if \<not> rb_published b then None
      else if length (rb_results b) \<le> unat (pt_value t) then None
      else nth_opt (rb_results b) (unat (pt_value t)))"

end
