(* ===== verification/Path_Agent.thy ===== *)
theory Path_Agent imports Path_Types Movement Flow_Accounting begin

text \<open>
  \<open>sim/path_agent.h\<close>: the life cycle of an agent that follows a planned route, and the pass that
  advances agents along retained routes through validated commits. The optional accountant is a
  value passed through; the observer of the commits is modelled by the list of its calls.
\<close>

subsection \<open>State\<close>

datatype path_agent_phase = Idle | NeedsPath | Following | Blocked_phase | Unreachable

record path_agent =
  pa_position :: coord3
  pa_goal :: coord3
  pa_ticket :: path_ticket
  pa_path_index :: u64
  pa_last_result :: "path_status option"
  pa_phase :: path_agent_phase
  pa_has_goal :: bool
  pa_blocked_retries :: u32
  pa_armed_tick :: u64

definition default_path_agent :: path_agent where
  "default_path_agent = \<lparr>pa_position = default_coord3, pa_goal = default_coord3, pa_ticket = default_path_ticket,
     pa_path_index = 0, pa_last_result = None, pa_phase = Idle, pa_has_goal = False, pa_blocked_retries = 0,
     pa_armed_tick = 0\<rparr>"

record path_agent_stats =
  ps_submitted :: u64
  ps_completed :: u64
  ps_found :: u64
  ps_invalid_start :: u64
  ps_invalid_goal :: u64
  ps_no_path :: u64
  ps_not_computed :: u64
  ps_no_candidate :: u64
  ps_indeterminate :: u64
  ps_cost_overflow :: u64
  ps_precheck_ruled_out :: u64
  ps_expanded_nodes :: u64
  ps_advanced :: u64
  ps_arrived :: u64
  ps_blocked_waits :: u64
  ps_failures :: movement_failure_counts

definition no_agent_stats :: path_agent_stats where
  "no_agent_stats = \<lparr>ps_submitted = 0, ps_completed = 0, ps_found = 0, ps_invalid_start = 0, ps_invalid_goal = 0,
     ps_no_path = 0, ps_not_computed = 0, ps_no_candidate = 0, ps_indeterminate = 0, ps_cost_overflow = 0,
     ps_precheck_ruled_out = 0, ps_expanded_nodes = 0, ps_advanced = 0, ps_arrived = 0, ps_blocked_waits = 0,
     ps_failures = no_failures\<rparr>"

record path_agent_advance_options =
  ao_max_steps :: u64
  ao_dirty_mask :: dirty_mask

datatype path_submit_scope = AllAgents | NeedsOnly

type_synonym path_agent_routes = "coord3 list list"

definition routes_ensure_size :: "nat \<Rightarrow> path_agent_routes \<Rightarrow> path_agent_routes" where
  "routes_ensure_size n routes = (if length routes < n then routes @ replicate (n - length routes) [] else routes)"

subsection \<open>Life cycle\<close>

definition movement_block_can_retry_route :: "movement_status \<Rightarrow> bool" where
  "movement_block_can_retry_route st \<longleftrightarrow> st = Occupied \<or> st = Reserved"

definition block_path_agent :: "movement_status \<Rightarrow> path_agent \<Rightarrow> path_agent" where
  "block_path_agent st a =
     (let a1 = a\<lparr>pa_phase := Blocked_phase\<rparr>
      in if \<not> movement_block_can_retry_route st then a1\<lparr>pa_last_result := None\<rparr> else a1)"

definition resume_path_agent :: "path_agent \<Rightarrow> path_agent" where
  "resume_path_agent a = a\<lparr>pa_phase := Following, pa_blocked_retries := 0\<rparr>"

definition can_skip_scoped_path_submission :: "path_agent \<Rightarrow> bool" where
  "can_skip_scoped_path_submission a \<longleftrightarrow>
     pa_phase a = Following \<or> (pa_phase a = Blocked_phase \<and> pa_last_result a = Some Found)"

definition has_next_step :: "u64 \<Rightarrow> u64 \<Rightarrow> bool" where
  "has_next_step path_index n \<longleftrightarrow> 0 < n \<and> path_index < n - 1"

definition set_path_agent_goal :: "coord3 \<Rightarrow> path_agent \<Rightarrow> path_agent" where
  "set_path_agent_goal goal a = a\<lparr>pa_goal := goal, pa_path_index := 0, pa_last_result := None,
     pa_phase := NeedsPath, pa_blocked_retries := 0, pa_has_goal := True\<rparr>"

definition clear_path_agent_goal :: "path_agent \<Rightarrow> path_agent" where
  "clear_path_agent_goal a = a\<lparr>pa_goal := default_coord3, pa_ticket := default_path_ticket, pa_path_index := 0,
     pa_last_result := None, pa_phase := Idle, pa_blocked_retries := 0, pa_has_goal := False\<rparr>"

definition path_agent_goal_outstanding :: "path_agent \<Rightarrow> bool" where
  "path_agent_goal_outstanding a \<longleftrightarrow> pa_has_goal a \<and> pa_phase a \<noteq> Unreachable"

definition fail_path_agent_flow :: "path_agent \<Rightarrow> flow_accounting option \<Rightarrow> flow_accounting option" where
  "fail_path_agent_flow a = map_option (\<lambda>f.
     leave_item (pa_armed_tick a) (account (\<lambda>c. c\<lparr>fc_failed := fc_failed c + 1\<rparr>) f))"

definition arrive_path_agent :: "path_agent \<Rightarrow> flow_accounting option \<Rightarrow> path_agent \<times> flow_accounting option" where
  "arrive_path_agent a acct =
     (clear_path_agent_goal a, map_option (\<lambda>f.
        leave_item (pa_armed_tick a) (account (\<lambda>c. c\<lparr>fc_completed := fc_completed c + 1\<rparr>) f)) acct)"

definition record_path_agent_status :: "path_status \<Rightarrow> path_agent_stats \<Rightarrow> path_agent_stats" where
  "record_path_agent_status st s =
     (case st of
        NotComputed \<Rightarrow> s\<lparr>ps_not_computed := ps_not_computed s + 1\<rparr>
      | Found \<Rightarrow> s\<lparr>ps_found := ps_found s + 1\<rparr>
      | InvalidStart \<Rightarrow> s\<lparr>ps_invalid_start := ps_invalid_start s + 1\<rparr>
      | InvalidGoal \<Rightarrow> s\<lparr>ps_invalid_goal := ps_invalid_goal s + 1\<rparr>
      | NoPath \<Rightarrow> s\<lparr>ps_no_path := ps_no_path s + 1\<rparr>
      | Indeterminate \<Rightarrow> s\<lparr>ps_indeterminate := ps_indeterminate s + 1\<rparr>
      | CostOverflow \<Rightarrow> s\<lparr>ps_cost_overflow := ps_cost_overflow s + 1\<rparr>
      | NoCandidate \<Rightarrow> s\<lparr>ps_no_candidate := ps_no_candidate s + 1\<rparr>)"

subsection \<open>Submitting requests and applying results\<close>

text \<open>One agent of the submit loop and of the apply loop.\<close>

definition submit_path_agent ::
    "path_submit_scope \<Rightarrow> path_agent \<Rightarrow> request_book \<times> flow_accounting option \<times> path_agent_stats
     \<Rightarrow> path_agent \<times> request_book \<times> flow_accounting option \<times> path_agent_stats" where
  "submit_path_agent scope a = (\<lambda>(b, acct, s).
     if scope = NeedsOnly \<and> can_skip_scoped_path_submission a then (a, b, acct, s)
     else let a1 = a\<lparr>pa_path_index := 0\<rparr> in
       if \<not> pa_has_goal a1 \<or> pa_phase a1 = Unreachable then (a1, b, acct, s)
       else if pa_position a1 = pa_goal a1
       then case arrive_path_agent a1 acct of (a2, acct') \<Rightarrow> (a2, b, acct', s\<lparr>ps_arrived := ps_arrived s + 1\<rparr>)
       else case submit_request \<lparr>pq_start = pa_position a1, pq_goal = pa_goal a1\<rparr> b of
              (t, b') \<Rightarrow> (a1\<lparr>pa_ticket := t\<rparr>, b', acct, s\<lparr>ps_submitted := ps_submitted s + 1\<rparr>))"

fun submit_each ::
    "path_submit_scope \<Rightarrow> path_agent list \<Rightarrow> request_book \<times> flow_accounting option \<times> path_agent_stats
     \<Rightarrow> path_agent list \<times> request_book \<times> flow_accounting option \<times> path_agent_stats" where
  "submit_each scope [] r = ([], r)"
| "submit_each scope (a # as) r =
     (case submit_path_agent scope a r of (a', r') \<Rightarrow>
      case submit_each scope as r' of (as', r'') \<Rightarrow> (a' # as', r''))"

definition submit_path_agents ::
    "path_submit_scope \<Rightarrow> path_agent list \<Rightarrow> request_book \<Rightarrow> flow_accounting option
     \<Rightarrow> path_agent list \<times> request_book \<times> flow_accounting option \<times> path_agent_stats" where
  "submit_path_agents scope agents b acct = submit_each scope agents (clear_requests b, acct, no_agent_stats)"

definition apply_path_agent_result ::
    "path_submit_scope \<Rightarrow> request_book \<Rightarrow> path_agent \<Rightarrow> coord3 list \<Rightarrow> path_agent_stats
     \<Rightarrow> (path_agent \<times> coord3 list \<times> path_agent_stats) option" where
  "apply_path_agent_result scope b a route s =
     (if scope = NeedsOnly \<and> can_skip_scoped_path_submission a then Some (a, route, s)
      else if \<not> pa_has_goal a \<or> pa_position a = pa_goal a \<or> pa_phase a = Unreachable then Some (a, route, s)
      else do {
        r \<leftarrow> request_result (pa_ticket a) b;
        let a1 = a\<lparr>pa_last_result := Some (pr_status r), pa_path_index := 0\<rparr>;
        let s1 = record_path_agent_status (pr_status r)
                   (s\<lparr>ps_completed := ps_completed s + 1, ps_expanded_nodes := ps_expanded_nodes s + pr_expanded_nodes r\<rparr>);
        Some (if pr_status r = Found
              then ((a1\<lparr>pa_phase := Following\<rparr>)\<lparr>pa_blocked_retries :=
                      (if pa_phase a \<noteq> Blocked_phase then 0 else pa_blocked_retries a)\<rparr>, pr_path r, s1)
              else (a1\<lparr>pa_phase := Blocked_phase\<rparr>, [], s1))
      })"

fun apply_each ::
    "path_submit_scope \<Rightarrow> request_book \<Rightarrow> path_agent list \<Rightarrow> path_agent_routes \<Rightarrow> path_agent_stats
     \<Rightarrow> (path_agent list \<times> path_agent_routes \<times> path_agent_stats) option" where
  "apply_each scope b [] routes s = Some ([], routes, s)"
| "apply_each scope b (a # as) (route # routes) s = do {
     (a', route', s1) \<leftarrow> apply_path_agent_result scope b a route s;
     (as', routes', s2) \<leftarrow> apply_each scope b as routes s1;
     Some (a' # as', route' # routes', s2)
   }"
| "apply_each scope b (a # as) [] s = None"

definition apply_path_agent_results ::
    "path_submit_scope \<Rightarrow> request_book \<Rightarrow> path_agent list \<Rightarrow> path_agent_routes
     \<Rightarrow> (path_agent list \<times> path_agent_routes \<times> path_agent_stats) option" where
  "apply_path_agent_results scope b agents routes =
     apply_each scope b agents (routes_ensure_size (length agents) routes) no_agent_stats"

subsection \<open>Advancing without validation\<close>

text \<open>One agent and its retained route; the fuel is the number of steps the options allow.\<close>

definition arrive_if_there ::
    "path_agent \<Rightarrow> flow_accounting option \<times> path_agent_stats \<Rightarrow> path_agent \<times> flow_accounting option \<times> path_agent_stats" where
  "arrive_if_there a = (\<lambda>(acct, s).
     if pa_position a = pa_goal a
     then case arrive_path_agent a acct of
            (a1, acct') \<Rightarrow> (a1\<lparr>pa_last_result := Some Found\<rparr>, acct', s\<lparr>ps_arrived := ps_arrived s + 1\<rparr>)
     else (a, acct, s))"

definition step_along :: "coord3 \<Rightarrow> path_agent \<Rightarrow> path_agent" where
  "step_along to a = resume_path_agent (a\<lparr>pa_path_index := pa_path_index a + 1, pa_position := to\<rparr>)"

fun advance_steps ::
    "nat \<Rightarrow> coord3 list \<Rightarrow> path_agent \<Rightarrow> flow_accounting option \<times> path_agent_stats
     \<Rightarrow> (path_agent \<times> flow_accounting option \<times> path_agent_stats) option" where
  "advance_steps 0 route a r = Some (a, r)"
| "advance_steps (Suc n) route a (acct, s) =
     (if \<not> has_next_step (pa_path_index a) (of_nat (length route)) then Some (a, acct, s)
      else do {
        to \<leftarrow> nth_opt route (unat (pa_path_index a + 1));
        let a1 = step_along to a;
        let (a2, r) = arrive_if_there a1 (acct, s\<lparr>ps_advanced := ps_advanced s + 1\<rparr>);
        if pa_position a1 = pa_goal a1 then Some (a2, r) else advance_steps n route a2 r
      })"

definition wants_to_move :: "path_agent \<Rightarrow> bool" where
  "wants_to_move a \<longleftrightarrow> pa_has_goal a \<and> pa_last_result a = Some Found"

fun advance_each ::
    "nat \<Rightarrow> path_agent list \<Rightarrow> path_agent_routes \<Rightarrow> flow_accounting option \<times> path_agent_stats
     \<Rightarrow> (path_agent list \<times> flow_accounting option \<times> path_agent_stats) option" where
  "advance_each n [] routes r = Some ([], r)"
| "advance_each n (a # as) (route # routes) r = do {
     (a', r1) \<leftarrow> (if \<not> wants_to_move a \<or> route = [] then Some (a, r) else advance_steps n route a r);
     (as', r2) \<leftarrow> advance_each n as routes r1;
     Some (a' # as', r2)
   }"
| "advance_each n (a # as) [] r = None"

definition advance_path_agents ::
    "u64 \<Rightarrow> path_agent list \<Rightarrow> path_agent_routes \<Rightarrow> flow_accounting option
     \<Rightarrow> (path_agent list \<times> flow_accounting option \<times> path_agent_stats) option" where
  "advance_path_agents max_steps agents routes acct =
     (if length routes < length agents then None
      else if max_steps = 0 then Some (agents, acct, no_agent_stats)
      else advance_each (unat max_steps) agents routes (acct, no_agent_stats))"

text \<open>The overload that reads the runtime's results: agents without a found path stay.\<close>

definition result_route :: "request_book \<Rightarrow> path_agent \<Rightarrow> coord3 list option" where
  "result_route b a = map_option (\<lambda>r. if pr_status r \<noteq> Found then [] else pr_path r) (request_result (pa_ticket a) b)"

fun advance_each_result ::
    "nat \<Rightarrow> path_agent list \<Rightarrow> request_book \<Rightarrow> flow_accounting option \<times> path_agent_stats
     \<Rightarrow> (path_agent list \<times> flow_accounting option \<times> path_agent_stats) option" where
  "advance_each_result n [] b r = Some ([], r)"
| "advance_each_result n (a # as) b r = do {
     (a', r1) \<leftarrow> (if \<not> wants_to_move a then Some (a, r)
       else do { route \<leftarrow> result_route b a; if route = [] then Some (a, r) else advance_steps n route a r });
     (as', r2) \<leftarrow> advance_each_result n as b r1;
     Some (a' # as', r2)
   }"

definition advance_path_agents_by_result ::
    "u64 \<Rightarrow> path_agent list \<Rightarrow> request_book \<Rightarrow> flow_accounting option
     \<Rightarrow> (path_agent list \<times> flow_accounting option \<times> path_agent_stats) option" where
  "advance_path_agents_by_result max_steps agents b acct =
     (if max_steps = 0 then Some (agents, acct, no_agent_stats)
      else advance_each_result (unat max_steps) agents b (acct, no_agent_stats))"

subsection \<open>Advancing through commits\<close>

record ('w) advance_state =
  ad_world :: 'w
  ad_accounting :: "flow_accounting option"
  ad_stats :: path_agent_stats
  ad_commits :: "(nat \<times> coord3 \<times> coord3) list"

text \<open>A refused step: a transient failure blocks the agent, any other is terminal for its goal.\<close>

definition refuse_step :: "movement_status \<Rightarrow> path_agent \<Rightarrow> 'w advance_state \<Rightarrow> path_agent \<times> 'w advance_state" where
  "refuse_step st a d =
     (let s = (ad_stats d)\<lparr>ps_failures := record_movement_failure st (ps_failures (ad_stats d))\<rparr> in
      if is_transient_movement_failure st
      then (block_path_agent st a, d\<lparr>ad_stats := s\<lparr>ps_blocked_waits := ps_blocked_waits s + 1\<rparr>\<rparr>)
      else (a\<lparr>pa_last_result := None, pa_phase := Unreachable\<rparr>,
            d\<lparr>ad_stats := s, ad_accounting := fail_path_agent_flow a (ad_accounting d)\<rparr>))"

fun movement_steps ::
    "('t, 'w) tile_api \<Rightarrow> 't movement_class \<Rightarrow> 't \<Rightarrow> 't \<Rightarrow> 'w provider \<Rightarrow> dirty_mask \<Rightarrow> nat \<Rightarrow> nat \<Rightarrow> coord3 list
     \<Rightarrow> path_agent \<Rightarrow> 'w advance_state \<Rightarrow> (path_agent \<times> 'w advance_state) option" where
  "movement_steps A cls otag rtag pr dirt i 0 route a d = Some (a, d)"
| "movement_steps A cls otag rtag pr dirt i (Suc n) route a d =
     (if \<not> has_next_step (pa_path_index a) (of_nat (length route)) then Some (a, d)
      else do {
        to \<leftarrow> nth_opt route (unat (pa_path_index a + 1));
        (movement, w) \<leftarrow> commit_movement_intent A cls otag rtag pr dirt (ad_world d)
           \<lparr>mi_from = pa_position a, mi_to = to, mi_versions = no_versions\<rparr>;
        if mr_status movement \<noteq> Moved then Some (refuse_step (mr_status movement) a (d\<lparr>ad_world := w\<rparr>))
        else do {
          let a1 = step_along to a;
          let s = (ad_stats d)\<lparr>ps_advanced := ps_advanced (ad_stats d) + 1\<rparr>;
          let (a2, acct, s2) = arrive_if_there a1 (ad_accounting d, s);
          let d2 = \<lparr>ad_world = w, ad_accounting = acct, ad_stats = s2,
                    ad_commits = ad_commits d @ [(i, pa_position a, to)]\<rparr>;
          if pa_position a1 = pa_goal a1 then Some (a2, d2)
          else movement_steps A cls otag rtag pr dirt i n route a2 d2
        }
      })"

fun movement_each ::
    "('t, 'w) tile_api \<Rightarrow> 't movement_class \<Rightarrow> 't \<Rightarrow> 't \<Rightarrow> 'w provider \<Rightarrow> dirty_mask \<Rightarrow> nat \<Rightarrow> nat
     \<Rightarrow> path_agent list \<Rightarrow> path_agent_routes \<Rightarrow> 'w advance_state \<Rightarrow> (path_agent list \<times> 'w advance_state) option" where
  "movement_each A cls otag rtag pr dirt n i [] routes d = Some ([], d)"
| "movement_each A cls otag rtag pr dirt n i (a # as) (route # routes) d = do {
     (a', d1) \<leftarrow> (if \<not> wants_to_move a then Some (a, d)
                    else movement_steps A cls otag rtag pr dirt i n route a d);
     (as', d2) \<leftarrow> movement_each A cls otag rtag pr dirt n (Suc i) as routes d1;
     Some (a' # as', d2)
   }"
| "movement_each A cls otag rtag pr dirt n i (a # as) [] d = None"

text \<open>The overload that takes a provider, and the one that reports its commits to an observer.\<close>

definition advance_path_agents_with_movement ::
    "('t, 'w) tile_api \<Rightarrow> 't movement_class \<Rightarrow> 't \<Rightarrow> 't \<Rightarrow> 'w provider \<Rightarrow> path_agent_advance_options
     \<Rightarrow> path_agent list \<Rightarrow> path_agent_routes \<Rightarrow> flow_accounting option \<Rightarrow> 'w
     \<Rightarrow> (path_agent list \<times> 'w advance_state) option" where
  "advance_path_agents_with_movement A cls otag rtag pr opts agents routes acct w =
     (let d = \<lparr>ad_world = w, ad_accounting = acct, ad_stats = no_agent_stats, ad_commits = []\<rparr> in
      if length routes < length agents then None
      else if ao_max_steps opts = 0 then Some (agents, d)
      else movement_each A cls otag rtag pr (ao_dirty_mask opts) (unat (ao_max_steps opts)) 0 agents routes d)"

definition advance_path_agents_observed ::
    "('t, 'w) tile_api \<Rightarrow> 't movement_class \<Rightarrow> 't \<Rightarrow> 't \<Rightarrow> path_agent_advance_options
     \<Rightarrow> path_agent list \<Rightarrow> path_agent_routes \<Rightarrow> flow_accounting option \<Rightarrow> 'w
     \<Rightarrow> (path_agent list \<times> 'w advance_state) option" where
  "advance_path_agents_observed A cls otag rtag = advance_path_agents_with_movement A cls otag rtag AdjacentTransitions"

text \<open>The overloads that read the runtime's results.\<close>

fun movement_each_result ::
    "('t, 'w) tile_api \<Rightarrow> 't movement_class \<Rightarrow> 't \<Rightarrow> 't \<Rightarrow> dirty_mask \<Rightarrow> nat \<Rightarrow> nat
     \<Rightarrow> path_agent list \<Rightarrow> request_book \<Rightarrow> 'w advance_state \<Rightarrow> (path_agent list \<times> 'w advance_state) option" where
  "movement_each_result A cls otag rtag dirt n i [] b d = Some ([], d)"
| "movement_each_result A cls otag rtag dirt n i (a # as) b d = do {
     (a', d1) \<leftarrow> (if \<not> wants_to_move a then Some (a, d)
       else do { route \<leftarrow> result_route b a;
                 if route = [] then Some (a, d)
                 else movement_steps A cls otag rtag AdjacentTransitions dirt i n route a d });
     (as', d2) \<leftarrow> movement_each_result A cls otag rtag dirt n (Suc i) as b d1;
     Some (a' # as', d2)
   }"

definition advance_path_agents_with_movement_by_result ::
    "('t, 'w) tile_api \<Rightarrow> 't movement_class \<Rightarrow> 't \<Rightarrow> 't \<Rightarrow> path_agent_advance_options
     \<Rightarrow> path_agent list \<Rightarrow> request_book \<Rightarrow> flow_accounting option \<Rightarrow> 'w
     \<Rightarrow> (path_agent list \<times> 'w advance_state) option" where
  "advance_path_agents_with_movement_by_result A cls otag rtag opts agents b acct w =
     (let d = \<lparr>ad_world = w, ad_accounting = acct, ad_stats = no_agent_stats, ad_commits = []\<rparr> in
      if ao_max_steps opts = 0 then Some (agents, d)
      else movement_each_result A cls otag rtag (ao_dirty_mask opts) (unat (ao_max_steps opts)) 0 agents b d)"

definition add_failure_counts :: "movement_failure_counts \<Rightarrow> movement_failure_counts \<Rightarrow> movement_failure_counts" where
  "add_failure_counts l r = \<lparr>mf_invalid = mf_invalid l + mf_invalid r, mf_impassable = mf_impassable l + mf_impassable r,
     mf_blocked = mf_blocked l + mf_blocked r, mf_occupied = mf_occupied l + mf_occupied r,
     mf_reserved = mf_reserved l + mf_reserved r, mf_stale_content = mf_stale_content l + mf_stale_content r,
     mf_stale_topology = mf_stale_topology l + mf_stale_topology r\<rparr>"

definition add_path_agent_stats :: "path_agent_stats \<Rightarrow> path_agent_stats \<Rightarrow> path_agent_stats" where
  "add_path_agent_stats l r = \<lparr>ps_submitted = ps_submitted l + ps_submitted r,
     ps_completed = ps_completed l + ps_completed r, ps_found = ps_found l + ps_found r,
     ps_invalid_start = ps_invalid_start l + ps_invalid_start r, ps_invalid_goal = ps_invalid_goal l + ps_invalid_goal r,
     ps_no_path = ps_no_path l + ps_no_path r, ps_not_computed = ps_not_computed l + ps_not_computed r,
     ps_no_candidate = ps_no_candidate l + ps_no_candidate r, ps_indeterminate = ps_indeterminate l + ps_indeterminate r,
     ps_cost_overflow = ps_cost_overflow l + ps_cost_overflow r,
     ps_precheck_ruled_out = ps_precheck_ruled_out l + ps_precheck_ruled_out r,
     ps_expanded_nodes = ps_expanded_nodes l + ps_expanded_nodes r, ps_advanced = ps_advanced l + ps_advanced r,
     ps_arrived = ps_arrived l + ps_arrived r, ps_blocked_waits = ps_blocked_waits l + ps_blocked_waits r,
     ps_failures = add_failure_counts (ps_failures l) (ps_failures r)\<rparr>"

end
