(* ===== verification/Path_Agent_Tick.thy ===== *)
theory Path_Agent_Tick imports Path_Agent begin

text \<open>
  The parts of \<open>sim/path_agent_tick.h\<close> around the path search: arming and clearing goals with
  accounting, the retry budget, the FIFO of agents that wait for a new path with the pass that
  drains it, and the schedule of checks of blocked agents.
\<close>

subsection \<open>Goals and the retry budget\<close>

datatype blocked_exhaustion_policy = RemainBlocked | MarkUnreachable

record path_agent_tick_options =
  to_max_steps :: u64
  to_max_blocked_retries :: u32
  to_exhaustion_policy :: blocked_exhaustion_policy

record path_agent_tick_stats =
  ks_repaths_requested :: u64
  ks_repath_exhausted :: u64

text \<open>The overloads on the tick state, whose accountant is the optional one here.\<close>

definition arm_path_agent_goal ::
    "flow_accounting option \<Rightarrow> path_agent \<Rightarrow> coord3 \<Rightarrow> path_agent \<times> flow_accounting option" where
  "arm_path_agent_goal acct a goal =
     (case acct of
        None \<Rightarrow> (set_path_agent_goal goal a, None)
      | Some f \<Rightarrow>
          let f1 = (if path_agent_goal_outstanding a
                    then leave_item (pa_armed_tick a) (account (\<lambda>c. c\<lparr>fc_superseded := fc_superseded c + 1\<rparr>) f)
                    else f);
              f2 = record_admitted (account (\<lambda>c. c\<lparr>fc_offered := fc_offered c + 1\<rparr>) f1)
          in (set_path_agent_goal goal (a\<lparr>pa_armed_tick := fa_last_observed_tick f2\<rparr>), Some f2))"

definition cancel_path_agent_goal :: "flow_accounting option \<Rightarrow> path_agent \<Rightarrow> path_agent \<times> flow_accounting option" where
  "cancel_path_agent_goal acct a =
     (clear_path_agent_goal a,
      map_option (\<lambda>f. if path_agent_goal_outstanding a
        then leave_item (pa_armed_tick a) (account (\<lambda>c. c\<lparr>fc_cancelled := fc_cancelled c + 1\<rparr>) f) else f) acct)"

definition observe_path_agent_flow_tick ::
    "path_agent list \<Rightarrow> u64 \<Rightarrow> flow_accounting option \<Rightarrow> flow_accounting option" where
  "observe_path_agent_flow_tick agents t = map_option (\<lambda>f.
     let f1 = observe_tick t f;
         now = fa_last_observed_tick f1;
         outstanding = filter path_agent_goal_outstanding agents;
         oldest = fold (\<lambda>a m. if pa_armed_tick a < m then pa_armed_tick a else m) outstanding now
     in account (\<lambda>c. c\<lparr>fc_oldest_outstanding_age_ticks := (if outstanding \<noteq> [] then now - oldest else 0)\<rparr>) f1)"

text \<open>One agent of the scan; the flag asks for path processing.\<close>

definition prepare_path_agent ::
    "path_agent_tick_options \<Rightarrow> path_agent \<Rightarrow> bool \<times> path_agent_tick_stats \<times> flow_accounting option
     \<Rightarrow> path_agent \<times> bool \<times> path_agent_tick_stats \<times> flow_accounting option" where
  "prepare_path_agent o' a = (\<lambda>(needs, s, acct).
     if \<not> pa_has_goal a then (a, needs, s, acct)
     else if pa_phase a = NeedsPath then (a, True, s, acct)
     else if pa_phase a \<noteq> Blocked_phase then (a, needs, s, acct)
     else if to_max_steps o' = 0 then (a, needs, s, acct)
     else if pa_blocked_retries a < to_max_blocked_retries o'
     then let a1 = a\<lparr>pa_blocked_retries := pa_blocked_retries a + 1\<rparr> in
       if pa_last_result a \<noteq> Some Found
       then (a1, True, s\<lparr>ks_repaths_requested := ks_repaths_requested s + 1\<rparr>, acct)
       else (a1, needs, s, acct)
     else if to_exhaustion_policy o' = MarkUnreachable
     then (a\<lparr>pa_phase := Unreachable, pa_last_result := None\<rparr>, needs,
           s\<lparr>ks_repath_exhausted := ks_repath_exhausted s + 1\<rparr>, fail_path_agent_flow a acct)
     else (a, needs, s, acct))"

fun prepare_each ::
    "path_agent_tick_options \<Rightarrow> path_agent list \<Rightarrow> bool \<times> path_agent_tick_stats \<times> flow_accounting option
     \<Rightarrow> path_agent list \<times> bool \<times> path_agent_tick_stats \<times> flow_accounting option" where
  "prepare_each o' [] r = ([], r)"
| "prepare_each o' (a # as) r =
     (case prepare_path_agent o' a r of (a', r') \<Rightarrow>
      case prepare_each o' as r' of (as', r'') \<Rightarrow> (a' # as', r''))"

definition prepare_path_agent_processing ::
    "path_agent_tick_options \<Rightarrow> path_agent list \<Rightarrow> path_agent_tick_stats \<Rightarrow> flow_accounting option
     \<Rightarrow> path_agent list \<times> bool \<times> path_agent_tick_stats \<times> flow_accounting option" where
  "prepare_path_agent_processing o' agents s acct = prepare_each o' agents (False, s, acct)"

subsection \<open>The replan queue\<close>

record replan_queue =
  rq_indices :: "u64 list"
  rq_queued :: "bool list"
  rq_head :: nat

definition empty_replan_queue :: replan_queue where
  "empty_replan_queue = \<lparr>rq_indices = [], rq_queued = [], rq_head = 0\<rparr>"

definition replan_clear :: "replan_queue \<Rightarrow> replan_queue option" where
  "replan_clear q = do {
     flags \<leftarrow> fold_opt (\<lambda>i fs. upd_opt fs (unat i) False) (drop (rq_head q) (rq_indices q)) (rq_queued q);
     Some \<lparr>rq_indices = [], rq_queued = flags, rq_head = 0\<rparr>
   }"

text \<open>\<open>resize(index + 1)\<close>; at the maximal index the sum is 0 and the flag is out of range.\<close>

definition grow_flags :: "u64 \<Rightarrow> bool list \<Rightarrow> bool list" where
  "grow_flags index fs =
     (if of_nat (length fs) \<le> index
      then take (unat (index + 1)) fs @ replicate (unat (index + 1) - length fs) False else fs)"

definition replan_compact :: "replan_queue \<Rightarrow> replan_queue" where
  "replan_compact q =
     (if rq_head q \<noteq> 0 \<and> length (rq_indices q) div 2 \<le> rq_head q
      then q\<lparr>rq_indices := drop (rq_head q) (rq_indices q), rq_head := 0\<rparr> else q)"

definition replan_request :: "u64 \<Rightarrow> path_agent \<Rightarrow> replan_queue \<Rightarrow> (bool \<times> replan_queue) option" where
  "replan_request index a q =
     (if \<not> pa_has_goal a \<or> pa_phase a = Unreachable then Some (False, q)
      else let q1 = q\<lparr>rq_queued := grow_flags index (rq_queued q)\<rparr> in do {
        queued \<leftarrow> nth_opt (rq_queued q1) (unat index);
        if queued then Some (False, q1)
        else do {
          let q2 = replan_compact q1;
          flags \<leftarrow> upd_opt (rq_queued q2) (unat index) True;
          Some (True, q2\<lparr>rq_indices := rq_indices q2 @ [index], rq_queued := flags\<rparr>)
        }
      })"

fun request_each :: "u64 \<Rightarrow> path_agent list \<Rightarrow> replan_queue \<Rightarrow> replan_queue option" where
  "request_each i [] q = Some q"
| "request_each i (a # as) q = do { (_, q') \<leftarrow> replan_request i a q; request_each (i + 1) as q' }"

definition replan_request_all :: "path_agent list \<Rightarrow> replan_queue \<Rightarrow> replan_queue option" where
  "replan_request_all agents q =
     request_each 0 agents (q\<lparr>rq_queued :=
       rq_queued q @ replicate (length agents - length (rq_queued q)) False\<rparr>)"

definition replan_empty :: "replan_queue \<Rightarrow> bool" where
  "replan_empty q \<longleftrightarrow> rq_head q = length (rq_indices q)"

definition replan_pending :: "replan_queue \<Rightarrow> nat" where
  "replan_pending q = length (rq_indices q) - rq_head q"

definition replan_contains :: "u64 \<Rightarrow> replan_queue \<Rightarrow> bool" where
  "replan_contains i q \<longleftrightarrow> unat i < length (rq_queued q) \<and> rq_queued q ! unat i"

definition replan_front :: "replan_queue \<Rightarrow> u64 option option" where
  "replan_front q = (if replan_empty q then Some None else map_option Some (nth_opt (rq_indices q) (rq_head q)))"

definition replan_pop_front :: "replan_queue \<Rightarrow> replan_queue option" where
  "replan_pop_front q =
     (if replan_empty q then Some q
      else do {
        index \<leftarrow> nth_opt (rq_indices q) (rq_head q);
        flags \<leftarrow> upd_opt (rq_queued q) (unat index) False;
        let h = rq_head q + 1;
        Some (if h = length (rq_indices q) then \<lparr>rq_indices = [], rq_queued = flags, rq_head = 0\<rparr>
              else q\<lparr>rq_queued := flags, rq_head := h\<rparr>)
      })"

subsection \<open>Draining the queue\<close>

text \<open>
  The callback of the drain: a result, or \<^const>\<open>None\<close> when it throws. Its own state is threaded.
\<close>

type_synonym 'c path_search = "u64 \<Rightarrow> path_request \<Rightarrow> 'c \<Rightarrow> path_result option \<times> 'c"

record 'c replan_state =
  rs_agents :: "path_agent list"
  rs_routes :: path_agent_routes
  rs_queue :: replan_queue
  rs_accounting :: "flow_accounting option"
  rs_frame :: path_agent_stats
  rs_search :: 'c

definition commit_replan :: "path_result \<Rightarrow> path_agent \<Rightarrow> path_agent \<times> coord3 list" where
  "commit_replan r a =
     (if pr_status r = Found
      then (a\<lparr>pa_path_index := 0, pa_last_result := Some Found, pa_phase := Following,
              pa_blocked_retries := (if pa_phase a \<noteq> Blocked_phase then 0 else pa_blocked_retries a)\<rparr>, pr_path r)
      else (a\<lparr>pa_path_index := 0, pa_last_result := Some (pr_status r), pa_phase := Blocked_phase\<rparr>, []))"

datatype 'c replan_item = ItemThrew "'c replan_state" | ItemServed "'c replan_state"

text \<open>The body of the loop for the index at the front, up to the pop at its end.\<close>

definition replan_item :: "'c path_search \<Rightarrow> u64 \<Rightarrow> 'c replan_state \<Rightarrow> 'c replan_item option" where
  "replan_item search index r =
     (if length (rs_agents r) \<le> unat index then Some (ItemServed r)
      else do {
        a \<leftarrow> nth_opt (rs_agents r) (unat index);
        if \<not> pa_has_goal a \<or> pa_phase a = Unreachable then Some (ItemServed r)
        else if pa_position a = pa_goal a then do {
          let (a1, acct) = arrive_path_agent a (rs_accounting r);
          routes \<leftarrow> upd_opt (rs_routes r) (unat index) [];
          Some (ItemServed (r\<lparr>rs_agents := (rs_agents r)[unat index := a1], rs_routes := routes, rs_accounting := acct,
                  rs_frame := (rs_frame r)\<lparr>ps_arrived := ps_arrived (rs_frame r) + 1\<rparr>\<rparr>))
        }
        else case search index \<lparr>pq_start = pa_position a, pq_goal = pa_goal a\<rparr> (rs_search r) of
               (None, c) \<Rightarrow> Some (ItemThrew (r\<lparr>rs_search := c\<rparr>))
             | (Some found, c) \<Rightarrow> do {
                 let s = rs_frame r;
                 let s1 = record_path_agent_status (pr_status found)
                   (s\<lparr>ps_submitted := ps_submitted s + 1, ps_completed := ps_completed s + 1,
                      ps_expanded_nodes := ps_expanded_nodes s + pr_expanded_nodes found\<rparr>);
                 let (a1, route) = commit_replan found a;
                 routes \<leftarrow> upd_opt (rs_routes r) (unat index) route;
                 Some (ItemServed (r\<lparr>rs_agents := (rs_agents r)[unat index := a1], rs_routes := routes,
                         rs_frame := s1, rs_search := c\<rparr>))
               }
      })"

lemma pop_pending:
  assumes "\<not> replan_empty q" "replan_pop_front q = Some q'"
  shows "replan_pending q' < replan_pending q"
  using assms
  by (auto simp: replan_pop_front_def replan_empty_def replan_pending_def bind_eq_Some_conv nth_opt_def Let_def
      split: if_splits)

lemma replan_item_queue:
  "replan_item search i r = Some (ItemServed r') \<Longrightarrow> rs_queue r' = rs_queue r"
  by (auto simp: replan_item_def bind_eq_Some_conv Let_def split: if_splits prod.splits option.splits)

lemma served_pending:
  "replan_item search i r = Some (ItemServed r1) \<Longrightarrow> replan_pop_front (rs_queue r1) = Some q \<Longrightarrow>
   \<not> replan_empty (rs_queue r) \<Longrightarrow> replan_pending q < replan_pending (rs_queue r)"
  using pop_pending [of "rs_queue r" q] replan_item_queue [of search i r r1] by simp

text \<open>The loop; the flag is \<^const>\<open>False\<close> when the callback's exception propagates.\<close>

function replan_loop ::
    "'c path_search \<Rightarrow> u64 \<Rightarrow> 'c replan_state \<Rightarrow> (bool \<times> 'c replan_state) option" where
  "replan_loop search max_requests r =
     (if replan_empty (rs_queue r) \<or> max_requests \<le> ps_submitted (rs_frame r) then Some (True, r)
      else case replan_front (rs_queue r) of
             None \<Rightarrow> None
           | Some None \<Rightarrow> Some (True, r)
           | Some (Some index) \<Rightarrow>
               (case replan_item search index r of
                  None \<Rightarrow> None
                | Some (ItemThrew r1) \<Rightarrow> Some (False, r1)
                | Some (ItemServed r1) \<Rightarrow>
                    (case replan_pop_front (rs_queue r1) of
                       None \<Rightarrow> None
                     | Some q \<Rightarrow> replan_loop search max_requests (r1\<lparr>rs_queue := q\<rparr>))))"
  by auto
termination
  by (relation "measure (\<lambda>(search, m, r). replan_pending (rs_queue r))") (auto intro: served_pending)

declare replan_loop.simps [simp del]

definition process_path_agent_replans ::
    "'c path_search \<Rightarrow> u64 \<Rightarrow> path_agent list \<Rightarrow> path_agent_routes \<Rightarrow> replan_queue \<Rightarrow> flow_accounting option \<Rightarrow> 'c
     \<Rightarrow> (bool \<times> 'c replan_state) option" where
  "process_path_agent_replans search max_requests agents routes q acct c =
     replan_loop search max_requests
       \<lparr>rs_agents = agents, rs_routes = routes_ensure_size (length agents) routes, rs_queue = q,
        rs_accounting = acct, rs_frame = no_agent_stats, rs_search = c\<rparr>"

end
