(* ===== verification/Path_Agent_Laws.thy ===== *)
theory Path_Agent_Laws imports Path_Agent_Tick begin

text \<open>
  What every operation on path agents keeps: the life cycle of one agent (which fields go with
  which phase), and the balance of the accountant with the goals that are outstanding.
\<close>

subsection \<open>The life cycle\<close>

definition agent_ok :: "path_agent \<Rightarrow> bool" where
  "agent_ok a \<longleftrightarrow>
     (case pa_phase a of
        Idle \<Rightarrow> \<not> pa_has_goal a
      | NeedsPath \<Rightarrow> pa_has_goal a \<and> pa_last_result a = None
      | Following \<Rightarrow> pa_has_goal a \<and> pa_last_result a = Some Found
      | Blocked_phase \<Rightarrow> pa_has_goal a
      | Unreachable \<Rightarrow> pa_has_goal a \<and> pa_last_result a = None)"

lemma agent_ok_default: "agent_ok (default_path_agent\<lparr>pa_position := c\<rparr>)"
  by (simp add: agent_ok_def default_path_agent_def)

lemma agent_ok_set_goal: "agent_ok (set_path_agent_goal g a)"
  by (simp add: agent_ok_def set_path_agent_goal_def)

lemma agent_ok_clear: "agent_ok (clear_path_agent_goal a)" "agent_ok (clear_path_agent_goal a\<lparr>pa_last_result := r\<rparr>)"
  by (simp_all add: agent_ok_def clear_path_agent_goal_def)

lemma wants_outstanding: "agent_ok a \<Longrightarrow> wants_to_move a \<Longrightarrow> path_agent_goal_outstanding a"
  by (auto simp: agent_ok_def wants_to_move_def path_agent_goal_outstanding_def)

lemma step_along_ok: "wants_to_move a \<Longrightarrow> agent_ok (step_along to a) \<and> wants_to_move (step_along to a)"
  by (simp add: agent_ok_def wants_to_move_def step_along_def resume_path_agent_def)

lemma block_ok: "wants_to_move a \<Longrightarrow> agent_ok (block_path_agent st a)"
  by (simp add: agent_ok_def wants_to_move_def block_path_agent_def Let_def)

subsection \<open>The goal of one agent and the accountant\<close>

text \<open>
  An operation on one agent either leaves its goal as it is and does not touch the accountant, or
  ends an outstanding goal and accounts for it once.
\<close>

definition agent_flow ::
    "path_agent \<Rightarrow> flow_accounting option \<Rightarrow> path_agent \<Rightarrow> flow_accounting option \<Rightarrow> bool" where
  "agent_flow a f a' f' \<longleftrightarrow>
     (f' = f \<and> path_agent_goal_outstanding a' = path_agent_goal_outstanding a \<and> pa_armed_tick a' = pa_armed_tick a)
     \<or> (path_agent_goal_outstanding a \<and> \<not> path_agent_goal_outstanding a' \<and>
        (\<exists>g. one_terminal g \<and> f' = map_option (\<lambda>x. leave_item (pa_armed_tick a) (account g x)) f))"

definition stamps :: "path_agent list \<Rightarrow> u64 list" where
  "stamps as = map pa_armed_tick (filter path_agent_goal_outstanding as)"

definition accounted :: "flow_accounting option \<Rightarrow> path_agent list \<Rightarrow> bool" where
  "accounted f as \<longleftrightarrow> (\<forall>x. f = Some x \<longrightarrow> flow_balanced x (stamps as))"

lemma stamps_Nil [simp]: "stamps [] = []"
  by (simp add: stamps_def)

lemma stamps_append [simp]: "stamps (xs @ ys) = stamps xs @ stamps ys"
  by (simp add: stamps_def)

lemma stamps_Cons [simp]:
  "stamps (a # as) = (if path_agent_goal_outstanding a then pa_armed_tick a # stamps as else stamps as)"
  by (simp add: stamps_def)

lemma agent_flow_None: "agent_flow a f a' f' \<Longrightarrow> (f' = None) = (f = None)"
  by (auto simp: agent_flow_def)

lemma agent_flow_refl [intro]: "agent_flow a f a f"
  by (simp add: agent_flow_def)

lemma accounted_flow_step:
  assumes "agent_flow a f a' f'" "accounted f (xs @ a # ys)"
  shows "accounted f' (xs @ a' # ys)"
proof -
  have leave: "flow_balanced (leave_item (pa_armed_tick a) (account g x)) (stamps xs @ stamps ys)"
    if "one_terminal g" "f = Some x" "path_agent_goal_outstanding a" for g x
    using balanced_leave [OF _ that(1), of x "stamps xs" "pa_armed_tick a" "stamps ys"] assms(2) that
    by (simp add: accounted_def)
  show ?thesis using assms leave by (auto simp: agent_flow_def accounted_def)
qed

lemma agent_flow_same_trans:
  "path_agent_goal_outstanding b = path_agent_goal_outstanding a \<Longrightarrow> pa_armed_tick b = pa_armed_tick a \<Longrightarrow>
   agent_flow b f c f' \<Longrightarrow> agent_flow a f c f'"
  by (auto simp: agent_flow_def)

lemma arrive_flow:
  "path_agent_goal_outstanding a \<Longrightarrow> arrive_path_agent a f = (a', f') \<Longrightarrow>
   agent_flow a f a' f' \<and> agent_flow a f (a'\<lparr>pa_last_result := r\<rparr>) f' \<and> agent_ok a' \<and> agent_ok (a'\<lparr>pa_last_result := r\<rparr>)"
  by (auto simp: agent_flow_def arrive_path_agent_def clear_path_agent_goal_def path_agent_goal_outstanding_def
      agent_ok_def intro!: exI [of _ "\<lambda>c. c\<lparr>fc_completed := fc_completed c + 1\<rparr>"] one_terminal_intros)

lemma fail_flow:
  "path_agent_goal_outstanding a \<Longrightarrow> \<not> path_agent_goal_outstanding a' \<Longrightarrow>
   agent_flow a f a' (fail_path_agent_flow a f)"
  by (auto simp: agent_flow_def fail_path_agent_flow_def
      intro!: exI [of _ "\<lambda>c. c\<lparr>fc_failed := fc_failed c + 1\<rparr>"] one_terminal_intros)

lemma step_along_flow:
  "path_agent_goal_outstanding a \<Longrightarrow>
   path_agent_goal_outstanding (step_along to a) \<and> pa_armed_tick (step_along to a) = pa_armed_tick a"
  by (simp add: path_agent_goal_outstanding_def step_along_def resume_path_agent_def)

lemma arrive_if_there_flow:
  assumes "wants_to_move a" "agent_ok a" "arrive_if_there a (f, s) = (a', f', s')"
  shows "agent_flow a f a' f' \<and> agent_ok a' \<and> (pa_position a \<noteq> pa_goal a \<longrightarrow> a' = a \<and> f' = f)"
  using assms(3) arrive_flow [OF wants_outstanding [OF assms(2,1)], of f _ f' "Some Found"] assms(2)
  by (auto simp: arrive_if_there_def split: if_splits prod.splits)

subsection \<open>Passes\<close>

lemma advance_steps_flow:
  "advance_steps n route a (f, s) = Some (a', f', s') \<Longrightarrow> wants_to_move a \<Longrightarrow> agent_ok a \<Longrightarrow>
   agent_flow a f a' f' \<and> agent_ok a'"
proof (induction n arbitrary: a f s)
  case (Suc n)
  show ?case
  proof (cases "has_next_step (pa_path_index a) (of_nat (length route))")
    case False
    then show ?thesis using Suc.prems by auto
  next
    case True
    then obtain to a2 f2 s2 where
      ar: "arrive_if_there (step_along to a) (f, s\<lparr>ps_advanced := ps_advanced s + 1\<rparr>) = (a2, f2, s2)"
      and r: "(if pa_position (step_along to a) = pa_goal (step_along to a) then Some (a2, f2, s2)
            else advance_steps n route a2 (f2, s2)) = Some (a', f', s')"
      using Suc.prems(1) by (auto simp: bind_eq_Some_conv Let_def split: prod.splits)
    note b = step_along_ok [OF Suc.prems(2), of to] step_along_flow [OF wants_outstanding [OF Suc.prems(3,2)], of to]
    note c = arrive_if_there_flow [OF conjunct2 [OF b(1)] conjunct1 [OF b(1)] ar]
    show ?thesis
    proof (cases "pa_position (step_along to a) = pa_goal (step_along to a)")
      case True
      then show ?thesis using r c agent_flow_same_trans [of "step_along to a" a f a' f'] b
          wants_outstanding [OF Suc.prems(3,2)] by simp
    next
      case False
      then show ?thesis using r c Suc.IH [of a2 f2 s2] b agent_flow_same_trans [of "step_along to a" a f a' f']
          wants_outstanding [OF Suc.prems(3,2)] by simp
    qed
  qed
qed auto

lemma refuse_flow:
  assumes "wants_to_move a" "agent_ok a" "refuse_step st a d = (a', d')"
  shows "agent_flow a (ad_accounting d) a' (ad_accounting d') \<and> agent_ok a'"
  using assms(3) wants_outstanding [OF assms(2,1)] block_ok [OF assms(1), of st] assms(1)
    fail_flow [of a "a\<lparr>pa_last_result := None, pa_phase := Unreachable\<rparr>" "ad_accounting d"]
  by (auto simp: refuse_step_def Let_def wants_to_move_def path_agent_goal_outstanding_def agent_ok_def
      agent_flow_def block_path_agent_def split: if_splits)

lemma movement_steps_flow:
  "movement_steps A cls otag rtag pr m i n route a d = Some (a', d') \<Longrightarrow> wants_to_move a \<Longrightarrow> agent_ok a \<Longrightarrow>
   agent_flow a (ad_accounting d) a' (ad_accounting d') \<and> agent_ok a'"
proof (induction n arbitrary: a d)
  case (Suc n)
  show ?case
  proof (cases "has_next_step (pa_path_index a) (of_nat (length route))")
    case False
    then show ?thesis using Suc.prems by auto
  next
    case True
    then obtain to r w where to: "nth_opt route (unat (pa_path_index a + 1)) = Some to"
      and c: "commit_movement_intent A cls otag rtag pr m (ad_world d)
        \<lparr>mi_from = pa_position a, mi_to = to, mi_versions = no_versions\<rparr> = Some (r, w)"
      using Suc.prems(1) by (auto simp: bind_eq_Some_conv)
    show ?thesis
    proof (cases "mr_status r = Moved")
      case False
      then have "refuse_step (mr_status r) a (d\<lparr>ad_world := w\<rparr>) = (a', d')"
        using Suc.prems(1) True to c by simp
      from refuse_flow [OF Suc.prems(2,3) this] show ?thesis by simp
    next
      case moved: True
      obtain a2 f2 s2 where ar: "arrive_if_there (step_along to a)
          (ad_accounting d, (ad_stats d)\<lparr>ps_advanced := ps_advanced (ad_stats d) + 1\<rparr>) = (a2, f2, s2)"
        by (cases "arrive_if_there (step_along to a)
          (ad_accounting d, (ad_stats d)\<lparr>ps_advanced := ps_advanced (ad_stats d) + 1\<rparr>)") auto
      let ?d = "\<lparr>ad_world = w, ad_accounting = f2, ad_stats = s2, ad_commits = ad_commits d @ [(i, pa_position a, to)]\<rparr>"
      have r: "(if pa_position (step_along to a) = pa_goal (step_along to a) then Some (a2, ?d)
          else movement_steps A cls otag rtag pr m i n route a2 ?d) = Some (a', d')"
        using Suc.prems(1) True to c moved by (simp add: ar Let_def)
      note b = step_along_ok [OF Suc.prems(2), of to] step_along_flow [OF wants_outstanding [OF Suc.prems(3,2)], of to]
      note k = arrive_if_there_flow [OF conjunct2 [OF b(1)] conjunct1 [OF b(1)] ar]
      have "agent_flow (step_along to a) (ad_accounting d) a' (ad_accounting d') \<and> agent_ok a'"
      proof (cases "pa_position (step_along to a) = pa_goal (step_along to a)")
        case True
        then show ?thesis using r k by auto
      next
        case False
        then show ?thesis using r k Suc.IH [of a2 ?d] b by simp
      qed
      then show ?thesis
        using agent_flow_same_trans [of "step_along to a" a _ a' "ad_accounting d'"] b(2) wants_outstanding [OF Suc.prems(3,2)]
        by simp
    qed
  qed
qed auto

subsection \<open>Lists of agents\<close>

text \<open>What every pass keeps of the agents it runs over; \<open>xs\<close> are the agents before them.\<close>

definition agents_kept ::
    "flow_accounting option \<Rightarrow> path_agent list \<Rightarrow> flow_accounting option \<Rightarrow> path_agent list \<Rightarrow> bool" where
  "agents_kept f as f' as' \<longleftrightarrow> length as' = length as \<and> list_all agent_ok as' \<and> (f' = None) = (f = None)
     \<and> (\<forall>xs ys. accounted f (xs @ as @ ys) \<longrightarrow> accounted f' (xs @ as' @ ys))"

lemma agents_kept_Nil: "agents_kept f [] f []"
  by (simp add: agents_kept_def)

lemma agents_kept_Cons:
  assumes "agent_flow a f a' f1" "agent_ok a'" "agents_kept f1 as f2 as'"
  shows "agents_kept f (a # as) f2 (a' # as')"
proof -
  have "accounted f2 (xs @ (a' # as') @ ys)" if "accounted f (xs @ (a # as) @ ys)" for xs ys
  proof -
    have "accounted f1 (xs @ a' # as @ ys)" using accounted_flow_step [OF assms(1), of xs "as @ ys"] that by simp
    then have "accounted f1 ((xs @ [a']) @ as @ ys)" by simp
    then have "accounted f2 ((xs @ [a']) @ as' @ ys)" using assms(3) unfolding agents_kept_def by blast
    then show ?thesis by simp
  qed
  then show ?thesis using assms(2,3) agent_flow_None [OF assms(1)] by (simp add: agents_kept_def)
qed

lemma agents_kept_trans: "agents_kept f as g bs \<Longrightarrow> agents_kept g bs h cs \<Longrightarrow> agents_kept f as h cs"
  by (simp add: agents_kept_def)

lemma agents_kept_refl: "list_all agent_ok as \<Longrightarrow> agents_kept f as f as"
  by (simp add: agents_kept_def)

lemma agents_kept_update:
  assumes "list_all agent_ok as" "i < length as" "agent_flow (as ! i) f a' f'" "agent_ok a'"
  shows "agents_kept f as f' (as[i := a'])"
proof -
  have e: "as[i := a'] = take i as @ a' # drop (Suc i) as" using assms(2) by (rule upd_conv_take_nth_drop)
  have "accounted f' (xs @ as[i := a'] @ ys)" if "accounted f (xs @ as @ ys)" for xs ys
  proof -
    have "as @ ys = take i as @ as ! i # drop (Suc i) as @ ys"
      using arg_cong [OF id_take_nth_drop [OF assms(2)], of "\<lambda>zs. zs @ ys"] by simp
    with that have "accounted f ((xs @ take i as) @ as ! i # drop (Suc i) as @ ys)" by simp
    from accounted_flow_step [OF assms(3) this] show ?thesis by (simp add: e)
  qed
  moreover have "list_all agent_ok (as[i := a'])"
    using assms(1,4) by (auto simp: list_all_length nth_list_update assms(2))
  ultimately show ?thesis using agent_flow_None [OF assms(3)] by (simp add: agents_kept_def)
qed

lemma submit_path_agent_flow:
  assumes "agent_ok a" "submit_path_agent scope a (b, f, s) = (a', b', f', s')"
  shows "agent_flow a f a' f' \<and> agent_ok a'"
proof -
  let ?a = "a\<lparr>pa_path_index := 0\<rparr>"
  have same: "agent_flow a f ?a f" "agent_flow a f (?a\<lparr>pa_ticket := t\<rparr>) f" "agent_ok ?a" "agent_ok (?a\<lparr>pa_ticket := t\<rparr>)" for t
    using assms(1) by (simp_all add: agent_flow_def path_agent_goal_outstanding_def agent_ok_def cong: path_agent_phase.case_cong)
  consider (skip) "scope = NeedsOnly \<and> can_skip_scoped_path_submission a"
    | (idle) "\<not> (scope = NeedsOnly \<and> can_skip_scoped_path_submission a)" "\<not> pa_has_goal a \<or> pa_phase a = Unreachable"
    | (there) "\<not> (scope = NeedsOnly \<and> can_skip_scoped_path_submission a)" "path_agent_goal_outstanding a" "pa_position a = pa_goal a"
    | (search) "\<not> (scope = NeedsOnly \<and> can_skip_scoped_path_submission a)" "path_agent_goal_outstanding a" "pa_position a \<noteq> pa_goal a"
    unfolding path_agent_goal_outstanding_def by blast
  then show ?thesis
  proof cases
    case there
    obtain a1 f1 where ar: "arrive_path_agent ?a f = (a1, f1)" by (cases "arrive_path_agent ?a f")
    have "a' = a1" "f' = f1"
      using assms(2) there ar by (auto simp: submit_path_agent_def path_agent_goal_outstanding_def Let_def)
    then show ?thesis
      using arrive_flow [of ?a f a1 f1 None] ar there(2) agent_flow_same_trans [of ?a a f a1 f1]
      by (simp add: path_agent_goal_outstanding_def)
  qed (use assms same in \<open>auto simp: submit_path_agent_def submit_request_def path_agent_goal_outstanding_def Let_def\<close>)
qed

lemma submit_each_kept:
  "list_all agent_ok as \<Longrightarrow> submit_each scope as (b, f, s) = (as', b', f', s') \<Longrightarrow> agents_kept f as f' as'"
proof (induction as arbitrary: b f s as')
  case (Cons a as)
  obtain a1 b1 f1 s1 where a1: "submit_path_agent scope a (b, f, s) = (a1, b1, f1, s1)"
    by (cases "submit_path_agent scope a (b, f, s)") auto
  obtain as1 where as1: "submit_each scope as (b1, f1, s1) = (as1, b', f', s')" "as' = a1 # as1"
    using Cons.prems(2) by (auto simp: a1 split: prod.splits)
  show ?case
    unfolding as1(2) using Cons.prems(1) submit_path_agent_flow [OF _ a1] Cons.IH [OF _ as1(1)]
    by (intro agents_kept_Cons [where ?f1.0 = f1]) simp_all
qed (simp add: agents_kept_Nil)

lemma apply_result_flow:
  assumes "agent_ok a" "apply_path_agent_result scope b a route s = Some (a', route', s')"
  shows "agent_flow a f a' f \<and> agent_ok a'"
proof (cases "(scope = NeedsOnly \<and> can_skip_scoped_path_submission a) \<or> \<not> pa_has_goal a
    \<or> pa_position a = pa_goal a \<or> pa_phase a = Unreachable")
  case True
  then have "a' = a" using assms(2) by (auto simp: apply_path_agent_result_def split: if_splits)
  then show ?thesis using assms(1) by auto
next
  case False
  then obtain r where "request_result (pa_ticket a) b = Some r" and g: "pa_has_goal a" "pa_phase a \<noteq> Unreachable"
    using assms(2) by (auto simp: apply_path_agent_result_def bind_eq_Some_conv)
  then have "a' = (if pr_status r = Found
      then a\<lparr>pa_last_result := Some Found, pa_path_index := 0, pa_phase := Following,
             pa_blocked_retries := (if pa_phase a \<noteq> Blocked_phase then 0 else pa_blocked_retries a)\<rparr>
      else a\<lparr>pa_last_result := Some (pr_status r), pa_path_index := 0, pa_phase := Blocked_phase\<rparr>)"
    using assms(2) False by (simp add: apply_path_agent_result_def Let_def split: if_splits)
  then show ?thesis using g by (simp add: agent_flow_def agent_ok_def path_agent_goal_outstanding_def)
qed

lemma apply_each_kept:
  "list_all agent_ok as \<Longrightarrow> apply_each scope b as routes s = Some (as', routes', s') \<Longrightarrow>
   agents_kept f as f as' \<and> length routes' = length routes"
proof (induction as arbitrary: routes s as' routes')
  case (Cons a as)
  obtain route rest where r: "routes = route # rest" using Cons.prems(2) by (cases routes) auto
  obtain a1 route1 s1 as1 rest1 where a1: "apply_path_agent_result scope b a route s = Some (a1, route1, s1)"
    and as1: "apply_each scope b as rest s1 = Some (as1, rest1, s')" "as' = a1 # as1" "routes' = route1 # rest1"
    using Cons.prems(2) by (auto simp: r bind_eq_Some_conv)
  show ?case
    using Cons.prems(1) apply_result_flow [OF _ a1, of f] Cons.IH [OF _ as1(1)]
    by (auto simp: as1(2,3) r intro: agents_kept_Cons)
qed (simp add: agents_kept_Nil)

lemma prepare_flow:
  assumes "agent_ok a" "prepare_path_agent o' a (b, s, f) = (a', b', s', f')"
  shows "agent_flow a f a' f' \<and> agent_ok a'"
  using assms fail_flow [of a "a\<lparr>pa_phase := Unreachable, pa_last_result := None\<rparr>" f]
  by (auto simp: prepare_path_agent_def agent_flow_def agent_ok_def path_agent_goal_outstanding_def Let_def split: if_splits)

lemma prepare_each_kept:
  "list_all agent_ok as \<Longrightarrow> prepare_each o' as (b, s, f) = (as', b', s', f') \<Longrightarrow> agents_kept f as f' as'"
proof (induction as arbitrary: b f s as')
  case (Cons a as)
  obtain a1 b1 f1 s1 where a1: "prepare_path_agent o' a (b, s, f) = (a1, b1, s1, f1)"
    by (cases "prepare_path_agent o' a (b, s, f)") auto
  obtain as1 where as1: "prepare_each o' as (b1, s1, f1) = (as1, b', s', f')" "as' = a1 # as1"
    using Cons.prems(2) by (auto simp: a1 split: prod.splits)
  show ?case
    unfolding as1(2) using Cons.prems(1) prepare_flow [OF _ a1] Cons.IH [OF _ as1(1)]
    by (intro agents_kept_Cons [where ?f1.0 = f1]) simp_all
qed (simp add: agents_kept_Nil)

lemma advance_each_kept:
  "list_all agent_ok as \<Longrightarrow> advance_each n as routes (f, s) = Some (as', f', s') \<Longrightarrow> agents_kept f as f' as'"
proof (induction as arbitrary: routes f s as')
  case (Cons a as)
  obtain route rest where r: "routes = route # rest" using Cons.prems(2) by (cases routes) auto
  obtain a1 f1 s1 as1 where a1: "(if \<not> wants_to_move a \<or> route = [] then Some (a, f, s)
        else advance_steps n route a (f, s)) = Some (a1, f1, s1)"
    and as1: "advance_each n as rest (f1, s1) = Some (as1, f', s')" "as' = a1 # as1"
    using Cons.prems(2) by (auto simp: r bind_eq_Some_conv)
  have "agent_flow a f a1 f1 \<and> agent_ok a1"
    using a1 advance_steps_flow [of n route a f s a1 f1 s1] Cons.prems(1) by (auto split: if_splits)
  then show ?case
    unfolding as1(2) using Cons.prems(1) Cons.IH [OF _ as1(1)]
    by (intro agents_kept_Cons [where ?f1.0 = f1]) simp_all
qed (simp add: agents_kept_Nil)

lemma movement_each_kept:
  "list_all agent_ok as \<Longrightarrow> movement_each A cls otag rtag pr m n i as routes d = Some (as', d') \<Longrightarrow>
   agents_kept (ad_accounting d) as (ad_accounting d') as'"
proof (induction as arbitrary: routes i d as')
  case (Cons a as)
  obtain route rest where r: "routes = route # rest" using Cons.prems(2) by (cases routes) auto
  obtain a1 d1 as1 where a1: "(if \<not> wants_to_move a then Some (a, d)
        else movement_steps A cls otag rtag pr m i n route a d) = Some (a1, d1)"
    and as1: "movement_each A cls otag rtag pr m n (Suc i) as rest d1 = Some (as1, d')" "as' = a1 # as1"
    using Cons.prems(2) by (auto simp: r bind_eq_Some_conv)
  have "agent_flow a (ad_accounting d) a1 (ad_accounting d1) \<and> agent_ok a1"
    using a1 movement_steps_flow [of A cls otag rtag pr m i n route a d a1 d1] Cons.prems(1) by (auto split: if_splits)
  then show ?case
    unfolding as1(2) using Cons.prems(1) Cons.IH [OF _ as1(1)]
    by (intro agents_kept_Cons [where ?f1.0 = "ad_accounting d1"]) simp_all
qed (simp add: agents_kept_Nil)

lemma commit_replan_ok:
  assumes "path_agent_goal_outstanding a" "agent_ok a" "commit_replan r a = (a', route)"
  shows "agent_flow a f a' f \<and> agent_ok a'"
  using assms
  by (auto simp: commit_replan_def agent_flow_def agent_ok_def path_agent_goal_outstanding_def split: if_splits)

lemma replan_item_kept:
  assumes "list_all agent_ok (rs_agents r)" "replan_item search i r = Some x"
  shows "case x of ItemThrew r' \<Rightarrow> r' = r\<lparr>rs_search := rs_search r'\<rparr>
    | ItemServed r' \<Rightarrow> agents_kept (rs_accounting r) (rs_agents r) (rs_accounting r') (rs_agents r')
        \<and> length (rs_routes r') = length (rs_routes r)"
proof -
  let ?a = "rs_agents r ! unat i"
  have ok: "unat i < length (rs_agents r) \<Longrightarrow> agent_ok ?a" using assms(1) by (simp add: list_all_length)
  have kept: "agents_kept f (rs_agents r) f' ((rs_agents r)[unat i := a'])"
    if "unat i < length (rs_agents r)" "agent_flow ?a f a' f' \<and> agent_ok a'" for f a' f'
    using agents_kept_update [OF assms(1) that(1)] that(2) by blast
  have arr: "agents_kept f (rs_agents r) f' ((rs_agents r)[unat i := a'])"
    if "\<not> length (rs_agents r) \<le> unat i" "pa_has_goal ?a" "pa_phase ?a \<noteq> Unreachable"
      "arrive_path_agent ?a f = (a', f')" for a' f f'
    using kept [of f a' f'] arrive_flow [of ?a f a' f'] that by (simp add: path_agent_goal_outstanding_def)
  have com: "agents_kept f (rs_agents r) f ((rs_agents r)[unat i := a'])"
    if "\<not> length (rs_agents r) \<le> unat i" "pa_has_goal ?a" "pa_phase ?a \<noteq> Unreachable"
      "commit_replan found ?a = (a', route)" for a' f found route
    using kept [of f a' f] commit_replan_ok [of ?a found a' route f] ok that by (simp add: path_agent_goal_outstanding_def)
  show ?thesis
    using assms(2) agents_kept_refl [OF assms(1)]
    by (auto simp: replan_item_def bind_eq_Some_conv Let_def
        intro: arr com split: if_splits prod.splits option.splits)
qed

lemma replan_loop_kept:
  "list_all agent_ok (rs_agents r) \<Longrightarrow> replan_loop search m r = Some (ok, r') \<Longrightarrow>
   agents_kept (rs_accounting r) (rs_agents r) (rs_accounting r') (rs_agents r')"
proof (induction search m r rule: replan_loop.induct)
  case (1 search m r)
  show ?case
  proof (cases "replan_empty (rs_queue r) \<or> m \<le> ps_submitted (rs_frame r)")
    case True
    then show ?thesis using "1.prems" by (auto simp: replan_loop.simps [of search m r] agents_kept_refl)
  next
    case False
    show ?thesis
    proof (cases "replan_front (rs_queue r) = Some None")
      case True
      then show ?thesis using "1.prems" False by (auto simp: replan_loop.simps [of search m r] agents_kept_refl)
    next
      case some: False
      then obtain i x where i: "replan_front (rs_queue r) = Some (Some i)" "replan_item search i r = Some x"
        using "1.prems"(2) False by (auto simp: replan_loop.simps [of search m r] split: option.splits)
      note k = replan_item_kept [OF "1.prems"(1) i(2)]
      show ?thesis
      proof (cases x)
        case (ItemThrew r1)
        then have "r' = r\<lparr>rs_search := rs_search r'\<rparr>"
          using k "1.prems"(2) False i by (simp add: replan_loop.simps [of search m r])
        moreover from this have "rs_agents r' = rs_agents r" "rs_accounting r' = rs_accounting r"
          by (metis replan_state.select_convs(1) replan_state.surjective replan_state.update_convs(6),
              metis replan_state.select_convs(4) replan_state.surjective replan_state.update_convs(6))
        ultimately show ?thesis using agents_kept_refl [OF "1.prems"(1)] by simp
      next
        case (ItemServed r1)
        obtain q where q: "replan_pop_front (rs_queue r1) = Some q"
          "replan_loop search m (r1\<lparr>rs_queue := q\<rparr>) = Some (ok, r')"
          using "1.prems"(2) False i ItemServed
          by (auto simp: replan_loop.simps [of search m r] split: option.splits)
        have k1: "agents_kept (rs_accounting r) (rs_agents r) (rs_accounting r1) (rs_agents r1)"
          using k ItemServed by simp
        then have "list_all agent_ok (rs_agents (r1\<lparr>rs_queue := q\<rparr>))" by (simp add: agents_kept_def)
        then have "agents_kept (rs_accounting (r1\<lparr>rs_queue := q\<rparr>)) (rs_agents (r1\<lparr>rs_queue := q\<rparr>)) (rs_accounting r') (rs_agents r')"
          using "1.IH" [OF False i(1) refl i(2)] ItemServed q by blast
        then have "agents_kept (rs_accounting r1) (rs_agents r1) (rs_accounting r') (rs_agents r')" by simp
        with k1 show ?thesis by (rule agents_kept_trans)
      qed
    qed
  qed
qed

subsection \<open>Results as routes\<close>

text \<open>Reading the runtime's results advances the agents as their results retained as routes do.\<close>

lemma advance_by_result_eq:
  "length routes = length as \<Longrightarrow> \<forall>i < length as. wants_to_move (as ! i) \<longrightarrow> result_route b (as ! i) = Some (routes ! i) \<Longrightarrow>
   advance_each_result n as b r = advance_each n as routes r"
proof (induction as arbitrary: routes r)
  case (Cons a as)
  then obtain route rest where r: "routes = route # rest" by (cases routes) auto
  have a: "wants_to_move a \<longrightarrow> result_route b a = Some route" using Cons.prems(2) r by force
  have "advance_each_result n as b r1 = advance_each n as rest r1" for r1
    by (rule Cons.IH) (use Cons.prems r in auto)
  with a show ?case by (simp add: r)
qed simp

lemma no_route_no_step: "movement_steps A cls otag rtag pr m i n [] a d = Some (a, d)"
  by (cases n) (simp_all add: has_next_step_def)

lemma movement_by_result_eq:
  "length routes = length as \<Longrightarrow> \<forall>i < length as. wants_to_move (as ! i) \<longrightarrow> result_route b (as ! i) = Some (routes ! i) \<Longrightarrow>
   movement_each_result A cls otag rtag m n i as b d = movement_each A cls otag rtag AdjacentTransitions m n i as routes d"
proof (induction as arbitrary: routes i d)
  case (Cons a as)
  then obtain route rest where r: "routes = route # rest" by (cases routes) auto
  have a: "wants_to_move a \<longrightarrow> result_route b a = Some route" using Cons.prems(2) r by force
  have "movement_each_result A cls otag rtag m n j as b d1 = movement_each A cls otag rtag AdjacentTransitions m n j as rest d1" for j d1
    by (rule Cons.IH) (use Cons.prems r in auto)
  with a show ?case by (simp add: r no_route_no_step)
qed simp

end
