(* ===== verification/Path_Agent_Props.thy ===== *)
theory Path_Agent_Props imports Path_Agent_Laws Mover_Worlds begin

text \<open>
  Properties of path agents over arbitrary sequences of the operations on them: the life cycle,
  the conservation of goals, and the pairing of tickets with results.
\<close>

subsection \<open>A system of agents\<close>

record ('w, 'c) agent_system =
  sy_agents :: "path_agent list"
  sy_routes :: path_agent_routes
  sy_book :: request_book
  sy_queue :: replan_queue
  sy_accounting :: "flow_accounting option"
  sy_world :: 'w
  sy_search :: 'c

text \<open>
  \<open>PlanPaths\<close> is a submission, the publication of the runtime's results for it, and their
  application.
\<close>

datatype agent_op =
    ArmGoal nat coord3 | CancelGoal nat | ObserveTick u64 | PrepareTick path_agent_tick_options
  | PlanPaths path_submit_scope "path_result list" | WalkRoutes u64 | MoveAgents path_agent_advance_options
  | RequestReplan nat | DrainReplans u64

definition publish_results :: "path_result list \<Rightarrow> request_book \<Rightarrow> request_book option" where
  "publish_results rs b = (if length rs = length (rb_requests b) then Some (b\<lparr>rb_results := rs, rb_published := True\<rparr>) else None)"

fun agent_step ::
    "('t, 'w) tile_api \<Rightarrow> 't movement_class \<Rightarrow> 't \<Rightarrow> 't \<Rightarrow> 'w provider \<Rightarrow> 'c path_search
     \<Rightarrow> agent_op \<Rightarrow> ('w, 'c) agent_system \<Rightarrow> ('w, 'c) agent_system option" where
  "agent_step A cls otag rtag pr search (ArmGoal i g) s = do {
     a \<leftarrow> nth_opt (sy_agents s) i;
     let (a', f) = arm_path_agent_goal (sy_accounting s) a g;
     Some (s\<lparr>sy_agents := (sy_agents s)[i := a'], sy_accounting := f\<rparr>) }"
| "agent_step A cls otag rtag pr search (CancelGoal i) s = do {
     a \<leftarrow> nth_opt (sy_agents s) i;
     let (a', f) = cancel_path_agent_goal (sy_accounting s) a;
     Some (s\<lparr>sy_agents := (sy_agents s)[i := a'], sy_accounting := f\<rparr>) }"
| "agent_step A cls otag rtag pr search (ObserveTick t) s =
     Some (s\<lparr>sy_accounting := observe_path_agent_flow_tick (sy_agents s) t (sy_accounting s)\<rparr>)"
| "agent_step A cls otag rtag pr search (PrepareTick o') s =
     (case prepare_path_agent_processing o' (sy_agents s) \<lparr>ks_repaths_requested = 0, ks_repath_exhausted = 0\<rparr>
             (sy_accounting s) of
        (as, needs, st, f) \<Rightarrow> Some (s\<lparr>sy_agents := as, sy_accounting := f\<rparr>))"
| "agent_step A cls otag rtag pr search (PlanPaths scope rs) s =
     (case submit_path_agents scope (sy_agents s) (sy_book s) (sy_accounting s) of
        (as, b, f, st) \<Rightarrow> do {
          b' \<leftarrow> publish_results rs b;
          (as', routes, st') \<leftarrow> apply_path_agent_results scope b' as (sy_routes s);
          Some (s\<lparr>sy_agents := as', sy_routes := routes, sy_book := b', sy_accounting := f\<rparr>) })"
| "agent_step A cls otag rtag pr search (WalkRoutes n) s = do {
     (as, f, st) \<leftarrow> advance_path_agents n (sy_agents s) (sy_routes s) (sy_accounting s);
     Some (s\<lparr>sy_agents := as, sy_accounting := f\<rparr>) }"
| "agent_step A cls otag rtag pr search (MoveAgents o') s = do {
     (as, d) \<leftarrow> advance_path_agents_with_movement A cls otag rtag pr o' (sy_agents s) (sy_routes s)
                  (sy_accounting s) (sy_world s);
     Some (s\<lparr>sy_agents := as, sy_accounting := ad_accounting d, sy_world := ad_world d\<rparr>) }"
| "agent_step A cls otag rtag pr search (RequestReplan i) s = do {
     a \<leftarrow> nth_opt (sy_agents s) i;
     (ok, q) \<leftarrow> replan_request (of_nat i) a (sy_queue s);
     Some (s\<lparr>sy_queue := q\<rparr>) }"
| "agent_step A cls otag rtag pr search (DrainReplans n) s = do {
     (ok, r) \<leftarrow> process_path_agent_replans search n (sy_agents s) (sy_routes s) (sy_queue s) (sy_accounting s) (sy_search s);
     Some (s\<lparr>sy_agents := rs_agents r, sy_routes := rs_routes r, sy_queue := rs_queue r,
             sy_accounting := rs_accounting r, sy_search := rs_search r\<rparr>) }"

subsection \<open>Every operation keeps the life cycle and the balance\<close>

lemma balanced_perm:
  assumes "flow_balanced f ss" "mset ss' = mset ss"
  shows "flow_balanced f ss'"
proof -
  have "length ss' = length ss" using assms(2) by (metis size_mset)
  moreover have "sum_list (map g ss') = sum_list (map g ss)" for g :: "u64 \<Rightarrow> u64"
    using assms(2) by (metis mset_map sum_mset_sum_list)
  ultimately show ?thesis using assms(1) by (simp add: flow_balanced_def)
qed

lemma balanced_ages: "flow_balanced (account (\<lambda>c. c\<lparr>fc_oldest_outstanding_age_ticks := t\<rparr>) f) ss = flow_balanced f ss"
  by (simp add: flow_balanced_def account_def flow_identities)

text \<open>The stamps around one agent of a list.\<close>

lemma stamps_split:
  assumes "i < length as"
  shows "stamps as = stamps (take i as) @ stamps [as ! i] @ stamps (drop (Suc i) as)"
    "stamps (as[i := a]) = stamps (take i as) @ stamps [a] @ stamps (drop (Suc i) as)"
  by (subst id_take_nth_drop [OF assms], simp) (simp add: upd_conv_take_nth_drop [OF assms])

lemma arm_kept:
  assumes "accounted f as" "i < length as" "length as < 2 ^ 64" "arm_path_agent_goal f (as ! i) g = (a', f')"
  shows "accounted f' (as[i := a']) \<and> agent_ok a' \<and> (f' = None) = (f = None)"
proof (cases f)
  case None
  then show ?thesis using assms(4) by (auto simp: arm_path_agent_goal_def accounted_def agent_ok_set_goal)
next
  case (Some x)
  define x1 where "x1 = (if path_agent_goal_outstanding (as ! i)
    then leave_item (pa_armed_tick (as ! i)) (account (\<lambda>c. c\<lparr>fc_superseded := fc_superseded c + 1\<rparr>) x) else x)"
  let ?rest = "stamps (take i as) @ stamps (drop (Suc i) as)"
  have "flow_balanced x (stamps as)" using assms(1) Some by (simp add: accounted_def)
  then have b1: "flow_balanced x1 ?rest"
    using balanced_leave [OF _ one_terminal_intros(3), of x "stamps (take i as)" "pa_armed_tick (as ! i)"]
    unfolding stamps_split(1) [OF assms(2)] by (auto simp: x1_def stamps_def)
  have "length ?rest \<le> length (take i as) + length (drop (Suc i) as)"
    unfolding stamps_def length_append length_map by (intro add_mono length_filter_le)
  then have "length ?rest + 1 < 2 ^ 64" using assms(2,3) by simp
  note b2 = balanced_admit [OF b1 this]
  let ?t = "fa_last_observed_tick x1"
  have out: "path_agent_goal_outstanding a' \<and> pa_armed_tick a' = ?t"
    using assms(4) Some
    by (auto simp: arm_path_agent_goal_def Let_def path_agent_goal_outstanding_def set_path_agent_goal_def x1_def)
  have f': "f' = Some (record_admitted (account (\<lambda>c. c\<lparr>fc_offered := fc_offered c + 1\<rparr>) x1))"
    using assms(4) Some by (auto simp: arm_path_agent_goal_def Let_def x1_def)
  have "agent_ok a'" using assms(4) Some by (auto simp: arm_path_agent_goal_def Let_def agent_ok_set_goal)
  moreover have "flow_balanced (record_admitted (account (\<lambda>c. c\<lparr>fc_offered := fc_offered c + 1\<rparr>) x1)) (stamps (as[i := a']))"
    by (rule balanced_perm [OF b2]) (simp add: stamps_split(2) [OF assms(2)] out)
  ultimately show ?thesis using Some by (simp add: accounted_def f')
qed

lemma cancel_kept:
  assumes "list_all agent_ok as" "i < length as" "cancel_path_agent_goal f (as ! i) = (a', f')"
  shows "agents_kept f as f' (as[i := a'])"
proof (rule agents_kept_update [OF assms(1,2)])
  show "agent_ok a'" using assms(3) by (auto simp: cancel_path_agent_goal_def agent_ok_clear)
  show "agent_flow (as ! i) f a' f'"
  proof (cases "path_agent_goal_outstanding (as ! i)")
    case True
    then show ?thesis
      using assms(3) by (auto simp: cancel_path_agent_goal_def agent_flow_def path_agent_goal_outstanding_def
          clear_path_agent_goal_def intro!: exI [of _ "\<lambda>c. c\<lparr>fc_cancelled := fc_cancelled c + 1\<rparr>"] one_terminal_intros)
  next
    case False
    then show ?thesis
      using assms(3) by (cases f) (auto simp: cancel_path_agent_goal_def agent_flow_def path_agent_goal_outstanding_def
          clear_path_agent_goal_def)
  qed
qed

lemma observe_kept: "accounted f as \<Longrightarrow> accounted (observe_path_agent_flow_tick as t f) as"
  by (auto simp: accounted_def observe_path_agent_flow_tick_def Let_def balanced_ages balanced_observe)

definition system_ok :: "('w, 'c) agent_system \<Rightarrow> bool" where
  "system_ok s \<longleftrightarrow> list_all agent_ok (sy_agents s) \<and> length (sy_agents s) < 2 ^ 64
     \<and> accounted (sy_accounting s) (sy_agents s)"

lemma kept_system:
  assumes "agents_kept f as f' as'" "list_all agent_ok as \<and> length as < 2 ^ 64 \<and> accounted f as"
  shows "list_all agent_ok as' \<and> length as' < 2 ^ 64 \<and> accounted f' as' \<and> (f' = None) = (f = None)"
proof -
  have "accounted f ([] @ as @ []) \<Longrightarrow> accounted f' ([] @ as' @ [])" using assms(1) unfolding agents_kept_def by blast
  then show ?thesis using assms by (simp add: agents_kept_def)
qed

lemma agent_step_kept:
  assumes "agent_step A cls otag rtag pr search p s = Some s'" "system_ok s"
  shows "system_ok s' \<and> (sy_accounting s' = None) = (sy_accounting s = None)"
proof -
  let ?as = "sy_agents s" and ?f = "sy_accounting s"
  have ok: "list_all agent_ok ?as \<and> length ?as < 2 ^ 64 \<and> accounted ?f ?as" using assms(2) by (simp add: system_ok_def)
  have kept: ?thesis if "agents_kept ?f ?as (sy_accounting s') (sy_agents s')"
    using kept_system [OF that ok] by (simp add: system_ok_def)
  show ?thesis
  proof (cases p)
    case (ArmGoal i g)
    obtain a' f' where a': "arm_path_agent_goal ?f (?as ! i) g = (a', f')" by (cases "arm_path_agent_goal ?f (?as ! i) g")
    have "i < length ?as" "s' = s\<lparr>sy_agents := ?as[i := a'], sy_accounting := f'\<rparr>"
      using assms(1) a' by (auto simp: ArmGoal bind_eq_Some_conv)
    moreover from arm_kept [OF _ this(1) _ a'] ok
    have "accounted f' (?as[i := a']) \<and> agent_ok a' \<and> (f' = None) = (?f = None)" by simp
    ultimately show ?thesis using ok by (auto simp: system_ok_def list_all_length nth_list_update)
  next
    case (CancelGoal i)
    obtain a' f' where a': "cancel_path_agent_goal ?f (?as ! i) = (a', f')" by (cases "cancel_path_agent_goal ?f (?as ! i)")
    have "i < length ?as" "s' = s\<lparr>sy_agents := ?as[i := a'], sy_accounting := f'\<rparr>"
      using assms(1) a' by (auto simp: CancelGoal bind_eq_Some_conv)
    then show ?thesis using kept cancel_kept [OF conjunct1 [OF ok] _ a'] by simp
  next
    case (ObserveTick t)
    then have "s' = s\<lparr>sy_accounting := observe_path_agent_flow_tick ?as t ?f\<rparr>" using assms(1) by simp
    then show ?thesis
      using ok observe_kept [of ?f ?as t] by (simp add: system_ok_def observe_path_agent_flow_tick_def)
  next
    case (PrepareTick o')
    then obtain as b st f where r: "prepare_each o' ?as (False, \<lparr>ks_repaths_requested = 0, ks_repath_exhausted = 0\<rparr>, ?f) = (as, b, st, f)"
      and s': "s' = s\<lparr>sy_agents := as, sy_accounting := f\<rparr>"
      using assms(1) by (auto simp: prepare_path_agent_processing_def split: prod.splits)
    show ?thesis using kept prepare_each_kept [OF conjunct1 [OF ok] r] by (simp add: s')
  next
    case (PlanPaths scope rs)
    then obtain as b f st b' as' routes st' where
      r: "submit_each scope ?as (clear_requests (sy_book s), ?f, no_agent_stats) = (as, b, f, st)"
      and ap: "apply_each scope b' as (routes_ensure_size (length as) (sy_routes s)) no_agent_stats = Some (as', routes, st')"
      and s': "s' = s\<lparr>sy_agents := as', sy_routes := routes, sy_book := b', sy_accounting := f\<rparr>"
      using assms(1)
      by (auto simp: submit_path_agents_def apply_path_agent_results_def bind_eq_Some_conv split: prod.splits)
    have k: "agents_kept ?f ?as f as" using submit_each_kept [OF conjunct1 [OF ok] r] .
    then have "agents_kept f as f as'"
      using apply_each_kept [OF _ ap] by (simp add: agents_kept_def)
    with k have "agents_kept ?f ?as f as'" by (rule agents_kept_trans)
    then show ?thesis using kept by (simp add: s')
  next
    case (WalkRoutes n)
    then obtain as f st where r: "advance_path_agents n ?as (sy_routes s) ?f = Some (as, f, st)"
      and s': "s' = s\<lparr>sy_agents := as, sy_accounting := f\<rparr>"
      using assms(1) by (auto simp: bind_eq_Some_conv)
    have "agents_kept ?f ?as f as"
      using r advance_each_kept [OF conjunct1 [OF ok]] agents_kept_refl [OF conjunct1 [OF ok]]
      by (auto simp: advance_path_agents_def split: if_splits)
    then show ?thesis using kept by (simp add: s')
  next
    case (MoveAgents o')
    then obtain as d where r: "advance_path_agents_with_movement A cls otag rtag pr o' ?as (sy_routes s) ?f (sy_world s) = Some (as, d)"
      and s': "s' = s\<lparr>sy_agents := as, sy_accounting := ad_accounting d, sy_world := ad_world d\<rparr>"
      using assms(1) by (auto simp: bind_eq_Some_conv)
    have "agents_kept ?f ?as (ad_accounting d) as"
      using r movement_each_kept [OF conjunct1 [OF ok]] agents_kept_refl [OF conjunct1 [OF ok]]
      by (fastforce simp: advance_path_agents_with_movement_def Let_def split: if_splits)
    then show ?thesis using kept by (simp add: s')
  next
    case (RequestReplan i)
    then have "sy_agents s' = ?as" "sy_accounting s' = ?f" using assms(1) by (auto simp: bind_eq_Some_conv)
    then show ?thesis using assms(2) by (simp add: system_ok_def)
  next
    case (DrainReplans n)
    then obtain b r where r: "process_path_agent_replans search n ?as (sy_routes s) (sy_queue s) ?f (sy_search s) = Some (b, r)"
      and s': "sy_agents s' = rs_agents r" "sy_accounting s' = rs_accounting r"
      using assms(1) by (auto simp: bind_eq_Some_conv)
    have "agents_kept ?f ?as (rs_accounting r) (rs_agents r)"
      using replan_loop_kept [OF _ r [unfolded process_path_agent_replans_def]] ok by simp
    then show ?thesis using kept by (simp add: s')
  qed
qed

interpretation goals: accounted_flow "agent_step A cls otag rtag pr search" "\<lambda>s. the (sy_accounting s)"
    "\<lambda>s ss. system_ok s \<and> sy_accounting s \<noteq> None \<and> ss = stamps (sy_agents s)"
  for A :: "('t, 'w) tile_api" and cls otag rtag pr and search :: "'c path_search"
proof unfold_locales
  fix s :: "('w, 'c) agent_system" and ss p s'
  assume s: "system_ok s \<and> sy_accounting s \<noteq> None \<and> ss = stamps (sy_agents s)"
    and step: "agent_step A cls otag rtag pr search p s = Some s'"
  have k: "system_ok s' \<and> (sy_accounting s' = None) = (sy_accounting s = None)"
    using agent_step_kept [OF step] s by blast
  then have "flow_balanced (the (sy_accounting s')) (stamps (sy_agents s'))"
    using s by (auto simp: system_ok_def accounted_def)
  then show "\<exists>ss'. (system_ok s' \<and> sy_accounting s' \<noteq> None \<and> ss' = stamps (sy_agents s'))
      \<and> flow_balanced (the (sy_accounting s')) ss'"
    using k s by blast
qed

subsection \<open>Life cycle and conservation from a fresh start\<close>

definition fresh_agents :: "coord3 list \<Rightarrow> path_agent list" where
  "fresh_agents cs = map (\<lambda>c. default_path_agent\<lparr>pa_position := c\<rparr>) cs"

definition fresh_system :: "coord3 list \<Rightarrow> flow_accounting option \<Rightarrow> 'w \<Rightarrow> 'c \<Rightarrow> ('w, 'c) agent_system" where
  "fresh_system cs f w c = \<lparr>sy_agents = fresh_agents cs, sy_routes = [],
     sy_book = \<lparr>rb_requests = [], rb_results = [], rb_published = False, rb_generation = 0\<rparr>,
     sy_queue = empty_replan_queue, sy_accounting = f, sy_world = w, sy_search = c\<rparr>"

lemma fresh_stamps: "stamps (fresh_agents cs) = []"
  by (induction cs) (simp_all add: fresh_agents_def path_agent_goal_outstanding_def default_path_agent_def)

lemma fresh_ok:
  "length cs < 2 ^ 64 \<Longrightarrow> f = None \<or> f = Some default_flow_accounting \<Longrightarrow> system_ok (fresh_system cs f w c)"
  by (auto simp: system_ok_def fresh_system_def list_all_iff fresh_agents_def agent_ok_default accounted_def
      fresh_stamps [unfolded fresh_agents_def] balanced_default)

lemma run_kept:
  "fold_opt (agent_step A cls otag rtag pr search) ops s = Some s' \<Longrightarrow> system_ok s \<Longrightarrow> system_ok s'"
proof (induction ops arbitrary: s)
  case (Cons p ops)
  then obtain s1 where "agent_step A cls otag rtag pr search p s = Some s1"
    "fold_opt (agent_step A cls otag rtag pr search) ops s1 = Some s'" by (cases "agent_step A cls otag rtag pr search p s") auto
  with Cons agent_step_kept [of A cls otag rtag pr search p s s1] show ?case by blast
qed simp

lemma agent_shapes:
  "agent_ok a \<Longrightarrow> (pa_phase a = Idle \<longleftrightarrow> \<not> pa_has_goal a)
    \<and> (pa_phase a = NeedsPath \<longrightarrow> pa_last_result a = None)
    \<and> (pa_phase a = Following \<longrightarrow> pa_last_result a = Some Found)
    \<and> (pa_phase a = Unreachable \<longrightarrow> pa_last_result a = None)
    \<and> (wants_to_move a \<longrightarrow> pa_phase a = Following \<or> pa_phase a = Blocked_phase)"
  by (cases "pa_phase a") (auto simp: agent_ok_def wants_to_move_def)

text \<open>
  An example run: an agent is armed, planned with one found path, takes two steps through commits on
  the small world, and arrives.
\<close>

definition small_ops :: "agent_op list" where
  "small_ops = [ObserveTick 5, ArmGoal 0 (mk_coord3 1 0 1), ObserveTick 7,
     PlanPaths NeedsOnly [default_path_result\<lparr>pr_status := Found,
       pr_path := [mk_coord3 0 0 0, mk_coord3 1 0 0, mk_coord3 1 0 1]\<rparr>],
     MoveAgents \<lparr>ao_max_steps = 1, ao_dirty_mask = DirtyMask 1\<rparr>, ObserveTick 9]"

definition small_search :: "unit path_search" where
  "small_search i q c = (Some default_path_result, c)"

abbreviation small_agent_step where
  "small_agent_step \<equiv> agent_step (sparse_api small_shape small_schema) small_walk Occupied_by Reserved_by
     AdjacentTransitions small_search"

abbreviation small_start where
  "small_start \<equiv> fresh_system [mk_coord3 0 0 0] (Some default_flow_accounting) small_sparse ()"

lemma small_run:
  "\<exists>s. fold_opt small_agent_step small_ops small_start = Some s \<and> length (sy_agents s) = 1
    \<and> pa_position (sy_agents s ! 0) = mk_coord3 1 0 0"
proof -
  have "(case fold_opt small_agent_step small_ops small_start of None \<Rightarrow> False
    | Some s \<Rightarrow> length (sy_agents s) = 1 \<and> pa_position (sy_agents s ! 0) = mk_coord3 1 0 0)"
    by code_simp
  then show ?thesis by (auto split: option.splits)
qed

text \<open>
  C25. Every sequence of operations on fresh agents (arming, cancelling, the retry scan, planning with
  any results, walking, moving on any world, requesting and draining replans with any search)
  keeps each agent in one of five shapes: idle without a goal, waiting for its first path without
  a result, following a found path, blocked with a goal, or unreachable without a result.
\<close>

theorem agent_life_cycle:
  assumes "fold_opt (agent_step A cls otag rtag pr search) ops (fresh_system cs f w c) = Some s"
    and "length cs < 2 ^ 64" "f = None \<or> f = Some default_flow_accounting"
  shows "\<forall>a \<in> set (sy_agents s).
      (pa_phase a = Idle \<longleftrightarrow> \<not> pa_has_goal a)
    \<and> (pa_phase a = NeedsPath \<longrightarrow> pa_last_result a = None)
    \<and> (pa_phase a = Following \<longrightarrow> pa_last_result a = Some Found)
    \<and> (pa_phase a = Unreachable \<longrightarrow> pa_last_result a = None)
    \<and> (wants_to_move a \<longrightarrow> pa_phase a = Following \<or> pa_phase a = Blocked_phase)"
  using run_kept [OF assms(1) fresh_ok [OF assms(2,3)]] agent_shapes by (simp add: system_ok_def list_all_iff)

lemma agent_life_cycle_witness:
  "\<exists>s. fold_opt small_agent_step small_ops small_start = Some s
    \<and> (pa_phase (sy_agents s ! 0) = Idle \<longleftrightarrow> \<not> pa_has_goal (sy_agents s ! 0))"
proof -
  obtain s where s: "fold_opt small_agent_step small_ops small_start = Some s" "length (sy_agents s) = 1"
    using small_run by blast
  have "sy_agents s ! 0 \<in> set (sy_agents s)" using s(2) by simp
  with agent_life_cycle [OF s(1)] have "pa_phase (sy_agents s ! 0) = Idle \<longleftrightarrow> \<not> pa_has_goal (sy_agents s ! 0)" by simp
  with s(1) show ?thesis by blast
qed



subsection \<open>Tickets and results\<close>

definition awaits_result :: "path_submit_scope \<Rightarrow> path_agent \<Rightarrow> bool" where
  "awaits_result scope a \<longleftrightarrow> \<not> (scope = NeedsOnly \<and> can_skip_scoped_path_submission a) \<and> pa_has_goal a
     \<and> pa_position a \<noteq> pa_goal a \<and> pa_phase a \<noteq> Unreachable"

definition ticket_matches :: "request_book \<Rightarrow> path_agent \<Rightarrow> bool" where
  "ticket_matches b a \<longleftrightarrow> pt_generation (pa_ticket a) = rb_generation b
     \<and> unat (pt_value (pa_ticket a)) < length (rb_requests b)
     \<and> rb_requests b ! unat (pt_value (pa_ticket a)) = \<lparr>pq_start = pa_position a, pq_goal = pa_goal a\<rparr>"

lemma submit_path_agent_ticket:
  assumes "submit_path_agent scope a (b, f, s) = (a', b', f', s')" "length (rb_requests b) < 2 ^ 64"
  shows "(awaits_result scope a' \<longrightarrow> ticket_matches b' a') \<and> rb_generation b' = rb_generation b
    \<and> (\<exists>qs. rb_requests b' = rb_requests b @ qs \<and> length qs \<le> 1) \<and> pa_position a' = pa_position a"
proof -
  have n: "unat (of_nat (length (rb_requests b)) :: u64) = length (rb_requests b)"
    using assms(2) by (simp add: unat_of_nat)
  show ?thesis
    using assms(1)
    by (auto simp: submit_path_agent_def awaits_result_def arrive_path_agent_def clear_path_agent_goal_def Let_def
        submit_request_def ticket_matches_def n split: if_splits)
qed

lemma ticket_matches_more:
  "ticket_matches b a \<Longrightarrow> rb_generation b' = rb_generation b \<Longrightarrow> rb_requests b' = rb_requests b @ qs \<Longrightarrow>
   ticket_matches b' a"
  by (simp add: ticket_matches_def nth_append)

lemma submit_each_tickets:
  "submit_each scope as (b, f, s) = (as', b', f', s') \<Longrightarrow> length (rb_requests b) + length as < 2 ^ 64 \<Longrightarrow>
   (\<forall>a \<in> set as'. awaits_result scope a \<longrightarrow> ticket_matches b' a) \<and> rb_generation b' = rb_generation b
   \<and> (\<exists>qs. rb_requests b' = rb_requests b @ qs) \<and> length as' = length as"
proof (induction as arbitrary: b f s as')
  case (Cons a as)
  obtain a1 b1 f1 s1 where a1: "submit_path_agent scope a (b, f, s) = (a1, b1, f1, s1)"
    by (cases "submit_path_agent scope a (b, f, s)") auto
  obtain as1 where as1: "submit_each scope as (b1, f1, s1) = (as1, b', f', s')" "as' = a1 # as1"
    using Cons.prems(1) by (auto simp: a1 split: prod.splits)
  have t: "(awaits_result scope a1 \<longrightarrow> ticket_matches b1 a1) \<and> rb_generation b1 = rb_generation b
      \<and> (\<exists>qs. rb_requests b1 = rb_requests b @ qs \<and> length qs \<le> 1)"
    using submit_path_agent_ticket [OF a1] Cons.prems(2) by simp
  then have "length (rb_requests b1) + length as < 2 ^ 64" using Cons.prems(2) by auto
  note ih = Cons.IH [OF as1(1) this]
  show ?case using t ih ticket_matches_more [of b1 a1 b'] by (auto simp: as1(2))
qed auto

lemma apply_each_defined:
  assumes "\<forall>a \<in> set as. awaits_result scope a \<longrightarrow> ticket_matches b a" "rb_published b"
    "length (rb_results b) = length (rb_requests b)" "length as \<le> length routes"
  shows "\<exists>as' routes' s'. apply_each scope b as routes s = Some (as', routes', s')
    \<and> (\<forall>i < length as. awaits_result scope (as ! i) \<longrightarrow>
         (\<exists>r. request_result (pa_ticket (as ! i)) b = Some r \<and> pa_last_result (as' ! i) = Some (pr_status r)
            \<and> (pr_status r = Found \<longrightarrow> routes' ! i = pr_path r)))"
  using assms
proof (induction as arbitrary: routes s)
  case (Cons a as)
  obtain route rest where r: "routes = route # rest" using Cons.prems(4) by (cases routes) auto
  have "\<exists>a' route' s'. apply_path_agent_result scope b a route s = Some (a', route', s')
      \<and> (awaits_result scope a \<longrightarrow> (\<exists>r. request_result (pa_ticket a) b = Some r \<and> pa_last_result a' = Some (pr_status r)
            \<and> (pr_status r = Found \<longrightarrow> route' = pr_path r)))"
  proof (cases "awaits_result scope a")
    case False
    then show ?thesis by (auto simp: awaits_result_def apply_path_agent_result_def)
  next
    case True
    then have "ticket_matches b a" using Cons.prems(1) by simp
    then obtain x where "request_result (pa_ticket a) b = Some x"
      using Cons.prems(2,3) by (auto simp: ticket_matches_def request_result_def nth_opt_def)
    then show ?thesis using True by (auto simp: awaits_result_def apply_path_agent_result_def Let_def)
  qed
  then obtain a' route' s' where a': "apply_path_agent_result scope b a route s = Some (a', route', s')"
    and m: "awaits_result scope a \<longrightarrow> (\<exists>r. request_result (pa_ticket a) b = Some r \<and> pa_last_result a' = Some (pr_status r)
            \<and> (pr_status r = Found \<longrightarrow> route' = pr_path r))" by blast
  have "length as \<le> length rest" using Cons.prems(4) r by simp
  then obtain as' routes' s2 where rest: "apply_each scope b as rest s' = Some (as', routes', s2)"
    and ms: "\<forall>i < length as. awaits_result scope (as ! i) \<longrightarrow>
         (\<exists>r. request_result (pa_ticket (as ! i)) b = Some r \<and> pa_last_result (as' ! i) = Some (pr_status r)
            \<and> (pr_status r = Found \<longrightarrow> routes' ! i = pr_path r))"
    using Cons.IH [of rest s'] Cons.prems(1-3) by auto
  have "apply_each scope b (a # as) routes s = Some (a' # as', route' # routes', s2)" by (simp add: r a' rest)
  moreover have "\<forall>i < length (a # as). awaits_result scope ((a # as) ! i) \<longrightarrow>
         (\<exists>r. request_result (pa_ticket ((a # as) ! i)) b = Some r \<and> pa_last_result ((a' # as') ! i) = Some (pr_status r)
            \<and> (pr_status r = Found \<longrightarrow> (route' # routes') ! i = pr_path r))"
    using m ms by (simp add: All_less_Suc2 nth_Cons')
  ultimately show ?case by blast
qed simp

text \<open>
  C4. Planning never reads a bad ticket: after a submission with either scope, whatever results the
  runtime publishes for it (one per request), applying them is defined, so none of the calls that
  terminate the process on a stale, early or out-of-range ticket happens; and each waiting agent
  gets the result of the request for its own position and goal, and its route when one was found.
\<close>

theorem replanning_reads_its_own_results:
  assumes "submit_path_agents scope agents b f = (agents', b', f', st)" "length agents < 2 ^ 64"
    and "publish_results results b' = Some b''"
  shows "\<exists>out routes' st'. apply_path_agent_results scope b'' agents' routes = Some (out, routes', st')
    \<and> (\<forall>i < length agents'. awaits_result scope (agents' ! i) \<longrightarrow>
        (\<exists>k r. k < length results \<and> r = results ! k
           \<and> rb_requests b' ! k = \<lparr>pq_start = pa_position (agents' ! i), pq_goal = pa_goal (agents' ! i)\<rparr>
           \<and> pa_last_result (out ! i) = Some (pr_status r) \<and> (pr_status r = Found \<longrightarrow> routes' ! i = pr_path r)))"
proof -
  have t: "\<forall>a \<in> set agents'. awaits_result scope a \<longrightarrow> ticket_matches b' a"
    using submit_each_tickets [OF assms(1) [unfolded submit_path_agents_def]] assms(2) by (simp add: clear_requests_def)
  have b'': "b'' = b'\<lparr>rb_results := results, rb_published := True\<rparr>" "length results = length (rb_requests b')"
    using assms(3) by (auto simp: publish_results_def split: if_splits)
  have same: "ticket_matches b'' = ticket_matches b'" by (simp add: b'' ticket_matches_def fun_eq_iff)
  have len: "length agents' \<le> length (routes_ensure_size (length agents') routes)" by (simp add: routes_ensure_size_def)
  from apply_each_defined [of agents' scope b'', OF _ _ _ len, of no_agent_stats] t
  obtain out routes' st' where ap: "apply_path_agent_results scope b'' agents' routes = Some (out, routes', st')"
    and m: "\<forall>i < length agents'. awaits_result scope (agents' ! i) \<longrightarrow>
         (\<exists>r. request_result (pa_ticket (agents' ! i)) b'' = Some r \<and> pa_last_result (out ! i) = Some (pr_status r)
            \<and> (pr_status r = Found \<longrightarrow> routes' ! i = pr_path r))"
    unfolding same by (auto simp: apply_path_agent_results_def b'')
  have "\<exists>k r. k < length results \<and> r = results ! k
           \<and> rb_requests b' ! k = \<lparr>pq_start = pa_position (agents' ! i), pq_goal = pa_goal (agents' ! i)\<rparr>
           \<and> pa_last_result (out ! i) = Some (pr_status r) \<and> (pr_status r = Found \<longrightarrow> routes' ! i = pr_path r)"
    if i: "i < length agents'" "awaits_result scope (agents' ! i)" for i
  proof -
    have tm: "ticket_matches b' (agents' ! i)" using t i by simp
    let ?k = "unat (pt_value (pa_ticket (agents' ! i)))"
    obtain r where r: "request_result (pa_ticket (agents' ! i)) b'' = Some r" "pa_last_result (out ! i) = Some (pr_status r)"
      "pr_status r = Found \<longrightarrow> routes' ! i = pr_path r"
      using m i by blast
    have "?k < length results \<and> r = results ! ?k"
      using r(1) by (auto simp: request_result_def b''(1) nth_opt_def split: if_splits)
    then show ?thesis using r(2,3) tm unfolding ticket_matches_def by (intro exI [of _ ?k] exI [of _ r]) simp
  qed
  with ap show ?thesis by blast
qed

lemma replanning_reads_its_own_results_witness:
  "\<exists>agents' b' f' st b'' out routes' st'.
     submit_path_agents AllAgents [set_path_agent_goal (mk_coord3 2 0 0) default_path_agent]
       \<lparr>rb_requests = [], rb_results = [], rb_published = False, rb_generation = 3\<rparr> None = (agents', b', f', st)
     \<and> publish_results [default_path_result] b' = Some b''
     \<and> apply_path_agent_results AllAgents b'' agents' [] = Some (out, routes', st')"
proof -
  let ?as = "[set_path_agent_goal (mk_coord3 2 0 0) default_path_agent]"
  let ?b = "\<lparr>rb_requests = [], rb_results = [], rb_published = False, rb_generation = 3\<rparr> :: request_book"
  obtain agents' b' f' st where s: "submit_path_agents AllAgents ?as ?b None = (agents', b', f', st)"
    by (cases "submit_path_agents AllAgents ?as ?b None") auto
  have "length (rb_requests (fst (snd (submit_path_agents AllAgents ?as ?b None)))) = 1" by code_simp
  then have p: "publish_results [default_path_result] b' = Some (b'\<lparr>rb_results := [default_path_result], rb_published := True\<rparr>)"
    by (simp add: s publish_results_def)
  have "length ?as < 2 ^ 64" by simp
  from replanning_reads_its_own_results [OF s this p, of "[]"] s p show ?thesis by blast
qed

subsection \<open>The retry budget\<close>

definition prepare_tick :: "path_agent_tick_options \<Rightarrow> path_agent list \<Rightarrow> path_agent list" where
  "prepare_tick o' as = fst (prepare_path_agent_processing o' as
     \<lparr>ks_repaths_requested = 0, ks_repath_exhausted = 0\<rparr> None)"

lemma prepare_agent_only: "fst (prepare_path_agent o' a r) = fst (prepare_path_agent o' a r')"
  by (cases r; cases r') (simp add: prepare_path_agent_def Let_def)

lemma prepare_each_map: "fst (prepare_each o' as r) = map (\<lambda>a. fst (prepare_path_agent o' a r0)) as"
proof (induction as arbitrary: r)
  case (Cons a as)
  show ?case
    using Cons.IH prepare_agent_only [of o' a r r0] by (simp split: prod.splits) (metis fst_conv)
qed simp

text \<open>
  C24. The retry budget ends a blocked goal: under the policy \<open>MarkUnreachable\<close> an agent that stays
  blocked is scanned exactly as many times as its budget has left, its counter growing by one each
  time, and the next scan makes it unreachable, where it stays; an agent is never given up while
  budget is left, and no tick that is paused (\<open>max_steps\<close> 0) spends it.
\<close>

theorem blocked_agents_give_up:
  assumes "to_exhaustion_policy o' = MarkUnreachable" "to_max_steps o' \<noteq> 0" "i < length agents"
    and "pa_has_goal (agents ! i)" "pa_phase (agents ! i) = Blocked_phase"
  shows "((prepare_tick o' ^^ n) agents) ! i =
    (let a = agents ! i; budget = unat (to_max_blocked_retries o') - unat (pa_blocked_retries a) in
     if n \<le> budget then a\<lparr>pa_blocked_retries := pa_blocked_retries a + of_nat n\<rparr>
     else a\<lparr>pa_blocked_retries := pa_blocked_retries a + of_nat budget, pa_phase := Unreachable, pa_last_result := None\<rparr>)
   \<and> prepare_tick (o'\<lparr>to_max_steps := 0\<rparr>) agents = agents"
proof -
  let ?r = "(False, \<lparr>ks_repaths_requested = 0, ks_repath_exhausted = 0\<rparr>, None)"
  let ?p = "\<lambda>a. fst (prepare_path_agent o' a ?r)"
  have tick: "prepare_tick o'' as = map (\<lambda>a. fst (prepare_path_agent o'' a ?r)) as" for o'' as
    using prepare_each_map [of o'' as ?r ?r] by (simp add: prepare_tick_def prepare_path_agent_processing_def)
  let ?a = "agents ! i"
  let ?b = "unat (to_max_blocked_retries o') - unat (pa_blocked_retries ?a)"
  have run: "((prepare_tick o' ^^ n) agents) ! i = (?p ^^ n) ?a \<and> length ((prepare_tick o' ^^ n) agents) = length agents" for n
    using assms(3) by (induction n) (simp_all add: tick)
  have lim: "unat (pa_blocked_retries ?a) + n < 2 ^ 32" if "n \<le> ?b" for n
    using that u32_bound [of "to_max_blocked_retries o'"] u32_bound [of "pa_blocked_retries ?a"] by simp
  have sum: "unat (pa_blocked_retries ?a + of_nat n) = unat (pa_blocked_retries ?a) + n" if "n \<le> ?b" for n
    using lim [OF that] by (simp add: unat_word_ariths unat_of_nat)
  have low: "(?p ^^ n) ?a = ?a\<lparr>pa_blocked_retries := pa_blocked_retries ?a + of_nat n\<rparr>" if "n \<le> ?b" for n
    using that
  proof (induction n)
    case (Suc n)
    then have "pa_blocked_retries ?a + of_nat n < to_max_blocked_retries o'"
      using sum [of n] by (simp add: word_less_nat_alt)
    then show ?case
      using Suc assms(2,4,5) by (simp add: prepare_path_agent_def Let_def algebra_simps)
  qed simp
  have stop: "(?p ^^ (Suc ?b + m)) ?a = ?a\<lparr>pa_blocked_retries := pa_blocked_retries ?a + of_nat ?b,
      pa_phase := Unreachable, pa_last_result := None\<rparr>" for m
  proof (induction m)
    case 0
    have "\<not> pa_blocked_retries ?a + of_nat ?b < to_max_blocked_retries o'"
      using sum [of ?b] by (simp add: word_less_nat_alt)
    then show ?case
      using low [of ?b] assms(1,2,4,5) by (simp add: prepare_path_agent_def Let_def)
  next
    case (Suc m)
    then show ?case using assms(4) by (simp add: prepare_path_agent_def)
  qed
  have "prepare_tick (o'\<lparr>to_max_steps := 0\<rparr>) agents = agents"
    unfolding tick by (rule map_idI) (simp add: prepare_path_agent_def)
  moreover have "((prepare_tick o' ^^ n) agents) ! i =
     (if n \<le> ?b then ?a\<lparr>pa_blocked_retries := pa_blocked_retries ?a + of_nat n\<rparr>
      else ?a\<lparr>pa_blocked_retries := pa_blocked_retries ?a + of_nat ?b, pa_phase := Unreachable, pa_last_result := None\<rparr>)"
    using run [of n] low [of n] stop [of "n - Suc ?b"] by (cases "n \<le> ?b") simp_all
  ultimately show ?thesis by (simp add: Let_def)
qed

lemma blocked_agents_give_up_witness:
  "pa_phase (((prepare_tick \<lparr>to_max_steps = 1, to_max_blocked_retries = 2, to_exhaustion_policy = MarkUnreachable\<rparr> ^^ 3)
     [(set_path_agent_goal (mk_coord3 2 0 0) default_path_agent)\<lparr>pa_phase := Blocked_phase\<rparr>]) ! 0) = Unreachable"
  using blocked_agents_give_up [of "\<lparr>to_max_steps = 1, to_max_blocked_retries = 2, to_exhaustion_policy = MarkUnreachable\<rparr>"
      0 "[(set_path_agent_goal (mk_coord3 2 0 0) default_path_agent)\<lparr>pa_phase := Blocked_phase\<rparr>]" 3]
  by (simp add: set_path_agent_goal_def default_path_agent_def)

end
