(* ===== verification/Crowd.thy ===== *)
theory Crowd imports Path_Agent begin

text \<open>
  Agents on a world: the invariant that occupancy is exactly the set of the agents' tiles and no
  tile has two agents, and its preservation by commits and by the pass over path agents.
\<close>

text \<open>
  Occupancy is exact: every agent stands on a tile that has an occupancy value, no two on the same,
  and the value of a tile is nonzero just when an agent stands there.
\<close>

definition occupancy_exact :: "('t, 'w) tile_api \<Rightarrow> 't \<Rightarrow> 'w \<Rightarrow> coord3 list \<Rightarrow> bool" where
  "occupancy_exact A otag w cs \<longleftrightarrow> distinct cs \<and> (\<forall>c \<in> set cs. tile_value_at A w otag c \<noteq> None)
     \<and> (\<forall>c v. tile_value_at A w otag c = Some v \<longrightarrow> (v \<noteq> 0 \<longleftrightarrow> c \<in> set cs))"

text \<open>A provider that does not throw in the states of an invariant.\<close>

definition provider_total :: "('w \<Rightarrow> bool) \<Rightarrow> 'w provider \<Rightarrow> bool" where
  "provider_total P pr \<longleftrightarrow> (\<forall>w c. P w \<longrightarrow> provider_forward pr w c \<noteq> None)"

lemma provider_total_adjacent: "provider_total P AdjacentTransitions"
  by (simp add: provider_total_def provider_forward_def)

lemma provider_total_weaken: "provider_total P pr \<Longrightarrow> provider_total (\<lambda>w. P w \<and> Q) pr"
  by (simp add: provider_total_def)

text \<open>The dirty calls a commit makes on a chunk.\<close>

definition movement_marks :: "shape \<Rightarrow> movement_intent \<Rightarrow> dirty_mask \<Rightarrow> chunk_key \<Rightarrow> dirty_call list" where
  "movement_marks s i m k =
     (if k = chunk_key s (chunk_coord s (mi_from i)) then [MarkDirty m (unit_box (mi_from i))] else [])
     @ (if k = chunk_key s (chunk_coord s (mi_to i)) then [MarkDirty m (unit_box (mi_to i))] else [])"

context crowd_world
begin

text \<open>The positions of a crowd, in the order of its agents.\<close>

definition crowd :: "'w \<Rightarrow> coord3 list \<Rightarrow> bool" where
  "crowd w cs \<longleftrightarrow> inv w \<and> distinct cs \<and> (\<forall>c \<in> set cs. tile_res w c)
     \<and> (\<forall>c. tile_res w c \<longrightarrow> held w c = (c \<in> set cs))"

lemma verdict_facts:
  assumes "verdict pr ks w i = Moved"
  shows "tile_res w (mi_from i)" "tile_res w (mi_to i)" "\<not> held w (mi_to i)"
  using assms by (auto simp: verdict_def Let_def split: if_splits)

text \<open>The commit of a member moves that member and keeps the invariant.\<close>

lemma commit_crowd:
  assumes "crowd w (xs @ c # ys)" "provider_total inv pr"
    and "commit_movement_intent A cls otag rtag pr m w \<lparr>mi_from = c, mi_to = d, mi_versions = v\<rparr> = Some (r, w')"
  shows "crowd w' (if mr_status r = Moved then xs @ d # ys else xs @ c # ys)"
proof -
  let ?i = "\<lparr>mi_from = c, mi_to = d, mi_versions = v\<rparr>"
  have w: "inv w" using assms(1) by (simp add: crowd_def)
  obtain ks where ks: "provider_forward pr w (mi_from ?i) = Some ks"
    using assms(2) w unfolding provider_total_def by fastforce
  note c = commit_Some [OF w ks assms(3)]
  have st: "mr_status r = verdict pr ks w ?i" using c(1) by simp
  show ?thesis
  proof (cases "verdict pr ks w ?i = Moved")
    case False
    then show ?thesis using c(4) [OF False] assms(1) st by simp
  next
    case True
    note f = verdict_facts [OF True, simplified]
    have res: "tile_res w' = tile_res w" using set_tile_res [OF c(3)] .
    have dn: "d \<notin> set (xs @ c # ys)" using assms(1) f(2,3) by (auto simp: crowd_def)
    have held': "held w' x = (if x = d then True else if x = c then False else held w x)" for x
      using c(5) [OF True, of otag x] by (simp add: held_def)
    have mem: "x \<in> set (xs @ c # ys) \<longleftrightarrow> held w x" if "tile_res w x" for x
      using assms(1) that by (simp add: crowd_def)
    have "distinct (xs @ d # ys)" using assms(1) dn by (auto simp: crowd_def)
    moreover have "\<forall>x \<in> set (xs @ d # ys). tile_res w' x" using assms(1) f(2) by (auto simp: crowd_def res)
    moreover have "held w' x = (x \<in> set (xs @ d # ys))" if "tile_res w' x" for x
      using mem [of x] that assms(1) by (auto simp: held' res crowd_def)
    ultimately show ?thesis using True st c(2) by (simp add: crowd_def)
  qed
qed

lemma commit_defined:
  assumes "inv w" "provider_total inv pr" "dirty_empty m"
  shows "\<exists>r w'. commit_movement_intent A cls otag rtag pr m w i = Some (r, w')"
proof -
  obtain ks where ks: "provider_forward pr w (mi_from i) = Some ks"
    using assms(1,2) unfolding provider_total_def by fastforce
  show ?thesis
    using commit_eq [where w=w and pr=pr and m=m and i=i, OF assms(1) ks] assms(3) by (auto split: if_splits option.splits)
qed

subsection \<open>The pass over path agents\<close>

lemma step_along_position [simp]: "pa_position (step_along to a) = to"
  by (simp add: step_along_def resume_path_agent_def)

lemma arrive_position: "arrive_if_there a r = (a', r') \<Longrightarrow> pa_position a' = pa_position a"
  by (cases r) (auto simp: arrive_if_there_def arrive_path_agent_def clear_path_agent_goal_def split: if_splits)

lemma refuse_position: "refuse_step st a d = (a', d') \<Longrightarrow> pa_position a' = pa_position a"
  by (auto simp: refuse_step_def block_path_agent_def Let_def split: if_splits)

lemma refuse_world: "refuse_step st a d = (a', d') \<Longrightarrow> ad_world d' = ad_world d \<and> ad_commits d' = ad_commits d"
  by (auto simp: refuse_step_def Let_def split: if_splits)

lemma movement_steps_crowd:
  assumes "movement_steps A cls otag rtag pr m i n route a d = Some (a', d')" "provider_total inv pr"
    and "crowd (ad_world d) (xs @ pa_position a # ys)"
  shows "crowd (ad_world d') (xs @ pa_position a' # ys)"
  using assms(1,3)
proof (induction n arbitrary: a d)
  case (Suc n)
  let ?i = "\<lambda>to. \<lparr>mi_from = pa_position a, mi_to = to, mi_versions = no_versions\<rparr>"
  show ?case
  proof (cases "has_next_step (pa_path_index a) (of_nat (length route))")
    case False
    then show ?thesis using Suc.prems by simp
  next
    case True
    then obtain to r w where to: "nth_opt route (unat (pa_path_index a + 1)) = Some to"
      and c: "commit_movement_intent A cls otag rtag pr m (ad_world d) (?i to) = Some (r, w)"
      using Suc.prems(1) by (auto simp: bind_eq_Some_conv)
    note cr = commit_crowd [OF Suc.prems(2) assms(2) c]
    show ?thesis
    proof (cases "mr_status r = Moved")
      case False
      then have ref: "refuse_step (mr_status r) a (d\<lparr>ad_world := w\<rparr>) = (a', d')"
        using Suc.prems(1) True to c by simp
      show ?thesis using cr False refuse_position [OF ref] refuse_world [OF ref] by simp
    next
      case moved: True
      obtain a2 acct s2 where ar: "arrive_if_there (step_along to a)
          (ad_accounting d, (ad_stats d)\<lparr>ps_advanced := ps_advanced (ad_stats d) + 1\<rparr>) = (a2, acct, s2)"
        by (cases "arrive_if_there (step_along to a)
          (ad_accounting d, (ad_stats d)\<lparr>ps_advanced := ps_advanced (ad_stats d) + 1\<rparr>)") auto
      have pos: "pa_position a2 = to" using arrive_position [OF ar] by simp
      let ?d = "\<lparr>ad_world = w, ad_accounting = acct, ad_stats = s2,
         ad_commits = ad_commits d @ [(i, pa_position a, to)]\<rparr>"
      have "(if to = pa_goal (step_along to a) then Some (a2, ?d)
          else movement_steps A cls otag rtag pr m i n route a2 ?d) = Some (a', d')"
        using Suc.prems(1) True to c moved by (simp add: ar Let_def)
      then show ?thesis using Suc.IH [of a2 ?d] cr moved pos by (auto split: if_splits)
    qed
  qed
qed simp

lemma movement_each_crowd:
  assumes "movement_each A cls otag rtag pr m n i as routes d = Some (as', d')" "provider_total inv pr"
    and "crowd (ad_world d) (xs @ map pa_position as)"
  shows "crowd (ad_world d') (xs @ map pa_position as') \<and> length as' = length as"
  using assms(1,3)
proof (induction as arbitrary: i routes d as' xs)
  case (Cons a as)
  then obtain route rest where r: "routes = route # rest" by (cases routes) auto
  obtain a1 d1 as1 where a1: "(if \<not> wants_to_move a then Some (a, d)
        else movement_steps A cls otag rtag pr m i n route a d) = Some (a1, d1)"
    and rest: "movement_each A cls otag rtag pr m n (Suc i) as rest d1 = Some (as1, d')" and as': "as' = a1 # as1"
    using Cons.prems(1) by (auto simp: r bind_eq_Some_conv)
  have "crowd (ad_world d1) (xs @ pa_position a1 # map pa_position as)"
    using a1 movement_steps_crowd [OF _ assms(2)] Cons.prems(2) by (auto split: if_splits)
  then have "crowd (ad_world d1) ((xs @ [pa_position a1]) @ map pa_position as)" by simp
  from Cons.IH [OF rest this] show ?case by (simp add: as')
qed simp

lemma movement_steps_defined:
  assumes "provider_total inv pr" "dirty_empty m" "length route < 2 ^ 64"
  shows "inv (ad_world d) \<Longrightarrow> \<exists>a' d'. movement_steps A cls otag rtag pr m i n route a d = Some (a', d') \<and> inv (ad_world d')"
proof (induction n arbitrary: a d)
  case (Suc n)
  let ?i = "\<lambda>to. \<lparr>mi_from = pa_position a, mi_to = to, mi_versions = no_versions\<rparr>"
  show ?case
  proof (cases "has_next_step (pa_path_index a) (of_nat (length route))")
    case False
    then show ?thesis using Suc.prems by simp
  next
    case True
    then have lt: "pa_path_index a < of_nat (length route) - 1" "(0 :: u64) < of_nat (length route)"
      by (simp_all add: has_next_step_def)
    then have "unat (pa_path_index a) < unat (of_nat (length route) - (1 :: u64))" by (simp add: word_less_nat_alt)
    also have "\<dots> = length route - 1"
      using assms(3) lt(2) by (subst unat_sub) (auto simp: word_le_nat_alt word_less_nat_alt unat_of_nat Suc_le_eq)
    finally have "unat (pa_path_index a + 1) < length route"
      using unat_plus_if' [of "pa_path_index a" 1] assms(3) by (auto split: if_splits)
    then obtain to where to: "nth_opt route (unat (pa_path_index a + 1)) = Some to" by (simp add: nth_opt_def)
    obtain r w where c: "commit_movement_intent A cls otag rtag pr m (ad_world d) (?i to) = Some (r, w)"
      using commit_defined [OF Suc.prems assms(1,2)] by blast
    obtain ks where "provider_forward pr (ad_world d) (mi_from (?i to)) = Some ks"
      using Suc.prems assms(1) unfolding provider_total_def by fastforce
    from commit_Some(2) [OF Suc.prems this c] have w: "inv w" .
    obtain a2 acct s2 where ar: "arrive_if_there (step_along to a)
        (ad_accounting d, (ad_stats d)\<lparr>ps_advanced := ps_advanced (ad_stats d) + 1\<rparr>) = (a2, acct, s2)"
      by (cases "arrive_if_there (step_along to a)
        (ad_accounting d, (ad_stats d)\<lparr>ps_advanced := ps_advanced (ad_stats d) + 1\<rparr>)") auto
    obtain a3 d3 where ref: "refuse_step (mr_status r) a (d\<lparr>ad_world := w\<rparr>) = (a3, d3)" by (cases "refuse_step (mr_status r) a (d\<lparr>ad_world := w\<rparr>)")
    let ?d = "\<lparr>ad_world = w, ad_accounting = acct, ad_stats = s2, ad_commits = ad_commits d @ [(i, pa_position a, to)]\<rparr>"
    have "movement_steps A cls otag rtag pr m i (Suc n) route a d =
        (if mr_status r \<noteq> Moved then Some (a3, d3)
         else if to = pa_goal (step_along to a) then Some (a2, ?d)
         else movement_steps A cls otag rtag pr m i n route a2 ?d)"
      by (simp add: True to c ar ref Let_def)
    then show ?thesis using Suc.IH [of ?d a2] w refuse_world [OF ref] by (simp split: if_split)
  qed
qed simp

lemma movement_each_defined:
  assumes "provider_total inv pr" "dirty_empty m" "\<forall>route \<in> set routes. length route < 2 ^ 64" "length as \<le> length routes"
  shows "inv (ad_world d) \<Longrightarrow> \<exists>as' d'. movement_each A cls otag rtag pr m n i as routes d = Some (as', d')"
  using assms(3,4)
proof (induction as arbitrary: i routes d)
  case (Cons a as)
  then obtain route rest where r: "routes = route # rest" by (cases routes) auto
  have "\<exists>a1 d1. (if \<not> wants_to_move a then Some (a, d)
      else movement_steps A cls otag rtag pr m i n route a d) = Some (a1, d1) \<and> inv (ad_world d1)"
    using movement_steps_defined [OF assms(1,2), of route d] Cons.prems r by auto
  then obtain a1 d1 where a1: "(if \<not> wants_to_move a then Some (a, d)
      else movement_steps A cls otag rtag pr m i n route a d) = Some (a1, d1)" "inv (ad_world d1)" by blast
  moreover obtain as1 d2 where "movement_each A cls otag rtag pr m n (Suc i) as rest d1 = Some (as1, d2)"
    using Cons.IH [OF a1(2), of rest "Suc i"] Cons.prems(2,3) r by auto
  ultimately show ?case by (simp add: r del: split_paired_Ex)
qed simp

subsection \<open>In terms of the calls\<close>

lemma value_iff_res: "inv w \<Longrightarrow> tile_value_at A w otag c \<noteq> None \<longleftrightarrow> tile_res w c"
  using value_defined [of w c otag] tags_law [of w] value_at [of w c otag]
  by (cases "shape_contains (wa_shape A) c") (auto simp: value_outside tile_res_def)

lemma crowd_iff: "crowd w cs \<longleftrightarrow> inv w \<and> occupancy_exact A otag w cs"
proof (cases "inv w")
  case True
  have "(\<forall>c. tile_res w c \<longrightarrow> held w c = (c \<in> set cs))
      \<longleftrightarrow> (\<forall>c v. tile_value_at A w otag c = Some v \<longrightarrow> (v \<noteq> 0 \<longleftrightarrow> c \<in> set cs))"
    using value_iff_res [OF True] unfolding held_def by (metis option.collapse option.sel option.discI)
  then show ?thesis using True value_iff_res [OF True] by (simp add: crowd_def occupancy_exact_def)
qed (simp add: crowd_def)

lemma accepts_planned:
  assumes "inv w" "shape_contains (wa_shape A) (mi_from i)" "provider_forward pr w (mi_from i) = Some ks"
    and "for_each_forward A cls pr w (mi_from i) = Some ps"
  shows "\<exists>r. validate_movement_intent A cls otag rtag pr w i = Some r
    \<and> mr_from r = mi_from i \<and> mr_to r = mi_to i
    \<and> (mr_status r = Moved \<longleftrightarrow>
         clearance_at A cls w (mi_from i) = Some Clear
         \<and> (\<exists>p \<in> set ps. tp_to p = mi_to i \<and> tp_availability p = Legal)
         \<and> tile_value_at A w otag (mi_to i) = Some 0 \<and> tile_value_at A w rtag (mi_to i) = Some 0
         \<and> movement_versions_match A w i = Some Moved)"
proof -
  let ?v = "verdict pr ks w i"
  have r: "validate_movement_intent A cls otag rtag pr w i
      = Some \<lparr>mr_status = ?v, mr_from = mi_from i, mr_to = mi_to i\<rparr>"
    using validate_eq [where w=w and pr=pr and ks=ks, OF assms(1,3)]
    by (cases "?v = Moved") (simp_all add: validate_movement_intent_def movement_failed_def)
  note m = verdict_Moved [OF assms] and clear = clearance_at_Clear [OF assms(1)]
  have res: "\<exists>p \<in> set ps. tp_to p = mi_to i \<and> tp_availability p = Legal \<Longrightarrow> tile_res w (mi_to i)"
    using legal_probe [OF assms] by blast
  have "?v = Moved \<longleftrightarrow> clearance_at A cls w (mi_from i) = Some Clear
      \<and> (\<exists>p \<in> set ps. tp_to p = mi_to i \<and> tp_availability p = Legal)
      \<and> tile_value_at A w otag (mi_to i) = Some 0 \<and> tile_value_at A w rtag (mi_to i) = Some 0
      \<and> movement_versions_match A w i = Some Moved"
  proof (cases "tile_res w (mi_from i) \<and> tile_res w (mi_to i)")
    case True
    obtain vo vr where v: "tile_value_at A w otag (mi_to i) = Some vo" "tile_value_at A w rtag (mi_to i) = Some vr"
      using value_defined [OF assms(1) conjunct2 [OF True]] tags_law [OF assms(1)] by blast
    show ?thesis
      unfolding m clear using True v versions_match_eq [OF assms(1) conjunct1 [OF True] conjunct2 [OF True]]
      by (simp add: held_def flagged_def)
  next
    case False
    then show ?thesis unfolding m clear using res by blast
  qed
  with r show ?thesis by simp
qed

lemma marks_eq: "marks i m k = movement_marks (wa_shape A) i m k"
  by (simp add: marks_def movement_marks_def)

lemma commit_effect:
  assumes "inv w" "provider_total inv pr" "commit_movement_intent A cls otag rtag pr m w i = Some (r, w')"
  shows "validate_movement_intent A cls otag rtag pr w i = Some r
    \<and> inv w' \<and> res w' = res w
    \<and> (mr_status r \<noteq> Moved \<longrightarrow> w' = w)
    \<and> (mr_status r = Moved \<longrightarrow>
         (\<forall>t c. tile_value_at A w' t c =
            (if t = otag \<and> c = mi_to i then Some 1 else if t = otag \<and> c = mi_from i then Some 0
             else if t = rtag \<and> c = mi_to i then Some 0 else tile_value_at A w t c))
         \<and> (\<forall>k. dense_valid_key (wa_shape A) k \<and> res w k \<longrightarrow>
              dirty_run (movement_marks (wa_shape A) i m k) (entry w k) = Some (entry w' k)))"
proof -
  obtain ks where ks: "provider_forward pr w (mi_from i) = Some ks"
    using assms(1,2) unfolding provider_total_def by fastforce
  note c = commit_Some [OF assms(1) ks assms(3)]
  have "validate_movement_intent A cls otag rtag pr w i = Some r"
    using validate_eq [where w=w and pr=pr and ks=ks, OF assms(1) ks] c(1)
    by (cases "verdict pr ks w i = Moved") (simp_all add: validate_movement_intent_def movement_failed_def)
  then show ?thesis using c by (simp add: marks_eq)
qed

lemma pass_keeps_occupancy:
  assumes "advance_path_agents_with_movement A cls otag rtag pr o' as routes f w = Some (as', d)"
    and "inv w" "provider_total inv pr" "occupancy_exact A otag w (map pa_position as)"
  shows "inv (ad_world d) \<and> occupancy_exact A otag (ad_world d) (map pa_position as')"
proof -
  have c: "crowd w ([] @ map pa_position as)" using assms(2,4) by (simp add: crowd_iff)
  show ?thesis
  proof (cases "ao_max_steps o' = 0")
    case True
    then show ?thesis using assms by (auto simp: advance_path_agents_with_movement_def Let_def split: if_splits)
  next
    case False
    then have "movement_each A cls otag rtag pr (ao_dirty_mask o') (unat (ao_max_steps o')) 0 as routes
        \<lparr>ad_world = w, ad_accounting = f, ad_stats = no_agent_stats, ad_commits = []\<rparr> = Some (as', d)"
      using assms(1) by (simp add: advance_path_agents_with_movement_def Let_def split: if_splits)
    from movement_each_crowd [OF this assms(3), of "[]"] c show ?thesis by (simp add: crowd_iff)
  qed
qed

lemma pass_defined:
  assumes "inv w" "provider_total inv pr" "dirty_empty (ao_dirty_mask o')" "length as \<le> length routes"
    "\<forall>route \<in> set routes. length route < 2 ^ 64"
  shows "advance_path_agents_with_movement A cls otag rtag pr o' as routes f w \<noteq> None"
  using movement_each_defined [OF assms(2,3,5,4), of "\<lparr>ad_world = w, ad_accounting = f, ad_stats = no_agent_stats, ad_commits = []\<rparr>"]
    assms(1,4) by (auto simp: advance_path_agents_with_movement_def Let_def)

end

end
