(* ===== verification/Movement_Props.thy ===== *)
theory Movement_Props imports Crowd Path_Agent_Props begin

text \<open>
  The two worlds of the library as worlds of a crowd, and the properties of movement: what validation
  accepts, what a commit changes, and that agents never share a tile, over any sequence of the
  operations on path agents that move them through commits.
\<close>

definition crowd_ok :: "shape \<Rightarrow> ('t, int) schema \<Rightarrow> 't movement_class \<Rightarrow> 't \<Rightarrow> 't \<Rightarrow> bool" where
  "crowd_ok s fs cls otag rtag \<longleftrightarrow> mover_ok s fs cls \<and> contains_field_tag otag fs \<and> contains_field_tag rtag fs \<and> otag \<noteq> rtag"

interpretation dense_crowd: crowd_world "dense_api s fs" "\<lambda>w. (valid_shape s \<and> dense_inv s fs w) \<and> crowd_ok s fs cls otag rtag"
    "\<lambda>w k. True" "\<lambda>w k. dw_pages w ! slot k" "\<lambda>w k. dense_entry w (slot k)" cls otag rtag
  for s and fs :: "('t, int) schema" and cls otag rtag
  by (intro crowd_world.intro mover_world.intro tile_world_restrict dense.tile_world_axioms mover_world_axioms.intro
      crowd_world_axioms.intro) (simp_all add: crowd_ok_def mover_ok_def dense_api_def)

interpretation sparse_crowd: crowd_world "sparse_api s fs" "\<lambda>w. sparse_ok s fs w \<and> crowd_ok s fs cls otag rtag"
    sparse_res "\<lambda>w k. sw_pages w ! sparse_slot w k" sparse_entry cls otag rtag
  for s and fs :: "('t, int) schema" and cls otag rtag
  by (intro crowd_world.intro mover_world.intro tile_world_restrict sparse.tile_world_axioms mover_world_axioms.intro
      crowd_world_axioms.intro) (simp_all add: crowd_ok_def mover_ok_def sparse_api_def)

lemma small_crowd: "crowd_ok small_shape small_schema small_walk Occupied_by Reserved_by"
  using small_mover by (simp add: crowd_ok_def small_schema_def)

subsection \<open>What validation accepts\<close>

text \<open>
  C22. Planning and commit share one vocabulary. For every world (chunks may be missing), lattice,
  step policy, movement class and provider, validation accepts an intent exactly when its
  source is a resident passable tile, the forward enumeration that exact search uses lists a legal
  probe from it to the target, the target's occupancy and reservation are 0, and the expected
  versions match.
\<close>

theorem commit_accepts_planned_steps:
  fixes w :: "int sparse_world" and fs :: "('t, int) schema"
  assumes "sparse_ok s fs w" "crowd_ok s fs cls otag rtag"
    and "shape_contains s (mi_from i)" "provider_forward pr w (mi_from i) = Some ks"
    and "for_each_forward (sparse_api s fs) cls pr w (mi_from i) = Some ps"
  shows "\<exists>r. validate_movement_intent (sparse_api s fs) cls otag rtag pr w i = Some r
    \<and> mr_from r = mi_from i \<and> mr_to r = mi_to i
    \<and> (mr_status r = Moved \<longleftrightarrow>
         clearance_at (sparse_api s fs) cls w (mi_from i) = Some Clear
         \<and> (\<exists>p \<in> set ps. tp_to p = mi_to i \<and> tp_availability p = Legal)
         \<and> tile_value_at (sparse_api s fs) w otag (mi_to i) = Some 0
         \<and> tile_value_at (sparse_api s fs) w rtag (mi_to i) = Some 0
         \<and> movement_versions_match (sparse_api s fs) w i = Some Moved)"
proof (rule sparse_crowd.accepts_planned [OF _ _ assms(4,5)])
  show "sparse_ok s fs w \<and> crowd_ok s fs cls otag rtag" using assms(1,2) by simp
  show "shape_contains (wa_shape (sparse_api s fs)) (mi_from i)" using assms(3) by (simp add: sparse_api_def)
qed

lemma small_forward:
  "\<exists>ps. for_each_forward (sparse_api small_shape small_schema) small_walk AdjacentTransitions small_sparse (mk_coord3 0 0 0) = Some ps"
proof -
  have ok: "sparse_ok small_shape small_schema small_sparse \<and> crowd_ok small_shape small_schema small_walk Occupied_by Reserved_by"
    using small_sparse_ok small_crowd by simp
  have c: "shape_contains (wa_shape (sparse_api small_shape small_schema)) (mk_coord3 0 0 0)" by code_simp
  have "provider_forward (AdjacentTransitions :: int sparse_world provider) small_sparse (mk_coord3 0 0 0) = Some []"
    by (simp add: provider_forward_def)
  from sparse_crowd.forward_eq [OF ok c this] show ?thesis by blast
qed

lemma commit_accepts_planned_steps_witness:
  "\<exists>r (ps :: transition_probe list). validate_movement_intent (sparse_api small_shape small_schema) small_walk Occupied_by Reserved_by
      AdjacentTransitions small_sparse \<lparr>mi_from = mk_coord3 0 0 0, mi_to = mk_coord3 1 0 0, mi_versions = no_versions\<rparr> = Some r
    \<and> mr_status r = Moved \<and> (\<exists>p \<in> set ps. tp_to p = mk_coord3 1 0 0 \<and> tp_availability p = Legal)"
proof -
  let ?A = "sparse_api small_shape small_schema"
  let ?i = "\<lparr>mi_from = mk_coord3 0 0 0, mi_to = mk_coord3 1 0 0, mi_versions = no_versions\<rparr>"
  obtain ps where ps: "for_each_forward ?A small_walk AdjacentTransitions small_sparse (mi_from ?i) = Some ps"
    using small_forward by auto
  have c: "shape_contains small_shape (mi_from ?i)" by code_simp
  have f: "provider_forward (AdjacentTransitions :: int sparse_world provider) small_sparse (mi_from ?i) = Some []"
    by (simp add: provider_forward_def)
  have v: "map_option mr_status (validate_movement_intent ?A small_walk Occupied_by Reserved_by AdjacentTransitions small_sparse ?i) = Some Moved"
    by code_simp
  obtain r where "validate_movement_intent ?A small_walk Occupied_by Reserved_by AdjacentTransitions small_sparse ?i = Some r"
    "mr_status r = Moved" using v by auto
  moreover from this commit_accepts_planned_steps [OF small_sparse_ok small_crowd c f ps]
  have "\<exists>p \<in> set ps. tp_to p = mk_coord3 1 0 0 \<and> tp_availability p = Legal" by auto
  ultimately show ?thesis by (intro exI [of _ r] exI [of _ ps] conjI) simp_all
qed

subsection \<open>What a commit changes\<close>

text \<open>
  C20. A commit is all or nothing and exact. It returns the verdict of validation; when refused the
  world is unchanged; when accepted the only values that change are the occupancy of the two
  tiles and the reservation of the target, residency is unchanged, and the metadata of every
  resident chunk is what marking the source and then the target dirty makes of it (nothing for an
  empty mask).
\<close>

theorem commit_is_exact:
  fixes w :: "int sparse_world" and fs :: "('t, int) schema"
  assumes "sparse_ok s fs w" "crowd_ok s fs cls otag rtag"
    and "provider_total (sparse_ok s fs) pr"
    and "commit_movement_intent (sparse_api s fs) cls otag rtag pr m w i = Some (r, w')"
  shows "validate_movement_intent (sparse_api s fs) cls otag rtag pr w i = Some r
    \<and> sparse_ok s fs w' \<and> sparse_res w' = sparse_res w
    \<and> (mr_status r \<noteq> Moved \<longrightarrow> w' = w)
    \<and> (mr_status r = Moved \<longrightarrow>
         (\<forall>t c. tile_value_at (sparse_api s fs) w' t c =
            (if t = otag \<and> c = mi_to i then Some 1 else if t = otag \<and> c = mi_from i then Some 0
             else if t = rtag \<and> c = mi_to i then Some 0 else tile_value_at (sparse_api s fs) w t c))
         \<and> (\<forall>k. dense_valid_key s k \<and> sparse_res w k \<longrightarrow>
              dirty_run (movement_marks s i m k) (sparse_entry w k) = Some (sparse_entry w' k)))"
proof -
  have ok: "sparse_ok s fs w \<and> crowd_ok s fs cls otag rtag" using assms(1,2) by simp
  note t = provider_total_weaken [OF assms(3), of "crowd_ok s fs cls otag rtag"]
  have sh: "wa_shape (sparse_api s fs) = s" by (simp add: sparse_api_def)
  show ?thesis using sparse_crowd.commit_effect [OF ok t assms(4)] unfolding sh by blast
qed

lemma commit_is_exact_witness:
  "\<exists>r w'. commit_movement_intent (sparse_api small_shape small_schema) small_walk Occupied_by Reserved_by AdjacentTransitions
      (DirtyMask 1) small_sparse \<lparr>mi_from = mk_coord3 0 0 0, mi_to = mk_coord3 1 0 0, mi_versions = no_versions\<rparr> = Some (r, w')
    \<and> mr_status r = Moved \<and> tile_value_at (sparse_api small_shape small_schema) w' Occupied_by (mk_coord3 1 0 0) = Some 1"
proof -
  let ?i = "\<lparr>mi_from = mk_coord3 0 0 0, mi_to = mk_coord3 1 0 0, mi_versions = no_versions\<rparr>"
  let ?c = "commit_movement_intent (sparse_api small_shape small_schema) small_walk Occupied_by Reserved_by
    AdjacentTransitions (DirtyMask 1) small_sparse ?i"
  have v: "map_option (\<lambda>(r, w). mr_status r) ?c = Some Moved" by code_simp
  then obtain r w' where c: "?c = Some (r, w')" "mr_status r = Moved" by auto
  from commit_is_exact [OF small_sparse_ok small_crowd provider_total_adjacent c(1)] c show ?thesis by simp
qed

subsection \<open>Agents never share a tile\<close>

text \<open>The operations that do not move agents keep their positions and the world.\<close>

lemma arrive_pos: "arrive_path_agent a f = (a', f') \<Longrightarrow> pa_position a' = pa_position a"
  by (auto simp: arrive_path_agent_def clear_path_agent_goal_def)

lemma submit_each_pos: "submit_each scope as r = (as', r') \<Longrightarrow> map pa_position as' = map pa_position as"
proof (induction as arbitrary: r as')
  case (Cons a as)
  obtain a1 r1 where a1: "submit_path_agent scope a r = (a1, r1)" by (cases "submit_path_agent scope a r")
  obtain as1 where as1: "submit_each scope as r1 = (as1, r')" "as' = a1 # as1"
    using Cons.prems by (auto simp: a1 split: prod.splits)
  have "pa_position a1 = pa_position a"
    using a1 by (cases r) (auto simp: submit_path_agent_def submit_request_def Let_def dest: arrive_pos split: if_splits prod.splits)
  then show ?case using Cons.IH [OF as1(1)] as1(2) by simp
qed simp

lemma apply_each_pos: "apply_each scope b as routes s = Some (as', r) \<Longrightarrow> map pa_position as' = map pa_position as"
proof (induction as arbitrary: routes s as' r)
  case (Cons a as)
  obtain route rest where rt: "routes = route # rest" using Cons.prems by (cases routes) auto
  obtain a1 route1 s1 as1 r1 where a1: "apply_path_agent_result scope b a route s = Some (a1, route1, s1)"
    and as1: "apply_each scope b as rest s1 = Some (as1, r1)" "as' = a1 # as1"
    using Cons.prems by (auto simp: rt bind_eq_Some_conv)
  have "pa_position a1 = pa_position a"
    using a1 by (auto simp: apply_path_agent_result_def bind_eq_Some_conv Let_def split: if_splits)
  then show ?case using Cons.IH [OF as1(1)] as1(2) by simp
qed simp

lemma prepare_each_pos: "prepare_each o' as r = (as', r') \<Longrightarrow> map pa_position as' = map pa_position as"
proof (induction as arbitrary: r as')
  case (Cons a as)
  obtain a1 r1 where a1: "prepare_path_agent o' a r = (a1, r1)" by (cases "prepare_path_agent o' a r")
  obtain as1 where as1: "prepare_each o' as r1 = (as1, r')" "as' = a1 # as1"
    using Cons.prems by (auto simp: a1 split: prod.splits)
  have "pa_position a1 = pa_position a"
    using a1 by (cases r) (auto simp: prepare_path_agent_def Let_def split: if_splits)
  then show ?case using Cons.IH [OF as1(1)] as1(2) by simp
qed simp

lemma replan_item_pos:
  assumes "replan_item search i r = Some (ItemServed r')"
  shows "map pa_position (rs_agents r') = map pa_position (rs_agents r)"
proof -
  have upd: "map pa_position ((rs_agents r)[unat i := a]) = map pa_position (rs_agents r)"
    if "\<not> length (rs_agents r) \<le> unat i" "pa_position a = pa_position (rs_agents r ! unat i)" for a
    using that by (simp add: map_update list_update_same_conv)
  show ?thesis
    using assms
    by (auto simp: replan_item_def bind_eq_Some_conv Let_def commit_replan_def intro!: upd dest: arrive_pos
        split: if_splits prod.splits option.splits)
qed

lemma replan_loop_pos:
  "replan_loop search m r = Some (ok, r') \<Longrightarrow> map pa_position (rs_agents r') = map pa_position (rs_agents r)"
proof (induction search m r rule: replan_loop.induct)
  case (1 search m r)
  have threw: "rs_agents r1 = rs_agents r" if "replan_item search i r = Some (ItemThrew r1)" for i r1
    using that by (auto simp: replan_item_def bind_eq_Some_conv Let_def split: if_splits prod.splits option.splits)
  show ?case
  proof (cases "replan_empty (rs_queue r) \<or> m \<le> ps_submitted (rs_frame r) \<or> replan_front (rs_queue r) = Some None")
    case True
    then show ?thesis using "1.prems" by (auto simp: replan_loop.simps [of search m r] split: if_splits)
  next
    case False
    then obtain i x where i: "replan_front (rs_queue r) = Some (Some i)" "replan_item search i r = Some x"
      using "1.prems" by (auto simp: replan_loop.simps [of search m r] split: option.splits)
    show ?thesis
    proof (cases x)
      case (ItemThrew r1)
      then show ?thesis using "1.prems" False i threw [of i r1] by (simp add: replan_loop.simps [of search m r])
    next
      case (ItemServed r1)
      obtain q where q: "replan_pop_front (rs_queue r1) = Some q"
        "replan_loop search m (r1\<lparr>rs_queue := q\<rparr>) = Some (ok, r')"
        using "1.prems" False i ItemServed by (auto simp: replan_loop.simps [of search m r] split: option.splits)
      have "map pa_position (rs_agents r') = map pa_position (rs_agents (r1\<lparr>rs_queue := q\<rparr>))"
        using "1.IH" [OF _ i(1) refl i(2) ItemServed q(1,2)] False by blast
      then show ?thesis using replan_item_pos [of search i r r1] i(2) ItemServed by simp
    qed
  qed
qed

fun moves_freely :: "agent_op \<Rightarrow> bool" where
  "moves_freely (WalkRoutes n) = True"
| "moves_freely p = False"

lemma agent_step_pos:
  assumes "agent_step A cls otag rtag pr search p s = Some s'" "\<not> moves_freely p" "\<forall>o'. p \<noteq> MoveAgents o'"
  shows "map pa_position (sy_agents s') = map pa_position (sy_agents s) \<and> sy_world s' = sy_world s"
proof -
  have upd: "map pa_position ((sy_agents s)[i := a]) = map pa_position (sy_agents s)"
    if "i < length (sy_agents s)" "pa_position a = pa_position (sy_agents s ! i)" for i a
    using that by (simp add: map_update list_update_same_conv)
  show ?thesis
  proof (cases p)
    case (ArmGoal i g)
    then show ?thesis using assms(1)
      by (auto simp: bind_eq_Some_conv arm_path_agent_goal_def set_path_agent_goal_def Let_def intro!: upd split: option.splits)
  next
    case (CancelGoal i)
    then show ?thesis using assms(1)
      by (auto simp: bind_eq_Some_conv cancel_path_agent_goal_def clear_path_agent_goal_def intro!: upd)
  next
    case (PrepareTick o')
    then show ?thesis using assms(1)
      by (auto simp: prepare_path_agent_processing_def dest: prepare_each_pos split: prod.splits)
  next
    case (PlanPaths scope rs)
    then obtain as r b' as' r' where "submit_each scope (sy_agents s) (clear_requests (sy_book s), sy_accounting s, no_agent_stats) = (as, r)"
      "apply_each scope b' as (routes_ensure_size (length as) (sy_routes s)) no_agent_stats = Some (as', r')"
      "sy_agents s' = as'" "sy_world s' = sy_world s"
      using assms(1) by (auto simp: submit_path_agents_def apply_path_agent_results_def bind_eq_Some_conv split: prod.splits)
    then show ?thesis using submit_each_pos apply_each_pos by metis
  next
    case (DrainReplans n)
    then show ?thesis using assms(1)
      by (auto simp: bind_eq_Some_conv process_path_agent_replans_def dest: replan_loop_pos)
  qed (use assms in \<open>auto simp: bind_eq_Some_conv\<close>)
qed

text \<open>
  C1. Agents never share a tile. From a world whose occupancy is exactly the agents' tiles, every
  sequence of the operations on path agents that moves them only through commits (with any routes,
  goals, planner results, retries and dirty masks, chunks missing or not, a provider that does not
  throw) ends in such a world: the agents are on pairwise different resident tiles, and a tile's
  occupancy is set just when an agent stands there.
\<close>

theorem agents_never_share_a_tile:
  fixes s :: "(int sparse_world, 'c) agent_system" and fs :: "('t, int) schema"
  assumes "fold_opt (agent_step (sparse_api sh fs) cls otag rtag pr search) ops s = Some s'"
    and "list_all (\<lambda>p. \<not> moves_freely p) ops"
    and "sparse_ok sh fs (sy_world s)" "crowd_ok sh fs cls otag rtag"
    and "provider_total (sparse_ok sh fs) pr"
    and "occupancy_exact (sparse_api sh fs) otag (sy_world s) (map pa_position (sy_agents s))"
  shows "sparse_ok sh fs (sy_world s')
    \<and> occupancy_exact (sparse_api sh fs) otag (sy_world s') (map pa_position (sy_agents s'))"
  using assms(1,2,3,6)
proof (induction ops arbitrary: s)
  case (Cons p ops)
  let ?step = "agent_step (sparse_api sh fs) cls otag rtag pr search"
  obtain s1 where s1: "?step p s = Some s1" "fold_opt ?step ops s1 = Some s'"
    using Cons.prems(1) by (cases "?step p s") auto
  have "sparse_ok sh fs (sy_world s1) \<and> occupancy_exact (sparse_api sh fs) otag (sy_world s1) (map pa_position (sy_agents s1))"
  proof (cases "\<exists>o'. p = MoveAgents o'")
    case False
    then have "\<forall>o'. p \<noteq> MoveAgents o'" by blast
    with agent_step_pos [OF s1(1)] Cons.prems(2,3,4) show ?thesis by simp
  next
    case True
    then obtain o' as d where p: "p = MoveAgents o'"
      and r: "advance_path_agents_with_movement (sparse_api sh fs) cls otag rtag pr o' (sy_agents s) (sy_routes s)
         (sy_accounting s) (sy_world s) = Some (as, d)"
      and e: "sy_agents s1 = as" "sy_world s1 = ad_world d"
      using s1(1) by (auto simp: bind_eq_Some_conv)
    have ok: "sparse_ok sh fs (sy_world s) \<and> crowd_ok sh fs cls otag rtag" using Cons.prems(3) assms(4) by simp
    note t = provider_total_weaken [OF assms(5), of "crowd_ok sh fs cls otag rtag"]
    show ?thesis using sparse_crowd.pass_keeps_occupancy [OF r ok t Cons.prems(4)] e by simp
  qed
  then show ?case using Cons.IH [OF s1(2)] Cons.prems(2) by simp
qed simp

text \<open>The small world with the example agent on its start tile, and the example run on it.\<close>

definition small_placed :: "int sparse_world" where
  "small_placed = the (sparse_set_tile small_schema small_sparse (ChunkKey 0) Occupied_by (LocalTileId 0) 1)"

lemma small_unoccupied: "occupancy_exact (sparse_api small_shape small_schema) Occupied_by small_sparse []"
proof -
  have pages: "list_all (\<lambda>q. list_all (\<lambda>v. v = 0) (page_fields q ! 3)) (sw_pages small_sparse)" by code_simp
  have "v = 0" if "tile_value_at (sparse_api small_shape small_schema) small_sparse Occupied_by c = Some v" for c v
  proof -
    have "\<exists>q \<in> set (sw_pages small_sparse). \<exists>l. page_field small_schema Occupied_by q l = Some v"
      using that by (auto simp: tile_value_at_def bind_eq_Some_conv sparse_api_def sparse_chunk_def)
    then obtain q l where q: "q \<in> set (sw_pages small_sparse)" "page_field small_schema Occupied_by q l = Some v" by blast
    then have "v \<in> set (page_fields q ! 3)"
      by (auto simp: page_field_def page_field_span_def bind_eq_Some_conv small_schema_def numeral_3_eq_3)
    with pages q(1) show ?thesis by (auto simp: list_all_iff)
  qed
  then show ?thesis by (auto simp: occupancy_exact_def)
qed

lemma small_placed_ok:
  "sparse_ok small_shape small_schema small_placed
   \<and> occupancy_exact (sparse_api small_shape small_schema) Occupied_by small_placed [mk_coord3 0 0 0]"
proof -
  let ?A = "sparse_api small_shape small_schema" and ?c = "mk_coord3 0 0 0"
  have sh: "wa_shape ?A = small_shape" by (simp add: sparse_api_def)
  have ka: "chunk_key small_shape (chunk_coord small_shape ?c) = ChunkKey 0" by code_simp
  have la: "local_tile_id small_shape (local_coord small_shape ?c) = LocalTileId 0" by code_simp
  have c: "shape_contains small_shape ?c" by code_simp
  have "dir_map (sw_directory small_sparse) (ChunkKey 0) \<noteq> None" by code_simp
  then have "sparse_res small_sparse (ChunkKey 0)" by (simp add: sparse_res_def)
  then have res: "tile_world.tile_res ?A sparse_res small_sparse ?c"
    using c by (simp add: sparse.tile_res_def sh ka)
  have "contains_field_tag Occupied_by (wa_schema ?A)" by code_simp
  from sparse.set_tile [OF small_sparse_ok res this, of 1, unfolded sh ka la]
  obtain w' where w': "sparse_set_tile small_schema small_sparse (ChunkKey 0) Occupied_by (LocalTileId 0) 1 = Some w'"
    "sparse_ok small_shape small_schema w'"
    "\<forall>t' c'. tile_value_at ?A w' t' c' = (if t' = Occupied_by \<and> c' = ?c then Some 1 else tile_value_at ?A small_sparse t' c')"
    by (auto simp: sparse_api_def)
  have "occupancy_exact ?A Occupied_by w' [?c]"
    using small_unoccupied w'(3) by (auto simp: occupancy_exact_def)
  then show ?thesis using w'(1,2) by (simp add: small_placed_def)
qed

abbreviation small_placed_start where
  "small_placed_start \<equiv> fresh_system [mk_coord3 0 0 0] (Some default_flow_accounting) small_placed ()"

lemma agents_never_share_a_tile_witness:
  "\<exists>s. fold_opt small_agent_step small_ops small_placed_start = Some s
    \<and> map pa_position (sy_agents s) = [mk_coord3 1 0 0]
    \<and> occupancy_exact (sparse_api small_shape small_schema) Occupied_by (sy_world s) [mk_coord3 1 0 0]"
proof -
  have "map_option (\<lambda>s. map pa_position (sy_agents s)) (fold_opt small_agent_step small_ops small_placed_start)
      = Some [mk_coord3 1 0 0]" by code_simp
  then obtain s where s: "fold_opt small_agent_step small_ops small_placed_start = Some s"
    "map pa_position (sy_agents s) = [mk_coord3 1 0 0]" by auto
  have ops: "list_all (\<lambda>p. \<not> moves_freely p) small_ops" by (simp add: small_ops_def)
  have start: "sy_world small_placed_start = small_placed" "map pa_position (sy_agents small_placed_start) = [mk_coord3 0 0 0]"
    by (simp_all add: fresh_system_def fresh_agents_def default_path_agent_def)
  from agents_never_share_a_tile [OF s(1) ops _ small_crowd provider_total_adjacent] small_placed_ok s start
  show ?thesis by simp
qed

end
