(* ===== verification/Replan_Queue.thy ===== *)
theory Replan_Queue imports Path_Agent_Laws begin

text \<open>
  The queue of agents that wait for a new path is a FIFO without duplicates, and the pass that
  drains it: it returns, serves a prefix of the queue in order, and is atomic when the search throws.
\<close>

subsection \<open>The queue\<close>

definition waiting :: "replan_queue \<Rightarrow> u64 list" where
  "waiting q = drop (rq_head q) (rq_indices q)"

definition queue_ok :: "replan_queue \<Rightarrow> bool" where
  "queue_ok q \<longleftrightarrow> rq_head q \<le> length (rq_indices q) \<and> distinct (waiting q) \<and> length (rq_queued q) < 2 ^ 64
     \<and> (\<forall>i. replan_contains i q \<longleftrightarrow> i \<in> set (waiting q))"

text \<open>The specification: a list of different indices.\<close>

definition spec_request :: "u64 \<Rightarrow> path_agent \<Rightarrow> u64 list \<Rightarrow> bool \<times> u64 list" where
  "spec_request i a xs =
     (if \<not> pa_has_goal a \<or> pa_phase a = Unreachable \<or> i \<in> set xs then (False, xs) else (True, xs @ [i]))"

fun spec_request_all :: "u64 \<Rightarrow> path_agent list \<Rightarrow> u64 list \<Rightarrow> u64 list" where
  "spec_request_all i [] xs = xs"
| "spec_request_all i (a # as) xs = spec_request_all (i + 1) as (snd (spec_request i a xs))"

datatype queue_call =
    Request u64 path_agent | RequestAll "path_agent list" | PopFront | ClearQueue | Front | Pending_count | Contains u64

datatype queue_answer = Done_call | Flag_answer bool | Front_answer "u64 option" | Count_answer nat

fun queue_step :: "queue_call \<Rightarrow> replan_queue \<Rightarrow> (queue_answer \<times> replan_queue) option" where
  "queue_step (Request i a) q = map_option (\<lambda>(b, q'). (Flag_answer b, q')) (replan_request i a q)"
| "queue_step (RequestAll as) q = map_option (\<lambda>q'. (Done_call, q')) (replan_request_all as q)"
| "queue_step PopFront q = map_option (\<lambda>q'. (Done_call, q')) (replan_pop_front q)"
| "queue_step ClearQueue q = map_option (\<lambda>q'. (Done_call, q')) (replan_clear q)"
| "queue_step Front q = map_option (\<lambda>f. (Front_answer f, q)) (replan_front q)"
| "queue_step Pending_count q = Some (Count_answer (replan_pending q), q)"
| "queue_step (Contains i) q = Some (Flag_answer (replan_contains i q), q)"

fun fifo_step :: "queue_call \<Rightarrow> u64 list \<Rightarrow> queue_answer \<times> u64 list" where
  "fifo_step (Request i a) xs = (case spec_request i a xs of (b, ys) \<Rightarrow> (Flag_answer b, ys))"
| "fifo_step (RequestAll as) xs = (Done_call, spec_request_all 0 as xs)"
| "fifo_step PopFront xs = (Done_call, tl xs)"
| "fifo_step ClearQueue xs = (Done_call, [])"
| "fifo_step Front xs = (Front_answer (case xs of [] \<Rightarrow> None | x # _ \<Rightarrow> Some x), xs)"
| "fifo_step Pending_count xs = (Count_answer (length xs), xs)"
| "fifo_step (Contains i) xs = (Flag_answer (i \<in> set xs), xs)"

text \<open>The largest index has no successor to size the flags by; a span of agents is shorter.\<close>

fun call_ok :: "queue_call \<Rightarrow> bool" where
  "call_ok (Request i a) = (i \<noteq> u64_max)"
| "call_ok (RequestAll as) = (length as < 2 ^ 64)"
| "call_ok c = True"

lemma grow_flags_eq:
  assumes "length fs < 2 ^ 64" "i \<noteq> u64_max"
  obtains k where "grow_flags i fs = fs @ replicate k False" "unat i < length (grow_flags i fs)"
    "length (grow_flags i fs) < 2 ^ 64"
proof (cases "of_nat (length fs) \<le> i")
  case True
  have "unat i \<noteq> 2 ^ 64 - 1" using assms(2) by (simp add: word_unat_eq_iff)
  then have n: "unat (i + 1) = unat i + 1" "unat i + 1 < 2 ^ 64" using u64_less [of i] unat_add_u64 [of i 1] by simp_all
  have "length fs \<le> unat i" using True assms(1) by (simp add: word_le_nat_alt unat_of_nat)
  with True n show ?thesis by (intro that [of "unat i + 1 - length fs"]) (simp_all add: grow_flags_def)
next
  case False
  then have "unat i < length fs" using assms(1) by (simp add: word_le_nat_alt unat_of_nat)
  with False assms(1) show ?thesis by (intro that [of 0]) (simp_all add: grow_flags_def)
qed

lemma nth_grown: "(fs @ replicate k False) ! j = (j < length fs \<and> fs ! j)" if "j < length fs + k"
  using that by (simp add: nth_append)

lemma request_refines:
  assumes "queue_ok q" "i \<noteq> u64_max"
  shows "\<exists>b q'. replan_request i a q = Some (b, q') \<and> queue_ok q' \<and> (b, waiting q') = spec_request i a (waiting q)"
proof (cases "\<not> pa_has_goal a \<or> pa_phase a = Unreachable")
  case True
  then show ?thesis using assms(1) by (auto simp: replan_request_def spec_request_def)
next
  case False
  have len: "length (rq_queued q) < 2 ^ 64" and mem: "\<And>j. replan_contains j q \<longleftrightarrow> j \<in> set (waiting q)"
    and head: "rq_head q \<le> length (rq_indices q)" and dist: "distinct (waiting q)"
    using assms(1) by (simp_all add: queue_ok_def)
  obtain k where g: "grow_flags i (rq_queued q) = rq_queued q @ replicate k False"
      "unat i < length (grow_flags i (rq_queued q))" "length (grow_flags i (rq_queued q)) < 2 ^ 64"
    using grow_flags_eq [OF len assms(2)] .
  let ?fs = "grow_flags i (rq_queued q)"
  let ?q1 = "q\<lparr>rq_queued := ?fs\<rparr>"
  have con1: "replan_contains j ?q1 \<longleftrightarrow> j \<in> set (waiting q)" for j
    using mem [of j] by (auto simp: replan_contains_def g(1) nth_append)
  have flag: "?fs ! unat i = (i \<in> set (waiting q))" using con1 [of i] g(2) by (simp add: replan_contains_def)
  have w1: "waiting ?q1 = waiting q" by (simp add: waiting_def)
  have wc: "waiting (replan_compact ?q1) = waiting q" "rq_head (replan_compact ?q1) \<le> length (rq_indices (replan_compact ?q1))"
    "rq_queued (replan_compact ?q1) = ?fs"
    using head by (simp_all add: replan_compact_def waiting_def)
  show ?thesis
  proof (cases "i \<in> set (waiting q)")
    case True
    then have "replan_request i a q = Some (False, ?q1)" using False g(2) flag by (simp add: replan_request_def Let_def nth_opt_in)
    moreover have "queue_ok ?q1" using assms(1) g(3) con1 w1 by (simp add: queue_ok_def)
    ultimately show ?thesis using True w1 by (intro exI [of _ False]) (simp add: spec_request_def)
  next
    case new: False
    let ?q2 = "replan_compact ?q1"
    let ?q3 = "?q2\<lparr>rq_indices := rq_indices ?q2 @ [i], rq_queued := ?fs[unat i := True]\<rparr>"
    have "replan_request i a q = Some (True, ?q3)"
      using False new g(2) flag wc(3) by (simp add: replan_request_def Let_def nth_opt_in upd_opt_def)
    moreover have w3: "waiting ?q3 = waiting q @ [i]" using wc(1,2) by (simp add: waiting_def)
    moreover have "replan_contains j ?q3 \<longleftrightarrow> j \<in> set (waiting ?q3)" for j
      using con1 [of j] g(2) unfolding w3 by (auto simp: replan_contains_def nth_list_update u64_eq_nat)
    moreover have "distinct (waiting ?q3)" using dist new unfolding w3 by simp
    ultimately show ?thesis
      using False new g(3) wc(2) by (intro exI [of _ True] exI [of _ ?q3]) (simp add: queue_ok_def spec_request_def)
  qed
qed

lemma request_each_refines:
  "queue_ok q \<Longrightarrow> unat i + length as < 2 ^ 64 \<Longrightarrow>
   \<exists>q'. request_each i as q = Some q' \<and> queue_ok q' \<and> waiting q' = spec_request_all i as (waiting q)"
proof (induction as arbitrary: i q)
  case (Cons a as)
  have "unat i < 2 ^ 64 - 1" using Cons.prems(2) by simp
  then have i: "i \<noteq> u64_max" "unat (i + 1) = unat i + 1" using unat_add_u64 [of i 1] by auto
  obtain b q1 where q1: "replan_request i a q = Some (b, q1)" "queue_ok q1" "(b, waiting q1) = spec_request i a (waiting q)"
    using request_refines [OF Cons.prems(1) i(1)] by blast
  have "unat (i + 1) + length as < 2 ^ 64" using Cons.prems(2) i(2) by simp
  from Cons.IH [OF q1(2) this] obtain q' where
    "request_each (i + 1) as q1 = Some q'" "queue_ok q'" "waiting q' = spec_request_all (i + 1) as (waiting q1)" by blast
  then show ?case using q1 by (auto simp flip: q1(3))
qed simp

lemma pop_refines:
  assumes "queue_ok q"
  shows "\<exists>q'. replan_pop_front q = Some q' \<and> queue_ok q' \<and> waiting q' = tl (waiting q)"
proof (cases "replan_empty q")
  case True
  then show ?thesis using assms by (simp add: replan_pop_front_def replan_empty_def waiting_def)
next
  case False
  let ?i = "rq_indices q ! rq_head q"
  have lt: "rq_head q < length (rq_indices q)" using False assms by (simp add: queue_ok_def replan_empty_def)
  have w: "waiting q = ?i # drop (Suc (rq_head q)) (rq_indices q)" using lt by (simp add: waiting_def Cons_nth_drop_Suc)
  have mem: "\<And>j. replan_contains j q \<longleftrightarrow> j \<in> set (waiting q)" and dist: "distinct (waiting q)"
    using assms by (simp_all add: queue_ok_def)
  have in_range: "unat ?i < length (rq_queued q)" using mem [of ?i] w by (simp add: replan_contains_def)
  let ?fs = "(rq_queued q)[unat ?i := False]"
  have flags: "unat j < length ?fs \<and> ?fs ! unat j \<longleftrightarrow> j \<in> set (tl (waiting q))" for j
  proof -
    have "unat j < length ?fs \<and> ?fs ! unat j \<longleftrightarrow> replan_contains j q \<and> j \<noteq> ?i"
      using in_range by (auto simp: replan_contains_def nth_list_update u64_eq_nat)
    then show ?thesis using mem [of j] dist unfolding w by auto
  qed
  show ?thesis
  proof (cases "Suc (rq_head q) = length (rq_indices q)")
    case True
    then have "replan_pop_front q = Some \<lparr>rq_indices = [], rq_queued = ?fs, rq_head = 0\<rparr>"
      using False lt in_range by (simp add: replan_pop_front_def nth_opt_in upd_opt_def Let_def)
    moreover have "tl (waiting q) = []" using True by (simp add: w)
    ultimately show ?thesis using flags assms by (simp add: queue_ok_def waiting_def replan_contains_def)
  next
    case more: False
    then have "replan_pop_front q = Some (q\<lparr>rq_queued := ?fs, rq_head := Suc (rq_head q)\<rparr>)"
      using False lt in_range by (simp add: replan_pop_front_def nth_opt_in upd_opt_def Let_def)
    moreover have "waiting (q\<lparr>rq_queued := ?fs, rq_head := Suc (rq_head q)\<rparr>) = tl (waiting q)"
      by (simp add: waiting_def drop_Suc tl_drop)
    ultimately show ?thesis
      using flags assms lt dist by (simp add: queue_ok_def replan_contains_def distinct_tl)
  qed
qed

lemma clear_flags:
  assumes "\<forall>i \<in> set xs. unat i < length fs"
  shows "\<exists>fs'. fold_opt (\<lambda>i fs. upd_opt fs (unat i) False) xs fs = Some fs' \<and> length fs' = length fs
    \<and> (\<forall>j < length fs. fs' ! j = (fs ! j \<and> j \<notin> unat ` set xs))"
  using assms
proof (induction xs arbitrary: fs)
  case (Cons x xs)
  then have x: "unat x < length fs" and "\<forall>i \<in> set xs. unat i < length (fs[unat x := False])" by simp_all
  from Cons.IH [OF this(2)] obtain fs' where
    "fold_opt (\<lambda>i fs. upd_opt fs (unat i) False) xs (fs[unat x := False]) = Some fs'" "length fs' = length fs"
    "\<forall>j < length fs. fs' ! j = ((fs[unat x := False]) ! j \<and> j \<notin> unat ` set xs)" by auto
  with x show ?case by (auto simp: upd_opt_def nth_list_update)
qed simp

lemma clear_refines:
  assumes "queue_ok q"
  shows "\<exists>q'. replan_clear q = Some q' \<and> queue_ok q' \<and> waiting q' = []"
proof -
  have mem: "\<And>j. replan_contains j q \<longleftrightarrow> j \<in> set (waiting q)" using assms by (simp add: queue_ok_def)
  then have "\<forall>i \<in> set (waiting q). unat i < length (rq_queued q)" by (auto simp: replan_contains_def)
  from clear_flags [OF this] obtain fs where fs:
    "fold_opt (\<lambda>i fs. upd_opt fs (unat i) False) (waiting q) (rq_queued q) = Some fs" "length fs = length (rq_queued q)"
    "\<forall>j < length (rq_queued q). fs ! j = (rq_queued q ! j \<and> j \<notin> unat ` set (waiting q))" by blast
  have "\<not> (unat j < length fs \<and> fs ! unat j)" for j :: u64
    using fs(2,3) mem [of j] by (auto simp: replan_contains_def)
  then show ?thesis using fs assms by (simp add: replan_clear_def waiting_def [symmetric])
      (simp add: queue_ok_def waiting_def replan_contains_def)
qed

lemma front_eq: "queue_ok q \<Longrightarrow> replan_front q = Some (case waiting q of [] \<Rightarrow> None | x # _ \<Rightarrow> Some x)"
proof (cases "rq_head q < length (rq_indices q)")
  case True
  then have "waiting q = rq_indices q ! rq_head q # drop (Suc (rq_head q)) (rq_indices q)"
    by (simp add: waiting_def Cons_nth_drop_Suc)
  then show ?thesis using True by (simp add: replan_front_def replan_empty_def nth_opt_in)
qed (auto simp: replan_front_def replan_empty_def queue_ok_def waiting_def)

lemma empty_eq: "queue_ok q \<Longrightarrow> replan_empty q \<longleftrightarrow> waiting q = []"
  by (auto simp: replan_empty_def queue_ok_def waiting_def)

lemma queue_ok_grown: "queue_ok q \<Longrightarrow> n < 2 ^ 64 \<Longrightarrow>
  queue_ok (q\<lparr>rq_queued := rq_queued q @ replicate (n - length (rq_queued q)) False\<rparr>)"
proof -
  assume q: "queue_ok q" and n: "n < 2 ^ 64"
  let ?q = "q\<lparr>rq_queued := rq_queued q @ replicate (n - length (rq_queued q)) False\<rparr>"
  have "replan_contains i ?q = replan_contains i q" for i by (auto simp: replan_contains_def nth_append)
  moreover have "waiting ?q = waiting q" by (simp add: waiting_def)
  moreover have "length (rq_queued ?q) < 2 ^ 64"
    using q n by (cases "n \<le> length (rq_queued q)") (simp_all add: queue_ok_def)
  ultimately show "queue_ok ?q" using q by (simp add: queue_ok_def)
qed

lemma queue_step_refines:
  assumes "queue_ok q" "call_ok c"
  shows "\<exists>r q'. queue_step c q = Some (r, q') \<and> queue_ok q' \<and> (r, waiting q') = fifo_step c (waiting q)"
proof (cases c)
  case (Request i a)
  with request_refines [OF assms(1), of i a] assms(2) show ?thesis by (auto split: prod.splits)
next
  case (RequestAll as)
  let ?q = "q\<lparr>rq_queued := rq_queued q @ replicate (length as - length (rq_queued q)) False\<rparr>"
  have "queue_ok ?q" using queue_ok_grown [OF assms(1), of "length as"] assms(2) RequestAll by simp
  from request_each_refines [OF this, of 0 as] assms(2) RequestAll show ?thesis
    by (auto simp: replan_request_all_def waiting_def)
next
  case PopFront
  with pop_refines [OF assms(1)] show ?thesis by auto
next
  case ClearQueue
  with clear_refines [OF assms(1)] show ?thesis by auto
next
  case Pending_count
  then show ?thesis using assms(1) by (simp add: replan_pending_def waiting_def)
next
  case (Contains i)
  then show ?thesis using assms(1) by (simp add: queue_ok_def)
qed (use assms in \<open>simp add: front_eq\<close>)

lemma empty_queue_ok: "queue_ok empty_replan_queue" "waiting empty_replan_queue = []"
  by (simp_all add: queue_ok_def waiting_def empty_replan_queue_def replan_contains_def)

fun queue_run :: "queue_call list \<Rightarrow> replan_queue \<Rightarrow> (queue_answer list \<times> replan_queue) option" where
  "queue_run [] q = Some ([], q)"
| "queue_run (c # cs) q = do { (r, q1) \<leftarrow> queue_step c q; (rs, q2) \<leftarrow> queue_run cs q1; Some (r # rs, q2) }"

fun fifo_run :: "queue_call list \<Rightarrow> u64 list \<Rightarrow> queue_answer list \<times> u64 list" where
  "fifo_run [] xs = ([], xs)"
| "fifo_run (c # cs) xs = (case fifo_step c xs of (r, ys) \<Rightarrow> case fifo_run cs ys of (rs, zs) \<Rightarrow> (r # rs, zs))"

lemma queue_run_refines:
  "queue_ok q \<Longrightarrow> list_all call_ok cs \<Longrightarrow>
   \<exists>rs q'. queue_run cs q = Some (rs, q') \<and> queue_ok q' \<and> (rs, waiting q') = fifo_run cs (waiting q)"
proof (induction cs arbitrary: q)
  case (Cons c cs)
  then obtain r q1 where q1: "queue_step c q = Some (r, q1)" "queue_ok q1" "fifo_step c (waiting q) = (r, waiting q1)"
    using queue_step_refines [of q c] by auto
  then obtain rs q2 where "queue_run cs q1 = Some (rs, q2)" "queue_ok q2" "fifo_run cs (waiting q1) = (rs, waiting q2)"
    using Cons.IH [of q1] Cons.prems(2) by auto
  with q1 show ?case by simp
qed simp



subsection \<open>Draining the queue\<close>

text \<open>One completed turn of the drain: the item at the front is served and popped.\<close>

inductive replan_turn :: "'c path_search \<Rightarrow> u64 \<Rightarrow> 'c replan_state \<Rightarrow> 'c replan_state \<Rightarrow> bool"
  for search :: "'c path_search" and m :: u64 where
  turn: "\<not> replan_empty (rs_queue r) \<Longrightarrow> ps_submitted (rs_frame r) < m \<Longrightarrow> replan_front (rs_queue r) = Some (Some i) \<Longrightarrow>
     replan_item search i r = Some (ItemServed r1) \<Longrightarrow> replan_pop_front (rs_queue r1) = Some q \<Longrightarrow>
     replan_turn search m r (r1\<lparr>rs_queue := q\<rparr>)"

definition drain_ok :: "'c replan_state \<Rightarrow> bool" where
  "drain_ok r \<longleftrightarrow> queue_ok (rs_queue r) \<and> length (rs_agents r) \<le> length (rs_routes r)"

lemma status_submitted: "ps_submitted (record_path_agent_status st s) = ps_submitted s"
  by (cases st) (simp_all add: record_path_agent_status_def)

lemma replan_item_cases:
  assumes "length (rs_agents r) \<le> length (rs_routes r)"
  shows "\<exists>x. replan_item search i r = Some x \<and> (case x of
      ItemThrew r1 \<Rightarrow> unat i < length (rs_agents r) \<and> r1 = r\<lparr>rs_search := rs_search r1\<rparr>
        \<and> search i \<lparr>pq_start = pa_position (rs_agents r ! unat i), pq_goal = pa_goal (rs_agents r ! unat i)\<rparr> (rs_search r)
            = (None, rs_search r1)
    | ItemServed r1 \<Rightarrow> rs_queue r1 = rs_queue r \<and> length (rs_agents r1) = length (rs_agents r)
        \<and> length (rs_routes r1) = length (rs_routes r)
        \<and> (\<forall>j. j \<noteq> unat i \<longrightarrow> rs_agents r1 ! j = rs_agents r ! j \<and> rs_routes r1 ! j = rs_routes r ! j)
        \<and> ps_submitted (rs_frame r1) \<in> {ps_submitted (rs_frame r), ps_submitted (rs_frame r) + 1})"
proof -
  let ?a = "rs_agents r ! unat i"
  let ?q = "\<lparr>pq_start = pa_position ?a, pq_goal = pa_goal ?a\<rparr>"
  consider (out) "length (rs_agents r) \<le> unat i"
    | (idle) "unat i < length (rs_agents r)" "\<not> pa_has_goal ?a \<or> pa_phase ?a = Unreachable"
    | (there) "unat i < length (rs_agents r)" "\<not> (\<not> pa_has_goal ?a \<or> pa_phase ?a = Unreachable)" "pa_position ?a = pa_goal ?a"
    | (search) "unat i < length (rs_agents r)" "\<not> (\<not> pa_has_goal ?a \<or> pa_phase ?a = Unreachable)" "pa_position ?a \<noteq> pa_goal ?a"
    by linarith
  then show ?thesis
  proof cases
    case there
    then show ?thesis
      using assms by (cases "arrive_path_agent ?a (rs_accounting r)") (simp add: replan_item_def nth_opt_in upd_opt_def)
  next
    case search
    obtain x c where x: "search i ?q (rs_search r) = (x, c)" by (cases "search i ?q (rs_search r)")
    show ?thesis
    proof (cases x)
      case None
      then show ?thesis using search x by (simp add: replan_item_def nth_opt_in)
    next
      case (Some found)
      then show ?thesis
        using search x assms
        by (cases "commit_replan found ?a") (simp add: replan_item_def nth_opt_in upd_opt_def Let_def status_submitted)
    qed
  qed (simp_all add: replan_item_def nth_opt_in)
qed

lemma turn_facts:
  assumes "drain_ok r" "replan_front (rs_queue r) = Some (Some i)" "replan_item search i r = Some (ItemServed r1)"
  shows "\<exists>q. replan_pop_front (rs_queue r1) = Some q \<and> drain_ok (r1\<lparr>rs_queue := q\<rparr>) \<and> waiting (rs_queue r) = i # waiting q
    \<and> (\<forall>j. j \<noteq> unat i \<longrightarrow> rs_agents r1 ! j = rs_agents r ! j \<and> rs_routes r1 ! j = rs_routes r ! j)
    \<and> ps_submitted (rs_frame r1) \<in> {ps_submitted (rs_frame r), ps_submitted (rs_frame r) + 1}"
proof -
  have ok: "queue_ok (rs_queue r)" "length (rs_agents r) \<le> length (rs_routes r)" using assms(1) by (simp_all add: drain_ok_def)
  obtain x where "replan_item search i r = Some x" and f: "case x of
      ItemThrew r1 \<Rightarrow> unat i < length (rs_agents r) \<and> r1 = r\<lparr>rs_search := rs_search r1\<rparr>
        \<and> search i \<lparr>pq_start = pa_position (rs_agents r ! unat i), pq_goal = pa_goal (rs_agents r ! unat i)\<rparr> (rs_search r)
            = (None, rs_search r1)
    | ItemServed r1 \<Rightarrow> rs_queue r1 = rs_queue r \<and> length (rs_agents r1) = length (rs_agents r)
        \<and> length (rs_routes r1) = length (rs_routes r)
        \<and> (\<forall>j. j \<noteq> unat i \<longrightarrow> rs_agents r1 ! j = rs_agents r ! j \<and> rs_routes r1 ! j = rs_routes r ! j)
        \<and> ps_submitted (rs_frame r1) \<in> {ps_submitted (rs_frame r), ps_submitted (rs_frame r) + 1}"
    using replan_item_cases [OF ok(2)] by blast
  then have x: "x = ItemServed r1" using assms(3) by simp
  obtain q where q: "replan_pop_front (rs_queue r) = Some q" "queue_ok q" "waiting q = tl (waiting (rs_queue r))"
    using pop_refines [OF ok(1)] by blast
  have "waiting (rs_queue r) = i # waiting q"
    using assms(2) q(3) by (simp add: front_eq [OF ok(1)] split: list.splits)
  then show ?thesis using f q ok(2) by (simp add: x drain_ok_def)
qed

lemma replan_loop_drains:
  "drain_ok r \<Longrightarrow> \<exists>ok r' r0 served. replan_loop search m r = Some (ok, r') \<and> (replan_turn search m)\<^sup>*\<^sup>* r r0 \<and> drain_ok r0
    \<and> waiting (rs_queue r) = served @ waiting (rs_queue r0)
    \<and> (\<forall>j. j \<notin> unat ` set served \<longrightarrow> rs_agents r0 ! j = rs_agents r ! j \<and> rs_routes r0 ! j = rs_routes r ! j)
    \<and> (if ok then r' = r0 \<and> (waiting (rs_queue r0) = [] \<or> m \<le> ps_submitted (rs_frame r0))
       else \<exists>i rest c. waiting (rs_queue r0) = i # rest \<and> r' = r0\<lparr>rs_search := c\<rparr>
          \<and> search i \<lparr>pq_start = pa_position (rs_agents r0 ! unat i), pq_goal = pa_goal (rs_agents r0 ! unat i)\<rparr> (rs_search r0) = (None, c))"
proof (induction search m r rule: replan_loop.induct)
  case (1 search m r)
  have ok: "queue_ok (rs_queue r)" "length (rs_agents r) \<le> length (rs_routes r)" using "1.prems" by (simp_all add: drain_ok_def)
  show ?case
  proof (cases "replan_empty (rs_queue r) \<or> m \<le> ps_submitted (rs_frame r)")
    case True
    then have "replan_loop search m r = Some (True, r)" by (simp add: replan_loop.simps [of search m r])
    then show ?thesis
      using True empty_eq [OF ok(1)] "1.prems" by (intro exI [of _ True] exI [of _ r] exI [of _ "[]"]) simp
  next
    case False
    then obtain i rest where w: "waiting (rs_queue r) = i # rest" using empty_eq [OF ok(1)] by (cases "waiting (rs_queue r)") auto
    then have front: "replan_front (rs_queue r) = Some (Some i)" by (simp add: front_eq [OF ok(1)])
    obtain x where x: "replan_item search i r = Some x" and xf: "case x of
      ItemThrew r1 \<Rightarrow> unat i < length (rs_agents r) \<and> r1 = r\<lparr>rs_search := rs_search r1\<rparr>
        \<and> search i \<lparr>pq_start = pa_position (rs_agents r ! unat i), pq_goal = pa_goal (rs_agents r ! unat i)\<rparr> (rs_search r)
            = (None, rs_search r1)
    | ItemServed r1 \<Rightarrow> rs_queue r1 = rs_queue r \<and> length (rs_agents r1) = length (rs_agents r)
        \<and> length (rs_routes r1) = length (rs_routes r)
        \<and> (\<forall>j. j \<noteq> unat i \<longrightarrow> rs_agents r1 ! j = rs_agents r ! j \<and> rs_routes r1 ! j = rs_routes r ! j)
        \<and> ps_submitted (rs_frame r1) \<in> {ps_submitted (rs_frame r), ps_submitted (rs_frame r) + 1}"
      using replan_item_cases [OF ok(2)] by blast
    show ?thesis
    proof (cases x)
      case (ItemThrew r1)
      have "replan_loop search m r = Some (False, r1)"
        using False front x ItemThrew by (simp add: replan_loop.simps [of search m r])
      then show ?thesis
        using xf w "1.prems" ItemThrew
        by (intro exI [of _ False] exI [of _ r1] exI [of _ r] exI [of _ "[]"]) auto
    next
      case (ItemServed r1)
      obtain q where q: "replan_pop_front (rs_queue r1) = Some q" "drain_ok (r1\<lparr>rs_queue := q\<rparr>)"
        "waiting (rs_queue r) = i # waiting q"
        "\<forall>j. j \<noteq> unat i \<longrightarrow> rs_agents r1 ! j = rs_agents r ! j \<and> rs_routes r1 ! j = rs_routes r ! j"
        using turn_facts [OF "1.prems" front] x ItemServed by blast
      let ?r = "r1\<lparr>rs_queue := q\<rparr>"
      have t: "replan_turn search m r ?r"
        using False front x ItemServed q(1) by (intro replan_turn.intros) (simp_all add: not_le)
      have loop: "replan_loop search m r = replan_loop search m ?r"
        using False front x ItemServed q(1) by (simp add: replan_loop.simps [of search m r])
      obtain b r' r0 served where ih: "replan_loop search m ?r = Some (b, r')" "(replan_turn search m)\<^sup>*\<^sup>* ?r r0" "drain_ok r0"
        "waiting (rs_queue ?r) = served @ waiting (rs_queue r0)"
        "\<forall>j. j \<notin> unat ` set served \<longrightarrow> rs_agents r0 ! j = rs_agents ?r ! j \<and> rs_routes r0 ! j = rs_routes ?r ! j"
        "if b then r' = r0 \<and> (waiting (rs_queue r0) = [] \<or> m \<le> ps_submitted (rs_frame r0))
         else \<exists>i rest c. waiting (rs_queue r0) = i # rest \<and> r' = r0\<lparr>rs_search := c\<rparr>
          \<and> search i \<lparr>pq_start = pa_position (rs_agents r0 ! unat i), pq_goal = pa_goal (rs_agents r0 ! unat i)\<rparr> (rs_search r0) = (None, c)"
        using "1.IH" [OF False front refl x ItemServed q(1,2)] by blast
      have "waiting (rs_queue r) = (i # served) @ waiting (rs_queue r0)" using q(3) ih(4) by simp
      moreover have "\<forall>j. j \<notin> unat ` set (i # served) \<longrightarrow> rs_agents r0 ! j = rs_agents r ! j \<and> rs_routes r0 ! j = rs_routes r ! j"
        using q(4) ih(5) by simp
      moreover have "(replan_turn search m)\<^sup>*\<^sup>* r r0" using t ih(2) by (rule converse_rtranclp_into_rtranclp)
      ultimately show ?thesis
        using ih(1,3,6) loop by (intro exI [of _ b] exI [of _ r'] exI [of _ r0] exI [of _ "i # served"]) simp
    qed
  qed
qed

lemma turns_submitted:
  assumes "(replan_turn search m)\<^sup>*\<^sup>* r r'" "drain_ok r" "ps_submitted (rs_frame r) \<le> m"
  shows "drain_ok r' \<and> ps_submitted (rs_frame r') \<le> m"
  using assms(1)
proof induction
  case (step r1 r2)
  from step(2) step.IH turn_facts show ?case
  proof cases
    case (turn i r1' q)
    have "drain_ok r2" "ps_submitted (rs_frame r2) \<in> {ps_submitted (rs_frame r1), ps_submitted (rs_frame r1) + 1}"
      using turn_facts [OF conjunct1 [OF step.IH] turn(4,5)] turn(1,6) by auto
    moreover have "ps_submitted (rs_frame r1) + 1 \<le> m"
      using turn(3) by (rule inc_le)
    ultimately show ?thesis using step.IH by auto
  qed
qed (use assms in simp)

definition drain_start :: "path_agent list \<Rightarrow> path_agent_routes \<Rightarrow> replan_queue \<Rightarrow> flow_accounting option \<Rightarrow> 'c \<Rightarrow> 'c replan_state" where
  "drain_start agents routes q acct c =
     \<lparr>rs_agents = agents, rs_routes = routes_ensure_size (length agents) routes, rs_queue = q,
      rs_accounting = acct, rs_frame = no_agent_stats, rs_search = c\<rparr>"

lemma drain_start_ok: "queue_ok q \<Longrightarrow> drain_ok (drain_start agents routes q acct c)"
  by (simp add: drain_ok_def drain_start_def routes_ensure_size_def)

lemma process_eq: "process_path_agent_replans search m agents routes q acct c = replan_loop search m (drain_start agents routes q acct c)"
  by (simp add: process_path_agent_replans_def drain_start_def)

text \<open>A queue with one waiting agent for the examples, and a search that always throws.\<close>

definition one_agent :: "path_agent list" where
  "one_agent = [set_path_agent_goal (mk_coord3 2 0 0) default_path_agent]"

definition one_waiting :: replan_queue where
  "one_waiting = snd (the (replan_request 0 (one_agent ! 0) empty_replan_queue))"

lemma one_waiting_ok: "queue_ok one_waiting" "waiting one_waiting = [0]"
proof -
  obtain b q where q: "replan_request 0 (one_agent ! 0) empty_replan_queue = Some (b, q)" "queue_ok q"
    "(b, waiting q) = spec_request 0 (one_agent ! 0) []"
    using request_refines [OF empty_queue_ok(1), of 0 "one_agent ! 0"] empty_queue_ok(2) by (auto simp: u64_max_def)
  then have "one_waiting = q" by (simp add: one_waiting_def)
  with q show "queue_ok one_waiting" "waiting one_waiting = [0]"
    by (simp_all add: spec_request_def one_agent_def set_path_agent_goal_def)
qed

definition throwing_search :: "unit path_search" where
  "throwing_search i q c = (None, c)"



text \<open>
  C27. A search that throws leaves nothing half done: the state in which the exception propagates is a
  state reached by complete turns, apart from what the search did to its own state; the agent it was
  called for still waits at the front with its life cycle and route as they were, and the turns
  before it stay committed.
\<close>

theorem replan_exception_is_atomic:
  assumes "queue_ok q" "process_path_agent_replans search m agents routes q acct c = Some (False, r)"
  shows "\<exists>r0 i rest. (replan_turn search m)\<^sup>*\<^sup>* (drain_start agents routes q acct c) r0
    \<and> r = r0\<lparr>rs_search := rs_search r\<rparr> \<and> waiting (rs_queue r) = i # rest
    \<and> search i \<lparr>pq_start = pa_position (rs_agents r ! unat i), pq_goal = pa_goal (rs_agents r ! unat i)\<rparr> (rs_search r0)
        = (None, rs_search r)"
proof -
  let ?s = "drain_start agents routes q acct c"
  obtain ok r' r0 where d: "replan_loop search m ?s = Some (ok, r')" "(replan_turn search m)\<^sup>*\<^sup>* ?s r0"
    "if ok then r' = r0 \<and> (waiting (rs_queue r0) = [] \<or> m \<le> ps_submitted (rs_frame r0))
     else \<exists>i rest c. waiting (rs_queue r0) = i # rest \<and> r' = r0\<lparr>rs_search := c\<rparr>
       \<and> search i \<lparr>pq_start = pa_position (rs_agents r0 ! unat i), pq_goal = pa_goal (rs_agents r0 ! unat i)\<rparr> (rs_search r0) = (None, c)"
    using replan_loop_drains [OF drain_start_ok [OF assms(1)], where search=search and m=m] by blast
  then obtain i rest c' where "waiting (rs_queue r0) = i # rest" "r = r0\<lparr>rs_search := c'\<rparr>"
    "search i \<lparr>pq_start = pa_position (rs_agents r0 ! unat i), pq_goal = pa_goal (rs_agents r0 ! unat i)\<rparr> (rs_search r0) = (None, c')"
    using assms(2) by (auto simp: process_eq)
  with d(2) show ?thesis by (intro exI [of _ r0] exI [of _ i] exI [of _ rest]) simp
qed

lemma replan_exception_is_atomic_witness:
  "\<exists>r i rest. process_path_agent_replans throwing_search 4 one_agent [] one_waiting None () = Some (False, r)
    \<and> waiting (rs_queue r) = i # rest"
proof -
  have "map_option fst (process_path_agent_replans throwing_search 4 one_agent [] one_waiting None ()) = Some False"
    by code_simp
  then obtain r where r: "process_path_agent_replans throwing_search 4 one_agent [] one_waiting None () = Some (False, r)" by auto
  from replan_exception_is_atomic [OF one_waiting_ok(1) r] r show ?thesis by blast
qed

end
