(* ===== verification/Best_First.thy ===== *)
theory Best_First imports Main begin

text \<open>
  Best-first search on a graph with positive costs and a consistent estimate, where sums saturate at
  a limit: the invariant that the two A* searches of \<open>path/detail/astar.h\<close> keep, stated on the
  set of closed nodes, the distances, the parents and the entries of the open list. Costs at the
  limit are unusable; a flag records that one was met.
\<close>

locale best_first =
  fixes edge :: "'n \<Rightarrow> 'n \<Rightarrow> nat \<Rightarrow> bool"
    and est :: "'n \<Rightarrow> nat"
    and start :: 'n
    and limit :: nat
  assumes edge_pos: "edge a b k \<Longrightarrow> 0 < k"
    and est_consistent: "edge a b k \<Longrightarrow> est a \<le> k + est b"
    and limit_pos: "0 < limit"
begin

inductive walk :: "'n \<Rightarrow> nat \<Rightarrow> bool" where
  walk_start: "walk start 0"
| walk_step: "walk a n \<Longrightarrow> edge a b k \<Longrightarrow> walk b (n + k)"

definition rated :: "'n \<Rightarrow> nat \<Rightarrow> nat" where
  "rated a g = min limit (g + est a)"

text \<open>The edge from \<open>a\<close> to \<open>b\<close> has been looked at.\<close>

definition relaxed :: "'n set \<Rightarrow> ('n \<Rightarrow> nat) \<Rightarrow> bool \<Rightarrow> 'n \<Rightarrow> 'n \<Rightarrow> nat \<Rightarrow> bool" where
  "relaxed C d ov a b k \<longleftrightarrow> b \<in> C \<or> (if d a + k < limit then d b \<le> d a + k else ov)"

text \<open>
  The invariant while node \<open>p\<close> is expanded, of whose edges only those in \<open>D\<close> have been looked at.
\<close>

definition searching :: "('n \<times> nat) set option \<Rightarrow> 'n \<Rightarrow> 'n set \<Rightarrow> ('n \<Rightarrow> nat) \<Rightarrow> ('n \<Rightarrow> 'n) \<Rightarrow> ('n \<times> nat) set \<Rightarrow> bool \<Rightarrow> bool"
  where "searching D p C d par E ov \<longleftrightarrow>
    d start = 0
    \<and> (\<forall>a. a \<noteq> start \<and> d a < limit \<longrightarrow>
          par a \<in> C \<and> d (par a) < d a \<and> edge (par a) a (d a - d (par a)))
    \<and> (\<forall>a. d a < limit \<longrightarrow> a \<in> C \<or> (a, d a) \<in> E)
    \<and> (\<forall>a g. (a, g) \<in> E \<longrightarrow> d a \<le> g \<and> g < limit)
    \<and> (\<forall>a \<in> C. d a < limit)
    \<and> (\<forall>a \<in> C. \<forall>b k. edge a b k \<and> (a = p \<longrightarrow> (case D of None \<Rightarrow> True | Some D' \<Rightarrow> (b, k) \<in> D')) \<longrightarrow> relaxed C d ov a b k)
    \<and> (\<forall>a \<in> C. \<forall>n. walk a n \<longrightarrow> d a \<le> n \<or> limit \<le> n + est a)"

abbreviation search_inv where
  "search_inv C d par E ov \<equiv> searching None start C d par E ov"

lemma searchingD:
  assumes "searching D p C d par E ov"
  shows "d start = 0"
    "\<And>a. a \<noteq> start \<Longrightarrow> d a < limit \<Longrightarrow> par a \<in> C \<and> d (par a) < d a \<and> edge (par a) a (d a - d (par a))"
    "\<And>a. d a < limit \<Longrightarrow> a \<in> C \<or> (a, d a) \<in> E"
    "\<And>a g. (a, g) \<in> E \<Longrightarrow> d a \<le> g \<and> g < limit"
    "\<And>a. a \<in> C \<Longrightarrow> d a < limit"
    "\<And>a b k. a \<in> C \<Longrightarrow> edge a b k \<Longrightarrow> a \<noteq> p \<Longrightarrow> relaxed C d ov a b k"
    "\<And>b k D'. D = Some D' \<Longrightarrow> p \<in> C \<Longrightarrow> edge p b k \<Longrightarrow> (b, k) \<in> D' \<Longrightarrow> relaxed C d ov p b k"
    "\<And>b k a. D = None \<Longrightarrow> a \<in> C \<Longrightarrow> edge a b k \<Longrightarrow> relaxed C d ov a b k"
    "\<And>a n. a \<in> C \<Longrightarrow> walk a n \<Longrightarrow> d a \<le> n \<or> limit \<le> n + est a"
  using assms unfolding searching_def by auto

lemma initial:
  "search_inv {} (\<lambda>a. if a = start then 0 else limit) par {(start, 0)} ov"
  using limit_pos by (auto simp: searching_def)

text \<open>Distances are costs of walks.\<close>

lemma distance_walk:
  assumes "searching D p C d par E ov" "d a < limit"
  shows "walk a (d a)"
  using assms(2)
proof (induction "d a" arbitrary: a rule: less_induct)
  case less
  show ?case
  proof (cases "a = start")
    case True
    then show ?thesis using searchingD(1) [OF assms(1)] walk_start by simp
  next
    case False
    note p = searchingD(2) [OF assms(1) False less.prems]
    have "walk (par a) (d (par a))" using less.hyps p less.prems by simp
    from walk_step [OF this conjunct2 [OF conjunct2 [OF p]]] show ?thesis using p by simp
  qed
qed

lemma walk_consistent_prefix:
  assumes "walk b n" "edge b c k"
  shows "n + est b \<le> n + k + est c"
  using est_consistent [OF assms(2)] by simp

text \<open>
  On the way to a node that is not closed there is an entry at most as expensive as the walk.
\<close>

lemma frontier:
  assumes "search_inv C d par E ov" "walk a n" "a \<notin> C" "n + est a < limit"
  shows "\<exists>m. (m, d m) \<in> E \<and> m \<notin> C \<and> rated m (d m) \<le> n + est a \<and> (m = a \<longrightarrow> d m \<le> n)"
  using assms(2-4)
proof (induction rule: walk.induct)
  case walk_start
  then have "(start, d start) \<in> E"
    using searchingD(1,3) [OF assms(1)] limit_pos by (metis)
  with walk_start show ?case
    using searchingD(1) [OF assms(1)] by (intro exI [of _ start]) (simp add: rated_def)
next
  case (walk_step a n b k)
  have less: "n + est a < limit" "n + est a \<le> n + k + est b"
    using est_consistent [OF walk_step.hyps(2)] walk_step.prems(2) by simp_all
  show ?case
  proof (cases "a \<in> C")
    case False
    from walk_step.IH [OF False less(1)] obtain m where
      m: "(m, d m) \<in> E" "m \<notin> C" "rated m (d m) \<le> n + est a" "m = a \<longrightarrow> d m \<le> n" by blast
    have "m = b \<longrightarrow> d m \<le> n + k"
    proof
      assume mb: "m = b"
      have "d m + est m \<le> n + est a" using m(3) less(1) by (simp add: rated_def)
      with mb show "d m \<le> n + k" using less(2) by simp
    qed
    with m less(2) show ?thesis by (meson order_trans)
  next
    case True
    have da: "d a \<le> n"
      using searchingD(9) [OF assms(1) True walk_step.hyps(1)] less(1) by simp
    have "relaxed C d ov a b k" by (rule searchingD(8) [OF assms(1) refl True walk_step.hyps(2)])
    moreover have lt: "d a + k < limit" using da walk_step.prems(2) by simp
    ultimately have db: "d b \<le> d a + k" using walk_step.prems(1) by (simp add: relaxed_def)
    then have "(b, d b) \<in> E" using searchingD(3) [OF assms(1), of b] lt walk_step.prems(1) by simp
    then show ?thesis
      using db da walk_step.prems(1) by (intro exI [of _ b]) (simp add: rated_def)
  qed
qed

text \<open>Closing an entry of least rate whose cost is still current.\<close>

lemma close_node:
  assumes inv: "search_inv C d par E ov" and e: "(p, d p) \<in> E" "p \<notin> C"
    and least: "\<And>a g. (a, g) \<in> E \<Longrightarrow> rated p (d p) \<le> rated a g"
    and E': "E - {(p, d p)} \<subseteq> E'" "E' \<subseteq> E"
  shows "searching (Some {}) p (insert p C) d par E' ov"
proof -
  note S = searchingD [OF inv]
  have dp: "d p < limit" using S(4) [OF e(1)] by simp
  have rel: "relaxed (insert p C) d ov a b k" if "a \<in> C" "edge a b k" for a b k
    using S(8) [OF refl that] by (auto simp: relaxed_def)
  have opt: "d p \<le> n \<or> limit \<le> n + est p" if w: "walk p n" for n
  proof (rule ccontr)
    assume "\<not> ?thesis"
    then have n: "n < d p" "n + est p < limit" by simp_all
    obtain m where m: "(m, d m) \<in> E" "rated m (d m) \<le> n + est p"
      using frontier [OF inv w e(2) n(2)] by blast
    have "rated p (d p) \<le> n + est p" using least [OF m(1)] m(2) by simp
    then show False using n by (simp add: rated_def)
  qed
  show ?thesis
    unfolding searching_def
  proof (intro conjI allI ballI impI)
    fix a assume "a \<noteq> start \<and> d a < limit"
    then show "par a \<in> insert p C" "d (par a) < d a" "edge (par a) a (d a - d (par a))" using S(2) by auto
  next
    fix a assume "d a < limit"
    then show "a \<in> insert p C \<or> (a, d a) \<in> E'" using S(3) [of a] E'(1) by auto
  next
    fix a b k assume "a \<in> insert p C" "edge a b k \<and> (a = p \<longrightarrow> (case Some {} of None \<Rightarrow> True | Some D' \<Rightarrow> (b, k) \<in> D'))"
    then show "relaxed (insert p C) d ov a b k" using rel by auto
  next
    fix a n assume "a \<in> insert p C" "walk a n"
    then show "d a \<le> n \<or> limit \<le> n + est a" using opt S(9) by auto
  qed (use S(1,4,5) dp E' in auto)
qed

lemma skip_entry:
  assumes "search_inv C d par E ov" "\<And>a g. (a, g) \<in> E - E' \<Longrightarrow> a \<in> C \<or> g \<noteq> d a" "E' \<subseteq> E"
  shows "search_inv C d par E' ov"
  using assms unfolding searching_def by blast

text \<open>Looking at one edge.\<close>

lemma relax_edge:
  assumes inv: "searching (Some D) p C d par E ov" and p: "p \<in> C" and e: "edge p b k"
    and b: "b \<notin> C" "d p + k < limit" "d p + k < d b"
  shows "searching (Some (insert (b, k) D)) p C (d(b := d p + k)) (par(b := p)) (insert (b, d p + k) E) ov"
proof -
  note S = searchingD [OF inv]
  have bs: "b \<noteq> start" using b(3) S(1) by auto
  have pb: "p \<noteq> b" using p b(1) by auto
  have inC: "a \<in> C \<Longrightarrow> (d(b := d p + k)) a = d a" for a using b(1) by auto
  have rel: "relaxed C (d(b := d p + k)) ov a c m" if "a \<in> C" "relaxed C d ov a c m" for a c m
    using that b inC [OF that(1)] by (auto simp: relaxed_def)
  show ?thesis
    unfolding searching_def
  proof (intro conjI allI ballI impI)
    show "(d(b := d p + k)) start = 0" using S(1) bs by simp
  next
    fix a assume a: "a \<noteq> start \<and> (d(b := d p + k)) a < limit"
    show "(par(b := p)) a \<in> C"
      using a p S(2) [of a] by (cases "a = b") simp_all
    show "(d(b := d p + k)) ((par(b := p)) a) < (d(b := d p + k)) a"
      using a p pb edge_pos [OF e] S(2) [of a] b(1) by (cases "a = b") auto
    show "edge ((par(b := p)) a) a ((d(b := d p + k)) a - (d(b := d p + k)) ((par(b := p)) a))"
      using a p pb e S(2) [of a] b(1) by (cases "a = b") auto
  next
    fix a assume "(d(b := d p + k)) a < limit"
    then show "a \<in> C \<or> (a, (d(b := d p + k)) a) \<in> insert (b, d p + k) E" using S(3) [of a] by auto
  next
    fix a g assume "(a, g) \<in> insert (b, d p + k) E"
    then show "(d(b := d p + k)) a \<le> g" "g < limit" using S(4) [of a g] b by auto
  next
    fix a assume "a \<in> C"
    then show "(d(b := d p + k)) a < limit" using S(5) inC by simp
  next
    fix a c m
    assume a: "a \<in> C" and x: "edge a c m \<and> (a = p \<longrightarrow> (case Some (insert (b, k) D) of None \<Rightarrow> True | Some D' \<Rightarrow> (c, m) \<in> D'))"
    show "relaxed C (d(b := d p + k)) ov a c m"
    proof (cases "a = p \<and> (c, m) = (b, k)")
      case True
      then show ?thesis using b pb by (auto simp: relaxed_def)
    next
      case False
      have "relaxed C d ov a c m"
        using False x S(6) [OF a] S(7) [OF refl p, of c m] by (cases "a = p") auto
      then show ?thesis by (rule rel [OF a])
    qed
  next
    fix a n assume "a \<in> C" "walk a n"
    then show "(d(b := d p + k)) a \<le> n \<or> limit \<le> n + est a" using S(9) inC by simp
  qed
qed

lemma relaxed_flag: "relaxed C d ov a b k \<Longrightarrow> ov \<longrightarrow> ov' \<Longrightarrow> relaxed C d ov' a b k"
  by (auto simp: relaxed_def split: if_splits)

lemma pass_edge:
  assumes inv: "searching (Some D) p C d par E ov" and p: "p \<in> C"
    and b: "b \<in> C \<or> (if d p + k < limit then d b \<le> d p + k else ov')" "ov \<longrightarrow> ov'"
  shows "searching (Some (insert (b, k) D)) p C d par E ov'"
proof -
  note S = searchingD [OF inv]
  have mono: "relaxed C d ov a c m \<Longrightarrow> relaxed C d ov' a c m" for a c m
    using b(2) relaxed_flag by blast
  have "relaxed C d ov' p b k" using b(1) by (simp add: relaxed_def)
  then have "relaxed C d ov' a c m"
    if "a \<in> C" "edge a c m" "a = p \<longrightarrow> (c, m) \<in> insert (b, k) D" for a c m
    using that S(6) [OF that(1,2)] S(7) [OF refl p, of c m] mono by (cases "a = p") auto
  then show ?thesis using S(1-5,9) unfolding searching_def by auto
qed

lemma other_edge:
  "searching D p C d par E ov \<Longrightarrow> ov \<longrightarrow> ov' \<Longrightarrow> searching D p C d par E ov'"
  unfolding searching_def using relaxed_flag by blast

lemma expanded:
  assumes "searching (Some D) p C d par E ov" "\<And>b k. edge p b k \<Longrightarrow> (b, k) \<in> D"
  shows "search_inv C d par E ov"
proof -
  note S = searchingD [OF assms(1)]
  have "relaxed C d ov a b k" if "a \<in> C" "edge a b k" for a b k
    using that S(6) [OF that] S(7) [OF refl _ _ assms(2)] by (cases "a = p") auto
  with S show ?thesis unfolding searching_def by auto
qed

text \<open>A closed node without an estimate has its least distance; an empty open list leaves nothing out.\<close>

lemma closed_optimal:
  assumes "search_inv C d par E ov" "p \<in> C" "est p = 0" "walk p n"
  shows "d p \<le> n"
  using searchingD(9) [OF assms(1,2,4)] searchingD(5) [OF assms(1,2)] assms(3) by auto

lemma exhausted_limit:
  assumes "search_inv C d par {} ov" "a \<notin> C" "est a = 0" "walk a n"
  shows "limit \<le> n"
  using frontier [OF assms(1,4,2)] assms(3) by fastforce

lemma exhausted:
  assumes "search_inv C d par {} False" "walk a n"
  shows "a \<in> C"
  using assms(2)
proof (induction rule: walk.induct)
  case walk_start
  then show ?case using searchingD(1,3) [OF assms(1)] limit_pos by (metis empty_iff)
next
  case (walk_step a n b k)
  have "relaxed C d False a b k" by (rule searchingD(8) [OF assms(1) refl walk_step.IH walk_step.hyps(2)])
  then show ?case
    using searchingD(3) [OF assms(1), of b] by (auto simp: relaxed_def split: if_splits)
qed

end

end
