(* ===== verification/Open_Node.thy ===== *)
theory Open_Node imports Path_Types Movement_Class begin

text \<open>
  The packed entry of the open list (\<open>detail::PackedOpenNode\<close> of \<open>path/path.h\<close>): the two costs in
  one key, and the tile index, or a reversible permutation of it when a tie-break seed is set. The
  lemmas read the costs and the index back and show that the key orders entries by estimated
  total first.
\<close>

record packed_open_node =
  on_key :: u64
  on_index :: u64

definition mix_tie :: "u64 \<Rightarrow> u64" where
  "mix_tie v0 =
     (let v1 = (v0 XOR drop_bit 30 v0) * 0xbf58476d1ce4e5b9;
          v2 = (v1 XOR drop_bit 27 v1) * 0x94d049bb133111eb
      in v2 XOR drop_bit 31 v2)"

definition unmix_tie :: "u64 \<Rightarrow> u64" where
  "unmix_tie v0 =
     (let v1 = v0 XOR drop_bit 31 v0;
          v2 = v1 XOR drop_bit 62 v1;
          v3 = v2 * 0x319642b2d24d8ec3;
          v4 = v3 XOR drop_bit 27 v3;
          v5 = v4 XOR drop_bit 54 v4;
          v6 = v5 * 0x96de1b173f119089;
          v7 = v6 XOR drop_bit 30 v6
      in v7 XOR drop_bit 60 v7)"

definition make_open_node :: "u64 \<Rightarrow> u32 \<Rightarrow> u32 \<Rightarrow> path_tie_break \<Rightarrow> packed_open_node" where
  "make_open_node index g f tie =
     \<lparr>on_key = push_bit 32 (ucast f) OR ucast (u32_max - g),
      on_index = (if tie_seed tie = 0 then index else mix_tie (index XOR tie_seed tie))\<rparr>"

definition node_index :: "path_tie_break \<Rightarrow> packed_open_node \<Rightarrow> u64" where
  "node_index tie n = (if tie_seed tie = 0 then on_index n else unmix_tie (on_index n) XOR tie_seed tie)"

definition node_g :: "packed_open_node \<Rightarrow> u32" where
  "node_g n = u32_max - ucast (on_key n)"

definition node_f :: "packed_open_node \<Rightarrow> u32" where
  "node_f n = ucast (drop_bit 32 (on_key n))"

definition packed_open_node_less :: "packed_open_node \<Rightarrow> packed_open_node \<Rightarrow> bool" where
  "packed_open_node_less l r =
     (if on_key l \<noteq> on_key r then on_key r < on_key l else on_index r < on_index l)"

subsection \<open>The permutation\<close>

lemma unshift_xor:
  fixes v :: u64
  assumes "64 \<le> 4 * n"
  shows "(let w = (v XOR drop_bit n v) XOR drop_bit n (v XOR drop_bit n v) in w XOR drop_bit (2 * n) w) = v"
proof -
  have "drop_bit (2 * n) (drop_bit (2 * n) v) = 0"
    using assms by (intro bit_word_eqI) (simp add: bit_simps)
  moreover have "(v XOR drop_bit n v) XOR drop_bit n (v XOR drop_bit n v) = v XOR drop_bit (2 * n) v"
    by (simp add: drop_bit_xor xor.assoc mult_2)
  ultimately show ?thesis by (simp add: drop_bit_xor xor.assoc)
qed

lemma odd_multipliers:
  "(0xbf58476d1ce4e5b9 :: u64) * 0x96de1b173f119089 = 1" "(0x94d049bb133111eb :: u64) * 0x319642b2d24d8ec3 = 1"
  by simp_all

lemma unmix_mix [simp]: "unmix_tie (mix_tie v) = v"
proof -
  define a where "a = v XOR drop_bit 30 v"
  define b where "b = a * 0xbf58476d1ce4e5b9"
  define c where "c = b XOR drop_bit 27 b"
  define d where "d = c * 0x94d049bb133111eb"
  define e where "e = d XOR drop_bit 31 d"
  have m: "mix_tie v = e" by (simp add: mix_tie_def a_def b_def c_def d_def e_def Let_def)
  have d': "(let w = e XOR drop_bit 31 e in w XOR drop_bit 62 w) = d"
    using unshift_xor [of 31 d] by (simp add: e_def)
  have c': "d * 0x319642b2d24d8ec3 = c"
    unfolding d_def mult.assoc odd_multipliers by simp
  have b': "(let w = c XOR drop_bit 27 c in w XOR drop_bit 54 w) = b"
    using unshift_xor [of 27 b] by (simp add: c_def)
  have a': "b * 0x96de1b173f119089 = a"
    unfolding b_def mult.assoc odd_multipliers by simp
  have v': "(let w = a XOR drop_bit 30 a in w XOR drop_bit 60 w) = v"
    using unshift_xor [of 30 v] by (simp add: a_def)
  show ?thesis
    using d' c' b' a' v' by (simp add: m unmix_tie_def Let_def)
qed

subsection \<open>Reading an entry back\<close>

lemma make_key: "on_key (make_open_node i g f t) = push_bit 32 (ucast f) OR ucast (u32_max - g)"
  by (simp add: make_open_node_def)

lemma u32_max_all: "u32_max = - 1"
  by (simp add: u32_max_def)

lemma node_g_make [simp]: "node_g (make_open_node i g f t) = g"
proof -
  have "ucast (on_key (make_open_node i g f t)) = (u32_max - g :: u32)"
    unfolding make_key by (rule bit_word_eqI) (auto simp: bit_simps)
  then show ?thesis by (simp add: node_g_def)
qed

lemma node_f_make [simp]: "node_f (make_open_node i g f t) = f"
  unfolding node_f_def make_key
  by (rule bit_word_eqI) (auto simp: bit_simps dest: bit_imp_le_length)

lemma node_index_make [simp]: "node_index t (make_open_node i g f t) = i"
  by (simp add: node_index_def make_open_node_def xor.assoc)

lemma node_f_mono: "on_key a \<le> on_key b \<Longrightarrow> node_f a \<le> node_f b"
proof -
  assume "on_key a \<le> on_key b"
  then have "unat (on_key a) div 2 ^ 32 \<le> unat (on_key b) div 2 ^ 32"
    by (intro div_le_mono) (simp add: u64_le_nat)
  moreover have "unat (node_f x) = unat (on_key x) div 2 ^ 32" for x
  proof -
    have "unat (on_key x) div 2 ^ 32 < 2 ^ 32"
      using u64_less [of "on_key x"] by (simp add: div_less_iff_less_mult)
    then show ?thesis
      unfolding node_f_def unsigned_ucast_eq unat_shr by (simp add: take_bit_nat_eq_self)
  qed
  ultimately show ?thesis by (simp add: word_le_nat_alt)
qed

end
