(* ===== verification/Path_Search.thy ===== *)
theory Path_Search imports Open_Node Transition_Props begin

text \<open>
  The minimum-cost search of \<open>path/detail/astar.h\<close> (\<open>weighted_astar_path\<close>) with the scratch of
  \<open>path/path.h\<close> and the node index spaces of \<open>path/node_index_space.h\<close>. The binary heap of the
  standard library is a list from which a greatest entry is taken: two greatest entries are equal,
  so which one is taken cannot be observed. An index outside an array is \<^const>\<open>None\<close>.
\<close>

subsection \<open>Node index spaces\<close>

text \<open>The static assertion on the tile count of an always-resident world is \<^const>\<open>None\<close> when it fails.\<close>

record 'w node_space =
  ns_is_resident_index :: "'w \<Rightarrow> u64 \<Rightarrow> bool option"
  ns_offset :: "'w \<Rightarrow> u64 \<Rightarrow> u64 option"
  ns_resident_offset :: "'w \<Rightarrow> u64 \<Rightarrow> u64 option"
  ns_capacity_hint :: "'w \<Rightarrow> u64 option"

definition dense_space :: "shape \<Rightarrow> 'v dense_world node_space" where
  "dense_space s =
     \<lparr>ns_is_resident_index = \<lambda>w i. Some True, ns_offset = \<lambda>w i. Some i, ns_resident_offset = \<lambda>w i. Some i,
      ns_capacity_hint = \<lambda>w. if chunk_count s \<le> u64_max div local_tile_count s
                              then Some (chunk_count s * local_tile_count s) else None\<rparr>"

definition space_offset :: "shape \<Rightarrow> u64 \<Rightarrow> u64 \<Rightarrow> u64" where
  "space_offset s sl i = sl * local_tile_count s + tile_value (local_tile_id_of_tile s (TileKey64 i))"

definition sparse_space :: "shape \<Rightarrow> 'v sparse_world node_space" where
  "sparse_space s =
     \<lparr>ns_is_resident_index = \<lambda>w i. map_option (\<lambda>sl. sl \<noteq> npos) (resident_slot w (chunk_key_of_tile s (TileKey64 i))),
      ns_offset = \<lambda>w i. map_option (\<lambda>sl. space_offset s sl i) (resident_slot w (chunk_key_of_tile s (TileKey64 i))),
      ns_resident_offset = \<lambda>w i. map_option (\<lambda>sl. if sl = npos then npos else space_offset s sl i)
        (resident_slot w (chunk_key_of_tile s (TileKey64 i))),
      ns_capacity_hint = \<lambda>w. Some (sw_capacity w * local_tile_count s)\<rparr>"

lemmas space_sel [simp] = node_space.select_convs

subsection \<open>Leaves\<close>

definition tile_index :: "shape \<Rightarrow> coord3 \<Rightarrow> u64 option" where
  "tile_index s c =
     (if tile_key_bits s \<le> 64
      then Option.bind (tile_key s c) (\<lambda>k. case k of TileKey64 v \<Rightarrow> Some v | TileKey128 v \<Rightarrow> None)
      else None)"

definition tile_coord :: "shape \<Rightarrow> u64 \<Rightarrow> coord3" where
  "tile_coord s i = coord_of_key s (TileKey64 i)"

definition path_manhattan :: "coord3 \<Rightarrow> coord3 \<Rightarrow> u32" where
  "path_manhattan l r =
     (let distance = manhattan_distance l r in if ucast u32_max < distance then u32_max else ucast distance)"

definition saturating_add_u32 :: "u32 \<Rightarrow> u32 \<Rightarrow> u32" where
  "saturating_add_u32 l r = (if u32_max - l < r then u32_max else l + r)"

definition is_passable :: "('t, 'w) tile_api \<Rightarrow> 't movement_class \<Rightarrow> 'w \<Rightarrow> coord3 \<Rightarrow> bool option" where
  "is_passable A cls w c =
     (case try_resolve (wa_shape A) c of
        None \<Rightarrow> Some False
      | Some r \<Rightarrow>
          if wa_sparse A then do {
            page \<leftarrow> wa_try_chunk A w (rt_chunk_key r);
            case page of None \<Rightarrow> Some False | Some p \<Rightarrow> passable (wa_schema A) cls p (rt_local_tile_id r)
          }
          else do {
            p \<leftarrow> wa_chunk A w (rt_chunk_key r);
            passable (wa_schema A) cls p (rt_local_tile_id r)
          })"

definition is_passable_index :: "('t, 'w) tile_api \<Rightarrow> 't movement_class \<Rightarrow> 'w \<Rightarrow> u64 \<Rightarrow> bool option" where
  "is_passable_index A cls w i =
     (let s = wa_shape A; k = TileKey64 i in
      if wa_sparse A then do {
        page \<leftarrow> wa_try_chunk A w (chunk_key_of_tile s k);
        case page of None \<Rightarrow> Some False
        | Some p \<Rightarrow> passable (wa_schema A) cls p (local_tile_id_of_tile s k)
      }
      else do {
        p \<leftarrow> wa_chunk A w (chunk_key_of_tile s k);
        passable (wa_schema A) cls p (local_tile_id_of_tile s k)
      })"

definition tile_entry_cost_index :: "('t, 'w) tile_api \<Rightarrow> 't movement_class \<Rightarrow> 'w \<Rightarrow> u64 \<Rightarrow> u32 option" where
  "tile_entry_cost_index A cls w i = do {
     p \<leftarrow> wa_chunk A w (chunk_key_of_tile (wa_shape A) (TileKey64 i));
     entry_cost (wa_schema A) cls p (local_tile_id_of_tile (wa_shape A) (TileKey64 i))
   }"

subsection \<open>Scratch\<close>

datatype node_state = Unseen_node | Open_node | Closed_node

text \<open>The second frontier \<open>open_next_\<close> belongs to the minimum-step search and stays empty here.\<close>

record path_scratch =
  as_open :: "packed_open_node list"
  as_generation :: "u32 list"
  as_epoch :: u32
  as_state :: "node_state list"
  as_g :: "u32 list"
  as_parent :: "u64 list"
  as_touched :: u64
  as_path :: "coord3 list"

definition new_scratch :: path_scratch where
  "new_scratch = \<lparr>as_open = [], as_generation = [], as_epoch = 1, as_state = [], as_g = [], as_parent = [],
     as_touched = 0, as_path = []\<rparr>"

definition advance_epoch :: "path_scratch \<Rightarrow> path_scratch" where
  "advance_epoch sc =
     (let e = as_epoch sc + 1 in
      if e = 0 then sc\<lparr>as_generation := map (\<lambda>_. 0) (as_generation sc), as_epoch := 1\<rparr>
      else sc\<lparr>as_epoch := e\<rparr>)"

definition clear_scratch :: "path_scratch \<Rightarrow> path_scratch" where
  "clear_scratch sc = (advance_epoch sc)\<lparr>as_open := [], as_touched := 0, as_path := []\<rparr>"

definition is_current :: "path_scratch \<Rightarrow> u64 \<Rightarrow> bool option" where
  "is_current sc i = map_option (\<lambda>gen. gen = as_epoch sc) (nth_opt (as_generation sc) (unat i))"

definition state_at :: "path_scratch \<Rightarrow> u64 \<Rightarrow> node_state option" where
  "state_at sc i = do {
     now \<leftarrow> is_current sc i;
     if now then nth_opt (as_state sc) (unat i) else Some Unseen_node
   }"

definition g_at :: "path_scratch \<Rightarrow> u64 \<Rightarrow> u32 option" where
  "g_at sc i = do {
     now \<leftarrow> is_current sc i;
     if now then nth_opt (as_g sc) (unat i) else Some u32_max
   }"

definition touch_node :: "path_scratch \<Rightarrow> u64 \<Rightarrow> path_scratch option" where
  "touch_node sc i = map_option (\<lambda>gens. sc\<lparr>as_generation := gens, as_touched := as_touched sc + 1\<rparr>)
     (upd_opt (as_generation sc) (unat i) (as_epoch sc))"

text \<open>Assignment of the arrays when the number of nodes differs from the last search.\<close>

definition resize_scratch :: "u64 \<Rightarrow> path_scratch \<Rightarrow> path_scratch" where
  "resize_scratch n sc =
     (if length (as_state sc) \<noteq> unat n
      then sc\<lparr>as_generation := replicate (unat n) 0, as_state := replicate (unat n) Unseen_node,
              as_g := replicate (unat n) u32_max, as_parent := replicate (unat n) u64_max\<rparr>
      else sc)"

subsection \<open>The open list\<close>

definition push_open :: "packed_open_node \<Rightarrow> path_scratch \<Rightarrow> path_scratch" where
  "push_open n sc = sc\<lparr>as_open := n # as_open sc\<rparr>"

definition greatest_node :: "packed_open_node \<Rightarrow> packed_open_node list \<Rightarrow> packed_open_node" where
  "greatest_node n ns = foldl (\<lambda>m x. if packed_open_node_less m x then x else m) n ns"

text \<open>The greatest entry and the rest.\<close>

definition pop_open :: "packed_open_node list \<Rightarrow> (packed_open_node \<times> packed_open_node list) option" where
  "pop_open ns =
     (case ns of [] \<Rightarrow> None | n # ns' \<Rightarrow> let m = greatest_node n ns' in Some (m, remove1 m ns))"

subsection \<open>Straight lines and detours\<close>

datatype grid_axis = AxisX | AxisY | AxisZ

fun axis_of :: "grid_axis \<Rightarrow> coord3 \<Rightarrow> i64" where
  "axis_of AxisX c = co_x c"
| "axis_of AxisY c = co_y c"
| "axis_of AxisZ c = co_z c"

fun add_axis :: "grid_axis \<Rightarrow> i64 \<Rightarrow> coord3 \<Rightarrow> coord3" where
  "add_axis AxisX d c = c\<lparr>co_x := co_x c + d\<rparr>"
| "add_axis AxisY d c = c\<lparr>co_y := co_y c + d\<rparr>"
| "add_axis AxisZ d c = c\<lparr>co_z := co_z c + d\<rparr>"

definition step_toward :: "grid_axis \<Rightarrow> coord3 \<Rightarrow> coord3 \<Rightarrow> coord3" where
  "step_toward m goal c = add_axis m (if i64_less (axis_of m c) (axis_of m goal) then 1 else - 1) c"

lemma axis_of_add [simp]: "axis_of m (add_axis n d c) = (if m = n then axis_of m c + d else axis_of m c)"
  by (cases m; cases n) simp_all

lemma sint_towards:
  fixes a b :: i64
  assumes "a \<noteq> b"
  shows "sint (a + (if i64_less a b then 1 else - 1)) = sint a + (if sint a < sint b then 1 else - 1)"
proof -
  have "sint a \<noteq> sint b" using assms i64_eqI by blast
  then have "- (2 ^ 63) \<le> sint a + (if sint a < sint b then 1 else - 1)
      \<and> sint a + (if sint a < sint b then 1 else - 1) < 2 ^ 63"
    using i64_bounds [of a] i64_bounds [of b] by auto
  moreover have "a + (if i64_less a b then 1 else - 1)
      = word_of_int (sint a + (if sint a < sint b then 1 else - 1))"
    by (simp add: i64_less_def)
  ultimately show ?thesis
    by (simp only: signed_of_int) (simp add: signed_take_bit_int_eq_self)
qed

lemma step_toward_closer:
  assumes "axis_of m c \<noteq> axis_of m goal"
  shows "nat \<bar>sint (axis_of m goal) - sint (axis_of m (step_toward m goal c))\<bar> < nat \<bar>sint (axis_of m goal) - sint (axis_of m c)\<bar>"
proof -
  have "sint (axis_of m c) \<noteq> sint (axis_of m goal)" using assms i64_eqI by blast
  then show ?thesis
    using sint_towards [OF assms] by (auto simp: step_toward_def)
qed

text \<open>Whether the walk along one axis got through, where it is, whether it met a blocked tile, and the path.\<close>

function append_unit_axis ::
    "('t, 'w) tile_api \<Rightarrow> 't movement_class \<Rightarrow> 'w \<Rightarrow> grid_axis \<Rightarrow> coord3 \<Rightarrow> coord3 \<Rightarrow> bool \<Rightarrow> coord3 list
     \<Rightarrow> (bool \<times> coord3 \<times> bool \<times> coord3 list) option" where
  "append_unit_axis A cls w m goal c blocked path =
     (if axis_of m c = axis_of m goal then Some (True, c, blocked, path)
      else let c' = step_toward m goal c in do {
        i \<leftarrow> tile_index (wa_shape A) c';
        ok \<leftarrow> is_passable_index A cls w i;
        if \<not> ok then Some (False, c', True, [])
        else do {
          entry_cost \<leftarrow> tile_entry_cost_index A cls w i;
          if entry_cost = 0 then Some (False, c', True, [])
          else if entry_cost \<noteq> 1 then Some (False, c', blocked, [])
          else append_unit_axis A cls w m goal c' blocked (path @ [c'])
        }
      })"
  by pat_completeness auto
termination
  by (relation "measure (\<lambda>(A, cls, w, m, goal, c, blocked, path). nat \<bar>sint (axis_of m goal) - sint (axis_of m c)\<bar>)")
     (use step_toward_closer in simp_all)

fun append_unit_axes ::
    "('t, 'w) tile_api \<Rightarrow> 't movement_class \<Rightarrow> 'w \<Rightarrow> grid_axis list \<Rightarrow> coord3 \<Rightarrow> coord3 \<Rightarrow> bool \<Rightarrow> coord3 list
     \<Rightarrow> (bool \<times> bool \<times> coord3 list) option" where
  "append_unit_axes A cls w [] goal c blocked path = Some (True, blocked, path)"
| "append_unit_axes A cls w (m # ms) goal c blocked path = do {
     (ok, c', blocked', path') \<leftarrow> append_unit_axis A cls w m goal c blocked path;
     if ok then append_unit_axes A cls w ms goal c' blocked' path' else Some (False, blocked', path')
   }"

definition try_unit_direct_order ::
    "('t, 'w) tile_api \<Rightarrow> 't movement_class \<Rightarrow> 'w \<Rightarrow> path_request \<Rightarrow> grid_axis list \<Rightarrow> bool
     \<Rightarrow> (bool \<times> bool \<times> coord3 list) option" where
  "try_unit_direct_order A cls w q ms blocked =
     append_unit_axes A cls w ms (pq_goal q) (pq_start q) blocked [pq_start q]"

definition direct_orders :: "shape \<Rightarrow> grid_axis list list" where
  "direct_orders s =
     (if degenerate_z s then [[AxisX, AxisY, AxisZ], [AxisY, AxisX, AxisZ]]
      else if degenerate_y s then [[AxisX, AxisZ, AxisY], [AxisZ, AxisX, AxisY]]
      else if degenerate_x s then [[AxisY, AxisZ, AxisX], [AxisZ, AxisY, AxisX]]
      else [[AxisX, AxisY, AxisZ], [AxisX, AxisZ, AxisY], [AxisY, AxisX, AxisZ],
            [AxisY, AxisZ, AxisX], [AxisZ, AxisX, AxisY], [AxisZ, AxisY, AxisX]])"

fun first_direct ::
    "('t, 'w) tile_api \<Rightarrow> 't movement_class \<Rightarrow> 'w \<Rightarrow> path_request \<Rightarrow> grid_axis list list \<Rightarrow> bool \<Rightarrow> coord3 list
     \<Rightarrow> (bool \<times> bool \<times> coord3 list) option" where
  "first_direct A cls w q [] blocked path = Some (False, blocked, path)"
| "first_direct A cls w q (ms # os) blocked path = do {
     (ok, blocked', path') \<leftarrow> try_unit_direct_order A cls w q ms blocked;
     if ok then Some (True, blocked', path') else first_direct A cls w q os blocked' path'
   }"

definition append_checked ::
    "('t, 'w) tile_api \<Rightarrow> 't movement_class \<Rightarrow> 'w \<Rightarrow> coord3 \<Rightarrow> coord3 list \<Rightarrow> (bool \<times> coord3 list) option" where
  "append_checked A cls w c path = do {
     i \<leftarrow> tile_index (wa_shape A) c;
     ok \<leftarrow> is_passable_index A cls w i;
     if \<not> ok then Some (False, [])
     else do {
       entry_cost \<leftarrow> tile_entry_cost_index A cls w i;
       if entry_cost \<noteq> 1 then Some (False, []) else Some (True, path @ [c])
     }
   }"

function append_primary ::
    "('t, 'w) tile_api \<Rightarrow> 't movement_class \<Rightarrow> 'w \<Rightarrow> grid_axis \<Rightarrow> coord3 \<Rightarrow> coord3 \<Rightarrow> coord3 list
     \<Rightarrow> (bool \<times> coord3 \<times> coord3 list) option" where
  "append_primary A cls w m goal c path =
     (if axis_of m c = axis_of m goal then Some (True, c, path)
      else let c' = step_toward m goal c in do {
        (ok, path') \<leftarrow> append_checked A cls w c' path;
        if \<not> ok then Some (False, c', path') else append_primary A cls w m goal c' path'
      })"
  by pat_completeness auto
termination
  by (relation "measure (\<lambda>(A, cls, w, m, goal, c, path). nat \<bar>sint (axis_of m goal) - sint (axis_of m c)\<bar>)")
     (use step_toward_closer in simp_all)

definition append_unit_detour_axis ::
    "('t, 'w) tile_api \<Rightarrow> 't movement_class \<Rightarrow> 'w \<Rightarrow> path_request \<Rightarrow> bool \<Rightarrow> grid_axis \<times> grid_axis \<times> i64 \<Rightarrow> coord3 list
     \<Rightarrow> (bool \<times> coord3 list) option" where
  "append_unit_detour_axis A cls w q blocked = (\<lambda>(primary, detour, d) path.
     if \<not> blocked then Some (False, path)
     else let c = add_axis detour d (pq_start q) in
       if \<not> shape_contains (wa_shape A) c then Some (False, path)
       else do {
         (ok, path1) \<leftarrow> append_checked A cls w c [pq_start q];
         if \<not> ok then Some (False, path1)
         else do {
           (ok2, c2, path2) \<leftarrow> append_primary A cls w primary (pq_goal q) c path1;
           if \<not> ok2 then Some (False, path2)
           else append_checked A cls w (add_axis detour (- d) c2) path2
         }
       })"

definition unit_detours :: "path_request \<Rightarrow> (grid_axis \<times> grid_axis \<times> i64) list" where
  "unit_detours q =
     (let a = pq_start q; b = pq_goal q in
      (if co_y a = co_y b \<and> co_z a = co_z b
       then [(AxisX, AxisY, 1), (AxisX, AxisY, - 1), (AxisX, AxisZ, 1), (AxisX, AxisZ, - 1)] else [])
      @ (if co_x a = co_x b \<and> co_z a = co_z b
         then [(AxisY, AxisX, 1), (AxisY, AxisX, - 1), (AxisY, AxisZ, 1), (AxisY, AxisZ, - 1)] else [])
      @ (if co_x a = co_x b \<and> co_y a = co_y b
         then [(AxisZ, AxisX, 1), (AxisZ, AxisX, - 1), (AxisZ, AxisY, 1), (AxisZ, AxisY, - 1)] else []))"

fun first_detour ::
    "('t, 'w) tile_api \<Rightarrow> 't movement_class \<Rightarrow> 'w \<Rightarrow> path_request \<Rightarrow> bool \<Rightarrow> (grid_axis \<times> grid_axis \<times> i64) list
     \<Rightarrow> coord3 list \<Rightarrow> (bool \<times> coord3 list) option" where
  "first_detour A cls w q blocked [] path = Some (False, path)"
| "first_detour A cls w q blocked (t # ts) path = do {
     (ok, path') \<leftarrow> append_unit_detour_axis A cls w q blocked t path;
     if ok then Some (True, path') else first_detour A cls w q blocked ts path'
   }"

text \<open>The cost of a straight or once bent route of unit tiles, when there is one.\<close>

definition unit_prescan ::
    "('t, 'w) tile_api \<Rightarrow> 't movement_class \<Rightarrow> 'w \<Rightarrow> path_request \<Rightarrow> coord3 list \<Rightarrow> (u32 option \<times> coord3 list) option" where
  "unit_prescan A cls w q path = do {
     (found, blocked, path1) \<leftarrow> first_direct A cls w q (direct_orders (wa_shape A)) False path;
     if found then Some (Some (path_manhattan (pq_start q) (pq_goal q)), path1)
     else do {
       (detoured, path2) \<leftarrow> first_detour A cls w q blocked (unit_detours q) path1;
       Some (if detoured then Some (saturating_add_u32 (path_manhattan (pq_start q) (pq_goal q)) 2) else None, path2)
     }
   }"

subsection \<open>The search\<close>

record search_state =
  ss_scratch :: path_scratch
  ss_expanded :: u64
  ss_crossed_missing :: bool
  ss_cost_overflow :: bool

text \<open>The sink of the enumeration: one probe of the transitions from the current node.\<close>

definition improve_node ::
    "('t, 'w) tile_api \<Rightarrow> 't movement_class \<Rightarrow> 'w provider \<Rightarrow> path_tie_break \<Rightarrow> coord3 \<Rightarrow> u64 \<Rightarrow> transition_probe
     \<Rightarrow> u64 \<Rightarrow> node_state \<Rightarrow> u32 \<Rightarrow> path_scratch \<Rightarrow> path_scratch option" where
  "improve_node A cls pr tie goal current p off state g sc = do {
     sc1 \<leftarrow> (if state = Unseen_node then touch_node sc off else Some sc);
     gs \<leftarrow> upd_opt (as_g sc1) (unat off) g;
     ps \<leftarrow> upd_opt (as_parent sc1) (unat off) current;
     sts \<leftarrow> upd_opt (as_state sc1) (unat off) Open_node;
     h \<leftarrow> heuristic (wa_shape A) (mc_policy cls) pr (tp_to p) goal;
     Some (push_open (make_open_node (tp_to_index p) g (saturating_add_u32 g h) tie)
       (sc1\<lparr>as_g := gs, as_parent := ps, as_state := sts\<rparr>))
   }"

definition relax_probe ::
    "('t, 'w) tile_api \<Rightarrow> 't movement_class \<Rightarrow> 'w node_space \<Rightarrow> 'w provider \<Rightarrow> 'w \<Rightarrow> path_tie_break \<Rightarrow> coord3
     \<Rightarrow> u64 \<Rightarrow> u32 \<Rightarrow> transition_probe \<Rightarrow> search_state \<Rightarrow> search_state option" where
  "relax_probe A cls N pr w tie goal current g p st =
     (if tp_availability p = MissingTopology then Some (st\<lparr>ss_crossed_missing := True\<rparr>)
      else if tp_cost_overflow p then Some (st\<lparr>ss_cost_overflow := True\<rparr>)
      else do {
        off \<leftarrow> ns_resident_offset N w (tp_to_index p);
        if wa_sparse A \<and> off = npos then Some (st\<lparr>ss_crossed_missing := True\<rparr>)
        else do {
          state \<leftarrow> state_at (ss_scratch st) off;
          if state = Closed_node then Some st
          else let tentative = saturating_add_u32 g (tp_cost p) in
            if tentative = u32_max then Some (st\<lparr>ss_cost_overflow := True\<rparr>)
            else do {
              known \<leftarrow> g_at (ss_scratch st) off;
              if tentative < known
              then map_option (\<lambda>sc. st\<lparr>ss_scratch := sc\<rparr>)
                (improve_node A cls pr tie goal current p off state tentative (ss_scratch st))
              else Some st
            }
        }
      })"

text \<open>
  The walk back along the parents. It ends because costs fall along it; on arrays that no search
  has written it might not, so it is a partial function.
\<close>

partial_function (option) walk_back ::
    "shape \<Rightarrow> ('w \<Rightarrow> u64 \<Rightarrow> u64 option) \<Rightarrow> 'w \<Rightarrow> u64 list \<Rightarrow> u64 \<Rightarrow> u64 \<Rightarrow> coord3 list \<Rightarrow> coord3 list option" where
  "walk_back s offset w parents start i path =
     (let path' = path @ [tile_coord s i] in
      if i = start then Some path'
      else Option.bind (Option.bind (offset w i) (\<lambda>off. nth_opt parents (unat off)))
        (\<lambda>parent. walk_back s offset w parents start parent path'))"

definition make_result :: "step_policy \<Rightarrow> path_status \<Rightarrow> u32 \<Rightarrow> u64 \<Rightarrow> u64 \<Rightarrow> coord3 list \<Rightarrow> path_result" where
  "make_result p status cost expanded reached path =
     \<lparr>pr_status = status, pr_cost = cost, pr_expanded_nodes = expanded, pr_reached_nodes = reached,
      pr_path = path, pr_cost_scale = cost_scale p\<rparr>"

text \<open>One turn of the search loop: the result, or the state of the next turn.\<close>

definition search_turn ::
    "('t, 'w) tile_api \<Rightarrow> 't movement_class \<Rightarrow> 'w node_space \<Rightarrow> 'w provider \<Rightarrow> 'w \<Rightarrow> missing_chunk_policy
     \<Rightarrow> path_tie_break \<Rightarrow> coord3 \<Rightarrow> u64 \<Rightarrow> u64 \<Rightarrow> search_state
     \<Rightarrow> (path_result \<times> path_scratch + search_state) option" where
  "search_turn A cls N pr w policy tie goal_coord start goal st =
     (let sc = ss_scratch st in
      case pop_open (as_open sc) of
        None \<Rightarrow>
          Some (Inl (make_result (mc_policy cls)
            (if wa_sparse A \<and> ss_crossed_missing st \<and> policy = ReportIndeterminate then Indeterminate
             else if ss_cost_overflow st then CostOverflow else NoPath)
            0 (ss_expanded st) (as_touched sc) (as_path sc), sc))
      | Some (current, rest) \<Rightarrow> do {
          let i = node_index tie current;
          let sc1 = sc\<lparr>as_open := rest\<rparr>;
          off \<leftarrow> ns_offset N w i;
          state \<leftarrow> state_at sc1 off;
          known \<leftarrow> g_at sc1 off;
          if state = Closed_node \<or> node_g current \<noteq> known then Some (Inr (st\<lparr>ss_scratch := sc1\<rparr>))
          else do {
            sts \<leftarrow> upd_opt (as_state sc1) (unat off) Closed_node;
            let sc2 = sc1\<lparr>as_state := sts\<rparr>;
            let expanded = ss_expanded st + 1;
            if i = goal then do {
              back \<leftarrow> walk_back (wa_shape A) (ns_offset N) w (as_parent sc2) start i (as_path sc2);
              let sc3 = sc2\<lparr>as_path := rev back\<rparr>;
              Some (Inl (make_result (mc_policy cls) Found (node_g current) expanded (as_touched sc3) (as_path sc3), sc3))
            }
            else do {
              probes \<leftarrow> for_each_forward A cls pr w (tile_coord (wa_shape A) i);
              map_option Inr (fold_opt (relax_probe A cls N pr w tie goal_coord i (node_g current)) probes
                (st\<lparr>ss_scratch := sc2, ss_expanded := expanded\<rparr>))
            }
          }
        })"

partial_function (option) search_loop ::
    "(search_state \<Rightarrow> (path_result \<times> path_scratch + search_state) option) \<Rightarrow> search_state
     \<Rightarrow> (path_result \<times> path_scratch) option" where
  "search_loop turn st =
     (case turn st of
        None \<Rightarrow> None
      | Some r \<Rightarrow> (case r of Inl result \<Rightarrow> Some result | Inr st' \<Rightarrow> search_loop turn st'))"

definition search_from ::
    "('t, 'w) tile_api \<Rightarrow> 't movement_class \<Rightarrow> 'w node_space \<Rightarrow> 'w provider \<Rightarrow> 'w \<Rightarrow> missing_chunk_policy
     \<Rightarrow> path_tie_break \<Rightarrow> path_request \<Rightarrow> u64 \<Rightarrow> u64 \<Rightarrow> path_scratch \<Rightarrow> (path_result \<times> path_scratch) option" where
  "search_from A cls N pr w policy tie q start goal sc = do {
     nodes \<leftarrow> ns_capacity_hint N w;
     let sc1 = resize_scratch nodes sc;
     off \<leftarrow> ns_offset N w start;
     gs \<leftarrow> upd_opt (as_g sc1) (unat off) 0;
     sts \<leftarrow> upd_opt (as_state sc1) (unat off) Open_node;
     sc2 \<leftarrow> touch_node (sc1\<lparr>as_g := gs, as_state := sts\<rparr>) off;
     h \<leftarrow> heuristic (wa_shape A) (mc_policy cls) pr (pq_start q) (pq_goal q);
     search_loop (search_turn A cls N pr w policy tie (pq_goal q) start goal)
       \<lparr>ss_scratch = push_open (make_open_node start 0 h tie) sc2, ss_expanded = 0,
        ss_crossed_missing = False, ss_cost_overflow = False\<rparr>
   }"

text \<open>
  The checks of an end of the request: the status to answer with, when it is not usable, or its
  index. The static type of a provider without special transitions enables the straight routes.
\<close>

definition check_end ::
    "('t, 'w) tile_api \<Rightarrow> 't movement_class \<Rightarrow> 'w node_space \<Rightarrow> 'w \<Rightarrow> missing_chunk_policy \<Rightarrow> path_status \<Rightarrow> coord3
     \<Rightarrow> path_status option option" where
  "check_end A cls N w policy invalid c =
     (if \<not> shape_contains (wa_shape A) c then Some (Some invalid)
      else do {
        resident \<leftarrow> (if wa_sparse A
                     then Option.bind (tile_index (wa_shape A) c) (ns_is_resident_index N w) else Some True);
        if \<not> resident then Some (Some (if policy = ReportIndeterminate then Indeterminate else invalid))
        else map_option (\<lambda>ok. if ok then None else Some invalid) (is_passable A cls w c)
      })"

definition prescan_applies :: "('t, 'w) tile_api \<Rightarrow> 't movement_class \<Rightarrow> 'w provider \<Rightarrow> bool" where
  "prescan_applies A cls pr \<longleftrightarrow> \<not> wa_sparse A \<and> \<not> has_special_transitions pr \<and> mc_policy cls = DefaultSteps
     \<and> shape_lattice (wa_shape A) = Orthogonal"

definition weighted_astar_path ::
    "('t, 'w) tile_api \<Rightarrow> 't movement_class \<Rightarrow> 'w node_space \<Rightarrow> 'w provider \<Rightarrow> 'w \<Rightarrow> missing_chunk_policy
     \<Rightarrow> path_tie_break \<Rightarrow> path_request \<Rightarrow> path_scratch \<Rightarrow> (path_result \<times> path_scratch) option" where
  "weighted_astar_path A cls N pr w policy tie q sc0 =
     (let sc = clear_scratch sc0;
          failed = (\<lambda>status. Some (make_result (mc_policy cls) status 0 0 0 (as_path sc), sc)) in do {
        bad_start \<leftarrow> check_end A cls N w policy InvalidStart (pq_start q);
        case bad_start of Some status \<Rightarrow> failed status
        | None \<Rightarrow> do {
            bad_goal \<leftarrow> check_end A cls N w policy InvalidGoal (pq_goal q);
            case bad_goal of Some status \<Rightarrow> failed status
            | None \<Rightarrow> do {
                start \<leftarrow> tile_index (wa_shape A) (pq_start q);
                goal \<leftarrow> tile_index (wa_shape A) (pq_goal q);
                start_cost \<leftarrow> tile_entry_cost_index A cls w start;
                if start_cost = 0 then failed InvalidStart
                else do {
                  goal_cost \<leftarrow> tile_entry_cost_index A cls w goal;
                  if goal_cost = 0 then failed InvalidGoal
                  else do {
                    (straight, path) \<leftarrow> (if prescan_applies A cls pr then unit_prescan A cls w q (as_path sc)
                                         else Some (None, as_path sc));
                    let sc1 = sc\<lparr>as_path := path\<rparr>;
                    case straight of
                      Some cost \<Rightarrow> Some (make_result (mc_policy cls) Found cost (of_nat (length path))
                                    (of_nat (length path)) path, sc1)
                    | None \<Rightarrow> search_from A cls N pr w policy tie q start goal sc1
                  }
                }
              }
          }
      })"

end
