(* ===== verification/Search_Space.thy ===== *)
theory Search_Space imports Path_Search begin

text \<open>
  What the search relies on: the locale \<open>search_world\<close> adds the laws of a node index space to a world
  of a mover. The two spaces of \<open>path/node_index_space.h\<close> obey them, because a chunk has a power of
  two of tiles, so that tile keys leave no gaps inside a chunk.
\<close>

subsection \<open>Tile keys as indices\<close>

lemma power_of_two_nat:
  assumes "is_power_of_two v"
  shows "\<exists>n. unat v = 2 ^ n"
proof -
  have v: "unat v \<noteq> 0" "v AND (v - 1) = 0" using assms by (simp_all add: is_power_of_two_def unat_eq_0)
  obtain n :: nat where n: "2 ^ n \<le> unat v" "unat v < 2 * 2 ^ n"
    using ex_power_ivl1 [of 2 "unat v"] v(1) by auto
  have bit: "bit x n" if "2 ^ n \<le> unat x" "unat x < 2 * 2 ^ n" for x :: u64
  proof -
    have "unat x div 2 ^ n = 1"
    proof (rule div_nat_eqI)
      show "2 ^ n * 1 \<le> unat x" "unat x < 2 ^ n * Suc 1" using that by simp_all
    qed
    then have "bit (unat x) n" by (simp add: bit_iff_odd)
    then show ?thesis by (simp add: bit_unsigned_iff)
  qed
  have "unat v = 2 ^ n"
  proof (rule ccontr)
    assume ne: "unat v \<noteq> 2 ^ n"
    have "unat (v - 1) = unat v - 1" using v(1) by (simp add: unat_sub_u64)
    then have "bit (v - 1) n" using ne n by (intro bit) simp_all
    moreover have "bit v n" using n by (intro bit) simp_all
    ultimately have "bit (v AND (v - 1)) n" by (simp add: bit_simps)
    then show False using v(2) by simp
  qed
  then show ?thesis ..
qed

lemma chunk_tiles_power:
  assumes "valid_shape s"
  shows "2 ^ unat (local_bits s) = cx s * cy s * cz s"
proof -
  have "is_power_of_two (ext_x (shape_chunk s))" "is_power_of_two (ext_y (shape_chunk s))"
    "is_power_of_two (ext_z (shape_chunk s))"
    using assms by (simp_all add: valid_shape_def shape_asserts_def)
  then obtain a b c where abc: "cx s = 2 ^ a" "cy s = 2 ^ b" "cz s = 2 ^ c"
    using power_of_two_nat unfolding cx_def cy_def cz_def by metis
  define m where "m = a + b + c"
  have P: "cx s * cy s * cz s = 2 ^ m" by (simp add: abc m_def power_add)
  have le: "(2 :: nat) ^ m \<le> 2 ^ unat (local_bits s)" using bit_counts(1) [OF assms] P by simp
  have c: "u128_nat (precise_local_tile_count s) = 2 ^ m" using count_dims [OF assms] P by simp
  have "(2 :: nat) ^ unat (local_bits s) < 2 * 2 ^ m \<or> m = 0"
  proof (cases "m = 0")
    case False
    then have "1 < (2 :: nat) ^ m" by (intro one_less_power) simp_all
    then show ?thesis
      using bits_for_count_spec(2) [of "precise_local_tile_count s"] c by (simp add: local_bits_def)
  qed simp
  then have "unat (local_bits s) \<le> m"
  proof
    assume "(2 :: nat) ^ unat (local_bits s) < 2 * 2 ^ m"
    then have "(2 :: nat) ^ unat (local_bits s) < 2 ^ Suc m" by simp
    then have "unat (local_bits s) < Suc m" by (rule power_less_imp_less_exp [rotated]) simp
    then show ?thesis by simp
  next
    assume "m = 0"
    then have "local_bits s = 0"
      using c by (simp add: local_bits_def bits_for_count_def u128_le_nat)
    then show ?thesis by simp
  qed
  moreover have "m \<le> unat (local_bits s)"
    using le by (rule power_le_imp_le_exp [rotated]) simp
  ultimately show ?thesis using P by simp
qed

lemma tile_index_Some:
  assumes "valid_shape s" "tile_key_bits s \<le> 64" "tile_index s c = Some i"
  shows "chunk_key_of_tile s (TileKey64 i) = chunk_key s (chunk_coord s c)"
    "local_tile_id_of_tile s (TileKey64 i) = local_tile_id s (local_coord s c)"
    "tile_coord s i = c" "shape_contains s c"
    "unat i = unat (key_value (chunk_key s (chunk_coord s c))) * unat (local_tile_count s)
      + unat (tile_value (local_tile_id s (local_coord s c)))"
proof -
  have k: "tile_key s c = Some (TileKey64 i)"
    using assms(2,3)
    by (cases "tile_key s c") (auto simp: tile_index_def split: packed_tile_key.splits)
  note d = tile_key_decode [OF assms(1) k]
  from d show "chunk_key_of_tile s (TileKey64 i) = chunk_key s (chunk_coord s c)"
    "local_tile_id_of_tile s (TileKey64 i) = local_tile_id s (local_coord s c)"
    "tile_coord s i = c" by (simp_all add: tile_coord_def)
  show "shape_contains s c" using k by (simp add: tile_key_def split: if_splits)
  have "unat (local_tile_count s) = 2 ^ unat (local_bits s)"
    using count_dims [OF assms(1)] chunk_tiles_power [OF assms(1)] by simp
  then show "unat i = unat (key_value (chunk_key s (chunk_coord s c))) * unat (local_tile_count s)
      + unat (tile_value (local_tile_id s (local_coord s c)))"
    using tile_key_value(1) [OF assms(1) k] by (simp add: tile_key_nat_def)
qed

lemma tile_index_transition: "tile_index s c = transition_index s c"
  by (simp add: tile_index_def transition_index_def)

subsection \<open>The laws\<close>

locale search_world = mover_world A inv res page entry cls
  for A :: "('t, int, 'w) world_api" and inv and res and page and entry and cls +
  fixes N :: "'w node_space"
    and fits :: "'w \<Rightarrow> bool"
    and off :: "'w \<Rightarrow> coord3 \<Rightarrow> nat"
    and cap :: "'w \<Rightarrow> nat"
  assumes space_resident: "inv w \<Longrightarrow> fits w \<Longrightarrow> shape_contains (wa_shape A) c \<Longrightarrow> tile_index (wa_shape A) c = Some i \<Longrightarrow>
      ns_is_resident_index N w i = Some (tile_res w c)"
    and space_offset: "inv w \<Longrightarrow> fits w \<Longrightarrow> tile_res w c \<Longrightarrow> tile_index (wa_shape A) c = Some i \<Longrightarrow>
      \<exists>n. ns_offset N w i = Some n \<and> ns_resident_offset N w i = Some n \<and> unat n = off w c
        \<and> (wa_sparse A \<longrightarrow> n \<noteq> npos)"
    and space_capacity: "inv w \<Longrightarrow> fits w \<Longrightarrow> \<exists>n. ns_capacity_hint N w = Some n \<and> unat n = cap w"
    and off_bound: "inv w \<Longrightarrow> fits w \<Longrightarrow> tile_res w c \<Longrightarrow> off w c < cap w"
    and off_inj: "inv w \<Longrightarrow> fits w \<Longrightarrow> tile_res w c \<Longrightarrow> tile_res w c' \<Longrightarrow> off w c = off w c' \<Longrightarrow> c = c'"
begin

lemma index_of_tile:
  assumes "inv w" "shape_contains (wa_shape A) c"
  shows "tile_index (wa_shape A) c = Some (index_of c)"
  using index_at [OF assms] by (simp add: tile_index_transition)

lemma index_parts:
  assumes "inv w" "shape_contains (wa_shape A) c"
  shows "chunk_key_of_tile (wa_shape A) (TileKey64 (index_of c)) = key_at c"
    "local_tile_id_of_tile (wa_shape A) (TileKey64 (index_of c)) = id_at c"
    "tile_coord (wa_shape A) (index_of c) = c"
  using tile_index_Some [OF shape_ok [OF assms(1)] index_law [OF assms(1)] index_of_tile [OF assms]] by simp_all

lemma offset_at:
  assumes "inv w" "fits w" "tile_res w c"
  shows "\<exists>n. ns_offset N w (index_of c) = Some n \<and> ns_resident_offset N w (index_of c) = Some n
    \<and> unat n = off w c \<and> off w c < cap w \<and> (wa_sparse A \<longrightarrow> n \<noteq> npos)"
  using space_offset [OF assms index_of_tile [OF assms(1)]] off_bound [OF assms] assms(3)
  by (simp add: tile_res_def)

lemma index_inj:
  "inv w \<Longrightarrow> shape_contains (wa_shape A) c \<Longrightarrow> shape_contains (wa_shape A) c' \<Longrightarrow> index_of c = index_of c' \<longleftrightarrow> c = c'"
  using index_parts(3) by metis

text \<open>The leaves on tiles inside the shape.\<close>

lemma passable_at:
  assumes "inv w" "tile_res w c"
  shows "is_passable A cls w c = Some (pass w c)"
    "is_passable_index A cls w (index_of c) = Some (pass w c)"
    "tile_entry_cost_index A cls w (index_of c) = Some (cost w c)"
proof -
  have c: "shape_contains (wa_shape A) c" "res w (key_at c)" using assms(2) by (simp_all add: tile_res_def)
  note r = resolved [OF assms(1) c(1)]
  show "is_passable A cls w c = Some (pass w c)" "is_passable_index A cls w (index_of c) = Some (pass w c)"
    "tile_entry_cost_index A cls w (index_of c) = Some (cost w c)"
    using c r pass_cost [OF assms] try_chunk_law [OF assms(1) r(2)] chunk_law [OF assms(1) r(2)]
    by (simp_all add: is_passable_def is_passable_index_def tile_entry_cost_index_def try_resolve_def
        index_parts [OF assms(1) c(1)] Let_def)
qed

lemma check_end_eq:
  assumes "inv w" "fits w"
  shows "check_end A cls N w policy invalid c =
    Some (if \<not> shape_contains (wa_shape A) c then Some invalid
      else if \<not> tile_res w c then Some (if policy = ReportIndeterminate then Indeterminate else invalid)
      else if pass w c then None else Some invalid)"
proof (cases "shape_contains (wa_shape A) c")
  case True
  note i = index_of_tile [OF assms(1) True]
  have "tile_res w c" if "\<not> wa_sparse A"
    using dense_resident [OF assms(1) that resolved(2) [OF assms(1) True]] True by (simp add: tile_res_def)
  then show ?thesis
    using True passable_at(1) [OF assms(1), of c] space_resident [OF assms True i]
    by (simp add: check_end_def i)
qed (simp add: check_end_def)

end

subsection \<open>The two node index spaces\<close>

text \<open>The tile count, and the node count of a sparse world, fit in \<open>size_t\<close>.\<close>

definition dense_fits :: "shape \<Rightarrow> bool" where
  "dense_fits s \<longleftrightarrow> chunk_count s \<le> u64_max div local_tile_count s"

definition sparse_fits :: "shape \<Rightarrow> 'v sparse_world \<Rightarrow> bool" where
  "sparse_fits s w \<longleftrightarrow> unat (sw_capacity w) * unat (local_tile_count s) < 2 ^ 64"


text \<open>Where a tile's node is in the arrays.\<close>

definition dense_off :: "shape \<Rightarrow> coord3 \<Rightarrow> nat" where
  "dense_off s c = unat (the (tile_index s c))"

definition sparse_off :: "shape \<Rightarrow> 'v sparse_world \<Rightarrow> coord3 \<Rightarrow> nat" where
  "sparse_off s w c = sparse_slot w (chunk_key s (chunk_coord s c)) * unat (local_tile_count s)
     + unat (tile_value (local_tile_id s (local_coord s c)))"

lemma local_tile_bound:
  assumes "valid_shape s" "shape_contains s c"
  shows "unat (tile_value (local_tile_id s (local_coord s c))) < unat (local_tile_count s)"
    "unat (key_value (chunk_key s (chunk_coord s c))) < unat (chunk_count s)"
    "0 < unat (local_tile_count s)"
  using local_tile_id_nat(2) [OF assms(1) coords_in_range(2) [OF assms]]
    chunk_key_nat(2) [OF assms(1) coords_in_range(1) [OF assms]] count_dims [OF assms(1)] dims_pos [OF assms(1)] by simp_all

lemma radix_lt: "(a :: nat) < n \<Longrightarrow> b < m \<Longrightarrow> a * m + b < n * m"
  using mixed_radix_bound(1) [of b m a n 0 1] by (simp add: mult.commute add.commute)

lemma radix_inj: "(b :: nat) < m \<Longrightarrow> d < m \<Longrightarrow> a * m + b = c * m + d \<longleftrightarrow> a = c \<and> b = d"
proof
  assume lt: "b < m" "d < m" and eq: "a * m + b = c * m + d"
  have "(a * m + b) div m = a" "(c * m + d) div m = c" "(a * m + b) mod m = b" "(c * m + d) mod m = d"
    using lt by simp_all
  then show "a = c \<and> b = d" using eq by metis
qed simp

lemma dense_tile_res: "tile_world.tile_res (dense_api s fs) (\<lambda>w k. True) w c \<longleftrightarrow> shape_contains s c"
  by (simp add: dense.tile_res_def) (simp add: dense_api_def)

lemma sparse_tile_res:
  "tile_world.tile_res (sparse_api s fs) sparse_res w c
    \<longleftrightarrow> shape_contains s c \<and> sparse_res w (chunk_key s (chunk_coord s c))"
  by (simp add: sparse.tile_res_def) (simp add: sparse_api_def)

interpretation dense_search: search_world "dense_api s fs"
    "\<lambda>w. (valid_shape s \<and> dense_inv s fs w) \<and> mover_ok s fs cls"
    "\<lambda>w k. True" "\<lambda>w k. dw_pages w ! slot k" "\<lambda>w k. dense_entry w (slot k)" cls
    "dense_space s" "\<lambda>w. dense_fits s" "\<lambda>w. dense_off s" "\<lambda>w. unat (chunk_count s) * unat (local_tile_count s)"
  for s and fs :: "('t, int) schema" and cls
proof unfold_locales
  fix w :: "int dense_world" and c c'
  assume ok: "(valid_shape s \<and> dense_inv s fs w) \<and> mover_ok s fs cls" and fits: "dense_fits s"
  then have v: "valid_shape s" and b: "tile_key_bits s \<le> 64" by (simp_all add: mover_ok_def)
  note res = dense_tile_res [of s fs w]
  have idx: "\<exists>i. tile_index s d = Some i" if "shape_contains s d" for d
    using transition_index_defined [OF v b that] by (simp add: tile_index_transition)
  have "unat (chunk_count s) \<le> (2 ^ 64 - 1) div unat (local_tile_count s)"
    using fits by (simp add: dense_fits_def word_le_nat_alt unat_div)
  then have "unat (chunk_count s) * unat (local_tile_count s) \<le> 2 ^ 64 - 1"
    by (cases "unat (local_tile_count s) = 0") (simp_all add: less_eq_div_iff_mult_less_eq)
  then have "unat (chunk_count s) * unat (local_tile_count s) < 2 ^ 64" by simp
  then show "\<exists>n. ns_capacity_hint (dense_space s) w = Some n \<and> unat n = unat (chunk_count s) * unat (local_tile_count s)"
    using fits by (simp add: dense_space_def dense_fits_def unat_mult_u64)
  show "dense_off s c < unat (chunk_count s) * unat (local_tile_count s)" if "tile_world.tile_res (dense_api s fs) (\<lambda>w k. True) w c"
  proof -
    have c: "shape_contains s c" using that by (simp add: res)
    obtain i where i: "tile_index s c = Some i" using idx [OF c] by blast
    note lb = local_tile_bound [OF v c]
    show ?thesis
      using tile_index_Some(5) [OF v b i] radix_lt [OF lb(2) lb(1)] by (simp add: dense_off_def i)
  qed
  show "c = c'" if "tile_world.tile_res (dense_api s fs) (\<lambda>w k. True) w c" "tile_world.tile_res (dense_api s fs) (\<lambda>w k. True) w c'" "dense_off s c = dense_off s c'"
  proof -
    have "shape_contains s c" "shape_contains s c'" using that by (simp_all add: res)
    then obtain i i' where i: "tile_index s c = Some i" "tile_index s c' = Some i'" using idx by blast
    then have "i = i'" using that(3) by (simp add: dense_off_def u64_eq_nat)
    then show ?thesis using tile_index_Some(3) [OF v b i(1)] tile_index_Some(3) [OF v b i(2)] by simp
  qed
qed (simp_all add: dense_tile_res dense_space_def dense_off_def, simp_all add: dense_api_def)

interpretation sparse_search: search_world "sparse_api s fs" "\<lambda>w. sparse_ok s fs w \<and> mover_ok s fs cls"
    sparse_res "\<lambda>w k. sw_pages w ! sparse_slot w k" sparse_entry cls
    "sparse_space s" "sparse_fits s" "sparse_off s" "\<lambda>w. sw_cap w * unat (local_tile_count s)"
  for s and fs :: "('t, int) schema" and cls
proof unfold_locales
  fix w :: "int sparse_world" and c c' i
  assume ok: "sparse_ok s fs w \<and> mover_ok s fs cls" and fits: "sparse_fits s w"
  then have v: "valid_shape s" and b: "tile_key_bits s \<le> 64" by (simp_all add: mover_ok_def sparse_ok_def)
  note F = sparse_find [OF conjunct1 [OF ok]]
  have sh: "wa_shape (sparse_api s fs) = s" by (simp add: sparse_api_def)
  have cap: "sw_cap w * unat (local_tile_count s) < 2 ^ 64" using fits by (simp add: sparse_fits_def sw_cap_def)
  then show "\<exists>n. ns_capacity_hint (sparse_space s) w = Some n \<and> unat n = sw_cap w * unat (local_tile_count s)"
    by (simp add: sparse_space_def unat_mult_u64 sw_cap_def)
  have bound: "sparse_off s w c < sw_cap w * unat (local_tile_count s)"
    if "tile_world.tile_res (sparse_api s fs) sparse_res w c"
    using that F(3) [of "chunk_key s (chunk_coord s c)"] local_tile_bound(1) [OF v, of c]
    by (simp add: sparse_off_def sparse_tile_res radix_lt)
  then show "sparse_off s w c < sw_cap w * unat (local_tile_count s)"
    if "tile_world.tile_res (sparse_api s fs) sparse_res w c" using that .
  show "ns_is_resident_index (sparse_space s) w i = Some (tile_world.tile_res (sparse_api s fs) sparse_res w c)"
    if "shape_contains (wa_shape (sparse_api s fs)) c" "tile_index (wa_shape (sparse_api s fs)) c = Some i"
    using that tile_index_Some(1) [OF v b, of c i] F(1,4) [of "chunk_key s (chunk_coord s c)"]
    by (simp add: sparse_space_def sparse_tile_res resident_slot_def sh)
  show "\<exists>n. ns_offset (sparse_space s) w i = Some n \<and> ns_resident_offset (sparse_space s) w i = Some n
      \<and> unat n = sparse_off s w c \<and> (wa_sparse (sparse_api s fs) \<longrightarrow> n \<noteq> npos)"
    if r: "tile_world.tile_res (sparse_api s fs) sparse_res w c" and i: "tile_index (wa_shape (sparse_api s fs)) c = Some i"
  proof -
    define k where "k = chunk_key s (chunk_coord s c)"
    define sl where "sl = the (dir_map (sw_directory w) k)"
    have kr: "sparse_res w k" using r by (simp add: sparse_tile_res k_def)
    note parts = tile_index_Some(1,2) [OF v b i [unfolded sh]]
    have slot: "resident_slot w (chunk_key_of_tile s (TileKey64 i)) = Some sl" "sl \<noteq> npos"
      using F(1,4) [of k] kr by (simp_all add: resident_slot_def parts(1) k_def [symmetric] sl_def)
    let ?l = "unat (tile_value (local_tile_id s (local_coord s c)))"
    have off: "sparse_off s w c = unat sl * unat (local_tile_count s) + ?l"
      by (simp add: sparse_off_def sl_def sparse_slot_def k_def)
    have lt: "unat sl * unat (local_tile_count s) + ?l < 2 ^ 64 - 1"
      using bound [OF r] cap unfolding off by linarith
    then have u: "unat (space_offset s sl i) = sparse_off s w c"
      unfolding off by (simp add: space_offset_def parts(2) u64_nat)
    have "space_offset s sl i \<noteq> npos"
    proof
      assume "space_offset s sl i = npos"
      then have "sparse_off s w c = 2 ^ 64 - 1" using u by (simp add: npos_def)
      with lt off show False by simp
    qed
    with slot u show ?thesis by (simp add: sparse_space_def)
  qed
  show "c = c'" if "tile_world.tile_res (sparse_api s fs) sparse_res w c"
      "tile_world.tile_res (sparse_api s fs) sparse_res w c'" "sparse_off s w c = sparse_off s w c'"
  proof -
    let ?k = "\<lambda>c. chunk_key s (chunk_coord s c)" and ?l = "\<lambda>c. local_tile_id s (local_coord s c)"
    have c: "shape_contains s c" "sparse_res w (?k c)" "shape_contains s c'" "sparse_res w (?k c')"
      using that by (simp_all add: sparse_tile_res)
    have "sparse_slot w (?k c) = sparse_slot w (?k c') \<and> unat (tile_value (?l c)) = unat (tile_value (?l c'))"
      using that(3) local_tile_bound(1) [OF v c(1)] local_tile_bound(1) [OF v c(3)]
      by (simp add: sparse_off_def radix_inj)
    then have "?k c = ?k c'" "?l c = ?l c'" using F(5) [OF c(2,4)] local_tile_id_eqI by blast+
    then show ?thesis using coord_of_chunk_local [OF v c(1)] coord_of_chunk_local [OF v c(3)]
        chunk_key_round(1) [OF v coords_in_range(1) [OF v c(1)]]
        chunk_key_round(1) [OF v coords_in_range(1) [OF v c(3)]] by metis
  qed
qed

end
