(* ===== verification/Search_Laws.thy ===== *)
theory Search_Laws imports Search_Space Best_First begin

text \<open>
  The search of \<open>Path_Search\<close> refines best-first search: the arrays of the scratch, read through the
  node index space, are the closed set, the distances and the parents of the locale
  \<open>best_first\<close>. One turn of the loop keeps its invariant and makes progress, so the search
  returns, and what it returns is exact.
\<close>

lemma u32_less: "unat (x :: u32) < 2 ^ 32"
  using unsigned_less [of x] by simp

lemma unat_saturating_add_u32: "unat (saturating_add_u32 a b) = min (2 ^ 32 - 1) (unat a + unat b)"
proof -
  have m: "unat (u32_max - a) = 2 ^ 32 - 1 - unat a"
    using u32_bound [of a] by (simp add: u32_max_def unat_sub word_le_nat_alt)
  show ?thesis
  proof (cases "u32_max - a < b")
    case True
    then have "2 ^ 32 - 1 - unat a < unat b" by (simp add: word_less_nat_alt m)
    with True show ?thesis by (simp add: saturating_add_u32_def u32_max_def)
  next
    case False
    then have "unat b \<le> 2 ^ 32 - 1 - unat a" by (simp add: word_less_nat_alt m)
    then have "unat a + unat b \<le> 2 ^ 32 - 1" using u32_bound [of a] by simp
    then show ?thesis using False by (simp add: saturating_add_u32_def unat_word_ariths)
  qed
qed

subsection \<open>The open list\<close>

lemma greatest_node_least:
  "greatest_node n ns \<in> set (n # ns) \<and> (\<forall>x \<in> set (n # ns). on_key (greatest_node n ns) \<le> on_key x)"
proof (induction ns arbitrary: n)
  case (Cons a ns)
  have "greatest_node n (a # ns) = greatest_node (if packed_open_node_less n a then a else n) ns"
    by (simp add: greatest_node_def)
  with Cons.IH [of "if packed_open_node_less n a then a else n"] show ?case
    by (auto simp: packed_open_node_less_def split: if_splits)
qed (simp add: greatest_node_def)

lemma pop_open_None [simp]: "pop_open ns = None \<longleftrightarrow> ns = []"
  by (simp add: pop_open_def Let_def split: list.split)

lemma pop_open_Some:
  assumes "pop_open ns = Some (m, rest)"
  shows "m \<in> set ns" "\<And>x. x \<in> set ns \<Longrightarrow> node_f m \<le> node_f x" "set ns - {m} \<subseteq> set rest" "set rest \<subseteq> set ns"
    "length ns = Suc (length rest)"
proof -
  obtain n ns' where ns: "ns = n # ns'" "m = greatest_node n ns'" "rest = remove1 m ns"
    using assms by (auto simp: pop_open_def Let_def split: list.splits)
  from greatest_node_least [of n ns'] ns show m: "m \<in> set ns" by simp
  show "\<And>x. x \<in> set ns \<Longrightarrow> node_f m \<le> node_f x"
    using greatest_node_least [of n ns'] ns by (auto intro: node_f_mono)
  show "set ns - {m} \<subseteq> set rest" unfolding ns(3) by (intro subsetI) (simp add: in_set_remove1)
  show "set rest \<subseteq> set ns" using ns(3) set_remove1_subset by metis
  show "length ns = Suc (length rest)" using m by (simp add: ns(3) length_remove1) (cases ns, simp_all)
qed

subsection \<open>Scratch\<close>

definition scratch_ok :: "path_scratch \<Rightarrow> bool" where
  "scratch_ok sc \<longleftrightarrow> length (as_state sc) = length (as_generation sc) \<and> length (as_g sc) = length (as_generation sc)
     \<and> length (as_parent sc) = length (as_generation sc) \<and> as_epoch sc \<noteq> 0
     \<and> (\<forall>g \<in> set (as_generation sc). g \<le> as_epoch sc)"

lemma new_scratch_ok: "scratch_ok new_scratch"
  by (simp add: scratch_ok_def new_scratch_def)

text \<open>After a clear no node is current.\<close>

lemma clear_scratch_fresh:
  assumes "scratch_ok sc"
  shows "scratch_ok (clear_scratch sc)" "as_epoch (clear_scratch sc) \<notin> set (as_generation (clear_scratch sc))"
    "as_open (clear_scratch sc) = []" "as_path (clear_scratch sc) = []"
proof -
  have le: "g \<le> as_epoch sc" if "g \<in> set (as_generation sc)" for g using assms that by (simp add: scratch_ok_def)
  show "scratch_ok (clear_scratch sc)" "as_epoch (clear_scratch sc) \<notin> set (as_generation (clear_scratch sc))"
  proof -
    have up: "g \<le> as_epoch sc + 1 \<and> g \<noteq> as_epoch sc + 1"
      if "g \<in> set (as_generation sc)" "as_epoch sc + 1 \<noteq> 0" for g
    proof -
      have "unat (as_epoch sc + 1) = unat (as_epoch sc) + 1"
        using unatSuc [of "as_epoch sc"] that(2) by (simp add: add.commute)
      then show ?thesis using le [OF that(1)] by (auto simp: word_le_nat_alt)
    qed
    show "scratch_ok (clear_scratch sc)"
      using assms up by (auto simp: scratch_ok_def clear_scratch_def advance_epoch_def Let_def)
    show "as_epoch (clear_scratch sc) \<notin> set (as_generation (clear_scratch sc))"
      using up by (auto simp: clear_scratch_def advance_epoch_def Let_def)
  qed
qed (simp_all add: clear_scratch_def)

lemma resize_scratch_fresh:
  assumes "scratch_ok sc" "as_epoch sc \<notin> set (as_generation sc)"
  shows "scratch_ok (resize_scratch n sc)" "as_epoch (resize_scratch n sc) \<notin> set (as_generation (resize_scratch n sc))"
    "length (as_generation (resize_scratch n sc)) = unat n" "as_open (resize_scratch n sc) = as_open sc"
    "as_path (resize_scratch n sc) = as_path sc"
  using assms by (auto simp: scratch_ok_def resize_scratch_def)

definition node_status :: "path_scratch \<Rightarrow> nat \<Rightarrow> node_state" where
  "node_status sc i = (if as_generation sc ! i = as_epoch sc then as_state sc ! i else Unseen_node)"

definition node_dist :: "path_scratch \<Rightarrow> nat \<Rightarrow> nat" where
  "node_dist sc i = (if as_generation sc ! i = as_epoch sc then unat (as_g sc ! i) else 2 ^ 32 - 1)"

lemma node_read:
  assumes "scratch_ok sc" "unat i < length (as_generation sc)"
  shows "state_at sc i = Some (node_status sc (unat i))"
    "\<exists>g. g_at sc i = Some g \<and> unat g = node_dist sc (unat i)"
  using assms
  by (auto simp: scratch_ok_def state_at_def g_at_def is_current_def node_status_def node_dist_def nth_opt_in)

text \<open>The effect of an improvement on the arrays.\<close>

definition improved :: "path_scratch \<Rightarrow> nat \<Rightarrow> u32 \<Rightarrow> u64 \<Rightarrow> packed_open_node \<Rightarrow> path_scratch \<Rightarrow> bool" where
  "improved sc i g parent e sc' \<longleftrightarrow> scratch_ok sc' \<and> length (as_generation sc') = length (as_generation sc)
     \<and> as_open sc' = e # as_open sc \<and> as_path sc' = as_path sc
     \<and> node_status sc' = (node_status sc)(i := Open_node) \<and> node_dist sc' = (node_dist sc)(i := unat g)
     \<and> as_parent sc' = (as_parent sc)[i := parent]"

lemma improve_node_eq:
  assumes ok: "scratch_ok sc" and i: "unat off < length (as_generation sc)"
    and h: "heuristic (wa_shape A) (mc_policy cls) pr (tp_to p) goal = Some h"
  shows "\<exists>sc'. improve_node A cls pr tie goal current p off (node_status sc (unat off)) g sc = Some sc'
    \<and> improved sc (unat off) g current (make_open_node (tp_to_index p) g (saturating_add_u32 g h) tie) sc'"
proof -
  let ?i = "unat off" and ?e = "make_open_node (tp_to_index p) g (saturating_add_u32 g h) tie"
  have len: "length (as_state sc) = length (as_generation sc)" "length (as_g sc) = length (as_generation sc)"
    "length (as_parent sc) = length (as_generation sc)"
    using ok by (simp_all add: scratch_ok_def)
  define sc1 where "sc1 = (if node_status sc ?i = Unseen_node
      then sc\<lparr>as_generation := (as_generation sc)[?i := as_epoch sc], as_touched := as_touched sc + 1\<rparr> else sc)"
  have t: "(if node_status sc ?i = Unseen_node then touch_node sc off else Some sc) = Some sc1"
    using i by (simp add: sc1_def touch_node_def upd_opt_def)
  have gen: "as_generation sc1 = (as_generation sc)[?i := as_epoch sc]"
    using i by (cases "as_generation sc ! ?i = as_epoch sc")
       (auto simp: sc1_def node_status_def list_eq_iff_nth_eq nth_list_update)
  have same: "as_open sc1 = as_open sc" "as_path sc1 = as_path sc" "as_state sc1 = as_state sc" "as_g sc1 = as_g sc"
    "as_parent sc1 = as_parent sc" "as_epoch sc1 = as_epoch sc"
    by (simp_all add: sc1_def)
  define sc' where "sc' = push_open ?e (sc1\<lparr>as_g := (as_g sc)[?i := g], as_parent := (as_parent sc)[?i := current],
      as_state := (as_state sc)[?i := Open_node]\<rparr>)"
  have fields: "as_open sc' = ?e # as_open sc" "as_path sc' = as_path sc" "as_generation sc' = (as_generation sc)[?i := as_epoch sc]"
    "as_state sc' = (as_state sc)[?i := Open_node]" "as_g sc' = (as_g sc)[?i := g]"
    "as_parent sc' = (as_parent sc)[?i := current]" "as_epoch sc' = as_epoch sc"
    by (simp_all add: sc'_def push_open_def gen same)
  have "improve_node A cls pr tie goal current p off (node_status sc ?i) g sc = Some sc'"
    using i len unfolding improve_node_def t by (simp add: same upd_opt_def h sc'_def)
  moreover have "scratch_ok sc'"
    using ok i unfolding scratch_ok_def fields by (auto dest!: set_update_subset_insert [THEN subsetD])
  moreover have "node_status sc' = (node_status sc)(?i := Open_node)" "node_dist sc' = (node_dist sc)(?i := unat g)"
    using i len by (auto simp: fun_eq_iff node_status_def node_dist_def fields nth_list_update)
  ultimately show ?thesis by (simp add: improved_def fields)
qed

subsection \<open>The graph\<close>

context search_world
begin

definition search_edge :: "'w \<Rightarrow> 'w provider \<Rightarrow> coord3 \<Rightarrow> coord3 \<Rightarrow> nat \<Rightarrow> bool" where
  "search_edge w pr a b k \<longleftrightarrow> inv w \<and> shape_contains (wa_shape A) a \<and>
     (\<exists>qs p. for_each_forward A cls pr w a = Some qs \<and> p \<in> set qs \<and> tp_availability p = Legal
        \<and> tp_to p = b \<and> unat (tp_cost p) = k)"

definition estimate :: "'w \<Rightarrow> 'w provider \<Rightarrow> coord3 \<Rightarrow> coord3 \<Rightarrow> nat" where
  "estimate w pr goal a =
     (if inv w \<and> shape_contains (wa_shape A) goal \<and> shape_contains (wa_shape A) a
      then unat (the (heuristic (wa_shape A) (mc_policy cls) pr a goal)) else 0)"

lemma heuristic_at:
  assumes "inv w" "shape_contains (wa_shape A) a" "shape_contains (wa_shape A) goal"
  shows "\<exists>h. heuristic (wa_shape A) (mc_policy cls) pr a goal = Some h \<and> unat h = estimate w pr goal a"
  using heuristic_value [OF assms, of pr] assms
  by (cases "has_special_transitions pr") (auto simp: heuristic_def estimate_def)

lemma estimate_goal:
  assumes "inv w" "shape_contains (wa_shape A) goal"
  shows "estimate w pr goal goal = 0"
proof -
  obtain h where h: "heuristic (wa_shape A) (mc_policy cls) pr goal goal = Some h" "unat h = estimate w pr goal goal"
    using heuristic_at [OF assms(1,2,2)] by blast
  have "probe_path A cls pr w goal [] goal" by (rule path_end [OF assms(2)])
  from heuristic_admissible [OF assms(1) this] h show ?thesis by simp
qed

lemma legal_probe:
  assumes "inv w" "shape_contains (wa_shape A) c" "for_each_forward A cls pr w c = Some qs" "p \<in> set qs"
    "tp_availability p = Legal"
  shows "tile_res w (tp_to p)" "tp_to_index p = index_of (tp_to p)" "0 < unat (tp_cost p)"
    "tp_cost_overflow p \<longleftrightarrow> unat (tp_cost p) = 2 ^ 32 - 1"
proof -
  from forward_probe [OF assms] have
    "tile_res w (tp_to p) \<and> tp_to_index p = index_of (tp_to p) \<and> 0 < unat (tp_cost p)
      \<and> (tp_cost_overflow p \<longleftrightarrow> unat (tp_cost p) = 2 ^ 32 - 1)"
  proof (elim disjE exE conjE)
    fix d assume d: "p \<in> set (regular_probes w c d (shift c d))"
    note pr = regular_price [OF d assms(5)]
    have "tp_to_index p = index_of (tp_to p)"
      using d by (auto simp: regular_probes_def missing_probe_def split: if_splits)
    with pr show ?thesis using multiplier_pos [of "mc_policy cls" d] by (auto simp: min_def)
  next
    fix ks k assume k: "p \<in> set (special_probes w k (sc_to k))"
    note pr = special_price [OF k assms(5)]
    have "tp_to_index p = index_of (tp_to p)" "tile_res w (sc_to k)" "0 < unat (sc_cost k)"
      using k assms(5) by (auto simp: special_probes_def missing_probe_def Let_def unat_gt_0 split: if_splits)
    moreover have "0 < unat (cost_scale (mc_policy cls))"
      by (simp add: cost_scale_def split: step_policy.split)
    ultimately show ?thesis using pr by (auto simp: min_def)
  qed
  then show "tile_res w (tp_to p)" "tp_to_index p = index_of (tp_to p)" "0 < unat (tp_cost p)"
    "tp_cost_overflow p \<longleftrightarrow> unat (tp_cost p) = 2 ^ 32 - 1" by simp_all
qed

lemma edge_ends: "search_edge w pr a b k \<Longrightarrow> inv w \<and> shape_contains (wa_shape A) a \<and> tile_res w b \<and> 0 < k"
  unfolding search_edge_def using legal_probe by blast

lemma res_contained: "tile_res w c \<Longrightarrow> shape_contains (wa_shape A) c"
  by (simp add: tile_res_def)

lemma edge_consistent:
  assumes "search_edge w pr a b k"
  shows "estimate w pr goal a \<le> k + estimate w pr goal b"
proof (cases "shape_contains (wa_shape A) goal")
  case True
  note e = edge_ends [OF assms]
  have b: "shape_contains (wa_shape A) b" using e res_contained by blast
  obtain qs p where p: "for_each_forward A cls pr w a = Some qs" "p \<in> set qs" "tp_availability p = Legal"
    "tp_to p = b" "unat (tp_cost p) = k" using assms unfolding search_edge_def by blast
  obtain h h' where h: "heuristic (wa_shape A) (mc_policy cls) pr a goal = Some h" "unat h = estimate w pr goal a"
    "heuristic (wa_shape A) (mc_policy cls) pr b goal = Some h'" "unat h' = estimate w pr goal b"
    using heuristic_at [OF _ _ True] e b by metis
  show ?thesis
    using heuristic_consistent [OF conjunct1 [OF e] _ p(1-3) True _ h(1)] e b h p(4,5) by auto
qed (simp add: estimate_def)

sublocale search: best_first "search_edge w pr" "estimate w pr goal" start "2 ^ 32 - 1"
  for w pr goal start
  by unfold_locales (use edge_ends edge_consistent in auto)

text \<open>Walks from the start are paths of probes.\<close>

lemma path_walk:
  assumes "inv w" "probe_path A cls pr w c ps g" "search.walk w pr start c n"
  shows "search.walk w pr start g (n + path_cost ps)"
  using assms(2,3)
proof (induction arbitrary: n rule: probe_path.induct)
  case (path_step c qs p ps g)
  have "search_edge w pr c (tp_to p) (unat (tp_cost p))"
    using path_step.hyps assms(1) unfolding search_edge_def by blast
  from path_step.IH [OF search.walk_step [OF path_step.prems this]] show ?case by (simp add: add.assoc)
qed simp

lemma path_snoc:
  assumes "probe_path A cls pr w c ps a" "for_each_forward A cls pr w a = Some qs" "p \<in> set qs"
    "tp_availability p = Legal" "shape_contains (wa_shape A) (tp_to p)"
  shows "probe_path A cls pr w c (ps @ [p]) (tp_to p)"
  using assms
proof (induction rule: probe_path.induct)
  case (path_end c)
  then show ?case by (auto intro: probe_path.intros)
next
  case (path_step c qs' p' ps g)
  then show ?case using probe_path.path_step [OF path_step.hyps(1-4)] by simp
qed

end

end
