(* ===== verification/Search_Loop.thy ===== *)
theory Search_Loop imports Search_Laws begin

text \<open>
  The loop of the search refines the best-first search of \<open>Best_First\<close>: the coupling of its state
  with the abstract one, one probe, one turn, and the whole loop.
\<close>

context search_world
begin

subsection \<open>The coupling\<close>

definition closed_of :: "'w \<Rightarrow> path_scratch \<Rightarrow> coord3 set" where
  "closed_of w sc = {c. tile_res w c \<and> node_status sc (off w c) = Closed_node}"

definition dist_of :: "'w \<Rightarrow> path_scratch \<Rightarrow> coord3 \<Rightarrow> nat" where
  "dist_of w sc c = (if tile_res w c then node_dist sc (off w c) else 2 ^ 32 - 1)"

definition parent_of :: "'w \<Rightarrow> path_scratch \<Rightarrow> coord3 \<Rightarrow> coord3" where
  "parent_of w sc c = (if tile_res w c then tile_coord (wa_shape A) (as_parent sc ! off w c) else c)"

definition entries_of :: "'w \<Rightarrow> path_tie_break \<Rightarrow> path_scratch \<Rightarrow> (coord3 \<times> nat) set" where
  "entries_of w tie sc = {(c, g). tile_res w c
     \<and> (\<exists>e \<in> set (as_open sc). node_index tie e = index_of c \<and> unat (node_g e) = g)}"

definition entry_ok :: "'w \<Rightarrow> 'w provider \<Rightarrow> path_tie_break \<Rightarrow> coord3 \<Rightarrow> packed_open_node \<Rightarrow> bool" where
  "entry_ok w pr tie goal e \<longleftrightarrow> (\<exists>c. tile_res w c \<and> node_index tie e = index_of c
     \<and> unat (node_f e) = search.rated w pr goal c (unat (node_g e)))"

definition arrays_ok :: "'w \<Rightarrow> 'w provider \<Rightarrow> path_tie_break \<Rightarrow> coord3 \<Rightarrow> coord3 \<Rightarrow> path_scratch \<Rightarrow> bool" where
  "arrays_ok w pr tie start goal sc \<longleftrightarrow> scratch_ok sc \<and> length (as_generation sc) = cap w
     \<and> (\<forall>e \<in> set (as_open sc). entry_ok w pr tie goal e)
     \<and> (\<forall>c. tile_res w c \<and> c \<noteq> start \<and> dist_of w sc c < 2 ^ 32 - 1
          \<longrightarrow> (\<exists>p. tile_res w p \<and> as_parent sc ! off w c = index_of p))"

definition coupled :: "'w \<Rightarrow> 'w provider \<Rightarrow> path_tie_break \<Rightarrow> coord3 \<Rightarrow> coord3 \<Rightarrow> (coord3 \<times> nat) set option \<Rightarrow> coord3
    \<Rightarrow> path_scratch \<Rightarrow> bool \<Rightarrow> bool" where
  "coupled w pr tie start goal D p sc ov \<longleftrightarrow> arrays_ok w pr tie start goal sc
     \<and> search.searching w pr goal start D p (closed_of w sc) (dist_of w sc) (parent_of w sc) (entries_of w tie sc) ov"

lemma offD:
  assumes "inv w" "fits w" "arrays_ok w pr tie start goal sc" "tile_res w c"
  shows "\<exists>n. ns_offset N w (index_of c) = Some n \<and> ns_resident_offset N w (index_of c) = Some n
    \<and> unat n = off w c \<and> (wa_sparse A \<longrightarrow> n \<noteq> npos)
    \<and> unat n < length (as_generation sc) \<and> state_at sc n = Some (node_status sc (off w c))
    \<and> (\<exists>g. g_at sc n = Some g \<and> unat g = dist_of w sc c)"
proof -
  obtain n where n: "ns_offset N w (index_of c) = Some n" "ns_resident_offset N w (index_of c) = Some n"
    "unat n = off w c" "off w c < cap w" "wa_sparse A \<longrightarrow> n \<noteq> npos"
    using offset_at [OF assms(1,2,4)] by blast
  have "scratch_ok sc" "unat n < length (as_generation sc)" using assms(3) n(3,4) by (simp_all add: arrays_ok_def)
  from node_read [OF this] n assms(4) show ?thesis
    using \<open>unat n < _\<close> by (auto simp: dist_of_def)
qed

lemma probe_legality:
  assumes "inv w" "shape_contains (wa_shape A) c" "for_each_forward A cls pr w c = Some qs" "p \<in> set qs"
  shows "tp_availability p = Legal \<or> tp_availability p = MissingTopology"
proof -
  obtain ks where ks: "provider_forward pr w c = Some ks"
    using assms(3) by (cases "provider_forward pr w c") (simp_all add: for_each_forward_def bind_eq_None_conv)
  have "p \<in> set (concat (map (\<lambda>d. regular_probes w c d (shift c d)) (steps c)) @
      concat (map (\<lambda>k. special_probes w k (sc_to k)) ks))"
    using assms(3,4) forward_eq [OF assms(1,2) ks] by simp
  then have "(\<exists>d. p \<in> set (regular_probes w c d (shift c d))) \<or> (\<exists>k. p \<in> set (special_probes w k (sc_to k)))"
    by auto
  then show ?thesis
  proof (elim disjE exE)
    fix d assume "p \<in> set (regular_probes w c d (shift c d))"
    then show ?thesis
      by (cases "availability w c d") (auto simp: regular_probes_def missing_probe_def split: if_splits)
  next
    fix k assume "p \<in> set (special_probes w k (sc_to k))"
    then show ?thesis by (auto simp: special_probes_def missing_probe_def Let_def split: if_splits)
  qed
qed

subsection \<open>One probe\<close>

lemma improved_coupling:
  assumes iw: "inv w" "fits w" and ok: "arrays_ok w pr tie start goal sc" and b: "tile_res w b"
    and a: "tile_res w a" and f: "unat f = search.rated w pr goal b (unat g)" and nc: "b \<notin> closed_of w sc"
    and i: "improved sc (off w b) g (index_of a) (make_open_node (index_of b) g f tie) sc'"
  shows "arrays_ok w pr tie start goal sc'" "closed_of w sc' = closed_of w sc"
    "dist_of w sc' = (dist_of w sc)(b := unat g)" "parent_of w sc' = (parent_of w sc)(b := a)"
    "entries_of w tie sc' = insert (b, unat g) (entries_of w tie sc)"
proof -
  note I = i [unfolded improved_def]
  have off: "tile_res w c \<Longrightarrow> off w c = off w b \<longleftrightarrow> c = b" for c using off_inj [OF iw] b by blast
  have lt: "off w b < length (as_parent sc)"
    using off_bound [OF iw b] ok by (simp add: arrays_ok_def scratch_ok_def)
  show cl: "closed_of w sc' = closed_of w sc"
    using I nc b by (auto simp: closed_of_def off)
  show d: "dist_of w sc' = (dist_of w sc)(b := unat g)"
    using I b by (auto simp: dist_of_def off fun_eq_iff)
  have ix: "tile_coord (wa_shape A) (index_of a) = a" by (rule index_parts(3) [OF iw(1) res_contained [OF a]])
  have par: "tile_res w c \<Longrightarrow> as_parent sc' ! off w c = (if c = b then index_of a else as_parent sc ! off w c)" for c
    using I lt off [of c] by (cases "c = b") (simp_all add: nth_list_update eq_commute [of "off w b"])
  show "parent_of w sc' = (parent_of w sc)(b := a)"
    using par b by (auto simp: parent_of_def fun_eq_iff ix)
  show "entries_of w tie sc' = insert (b, unat g) (entries_of w tie sc)"
  proof -
    have "as_open sc' = make_open_node (index_of b) g f tie # as_open sc" using I by simp
    moreover have "tile_res w c \<Longrightarrow> index_of b = index_of c \<longleftrightarrow> c = b" for c
      using index_inj [OF iw(1) res_contained [OF b] res_contained, of w c] by auto
    ultimately show ?thesis using b by (auto simp: entries_of_def)
  qed
  have "entry_ok w pr tie goal (make_open_node (index_of b) g f tie)"
    using b f by (auto simp: entry_ok_def)
  then show "arrays_ok w pr tie start goal sc'"
    using ok I d par a unfolding arrays_ok_def by auto
qed

lemma relax_probe_coupling:
  assumes iw: "inv w" "fits w" and goal: "shape_contains (wa_shape A) goal"
    and cp: "coupled w pr tie start goal (Some D) c (ss_scratch st) (ss_cost_overflow st)"
    and c: "c \<in> closed_of w (ss_scratch st)" "unat g = dist_of w (ss_scratch st) c"
    and p: "for_each_forward A cls pr w c = Some qs" "p \<in> set qs"
  shows "\<exists>st'. relax_probe A cls N pr w tie goal (index_of c) g p st = Some st'
    \<and> coupled w pr tie start goal (Some (if tp_availability p = Legal then insert (tp_to p, unat (tp_cost p)) D else D)) c
        (ss_scratch st') (ss_cost_overflow st')
    \<and> closed_of w (ss_scratch st') = closed_of w (ss_scratch st)
    \<and> dist_of w (ss_scratch st') c = dist_of w (ss_scratch st) c
    \<and> as_path (ss_scratch st') = as_path (ss_scratch st)
    \<and> (ss_crossed_missing st' \<longleftrightarrow> ss_crossed_missing st \<or> tp_availability p = MissingTopology)"
proof -
  let ?sc = "ss_scratch st"
  have ok: "arrays_ok w pr tie start goal ?sc"
    and S: "search.searching w pr goal start (Some D) c (closed_of w ?sc) (dist_of w ?sc) (parent_of w ?sc)
      (entries_of w tie ?sc) (ss_cost_overflow st)"
    using cp by (simp_all add: coupled_def)
  have cr: "tile_res w c" using c(1) by (simp add: closed_of_def)
  note cin = res_contained [OF cr]
  show ?thesis
  proof (cases "tp_availability p = Legal")
    case False
    then have "tp_availability p = MissingTopology" using probe_legality [OF iw(1) cin p] by simp
    then show ?thesis using cp by (simp add: relax_probe_def)
  next
    case True
    note L = legal_probe [OF iw(1) cin p True]
    let ?b = "tp_to p" and ?k = "unat (tp_cost p)"
    have e: "search_edge w pr c ?b ?k"
      unfolding search_edge_def using iw(1) cin p True by blast
    obtain n known where n: "ns_resident_offset N w (index_of ?b) = Some n" "unat n = off w ?b"
      "wa_sparse A \<longrightarrow> n \<noteq> npos" "unat n < length (as_generation ?sc)"
      "state_at ?sc n = Some (node_status ?sc (unat n))" "g_at ?sc n = Some known" "unat known = dist_of w ?sc ?b"
      using offD [OF iw ok L(1)] by auto
    have np: "(wa_sparse A \<and> n = npos) = False" using n(3) by blast
    have closed: "node_status ?sc (unat n) = Closed_node \<longleftrightarrow> ?b \<in> closed_of w ?sc"
      using L(1) n(2) by (simp add: closed_of_def)
    have pass: "coupled w pr tie start goal (Some (insert (?b, ?k) D)) c ?sc ov'"
      if "?b \<in> closed_of w ?sc \<or> (if dist_of w ?sc c + ?k < 2 ^ 32 - 1 then dist_of w ?sc ?b \<le> dist_of w ?sc c + ?k else ov')"
        "ss_cost_overflow st \<longrightarrow> ov'" for ov'
      using search.pass_edge [OF S c(1) that] ok by (simp add: coupled_def)
    let ?t = "saturating_add_u32 g (tp_cost p)"
    have t: "unat ?t = min (2 ^ 32 - 1) (dist_of w ?sc c + ?k)" by (simp only: unat_saturating_add_u32 c(2))
    have tmax: "?t = u32_max \<longleftrightarrow> \<not> dist_of w ?sc c + ?k < 2 ^ 32 - 1"
      using t by (simp add: word_unat_eq_iff min_def)
    consider "tp_cost_overflow p" | "\<not> tp_cost_overflow p" "?b \<in> closed_of w ?sc"
      | "\<not> tp_cost_overflow p" "?b \<notin> closed_of w ?sc" "?t = u32_max"
      | "\<not> tp_cost_overflow p" "?b \<notin> closed_of w ?sc" "?t \<noteq> u32_max" "\<not> ?t < known"
      | "\<not> tp_cost_overflow p" "?b \<notin> closed_of w ?sc" "?t \<noteq> u32_max" "?t < known" by blast
    then show ?thesis
    proof cases
      case 1
      then have "\<not> dist_of w ?sc c + ?k < 2 ^ 32 - 1" using L(4) by simp
      then show ?thesis using 1 True pass [of True] by (simp add: relax_probe_def)
    next
      case 2
      then show ?thesis
        using True pass [of "ss_cost_overflow st"] n closed by (simp add: np relax_probe_def L(2))
    next
      case 3
      then show ?thesis
        using True pass [of True] n closed tmax by (simp add: np relax_probe_def L(2) Let_def)
    next
      case 4
      then have "dist_of w ?sc ?b \<le> dist_of w ?sc c + ?k"
        using t n(7) tmax by (simp add: word_less_nat_alt)
      then show ?thesis
        using 4 True pass [of "ss_cost_overflow st"] n closed tmax by (simp add: np relax_probe_def L(2) Let_def)
    next
      case 5
      have lt: "dist_of w ?sc c + ?k < 2 ^ 32 - 1" using 5(3) tmax by blast
      then have t': "unat ?t = dist_of w ?sc c + ?k" using t by simp
      obtain h where h: "heuristic (wa_shape A) (mc_policy cls) pr ?b goal = Some h" "unat h = estimate w pr goal ?b"
        using heuristic_at [OF iw(1) res_contained [OF L(1)] goal] by blast
      have f: "unat (saturating_add_u32 ?t h) = search.rated w pr goal ?b (unat ?t)"
        by (simp only: unat_saturating_add_u32 search.rated_def h(2))
      have sok: "scratch_ok ?sc" using ok by (simp add: arrays_ok_def)
      obtain sc' where sc': "improve_node A cls pr tie goal (index_of c) p n (node_status ?sc (unat n)) ?t ?sc = Some sc'"
        "improved ?sc (off w ?b) ?t (index_of c) (make_open_node (index_of ?b) ?t (saturating_add_u32 ?t h) tie) sc'"
        using improve_node_eq [where A = A and cls = cls and pr = pr and p = p and goal = goal, OF sok n(4) h(1)]
        unfolding n(2) L(2) by blast
      note I = improved_coupling [OF iw ok L(1) cr f 5(2) sc'(2)]
      have "dist_of w ?sc c + ?k < dist_of w ?sc ?b" using 5(4) t' n(7) by (simp add: word_less_nat_alt)
      from search.relax_edge [OF S c(1) e 5(2) lt this] have
        "coupled w pr tie start goal (Some (insert (?b, ?k) D)) c sc' (ss_cost_overflow st)"
        using I t' by (simp add: coupled_def)
      moreover have "dist_of w sc' c = dist_of w ?sc c" using I(3) 5(2) c(1) by auto
      moreover have "as_path sc' = as_path ?sc" using sc'(2) by (simp add: improved_def)
      ultimately show ?thesis
        using 5 True n closed I(2) sc'(1) by (simp add: np relax_probe_def L(2) Let_def)
    qed
  qed
qed

lemma relax_all_coupling:
  assumes iw: "inv w" "fits w" and goal: "shape_contains (wa_shape A) goal"
    and q: "for_each_forward A cls pr w c = Some qs" "set ps \<subseteq> set qs"
    and cp: "coupled w pr tie start goal (Some D) c (ss_scratch st) (ss_cost_overflow st)"
    and c: "c \<in> closed_of w (ss_scratch st)" "unat g = dist_of w (ss_scratch st) c"
  shows "\<exists>st'. fold_opt (relax_probe A cls N pr w tie goal (index_of c) g) ps st = Some st'
    \<and> coupled w pr tie start goal (Some (D \<union> {(tp_to p, unat (tp_cost p)) | p. p \<in> set ps \<and> tp_availability p = Legal})) c
        (ss_scratch st') (ss_cost_overflow st')
    \<and> closed_of w (ss_scratch st') = closed_of w (ss_scratch st)
    \<and> as_path (ss_scratch st') = as_path (ss_scratch st)
    \<and> (ss_crossed_missing st' \<longleftrightarrow> ss_crossed_missing st \<or> (\<exists>p \<in> set ps. tp_availability p = MissingTopology))"
  using q(2) cp c
proof (induction ps arbitrary: st D)
  case (Cons p ps)
  have p: "p \<in> set qs" using Cons.prems(1) by simp
  let ?D = "if tp_availability p = Legal then insert (tp_to p, unat (tp_cost p)) D else D"
  obtain st1 where st1: "relax_probe A cls N pr w tie goal (index_of c) g p st = Some st1"
    "coupled w pr tie start goal (Some ?D) c (ss_scratch st1) (ss_cost_overflow st1)"
    "closed_of w (ss_scratch st1) = closed_of w (ss_scratch st)"
    "dist_of w (ss_scratch st1) c = dist_of w (ss_scratch st) c"
    "as_path (ss_scratch st1) = as_path (ss_scratch st)"
    "ss_crossed_missing st1 \<longleftrightarrow> ss_crossed_missing st \<or> tp_availability p = MissingTopology"
    using relax_probe_coupling [OF iw goal Cons.prems(2-4) q(1) p] by blast
  have "?D \<union> {(tp_to q, unat (tp_cost q)) | q. q \<in> set ps \<and> tp_availability q = Legal}
      = D \<union> {(tp_to q, unat (tp_cost q)) | q. q \<in> set (p # ps) \<and> tp_availability q = Legal}" by auto
  moreover have "\<exists>st'. fold_opt (relax_probe A cls N pr w tie goal (index_of c) g) ps st1 = Some st'
    \<and> coupled w pr tie start goal (Some (?D \<union> {(tp_to p, unat (tp_cost p)) | p. p \<in> set ps \<and> tp_availability p = Legal})) c
        (ss_scratch st') (ss_cost_overflow st')
    \<and> closed_of w (ss_scratch st') = closed_of w (ss_scratch st1)
    \<and> as_path (ss_scratch st') = as_path (ss_scratch st1)
    \<and> (ss_crossed_missing st' \<longleftrightarrow> ss_crossed_missing st1 \<or> (\<exists>p \<in> set ps. tp_availability p = MissingTopology))"
    by (rule Cons.IH) (use Cons.prems st1 in simp_all)
  ultimately show ?case using st1 by (simp only: fold_opt.simps bind.bind_lunit) auto
qed simp

subsection \<open>Closing a node\<close>

lemma close_coupling:
  assumes iw: "inv w" "fits w" and ok: "arrays_ok w pr tie start goal sc" and c: "tile_res w c"
    and d: "dist_of w sc c < 2 ^ 32 - 1" and r: "set rest \<subseteq> set (as_open sc)"
    and sc2: "sc2 = sc\<lparr>as_open := rest, as_state := (as_state sc)[off w c := Closed_node]\<rparr>"
  shows "arrays_ok w pr tie start goal sc2" "closed_of w sc2 = insert c (closed_of w sc)"
    "dist_of w sc2 = dist_of w sc" "parent_of w sc2 = parent_of w sc"
proof -
  have off: "tile_res w a \<Longrightarrow> off w a = off w c \<longleftrightarrow> a = c" for a using off_inj [OF iw] c by blast
  have lt: "off w c < length (as_state sc)"
    using off_bound [OF iw c] ok by (simp add: arrays_ok_def scratch_ok_def)
  have cur: "as_generation sc ! off w c = as_epoch sc"
    using d c by (simp add: dist_of_def node_dist_def split: if_splits)
  have ns: "node_status sc2 = (node_status sc)(off w c := Closed_node)"
    using cur lt by (auto simp: node_status_def sc2 fun_eq_iff nth_list_update)
  show "closed_of w sc2 = insert c (closed_of w sc)"
    using c off by (auto simp: closed_of_def ns)
  show dd: "dist_of w sc2 = dist_of w sc"
    by (simp add: dist_of_def node_dist_def sc2 fun_eq_iff)
  show "parent_of w sc2 = parent_of w sc"
    by (simp add: parent_of_def sc2 fun_eq_iff)
  show "arrays_ok w pr tie start goal sc2"
    using ok r unfolding arrays_ok_def dd by (auto simp: sc2 scratch_ok_def)
qed

lemma entries_rest:
  assumes "node_index tie m = index_of c" "unat (node_g m) = g" "set (as_open sc) - {m} \<subseteq> set rest"
    "set rest \<subseteq> set (as_open sc)" "inv w" "tile_res w c"
  shows "entries_of w tie sc - {(c, g)} \<subseteq> entries_of w tie (sc\<lparr>as_open := rest, as_state := sts\<rparr>)"
    "entries_of w tie (sc\<lparr>as_open := rest, as_state := sts\<rparr>) \<subseteq> entries_of w tie sc"
proof -
  have "(a, n) \<in> entries_of w tie (sc\<lparr>as_open := rest, as_state := sts\<rparr>)"
    if an: "(a, n) \<in> entries_of w tie sc" "(a, n) \<noteq> (c, g)" for a n
  proof -
    obtain e where e: "e \<in> set (as_open sc)" "node_index tie e = index_of a" "unat (node_g e) = n" "tile_res w a"
      using an(1) by (auto simp: entries_of_def)
    have "e \<noteq> m"
    proof
      assume "e = m"
      then have "index_of a = index_of c" "n = g" using e assms(1,2) by simp_all
      with an(2) show False
        using index_inj [OF assms(5) res_contained [OF e(4)] res_contained [OF assms(6)]] by simp
    qed
    then have "e \<in> set rest" using e(1) assms(3) by blast
    with e show ?thesis by (auto simp: entries_of_def)
  qed
  then show "entries_of w tie sc - {(c, g)} \<subseteq> entries_of w tie (sc\<lparr>as_open := rest, as_state := sts\<rparr>)" by auto
  show "entries_of w tie (sc\<lparr>as_open := rest, as_state := sts\<rparr>) \<subseteq> entries_of w tie sc"
    using assms(4) by (auto simp: entries_of_def)
qed

subsection \<open>The way back\<close>

lemma walk_back_path:
  assumes iw: "inv w" "fits w" and cp: "coupled w pr tie start goal D q sc ov" and s: "tile_res w start"
    and a: "tile_res w a" "dist_of w sc a < 2 ^ 32 - 1"
  shows "\<exists>ps. probe_path A cls pr w start ps a \<and> path_cost ps = dist_of w sc a
    \<and> (\<forall>path. walk_back (wa_shape A) (ns_offset N) w (as_parent sc) (index_of start) (index_of a) path
         = Some (path @ rev (start # map tp_to ps)))"
  using a
proof (induction "dist_of w sc a" arbitrary: a rule: less_induct)
  case less
  have ok: "arrays_ok w pr tie start goal sc"
    and S: "search.searching w pr goal start D q (closed_of w sc) (dist_of w sc) (parent_of w sc) (entries_of w tie sc) ov"
    using cp by (simp_all add: coupled_def)
  note ix = index_parts(3) [OF iw(1) res_contained]
  show ?case
  proof (cases "a = start")
    case True
    have "probe_path A cls pr w start [] start" by (rule path_end [OF res_contained [OF s]])
    moreover have "dist_of w sc start = 0" using search.searchingD(1) [OF S] .
    ultimately show ?thesis
      using True by (intro exI [of _ "[]"]) (simp add: walk_back.simps [of _ _ _ _ "index_of start" "index_of start"] ix [OF s])
  next
    case False
    obtain b where b: "tile_res w b" "as_parent sc ! off w a = index_of b"
      using ok less.prems False unfolding arrays_ok_def by blast
    have pb: "parent_of w sc a = b" using less.prems(1) by (simp add: parent_of_def b(2) ix [OF b(1)])
    note P = search.searchingD(2) [OF S False less.prems(2), unfolded pb]
    obtain ps where ps: "probe_path A cls pr w start ps b" "path_cost ps = dist_of w sc b"
      "\<And>path. walk_back (wa_shape A) (ns_offset N) w (as_parent sc) (index_of start) (index_of b) path
         = Some (path @ rev (start # map tp_to ps))"
      using less.hyps [of b] b(1) P less.prems(2) by (metis less_trans)
    obtain qs p where p: "for_each_forward A cls pr w b = Some qs" "p \<in> set qs" "tp_availability p = Legal"
      "tp_to p = a" "unat (tp_cost p) = dist_of w sc a - dist_of w sc b"
      using P unfolding search_edge_def by blast
    have path: "probe_path A cls pr w start (ps @ [p]) a"
      using path_snoc [OF ps(1) p(1-3)] p(4) res_contained [OF less.prems(1)] by simp
    have cost: "path_cost (ps @ [p]) = dist_of w sc a" using ps(2) p(5) P by (simp add: path_cost_def)
    obtain n where n: "ns_offset N w (index_of a) = Some n" "unat n = off w a" "unat n < length (as_generation sc)"
      using offD [OF iw ok less.prems(1)] by blast
    have "nth_opt (as_parent sc) (unat n) = Some (index_of b)"
      using n ok b(2) by (simp add: arrays_ok_def scratch_ok_def)
    moreover have "index_of a \<noteq> index_of start"
      using index_inj [OF iw(1) res_contained [OF less.prems(1)] res_contained [OF s]] False by simp
    ultimately have "walk_back (wa_shape A) (ns_offset N) w (as_parent sc) (index_of start) (index_of a) path
        = Some (path @ rev (start # map tp_to (ps @ [p])))" for path
      by (simp add: walk_back.simps [of _ _ _ _ "index_of start" "index_of a"] n(1) ix [OF less.prems(1)] ps(3) p(4)
          del: nth_opt_Some)
    with path cost show ?thesis by blast
  qed
qed

end

end
