(* ===== verification/Search_Exact.thy ===== *)
theory Search_Exact imports Search_Loop begin

text \<open>
  What the loop of the search returns: a shortest route, or the reason why there is none. Every
  turn closes a tile or drops an entry of the open list, so the loop returns.
\<close>

definition best_route ::
    "('t, 'w) tile_api \<Rightarrow> 't movement_class \<Rightarrow> 'w provider \<Rightarrow> 'w \<Rightarrow> coord3 \<Rightarrow> coord3 \<Rightarrow> path_result \<Rightarrow> bool" where
  "best_route A cls pr w s g r \<longleftrightarrow> (\<exists>ps. probe_path A cls pr w s ps g
     \<and> pr_path r = s # map tp_to ps \<and> unat (pr_cost r) = min (2 ^ 32 - 1) (path_cost ps)
     \<and> (\<forall>qs. probe_path A cls pr w s qs g \<longrightarrow> path_cost ps \<le> path_cost qs))"

text \<open>No tile that can be reached has a neighbour that is not known.\<close>

definition closed_off :: "('t, 'w) tile_api \<Rightarrow> 't movement_class \<Rightarrow> 'w provider \<Rightarrow> 'w \<Rightarrow> coord3 \<Rightarrow> bool" where
  "closed_off A cls pr w s \<longleftrightarrow> (\<forall>a ps qs p. probe_path A cls pr w s ps a \<and> for_each_forward A cls pr w a = Some qs
     \<and> p \<in> set qs \<longrightarrow> tp_availability p \<noteq> MissingTopology)"

definition unusable :: "('t, 'w) tile_api \<Rightarrow> 't movement_class \<Rightarrow> 'w \<Rightarrow> coord3 \<Rightarrow> bool" where
  "unusable A cls w c \<longleftrightarrow> is_passable A cls w c = Some False
     \<or> Option.bind (tile_index (wa_shape A) c) (tile_entry_cost_index A cls w) = Some 0"

definition exact_answer ::
    "('t, 'w) tile_api \<Rightarrow> 't movement_class \<Rightarrow> 'w provider \<Rightarrow> 'w \<Rightarrow> missing_chunk_policy \<Rightarrow> coord3 \<Rightarrow> coord3
     \<Rightarrow> path_result \<Rightarrow> bool" where
  "exact_answer A cls pr w policy s g r \<longleftrightarrow>
     (case pr_status r of
        Found \<Rightarrow> best_route A cls pr w s g r
      | NoPath \<Rightarrow> (\<forall>ps. \<not> probe_path A cls pr w s ps g)
          \<and> (wa_sparse A \<and> policy = ReportIndeterminate \<longrightarrow> closed_off A cls pr w s)
      | CostOverflow \<Rightarrow> (\<forall>ps. probe_path A cls pr w s ps g \<longrightarrow> 2 ^ 32 - 1 \<le> path_cost ps)
      | Indeterminate \<Rightarrow> wa_sparse A \<and> policy = ReportIndeterminate
      | InvalidStart \<Rightarrow> unusable A cls w s
      | InvalidGoal \<Rightarrow> unusable A cls w g
      | NotComputed \<Rightarrow> False
      | NoCandidate \<Rightarrow> False)"

context search_world
begin

definition loop_ok :: "'w \<Rightarrow> 'w provider \<Rightarrow> path_tie_break \<Rightarrow> coord3 \<Rightarrow> coord3 \<Rightarrow> search_state \<Rightarrow> bool" where
  "loop_ok w pr tie start goal st \<longleftrightarrow> coupled w pr tie start goal None start (ss_scratch st) (ss_cost_overflow st)
     \<and> goal \<notin> closed_of w (ss_scratch st) \<and> as_path (ss_scratch st) = []
     \<and> (\<not> ss_crossed_missing st \<longrightarrow> (\<forall>a \<in> closed_of w (ss_scratch st). \<forall>qs p.
          for_each_forward A cls pr w a = Some qs \<and> p \<in> set qs \<longrightarrow> tp_availability p \<noteq> MissingTopology))"

definition open_tiles :: "'w \<Rightarrow> path_scratch \<Rightarrow> coord3 set" where
  "open_tiles w sc = {c. tile_res w c \<and> c \<notin> closed_of w sc}"

lemma finite_open: "inv w \<Longrightarrow> finite (open_tiles w sc)"
  by (rule finite_subset [OF _ finite_tiles [OF shape_ok]]) (auto simp: open_tiles_def tile_res_def)

lemma forward_at:
  assumes "inv w" "shape_contains (wa_shape A) c" "provider_forward pr w c \<noteq> None"
  shows "\<exists>qs. for_each_forward A cls pr w c = Some qs"
  using assms forward_eq [OF assms(1,2)] by auto

lemma reached_res:
  assumes "inv w" "tile_res w start" "search.walk w pr start a n"
  shows "tile_res w a"
  using assms(3) by (induction rule: search.walk.induct) (use assms(1,2) edge_ends in auto)

lemma path_walk_start:
  "inv w \<Longrightarrow> probe_path A cls pr w start ps a \<Longrightarrow> search.walk w pr start a (path_cost ps)"
  using path_walk [of w pr start ps a start 0] search.walk_start by simp

text \<open>The end of the search with an empty open list.\<close>

lemma exhausted_answer:
  assumes iw: "inv w" and ok: "loop_ok w pr tie start goal st" and e: "as_open (ss_scratch st) = []"
    and g: "shape_contains (wa_shape A) goal"
    and r: "pr_status r = (if wa_sparse A \<and> ss_crossed_missing st \<and> policy = ReportIndeterminate then Indeterminate
             else if ss_cost_overflow st then CostOverflow else NoPath)"
  shows "exact_answer A cls pr w policy start goal r"
proof -
  let ?sc = "ss_scratch st"
  have S: "search.search_inv w pr goal start (closed_of w ?sc) (dist_of w ?sc) (parent_of w ?sc) {} (ss_cost_overflow st)"
    using ok e by (simp add: loop_ok_def coupled_def entries_of_def)
  have nc: "goal \<notin> closed_of w ?sc" using ok by (simp add: loop_ok_def)
  have reach: "a \<in> closed_of w ?sc" if "\<not> ss_cost_overflow st" "probe_path A cls pr w start ps a" for a ps
    using search.exhausted [of w pr goal start] S that path_walk_start [OF iw that(2)] by simp
  have "2 ^ 32 - 1 \<le> path_cost ps" if "probe_path A cls pr w start ps goal" for ps
    using search.exhausted_limit [OF S nc estimate_goal [OF iw g] path_walk_start [OF iw that]] .
  moreover have "\<not> probe_path A cls pr w start ps goal" if "\<not> ss_cost_overflow st" for ps
    using reach [OF that] nc by blast
  moreover have "closed_off A cls pr w start"
    if "\<not> ss_cost_overflow st" "\<not> ss_crossed_missing st"
    using ok reach [OF that(1)] that(2) unfolding closed_off_def loop_ok_def by blast
  ultimately show ?thesis using r unfolding exact_answer_def by auto
qed

text \<open>The end of the search at the goal.\<close>

lemma found_answer:
  assumes iw: "inv w" "fits w" and s: "tile_res w start" and g: "tile_res w goal"
    and cp: "coupled w pr tie start goal D q sc ov" and c: "goal \<in> closed_of w sc"
    and p: "as_path sc = []"
  shows "\<exists>way. walk_back (wa_shape A) (ns_offset N) w (as_parent sc) (index_of start) (index_of goal) (as_path sc) = Some way
    \<and> (\<forall>r. pr_status r = Found \<and> pr_path r = rev way \<and> unat (pr_cost r) = dist_of w sc goal
         \<longrightarrow> exact_answer A cls pr w policy start goal r)"
proof -
  have S: "search.searching w pr goal start D q (closed_of w sc) (dist_of w sc) (parent_of w sc) (entries_of w tie sc) ov"
    using cp by (simp add: coupled_def)
  have lt: "dist_of w sc goal < 2 ^ 32 - 1" by (rule search.searchingD(5) [OF S c])
  obtain ps where ps: "probe_path A cls pr w start ps goal" "path_cost ps = dist_of w sc goal"
    "walk_back (wa_shape A) (ns_offset N) w (as_parent sc) (index_of start) (index_of goal) (as_path sc)
      = Some (rev (start # map tp_to ps))"
    using walk_back_path [OF iw cp s g lt] p by auto
  have "path_cost ps \<le> path_cost qs" if "probe_path A cls pr w start qs goal" for qs
    using search.searchingD(9) [OF S c path_walk_start [OF iw(1) that]] estimate_goal [OF iw(1) res_contained [OF g]]
      ps(2) lt by auto
  then show ?thesis
    using ps lt unfolding exact_answer_def best_route_def by (intro exI [of _ "rev (start # map tp_to ps)"]) auto
qed

subsection \<open>One turn\<close>

lemma turn_ok:
  fixes policy :: missing_chunk_policy
  assumes iw: "inv w" "fits w" and s: "tile_res w start" and g: "tile_res w goal"
    and pv: "\<forall>c. tile_res w c \<longrightarrow> provider_forward pr w c \<noteq> None"
    and ok: "loop_ok w pr tie start goal st"
  defines "turn \<equiv> search_turn A cls N pr w policy tie goal (index_of start) (index_of goal)"
  shows "(\<exists>r sc'. turn st = Some (Inl (r, sc')) \<and> exact_answer A cls pr w policy start goal r \<and> scratch_ok sc')
    \<or> (\<exists>st'. turn st = Some (Inr st') \<and> loop_ok w pr tie start goal st'
        \<and> (open_tiles w (ss_scratch st') \<subset> open_tiles w (ss_scratch st)
           \<or> open_tiles w (ss_scratch st') = open_tiles w (ss_scratch st)
             \<and> length (as_open (ss_scratch st')) < length (as_open (ss_scratch st))))"
proof -
  let ?sc = "ss_scratch st" and ?ov = "ss_cost_overflow st"
  have cp: "coupled w pr tie start goal None start ?sc ?ov" and ng: "goal \<notin> closed_of w ?sc" and path: "as_path ?sc = []"
    using ok by (simp_all add: loop_ok_def)
  have arr: "arrays_ok w pr tie start goal ?sc" and S: "search.search_inv w pr goal start (closed_of w ?sc)
      (dist_of w ?sc) (parent_of w ?sc) (entries_of w tie ?sc) ?ov"
    using cp by (simp_all add: coupled_def)
  have gc: "shape_contains (wa_shape A) goal" by (rule res_contained [OF g])
  show ?thesis
  proof (cases "pop_open (as_open ?sc)")
    case None
    let ?r = "make_result (mc_policy cls)
      (if wa_sparse A \<and> ss_crossed_missing st \<and> policy = ReportIndeterminate then Indeterminate
       else if ss_cost_overflow st then CostOverflow else NoPath) 0 (ss_expanded st) (as_touched ?sc) (as_path ?sc)"
    have "turn st = Some (Inl (?r, ?sc))"
      by (simp add: turn_def search_turn_def Let_def None del: pop_open_None)
    moreover have "exact_answer A cls pr w policy start goal ?r"
      by (rule exhausted_answer [OF iw(1) ok _ gc]) (use None in \<open>simp_all add: make_result_def\<close>)
    moreover have "scratch_ok ?sc" using arr by (simp add: arrays_ok_def)
    ultimately show ?thesis by blast
  next
    case (Some x)
    then obtain m rest where pop: "pop_open (as_open ?sc) = Some (m, rest)" by (cases x) simp
    note P = pop_open_Some [OF pop]
    obtain c where c: "tile_res w c" "node_index tie m = index_of c"
      "unat (node_f m) = search.rated w pr goal c (unat (node_g m))"
      using arr P(1) unfolding arrays_ok_def entry_ok_def by blast
    let ?sc1 = "?sc\<lparr>as_open := rest\<rparr>"
    have arr1: "arrays_ok w pr tie start goal ?sc1"
      using arr P(4) by (auto simp: arrays_ok_def scratch_ok_def dist_of_def node_dist_def)
    obtain n known where n: "ns_offset N w (index_of c) = Some n" "unat n = off w c" "unat n < length (as_generation ?sc1)"
      "state_at ?sc1 n = Some (node_status ?sc1 (off w c))" "g_at ?sc1 n = Some known" "unat known = dist_of w ?sc1 c"
      using offD [OF iw arr1 c(1)] by blast
    have same: "node_status ?sc1 = node_status ?sc" "dist_of w ?sc1 = dist_of w ?sc" "closed_of w ?sc1 = closed_of w ?sc"
      "parent_of w ?sc1 = parent_of w ?sc"
      by (simp_all add: node_status_def dist_of_def node_dist_def closed_of_def parent_of_def fun_eq_iff)
    have closed: "node_status ?sc (off w c) = Closed_node \<longleftrightarrow> c \<in> closed_of w ?sc" using c(1) by (simp add: closed_of_def)
    have current: "node_g m \<noteq> known \<longleftrightarrow> unat (node_g m) \<noteq> dist_of w ?sc c"
      using n(6) by (auto simp: same word_unat_eq_iff)
    have inE: "(c, unat (node_g m)) \<in> entries_of w tie ?sc" using c P(1) by (auto simp: entries_of_def)
    have E: "entries_of w tie ?sc - {(c, unat (node_g m))} \<subseteq> entries_of w tie (?sc\<lparr>as_open := rest, as_state := sts\<rparr>)"
      "entries_of w tie (?sc\<lparr>as_open := rest, as_state := sts\<rparr>) \<subseteq> entries_of w tie ?sc" for sts
      using entries_rest [OF c(2) refl P(3,4) iw(1) c(1)] by blast+
    show ?thesis
    proof (cases "c \<in> closed_of w ?sc \<or> unat (node_g m) \<noteq> dist_of w ?sc c")
      case True
      let ?st = "st\<lparr>ss_scratch := ?sc1\<rparr>"
      have t: "turn st = Some (Inr ?st)"
        using True n closed current by (simp add: turn_def search_turn_def Let_def pop c(2) same)
      have e1: "entries_of w tie ?sc1 = entries_of w tie (?sc\<lparr>as_open := rest, as_state := as_state ?sc\<rparr>)"
        by (simp add: entries_of_def)
      have "search.search_inv w pr goal start (closed_of w ?sc) (dist_of w ?sc) (parent_of w ?sc) (entries_of w tie ?sc1) ?ov"
      proof (rule search.skip_entry [OF S])
        show "entries_of w tie ?sc1 \<subseteq> entries_of w tie ?sc" using E(2) unfolding e1 .
        fix a h assume "(a, h) \<in> entries_of w tie ?sc - entries_of w tie ?sc1"
        then have "(a, h) = (c, unat (node_g m))" using E(1) unfolding e1 by blast
        with True show "a \<in> closed_of w ?sc \<or> h \<noteq> dist_of w ?sc a" by auto
      qed
      then have "loop_ok w pr tie start goal ?st"
        using ok arr1 by (simp add: loop_ok_def coupled_def same, blast)
      moreover have "open_tiles w ?sc1 = open_tiles w ?sc" by (simp add: open_tiles_def same)
      ultimately show ?thesis using t P(5) by simp
    next
      case False
      define sts where "sts = (as_state ?sc)[off w c := Closed_node]"
      define sc2 where "sc2 = ?sc\<lparr>as_open := rest, as_state := sts\<rparr>"
      have dl: "dist_of w ?sc c < 2 ^ 32 - 1"
        using search.searchingD(4) [OF S inE] False by simp
      note C = close_coupling [OF iw arr c(1) dl P(4) sc2_def [unfolded sts_def]]
      have least: "search.rated w pr goal c (dist_of w ?sc c) \<le> search.rated w pr goal a h"
        if ah: "(a, h) \<in> entries_of w tie ?sc" for a h
      proof -
        obtain e where e: "e \<in> set (as_open ?sc)" "node_index tie e = index_of a" "unat (node_g e) = h" "tile_res w a"
          using ah by (auto simp: entries_of_def)
        obtain a' where a': "tile_res w a'" "node_index tie e = index_of a'"
          "unat (node_f e) = search.rated w pr goal a' (unat (node_g e))"
          using arr e(1) unfolding arrays_ok_def entry_ok_def by blast
        have "a' = a"
          using a'(2) e(2) index_inj [OF iw(1) res_contained [OF a'(1)] res_contained [OF e(4)]] by simp
        moreover have "unat (node_f m) \<le> unat (node_f e)" using P(2) [OF e(1)] by (simp add: word_le_nat_alt)
        ultimately show ?thesis using False a'(3) c(3) e(3) by simp
      qed
      have cE: "(c, dist_of w ?sc c) \<in> entries_of w tie ?sc" "c \<notin> closed_of w ?sc" using inE False by auto
      have "search.searching w pr goal start (Some {}) c (insert c (closed_of w ?sc)) (dist_of w ?sc) (parent_of w ?sc)
          (entries_of w tie sc2) ?ov"
      proof (rule search.close_node [OF S cE])
        show "entries_of w tie ?sc - {(c, dist_of w ?sc c)} \<subseteq> entries_of w tie sc2"
          "entries_of w tie sc2 \<subseteq> entries_of w tie ?sc"
          using E [of sts] False unfolding sc2_def by auto
      qed (rule least)
      then have cp2: "coupled w pr tie start goal (Some {}) c sc2 ?ov"
        using C by (simp add: coupled_def)
      have upd: "upd_opt (as_state ?sc) (unat n) Closed_node = Some sts"
        using n(2,3) arr by (simp add: upd_opt_def sts_def arrays_ok_def scratch_ok_def)
      have go: "\<not> (node_status ?sc (off w c) = Closed_node \<or> node_g m \<noteq> known)" using False closed current by blast
      have gd: "unat (node_g m) = dist_of w sc2 c" using False C(3) by simp
      have cc: "c \<in> closed_of w sc2" using C(2) by simp
      have path2: "as_path sc2 = []" using path by (simp add: sc2_def)
      show ?thesis
      proof (cases "c = goal")
        case True
        have gcl: "goal \<in> closed_of w sc2" using cc True by simp
        obtain way where way: "walk_back (wa_shape A) (ns_offset N) w (as_parent sc2) (index_of start) (index_of goal) (as_path sc2) = Some way"
          "\<And>r. pr_status r = Found \<Longrightarrow> pr_path r = rev way \<Longrightarrow> unat (pr_cost r) = dist_of w sc2 goal
             \<Longrightarrow> exact_answer A cls pr w policy start goal r"
          using found_answer [OF iw s g cp2 gcl path2] by blast
        let ?sc3 = "sc2\<lparr>as_path := rev way\<rparr>"
        let ?r = "make_result (mc_policy cls) Found (node_g m) (ss_expanded st + 1) (as_touched ?sc3) (as_path ?sc3)"
        have "turn st = Some (Inl (?r, ?sc3))"
          using n(1,4,5) go way(1) True
          by (simp add: turn_def search_turn_def Let_def pop c(2) same upd sc2_def del: upd_opt_Some)
        moreover have "exact_answer A cls pr w policy start goal ?r"
          by (rule way(2)) (use gd True in \<open>simp_all add: make_result_def\<close>)
        moreover have "scratch_ok ?sc3" using C(1) by (simp add: arrays_ok_def scratch_ok_def)
        ultimately show ?thesis by blast
      next
        case neq: False
        have ne: "index_of c \<noteq> index_of goal"
          using index_inj [OF iw(1) res_contained [OF c(1)] gc] neq by simp
        obtain qs where qs: "for_each_forward A cls pr w c = Some qs"
          using forward_at [OF iw(1) res_contained [OF c(1)] pv [rule_format, OF c(1)]] by blast
        let ?st2 = "st\<lparr>ss_scratch := sc2, ss_expanded := ss_expanded st + 1\<rparr>"
        let ?D = "{} \<union> {(tp_to p, unat (tp_cost p)) | p. p \<in> set qs \<and> tp_availability p = Legal}"
        have "coupled w pr tie start goal (Some {}) c (ss_scratch ?st2) (ss_cost_overflow ?st2)"
          "c \<in> closed_of w (ss_scratch ?st2)" "unat (node_g m) = dist_of w (ss_scratch ?st2) c"
          using cp2 cc gd by simp_all
        from relax_all_coupling [OF iw gc qs subset_refl this] obtain st' where
          f: "fold_opt (relax_probe A cls N pr w tie goal (index_of c) (node_g m)) qs ?st2 = Some st'"
          and cp': "coupled w pr tie start goal (Some ?D) c (ss_scratch st') (ss_cost_overflow st')"
          and cl: "closed_of w (ss_scratch st') = closed_of w (ss_scratch ?st2)"
          and pa: "as_path (ss_scratch st') = as_path (ss_scratch ?st2)"
          and cr: "ss_crossed_missing st' \<longleftrightarrow> ss_crossed_missing ?st2 \<or> (\<exists>p \<in> set qs. tp_availability p = MissingTopology)"
          by blast
        have t: "turn st = Some (Inr st')"
          using n(1,4,5) go qs f ne
          by (simp add: turn_def search_turn_def Let_def pop c(2) same upd sc2_def index_parts(3) [OF iw(1) res_contained [OF c(1)]]
              del: upd_opt_Some)
        have edges: "(b, k) \<in> ?D" if "search_edge w pr c b k" for b k
          using that qs unfolding search_edge_def by auto
        have S': "search.searching w pr goal start (Some ?D) c (closed_of w (ss_scratch st')) (dist_of w (ss_scratch st'))
            (parent_of w (ss_scratch st')) (entries_of w tie (ss_scratch st')) (ss_cost_overflow st')"
          using cp' by (simp add: coupled_def)
        have "coupled w pr tie start goal None start (ss_scratch st') (ss_cost_overflow st')"
          using search.expanded [OF S' edges] cp' by (simp add: coupled_def)
        moreover have cl': "closed_of w (ss_scratch st') = insert c (closed_of w ?sc)" using cl C(2) by simp
        ultimately have "loop_ok w pr tie start goal st'"
          using ok neq pa path2 cr qs by (auto simp: loop_ok_def)
        moreover have "open_tiles w (ss_scratch st') \<subset> open_tiles w ?sc"
          using c(1) cE(2) cl' by (auto simp: open_tiles_def)
        ultimately show ?thesis using t by blast
      qed
    qed
  qed
qed

subsection \<open>The loop\<close>

lemma loop_returns:
  fixes policy :: missing_chunk_policy
  assumes iw: "inv w" "fits w" and s: "tile_res w start" and g: "tile_res w goal"
    and pv: "\<forall>c. tile_res w c \<longrightarrow> provider_forward pr w c \<noteq> None"
    and ok: "loop_ok w pr tie start goal st"
  shows "\<exists>r sc'. search_loop (search_turn A cls N pr w policy tie goal (index_of start) (index_of goal)) st = Some (r, sc')
    \<and> exact_answer A cls pr w policy start goal r \<and> scratch_ok sc'"
  using ok
proof (induction st rule: wf_induct_rule [where r = "measures [\<lambda>st. card (open_tiles w (ss_scratch st)),
      \<lambda>st. length (as_open (ss_scratch st))]", OF wf_measures])
  case (1 st)
  let ?turn = "search_turn A cls N pr w policy tie goal (index_of start) (index_of goal)"
  show ?case
    using turn_ok [OF iw s g pv 1(2), where policy = policy]
  proof (elim disjE exE conjE)
    fix r sc' assume "?turn st = Some (Inl (r, sc'))" "exact_answer A cls pr w policy start goal r" "scratch_ok sc'"
    then show ?thesis by (simp add: search_loop.simps [of _ st])
  next
    fix st' assume t: "?turn st = Some (Inr st')" and ok': "loop_ok w pr tie start goal st'"
      and "open_tiles w (ss_scratch st') \<subset> open_tiles w (ss_scratch st)"
    then have "card (open_tiles w (ss_scratch st')) < card (open_tiles w (ss_scratch st))"
      using psubset_card_mono [OF finite_open [OF iw(1)]] by blast
    then show ?thesis using 1(1) [OF _ ok'] t by (simp add: search_loop.simps [of _ st])
  next
    fix st' assume t: "?turn st = Some (Inr st')" and ok': "loop_ok w pr tie start goal st'"
      and "open_tiles w (ss_scratch st') = open_tiles w (ss_scratch st)"
        "length (as_open (ss_scratch st')) < length (as_open (ss_scratch st))"
    then show ?thesis using 1(1) [OF _ ok'] t by (simp add: search_loop.simps [of _ st])
  qed
qed

text \<open>The first state of the search on a scratch in which no node is current.\<close>

lemma initial_coupled:
  assumes iw: "inv w" "fits w" and s: "tile_res w start"
    and sc: "scratch_ok sc" "as_epoch sc \<notin> set (as_generation sc)" "length (as_generation sc) = cap w"
    and h: "unat h = estimate w pr goal start"
    and sc': "sc' = sc\<lparr>as_open := [make_open_node (index_of start) 0 h tie],
      as_generation := (as_generation sc)[off w start := as_epoch sc],
      as_state := (as_state sc)[off w start := Open_node], as_g := (as_g sc)[off w start := 0], as_touched := t\<rparr>"
  shows "coupled w pr tie start goal None start sc' ov" "closed_of w sc' = {}"
proof -
  have off: "tile_res w a \<Longrightarrow> off w a = off w start \<longleftrightarrow> a = start" for a using off_inj [OF iw] s by blast
  have lt: "tile_res w a \<Longrightarrow> off w a < length (as_generation sc)" for a using off_bound [OF iw] sc(3) by simp
  have len: "length (as_state sc) = length (as_generation sc)" "length (as_g sc) = length (as_generation sc)"
    using sc(1) by (simp_all add: scratch_ok_def)
  have old: "tile_res w a \<Longrightarrow> as_generation sc ! off w a \<noteq> as_epoch sc" for a
    using lt sc(2) by (metis nth_mem)
  have ns: "tile_res w a \<Longrightarrow> node_status sc' (off w a) = (if a = start then Open_node else Unseen_node)" for a
    using lt [of a] old [of a] off [of a] len by (auto simp: node_status_def sc' nth_list_update)
  show cl: "closed_of w sc' = {}" using ns by (auto simp: closed_of_def)
  have d: "dist_of w sc' = (\<lambda>a. if a = start then 0 else 2 ^ 32 - 1)"
  proof (rule ext)
    fix a
    show "dist_of w sc' a = (if a = start then 0 else 2 ^ 32 - 1)"
      using lt [of a] old [of a] off [of a] len s
      by (cases "tile_res w a") (auto simp: dist_of_def node_dist_def sc' nth_list_update)
  qed
  have E: "entries_of w tie sc' = {(start, 0)}"
  proof -
    have "tile_res w c \<Longrightarrow> index_of start = index_of c \<longleftrightarrow> c = start" for c
      using index_inj [OF iw(1) res_contained [OF s] res_contained, of w c] by auto
    then show ?thesis using s by (auto simp: entries_of_def sc')
  qed
  have "search.rated w pr goal start 0 = min (2 ^ 32 - 1) (estimate w pr goal start)"
    unfolding search.rated_def by simp
  then have e: "entry_ok w pr tie goal (make_open_node (index_of start) 0 h tie)"
    using s h u32_bound [of h] by (auto simp: entry_ok_def)
  have "scratch_ok sc'"
    using sc(1) by (auto simp: scratch_ok_def sc' dest!: set_update_subset_insert [THEN subsetD])
  then have "arrays_ok w pr tie start goal sc'"
    using e sc(3) by (simp add: arrays_ok_def d) (simp add: sc')
  then show "coupled w pr tie start goal None start sc' ov"
    using search.initial by (simp add: coupled_def cl E d)
qed

lemma search_from_exact:
  assumes iw: "inv w" "fits w" and s: "tile_res w (pq_start q)" and g: "tile_res w (pq_goal q)"
    and pv: "\<forall>c. tile_res w c \<longrightarrow> provider_forward pr w c \<noteq> None"
    and sc: "scratch_ok sc" "as_epoch sc \<notin> set (as_generation sc)" "as_open sc = []" "as_path sc = []"
  shows "\<exists>r sc'. search_from A cls N pr w policy tie q (index_of (pq_start q)) (index_of (pq_goal q)) sc = Some (r, sc')
    \<and> exact_answer A cls pr w policy (pq_start q) (pq_goal q) r \<and> scratch_ok sc'"
proof -
  let ?s = "pq_start q" and ?g = "pq_goal q"
  obtain nodes where nodes: "ns_capacity_hint N w = Some nodes" "unat nodes = cap w"
    using space_capacity [OF iw] by blast
  define sc1 where "sc1 = resize_scratch nodes sc"
  have R: "scratch_ok sc1" "as_epoch sc1 \<notin> set (as_generation sc1)" "length (as_generation sc1) = cap w"
    "as_open sc1 = []" "as_path sc1 = []"
    using resize_scratch_fresh [OF sc(1,2), of nodes] sc(3,4) nodes(2) by (simp_all add: sc1_def)
  obtain n where n: "ns_offset N w (index_of ?s) = Some n" "unat n = off w ?s" "off w ?s < cap w"
    using offset_at [OF iw s] by blast
  obtain h where h: "heuristic (wa_shape A) (mc_policy cls) pr ?s ?g = Some h" "unat h = estimate w pr ?g ?s"
    using heuristic_at [OF iw(1) res_contained [OF s] res_contained [OF g]] by blast
  define sc' where "sc' = sc1\<lparr>as_open := [make_open_node (index_of ?s) 0 h tie],
      as_generation := (as_generation sc1)[off w ?s := as_epoch sc1],
      as_state := (as_state sc1)[off w ?s := Open_node], as_g := (as_g sc1)[off w ?s := 0], as_touched := as_touched sc1 + 1\<rparr>"
  note I = initial_coupled [OF iw s R(1-3) h(2) sc'_def]
  let ?st = "\<lparr>ss_scratch = sc', ss_expanded = 0, ss_crossed_missing = False, ss_cost_overflow = False\<rparr>"
  have "loop_ok w pr tie ?s ?g ?st"
    using I R(5) by (simp add: loop_ok_def sc'_def)
  from loop_returns [OF iw s g pv this, where policy = policy] have
    "\<exists>r sc2. search_loop (search_turn A cls N pr w policy tie ?g (index_of ?s) (index_of ?g)) ?st = Some (r, sc2)
      \<and> exact_answer A cls pr w policy ?s ?g r \<and> scratch_ok sc2" .
  moreover have "search_from A cls N pr w policy tie q (index_of ?s) (index_of ?g) sc
      = search_loop (search_turn A cls N pr w policy tie ?g (index_of ?s) (index_of ?g)) ?st"
    using n R(1,3,4) h(1)
    by (simp add: search_from_def nodes(1) sc1_def [symmetric] scratch_ok_def upd_opt_def touch_node_def push_open_def
        sc'_def Let_def, cases sc1, simp)
  ultimately show ?thesis by simp
qed

end

end
