(* ===== verification/Search_Direct.thy ===== *)
theory Search_Direct imports Search_Exact begin

text \<open>
  The straight and the once bent routes the search tries first in an always-resident orthogonal
  world (\<open>weighted_astar_path\<close>, before the open list): a straight route of unit tiles is a shortest
  route, and when a straight line is interrupted, so is one that goes around it by one tile.
\<close>

subsection \<open>Distances along the axes\<close>

definition tile_gap :: "coord3 \<Rightarrow> coord3 \<Rightarrow> int" where
  "tile_gap a b = \<bar>sint (co_x a) - sint (co_x b)\<bar> + \<bar>sint (co_y a) - sint (co_y b)\<bar> + \<bar>sint (co_z a) - sint (co_z b)\<bar>"

lemma tile_gap_basic [simp]: "tile_gap a a = 0" "0 \<le> tile_gap a b"
  by (simp_all add: tile_gap_def)

lemma tile_gap_triangle: "tile_gap a c \<le> tile_gap a b + tile_gap b c"
  unfolding tile_gap_def by linarith

lemma tile_gap_sym: "tile_gap a b = tile_gap b a"
  unfolding tile_gap_def by linarith

lemma tile_gap_zero: "tile_gap a b = 0 \<longleftrightarrow> a = b"
proof
  assume "tile_gap a b = 0"
  then have "sint (co_x a) = sint (co_x b)" "sint (co_y a) = sint (co_y b)" "sint (co_z a) = sint (co_z b)"
    unfolding tile_gap_def by linarith+
  then show "a = b" using i64_eqI by (cases a; cases b) auto
qed simp

lemma unat_path_manhattan: "unat (path_manhattan a b) = min (2 ^ 32 - 1) (nat (tile_gap a b))"
proof -
  have "path_manhattan a b = clamp_distance (manhattan_distance a b)"
    by (simp add: path_manhattan_def clamp_distance_def Let_def)
  then have "int (unat (path_manhattan a b)) = min (2 ^ 32 - 1) (tile_gap a b)"
    using clamp_distance_int [OF manhattan_distance_nat, of a b] by (simp add: tile_gap_def del: of_nat_unat)
  moreover have "int (min (2 ^ 32 - 1) (nat (tile_gap a b))) = min (2 ^ 32 - 1) (tile_gap a b)"
    unfolding of_nat_min by simp
  ultimately have "int (unat (path_manhattan a b)) = int (min (2 ^ 32 - 1) (nat (tile_gap a b)))" by simp
  then show ?thesis by (simp only: of_nat_eq_iff)
qed

lemma gap_toward:
  assumes "axis_of m c \<noteq> axis_of m g"
  shows "tile_gap c g = tile_gap (step_toward m g c) g + 1" "tile_gap c (step_toward m g c) = 1"
proof -
  have "sint (axis_of m c) \<noteq> sint (axis_of m g)" using assms i64_eqI by blast
  then show "tile_gap c g = tile_gap (step_toward m g c) g + 1" "tile_gap c (step_toward m g c) = 1"
    using sint_towards [OF assms] by (cases m; auto simp: tile_gap_def step_toward_def split: if_splits)+
qed

lemma coord3_axes: "(\<And>m. axis_of m a = axis_of m b) \<Longrightarrow> a = b"
proof -
  assume eq: "\<And>m. axis_of m a = axis_of m b"
  from eq [of AxisX] eq [of AxisY] eq [of AxisZ] show ?thesis by (cases a; cases b) simp
qed

lemma contains_axes:
  assumes "valid_shape s"
  shows "\<exists>e. \<forall>c. shape_contains s c \<longleftrightarrow> (\<forall>m. 0 \<le> sint (axis_of m c) \<and> sint (axis_of m c) < e m)"
proof -
  define e where "e m = (case m of AxisX \<Rightarrow> int (nx s * cx s) | AxisY \<Rightarrow> int (ny s * cy s) | AxisZ \<Rightarrow> int (nz s * cz s))" for m
  have b: "nx s * cx s \<le> 2 ^ 63" "ny s * cy s \<le> 2 ^ 63" "nz s * cz s \<le> 2 ^ 63"
    using size_dims [OF assms] by simp_all
  have ax: "unat v < n \<longleftrightarrow> 0 \<le> sint v \<and> sint v < int n" if "n \<le> 2 ^ 63" for v :: i64 and n
  proof (cases "0 \<le> sint v")
    case True
    then show ?thesis using sint_nonneg_unat [OF True] by (simp del: of_nat_unat)
  next
    case False
    then have "2 ^ 63 \<le> unat v" using sint_nonneg_iff [of v] by simp
    then show ?thesis using that False by linarith
  qed
  have all: "(\<forall>m. P m) \<longleftrightarrow> P AxisX \<and> P AxisY \<and> P AxisZ" for P by (metis grid_axis.exhaust)
  show ?thesis
    unfolding shape_contains_iff [OF assms]
    by (intro exI [of _ e] allI) (simp add: all e_def ax [OF b(1)] ax [OF b(2)] ax [OF b(3)])
qed

lemma contains_toward:
  assumes "valid_shape s" "shape_contains s c" "shape_contains s g" "axis_of m c \<noteq> axis_of m g"
  shows "shape_contains s (step_toward m g c)"
proof -
  obtain e where e: "\<And>c. shape_contains s c \<longleftrightarrow> (\<forall>m. 0 \<le> sint (axis_of m c) \<and> sint (axis_of m c) < e m)"
    using contains_axes [OF assms(1)] by blast
  have ne: "sint (axis_of m c) \<noteq> sint (axis_of m g)" using assms(4) i64_eqI by blast
  have c: "0 \<le> sint (axis_of k c)" "sint (axis_of k c) < e k" and g: "0 \<le> sint (axis_of k g)" "sint (axis_of k g) < e k" for k
    using assms(2,3) e by blast+
  have "0 \<le> sint (axis_of k (step_toward m g c)) \<and> sint (axis_of k (step_toward m g c)) < e k" for k
    using c [of k] g [of k] ne sint_towards [OF assms(4)] by (cases "k = m") (auto simp: step_toward_def)
  then show ?thesis using e by blast
qed

lemma gap_unit_step:
  assumes "valid_shape s" "shape_contains s a" "shape_contains s (add_axis m d a)" "d \<in> {1, - 1}"
  shows "tile_gap a g = tile_gap (add_axis m d a) g + 1 \<and> axis_of m a \<noteq> axis_of m g \<and> add_axis m d a = step_toward m g a
    \<or> tile_gap (add_axis m d a) g = tile_gap a g + 1"
proof -
  obtain e where e: "\<And>c. shape_contains s c \<longleftrightarrow> (\<forall>m. 0 \<le> sint (axis_of m c) \<and> sint (axis_of m c) < e m)"
    using contains_axes [OF assms(1)] by blast
  have "\<And>k. 0 \<le> sint (axis_of k a)" "0 \<le> sint (axis_of m (add_axis m d a))" "sint (axis_of m a) < 2 ^ 63 - 1"
  proof -
    show "0 \<le> sint (axis_of k a)" for k using assms(2) e by blast
    show "0 \<le> sint (axis_of m (add_axis m d a))" using assms(3) e by blast
    have "unat (axis_of m a) < 2 ^ 63 - 1"
      using assms(2) size_dims(4-6) [OF assms(1)] unfolding shape_contains_iff [OF assms(1)] by (cases m) auto
    then have "int (unat (axis_of m a)) < int (2 ^ 63 - 1)" by (simp only: of_nat_less_iff)
    then have "int (unat (axis_of m a)) < 2 ^ 63 - 1" by simp
    then show "sint (axis_of m a) < 2 ^ 63 - 1"
      using sint_nonneg_unat [OF \<open>\<And>k. 0 \<le> sint (axis_of k a)\<close> [of m]] by simp
  qed
  then have st: "sint (axis_of m a + d) = sint (axis_of m a) + sint d"
    using assms(4) by (intro sint_unit_step) auto
  have sd: "sint (1 :: i64) = 1" "sint (- 1 :: i64) = - 1" by simp_all
  show ?thesis
  proof (cases "axis_of m a = axis_of m g")
    case True
    then have "sint (axis_of m a) = sint (axis_of m g)" by simp
    then show ?thesis using st assms(4) by (cases m) (auto simp: tile_gap_def)
  next
    case False
    then have "sint (axis_of m a) \<noteq> sint (axis_of m g)" using i64_eqI by blast
    then show ?thesis
      using st assms(4) False by (cases m) (auto simp: tile_gap_def step_toward_def i64_less_def)
  qed
qed

lemma face_axis:
  "(\<exists>d \<in> set face_offsets. b = shift a d) \<longleftrightarrow> (\<exists>m. \<exists>d \<in> {1, - 1}. b = add_axis m d a)"
proof -
  have "(\<exists>m. Q m) \<longleftrightarrow> Q AxisX \<or> Q AxisY \<or> Q AxisZ" for Q by (metis grid_axis.exhaust)
  then show ?thesis by (cases a) (auto simp: face_offsets_def shift_def mk_coord3_def)
qed

text \<open>A tile on a shortest way; on a straight line it is passed by every way that is as short.\<close>

definition between :: "coord3 \<Rightarrow> coord3 \<Rightarrow> coord3 \<Rightarrow> bool" where
  "between a t b \<longleftrightarrow> tile_gap a t + tile_gap t b = tile_gap a b"

lemma between_toward:
  assumes "axis_of m c \<noteq> axis_of m g" "between (step_toward m g c) t g"
  shows "between c t g \<and> t \<noteq> c"
proof -
  note g = gap_toward [OF assms(1)]
  have le: "tile_gap t g \<le> tile_gap (step_toward m g c) g"
    using assms(2) tile_gap_basic(2) [of "step_toward m g c" t] unfolding between_def by linarith
  have "tile_gap c t \<le> 1 + tile_gap (step_toward m g c) t"
    using tile_gap_triangle [of c t "step_toward m g c"] g(2) by simp
  then have "between c t g"
    using assms(2) g(1) tile_gap_triangle [of c g t] unfolding between_def by linarith
  moreover have "t \<noteq> c" using le g(1) by auto
  ultimately show ?thesis by simp
qed

lemma int_between:
  fixes a b t :: int
  assumes "\<bar>a - t\<bar> + \<bar>t - b\<bar> + u = \<bar>a - b\<bar>" "0 \<le> u"
  shows "u = 0 \<and> (t \<noteq> a \<longrightarrow> a \<noteq> b \<longrightarrow>
    \<bar>a + (if a < b then 1 else - 1) - t\<bar> + \<bar>t - b\<bar> = \<bar>a + (if a < b then 1 else - 1) - b\<bar>)"
proof -
  define x y where "x = \<bar>a - t\<bar>" and "y = \<bar>t - b\<bar>"
  have le: "t - a \<le> x" "a - t \<le> x" "b - t \<le> y" "t - b \<le> y" by (simp_all add: x_def y_def)
  have eq: "x + y + u = \<bar>a - b\<bar>" using assms(1) by (simp add: x_def y_def)
  have "u = 0 \<and> (if a \<le> b then x = t - a \<and> y = b - t else x = a - t \<and> y = t - b)"
  proof (cases "a \<le> b")
    case True
    then have "x + y + u = b - a" using eq by simp
    with le assms(2) show ?thesis using True by auto
  next
    case False
    then have "x + y + u = a - b" using eq by simp
    with le assms(2) show ?thesis using False by auto
  qed
  then have "u = 0" and "a \<le> b \<longrightarrow> a \<le> t \<and> t \<le> b" "\<not> a \<le> b \<longrightarrow> b \<le> t \<and> t \<le> a"
    by (auto simp: x_def y_def split: if_splits)
  then show ?thesis by (cases "a \<le> b") auto
qed

lemma between_line:
  assumes "\<And>k. k \<noteq> m \<Longrightarrow> axis_of k a = axis_of k b" "axis_of m a \<noteq> axis_of m b" "between a t b" "t \<noteq> a"
  shows "between (step_toward m b a) t b"
proof -
  have ne: "sint (axis_of m a) \<noteq> sint (axis_of m b)" using assms(2) i64_eqI by blast
  note st = sint_towards [OF assms(2)]
  define u where "u = tile_gap a t + tile_gap t b - \<bar>sint (axis_of m a) - sint (axis_of m t)\<bar>
    - \<bar>sint (axis_of m t) - sint (axis_of m b)\<bar>"
  have gap: "tile_gap a b = \<bar>sint (axis_of m a) - sint (axis_of m b)\<bar>"
    using assms(1) [of AxisX] assms(1) [of AxisY] assms(1) [of AxisZ] by (cases m) (simp_all add: tile_gap_def)
  have u0: "0 \<le> u" unfolding u_def tile_gap_def by (cases m) simp_all
  have eq: "\<bar>sint (axis_of m a) - sint (axis_of m t)\<bar> + \<bar>sint (axis_of m t) - sint (axis_of m b)\<bar> + u
      = \<bar>sint (axis_of m a) - sint (axis_of m b)\<bar>"
    using assms(3) unfolding between_def gap u_def by linarith
  note B = int_between [OF eq u0]
  have off: "axis_of k t = axis_of k a" if "k \<noteq> m" for k
  proof -
    have "\<bar>sint (axis_of k a) - sint (axis_of k t)\<bar> \<le> u"
      using that unfolding u_def tile_gap_def by (cases m; cases k) simp_all
    then have "sint (axis_of k a) = sint (axis_of k t)" using B by linarith
    then show ?thesis using i64_eqI by simp
  qed
  have tm: "sint (axis_of m t) \<noteq> sint (axis_of m a)"
  proof
    assume "sint (axis_of m t) = sint (axis_of m a)"
    then have "axis_of m t = axis_of m a" by (rule i64_eqI)
    then have "axis_of k t = axis_of k a" for k using off by (cases "k = m") simp_all
    then show False using coord3_axes assms(4) by blast
  qed
  have line: "tile_gap x y = \<bar>sint (axis_of m x) - sint (axis_of m y)\<bar>"
    if "\<And>k. k \<noteq> m \<Longrightarrow> axis_of k x = axis_of k y" for x y
    using that [of AxisX] that [of AxisY] that [of AxisZ] by (cases m) (simp_all add: tile_gap_def)
  have "tile_gap (step_toward m b a) t = \<bar>sint (axis_of m (step_toward m b a)) - sint (axis_of m t)\<bar>"
    "tile_gap t b = \<bar>sint (axis_of m t) - sint (axis_of m b)\<bar>"
    "tile_gap (step_toward m b a) b = \<bar>sint (axis_of m (step_toward m b a)) - sint (axis_of m b)\<bar>"
    by (rule line; use off assms(1) in \<open>auto simp: step_toward_def\<close>)+
  then show ?thesis using B tm ne st by (simp add: between_def step_toward_def)
qed

end
