(* ===== verification/Search_Straight.thy ===== *)
theory Search_Straight imports Search_Direct begin

text \<open>
  The straight routes of the search over a world: what the walks along the axes return, and that a
  route they find is a shortest one.
\<close>

declare append_unit_axis.simps [simp del] append_primary.simps [simp del]

context search_world
begin

definition unit_tile :: "'w \<Rightarrow> coord3 \<Rightarrow> bool" where
  "unit_tile w c \<longleftrightarrow> shape_contains (wa_shape A) c \<and> pass w c \<and> cost w c = 1"

definition unit_path :: "'w \<Rightarrow> 'w provider \<Rightarrow> coord3 \<Rightarrow> coord3 list \<Rightarrow> coord3 \<Rightarrow> int \<Rightarrow> bool" where
  "unit_path w pr s path c n \<longleftrightarrow> (\<exists>ps. probe_path A cls pr w s ps c \<and> path = s # map tp_to ps \<and> int (path_cost ps) = n)"

text \<open>An obstacle on a shortest way.\<close>

definition hit :: "'w \<Rightarrow> coord3 \<Rightarrow> coord3 \<Rightarrow> bool" where
  "hit w c g \<longleftrightarrow> (\<exists>t. t \<noteq> c \<and> between c t g \<and> shape_contains (wa_shape A) t \<and> \<not> (pass w t \<and> cost w t \<noteq> 0))"

lemma prescanD:
  assumes "inv w" "prescan_applies A cls pr"
  shows "tile_res w c \<longleftrightarrow> shape_contains (wa_shape A) c" "pr = AdjacentTransitions" "mc_policy cls = DefaultSteps"
    "step_offsets (wa_shape A) (mc_policy cls) = face_offsets" "step_multiplier (mc_policy cls) d = 1"
    "availability w c d = Legal"
proof -
  show "tile_res w c \<longleftrightarrow> shape_contains (wa_shape A) c"
    using dense_resident [OF assms(1)] resolved(2) [OF assms(1)] assms(2)
    by (auto simp: tile_res_def prescan_applies_def)
  show "pr = AdjacentTransitions" "mc_policy cls = DefaultSteps"
    "step_offsets (wa_shape A) (mc_policy cls) = face_offsets" "step_multiplier (mc_policy cls) d = 1"
    "availability w c d = Legal"
    using assms(2)
    by (simp_all add: prescan_applies_def has_special_transitions_def step_offsets_def step_multiplier_def
        is_diagonal_def cost_scale_def availability_def split: provider.splits)
qed

text \<open>A unit neighbour is one legal step of price 1 away.\<close>

lemma unit_step:
  assumes iw: "inv w" and p: "prescan_applies A cls pr" and a: "shape_contains (wa_shape A) a"
    and b: "unit_tile w (add_axis m e a)" "e \<in> {1, - 1}"
  shows "\<exists>qs p. for_each_forward A cls pr w a = Some qs \<and> p \<in> set qs \<and> tp_availability p = Legal
    \<and> tp_to p = add_axis m e a \<and> unat (tp_cost p) = 1"
proof -
  note D = prescanD [OF iw p]
  obtain d where d: "d \<in> set face_offsets" "add_axis m e a = shift a d"
    using face_axis [of "add_axis m e a" a] b(2) by blast
  have st: "step a d" using a b(1) d D(4) by (simp add: unit_tile_def)
  have "provider_forward pr w a = Some []" by (simp add: D(2) provider_forward_def)
  moreover have "tile_res w (shift a d)" "pass w (shift a d)" "cost w (shift a d) \<noteq> 0"
    using b(1) d(2) D(1) by (simp_all add: unit_tile_def)
  ultimately obtain qs p where q: "for_each_forward A cls pr w a = Some qs" "p \<in> set qs" "tp_to p = shift a d"
    "tp_availability p = Legal"
    using legal_step [OF iw st D(6)] by fastforce
  obtain d' where d': "p \<in> set (regular_probes w a d' (shift a d'))"
    using forward_probe [OF iw a q(1,2,4)] by (auto simp: D(2) provider_forward_def)
  note P = regular_price [OF d' q(4)]
  have "d' = d" using P(1) q(3) shift_inj by simp
  then have "unat (tp_cost p) = 1" using P(4) b(1) d(2) D(5) by (simp add: unit_tile_def)
  with q d(2) show ?thesis by auto
qed

lemma unit_path_start: "shape_contains (wa_shape A) s \<Longrightarrow> unit_path w pr s [s] s 0"
  unfolding unit_path_def by (intro exI [of _ "[]"]) (simp add: path_end)

lemma unit_path_snoc:
  assumes "inv w" "prescan_applies A cls pr" "shape_contains (wa_shape A) c" "unit_path w pr s path c n"
    "unit_tile w (add_axis m e c)" "e \<in> {1, - 1}"
  shows "unit_path w pr s (path @ [add_axis m e c]) (add_axis m e c) (n + 1)"
proof -
  obtain ps where ps: "probe_path A cls pr w s ps c" "path = s # map tp_to ps" "int (path_cost ps) = n"
    using assms(4) by (auto simp: unit_path_def)
  obtain qs p where p: "for_each_forward A cls pr w c = Some qs" "p \<in> set qs" "tp_availability p = Legal"
    "tp_to p = add_axis m e c" "unat (tp_cost p) = 1"
    using unit_step [OF assms(1-3,5,6)] by blast
  have "probe_path A cls pr w s (ps @ [p]) (tp_to p)"
    by (rule path_snoc [OF ps(1) p(1-3)]) (use assms(5) p(4) in \<open>simp add: unit_tile_def\<close>)
  then show ?thesis
    unfolding unit_path_def using ps p(4,5) by (intro exI [of _ "ps @ [p]"]) (simp add: path_cost_def)
qed

lemma toward_add: "\<exists>e \<in> {1, - 1}. step_toward m g c = add_axis m e c"
  by (simp add: step_toward_def)

subsection \<open>Every path\<close>

lemma straight_probe:
  assumes iw: "inv w" and p: "prescan_applies A cls pr" and a: "shape_contains (wa_shape A) a"
    and q: "for_each_forward A cls pr w a = Some qs" "p \<in> set qs" "tp_availability p = Legal"
  shows "\<exists>m. \<exists>e \<in> {1, - 1}. tp_to p = add_axis m e a" "shape_contains (wa_shape A) (tp_to p)" "pass w (tp_to p)"
    "cost w (tp_to p) \<noteq> 0" "1 \<le> unat (tp_cost p)"
proof -
  note D = prescanD [OF iw p]
  obtain d where d: "step a d" "p \<in> set (regular_probes w a d (shift a d))"
    using forward_probe [OF iw a q] by (auto simp: D(2) provider_forward_def)
  note P = regular_price [OF d(2) q(3)]
  show "\<exists>m. \<exists>e \<in> {1, - 1}. tp_to p = add_axis m e a"
    using face_axis [of "shift a d" a] d(1) D(4) P(1) by auto
  show "shape_contains (wa_shape A) (tp_to p)" using d(1) P(1) by simp
  show "pass w (tp_to p)" using d(2) q(3) P(1) by (auto simp: regular_probes_def missing_probe_def split: if_splits)
  show "cost w (tp_to p) \<noteq> 0" using P(1,3) by (auto simp: unat_gt_0)
  show "1 \<le> unat (tp_cost p)" using legal_probe(3) [OF iw a q] by simp
qed

lemma path_gap:
  assumes iw: "inv w" and p: "prescan_applies A cls pr" and "probe_path A cls pr w a qs b"
  shows "tile_gap a b \<le> int (length qs) \<and> even (int (length qs) - tile_gap a b) \<and> length qs \<le> path_cost qs"
  using assms(3)
proof (induction rule: probe_path.induct)
  case (path_step c qs p ps g)
  note S = straight_probe [OF iw p path_step.hyps(1-4)]
  obtain m e where e: "e \<in> {1, - 1}" "tp_to p = add_axis m e c" using S(1) by blast
  from gap_unit_step [OF shape_ok [OF iw] path_step.hyps(1) S(2) [unfolded e(2)] e(1), of g]
  have "tile_gap c g = tile_gap (tp_to p) g + 1 \<or> tile_gap (tp_to p) g = tile_gap c g + 1" using e(2) by auto
  with path_step.IH S(5) show ?case by auto
qed simp

text \<open>A path as short as the distance along a line passes every tile of the line.\<close>

lemma path_line:
  assumes iw: "inv w" and p: "prescan_applies A cls pr" and "probe_path A cls pr w a qs b"
    and "int (length qs) = tile_gap a b" "\<And>k. k \<noteq> m \<Longrightarrow> axis_of k a = axis_of k b" "between a t b" "t \<noteq> a"
  shows "pass w t \<and> cost w t \<noteq> 0"
  using assms(3-7)
proof (induction rule: probe_path.induct)
  case (path_end c)
  then have "tile_gap c t + tile_gap t c = 0" by (simp add: between_def)
  then have "tile_gap c t = 0" using tile_gap_basic(2) [of c t] tile_gap_basic(2) [of t c] by linarith
  then show ?case using path_end.prems(4) by (simp add: tile_gap_zero)
next
  case (path_step c qs p ps g)
  note S = straight_probe [OF iw p path_step.hyps(1-4)]
  obtain k e where e: "e \<in> {1, - 1}" "tp_to p = add_axis k e c" using S(1) by blast
  have "tile_gap (tp_to p) g \<le> int (length ps)" using path_gap [OF iw p path_step.hyps(5)] by simp
  then have nx: "tile_gap c g = tile_gap (tp_to p) g + 1" "axis_of k c \<noteq> axis_of k g" "tp_to p = step_toward k g c"
    using gap_unit_step [OF shape_ok [OF iw] path_step.hyps(1) S(2) [unfolded e(2)] e(1), of g]
      path_step.prems(1) e(2) by auto
  have km: "k = m" using path_step.prems(2) [of k] nx(2) by blast
  have bt: "between (tp_to p) t g"
    using between_line [OF path_step.prems(2) _ path_step.prems(3,4)] nx(2,3) km by simp
  show ?case
  proof (cases "t = tp_to p")
    case True
    then show ?thesis using S(3,4) by simp
  next
    case False
    show ?thesis
    proof (rule path_step.IH [OF _ _ bt False])
      show "int (length ps) = tile_gap (tp_to p) g" using path_step.prems(1) nx(1) by simp
      show "axis_of j (tp_to p) = axis_of j g" if "j \<noteq> m" for j
        using path_step.prems(2) [OF that] that km nx(3) by (simp add: step_toward_def)
    qed
  qed
qed

subsection \<open>Walks along an axis\<close>

lemma hit_toward:
  assumes "axis_of m c \<noteq> axis_of m g" "hit w (step_toward m g c) g"
  shows "hit w c g"
  using assms between_toward [OF assms(1)] unfolding hit_def by blast

lemma hit_next:
  assumes "axis_of m c \<noteq> axis_of m g" "shape_contains (wa_shape A) (step_toward m g c)"
    "\<not> (pass w (step_toward m g c) \<and> cost w (step_toward m g c) \<noteq> 0)"
  shows "hit w c g"
proof -
  let ?t = "step_toward m g c"
  have "between ?t ?t g" by (simp add: between_def)
  from between_toward [OF assms(1) this] show ?thesis using assms(2,3) unfolding hit_def by blast
qed

lemma unit_axis:
  assumes iw: "inv w" and p: "prescan_applies A cls pr" and g: "shape_contains (wa_shape A) g"
    and c: "shape_contains (wa_shape A) c" and u: "unit_path w pr s path c n"
  shows "\<exists>ok c' b' path'. append_unit_axis A cls w m g c b path = Some (ok, c', b', path')
    \<and> (b' \<longrightarrow> b \<or> hit w c g)
    \<and> (ok \<longrightarrow> shape_contains (wa_shape A) c' \<and> (\<forall>k. axis_of k c' = (if k = m then axis_of m g else axis_of k c))
         \<and> unit_path w pr s path' c' (n + tile_gap c g - tile_gap c' g) \<and> (hit w c' g \<longrightarrow> hit w c g))
    \<and> (\<not> ok \<longrightarrow> path' = [])"
  using c u
proof (induction "nat \<bar>sint (axis_of m g) - sint (axis_of m c)\<bar>" arbitrary: c path n b rule: less_induct)
  case less
  show ?case
  proof (cases "axis_of m c = axis_of m g")
    case True
    then have "\<forall>k. axis_of k c = (if k = m then axis_of m g else axis_of k c)" by simp
    with True less.prems show ?thesis
      by (intro exI [of _ True] exI [of _ c] exI [of _ b] exI [of _ path])
         (simp add: append_unit_axis.simps [of _ _ _ _ _ c])
  next
    case False
    let ?t = "step_toward m g c"
    have t: "shape_contains (wa_shape A) ?t" by (rule contains_toward [OF shape_ok [OF iw] less.prems(1) g False])
    have r: "tile_res w ?t" using prescanD(1) [OF iw p] t by simp
    note leaf = passable_at [OF iw r]
    note idx = index_of_tile [OF iw t]
    consider "\<not> (pass w ?t \<and> cost w ?t \<noteq> 0)" | "pass w ?t" "cost w ?t \<noteq> 0" "cost w ?t \<noteq> 1" | "unit_tile w ?t"
      using t by (auto simp: unit_tile_def)
    then show ?thesis
    proof cases
      case 1
      then have "hit w c g" by (rule hit_next [OF False t])
      with 1 False leaf idx show ?thesis by (auto simp: append_unit_axis.simps [of _ _ _ _ _ c] Let_def)
    next
      case 2
      with False leaf idx show ?thesis by (auto simp: append_unit_axis.simps [of _ _ _ _ _ c] Let_def)
    next
      case 3
      have un: "unit_path w pr s (path @ [?t]) ?t (n + 1)"
        using unit_path_snoc [OF iw p less.prems] toward_add [of m g c] 3 by metis
      have eq: "append_unit_axis A cls w m g c b path = append_unit_axis A cls w m g ?t b (path @ [?t])"
        using 3 False leaf idx by (simp add: append_unit_axis.simps [of _ _ _ _ _ c] Let_def unit_tile_def)
      obtain ok c' b' path' where IH: "append_unit_axis A cls w m g ?t b (path @ [?t]) = Some (ok, c', b', path')"
        "b' \<longrightarrow> b \<or> hit w ?t g"
        "ok \<longrightarrow> shape_contains (wa_shape A) c' \<and> (\<forall>k. axis_of k c' = (if k = m then axis_of m g else axis_of k ?t))
          \<and> unit_path w pr s path' c' (n + 1 + tile_gap ?t g - tile_gap c' g) \<and> (hit w c' g \<longrightarrow> hit w ?t g)"
        "\<not> ok \<longrightarrow> path' = []"
        using less.hyps [OF step_toward_closer [OF False] t un, of b] by blast
      have "axis_of k ?t = axis_of k c" if "k \<noteq> m" for k using that by (simp add: step_toward_def)
      with IH(3) have ax: "ok \<longrightarrow> (\<forall>k. axis_of k c' = (if k = m then axis_of m g else axis_of k c))" by auto
      have gap: "n + 1 + tile_gap ?t g - tile_gap c' g = n + tile_gap c g - tile_gap c' g"
        using gap_toward(1) [OF False] by simp
      have found: "shape_contains (wa_shape A) c' \<and> (\<forall>k. axis_of k c' = (if k = m then axis_of m g else axis_of k c))
          \<and> unit_path w pr s path' c' (n + tile_gap c g - tile_gap c' g) \<and> (hit w c' g \<longrightarrow> hit w c g)" if ok
        using IH(3) [unfolded gap] ax hit_toward [OF False] that by blast
      have "b' \<longrightarrow> b \<or> hit w c g" using IH(2) hit_toward [OF False] by blast
      then show ?thesis
        unfolding eq using IH(1,4) found by blast
    qed
  qed
qed

lemma unit_axes:
  assumes iw: "inv w" and p: "prescan_applies A cls pr" and g: "shape_contains (wa_shape A) g"
    and c: "shape_contains (wa_shape A) c" and u: "unit_path w pr s path c n"
  shows "\<exists>ok b' path'. append_unit_axes A cls w ms g c b path = Some (ok, b', path')
    \<and> (b' \<longrightarrow> b \<or> hit w c g)
    \<and> (ok \<longrightarrow> (\<exists>c'. unit_path w pr s path' c' (n + tile_gap c g - tile_gap c' g)
         \<and> (\<forall>k. k \<in> set ms \<or> axis_of k c = axis_of k g \<longrightarrow> axis_of k c' = axis_of k g)))
    \<and> (\<not> ok \<longrightarrow> path' = [])"
  using c u
proof (induction ms arbitrary: c path n b)
  case Nil
  then have "unit_path w pr s path c (n + tile_gap c g - tile_gap c g)" by simp
  then show ?case by (intro exI [of _ True] exI [of _ b] exI [of _ path] conjI impI exI [of _ c]) simp_all
next
  case (Cons m ms)
  obtain ok c1 b1 path1 where one: "append_unit_axis A cls w m g c b path = Some (ok, c1, b1, path1)"
    "b1 \<longrightarrow> b \<or> hit w c g"
    "ok \<longrightarrow> shape_contains (wa_shape A) c1 \<and> (\<forall>k. axis_of k c1 = (if k = m then axis_of m g else axis_of k c))
      \<and> unit_path w pr s path1 c1 (n + tile_gap c g - tile_gap c1 g) \<and> (hit w c1 g \<longrightarrow> hit w c g)"
    "\<not> ok \<longrightarrow> path1 = []"
    using unit_axis [OF iw p g Cons.prems, of m b] by blast
  show ?case
  proof (cases ok)
    case False
    then show ?thesis
      using one by (intro exI [of _ False] exI [of _ b1] exI [of _ path1]) simp
  next
    case True
    have c1: "shape_contains (wa_shape A) c1" "\<And>k. axis_of k c1 = (if k = m then axis_of m g else axis_of k c)"
      "unit_path w pr s path1 c1 (n + tile_gap c g - tile_gap c1 g)" "hit w c1 g \<Longrightarrow> hit w c g"
      using one(3) True by blast+
    obtain ok2 b2 path2 where two: "append_unit_axes A cls w ms g c1 b1 path1 = Some (ok2, b2, path2)"
      "b2 \<longrightarrow> b1 \<or> hit w c1 g"
      "ok2 \<longrightarrow> (\<exists>c'. unit_path w pr s path2 c' (n + tile_gap c g - tile_gap c1 g + tile_gap c1 g - tile_gap c' g)
         \<and> (\<forall>k. k \<in> set ms \<or> axis_of k c1 = axis_of k g \<longrightarrow> axis_of k c' = axis_of k g))"
      "\<not> ok2 \<longrightarrow> path2 = []"
      using Cons.IH [OF c1(1,3), of b1] by blast
    have "\<exists>c'. unit_path w pr s path2 c' (n + tile_gap c g - tile_gap c' g)
         \<and> (\<forall>k. k \<in> set (m # ms) \<or> axis_of k c = axis_of k g \<longrightarrow> axis_of k c' = axis_of k g)" if ok2
    proof -
      obtain c' where c': "unit_path w pr s path2 c' (n + tile_gap c g - tile_gap c' g)"
        "\<forall>k. k \<in> set ms \<or> axis_of k c1 = axis_of k g \<longrightarrow> axis_of k c' = axis_of k g"
        using two(3) \<open>ok2\<close> by auto
      have "axis_of k c' = axis_of k g" if "k \<in> set (m # ms) \<or> axis_of k c = axis_of k g" for k
        using that c'(2) c1(2) [of k] by (cases "k = m") auto
      with c'(1) show ?thesis by blast
    qed
    then show ?thesis
      using one(1,2) two(1,2,4) True c1(4) by (intro exI [of _ ok2] exI [of _ b2] exI [of _ path2]) auto
  qed
qed

subsection \<open>The straight routes\<close>

lemma unit_direct_order:
  assumes iw: "inv w" and p: "prescan_applies A cls pr" and s: "shape_contains (wa_shape A) (pq_start q)"
    and g: "shape_contains (wa_shape A) (pq_goal q)" and ms: "set ms = UNIV"
  shows "\<exists>ok b' path'. try_unit_direct_order A cls w q ms b = Some (ok, b', path')
    \<and> (b' \<longrightarrow> b \<or> hit w (pq_start q) (pq_goal q))
    \<and> (ok \<longrightarrow> unit_path w pr (pq_start q) path' (pq_goal q) (tile_gap (pq_start q) (pq_goal q)))
    \<and> (\<not> ok \<longrightarrow> path' = [])"
proof -
  let ?s = "pq_start q" and ?g = "pq_goal q"
  obtain ok b' path' where r: "append_unit_axes A cls w ms ?g ?s b [?s] = Some (ok, b', path')"
    "b' \<longrightarrow> b \<or> hit w ?s ?g" "\<not> ok \<longrightarrow> path' = []"
    "ok \<longrightarrow> (\<exists>c'. unit_path w pr ?s path' c' (0 + tile_gap ?s ?g - tile_gap c' ?g)
         \<and> (\<forall>k. k \<in> set ms \<or> axis_of k ?s = axis_of k ?g \<longrightarrow> axis_of k c' = axis_of k ?g))"
    using unit_axes [OF iw p g s unit_path_start [OF s], of ms b] by blast
  have "unit_path w pr ?s path' ?g (tile_gap ?s ?g)" if found: ok
  proof -
    obtain c' where c': "unit_path w pr ?s path' c' (0 + tile_gap ?s ?g - tile_gap c' ?g)"
      "\<forall>k. axis_of k c' = axis_of k ?g" using r(4) found ms by auto
    have "c' = ?g" by (rule coord3_axes) (use c'(2) in blast)
    with c'(1) show ?thesis by simp
  qed
  with r show ?thesis by (auto simp: try_unit_direct_order_def)
qed

lemma first_direct_ok:
  assumes iw: "inv w" and p: "prescan_applies A cls pr" and s: "shape_contains (wa_shape A) (pq_start q)"
    and g: "shape_contains (wa_shape A) (pq_goal q)" and ms: "\<forall>ms \<in> set os. set ms = UNIV"
  shows "\<exists>ok b' path'. first_direct A cls w q os b [] = Some (ok, b', path')
    \<and> (b' \<longrightarrow> b \<or> hit w (pq_start q) (pq_goal q))
    \<and> (ok \<longrightarrow> unit_path w pr (pq_start q) path' (pq_goal q) (tile_gap (pq_start q) (pq_goal q)))
    \<and> (\<not> ok \<longrightarrow> path' = [])"
  using ms
proof (induction os arbitrary: b)
  case (Cons ms os)
  then have ms: "set ms = UNIV" by simp
  obtain ok b' path' where r: "try_unit_direct_order A cls w q ms b = Some (ok, b', path')"
    "b' \<longrightarrow> b \<or> hit w (pq_start q) (pq_goal q)"
    "ok \<longrightarrow> unit_path w pr (pq_start q) path' (pq_goal q) (tile_gap (pq_start q) (pq_goal q))"
    "\<not> ok \<longrightarrow> path' = []"
    using unit_direct_order [OF iw p s g ms] by blast
  show ?case
  proof (cases ok)
    case True
    with r show ?thesis by (simp add: ex_bool_eq)
  next
    case False
    from Cons.IH [of b'] Cons.prems obtain ok2 b2 path2 where
      "first_direct A cls w q os b' [] = Some (ok2, b2, path2)"
      "b2 \<longrightarrow> b' \<or> hit w (pq_start q) (pq_goal q)"
      "ok2 \<longrightarrow> unit_path w pr (pq_start q) path2 (pq_goal q) (tile_gap (pq_start q) (pq_goal q))"
      "\<not> ok2 \<longrightarrow> path2 = []" by auto
    with r False show ?thesis by auto
  qed
qed (simp add: ex_bool_eq)

subsection \<open>The detours\<close>

lemma append_checked_ok:
  assumes iw: "inv w" and p: "prescan_applies A cls pr" and c: "shape_contains (wa_shape A) c"
    and u: "unit_path w pr s path c n" and b: "shape_contains (wa_shape A) (add_axis m e c)" "e \<in> {1, - 1}"
  shows "\<exists>ok path'. append_checked A cls w (add_axis m e c) path = Some (ok, path')
    \<and> (ok \<longrightarrow> unit_path w pr s path' (add_axis m e c) (n + 1)) \<and> (\<not> ok \<longrightarrow> path' = [])"
proof -
  let ?b = "add_axis m e c"
  have r: "tile_res w ?b" using prescanD(1) [OF iw p] b(1) by simp
  note leaf = passable_at [OF iw r] and idx = index_of_tile [OF iw b(1)]
  show ?thesis
  proof (cases "unit_tile w ?b")
    case True
    from unit_path_snoc [OF iw p c u True b(2)] True show ?thesis
      by (simp add: append_checked_def leaf idx unit_tile_def ex_bool_eq)
  next
    case False
    then show ?thesis using b(1) by (auto simp: append_checked_def leaf idx unit_tile_def)
  qed
qed

lemma unit_primary:
  assumes iw: "inv w" and p: "prescan_applies A cls pr" and g: "shape_contains (wa_shape A) g"
    and c: "shape_contains (wa_shape A) c" and u: "unit_path w pr s path c n"
  shows "\<exists>ok c' path'. append_primary A cls w m g c path = Some (ok, c', path')
    \<and> (ok \<longrightarrow> shape_contains (wa_shape A) c' \<and> (\<forall>k. axis_of k c' = (if k = m then axis_of m g else axis_of k c))
         \<and> unit_path w pr s path' c' (n + tile_gap c g - tile_gap c' g))
    \<and> (\<not> ok \<longrightarrow> path' = [])"
  using c u
proof (induction "nat \<bar>sint (axis_of m g) - sint (axis_of m c)\<bar>" arbitrary: c path n rule: less_induct)
  case less
  show ?case
  proof (cases "axis_of m c = axis_of m g")
    case True
    then have "\<forall>k. axis_of k c = (if k = m then axis_of m g else axis_of k c)" by simp
    with True less.prems show ?thesis
      by (intro exI [of _ True] exI [of _ c] exI [of _ path]) (simp add: append_primary.simps [of _ _ _ _ _ c])
  next
    case False
    let ?t = "step_toward m g c"
    have t: "shape_contains (wa_shape A) ?t" by (rule contains_toward [OF shape_ok [OF iw] less.prems(1) g False])
    obtain e where e: "e \<in> {1, - 1}" "?t = add_axis m e c" using toward_add by blast
    obtain ok path1 where one: "append_checked A cls w ?t path = Some (ok, path1)"
      "ok \<longrightarrow> unit_path w pr s path1 ?t (n + 1)" "\<not> ok \<longrightarrow> path1 = []"
      using append_checked_ok [OF iw p less.prems _ e(1), of m] t unfolding e(2) by blast
    show ?thesis
    proof (cases ok)
      case False
      with one \<open>axis_of m c \<noteq> axis_of m g\<close> show ?thesis
        by (intro exI [of _ False] exI [of _ ?t] exI [of _ path1]) (simp add: append_primary.simps [of _ _ _ _ _ c] Let_def)
    next
      case True
      have un: "unit_path w pr s path1 ?t (n + 1)" using one(2) True by simp
      have eq: "append_primary A cls w m g c path = append_primary A cls w m g ?t path1"
        using False one(1) True by (simp add: append_primary.simps [of _ _ _ _ _ c] Let_def)
      obtain ok2 c' path' where IH: "append_primary A cls w m g ?t path1 = Some (ok2, c', path')"
        "ok2 \<longrightarrow> shape_contains (wa_shape A) c' \<and> (\<forall>k. axis_of k c' = (if k = m then axis_of m g else axis_of k ?t))
          \<and> unit_path w pr s path' c' (n + 1 + tile_gap ?t g - tile_gap c' g)"
        "\<not> ok2 \<longrightarrow> path' = []"
        using less.hyps [OF step_toward_closer [OF False] t un] by blast
      have "axis_of k ?t = axis_of k c" if "k \<noteq> m" for k using that by (simp add: step_toward_def)
      with IH(2) have ax: "ok2 \<longrightarrow> (\<forall>k. axis_of k c' = (if k = m then axis_of m g else axis_of k c))" by auto
      have gap: "n + 1 + tile_gap ?t g - tile_gap c' g = n + tile_gap c g - tile_gap c' g"
        using gap_toward(1) [OF False] by simp
      have found: "shape_contains (wa_shape A) c' \<and> (\<forall>k. axis_of k c' = (if k = m then axis_of m g else axis_of k c))
          \<and> unit_path w pr s path' c' (n + tile_gap c g - tile_gap c' g)" if ok2
        using IH(2) [unfolded gap] ax that by blast
      then show ?thesis unfolding eq using IH(1,3) found by blast
    qed
  qed
qed

lemma unit_detour_ok:
  assumes iw: "inv w" and p: "prescan_applies A cls pr" and s: "shape_contains (wa_shape A) (pq_start q)"
    and g: "shape_contains (wa_shape A) (pq_goal q)"
    and t: "detour \<noteq> primary" "d \<in> {1, - 1}" "\<And>k. k \<noteq> primary \<Longrightarrow> axis_of k (pq_start q) = axis_of k (pq_goal q)"
  shows "\<exists>ok path'. append_unit_detour_axis A cls w q b (primary, detour, d) [] = Some (ok, path')
    \<and> (ok \<longrightarrow> b \<and> unit_path w pr (pq_start q) path' (pq_goal q) (tile_gap (pq_start q) (pq_goal q) + 2))
    \<and> (\<not> ok \<longrightarrow> path' = [])"
proof -
  let ?s = "pq_start q" and ?g = "pq_goal q"
  let ?c = "add_axis detour d ?s"
  show ?thesis
  proof (cases "b \<and> shape_contains (wa_shape A) ?c")
    case False
    then show ?thesis
      by (intro exI [of _ False] exI [of _ "[]"]) (auto simp: append_unit_detour_axis_def Let_def)
  next
    case True
    note v = shape_ok [OF iw]
    obtain ok path1 where one: "append_checked A cls w ?c [?s] = Some (ok, path1)"
      "ok \<longrightarrow> unit_path w pr ?s path1 ?c (0 + 1)" "\<not> ok \<longrightarrow> path1 = []"
      using append_checked_ok [OF iw p s unit_path_start [OF s] _ t(2)] True by blast
    have gc: "tile_gap ?c ?g = tile_gap ?s ?g + 1"
      using gap_unit_step [OF v s _ t(2), of detour ?g] True t(3) [OF t(1)] by blast
    show ?thesis
    proof (cases ok)
      case False
      with one True show ?thesis
        by (intro exI [of _ False] exI [of _ "[]"]) (simp add: append_unit_detour_axis_def Let_def)
    next
      case ok: True
      have u1: "unit_path w pr ?s path1 ?c (0 + 1)" using one(2) ok by simp
      obtain ok2 c2 path2 where two: "append_primary A cls w primary ?g ?c path1 = Some (ok2, c2, path2)"
        "ok2 \<longrightarrow> shape_contains (wa_shape A) c2
          \<and> (\<forall>k. axis_of k c2 = (if k = primary then axis_of primary ?g else axis_of k ?c))
          \<and> unit_path w pr ?s path2 c2 (0 + 1 + tile_gap ?c ?g - tile_gap c2 ?g)"
        "\<not> ok2 \<longrightarrow> path2 = []"
        using unit_primary [OF iw p g _ u1, of primary] True by blast
      show ?thesis
      proof (cases ok2)
        case False
        with one two ok True show ?thesis
          by (intro exI [of _ False] exI [of _ "[]"]) (simp add: append_unit_detour_axis_def Let_def)
      next
        case ok2: True
        have c2: "shape_contains (wa_shape A) c2"
          "\<And>k. axis_of k c2 = (if k = primary then axis_of primary ?g else axis_of k ?c)"
          "unit_path w pr ?s path2 c2 (0 + 1 + tile_gap ?c ?g - tile_gap c2 ?g)"
          using two(2) ok2 by blast+
        have last: "add_axis detour (- d) c2 = ?g"
        proof (rule coord3_axes)
          fix k
          show "axis_of k (add_axis detour (- d) c2) = axis_of k ?g"
            using c2(2) [of k] t(1) t(3) [of k] by auto
        qed
        have e: "- d \<in> {1, - 1}" using t(2) by auto
        have "tile_gap c2 ?g = 1"
          using gap_unit_step [OF v c2(1) _ e, of detour ?g] g tile_gap_basic(2) [of c2 ?g] unfolding last by auto
        then have n: "0 + 1 + tile_gap ?c ?g - tile_gap c2 ?g + 1 = tile_gap ?s ?g + 2" using gc by simp
        obtain ok3 path3 where three: "append_checked A cls w ?g path2 = Some (ok3, path3)"
          "ok3 \<longrightarrow> unit_path w pr ?s path3 ?g (tile_gap ?s ?g + 2)" "\<not> ok3 \<longrightarrow> path3 = []"
          using append_checked_ok [OF iw p c2(1,3) _ e, of detour] g unfolding last n by blast
        with one two ok ok2 True last show ?thesis
          by (intro exI [of _ ok3] exI [of _ path3]) (simp add: append_unit_detour_axis_def Let_def)
      qed
    qed
  qed
qed

lemma detours_aligned:
  assumes "(primary, detour, d) \<in> set (unit_detours q)"
  shows "detour \<noteq> primary" "d \<in> {1, - 1}" "\<And>k. k \<noteq> primary \<Longrightarrow> axis_of k (pq_start q) = axis_of k (pq_goal q)"
proof -
  show "detour \<noteq> primary" "d \<in> {1, - 1}"
    using assms by (auto simp: unit_detours_def Let_def split: if_splits)
  show "axis_of k (pq_start q) = axis_of k (pq_goal q)" if "k \<noteq> primary" for k
    using assms that by (cases k) (auto simp: unit_detours_def Let_def split: if_splits)
qed

lemma first_detour_ok:
  assumes iw: "inv w" and p: "prescan_applies A cls pr" and s: "shape_contains (wa_shape A) (pq_start q)"
    and g: "shape_contains (wa_shape A) (pq_goal q)" and ts: "set ts \<subseteq> set (unit_detours q)"
  shows "\<exists>ok path'. first_detour A cls w q b ts [] = Some (ok, path')
    \<and> (ok \<longrightarrow> b \<and> (\<exists>m. \<forall>k. k \<noteq> m \<longrightarrow> axis_of k (pq_start q) = axis_of k (pq_goal q))
         \<and> unit_path w pr (pq_start q) path' (pq_goal q) (tile_gap (pq_start q) (pq_goal q) + 2))
    \<and> (\<not> ok \<longrightarrow> path' = [])"
  using ts
proof (induction ts)
  case (Cons t ts)
  obtain primary detour d where t: "t = (primary, detour, d)" by (cases t)
  have m: "(primary, detour, d) \<in> set (unit_detours q)" using Cons.prems t by simp
  note D = detours_aligned [OF m]
  obtain ok path' where r: "append_unit_detour_axis A cls w q b (primary, detour, d) [] = Some (ok, path')"
    "ok \<longrightarrow> b \<and> unit_path w pr (pq_start q) path' (pq_goal q) (tile_gap (pq_start q) (pq_goal q) + 2)"
    "\<not> ok \<longrightarrow> path' = []"
    using unit_detour_ok [OF iw p s g D] by blast
  show ?case
  proof (cases ok)
    case True
    have "\<exists>m. \<forall>k. k \<noteq> m \<longrightarrow> axis_of k (pq_start q) = axis_of k (pq_goal q)" using D(3) by blast
    with r True show ?thesis by (intro exI [of _ True] exI [of _ path']) (simp add: t)
  next
    case False
    with r Cons.IH Cons.prems show ?thesis by (simp add: t)
  qed
qed (simp add: ex_bool_eq)

end

end
