(* ===== verification/Search_Weighted.thy ===== *)
theory Search_Weighted imports Search_Straight begin

text \<open>
  The whole of \<open>weighted_astar_path\<close>: the checks of the two ends, the straight routes and the search
  together return an exact answer, whatever the scratch held before.
\<close>

context search_world
begin

lemma shortest_answer:
  assumes iw: "inv w" and p: "prescan_applies A cls pr"
    and u: "unit_path w pr s path g n" and low: "\<And>qs. probe_path A cls pr w s qs g \<Longrightarrow> n \<le> int (length qs)"
    and r: "pr_status r = Found" "pr_path r = path" "unat (pr_cost r) = min (2 ^ 32 - 1) (nat n)"
  shows "exact_answer A cls pr w policy s g r"
proof -
  obtain ps where ps: "probe_path A cls pr w s ps g" "path = s # map tp_to ps" "int (path_cost ps) = n"
    using u by (auto simp: unit_path_def)
  have "path_cost ps \<le> path_cost qs" if "probe_path A cls pr w s qs g" for qs
    using low [OF that] path_gap [OF iw p that] ps(3) by linarith
  then show ?thesis
    using ps r unfolding exact_answer_def best_route_def by (auto intro!: exI [of _ ps])
qed

lemma unit_prescan_ok:
  assumes iw: "inv w" and p: "prescan_applies A cls pr" and s: "shape_contains (wa_shape A) (pq_start q)"
    and g: "shape_contains (wa_shape A) (pq_goal q)"
  shows "\<exists>straight path. unit_prescan A cls w q [] = Some (straight, path) \<and> (straight = None \<longrightarrow> path = [])
    \<and> (\<forall>c r. straight = Some c \<longrightarrow> pr_status r = Found \<longrightarrow> pr_path r = path \<longrightarrow> pr_cost r = c
         \<longrightarrow> exact_answer A cls pr w policy (pq_start q) (pq_goal q) r)"
proof -
  let ?s = "pq_start q" and ?g = "pq_goal q"
  have "\<forall>ms \<in> set (direct_orders (wa_shape A)). set ms = UNIV"
    by (auto simp: direct_orders_def UNIV_eq_I grid_axis.exhaust intro: grid_axis.exhaust)
  from first_direct_ok [OF iw p s g this, of False] obtain ok b path1 where
    one: "first_direct A cls w q (direct_orders (wa_shape A)) False [] = Some (ok, b, path1)"
    "b \<longrightarrow> hit w ?s ?g" "ok \<longrightarrow> unit_path w pr ?s path1 ?g (tile_gap ?s ?g)" "\<not> ok \<longrightarrow> path1 = []"
    by blast
  have low: "tile_gap ?s ?g \<le> int (length qs)" if "probe_path A cls pr w ?s qs ?g" for qs
    using path_gap [OF iw p that] by simp
  show ?thesis
  proof (cases ok)
    case True
    have "exact_answer A cls pr w policy ?s ?g r"
      if "pr_status r = Found" "pr_path r = path1" "pr_cost r = path_manhattan ?s ?g" for r
      using one(3) True that unat_path_manhattan [of ?s ?g] by (intro shortest_answer [OF iw p _ low]) simp_all
    then show ?thesis using one(1) True by (simp add: unit_prescan_def)
  next
    case False
    obtain ok2 path2 where two: "first_detour A cls w q b (unit_detours q) [] = Some (ok2, path2)"
      "ok2 \<longrightarrow> b \<and> (\<exists>m. \<forall>k. k \<noteq> m \<longrightarrow> axis_of k ?s = axis_of k ?g)
         \<and> unit_path w pr ?s path2 ?g (tile_gap ?s ?g + 2)" "\<not> ok2 \<longrightarrow> path2 = []"
      using first_detour_ok [OF iw p s g subset_refl] by blast
    have eq: "unit_prescan A cls w q [] = Some (if ok2 then Some (saturating_add_u32 (path_manhattan ?s ?g) 2) else None, path2)"
      using one(1,4) two(1) False by (simp add: unit_prescan_def)
    show ?thesis
    proof (cases ok2)
      case False
      then show ?thesis using eq two(3) by simp
    next
      case True
      then obtain m where m: "\<And>k. k \<noteq> m \<Longrightarrow> axis_of k ?s = axis_of k ?g" and h: "hit w ?s ?g"
        and u: "unit_path w pr ?s path2 ?g (tile_gap ?s ?g + 2)"
        using two(2) one(2) by blast
      obtain t where t: "t \<noteq> ?s" "between ?s t ?g" "\<not> (pass w t \<and> cost w t \<noteq> 0)"
        using h by (auto simp: hit_def)
      have low2: "tile_gap ?s ?g + 2 \<le> int (length qs)" if "probe_path A cls pr w ?s qs ?g" for qs
      proof -
        have "int (length qs) \<noteq> tile_gap ?s ?g"
          using path_line [OF iw p that _ m t(2,1)] t(3) by blast
        moreover have "even (int (length qs) - tile_gap ?s ?g)" "tile_gap ?s ?g \<le> int (length qs)"
          using path_gap [OF iw p that] by simp_all
        ultimately show ?thesis by presburger
      qed
      have "unat (saturating_add_u32 (path_manhattan ?s ?g) 2) = min (2 ^ 32 - 1) (nat (tile_gap ?s ?g + 2))"
        using tile_gap_basic(2) [of ?s ?g]
        by (simp add: unat_saturating_add_u32 unat_path_manhattan nat_add_distrib min_def)
      then have "exact_answer A cls pr w policy ?s ?g r"
        if "pr_status r = Found" "pr_path r = path2" "pr_cost r = saturating_add_u32 (path_manhattan ?s ?g) 2" for r
        using that by (intro shortest_answer [OF iw p u low2]) simp_all
      then show ?thesis using eq True by simp
    qed
  qed
qed

lemma unusable_end:
  assumes "inv w" "\<not> (shape_contains (wa_shape A) c \<and> tile_res w c \<and> pass w c)"
  shows "unusable A cls w c" "shape_contains (wa_shape A) c \<Longrightarrow> \<not> tile_res w c \<Longrightarrow> wa_sparse A"
proof -
  show sp: "shape_contains (wa_shape A) c \<Longrightarrow> \<not> tile_res w c \<Longrightarrow> wa_sparse A"
    using dense_resident [OF assms(1)] resolved(2) [OF assms(1)] by (auto simp: tile_res_def)
  show "unusable A cls w c"
  proof (cases "shape_contains (wa_shape A) c")
    case False
    then show ?thesis by (simp add: unusable_def is_passable_def try_resolve_def)
  next
    case True
    show ?thesis
    proof (cases "tile_res w c")
      case False
      then show ?thesis
        using sp [OF True] True resolved(1) [OF assms(1) True] try_at [OF assms(1) True]
        by (simp add: unusable_def is_passable_def try_resolve_def)
    next
      case res: True
      then show ?thesis using True assms(2) passable_at(1) [OF assms(1) res] by (simp add: unusable_def)
    qed
  qed
qed

lemma check_end_bad:
  assumes "inv w" "fits w" "\<not> (shape_contains (wa_shape A) c \<and> tile_res w c \<and> pass w c)"
  shows "\<exists>status. check_end A cls N w policy invalid c = Some (Some status)
    \<and> (status = invalid \<or> status = Indeterminate \<and> wa_sparse A \<and> policy = ReportIndeterminate)"
  using assms(3) unusable_end(2) [OF assms(1,3)]
  by (cases "shape_contains (wa_shape A) c"; cases "tile_res w c"; cases "policy = ReportIndeterminate")
     (simp_all add: check_end_eq [OF assms(1,2)])

lemma weighted_exact:
  assumes iw: "inv w" "fits w" and pv: "\<forall>c. tile_res w c \<longrightarrow> provider_forward pr w c \<noteq> None"
    and sc: "scratch_ok sc"
  shows "\<exists>r sc'. weighted_astar_path A cls N pr w policy tie q sc = Some (r, sc')
    \<and> exact_answer A cls pr w policy (pq_start q) (pq_goal q) r \<and> scratch_ok sc'"
proof -
  let ?s = "pq_start q" and ?g = "pq_goal q" and ?sc = "clear_scratch sc"
  note C = clear_scratch_fresh [OF sc]
  let ?bad = "\<lambda>c. \<not> (shape_contains (wa_shape A) c \<and> tile_res w c \<and> pass w c)"
  have answer: "exact_answer A cls pr w policy ?s ?g (make_result (mc_policy cls) status 0 0 0 [])"
    if "status = InvalidStart \<and> unusable A cls w ?s \<or> status = InvalidGoal \<and> unusable A cls w ?g
      \<or> status = Indeterminate \<and> wa_sparse A \<and> policy = ReportIndeterminate" for status
    using that by (auto simp: exact_answer_def make_result_def)
  note ce = check_end_eq [OF iw, of policy]
  consider "?bad ?s" | "\<not> ?bad ?s" "?bad ?g" | "\<not> ?bad ?s" "\<not> ?bad ?g" by blast
  then show ?thesis
  proof cases
    case 1
    note U = unusable_end [OF iw(1) 1]
    obtain status where "check_end A cls N w policy InvalidStart ?s = Some (Some status)"
      "status = InvalidStart \<or> status = Indeterminate \<and> wa_sparse A \<and> policy = ReportIndeterminate"
      using check_end_bad [OF iw 1, of policy InvalidStart] by blast
    moreover from this U(1) have "exact_answer A cls pr w policy ?s ?g (make_result (mc_policy cls) status 0 0 0 [])"
      by (intro answer) blast
    ultimately show ?thesis using C by (simp add: weighted_astar_path_def Let_def)
  next
    case 2
    note U = unusable_end [OF iw(1) 2(2)]
    have "check_end A cls N w policy InvalidStart ?s = Some None" using 2(1) by (simp add: ce)
    moreover obtain status where "check_end A cls N w policy InvalidGoal ?g = Some (Some status)"
      "status = InvalidGoal \<or> status = Indeterminate \<and> wa_sparse A \<and> policy = ReportIndeterminate"
      using check_end_bad [OF iw 2(2), of policy InvalidGoal] by blast
    moreover from this(2) U(1) have "exact_answer A cls pr w policy ?s ?g (make_result (mc_policy cls) status 0 0 0 [])"
      by (intro answer) blast
    ultimately show ?thesis using C by (simp add: weighted_astar_path_def Let_def)
  next
    case 3
    then have s: "shape_contains (wa_shape A) ?s" "tile_res w ?s" and g: "shape_contains (wa_shape A) ?g" "tile_res w ?g"
      by simp_all
    have ends: "check_end A cls N w policy InvalidStart ?s = Some None"
      "check_end A cls N w policy InvalidGoal ?g = Some None" using 3 by (simp_all add: ce)
    note ix = index_of_tile [OF iw(1) s(1)] index_of_tile [OF iw(1) g(1)]
    note co = passable_at(3) [OF iw(1) s(2)] passable_at(3) [OF iw(1) g(2)]
    let ?search = "\<lambda>path. search_from A cls N pr w policy tie q (index_of ?s) (index_of ?g) (?sc\<lparr>as_path := path\<rparr>)"
    have same: "?sc\<lparr>as_path := []\<rparr> = ?sc" using C(4) by (cases ?sc) simp
    have search: "\<exists>r sc'. ?search [] = Some (r, sc') \<and> exact_answer A cls pr w policy ?s ?g r \<and> scratch_ok sc'"
      using search_from_exact [OF iw s(2) g(2) pv C, where policy = policy] by (simp add: same)
    consider "cost w ?s = 0" | "cost w ?s \<noteq> 0" "cost w ?g = 0" | "cost w ?s \<noteq> 0" "cost w ?g \<noteq> 0" by blast
    then show ?thesis
    proof cases
      case 1
      then have "unusable A cls w ?s" by (simp add: unusable_def ix co)
      then show ?thesis using 1 ends ix co answer [of InvalidStart] C by (simp add: weighted_astar_path_def Let_def)
    next
      case 2
      then have "unusable A cls w ?g" by (simp add: unusable_def ix co)
      then show ?thesis using 2 ends ix co answer [of InvalidGoal] C by (simp add: weighted_astar_path_def Let_def)
    next
      case 3
      show ?thesis
      proof (cases "prescan_applies A cls pr")
        case False
        then show ?thesis using 3 ends ix co search C(4) same by (simp add: weighted_astar_path_def Let_def)
      next
        case True
        obtain straight path where pre: "unit_prescan A cls w q [] = Some (straight, path)"
          "straight = None \<longrightarrow> path = []"
          "\<And>c r. straight = Some c \<Longrightarrow> pr_status r = Found \<Longrightarrow> pr_path r = path \<Longrightarrow> pr_cost r = c
             \<Longrightarrow> exact_answer A cls pr w policy ?s ?g r"
          using unit_prescan_ok [OF iw(1) True s(1) g(1), where policy = policy] by blast
        show ?thesis
        proof (cases straight)
          case None
          then show ?thesis using 3 True ends ix co search C(4) pre(1,2) by (simp add: same weighted_astar_path_def Let_def)
        next
          case (Some c)
          have "exact_answer A cls pr w policy ?s ?g
              (make_result (mc_policy cls) Found c (of_nat (length path)) (of_nat (length path)) path)"
            by (rule pre(3) [OF Some]) (simp_all add: make_result_def)
          moreover have "scratch_ok (?sc\<lparr>as_path := path\<rparr>)" using C(1) by (simp add: scratch_ok_def)
          ultimately show ?thesis
            using 3 True Some ends ix co C(4) pre(1) by (simp add: weighted_astar_path_def Let_def)
        qed
      qed
    qed
  qed
qed

end

end
