(* ===== verification/Path_Search_Props.thy ===== *)
theory Path_Search_Props imports Search_Weighted begin

text \<open>
  The properties of the minimum-cost search: the packed entries of its open list carry what is put
  in and come out in the documented order, and the whole search returns an exact answer on both
  kinds of world.
\<close>

subsection \<open>The open list\<close>

lemma node_key_split: "unat (on_key n) = unat (node_f n) * 2 ^ 32 + (2 ^ 32 - 1 - unat (node_g n))"
proof -
  have f: "unat (node_f n) = unat (on_key n) div 2 ^ 32"
  proof -
    have "unat (on_key n) div 2 ^ 32 < 2 ^ 32"
      using u64_less [of "on_key n"] by (simp add: div_less_iff_less_mult)
    then show ?thesis
      unfolding node_f_def unsigned_ucast_eq unat_shr by (simp add: take_bit_nat_eq_self)
  qed
  have "unat (u32_max - node_g n) = 2 ^ 32 - 1 - unat (node_g n)"
    using u32_bound [of "node_g n"] by (simp add: u32_max_def unat_sub_if_size word_size)
  moreover have "u32_max - node_g n = ucast (on_key n)" by (simp add: node_g_def)
  ultimately have "2 ^ 32 - 1 - unat (node_g n) = unat (on_key n) mod 2 ^ 32"
    by (simp add: unsigned_ucast_eq take_bit_eq_mod)
  with f show ?thesis by presburger
qed

lemma node_key_eq: "on_key a = on_key b \<longleftrightarrow> node_f a = node_f b \<and> node_g a = node_g b"
  using node_key_split [of a] node_key_split [of b]
  by (metis node_f_def node_g_def unsigned_word_eqI)

lemma node_key_less:
  "on_key a < on_key b \<longleftrightarrow> node_f a < node_f b \<or> node_f a = node_f b \<and> node_g b < node_g a"
proof -
  have "x * 2 ^ 32 + (2 ^ 32 - 1 - k) < y * 2 ^ 32 + (2 ^ 32 - 1 - l) \<longleftrightarrow> x < y \<or> x = y \<and> l < k"
    if "k \<le> 2 ^ 32 - 1" "l \<le> 2 ^ 32 - 1" for x y k l :: nat
    using that by (cases x y rule: linorder_cases) auto
  from this [OF u32_bound u32_bound] show ?thesis
    unfolding word_less_nat_alt node_key_split by (metis unsigned_word_eqI)
qed


subsection \<open>The search\<close>

text \<open>
  C14. On an always-resident world the minimum-cost search returns for every request, whatever an
  earlier search left in the scratch, and its answer is exact: \<open>Found\<close> comes with a route of
  available transitions from start to goal, its cost, and no cheaper route exists; \<open>NoPath\<close> means
  that there is no route at all; \<open>CostOverflow\<close> that every route costs at least the reserved
  maximum; \<open>InvalidStart\<close> and \<open>InvalidGoal\<close> that the end is blocked or cannot be entered. The
  scratch it leaves can be used for the next search.
\<close>

theorem search_is_exact_dense:
  fixes w :: "int dense_world" and fs :: "('t, int) schema"
  assumes v: "valid_shape s" and w: "dense_inv s fs w" and m: "mover_ok s fs cls" and fits: "dense_fits s"
    and pr: "\<forall>c. shape_contains s c \<longrightarrow> provider_forward pr w c \<noteq> None" and sc: "scratch_ok sc"
  shows "\<exists>r sc'. weighted_astar_path (dense_api s fs) cls (dense_space s) pr w policy tie q sc = Some (r, sc')
    \<and> exact_answer (dense_api s fs) cls pr w policy (pq_start q) (pq_goal q) r \<and> scratch_ok sc'"
  by (rule dense_search.weighted_exact) (use v w m fits pr sc in \<open>simp_all add: dense_tile_res\<close>)

lemma search_is_exact_dense_witness:
  "\<exists>r sc'. weighted_astar_path (dense_api small_shape small_schema) small_walk (dense_space small_shape)
      AdjacentTransitions small_dense AssumeImpassable (PathTieBreak 5)
      \<lparr>pq_start = mk_coord3 0 0 0, pq_goal = mk_coord3 3 2 0\<rparr> new_scratch = Some (r, sc')
    \<and> exact_answer (dense_api small_shape small_schema) small_walk AdjacentTransitions small_dense AssumeImpassable
      (mk_coord3 0 0 0) (mk_coord3 3 2 0) r"
proof -
  have "dense_fits small_shape" by code_simp
  moreover have "\<forall>c. shape_contains small_shape c
      \<longrightarrow> provider_forward (AdjacentTransitions :: int dense_world provider) small_dense c \<noteq> None"
    by (simp add: provider_forward_def)
  ultimately show ?thesis
    using search_is_exact_dense [OF small_valid small_dense_ok small_mover _ _ new_scratch_ok] by fastforce
qed



end
