(* ===== verification/Joint_Move.thy ===== *)
theory Joint_Move imports Path_Agent begin

text \<open>
  \<open>sim/joint_movement.h\<close>: one tick's moves decided as a set, so that a tile left in the same tick can
  be entered. A round validates every agent's next step, claims free targets in span order, admits
  moves into tiles being left, admits cycles, and applies what was admitted at once. The observer
  is modelled by the list of its calls; the buffers of a round are rebuilt at its start, so they are
  no argument.
\<close>

subsection \<open>Options, statistics and buffers\<close>

datatype swap_policy = ForbidSwap | PermitSwap | PermitOnDeadlock

record joint_move_options =
  jo_swap_policy :: swap_policy
  jo_deadlock_ticks :: u32

record joint_move_stats =
  jm_chained :: u64
  jm_rotations :: u64
  jm_swaps :: u64
  jm_swaps_denied :: u64

definition no_joint_stats :: joint_move_stats where
  "no_joint_stats = \<lparr>jm_chained = 0, jm_rotations = 0, jm_swaps = 0, jm_swaps_denied = 0\<rparr>"

datatype joint_state = Inactive_move | Pending_move | Admitted_move | Failed_move

text \<open>The two parallel arrays of the position index are a list of pairs.\<close>

record joint_scratch =
  js_occupants :: "(u64 \<times> u32) list"
  js_claimed :: "u64 list"
  js_desired :: "coord3 list"
  js_state :: "joint_state list"
  js_failure :: "movement_status list"

definition no_agent :: u32 where
  "no_agent = - 1"

text \<open>A key of more than 64 bits has no place in the arrays.\<close>

definition joint_key :: "shape \<Rightarrow> coord3 \<Rightarrow> u64 option" where
  "joint_key s c = Option.bind (tile_key s c) (\<lambda>k. case k of TileKey64 v \<Rightarrow> Some v | TileKey128 v \<Rightarrow> None)"

text \<open>The insertion sort by key: the new entry moves left past the greater ones.\<close>

fun sink_entry :: "u64 \<times> u32 \<Rightarrow> (u64 \<times> u32) list \<Rightarrow> (u64 \<times> u32) list" where
  "sink_entry p [] = [p]"
| "sink_entry p (q # left) = (if fst p < fst q then q # sink_entry p left else p # q # left)"

definition sort_entries :: "(u64 \<times> u32) list \<Rightarrow> (u64 \<times> u32) list" where
  "sort_entries ps = rev (fold sink_entry ps [])"

fun position_entries :: "shape \<Rightarrow> nat \<Rightarrow> path_agent list \<Rightarrow> (u64 \<times> u32) list option" where
  "position_entries s i [] = Some []"
| "position_entries s i (a # as) = do {
     k \<leftarrow> joint_key s (pa_position a);
     rest \<leftarrow> position_entries s (Suc i) as;
     Some ((k, of_nat i) # rest)
   }"

definition joint_find_occupant :: "joint_scratch \<Rightarrow> u64 \<Rightarrow> u32" where
  "joint_find_occupant sc key =
     (case dropWhile (\<lambda>p. fst p < key) (js_occupants sc) of
        [] \<Rightarrow> no_agent
      | p # ps \<Rightarrow> if fst p \<noteq> key then no_agent else snd p)"

definition joint_claim :: "u64 \<Rightarrow> joint_scratch \<Rightarrow> bool \<times> joint_scratch" where
  "joint_claim key sc =
     (let below = takeWhile (\<lambda>k. k < key) (js_claimed sc); above = dropWhile (\<lambda>k. k < key) (js_claimed sc) in
      if above \<noteq> [] \<and> hd above = key then (False, sc)
      else (True, sc\<lparr>js_claimed := below @ key # above\<rparr>))"

definition start_round :: "shape \<Rightarrow> path_agent list \<Rightarrow> joint_scratch option" where
  "start_round s agents = map_option (\<lambda>es.
     \<lparr>js_occupants = sort_entries es, js_claimed = [], js_desired = replicate (length agents) default_coord3,
      js_state = replicate (length agents) Inactive_move, js_failure = replicate (length agents) Moved\<rparr>)
     (position_entries s 0 agents)"

definition set_state :: "nat \<Rightarrow> joint_state \<Rightarrow> joint_scratch \<Rightarrow> joint_scratch option" where
  "set_state i st sc = map_option (\<lambda>sts. sc\<lparr>js_state := sts\<rparr>) (upd_opt (js_state sc) i st)"

definition set_failed :: "nat \<Rightarrow> movement_status \<Rightarrow> joint_scratch \<Rightarrow> joint_scratch option" where
  "set_failed i st sc = Option.bind (set_state i Failed_move sc)
     (\<lambda>sc1. map_option (\<lambda>fs. sc1\<lparr>js_failure := fs\<rparr>) (upd_opt (js_failure sc1) i st))"

definition set_desired :: "nat \<Rightarrow> coord3 \<Rightarrow> joint_scratch \<Rightarrow> joint_scratch option" where
  "set_desired i to sc = map_option (\<lambda>ds. sc\<lparr>js_desired := ds\<rparr>) (upd_opt (js_desired sc) i to)"

text \<open>Admission, when the target is not yet claimed.\<close>

definition admit_claimed :: "nat \<Rightarrow> bool \<times> joint_scratch \<Rightarrow> joint_scratch option" where
  "admit_claimed i = (\<lambda>(claimed, sc). if claimed then set_state i Admitted_move sc else set_failed i Occupied sc)"

subsection \<open>Validation and claims\<close>

definition joint_validate ::
    "('t, 'w) tile_api \<Rightarrow> 't movement_class \<Rightarrow> 't \<Rightarrow> 't \<Rightarrow> 'w \<Rightarrow> path_agent list \<Rightarrow> path_agent_routes
     \<Rightarrow> nat \<Rightarrow> joint_scratch \<times> bool \<Rightarrow> (joint_scratch \<times> bool) option" where
  "joint_validate A cls otag rtag w agents routes i = (\<lambda>(sc, any_pending). do {
     agent \<leftarrow> nth_opt agents i;
     if \<not> wants_to_move agent then Some (sc, any_pending)
     else do {
       route \<leftarrow> nth_opt routes i;
       if \<not> has_next_step (pa_path_index agent) (of_nat (length route)) then Some (sc, any_pending)
       else do {
         to \<leftarrow> nth_opt route (unat (pa_path_index agent + 1));
         verdict \<leftarrow> validate_adjacent_intent A cls otag rtag w
           \<lparr>mi_from = pa_position agent, mi_to = to, mi_versions = no_versions\<rparr>;
         sc1 \<leftarrow> set_desired i to sc;
         if mr_status verdict = Moved then do {
           key \<leftarrow> joint_key (wa_shape A) to;
           map_option (\<lambda>sc2. (sc2, any_pending)) (admit_claimed i (joint_claim key sc1))
         }
         else if mr_status verdict = Occupied then do {
           reserved \<leftarrow> tile_value_at A w rtag to;
           if reserved \<noteq> 0 then map_option (\<lambda>sc2. (sc2, any_pending)) (set_failed i Reserved sc1)
           else map_option (\<lambda>sc2. (sc2, True)) (set_state i Pending_move sc1)
         }
         else map_option (\<lambda>sc2. (sc2, any_pending)) (set_failed i (mr_status verdict) sc1)
       }
     }
   })"

subsection \<open>Chains\<close>

definition joint_chain ::
    "shape \<Rightarrow> nat \<Rightarrow> joint_scratch \<times> u64 \<times> bool \<Rightarrow> (joint_scratch \<times> u64 \<times> bool) option" where
  "joint_chain s i = (\<lambda>(sc, chained, changed). do {
     state \<leftarrow> nth_opt (js_state sc) i;
     if state \<noteq> Pending_move then Some (sc, chained, changed)
     else do {
       to \<leftarrow> nth_opt (js_desired sc) i;
       key \<leftarrow> joint_key s to;
       let occupant = joint_find_occupant sc key;
       vacating \<leftarrow> (if occupant = no_agent then Some False
                    else map_option (\<lambda>st. st = Admitted_move) (nth_opt (js_state sc) (unat occupant)));
       if \<not> vacating then Some (sc, chained, changed)
       else map_option (\<lambda>sc2. (sc2, (if fst (joint_claim key sc) then chained + 1 else chained), True))
         (admit_claimed i (joint_claim key sc))
     }
   })"

definition chain_pass :: "shape \<Rightarrow> joint_scratch \<Rightarrow> u64 \<Rightarrow> (joint_scratch \<times> u64 \<times> bool) option" where
  "chain_pass s sc chained = fold_opt (joint_chain s) [0..<length (js_state sc)] (sc, chained, False)"

definition pending_count :: "joint_scratch \<Rightarrow> nat" where
  "pending_count sc = length (filter (\<lambda>st. st = Pending_move) (js_state sc))"

lemma filter_update_less:
  "i < length xs \<Longrightarrow> P (xs ! i) \<Longrightarrow> \<not> P y \<Longrightarrow> length (filter P (xs[i := y])) < length (filter P xs)"
proof (induction xs arbitrary: i)
  case (Cons x xs)
  then show ?case by (cases i) simp_all
qed simp

lemma claim_keeps: "joint_claim key sc = (b, sc') \<Longrightarrow> js_state sc' = js_state sc \<and> js_desired sc' = js_desired sc
    \<and> js_failure sc' = js_failure sc \<and> js_occupants sc' = js_occupants sc"
  by (auto simp: joint_claim_def Let_def split: if_splits)

lemma admit_pending:
  assumes "admit_claimed i (joint_claim key sc) = Some sc'" "nth_opt (js_state sc) i = Some Pending_move"
  shows "pending_count sc' < pending_count sc"
proof -
  obtain b sc1 where c: "joint_claim key sc = (b, sc1)" by (cases "joint_claim key sc")
  then show ?thesis
    using assms claim_keeps [OF c] filter_update_less [of i "js_state sc" "\<lambda>st. st = Pending_move"]
    by (auto simp: admit_claimed_def set_state_def set_failed_def pending_count_def bind_eq_Some_conv split: if_splits)
qed

lemma joint_chain_pending:
  assumes "joint_chain s i (sc, n, b) = Some (sc', n', b')"
  shows "pending_count sc' \<le> pending_count sc \<and> (b' \<longrightarrow> b \<or> pending_count sc' < pending_count sc)"
  using assms admit_pending [of i _ sc sc']
  by (auto simp: joint_chain_def bind_eq_Some_conv Let_def less_imp_le simp del: nth_opt_Some split: if_splits)

lemma chain_fold_pending:
  "fold_opt (joint_chain s) is (sc, n, b) = Some (sc', n', b')
   \<Longrightarrow> pending_count sc' \<le> pending_count sc \<and> (b' \<longrightarrow> b \<or> pending_count sc' < pending_count sc)"
proof (induction "is" arbitrary: sc n b)
  case (Cons i "is")
  then obtain sc1 n1 b1 where one: "joint_chain s i (sc, n, b) = Some (sc1, n1, b1)"
    and rest: "fold_opt (joint_chain s) is (sc1, n1, b1) = Some (sc', n', b')"
    by (auto simp: bind_eq_Some_conv)
  from joint_chain_pending [OF one] Cons.IH [OF rest] show ?case by (meson le_less_trans less_le_trans le_trans)
qed simp

lemma chain_pass_pending: "chain_pass s sc n = Some (sc', n', True) \<Longrightarrow> pending_count sc' < pending_count sc"
  unfolding chain_pass_def using chain_fold_pending by blast

text \<open>Every pass that changes something settles an agent, so the passes end.\<close>

function chain_loop :: "shape \<Rightarrow> joint_scratch \<Rightarrow> u64 \<Rightarrow> (joint_scratch \<times> u64) option" where
  "chain_loop s sc chained =
     (case chain_pass s sc chained of
        None \<Rightarrow> None
      | Some (sc', chained', changed) \<Rightarrow> if changed then chain_loop s sc' chained' else Some (sc', chained'))"
  by pat_completeness auto
termination
  by (relation "measure (\<lambda>(s, sc, chained). pending_count sc)") (auto dest: chain_pass_pending)

subsection \<open>Cycles\<close>

text \<open>
  The walk from an agent along the occupants of the wanted tiles, with the flags of this walk, of
  all walks, and its order.
\<close>

function joint_walk ::
    "shape \<Rightarrow> joint_scratch \<Rightarrow> u32 \<Rightarrow> bool list \<times> bool list \<times> u32 list \<Rightarrow> (u32 \<times> bool list \<times> bool list \<times> u32 list) option" where
  "joint_walk s sc at (on_walk, walked, cycle_walk) =
     (if at = no_agent then Some (at, on_walk, walked, cycle_walk)
      else case nth_opt (js_state sc) (unat at) of
        None \<Rightarrow> None
      | Some state \<Rightarrow>
          if state \<noteq> Pending_move then Some (at, on_walk, walked, cycle_walk)
          else (case nth_opt on_walk (unat at) of
            None \<Rightarrow> None
          | Some on \<Rightarrow>
              if on then Some (at, on_walk, walked, cycle_walk)
              else (case upd_opt walked (unat at) True of
                None \<Rightarrow> None
              | Some walked' \<Rightarrow>
                  (case Option.bind (nth_opt (js_desired sc) (unat at)) (joint_key s) of
                    None \<Rightarrow> None
                  | Some key \<Rightarrow> joint_walk s sc (joint_find_occupant sc key)
                      (on_walk[unat at := True], walked', cycle_walk @ [at])))))"
  by pat_completeness auto

termination
  by (relation "measure (\<lambda>(s, sc, at, on_walk, walked, cycle_walk). length (filter Not on_walk))")
     (auto intro: filter_update_less)

definition admit_swap :: "joint_move_options \<Rightarrow> path_agent \<Rightarrow> path_agent \<Rightarrow> bool" where
  "admit_swap opts a b =
     (case jo_swap_policy opts of
        PermitSwap \<Rightarrow> True
      | PermitOnDeadlock \<Rightarrow> jo_deadlock_ticks opts \<le> pa_blocked_retries a \<and> jo_deadlock_ticks opts \<le> pa_blocked_retries b
      | ForbidSwap \<Rightarrow> False)"

text \<open>Whether a closed walk is admitted, and the statistics of the decision.\<close>

definition admit_cycle ::
    "joint_move_options \<Rightarrow> path_agent list \<Rightarrow> u32 list \<Rightarrow> joint_move_stats \<Rightarrow> (bool \<times> joint_move_stats) option" where
  "admit_cycle opts agents members stats =
     (if 3 \<le> length members then Some (True, stats\<lparr>jm_rotations := jm_rotations stats + 1\<rparr>)
      else case members of
        [i, j] \<Rightarrow> do {
          a \<leftarrow> nth_opt agents (unat i);
          b \<leftarrow> nth_opt agents (unat j);
          Some (if admit_swap opts a b then (True, stats\<lparr>jm_swaps := jm_swaps stats + 1\<rparr>)
                else (False, stats\<lparr>jm_swaps_denied := jm_swaps_denied stats + 1\<rparr>))
        }
      | _ \<Rightarrow> Some (False, stats))"

definition settle_member :: "shape \<Rightarrow> bool \<Rightarrow> u32 \<Rightarrow> joint_scratch \<Rightarrow> joint_scratch option" where
  "settle_member s admit member sc =
     (if admit then do {
        to \<leftarrow> nth_opt (js_desired sc) (unat member);
        key \<leftarrow> joint_key s to;
        set_state (unat member) Admitted_move (snd (joint_claim key sc))
      }
      else set_failed (unat member) Occupied sc)"

definition joint_cycle ::
    "shape \<Rightarrow> joint_move_options \<Rightarrow> path_agent list \<Rightarrow> nat \<Rightarrow> joint_scratch \<times> bool list \<times> joint_move_stats
     \<Rightarrow> (joint_scratch \<times> bool list \<times> joint_move_stats) option" where
  "joint_cycle s opts agents start = (\<lambda>(sc, walked, stats). do {
     state \<leftarrow> nth_opt (js_state sc) start;
     seen \<leftarrow> nth_opt walked start;
     if state \<noteq> Pending_move \<or> seen then Some (sc, walked, stats)
     else do {
       (at, on_walk, walked1, cycle_walk) \<leftarrow>
          joint_walk s sc (of_nat start) (replicate (length agents) False, walked, []);
       closed \<leftarrow> (if at = no_agent then Some False else nth_opt on_walk (unat at));
       if \<not> closed then Some (sc, walked1, stats)
       else do {
         let members = dropWhile (\<lambda>k. k \<noteq> at) cycle_walk;
         (admit, stats1) \<leftarrow> admit_cycle opts agents members stats;
         sc1 \<leftarrow> fold_opt (settle_member s admit) members sc;
         Some (sc1, walked1, stats1)
       }
     }
   })"

definition settle_waiting :: "nat \<Rightarrow> joint_scratch \<Rightarrow> joint_scratch option" where
  "settle_waiting i sc = do {
     state \<leftarrow> nth_opt (js_state sc) i;
     if state = Pending_move then set_failed i Occupied sc else Some sc
   }"

text \<open>The decisions of a round.\<close>

definition joint_decide ::
    "('t, 'w) tile_api \<Rightarrow> 't movement_class \<Rightarrow> 't \<Rightarrow> 't \<Rightarrow> joint_move_options \<Rightarrow> 'w \<Rightarrow> path_agent list
     \<Rightarrow> path_agent_routes \<Rightarrow> joint_move_stats \<Rightarrow> (joint_scratch \<times> joint_move_stats) option" where
  "joint_decide A cls otag rtag opts w agents routes stats = do {
     let s = wa_shape A;
     let n = length agents;
     sc0 \<leftarrow> start_round s agents;
     (sc1, any_pending) \<leftarrow> fold_opt (joint_validate A cls otag rtag w agents routes) [0..<n] (sc0, False);
     (sc2, chained) \<leftarrow> (if any_pending then chain_loop s sc1 (jm_chained stats) else Some (sc1, jm_chained stats));
     (sc3, walked, stats1) \<leftarrow> fold_opt (joint_cycle s opts agents) [0..<n]
        (sc2, replicate n False, stats\<lparr>jm_chained := chained\<rparr>);
     sc4 \<leftarrow> fold_opt settle_waiting [0..<n] sc3;
     Some (sc4, stats1)
   }"

subsection \<open>Application\<close>

definition set_tile_at :: "('t, 'w) tile_api \<Rightarrow> 't \<Rightarrow> coord3 \<Rightarrow> int \<Rightarrow> 'w \<Rightarrow> 'w option" where
  "set_tile_at A t c v w = do {
     r \<leftarrow> resolve (wa_shape A) c;
     wa_set_tile A w (rt_chunk_key r) t (rt_local_tile_id r) v
   }"

definition clear_source ::
    "('t, 'w) tile_api \<Rightarrow> 't \<Rightarrow> path_agent list \<Rightarrow> joint_scratch \<Rightarrow> nat \<Rightarrow> 'w \<times> nat \<Rightarrow> ('w \<times> nat) option" where
  "clear_source A otag agents sc i = (\<lambda>(w, admitted_count). do {
     state \<leftarrow> nth_opt (js_state sc) i;
     agent \<leftarrow> nth_opt agents i;
     if state = Admitted_move
     then map_option (\<lambda>w1. (w1, Suc admitted_count)) (set_tile_at A otag (pa_position agent) 0 w)
     else Some (w, admitted_count)
   })"

definition mark_move :: "('t, 'w) tile_api \<Rightarrow> dirty_mask \<Rightarrow> coord3 \<Rightarrow> coord3 \<Rightarrow> 'w \<Rightarrow> 'w option" where
  "mark_move A dirty from to w =
     (let s = wa_shape A in
      if dirty_empty dirty then Some w
      else Option.bind (wa_mark_dirty A w (chunk_key s (chunk_coord s from)) dirty (unit_box from))
        (\<lambda>w1. wa_mark_dirty A w1 (chunk_key s (chunk_coord s to)) dirty (unit_box to)))"

definition apply_joint ::
    "('t, 'w) tile_api \<Rightarrow> 't \<Rightarrow> 't \<Rightarrow> dirty_mask \<Rightarrow> joint_scratch \<Rightarrow> nat \<Rightarrow> path_agent list \<times> 'w advance_state
     \<Rightarrow> (path_agent list \<times> 'w advance_state) option" where
  "apply_joint A otag rtag dirty sc i = (\<lambda>(agents, d). do {
     state \<leftarrow> nth_opt (js_state sc) i;
     agent \<leftarrow> nth_opt agents i;
     case state of
       Admitted_move \<Rightarrow> do {
         to \<leftarrow> nth_opt (js_desired sc) i;
         w1 \<leftarrow> set_tile_at A otag to 1 (ad_world d);
         w2 \<leftarrow> set_tile_at A rtag to 0 w1;
         w3 \<leftarrow> mark_move A dirty (pa_position agent) to w2;
         let (agent1, acct, s1) = arrive_if_there (step_along to agent)
           (ad_accounting d, (ad_stats d)\<lparr>ps_advanced := ps_advanced (ad_stats d) + 1\<rparr>);
         Some (agents[i := agent1], \<lparr>ad_world = w3, ad_accounting = acct, ad_stats = s1,
           ad_commits = ad_commits d @ [(i, pa_position agent, to)]\<rparr>)
       }
     | Failed_move \<Rightarrow> do {
         status \<leftarrow> nth_opt (js_failure sc) i;
         let (agent1, d1) = refuse_step status agent d;
         Some (agents[i := agent1], d1)
       }
     | Inactive_move \<Rightarrow> Some (agents, d)
     | Pending_move \<Rightarrow> Some (agents, d)
   })"

text \<open>One round: the agents, what they changed, the statistics and the number of moves.\<close>

definition joint_round ::
    "('t, 'w) tile_api \<Rightarrow> 't movement_class \<Rightarrow> 't \<Rightarrow> 't \<Rightarrow> joint_move_options \<Rightarrow> dirty_mask \<Rightarrow> path_agent_routes
     \<Rightarrow> path_agent list \<Rightarrow> 'w advance_state \<Rightarrow> joint_move_stats
     \<Rightarrow> (path_agent list \<times> 'w advance_state \<times> joint_move_stats \<times> nat) option" where
  "joint_round A cls otag rtag opts dirty routes agents d stats = do {
     (sc, stats1) \<leftarrow> joint_decide A cls otag rtag opts (ad_world d) agents routes stats;
     (w1, admitted_count) \<leftarrow> fold_opt (clear_source A otag agents sc) [0..<length agents] (ad_world d, 0);
     (agents1, d1) \<leftarrow> fold_opt (apply_joint A otag rtag dirty sc) [0..<length agents] (agents, d\<lparr>ad_world := w1\<rparr>);
     Some (agents1, d1, stats1, admitted_count)
   }"

fun joint_rounds ::
    "('t, 'w) tile_api \<Rightarrow> 't movement_class \<Rightarrow> 't \<Rightarrow> 't \<Rightarrow> joint_move_options \<Rightarrow> dirty_mask \<Rightarrow> path_agent_routes
     \<Rightarrow> nat \<Rightarrow> path_agent list \<Rightarrow> 'w advance_state \<Rightarrow> joint_move_stats
     \<Rightarrow> (path_agent list \<times> 'w advance_state \<times> joint_move_stats) option" where
  "joint_rounds A cls otag rtag opts dirty routes 0 agents d stats = Some (agents, d, stats)"
| "joint_rounds A cls otag rtag opts dirty routes (Suc n) agents d stats = do {
     (agents1, d1, stats1, admitted_count) \<leftarrow> joint_round A cls otag rtag opts dirty routes agents d stats;
     if admitted_count = 0 then Some (agents1, d1, stats1)
     else joint_rounds A cls otag rtag opts dirty routes n agents1 d1 stats1
   }"

definition advance_path_agents_with_joint_movement ::
    "('t, 'w) tile_api \<Rightarrow> 't movement_class \<Rightarrow> 't \<Rightarrow> 't \<Rightarrow> joint_move_options \<Rightarrow> path_agent_advance_options
     \<Rightarrow> path_agent list \<Rightarrow> path_agent_routes \<Rightarrow> flow_accounting option \<Rightarrow> 'w
     \<Rightarrow> (path_agent list \<times> 'w advance_state \<times> joint_move_stats) option" where
  "advance_path_agents_with_joint_movement A cls otag rtag opts advance_opts agents routes acct w =
     (let d = \<lparr>ad_world = w, ad_accounting = acct, ad_stats = no_agent_stats, ad_commits = []\<rparr> in
      if length routes < length agents then None
      else joint_rounds A cls otag rtag opts (ao_dirty_mask advance_opts) routes (unat (ao_max_steps advance_opts))
        agents d no_joint_stats)"

end
