(* ===== verification/Joint_Laws.thy ===== *)
theory Joint_Laws imports Joint_Move begin

text \<open>
  The decisions of a joint round as a state of an abstract admission: who is admitted, whose move
  failed, and what a failure as occupied rests on. Each stage of the round keeps the invariant of the
  abstract state, and the buffers represent it.
\<close>

subsection \<open>The abstract admission\<close>

text \<open>
  Targets of admitted moves are distinct, a target on which an agent of the batch stands is left in
  the same round, two agents exchange tiles only when \<open>ok\<close> allows it, and a target refused as occupied
  is a target of an admitted move or stays held by an agent whose move failed.
\<close>

definition admission ::
    "nat \<Rightarrow> (nat \<Rightarrow> coord3) \<Rightarrow> (nat \<Rightarrow> nat \<Rightarrow> bool) \<Rightarrow> (nat \<Rightarrow> joint_state) \<Rightarrow> (nat \<Rightarrow> movement_status) \<Rightarrow> (nat \<Rightarrow> coord3) \<Rightarrow> bool" where
  "admission n pos ok st fl ds \<longleftrightarrow>
     (\<forall>i < n. st i = Pending_move \<longrightarrow> (\<exists>j < n. pos j = ds i))
     \<and> (\<forall>i < n. \<forall>j < n. st i = Admitted_move \<and> st j = Admitted_move \<and> ds i = ds j \<longrightarrow> i = j)
     \<and> (\<forall>i < n. \<forall>j < n. st i = Admitted_move \<and> ds i = pos j \<longrightarrow> st j = Admitted_move)
     \<and> (\<forall>i < n. \<forall>j < n. st i = Admitted_move \<and> st j = Admitted_move \<and> i \<noteq> j \<and> ds i = pos j \<and> ds j = pos i \<longrightarrow> ok i j)
     \<and> (\<forall>i < n. st i = Failed_move \<and> fl i = Occupied \<longrightarrow>
          (\<exists>j < n. st j = Admitted_move \<and> ds j = ds i) \<or> (\<exists>j < n. pos j = ds i \<and> st j = Failed_move))"

lemma admissionD:
  assumes "admission n pos ok st fl ds" "i < n"
  shows "st i = Pending_move \<Longrightarrow> \<exists>j < n. pos j = ds i"
    "j < n \<Longrightarrow> st i = Admitted_move \<Longrightarrow> st j = Admitted_move \<Longrightarrow> ds i = ds j \<Longrightarrow> i = j"
    "j < n \<Longrightarrow> st i = Admitted_move \<Longrightarrow> ds i = pos j \<Longrightarrow> st j = Admitted_move"
    "j < n \<Longrightarrow> st i = Admitted_move \<Longrightarrow> st j = Admitted_move \<Longrightarrow> i \<noteq> j \<Longrightarrow> ds i = pos j \<Longrightarrow> ds j = pos i \<Longrightarrow> ok i j"
    "st i = Failed_move \<Longrightarrow> fl i = Occupied \<Longrightarrow>
      (\<exists>j < n. st j = Admitted_move \<and> ds j = ds i) \<or> (\<exists>j < n. pos j = ds i \<and> st j = Failed_move)"
  using assms unfolding admission_def by blast+

lemma admissionI:
  assumes "\<And>i. i < n \<Longrightarrow> st i = Pending_move \<Longrightarrow> \<exists>j < n. pos j = ds i"
    and "\<And>i j. i < n \<Longrightarrow> j < n \<Longrightarrow> st i = Admitted_move \<Longrightarrow> st j = Admitted_move \<Longrightarrow> ds i = ds j \<Longrightarrow> i = j"
    and "\<And>i j. i < n \<Longrightarrow> j < n \<Longrightarrow> st i = Admitted_move \<Longrightarrow> ds i = pos j \<Longrightarrow> st j = Admitted_move"
    and "\<And>i j. i < n \<Longrightarrow> j < n \<Longrightarrow> st i = Admitted_move \<Longrightarrow> st j = Admitted_move \<Longrightarrow> i \<noteq> j \<Longrightarrow> ds i = pos j
      \<Longrightarrow> ds j = pos i \<Longrightarrow> ok i j"
    and "\<And>i. i < n \<Longrightarrow> st i = Failed_move \<Longrightarrow> fl i = Occupied \<Longrightarrow>
      (\<exists>j < n. st j = Admitted_move \<and> ds j = ds i) \<or> (\<exists>j < n. pos j = ds i \<and> st j = Failed_move)"
  shows "admission n pos ok st fl ds"
  unfolding admission_def by (intro conjI allI impI) (use assms in blast)+

lemma admission_start: "admission n pos ok (\<lambda>i. Inactive_move) fl ds"
  by (simp add: admission_def)

text \<open>An agent is admitted to a tile that nobody claimed and that is free or being left.\<close>

lemma admission_admit:
  assumes a: "admission n pos ok st fl ds" and i: "i < n" "st i = Inactive_move \<or> st i = Pending_move"
    and free: "\<And>j. j < n \<Longrightarrow> st j = Admitted_move \<Longrightarrow> ds j \<noteq> c"
    and left: "\<And>j. j < n \<Longrightarrow> pos j = c \<Longrightarrow> st j = Admitted_move"
  shows "admission n pos ok (st(i := Admitted_move)) fl (ds(i := c))"
proof (rule admissionI)
  note D = admissionD [OF a]
  have not: "st i \<noteq> Admitted_move" "st i \<noteq> Failed_move" using i(2) by auto
  have keep: "st j = Admitted_move \<Longrightarrow> j \<noteq> i" "st j = Failed_move \<Longrightarrow> j \<noteq> i" for j using not by auto
  fix k assume k: "k < n"
  {
    assume "(st(i := Admitted_move)) k = Pending_move"
    then show "\<exists>j < n. pos j = (ds(i := c)) k" using D(1) [OF k] by (simp split: if_splits)
  next
    fix j assume "j < n" "(st(i := Admitted_move)) k = Admitted_move" "(st(i := Admitted_move)) j = Admitted_move"
      "(ds(i := c)) k = (ds(i := c)) j"
    then show "k = j" using D(2) [OF k] free [OF k] free [of j] by (auto split: if_splits)
  next
    fix j assume j: "j < n" "(st(i := Admitted_move)) k = Admitted_move" "(ds(i := c)) k = pos j"
    then show "(st(i := Admitted_move)) j = Admitted_move" using D(3) [OF k] left [of j] by (auto split: if_splits)
  next
    fix j assume j: "j < n" "(st(i := Admitted_move)) k = Admitted_move" "(st(i := Admitted_move)) j = Admitted_move"
      "k \<noteq> j" "(ds(i := c)) k = pos j" "(ds(i := c)) j = pos k"
    have "k \<noteq> i"
    proof
      assume "k = i"
      then have "st j = Admitted_move" "ds j = pos i" using j left [of j] by simp_all
      then show False using D(3) [OF j(1) i(1)] not(1) by simp
    qed
    moreover have "j \<noteq> i"
    proof
      assume "j = i"
      then have "st k = Admitted_move" "ds k = pos i" using j k left [of k] by simp_all
      then show False using D(3) [OF k i(1)] not(1) by simp
    qed
    ultimately show "ok k j" using D(4) [OF k j(1)] j by simp
  next
    assume "(st(i := Admitted_move)) k = Failed_move" "fl k = Occupied"
    then have "k \<noteq> i" "st k = Failed_move" "fl k = Occupied" by (auto split: if_splits)
    with D(5) [OF k this(2,3)] keep
    show "(\<exists>j < n. (st(i := Admitted_move)) j = Admitted_move \<and> (ds(i := c)) j = (ds(i := c)) k)
      \<or> (\<exists>j < n. pos j = (ds(i := c)) k \<and> (st(i := Admitted_move)) j = Failed_move)"
      by auto
  }
qed

lemma admission_fail:
  assumes a: "admission n pos ok st fl ds" and i: "i < n" "st i = Inactive_move \<or> st i = Pending_move"
    and why: "f = Occupied \<Longrightarrow> \<exists>j < n. st j = Admitted_move \<and> ds j = c"
  shows "admission n pos ok (st(i := Failed_move)) (fl(i := f)) (ds(i := c))"
proof (rule admissionI)
  note D = admissionD [OF a]
  have not: "st i \<noteq> Admitted_move" "st i \<noteq> Failed_move" using i(2) by auto
  have keep: "st j = Admitted_move \<Longrightarrow> j \<noteq> i" "st j = Failed_move \<Longrightarrow> j \<noteq> i" for j using not by auto
  fix k assume k: "k < n"
  {
    assume "(st(i := Failed_move)) k = Pending_move"
    then show "\<exists>j < n. pos j = (ds(i := c)) k" using D(1) [OF k] by (simp split: if_splits)
  next
    fix j assume "j < n" "(st(i := Failed_move)) k = Admitted_move" "(st(i := Failed_move)) j = Admitted_move"
      "(ds(i := c)) k = (ds(i := c)) j"
    then show "k = j" using D(2) [OF k] by (auto split: if_splits)
  next
    fix j assume j: "j < n" "(st(i := Failed_move)) k = Admitted_move" "(ds(i := c)) k = pos j"
    then show "(st(i := Failed_move)) j = Admitted_move" using D(3) [OF k] not by (auto split: if_splits)
  next
    fix j assume j: "j < n" "(st(i := Failed_move)) k = Admitted_move" "(st(i := Failed_move)) j = Admitted_move"
      "k \<noteq> j" "(ds(i := c)) k = pos j" "(ds(i := c)) j = pos k"
    then show "ok k j" using D(4) [OF k] by (auto split: if_splits)
  next
    assume "(st(i := Failed_move)) k = Failed_move" "(fl(i := f)) k = Occupied"
    then have "k = i \<and> f = Occupied \<or> k \<noteq> i \<and> st k = Failed_move \<and> fl k = Occupied" by (auto split: if_splits)
    then show "(\<exists>j < n. (st(i := Failed_move)) j = Admitted_move \<and> (ds(i := c)) j = (ds(i := c)) k)
      \<or> (\<exists>j < n. pos j = (ds(i := c)) k \<and> (st(i := Failed_move)) j = Failed_move)"
    proof
      assume "k = i \<and> f = Occupied"
      then show ?thesis using why keep by auto
    next
      assume "k \<noteq> i \<and> st k = Failed_move \<and> fl k = Occupied"
      then show ?thesis using D(5) [OF k] keep by auto
    qed
  }
qed

lemma admission_wait:
  assumes a: "admission n pos ok st fl ds" and i: "i < n" "st i = Inactive_move" and c: "j < n" "pos j = c"
  shows "admission n pos ok (st(i := Pending_move)) fl (ds(i := c))"
proof (rule admissionI)
  note D = admissionD [OF a]
  have keep: "st j = Admitted_move \<Longrightarrow> j \<noteq> i" "st j = Failed_move \<Longrightarrow> j \<noteq> i" for j using i(2) by auto
  fix k assume k: "k < n"
  {
    assume "(st(i := Pending_move)) k = Pending_move"
    then show "\<exists>j < n. pos j = (ds(i := c)) k" using D(1) [OF k] c by (auto split: if_splits)
  next
    fix j assume "j < n" "(st(i := Pending_move)) k = Admitted_move" "(st(i := Pending_move)) j = Admitted_move"
      "(ds(i := c)) k = (ds(i := c)) j"
    then show "k = j" using D(2) [OF k] by (auto split: if_splits)
  next
    fix j assume j: "j < n" "(st(i := Pending_move)) k = Admitted_move" "(ds(i := c)) k = pos j"
    then show "(st(i := Pending_move)) j = Admitted_move" using D(3) [OF k] i(2) by (auto split: if_splits)
  next
    fix j assume j: "j < n" "(st(i := Pending_move)) k = Admitted_move" "(st(i := Pending_move)) j = Admitted_move"
      "k \<noteq> j" "(ds(i := c)) k = pos j" "(ds(i := c)) j = pos k"
    then show "ok k j" using D(4) [OF k] by (auto split: if_splits)
  next
    assume "(st(i := Pending_move)) k = Failed_move" "fl k = Occupied"
    then have "k \<noteq> i" "st k = Failed_move" "fl k = Occupied" by (auto split: if_splits)
    then show "(\<exists>j < n. (st(i := Pending_move)) j = Admitted_move \<and> (ds(i := c)) j = (ds(i := c)) k)
      \<or> (\<exists>j < n. pos j = (ds(i := c)) k \<and> (st(i := Pending_move)) j = Failed_move)"
      using D(5) [OF k] keep by auto
  }
qed

text \<open>A set of waiting agents each of which wants the tile of the next, as a whole.\<close>

lemma admission_cycle:
  assumes a: "admission n pos ok st fl ds" and inj: "inj_on pos {..<n}"
    and M: "M \<subseteq> {..<n}" "\<And>m. m \<in> M \<Longrightarrow> st m = Pending_move"
    and nxt: "\<And>m. m \<in> M \<Longrightarrow> \<exists>m' \<in> M. ds m = pos m'"
    and dist: "inj_on ds M"
    and sw: "\<And>i j. i \<in> M \<Longrightarrow> j \<in> M \<Longrightarrow> i \<noteq> j \<Longrightarrow> ds i = pos j \<Longrightarrow> ds j = pos i \<Longrightarrow> ok i j"
  shows "admission n pos ok (\<lambda>i. if i \<in> M then Admitted_move else st i) fl ds"
    (is "admission n pos ok ?st fl ds")
proof (rule admissionI)
  note D = admissionD [OF a]
  have same: "j = m'" if "ds m = pos m'" "m' \<in> M" "ds m = pos j" "j < n" for m m' j
    using inj that M(1) by (auto simp: inj_on_def)
  have out: "st j = Admitted_move" if "k < n" "?st k = Admitted_move" "k \<notin> M" "ds k = pos j" "j < n" for k j
    using D(3) [OF that(1,5)] that by simp
  fix k assume k: "k < n"
  {
    assume "?st k = Pending_move"
    then show "\<exists>j < n. pos j = ds k" using D(1) [OF k] by (simp split: if_splits)
  next
    fix j assume j: "j < n" "?st k = Admitted_move" "?st j = Admitted_move" "ds k = ds j"
    have "j \<notin> M" if "k \<notin> M"
    proof
      assume "j \<in> M"
      then obtain m where m: "m \<in> M" "ds j = pos m" using nxt by blast
      then have "st m = Admitted_move" using out [OF k j(2) that, of m] j(4) M(1) by auto
      then show False using M(2) [OF m(1)] by simp
    qed
    moreover have "k \<notin> M" if "j \<notin> M"
    proof
      assume "k \<in> M"
      then obtain m where m: "m \<in> M" "ds k = pos m" using nxt by blast
      then have "st m = Admitted_move" using out [OF j(1,3) that, of m] j(4) M(1) by auto
      then show False using M(2) [OF m(1)] by simp
    qed
    ultimately show "k = j" using j D(2) [OF k j(1)] dist by (auto simp: inj_on_def split: if_splits)
  next
    fix j assume j: "j < n" "?st k = Admitted_move" "ds k = pos j"
    show "?st j = Admitted_move"
    proof (cases "k \<in> M")
      case True
      then obtain m where "m \<in> M" "ds k = pos m" using nxt by blast
      then show ?thesis using same [of k m j] j by simp
    next
      case False
      then show ?thesis using out [OF k j(2) False j(3,1)] by simp
    qed
  next
    fix j assume j: "j < n" "?st k = Admitted_move" "?st j = Admitted_move" "k \<noteq> j" "ds k = pos j" "ds j = pos k"
    have kM: "j \<in> M" if "k \<in> M"
    proof -
      obtain m where "m \<in> M" "ds k = pos m" using nxt \<open>k \<in> M\<close> by blast
      then show ?thesis using same [of k m j] j by simp
    qed
    have jM: "k \<in> M" if "j \<in> M"
    proof -
      obtain m where "m \<in> M" "ds j = pos m" using nxt \<open>j \<in> M\<close> by blast
      then show ?thesis using same [of j m k] j k by simp
    qed
    show "ok k j"
      using j kM jM sw [of k j] D(4) [OF k j(1)] by (auto split: if_splits)
  next
    assume "?st k = Failed_move" "fl k = Occupied"
    then have f: "st k = Failed_move" "fl k = Occupied" by (auto split: if_splits)
    show "(\<exists>j < n. ?st j = Admitted_move \<and> ds j = ds k) \<or> (\<exists>j < n. pos j = ds k \<and> ?st j = Failed_move)"
      using D(5) [OF k f]
    proof
      assume "\<exists>j < n. st j = Admitted_move \<and> ds j = ds k"
      then show ?thesis by (metis (no_types))
    next
      assume "\<exists>j < n. pos j = ds k \<and> st j = Failed_move"
      then obtain j where "j < n" "pos j = ds k" "st j = Failed_move" by blast
      moreover from this have "j \<notin> M" using M(2) by force
      ultimately show ?thesis by auto
    qed
  }
qed

lemma admission_deny:
  assumes a: "admission n pos ok st fl ds" and M: "M \<subseteq> {..<n}" "\<And>m. m \<in> M \<Longrightarrow> st m = Pending_move"
    and nxt: "\<And>m. m \<in> M \<Longrightarrow> \<exists>m' \<in> M. ds m = pos m'"
  shows "admission n pos ok (\<lambda>i. if i \<in> M then Failed_move else st i) (\<lambda>i. if i \<in> M then Occupied else fl i) ds"
    (is "admission n pos ok ?st ?fl ds")
proof (rule admissionI)
  note D = admissionD [OF a]
  have adm: "?st k = Admitted_move \<longleftrightarrow> st k = Admitted_move" for k using M(2) [of k] by auto
  fix k assume k: "k < n"
  {
    assume "?st k = Pending_move"
    then show "\<exists>j < n. pos j = ds k" using D(1) [OF k] by (simp split: if_splits)
  next
    fix j assume "j < n" "?st k = Admitted_move" "?st j = Admitted_move" "ds k = ds j"
    then show "k = j" using D(2) [OF k] unfolding adm by blast
  next
    fix j assume "j < n" "?st k = Admitted_move" "ds k = pos j"
    then show "?st j = Admitted_move" using D(3) [OF k] unfolding adm by blast
  next
    fix j assume "j < n" "?st k = Admitted_move" "?st j = Admitted_move" "k \<noteq> j" "ds k = pos j" "ds j = pos k"
    then show "ok k j" using D(4) [OF k] unfolding adm by blast
  next
    assume f: "?st k = Failed_move" "?fl k = Occupied"
    show "(\<exists>j < n. ?st j = Admitted_move \<and> ds j = ds k) \<or> (\<exists>j < n. pos j = ds k \<and> ?st j = Failed_move)"
    proof (cases "k \<in> M")
      case True
      then obtain m where "m \<in> M" "ds k = pos m" using nxt by blast
      then show ?thesis using M(1) by (intro disjI2 exI [of _ m]) auto
    next
      case False
      then have "st k = Failed_move" "fl k = Occupied" using f by simp_all
      from D(5) [OF k this] show ?thesis unfolding adm by (metis (no_types))
    qed
  }
qed

end
