(* ===== verification/Joint_Round.thy ===== *)
theory Joint_Round imports Joint_Laws begin

text \<open>The buffers of a joint round represent an abstract admission, and every stage returns.\<close>

lemma fold_opt_upt:
  assumes "P 0 x" and "\<And>k x. k < n \<Longrightarrow> P k x \<Longrightarrow> \<exists>y. f k x = Some y \<and> P (Suc k) y"
  shows "\<exists>y. fold_opt f [0..<n] x = Some y \<and> P n y"
  using assms
proof (induction n)
  case (Suc n)
  then obtain y where y: "fold_opt f [0..<n] x = Some y" "P n y" by (metis less_Suc_eq)
  moreover obtain z where "f n y = Some z" "P (Suc n) z" using Suc.prems(2) y(2) by blast
  ultimately show ?case by (simp add: fold_opt_append)
qed simp

subsection \<open>Sorted buffers\<close>

lemma sorted_below:
  assumes "sorted_wrt (\<lambda>p q. f p \<le> f q) xs"
  shows "set (dropWhile (\<lambda>p. f p < k) xs) = {p \<in> set xs. k \<le> f p}"
    "set (takeWhile (\<lambda>p. f p < k) xs) = {p \<in> set xs. f p < (k :: 'k :: linorder)}"
    "sorted_wrt (\<lambda>p q. f p \<le> f q) (dropWhile (\<lambda>p. f p < k) xs)"
  using assms by (induction xs) auto

lemma sink_entry_set: "set (sink_entry p xs) = insert p (set xs)"
  by (induction xs) auto

lemma sink_entry_sorted:
  "sorted_wrt (\<lambda>p q. fst q \<le> fst p) xs \<Longrightarrow> sorted_wrt (\<lambda>p q. fst q \<le> fst p) (sink_entry p xs)"
  by (induction xs) (auto simp: sink_entry_set)

lemma sort_entries_set: "set (sort_entries ps) = set ps"
proof -
  have "set (fold sink_entry ps xs) = set ps \<union> set xs" for xs
    by (induction ps arbitrary: xs) (auto simp: sink_entry_set)
  then show ?thesis by (simp add: sort_entries_def)
qed

lemma sort_entries_sorted: "sorted_wrt (\<lambda>p q. fst p \<le> fst q) (sort_entries ps)"
proof -
  have "sorted_wrt (\<lambda>p q. fst q \<le> fst p) xs \<Longrightarrow> sorted_wrt (\<lambda>p q. fst q \<le> fst p) (fold sink_entry ps xs)" for xs
    by (induction ps arbitrary: xs) (auto simp: sink_entry_sorted)
  from this [of "[]"] show ?thesis by (simp add: sort_entries_def sorted_wrt_rev)
qed

text \<open>A claim succeeds just when the key is new.\<close>

lemma claim_spec:
  assumes "sorted (js_claimed sc)"
  obtains sc' where "joint_claim k sc = (k \<notin> set (js_claimed sc), sc')"
    "sorted (js_claimed sc')" "set (js_claimed sc') = insert k (set (js_claimed sc))"
    "js_state sc' = js_state sc" "js_desired sc' = js_desired sc" "js_failure sc' = js_failure sc"
    "js_occupants sc' = js_occupants sc"
proof -
  let ?xs = "js_claimed sc"
  have srt: "sorted_wrt (\<lambda>p q. id p \<le> id q) ?xs" using assms by simp
  note B = sorted_below [OF srt, of k, unfolded id_apply]
  have hit: "k \<in> set ?xs \<longleftrightarrow> dropWhile (\<lambda>p. p < k) ?xs \<noteq> [] \<and> hd (dropWhile (\<lambda>p. p < k) ?xs) = k"
  proof (cases "dropWhile (\<lambda>p. p < k) ?xs")
    case Nil
    then show ?thesis using B(1) by auto
  next
    case (Cons p ps)
    then have "k \<le> p" "\<forall>q \<in> set ps. p \<le> q" "p \<in> set ?xs" using B(1,3) by auto
    moreover have "k \<in> set ?xs \<Longrightarrow> k \<in> set (p # ps)" using B(1) Cons by auto
    ultimately have "p \<in> set ?xs" "k \<in> set ?xs \<Longrightarrow> p = k" by (auto intro: antisym)
    then show ?thesis using Cons by auto
  qed
  have eq: "takeWhile (\<lambda>p. p < k) ?xs @ dropWhile (\<lambda>p. p < k) ?xs = ?xs" by simp
  show ?thesis
  proof (cases "k \<in> set ?xs")
    case True
    then have "joint_claim k sc = (False, sc)" using hit by (simp add: joint_claim_def)
    with True assms show ?thesis by (intro that [of sc]) auto
  next
    case False
    let ?ys = "takeWhile (\<lambda>p. p < k) ?xs @ k # dropWhile (\<lambda>p. p < k) ?xs"
    have "joint_claim k sc = (True, sc\<lparr>js_claimed := ?ys\<rparr>)"
      using False hit by (auto simp: joint_claim_def Let_def)
    moreover have "sorted ?ys"
    proof -
      have "sorted (takeWhile (\<lambda>p. p < k) ?xs)" using assms by (rule sorted_takeWhile)
      then show ?thesis using B by (auto simp: sorted_append)
    qed
    moreover have "set ?ys = insert k (set ?xs)" by (auto simp: B(1,2))
    ultimately show ?thesis using False by (intro that [of "sc\<lparr>js_claimed := ?ys\<rparr>"]) simp_all
  qed
qed

subsection \<open>Positions\<close>

definition placed :: "shape \<Rightarrow> coord3 list \<Rightarrow> bool" where
  "placed s ps \<longleftrightarrow> valid_shape s \<and> tile_key_bits s \<le> 64 \<and> distinct ps \<and> (\<forall>c \<in> set ps. shape_contains s c)
     \<and> length ps < 2 ^ 32 - 1"

definition key_of :: "shape \<Rightarrow> coord3 \<Rightarrow> u64" where
  "key_of s c = the (joint_key s c)"

lemma joint_key_at:
  assumes "valid_shape s" "tile_key_bits s \<le> 64" "shape_contains s c"
  shows "joint_key s c = Some (key_of s c)"
proof -
  obtain i where "transition_index s c = Some i" using transition_index_defined [OF assms] by blast
  then have "joint_key s c = Some i" using assms(2) by (simp add: transition_index_def joint_key_def)
  then show ?thesis by (simp add: key_of_def)
qed

lemma key_of_inj:
  assumes "valid_shape s" "tile_key_bits s \<le> 64" "shape_contains s c" "shape_contains s c'" "key_of s c = key_of s c'"
  shows "c = c'"
proof -
  have "coord_of_key s (TileKey64 (key_of s d)) = d" if d: "shape_contains s d" for d
  proof -
    have "tile_key s d = Some (TileKey64 (key_of s d))"
      using joint_key_at [OF assms(1,2) d] by (cases "tile_key s d") (auto simp: joint_key_def split: packed_tile_key.splits)
    from tile_key_decode [OF assms(1) this] show ?thesis by simp
  qed
  then show ?thesis using assms(3-5) by metis
qed

definition index_ok :: "shape \<Rightarrow> coord3 list \<Rightarrow> (u64 \<times> u32) list \<Rightarrow> bool" where
  "index_ok s ps es \<longleftrightarrow> sorted_wrt (\<lambda>p q. fst p \<le> fst q) es
     \<and> set es = (\<lambda>j. (key_of s (ps ! j), of_nat j)) ` {..<length ps}"

lemma position_entries_eq:
  assumes "valid_shape s" "tile_key_bits s \<le> 64" "\<forall>a \<in> set as. shape_contains s (pa_position a)"
  shows "position_entries s i as = Some (map (\<lambda>j. (key_of s (pa_position (as ! j)), of_nat (i + j))) [0..<length as])"
  using assms(3)
proof (induction as arbitrary: i)
  case (Cons a as)
  have "map (\<lambda>j. (key_of s (pa_position ((a # as) ! j)), of_nat (i + j) :: u32)) [0..<length (a # as)]
      = (key_of s (pa_position a), of_nat i)
        # map (\<lambda>j. (key_of s (pa_position (as ! j)), of_nat (Suc i + j))) [0..<length as]"
    by (simp add: upt_conv_Cons map_Suc_upt [symmetric] comp_def ac_simps del: upt_Suc)
  moreover have "position_entries s i (a # as) = Some ((key_of s (pa_position a), of_nat i)
        # map (\<lambda>j. (key_of s (pa_position (as ! j)), of_nat (Suc i + j))) [0..<length as])"
    using Cons joint_key_at [OF assms(1,2), of "pa_position a"] by simp
  ultimately show ?case by (simp only:)
qed simp

lemma start_round_ok:
  assumes "placed s (map pa_position agents)"
  obtains sc where "start_round s agents = Some sc" "index_ok s (map pa_position agents) (js_occupants sc)"
    "js_claimed sc = []" "js_desired sc = replicate (length agents) default_coord3"
    "js_state sc = replicate (length agents) Inactive_move" "js_failure sc = replicate (length agents) Moved"
proof -
  have "\<forall>a \<in> set agents. shape_contains s (pa_position a)" using assms by (simp add: placed_def)
  from position_entries_eq [OF _ _ this, of 0] assms
  have "position_entries s 0 agents = Some (map (\<lambda>j. (key_of s (pa_position (agents ! j)), of_nat j)) [0..<length agents])"
    by (simp add: placed_def)
  then have eq: "start_round s agents = Some \<lparr>js_occupants = sort_entries (map (\<lambda>j. (key_of s (pa_position (agents ! j)), of_nat j)) [0..<length agents]),
      js_claimed = [], js_desired = replicate (length agents) default_coord3,
      js_state = replicate (length agents) Inactive_move, js_failure = replicate (length agents) Moved\<rparr>"
    by (simp add: start_round_def)
  show ?thesis
    by (rule that [OF eq]) (simp_all add: index_ok_def sort_entries_set sort_entries_sorted lessThan_atLeast0)
qed

lemma of_nat_agent:
  assumes "j < n" "n < 2 ^ 32 - 1"
  shows "unat (of_nat j :: u32) = j" "(of_nat j :: u32) \<noteq> no_agent"
proof -
  show u: "unat (of_nat j :: u32) = j" using assms by (simp add: unat_of_nat)
  have "unat no_agent = 2 ^ 32 - 1" by (simp add: no_agent_def unsigned_minus_1_eq_mask mask_eq_exp_minus_1)
  then show "(of_nat j :: u32) \<noteq> no_agent" using u assms by auto
qed

text \<open>The lookup finds the agent on a tile.\<close>

lemma find_occupant:
  assumes p: "placed s ps" and x: "index_ok s ps (js_occupants sc)" and c: "shape_contains s c"
  shows "j < length ps \<Longrightarrow> ps ! j = c \<Longrightarrow> joint_find_occupant sc (key_of s c) = of_nat j"
    "c \<notin> set ps \<Longrightarrow> joint_find_occupant sc (key_of s c) = no_agent"
proof -
  let ?es = "js_occupants sc" and ?k = "key_of s c"
  let ?ds = "dropWhile (\<lambda>q. fst q < ?k) ?es"
  have v: "valid_shape s" "tile_key_bits s \<le> 64" and cs: "\<forall>d \<in> set ps. shape_contains s d" and d: "distinct ps"
    using p by (simp_all add: placed_def)
  have es: "set ?es = (\<lambda>j. (key_of s (ps ! j), of_nat j)) ` {..<length ps}" "sorted_wrt (\<lambda>p q. fst p \<le> fst q) ?es"
    using x by (simp_all add: index_ok_def)
  note B = sorted_below [OF es(2), of ?k]
  have entry: "\<exists>j < length ps. snd q = of_nat j \<and> ps ! j = c" if "q \<in> set ?es" "fst q = ?k" for q
    using that es(1) key_of_inj [OF v _ c] cs by force
  have find: "joint_find_occupant sc ?k = (case ?ds of [] \<Rightarrow> no_agent | q # qs \<Rightarrow> if fst q \<noteq> ?k then no_agent else snd q)"
    by (simp add: joint_find_occupant_def)
  have hd: "?ds = q # qs \<Longrightarrow> q \<in> set ?es" for q qs using B(1) by auto
  {
    assume j: "j < length ps" "ps ! j = c"
    then have e: "(?k, of_nat j) \<in> set ?es" using es(1) by auto
    then have "(?k, of_nat j) \<in> set ?ds" unfolding B(1) by simp
    then obtain q qs where q: "?ds = q # qs" by (cases ?ds) auto
    have "fst q \<le> ?k" using B(3) \<open>(?k, of_nat j) \<in> set ?ds\<close> by (auto simp: q)
    moreover have "?k \<le> fst q" using B(1) q by auto
    ultimately have "fst q = ?k" by simp
    with entry [OF hd [OF q]] obtain k where "k < length ps" "snd q = of_nat k" "ps ! k = c" by blast
    moreover from this j d have "k = j" by (metis nth_eq_iff_index_eq)
    ultimately have "snd q = of_nat j" by simp
    then show "joint_find_occupant sc ?k = of_nat j" using \<open>fst q = ?k\<close> by (simp add: find q)
  next
    assume "c \<notin> set ps"
    then have "fst q \<noteq> ?k" if "q \<in> set ?es" for q using entry [OF that] by auto
    then show "joint_find_occupant sc ?k = no_agent" using hd by (auto simp: find split: list.splits)
  }
qed

subsection \<open>The invariant of the stages\<close>

text \<open>
  \<open>W i\<close> is the tile agent \<open>i\<close> wants, and \<open>R i\<close> says that nothing but an occupant can keep it from it.
\<close>

definition round_ok ::
    "shape \<Rightarrow> coord3 list \<Rightarrow> (nat \<Rightarrow> coord3 option) \<Rightarrow> (nat \<Rightarrow> bool) \<Rightarrow> (nat \<Rightarrow> nat \<Rightarrow> bool) \<Rightarrow> joint_scratch \<Rightarrow> bool" where
  "round_ok s ps W R ok sc \<longleftrightarrow> placed s ps \<and> index_ok s ps (js_occupants sc)
     \<and> length (js_state sc) = length ps \<and> length (js_failure sc) = length ps \<and> length (js_desired sc) = length ps
     \<and> sorted (js_claimed sc)
     \<and> set (js_claimed sc) = (\<lambda>i. key_of s (js_desired sc ! i)) ` {i. i < length ps \<and> js_state sc ! i = Admitted_move}
     \<and> (\<forall>i < length ps. js_state sc ! i \<noteq> Inactive_move \<longrightarrow> W i = Some (js_desired sc ! i)
          \<and> (R i \<longleftrightarrow> js_state sc ! i \<noteq> Failed_move \<or> js_failure sc ! i = Occupied)
          \<and> (js_state sc ! i \<noteq> Failed_move \<longrightarrow> shape_contains s (js_desired sc ! i)))
     \<and> admission (length ps) ((!) ps) ok ((!) (js_state sc)) ((!) (js_failure sc)) ((!) (js_desired sc))"

lemma nth_update_fun: "i < length xs \<Longrightarrow> (!) (xs[i := x]) = ((!) xs)(i := x)"
  by (rule ext) (metis fun_upd_apply nth_list_update_eq nth_list_update_neq)

lemma claimed_iff:
  assumes "round_ok s ps W R ok sc" "shape_contains s c"
  shows "key_of s c \<in> set (js_claimed sc) \<longleftrightarrow> (\<exists>j < length ps. js_state sc ! j = Admitted_move \<and> js_desired sc ! j = c)"
proof
  assume "key_of s c \<in> set (js_claimed sc)"
  then obtain j where j: "j < length ps" "js_state sc ! j = Admitted_move" "key_of s c = key_of s (js_desired sc ! j)"
    using assms(1) by (auto simp: round_ok_def)
  then have "shape_contains s (js_desired sc ! j)" "valid_shape s" "tile_key_bits s \<le> 64"
    using assms(1) by (auto simp: round_ok_def placed_def)
  from key_of_inj [OF this(2,3) assms(2) this(1) j(3)] j show "\<exists>j < length ps. js_state sc ! j = Admitted_move \<and> js_desired sc ! j = c"
    by auto
qed (use assms(1) in \<open>auto simp: round_ok_def\<close>)

text \<open>A claim followed by its decision.\<close>

lemma admit_claimed_ok:
  assumes ok: "round_ok s ps W R ok sc" and i: "i < length ps" "js_state sc ! i = Inactive_move \<or> js_state sc ! i = Pending_move"
    and c: "shape_contains s c" "W i = Some c" "R i"
    and left: "\<And>j. j < length ps \<Longrightarrow> ps ! j = c \<Longrightarrow> js_state sc ! j = Admitted_move"
  obtains sc' where "admit_claimed i (joint_claim (key_of s c) (sc\<lparr>js_desired := (js_desired sc)[i := c]\<rparr>)) = Some sc'"
    "round_ok s ps W R ok sc'" "js_state sc' ! i \<noteq> Pending_move" "js_state sc' ! i \<noteq> Inactive_move"
    "\<And>j. j \<noteq> i \<Longrightarrow> js_state sc' ! j = js_state sc ! j"
proof -
  have L: "length (js_state sc) = length ps" "length (js_failure sc) = length ps" "length (js_desired sc) = length ps"
    and srt: "sorted (js_claimed sc)"
    and claimed: "set (js_claimed sc) = (\<lambda>i. key_of s (js_desired sc ! i)) ` {i. i < length ps \<and> js_state sc ! i = Admitted_move}"
    and adm: "admission (length ps) ((!) ps) ok ((!) (js_state sc)) ((!) (js_failure sc)) ((!) (js_desired sc))"
    using ok by (simp_all add: round_ok_def)
  let ?sc = "sc\<lparr>js_desired := (js_desired sc)[i := c]\<rparr>"
  have "sorted (js_claimed ?sc)" using srt by simp
  then obtain sc1 where sc1: "joint_claim (key_of s c) ?sc = (key_of s c \<notin> set (js_claimed sc), sc1)"
    "sorted (js_claimed sc1)" "set (js_claimed sc1) = insert (key_of s c) (set (js_claimed sc))"
    "js_state sc1 = js_state sc" "js_desired sc1 = (js_desired sc)[i := c]" "js_failure sc1 = js_failure sc"
    "js_occupants sc1 = js_occupants sc"
    using claim_spec [of ?sc "key_of s c"] by auto
  have ni: "js_state sc ! j = Admitted_move \<Longrightarrow> j \<noteq> i" for j using i(2) by auto
  note iff = claimed_iff [OF ok c(1)]
  show ?thesis
  proof (cases "key_of s c \<in> set (js_claimed sc)")
    case False
    let ?sc' = "sc1\<lparr>js_state := (js_state sc)[i := Admitted_move]\<rparr>"
    have "admission (length ps) ((!) ps) ok ((!) (js_state ?sc')) ((!) (js_failure ?sc')) ((!) (js_desired ?sc'))"
      using admission_admit [OF adm i, of c] False iff left L i(1) by (simp add: sc1 nth_update_fun)
    moreover have "set (js_claimed ?sc')
        = (\<lambda>k. key_of s (js_desired ?sc' ! k)) ` {k. k < length ps \<and> js_state ?sc' ! k = Admitted_move}"
    proof -
      have "{k. k < length ps \<and> js_state ?sc' ! k = Admitted_move}
          = insert i {k. k < length ps \<and> js_state sc ! k = Admitted_move}"
        using i(1) L by (auto simp: nth_list_update split: if_splits)
      moreover have "key_of s (js_desired ?sc' ! k) = key_of s (js_desired sc ! k)" if "js_state sc ! k = Admitted_move" for k
        using ni [OF that] by (simp add: sc1)
      ultimately show ?thesis using i(1) L by (simp add: sc1 claimed)
    qed
    ultimately have "round_ok s ps W R ok ?sc'"
      using ok i c L sc1(2) by (auto simp: round_ok_def sc1(4-7) nth_list_update)
    moreover have "admit_claimed i (joint_claim (key_of s c) ?sc) = Some ?sc'"
      using False i(1) L by (simp add: sc1(1) admit_claimed_def set_state_def sc1(4) upd_opt_def)
    ultimately show ?thesis using i(1) L by (intro that [of ?sc']) simp_all
  next
    case True
    let ?sc' = "sc1\<lparr>js_state := (js_state sc)[i := Failed_move], js_failure := (js_failure sc)[i := Occupied]\<rparr>"
    have "admission (length ps) ((!) ps) ok ((!) (js_state ?sc')) ((!) (js_failure ?sc')) ((!) (js_desired ?sc'))"
      using admission_fail [OF adm i, of Occupied c] True iff L i(1) by (simp add: sc1 nth_update_fun)
    moreover have "set (js_claimed ?sc')
        = (\<lambda>k. key_of s (js_desired ?sc' ! k)) ` {k. k < length ps \<and> js_state ?sc' ! k = Admitted_move}"
    proof -
      have "{k. k < length ps \<and> js_state ?sc' ! k = Admitted_move} = {k. k < length ps \<and> js_state sc ! k = Admitted_move}"
        using i L by (auto simp: nth_list_update split: if_splits)
      moreover have "key_of s (js_desired ?sc' ! k) = key_of s (js_desired sc ! k)" if "js_state sc ! k = Admitted_move" for k
        using ni [OF that] by (simp add: sc1)
      ultimately show ?thesis using True by (simp add: sc1 claimed insert_absorb)
    qed
    ultimately have "round_ok s ps W R ok ?sc'"
      using ok i c L sc1(2) by (auto simp: round_ok_def sc1(4-7) nth_list_update)
    moreover have "admit_claimed i (joint_claim (key_of s c) ?sc) = Some ?sc'"
      using True i(1) L by (simp add: sc1(1) admit_claimed_def set_state_def set_failed_def sc1(4,6) upd_opt_def)
    ultimately show ?thesis using i(1) L by (intro that [of ?sc']) simp_all
  qed
qed

end
