(* ===== verification/Joint_Stages.thy ===== *)
theory Joint_Stages imports Joint_Round begin

text \<open>The stages of a joint round, one by one: each returns and keeps the invariant.\<close>

lemma round_ok_update:
  assumes ok: "round_ok s ps W R ok sc" and i: "i < length ps" "js_state sc ! i \<noteq> Admitted_move" "x \<noteq> Admitted_move"
    and adm: "admission (length ps) ((!) ps) ok (((!) (js_state sc))(i := x)) (((!) (js_failure sc))(i := f))
      (((!) (js_desired sc))(i := c))"
    and new: "x \<noteq> Inactive_move \<Longrightarrow> W i = Some c \<and> (R i \<longleftrightarrow> x \<noteq> Failed_move \<or> f = Occupied)
      \<and> (x \<noteq> Failed_move \<longrightarrow> shape_contains s c)"
  shows "round_ok s ps W R ok (sc\<lparr>js_desired := (js_desired sc)[i := c], js_state := (js_state sc)[i := x],
    js_failure := (js_failure sc)[i := f]\<rparr>)" (is "round_ok s ps W R ok ?sc'")
proof -
  have L: "length (js_state sc) = length ps" "length (js_failure sc) = length ps" "length (js_desired sc) = length ps"
    and claimed: "set (js_claimed sc) = (\<lambda>i. key_of s (js_desired sc ! i)) ` {i. i < length ps \<and> js_state sc ! i = Admitted_move}"
    using ok by (simp_all add: round_ok_def)
  have "{k. k < length ps \<and> js_state ?sc' ! k = Admitted_move} = {k. k < length ps \<and> js_state sc ! k = Admitted_move}"
    using i L by (auto simp: nth_list_update split: if_splits)
  moreover have "key_of s (js_desired ?sc' ! k) = key_of s (js_desired sc ! k)" if "js_state sc ! k = Admitted_move" for k
  proof -
    have "k \<noteq> i" using that i(2) by auto
    then show ?thesis by simp
  qed
  ultimately have "set (js_claimed ?sc') = (\<lambda>k. key_of s (js_desired ?sc' ! k)) ` {k. k < length ps \<and> js_state ?sc' ! k = Admitted_move}"
    by (simp add: claimed)
  moreover have "admission (length ps) ((!) ps) ok ((!) (js_state ?sc')) ((!) (js_failure ?sc')) ((!) (js_desired ?sc'))"
    using adm i(1) L by (simp add: nth_update_fun)
  moreover have "js_state ?sc' ! k \<noteq> Inactive_move \<longrightarrow> W k = Some (js_desired ?sc' ! k)
      \<and> (R k \<longleftrightarrow> js_state ?sc' ! k \<noteq> Failed_move \<or> js_failure ?sc' ! k = Occupied)
      \<and> (js_state ?sc' ! k \<noteq> Failed_move \<longrightarrow> shape_contains s (js_desired ?sc' ! k))" if "k < length ps" for k
    using new ok i(1) L that by (cases "k = i") (simp_all add: round_ok_def)
  ultimately show ?thesis using ok unfolding round_ok_def by simp
qed

subsection \<open>Chains\<close>

text \<open>The occupant of the tile a waiting agent wants.\<close>

lemma pending_occupant:
  assumes ok: "round_ok s ps W R ok sc" and i: "i < length ps" "js_state sc ! i = Pending_move"
  obtains j where "j < length ps" "ps ! j = js_desired sc ! i" "shape_contains s (js_desired sc ! i)"
    "joint_key s (js_desired sc ! i) = Some (key_of s (js_desired sc ! i))"
    "joint_find_occupant sc (key_of s (js_desired sc ! i)) = of_nat j"
    "unat (of_nat j :: u32) = j" "(of_nat j :: u32) \<noteq> no_agent"
    "\<And>k. k < length ps \<Longrightarrow> ps ! k = js_desired sc ! i \<Longrightarrow> k = j"
proof -
  have p: "placed s ps" "index_ok s ps (js_occupants sc)" and c: "shape_contains s (js_desired sc ! i)"
    using ok i by (simp_all add: round_ok_def)
  have adm: "admission (length ps) ((!) ps) ok ((!) (js_state sc)) ((!) (js_failure sc)) ((!) (js_desired sc))"
    using ok by (simp add: round_ok_def)
  obtain j where j: "j < length ps" "ps ! j = js_desired sc ! i"
    using admissionD(1) [OF adm i] by blast
  have v: "valid_shape s" "tile_key_bits s \<le> 64" "distinct ps" "length ps < 2 ^ 32 - 1" using p(1) by (simp_all add: placed_def)
  show ?thesis
    by (rule that [OF j c joint_key_at [OF v(1,2) c] find_occupant(1) [OF p c j] of_nat_agent [OF j(1) v(4)]])
       (use j v(3) in \<open>metis nth_eq_iff_index_eq\<close>)
qed

lemma joint_chain_ok:
  assumes ok: "round_ok s ps W R ok sc" and i: "i < length ps"
  shows "\<exists>sc' n' b'. joint_chain s i (sc, n, b) = Some (sc', n', b') \<and> round_ok s ps W R ok sc'
    \<and> (\<forall>j. js_state sc' ! j = Inactive_move \<longleftrightarrow> js_state sc ! j = Inactive_move)
    \<and> (\<not> b' \<longrightarrow> \<not> b \<and> sc' = sc \<and> (js_state sc ! i = Pending_move \<longrightarrow>
         (\<forall>j < length ps. ps ! j = js_desired sc ! i \<longrightarrow> js_state sc ! j \<noteq> Admitted_move)))"
proof (cases "js_state sc ! i = Pending_move")
  case False
  have "i < length (js_state sc)" using ok i by (simp add: round_ok_def)
  then show ?thesis using False ok by (auto simp: joint_chain_def nth_opt_in)
next
  case True
  have L: "length (js_state sc) = length ps" "length (js_desired sc) = length ps" using ok by (simp_all add: round_ok_def)
  obtain j where j: "j < length ps" "ps ! j = js_desired sc ! i" "shape_contains s (js_desired sc ! i)"
    "joint_key s (js_desired sc ! i) = Some (key_of s (js_desired sc ! i))"
    "joint_find_occupant sc (key_of s (js_desired sc ! i)) = of_nat j"
    "unat (of_nat j :: u32) = j" "(of_nat j :: u32) \<noteq> no_agent"
    "\<And>k. k < length ps \<Longrightarrow> ps ! k = js_desired sc ! i \<Longrightarrow> k = j"
    using pending_occupant [OF ok i True] by blast
  let ?k = "key_of s (js_desired sc ! i)"
  have run: "joint_chain s i (sc, n, b) = (if js_state sc ! j \<noteq> Admitted_move then Some (sc, n, b)
      else map_option (\<lambda>sc2. (sc2, (if fst (joint_claim ?k sc) then n + 1 else n), True)) (admit_claimed i (joint_claim ?k sc)))"
    using True i j(1-7) L by (simp add: joint_chain_def nth_opt_in)
  show ?thesis
  proof (cases "js_state sc ! j = Admitted_move")
    case False
    then show ?thesis using run ok j(8) by auto
  next
    case adm: True
    have same: "sc\<lparr>js_desired := (js_desired sc)[i := js_desired sc ! i]\<rparr> = sc" by simp
    have w: "W i = Some (js_desired sc ! i)" "R i" using ok i True by (simp_all add: round_ok_def)
    obtain sc' where sc': "admit_claimed i (joint_claim ?k sc) = Some sc'" "round_ok s ps W R ok sc'"
      "js_state sc' ! i \<noteq> Inactive_move" "\<And>j. j \<noteq> i \<Longrightarrow> js_state sc' ! j = js_state sc ! j"
      using admit_claimed_ok [OF ok i disjI2 [OF True] j(3) w, unfolded same] j(8) adm by metis
    then have "\<forall>j. js_state sc' ! j = Inactive_move \<longleftrightarrow> js_state sc ! j = Inactive_move"
      using True by (metis (no_types) joint_state.distinct(1))
    then show ?thesis using run adm sc' by (simp add: ex_bool_eq)
  qed
qed

definition no_vacated :: "coord3 list \<Rightarrow> joint_scratch \<Rightarrow> bool" where
  "no_vacated ps sc \<longleftrightarrow> (\<forall>i < length ps. js_state sc ! i = Pending_move \<longrightarrow>
     (\<forall>j < length ps. ps ! j = js_desired sc ! i \<longrightarrow> js_state sc ! j \<noteq> Admitted_move))"

lemma chain_pass_ok:
  assumes ok: "round_ok s ps W R ok sc"
  shows "\<exists>sc' n' b'. chain_pass s sc n = Some (sc', n', b') \<and> round_ok s ps W R ok sc'
    \<and> (\<forall>j. js_state sc' ! j = Inactive_move \<longleftrightarrow> js_state sc ! j = Inactive_move)
    \<and> (\<not> b' \<longrightarrow> sc' = sc \<and> no_vacated ps sc)"
proof -
  let ?P = "\<lambda>k (sc', n' :: u64, b'). round_ok s ps W R ok sc'
    \<and> (\<forall>j. js_state sc' ! j = Inactive_move \<longleftrightarrow> js_state sc ! j = Inactive_move)
    \<and> (\<not> b' \<longrightarrow> sc' = sc \<and> (\<forall>i < k. js_state sc ! i = Pending_move \<longrightarrow>
         (\<forall>j < length ps. ps ! j = js_desired sc ! i \<longrightarrow> js_state sc ! j \<noteq> Admitted_move)))"
  have "\<exists>y. fold_opt (joint_chain s) [0..<length ps] (sc, n, False) = Some y \<and> ?P (length ps) y"
  proof (rule fold_opt_upt [where P = ?P])
    show "?P 0 (sc, n, False)" using ok by simp
  next
    fix k x assume k: "k < length ps" and P: "?P k x"
    obtain sc1 n1 b1 where x: "x = (sc1, n1, b1)" by (cases x)
    obtain sc2 n2 b2 where step: "joint_chain s k (sc1, n1, b1) = Some (sc2, n2, b2)" "round_ok s ps W R ok sc2"
      "\<forall>j. js_state sc2 ! j = Inactive_move \<longleftrightarrow> js_state sc1 ! j = Inactive_move"
      "\<not> b2 \<longrightarrow> \<not> b1 \<and> sc2 = sc1 \<and> (js_state sc1 ! k = Pending_move \<longrightarrow>
         (\<forall>j < length ps. ps ! j = js_desired sc1 ! k \<longrightarrow> js_state sc1 ! j \<noteq> Admitted_move))"
      using joint_chain_ok [of s ps W R ok sc1 k n1 b1] P k by (auto simp: x)
    have "?P (Suc k) (sc2, n2, b2)" using step P by (auto simp: x less_Suc_eq)
    then show "\<exists>y. joint_chain s k x = Some y \<and> ?P (Suc k) y" using step(1) x by blast
  qed
  moreover have "length (js_state sc) = length ps" using ok by (simp add: round_ok_def)
  ultimately show ?thesis unfolding chain_pass_def no_vacated_def by (auto split: prod.splits)
qed

declare chain_loop.simps [simp del]

lemma chain_loop_ok:
  "round_ok s ps W R ok sc \<Longrightarrow> \<exists>sc' n'. chain_loop s sc n = Some (sc', n') \<and> round_ok s ps W R ok sc'
    \<and> (\<forall>j. js_state sc' ! j = Inactive_move \<longleftrightarrow> js_state sc ! j = Inactive_move) \<and> no_vacated ps sc'"
proof (induction s sc n rule: chain_loop.induct)
  case (1 s sc n)
  obtain sc1 n1 b1 where pass: "chain_pass s sc n = Some (sc1, n1, b1)" "round_ok s ps W R ok sc1"
    "\<forall>j. js_state sc1 ! j = Inactive_move \<longleftrightarrow> js_state sc ! j = Inactive_move"
    "\<not> b1 \<longrightarrow> sc1 = sc \<and> no_vacated ps sc"
    using chain_pass_ok [OF 1(2)] by blast
  show ?case
  proof (cases b1)
    case True
    from 1(1) [OF pass(1) refl refl True pass(2)] show ?thesis
      using True pass(1,3) by (simp add: chain_loop.simps [of s sc n])
  next
    case False
    then show ?thesis using pass 1(2) by (simp add: chain_loop.simps [of s sc n])
  qed
qed

end
