(* ===== verification/Joint_Cycles.thy ===== *)
theory Joint_Cycles imports Joint_Stages begin

text \<open>The walk that finds a cycle of waiting agents, and the decision about it.\<close>

subsection \<open>The walk\<close>

definition next_agent :: "shape \<Rightarrow> joint_scratch \<Rightarrow> u32 \<Rightarrow> u32" where
  "next_agent s sc i = joint_find_occupant sc (key_of s (js_desired sc ! unat i))"

text \<open>The walk so far: distinct waiting agents, each followed by the occupant of the tile it wants.\<close>

definition walk_ok :: "shape \<Rightarrow> nat \<Rightarrow> joint_scratch \<Rightarrow> u32 \<Rightarrow> bool list \<Rightarrow> bool list \<Rightarrow> u32 list \<Rightarrow> bool" where
  "walk_ok s n sc at on_walk walked cw \<longleftrightarrow> unat at < n \<and> length on_walk = n \<and> length walked = n \<and> distinct cw
     \<and> (\<forall>i \<in> set cw. unat i < n \<and> js_state sc ! unat i = Pending_move)
     \<and> (\<forall>k < n. on_walk ! k \<longleftrightarrow> of_nat k \<in> set cw)
     \<and> (\<forall>k. Suc k < length cw \<longrightarrow> next_agent s sc (cw ! k) = cw ! Suc k)
     \<and> (cw \<noteq> [] \<longrightarrow> next_agent s sc (last cw) = at)"

lemma unat_no_agent: "unat no_agent = 2 ^ 32 - 1"
  by (simp add: no_agent_def unsigned_minus_1_eq_mask mask_eq_exp_minus_1)

lemma pending_next:
  assumes "round_ok s ps W R ok sc" "unat i < length ps" "js_state sc ! unat i = Pending_move"
  shows "unat (next_agent s sc i) < length ps" "ps ! unat (next_agent s sc i) = js_desired sc ! unat i"
    "joint_key s (js_desired sc ! unat i) = Some (key_of s (js_desired sc ! unat i))"
proof -
  obtain j where "j < length ps" "ps ! j = js_desired sc ! unat i"
    "joint_key s (js_desired sc ! unat i) = Some (key_of s (js_desired sc ! unat i))"
    "joint_find_occupant sc (key_of s (js_desired sc ! unat i)) = of_nat j" "unat (of_nat j :: u32) = j"
    using pending_occupant [OF assms] by metis
  then show "unat (next_agent s sc i) < length ps" "ps ! unat (next_agent s sc i) = js_desired sc ! unat i"
    "joint_key s (js_desired sc ! unat i) = Some (key_of s (js_desired sc ! unat i))"
    by (simp_all add: next_agent_def)
qed

lemma walk_ok_step:
  assumes ok: "round_ok s ps W R ok sc" and w: "walk_ok s (length ps) sc at on_walk walked cw"
    and at: "js_state sc ! unat at = Pending_move" "\<not> on_walk ! unat at"
  shows "walk_ok s (length ps) sc (next_agent s sc at) (on_walk[unat at := True]) (walked[unat at := True]) (cw @ [at])"
proof -
  have n: "unat at < length ps" using w by (simp add: walk_ok_def)
  have fresh: "at \<notin> set cw" using w at(2) n by (auto simp: walk_ok_def)
  have on: "on_walk[unat at := True] ! k \<longleftrightarrow> of_nat k \<in> set (cw @ [at])" if "k < length ps" for k
  proof -
    have "length ps < 2 ^ 32 - 1" using ok by (simp add: round_ok_def placed_def)
    then have "unat (of_nat k :: u32) = k" using of_nat_agent(1) [OF that] by simp
    then have "of_nat k = at \<longleftrightarrow> k = unat at" by auto
    then show ?thesis using w that n by (auto simp: walk_ok_def nth_list_update)
  qed
  have "next_agent s sc ((cw @ [at]) ! k) = (cw @ [at]) ! Suc k" if "Suc k < length (cw @ [at])" for k
  proof (cases "Suc k < length cw")
    case True
    then show ?thesis using w by (simp add: walk_ok_def nth_append)
  next
    case False
    then have "cw \<noteq> []" "k = length cw - 1" using that by auto
    then show ?thesis using w by (simp add: walk_ok_def nth_append last_conv_nth)
  qed
  then show ?thesis
    using w fresh on n at(1) pending_next(1) [OF ok n at(1)] unfolding walk_ok_def by simp
qed

declare joint_walk.simps [simp del]

lemma joint_walk_ok:
  assumes ok: "round_ok s ps W R ok sc"
  shows "walk_ok s (length ps) sc at on_walk walked cw \<Longrightarrow>
    \<exists>at' on' walked' cw'. joint_walk s sc at (on_walk, walked, cw) = Some (at', on', walked', cw')
      \<and> walk_ok s (length ps) sc at' on' walked' cw' \<and> at' \<noteq> no_agent"
proof (induction "length (filter Not on_walk)" arbitrary: at on_walk walked cw rule: less_induct)
  case less
  have n: "unat at < length ps" "length on_walk = length ps" "length walked = length ps"
    using less.prems by (simp_all add: walk_ok_def)
  have L: "length (js_state sc) = length ps" "length (js_desired sc) = length ps" "length ps < 2 ^ 32 - 1"
    using ok by (simp_all add: round_ok_def placed_def)
  have na: "at \<noteq> no_agent" using n(1) L(3) unat_no_agent by auto
  note run = joint_walk.simps [of s sc at on_walk walked cw]
  show ?case
  proof (cases "js_state sc ! unat at = Pending_move \<and> \<not> on_walk ! unat at")
    case False
    then have "joint_walk s sc at (on_walk, walked, cw) = Some (at, on_walk, walked, cw)"
      using na n L by (auto simp: run nth_opt_in)
    then show ?thesis using less.prems na by blast
  next
    case True
    have eq: "joint_walk s sc at (on_walk, walked, cw)
        = joint_walk s sc (next_agent s sc at) (on_walk[unat at := True], walked[unat at := True], cw @ [at])"
      using True na n L pending_next(3) [OF ok n(1)] by (simp add: run nth_opt_in upd_opt_def next_agent_def)
    have "length (filter Not (on_walk[unat at := True])) < length (filter Not on_walk)"
      using n True by (intro filter_update_less) simp_all
    from less.hyps [OF this walk_ok_step [OF ok less.prems]] True show ?thesis unfolding eq by blast
  qed
qed

text \<open>A closed walk ends in a ring: each member's target is the tile of the next.\<close>

lemma closed_ring:
  assumes w: "walk_ok s n sc at on_walk walked cw" and closed: "on_walk ! unat at"
  obtains ms where "dropWhile (\<lambda>k. k \<noteq> at) cw = ms" "ms \<noteq> []" "distinct ms" "set ms \<subseteq> set cw"
    "\<And>k. k < length ms \<Longrightarrow> next_agent s sc (ms ! k) = ms ! (Suc k mod length ms)"
proof -
  have "of_nat (unat at) \<in> set cw" using w closed by (auto simp: walk_ok_def)
  then obtain pre post where cw: "cw = pre @ at # post" "at \<notin> set pre" by (auto dest: split_list_first)
  let ?ms = "at # post"
  have link: "\<And>k. Suc k < length cw \<Longrightarrow> next_agent s sc (cw ! k) = cw ! Suc k" using w by (simp add: walk_ok_def)
  have drop: "dropWhile (\<lambda>k. k \<noteq> at) cw = ?ms" using cw by (subst cw(1), subst dropWhile_append2) auto
  have "next_agent s sc (?ms ! k) = ?ms ! (Suc k mod length ?ms)" if "k < length ?ms" for k
  proof (cases "Suc k < length ?ms")
    case True
    then have "next_agent s sc (cw ! (length pre + k)) = cw ! Suc (length pre + k)"
      by (intro link) (use True in \<open>simp add: cw(1)\<close>)
    moreover have "cw ! (length pre + k) = ?ms ! k" "cw ! Suc (length pre + k) = ?ms ! Suc k"
      by (simp_all add: cw(1) nth_append)
    ultimately show ?thesis using True by simp
  next
    case False
    then have "k = length post" using that by simp
    then have "?ms ! k = last cw" by (simp add: cw(1) last_conv_nth nth_append)
    moreover have "next_agent s sc (last cw) = at" using w by (simp add: walk_ok_def cw(1))
    ultimately show ?thesis using \<open>k = length post\<close> by simp
  qed
  moreover have "distinct ?ms" "set ?ms \<subseteq> set cw" using w by (auto simp: walk_ok_def cw(1))
  ultimately show ?thesis by (intro that [OF drop]) simp_all
qed

lemma ring_facts:
  assumes ms: "ms \<noteq> []" "distinct ms"
    and ring: "\<And>k. k < length ms \<Longrightarrow> f (ms ! k) = ms ! (Suc k mod length ms)"
  shows "f ` set ms = set ms" "i \<in> set ms \<Longrightarrow> f i = j \<Longrightarrow> f j = i \<Longrightarrow> i \<noteq> j \<Longrightarrow> length ms = 2 \<and> set ms = {i, j}"
proof -
  have in_ms: "Suc k mod length ms < length ms" for k using ms(1) by simp
  show "f ` set ms = set ms"
  proof
    show "f ` set ms \<subseteq> set ms"
    proof
      fix y assume "y \<in> f ` set ms"
      then obtain k where "k < length ms" "y = f (ms ! k)" by (auto simp: in_set_conv_nth)
      then show "y \<in> set ms" using ring [of k] in_ms [of k] by simp
    qed
    show "set ms \<subseteq> f ` set ms"
    proof
      fix y assume "y \<in> set ms"
      then obtain k where k: "k < length ms" "y = ms ! k" by (auto simp: in_set_conv_nth)
      define j where "j = (if k = 0 then length ms - 1 else k - 1)"
      have j: "j < length ms" "Suc j mod length ms = k" using k ms(1) by (auto simp: j_def)
      then have "y = f (ms ! j)" using ring [of j] k(2) by simp
      then show "y \<in> f ` set ms" using j(1) by simp
    qed
  qed
  assume i: "i \<in> set ms" "f i = j" "f j = i" "i \<noteq> j"
  let ?L = "length ms"
  obtain k where k: "k < ?L" "i = ms ! k" using i(1) by (auto simp: in_set_conv_nth)
  have j: "j = ms ! (Suc k mod ?L)" using ring [OF k(1)] k(2) i(2) by simp
  have "i = ms ! (Suc (Suc k mod ?L) mod ?L)" using ring [OF in_ms, of k] i(3) by (simp add: j)
  then have "Suc (Suc k mod ?L) mod ?L = k" using k in_ms ms(2) by (metis nth_eq_iff_index_eq)
  moreover have "Suc k mod ?L \<noteq> k" using i(4) k(2) j by auto
  ultimately have L: "?L = 2" using k(1) by (auto simp: mod_Suc split: if_splits)
  then obtain a b where "ms = [a, b]" by (auto simp: length_Suc_conv numeral_2_eq_2)
  then show "?L = 2 \<and> set ms = {i, j}" using k j by (cases k) auto
qed

subsection \<open>Settling the members\<close>

lemma settle_admit:
  assumes "valid_shape s" "tile_key_bits s \<le> 64" "sorted (js_claimed sc)"
    and "\<forall>m \<in> set ms. unat m < length (js_state sc) \<and> shape_contains s (js_desired sc ! unat m)"
    and "length (js_desired sc) = length (js_state sc)"
  shows "\<exists>sc'. fold_opt (settle_member s True) ms sc = Some sc' \<and> sorted (js_claimed sc')
    \<and> set (js_claimed sc') = set (js_claimed sc) \<union> (\<lambda>m. key_of s (js_desired sc ! m)) ` unat ` set ms
    \<and> js_desired sc' = js_desired sc \<and> js_failure sc' = js_failure sc \<and> js_occupants sc' = js_occupants sc
    \<and> length (js_state sc') = length (js_state sc)
    \<and> (!) (js_state sc') = (\<lambda>k. if k \<in> unat ` set ms then Admitted_move else js_state sc ! k)"
  using assms(3-5)
proof (induction ms arbitrary: sc)
  case (Cons m ms)
  let ?k = "key_of s (js_desired sc ! unat m)"
  have m: "unat m < length (js_state sc)" "shape_contains s (js_desired sc ! unat m)" using Cons.prems by simp_all
  obtain sc1 where sc1: "joint_claim ?k sc = (?k \<notin> set (js_claimed sc), sc1)" "sorted (js_claimed sc1)"
    "set (js_claimed sc1) = insert ?k (set (js_claimed sc))" "js_state sc1 = js_state sc" "js_desired sc1 = js_desired sc"
    "js_failure sc1 = js_failure sc" "js_occupants sc1 = js_occupants sc"
    using claim_spec [OF Cons.prems(1)] by blast
  let ?sc = "sc1\<lparr>js_state := (js_state sc)[unat m := Admitted_move]\<rparr>"
  have step: "settle_member s True m sc = Some ?sc"
    using m Cons.prems(3) joint_key_at [OF assms(1,2) m(2)]
    by (simp add: settle_member_def nth_opt_in sc1(1) set_state_def sc1(4) upd_opt_def)
  have upd: "(!) (js_state ?sc) = ((!) (js_state sc))(unat m := Admitted_move)" using m(1) by (simp add: nth_update_fun)
  obtain sc' where "fold_opt (settle_member s True) ms ?sc = Some sc'" "sorted (js_claimed sc')"
    "set (js_claimed sc') = set (js_claimed ?sc) \<union> (\<lambda>m. key_of s (js_desired ?sc ! m)) ` unat ` set ms"
    "js_desired sc' = js_desired ?sc" "js_failure sc' = js_failure ?sc" "js_occupants sc' = js_occupants ?sc"
    "length (js_state sc') = length (js_state ?sc)"
    "(!) (js_state sc') = (\<lambda>k. if k \<in> unat ` set ms then Admitted_move else js_state ?sc ! k)"
    using Cons.IH [of ?sc] sc1 Cons.prems by auto
  then show ?case unfolding upd using step sc1 by (auto simp: fun_eq_iff)
qed simp

lemma settle_deny:
  assumes "\<forall>m \<in> set ms. unat m < length (js_state sc)" "length (js_failure sc) = length (js_state sc)"
  shows "\<exists>sc'. fold_opt (settle_member s False) ms sc = Some sc' \<and> js_claimed sc' = js_claimed sc
    \<and> js_desired sc' = js_desired sc \<and> js_occupants sc' = js_occupants sc
    \<and> length (js_state sc') = length (js_state sc) \<and> length (js_failure sc') = length (js_failure sc)
    \<and> (!) (js_state sc') = (\<lambda>k. if k \<in> unat ` set ms then Failed_move else js_state sc ! k)
    \<and> (!) (js_failure sc') = (\<lambda>k. if k \<in> unat ` set ms then Occupied else js_failure sc ! k)"
  using assms
proof (induction ms arbitrary: sc)
  case (Cons m ms)
  let ?sc = "sc\<lparr>js_state := (js_state sc)[unat m := Failed_move], js_failure := (js_failure sc)[unat m := Occupied]\<rparr>"
  have step: "settle_member s False m sc = Some ?sc"
    using Cons.prems by (simp add: settle_member_def set_failed_def set_state_def upd_opt_def)
  have upd: "(!) (js_state ?sc) = ((!) (js_state sc))(unat m := Failed_move)"
    "(!) (js_failure ?sc) = ((!) (js_failure sc))(unat m := Occupied)" using Cons.prems by (simp_all add: nth_update_fun)
  obtain sc' where "fold_opt (settle_member s False) ms ?sc = Some sc'" "js_claimed sc' = js_claimed ?sc"
    "js_desired sc' = js_desired ?sc" "js_occupants sc' = js_occupants ?sc" "length (js_state sc') = length (js_state ?sc)"
    "length (js_failure sc') = length (js_failure ?sc)"
    "(!) (js_state sc') = (\<lambda>k. if k \<in> unat ` set ms then Failed_move else js_state ?sc ! k)"
    "(!) (js_failure sc') = (\<lambda>k. if k \<in> unat ` set ms then Occupied else js_failure ?sc ! k)"
    using Cons.IH [of ?sc] Cons.prems by auto
  then show ?case unfolding upd using step by (auto simp: fun_eq_iff)
qed simp

end
