(* ===== verification/Joint_Decide.thy ===== *)
theory Joint_Decide imports Joint_Cycles Crowd begin

text \<open>
  The decision of a whole round: cycles, agents left waiting, and validation against a world whose
  occupancy is exact. The round decides about every agent, and what it admits can be applied as a set.
\<close>

definition refilled :: "coord3 list \<Rightarrow> joint_scratch \<Rightarrow> bool" where
  "refilled ps sc \<longleftrightarrow> (\<forall>i < length ps. js_state sc ! i = Pending_move \<longrightarrow>
     (\<forall>j < length ps. ps ! j = js_desired sc ! i \<and> js_state sc ! j = Admitted_move \<longrightarrow>
        (\<exists>k < length ps. js_state sc ! k = Admitted_move \<and> js_desired sc ! k = js_desired sc ! i)))"

lemma refilled_if_no_vacated: "no_vacated ps sc \<Longrightarrow> refilled ps sc"
  by (auto simp: refilled_def no_vacated_def)

definition swap_allowed :: "joint_move_options \<Rightarrow> path_agent list \<Rightarrow> nat \<Rightarrow> nat \<Rightarrow> bool" where
  "swap_allowed opts agents i j \<longleftrightarrow> admit_swap opts (agents ! i) (agents ! j)"

lemma admit_swap_sym: "admit_swap opts a b = admit_swap opts b a"
  by (auto simp: admit_swap_def split: swap_policy.splits)

lemma admit_cycle_total:
  assumes "\<forall>m \<in> set ms. unat m < length agents"
  shows "\<exists>admit stats'. admit_cycle opts agents ms stats = Some (admit, stats')
    \<and> (admit \<longrightarrow> 3 \<le> length ms \<or> (\<exists>i j. ms = [i, j] \<and> swap_allowed opts agents (unat i) (unat j)))"
proof (cases "3 \<le> length ms")
  case False
  then consider "ms = []" | i where "ms = [i]" | i j where "ms = [i, j]"
    by (cases ms rule: remdups_adj.cases) (auto simp: Suc_le_eq split: list.splits)
  then show ?thesis
    using assms by cases (auto simp: admit_cycle_def nth_opt_in swap_allowed_def)
qed (simp add: admit_cycle_def ex_bool_eq)

text \<open>The decision about a ring.\<close>

lemma ring_decided:
  assumes ok: "round_ok s ps W R ok sc" and fill: "refilled ps sc"
    and ms: "ms \<noteq> []" "distinct ms" "\<forall>m \<in> set ms. unat m < length ps \<and> js_state sc ! unat m = Pending_move"
    and ring: "\<And>k. k < length ms \<Longrightarrow> next_agent s sc (ms ! k) = ms ! (Suc k mod length ms)"
    and allowed: "admit \<Longrightarrow> 3 \<le> length ms \<or> (\<exists>i j. ms = [i, j] \<and> ok (unat i) (unat j) \<and> ok (unat j) (unat i))"
  shows "\<exists>sc'. fold_opt (settle_member s admit) ms sc = Some sc' \<and> round_ok s ps W R ok sc' \<and> refilled ps sc'
    \<and> (\<forall>j. js_state sc' ! j = Inactive_move \<longleftrightarrow> js_state sc ! j = Inactive_move)"
proof -
  let ?n = "length ps" and ?M = "unat ` set ms" and ?ds = "(!) (js_desired sc)"
  have p: "placed s ps" and L: "length (js_state sc) = ?n" "length (js_failure sc) = ?n" "length (js_desired sc) = ?n"
    and adm: "admission ?n ((!) ps) ok ((!) (js_state sc)) ((!) (js_failure sc)) ?ds"
    using ok by (simp_all add: round_ok_def)
  have v: "valid_shape s" "tile_key_bits s \<le> 64" "distinct ps" using p by (simp_all add: placed_def)
  note F = ring_facts [OF ms(1,2) ring]
  have img: "next_agent s sc ` set ms = set ms" using F(1) by blast
  have nx: "ps ! unat (next_agent s sc m) = ?ds (unat m)" "next_agent s sc m \<in> set ms" if "m \<in> set ms" for m
    using pending_next(2) [OF ok] ms(3) that img by auto
  have M: "?M \<subseteq> {..<?n}" "\<And>m. m \<in> ?M \<Longrightarrow> js_state sc ! m = Pending_move" using ms(3) by auto
  have nxt: "\<exists>m' \<in> ?M. ?ds m = ps ! m'" if "m \<in> ?M" for m
  proof -
    obtain x where "x \<in> set ms" "m = unat x" using \<open>m \<in> ?M\<close> by blast
    then show ?thesis using nx [of x] by (intro bexI [of _ "unat (next_agent s sc x)"]) simp_all
  qed
  have inj_next: "inj_on (next_agent s sc) (set ms)"
    using img by (intro eq_card_imp_inj_on) simp_all
  have posinj: "inj_on ((!) ps) {..<?n}" using v(3) by (auto simp: inj_on_def nth_eq_iff_index_eq)
  have dist: "inj_on ?ds ?M"
  proof (rule inj_onI)
    fix a b assume "a \<in> ?M" "b \<in> ?M" and eq: "?ds a = ?ds b"
    then obtain x y where xy: "x \<in> set ms" "a = unat x" "y \<in> set ms" "b = unat y" by blast
    then have "ps ! unat (next_agent s sc x) = ps ! unat (next_agent s sc y)" using nx(1) eq by simp
    moreover have "unat (next_agent s sc x) < ?n" "unat (next_agent s sc y) < ?n" using nx(2) ms(3) xy by blast+
    ultimately have "unat (next_agent s sc x) = unat (next_agent s sc y)" using v(3) by (simp add: nth_eq_iff_index_eq)
    then have "next_agent s sc x = next_agent s sc y" by (rule unsigned_word_eqI)
    then show "a = b" using inj_next xy by (auto dest: inj_onD)
  qed
  have act: "W i = Some (?ds i)" "R i" "shape_contains s (?ds i)" if "i \<in> ?M" for i
    using ok M that by (auto simp: round_ok_def)
  show ?thesis
  proof (cases admit)
    case True
    have sw: "ok i j" if ij: "i \<in> ?M" "j \<in> ?M" "i \<noteq> j" "?ds i = ps ! j" "?ds j = ps ! i" for i j
    proof -
      obtain x y where xy: "x \<in> set ms" "i = unat x" "y \<in> set ms" "j = unat y" using ij(1,2) by blast
      have "unat (next_agent s sc x) = unat y" "unat (next_agent s sc y) = unat x"
        using nx [OF xy(1)] nx [OF xy(3)] ms(3) xy ij(4,5) v(3) by (metis nth_eq_iff_index_eq)+
      then have "next_agent s sc x = y" "next_agent s sc y = x" by (auto intro: unsigned_word_eqI)
      from F(2) [OF _ xy(1) this] ij(3) xy have two: "length ms = 2" "set ms = {x, y}" by auto
      then obtain a b where "ms = [a, b]" "ok (unat a) (unat b)" "ok (unat b) (unat a)" using allowed [OF True] by auto
      then show ?thesis using two xy ij(3) by (auto simp: doubleton_eq_iff)
    qed
    obtain sc' where sc': "fold_opt (settle_member s True) ms sc = Some sc'" "sorted (js_claimed sc')"
      "set (js_claimed sc') = set (js_claimed sc) \<union> (\<lambda>m. key_of s (?ds m)) ` ?M"
      "js_desired sc' = js_desired sc" "js_failure sc' = js_failure sc" "js_occupants sc' = js_occupants sc"
      "length (js_state sc') = length (js_state sc)"
      "(!) (js_state sc') = (\<lambda>k. if k \<in> ?M then Admitted_move else js_state sc ! k)"
      using settle_admit [OF v(1,2), of sc ms] ok ms(3) L by (auto simp: round_ok_def)
    have st: "js_state sc' ! k = (if k \<in> ?M then Admitted_move else js_state sc ! k)" for k by (simp only: sc'(8))
    have "{k. k < ?n \<and> js_state sc' ! k = Admitted_move} = {k. k < ?n \<and> js_state sc ! k = Admitted_move} \<union> ?M"
      using M by (auto simp: st)
    then have "set (js_claimed sc') = (\<lambda>k. key_of s (js_desired sc' ! k)) ` {k. k < ?n \<and> js_state sc' ! k = Admitted_move}"
      using ok by (simp add: sc'(3,4) round_ok_def image_Un)
    moreover have "admission ?n ((!) ps) ok ((!) (js_state sc')) ((!) (js_failure sc')) ((!) (js_desired sc'))"
      unfolding sc'(4,5,8) by (rule admission_cycle [OF adm posinj M nxt dist sw])
    moreover have "js_state sc' ! k \<noteq> Inactive_move \<longrightarrow> W k = Some (js_desired sc' ! k)
        \<and> (R k \<longleftrightarrow> js_state sc' ! k \<noteq> Failed_move \<or> js_failure sc' ! k = Occupied)
        \<and> (js_state sc' ! k \<noteq> Failed_move \<longrightarrow> shape_contains s (js_desired sc' ! k))" if "k < ?n" for k
      using act [of k] ok that by (auto simp: st sc'(4,5) round_ok_def)
    ultimately have "round_ok s ps W R ok sc'" using ok sc'(2,4-7) by (simp add: round_ok_def)
    moreover have "refilled ps sc'"
      unfolding refilled_def
    proof (intro allI impI)
      fix i j assume i: "i < ?n" "js_state sc' ! i = Pending_move" and j: "j < ?n"
        "ps ! j = js_desired sc' ! i \<and> js_state sc' ! j = Admitted_move"
      then have i': "js_state sc ! i = Pending_move" "i \<notin> ?M" by (auto simp: st split: if_splits)
      show "\<exists>k < ?n. js_state sc' ! k = Admitted_move \<and> js_desired sc' ! k = js_desired sc' ! i"
      proof (cases "j \<in> ?M")
        case True
        then obtain y where "y \<in> set ms" "j = unat y" by blast
        then obtain x where "x \<in> set ms" "next_agent s sc x = y" using img by (metis imageE)
        then have "?ds (unat x) = ps ! j" "unat x \<in> ?M" "unat x < ?n" using nx(1) \<open>j = unat y\<close> ms(3) by auto
        then show ?thesis using j(2) by (intro exI [of _ "unat x"]) (simp add: st sc'(4))
      next
        case False
        then have "js_state sc ! j = Admitted_move" using j(2) by (simp add: st)
        then obtain k where "k < ?n" "js_state sc ! k = Admitted_move" "?ds k = ?ds i"
          using fill i(1) i'(1) j by (auto simp: refilled_def sc'(4))
        then show ?thesis by (intro exI [of _ k]) (simp add: st sc'(4))
      qed
    qed
    moreover have "\<forall>j. js_state sc' ! j = Inactive_move \<longleftrightarrow> js_state sc ! j = Inactive_move" using M(2) by (auto simp: st)
    ultimately show ?thesis using sc'(1) True by auto
  next
    case False
    obtain sc' where sc': "fold_opt (settle_member s False) ms sc = Some sc'" "js_claimed sc' = js_claimed sc"
      "js_desired sc' = js_desired sc" "js_occupants sc' = js_occupants sc"
      "length (js_state sc') = length (js_state sc)" "length (js_failure sc') = length (js_failure sc)"
      "(!) (js_state sc') = (\<lambda>k. if k \<in> ?M then Failed_move else js_state sc ! k)"
      "(!) (js_failure sc') = (\<lambda>k. if k \<in> ?M then Occupied else js_failure sc ! k)"
      using settle_deny [of ms sc] ms(3) L by auto
    have st: "js_state sc' ! k = (if k \<in> ?M then Failed_move else js_state sc ! k)"
      "js_failure sc' ! k = (if k \<in> ?M then Occupied else js_failure sc ! k)" for k by (simp_all only: sc'(7,8))
    have adm_iff: "js_state sc' ! k = Admitted_move \<longleftrightarrow> js_state sc ! k = Admitted_move" for k
      using M(2) [of k] by (auto simp: st)
    have "admission ?n ((!) ps) ok ((!) (js_state sc')) ((!) (js_failure sc')) ((!) (js_desired sc'))"
      unfolding sc'(3,7,8) by (rule admission_deny [OF adm M nxt])
    moreover have "js_state sc' ! k \<noteq> Inactive_move \<longrightarrow> W k = Some (js_desired sc' ! k)
        \<and> (R k \<longleftrightarrow> js_state sc' ! k \<noteq> Failed_move \<or> js_failure sc' ! k = Occupied)
        \<and> (js_state sc' ! k \<noteq> Failed_move \<longrightarrow> shape_contains s (js_desired sc' ! k))" if "k < ?n" for k
      using act [of k] ok that by (auto simp: st sc'(3) round_ok_def)
    ultimately have "round_ok s ps W R ok sc'" using ok sc'(2-6) by (simp add: round_ok_def adm_iff)
    moreover have "refilled ps sc'"
    proof -
      have "js_state sc' ! k = Pending_move \<Longrightarrow> js_state sc ! k = Pending_move" for k by (simp add: st split: if_splits)
      then show ?thesis using fill unfolding refilled_def adm_iff sc'(3) by blast
    qed
    moreover have "\<forall>j. js_state sc' ! j = Inactive_move \<longleftrightarrow> js_state sc ! j = Inactive_move" using M(2) by (auto simp: st)
    ultimately show ?thesis using sc'(1) False by auto
  qed
qed

lemma joint_cycle_ok:
  assumes ok: "round_ok s ps W R (swap_allowed opts agents) sc" and fill: "refilled ps sc"
    and n: "length agents = length ps" "length walked = length ps" "i < length ps"
  shows "\<exists>sc' walked' stats'. joint_cycle s opts agents i (sc, walked, stats) = Some (sc', walked', stats')
    \<and> round_ok s ps W R (swap_allowed opts agents) sc' \<and> refilled ps sc' \<and> length walked' = length ps
    \<and> (\<forall>j. js_state sc' ! j = Inactive_move \<longleftrightarrow> js_state sc ! j = Inactive_move)"
proof -
  have L: "length (js_state sc) = length ps" "length ps < 2 ^ 32 - 1" using ok by (simp_all add: round_ok_def placed_def)
  note u = of_nat_agent [OF n(3) L(2)]
  show ?thesis
  proof (cases "js_state sc ! i \<noteq> Pending_move \<or> walked ! i")
    case True
    then show ?thesis using ok fill n L by (auto simp: joint_cycle_def nth_opt_in)
  next
    case False
    have "walk_ok s (length ps) sc (of_nat i) (replicate (length ps) False) walked []"
      using n u by (simp add: walk_ok_def)
    from joint_walk_ok [OF ok this] obtain at on' walked' cw where
      walk: "joint_walk s sc (of_nat i) (replicate (length ps) False, walked, []) = Some (at, on', walked', cw)"
        "walk_ok s (length ps) sc at on' walked' cw" "at \<noteq> no_agent"
      by blast
    have at: "unat at < length ps" "length on' = length ps" "length walked' = length ps"
      and cw: "\<forall>m \<in> set cw. unat m < length ps \<and> js_state sc ! unat m = Pending_move"
      using walk(2) by (simp_all add: walk_ok_def)
    show ?thesis
    proof (cases "on' ! unat at")
      case False
      then show ?thesis
        using \<open>\<not> (js_state sc ! i \<noteq> Pending_move \<or> walked ! i)\<close> walk at ok fill n L
        by (simp add: joint_cycle_def nth_opt_in)
    next
      case closed: True
      obtain ms where ms: "dropWhile (\<lambda>k. k \<noteq> at) cw = ms" "ms \<noteq> []" "distinct ms" "set ms \<subseteq> set cw"
        "\<And>k. k < length ms \<Longrightarrow> next_agent s sc (ms ! k) = ms ! (Suc k mod length ms)"
        using closed_ring [OF walk(2) closed] by metis
      have mem: "\<forall>m \<in> set ms. unat m < length ps \<and> js_state sc ! unat m = Pending_move" using cw ms(4) by blast
      obtain admit stats' where ac: "admit_cycle opts agents ms stats = Some (admit, stats')"
        "admit \<longrightarrow> 3 \<le> length ms \<or> (\<exists>i j. ms = [i, j] \<and> swap_allowed opts agents (unat i) (unat j))"
        using admit_cycle_total [of ms agents opts stats] mem n(1) by auto
      have allowed: "admit \<Longrightarrow> 3 \<le> length ms \<or> (\<exists>i j. ms = [i, j] \<and> swap_allowed opts agents (unat i) (unat j)
          \<and> swap_allowed opts agents (unat j) (unat i))"
        using ac(2) admit_swap_sym by (auto simp: swap_allowed_def)
      obtain sc' where "fold_opt (settle_member s admit) ms sc = Some sc'"
        "round_ok s ps W R (swap_allowed opts agents) sc'" "refilled ps sc'"
        "\<forall>j. js_state sc' ! j = Inactive_move \<longleftrightarrow> js_state sc ! j = Inactive_move"
        using ring_decided [OF ok fill ms(2,3) mem ms(5) allowed] by blast
      then show ?thesis
        using \<open>\<not> (js_state sc ! i \<noteq> Pending_move \<or> walked ! i)\<close> walk at closed ac(1) ms(1) n L
        by (simp add: joint_cycle_def nth_opt_in)
    qed
  qed
qed

subsection \<open>Agents left waiting\<close>

text \<open>The outcome: every agent that wants to move is admitted or refused, for the reasons stated.\<close>

definition decided ::
    "shape \<Rightarrow> coord3 list \<Rightarrow> (nat \<Rightarrow> coord3 option) \<Rightarrow> (nat \<Rightarrow> bool) \<Rightarrow> (nat \<Rightarrow> nat \<Rightarrow> bool) \<Rightarrow> joint_scratch \<Rightarrow> bool" where
  "decided s ps W R ok sc \<longleftrightarrow> length (js_state sc) = length ps \<and> length (js_failure sc) = length ps
     \<and> length (js_desired sc) = length ps
     \<and> (\<forall>i < length ps. js_state sc ! i \<noteq> Pending_move \<and> (js_state sc ! i = Inactive_move \<longleftrightarrow> W i = None)
          \<and> (js_state sc ! i \<noteq> Inactive_move \<longrightarrow> W i = Some (js_desired sc ! i)
               \<and> (R i \<longleftrightarrow> js_state sc ! i = Admitted_move \<or> js_failure sc ! i = Occupied))
          \<and> (js_state sc ! i = Admitted_move \<longrightarrow> shape_contains s (js_desired sc ! i)))
     \<and> (\<forall>i < length ps. \<forall>j < length ps. js_state sc ! i = Admitted_move \<longrightarrow>
          (js_state sc ! j = Admitted_move \<and> js_desired sc ! i = js_desired sc ! j \<longrightarrow> i = j)
          \<and> (js_desired sc ! i = ps ! j \<longrightarrow> js_state sc ! j = Admitted_move \<and> (i \<noteq> j \<and> js_desired sc ! j = ps ! i \<longrightarrow> ok i j)))
     \<and> (\<forall>i < length ps. js_state sc ! i = Failed_move \<and> js_failure sc ! i = Occupied \<longrightarrow>
          (\<exists>j < length ps. js_state sc ! j = Admitted_move \<and> js_desired sc ! j = js_desired sc ! i)
          \<or> (\<exists>j < length ps. ps ! j = js_desired sc ! i \<and> js_state sc ! j \<noteq> Admitted_move))"

lemma settle_waiting_all:
  assumes L: "length (js_state sc) = n" "length (js_failure sc) = n"
  shows "\<exists>sc'. fold_opt settle_waiting [0..<n] sc = Some sc' \<and> js_desired sc' = js_desired sc
    \<and> length (js_state sc') = n \<and> length (js_failure sc') = n
    \<and> (\<forall>i < n. js_state sc' ! i = (if js_state sc ! i = Pending_move then Failed_move else js_state sc ! i)
         \<and> js_failure sc' ! i = (if js_state sc ! i = Pending_move then Occupied else js_failure sc ! i))"
proof -
  let ?P = "\<lambda>k (sc' :: joint_scratch). js_desired sc' = js_desired sc \<and> length (js_state sc') = n \<and> length (js_failure sc') = n
    \<and> (\<forall>i < n. js_state sc' ! i = (if i < k \<and> js_state sc ! i = Pending_move then Failed_move else js_state sc ! i)
         \<and> js_failure sc' ! i = (if i < k \<and> js_state sc ! i = Pending_move then Occupied else js_failure sc ! i))"
  have "\<exists>sc'. fold_opt settle_waiting [0..<n] sc = Some sc' \<and> ?P n sc'"
  proof (rule fold_opt_upt [where P = ?P])
    show "?P 0 sc" using L by simp
  next
    fix k sc1 assume k: "k < n" and P: "?P k sc1"
    then have k1: "js_state sc1 ! k = js_state sc ! k" by simp
    show "\<exists>sc2. settle_waiting k sc1 = Some sc2 \<and> ?P (Suc k) sc2"
    proof (cases "js_state sc ! k = Pending_move")
      case True
      then have "settle_waiting k sc1 = Some (sc1\<lparr>js_state := (js_state sc1)[k := Failed_move],
          js_failure := (js_failure sc1)[k := Occupied]\<rparr>)"
        using k P k1 by (simp add: settle_waiting_def nth_opt_in set_failed_def set_state_def upd_opt_def)
      moreover have "?P (Suc k) (sc1\<lparr>js_state := (js_state sc1)[k := Failed_move], js_failure := (js_failure sc1)[k := Occupied]\<rparr>)"
        using k P True by (auto simp: nth_list_update less_Suc_eq)
      ultimately show ?thesis by blast
    next
      case False
      then have "settle_waiting k sc1 = Some sc1" using k P k1 by (simp add: settle_waiting_def nth_opt_in)
      moreover have "?P (Suc k) sc1" using P False by (auto simp: less_Suc_eq)
      ultimately show ?thesis by blast
    qed
  qed
  then show ?thesis by simp
qed

lemma settled_decided:
  assumes ok: "round_ok s ps W R ok sc" and fill: "refilled ps sc"
    and all: "\<forall>i < length ps. js_state sc ! i = Inactive_move \<longleftrightarrow> W i = None"
  shows "\<exists>sc'. fold_opt settle_waiting [0..<length ps] sc = Some sc' \<and> decided s ps W R ok sc'"
proof -
  let ?n = "length ps"
  have L: "length (js_state sc) = ?n" "length (js_failure sc) = ?n" "length (js_desired sc) = ?n"
    and adm: "admission ?n ((!) ps) ok ((!) (js_state sc)) ((!) (js_failure sc)) ((!) (js_desired sc))"
    using ok by (simp_all add: round_ok_def)
  note D = admissionD [OF adm]
  obtain sc' where sc': "fold_opt settle_waiting [0..<?n] sc = Some sc'" "js_desired sc' = js_desired sc"
    "length (js_state sc') = ?n" "length (js_failure sc') = ?n"
    and st: "\<And>i. i < ?n \<Longrightarrow> js_state sc' ! i = (if js_state sc ! i = Pending_move then Failed_move else js_state sc ! i)"
      "\<And>i. i < ?n \<Longrightarrow> js_failure sc' ! i = (if js_state sc ! i = Pending_move then Occupied else js_failure sc ! i)"
    using settle_waiting_all [OF L(1,2)] by blast
  have iff: "js_state sc' ! i = Admitted_move \<longleftrightarrow> js_state sc ! i = Admitted_move" if "i < ?n" for i
    using st(1) [OF that] by simp
  have A: "js_state sc' ! i \<noteq> Pending_move \<and> (js_state sc' ! i = Inactive_move \<longleftrightarrow> W i = None)
      \<and> (js_state sc' ! i \<noteq> Inactive_move \<longrightarrow> W i = Some (js_desired sc' ! i)
           \<and> (R i \<longleftrightarrow> js_state sc' ! i = Admitted_move \<or> js_failure sc' ! i = Occupied))
      \<and> (js_state sc' ! i = Admitted_move \<longrightarrow> shape_contains s (js_desired sc' ! i))" if i: "i < ?n" for i
  proof -
    have "js_state sc ! i \<noteq> Inactive_move \<Longrightarrow> W i = Some (js_desired sc ! i)
          \<and> (R i \<longleftrightarrow> js_state sc ! i \<noteq> Failed_move \<or> js_failure sc ! i = Occupied)
          \<and> (js_state sc ! i \<noteq> Failed_move \<longrightarrow> shape_contains s (js_desired sc ! i))"
      using ok i by (simp add: round_ok_def)
    then show ?thesis using all [rule_format, OF i] st [OF i] sc'(2) by (cases "js_state sc ! i") simp_all
  qed
  have B: "js_state sc' ! i = Admitted_move \<longrightarrow>
      (js_state sc' ! j = Admitted_move \<and> js_desired sc' ! i = js_desired sc' ! j \<longrightarrow> i = j)
      \<and> (js_desired sc' ! i = ps ! j \<longrightarrow> js_state sc' ! j = Admitted_move \<and> (i \<noteq> j \<and> js_desired sc' ! j = ps ! i \<longrightarrow> ok i j))"
    if ij: "i < ?n" "j < ?n" for i j
    using D(2-4) [OF ij(1,2)] iff [OF ij(1)] iff [OF ij(2)] sc'(2) by auto
  have C: "(\<exists>j < ?n. js_state sc' ! j = Admitted_move \<and> js_desired sc' ! j = js_desired sc' ! i)
      \<or> (\<exists>j < ?n. ps ! j = js_desired sc' ! i \<and> js_state sc' ! j \<noteq> Admitted_move)"
    if i: "i < ?n" and f: "js_state sc' ! i = Failed_move \<and> js_failure sc' ! i = Occupied" for i
  proof (cases "js_state sc ! i = Pending_move")
    case True
    then obtain j where j: "j < ?n" "ps ! j = js_desired sc ! i" using D(1) [OF i] by blast
    then show ?thesis using fill i True iff sc'(2) unfolding refilled_def by metis
  next
    case False
    then have "js_state sc ! i = Failed_move" "js_failure sc ! i = Occupied" using f st [OF i] by simp_all
    from D(5) [OF i this] show ?thesis
    proof
      assume "\<exists>j < ?n. js_state sc ! j = Admitted_move \<and> js_desired sc ! j = js_desired sc ! i"
      then show ?thesis using iff sc'(2) by auto
    next
      assume "\<exists>j < ?n. ps ! j = js_desired sc ! i \<and> js_state sc ! j = Failed_move"
      then obtain j where "j < ?n" "ps ! j = js_desired sc ! i" "js_state sc ! j = Failed_move" by blast
      then show ?thesis using iff [of j] sc'(2) by (intro disjI2 exI [of _ j]) simp
    qed
  qed
  have "length (js_desired sc') = ?n" using sc'(2) L(3) by simp
  then have "decided s ps W R ok sc'" unfolding decided_def using A B C sc'(3,4) by blast
  with sc'(1) show ?thesis by blast
qed

end
