(* ===== verification/Joint_World.thy ===== *)
theory Joint_World imports Joint_Decide begin

text \<open>
  A joint round on a world: validation against the occupancy, and the application of what was admitted.
\<close>

text \<open>The tile an agent's route leads to next, and whether only an occupant can keep the agent from it.\<close>

definition wanted_tile :: "path_agent \<Rightarrow> coord3 list \<Rightarrow> coord3 option" where
  "wanted_tile a route =
     (if wants_to_move a \<and> has_next_step (pa_path_index a) (of_nat (length route))
      then nth_opt route (unat (pa_path_index a + 1)) else None)"

definition open_step ::
    "('t, 'w) tile_api \<Rightarrow> 't movement_class \<Rightarrow> 't \<Rightarrow> 't \<Rightarrow> 'w \<Rightarrow> coord3 \<Rightarrow> coord3 \<Rightarrow> bool" where
  "open_step A cls otag rtag w a c \<longleftrightarrow>
     (\<exists>v. validate_adjacent_intent A cls otag rtag w \<lparr>mi_from = a, mi_to = c, mi_versions = no_versions\<rparr> = Some v
        \<and> (mr_status v = Moved \<or> mr_status v = Occupied \<and> tile_value_at A w rtag c = Some 0))"

lemma next_step_tile:
  assumes "has_next_step i (of_nat (length route))" "length route < 2 ^ 64"
  shows "unat (i + 1) < length route"
proof -
  have lt: "i < of_nat (length route) - 1" "(0 :: u64) < of_nat (length route)"
    using assms(1) by (simp_all add: has_next_step_def)
  then have "unat i < unat (of_nat (length route) - (1 :: u64))" by (simp add: word_less_nat_alt)
  also have "\<dots> = length route - 1"
    using assms(2) lt(2) by (subst unat_sub) (auto simp: word_le_nat_alt word_less_nat_alt unat_of_nat Suc_le_eq)
  finally show ?thesis
    using unat_plus_if' [of i 1] assms(2) by (auto split: if_splits)
qed

lemma wanted_defined:
  assumes "length route < 2 ^ 64" "wants_to_move a" "has_next_step (pa_path_index a) (of_nat (length route))"
  shows "wanted_tile a route = Some (route ! unat (pa_path_index a + 1))"
    "nth_opt route (unat (pa_path_index a + 1)) = Some (route ! unat (pa_path_index a + 1))"
  using next_step_tile [OF assms(3,1)] assms by (simp_all add: wanted_tile_def nth_opt_in)

lemma fold_opt_upt_partial:
  assumes "fold_opt f [0..<n] x = Some y" "P 0 x" and "\<And>k x y. k < n \<Longrightarrow> P k x \<Longrightarrow> f k x = Some y \<Longrightarrow> P (Suc k) y"
  shows "P n y"
  using assms
proof (induction n arbitrary: y)
  case (Suc n)
  then obtain z where z: "fold_opt f [0..<n] x = Some z" "f n z = Some y" by (auto simp: fold_opt_append bind_eq_Some_conv)
  have "P n z" using Suc.IH [OF z(1) Suc.prems(2)] Suc.prems(3) by simp
  then show ?case using Suc.prems(3) [OF _ _ z(2)] by simp
qed simp

locale joint_world = crowd_world A inv res page entry cls otag rtag
  for A :: "('t, int, 'w) world_api" and inv and res and page and entry and cls and otag :: 't and rtag :: 't
begin

abbreviation wanted :: "path_agent list \<Rightarrow> path_agent_routes \<Rightarrow> nat \<Rightarrow> coord3 option" where
  "wanted agents routes i \<equiv> wanted_tile (agents ! i) (routes ! i)"

abbreviation opened :: "'w \<Rightarrow> path_agent list \<Rightarrow> path_agent_routes \<Rightarrow> nat \<Rightarrow> bool" where
  "opened w agents routes i \<equiv> \<exists>c. wanted agents routes i = Some c
     \<and> open_step A cls otag rtag w (pa_position (agents ! i)) c"

lemma adjacent_verdict:
  assumes "inv w"
  shows "validate_adjacent_intent A cls otag rtag w i
    = Some \<lparr>mr_status = verdict AdjacentTransitions [] w i, mr_from = mi_from i, mr_to = mi_to i\<rparr>"
proof -
  have "provider_forward AdjacentTransitions w (mi_from i) = Some []" by (simp add: provider_forward_def)
  from validate_eq [OF assms this] show ?thesis
    by (cases "verdict AdjacentTransitions [] w i = Moved")
       (simp_all add: validate_adjacent_intent_def validate_movement_intent_def movement_failed_def)
qed

lemma verdict_target:
  assumes "crowd w cs"
  shows "verdict pr ks w i = Moved \<Longrightarrow> tile_res w (mi_to i) \<and> mi_to i \<notin> set cs"
    "verdict pr ks w i = Occupied \<Longrightarrow> tile_res w (mi_to i) \<and> mi_to i \<in> set cs"
proof -
  have held: "tile_res w c \<Longrightarrow> held w c \<longleftrightarrow> c \<in> set cs" for c using assms by (simp add: crowd_def)
  have neq: "edge_status pr w ks a b \<noteq> Occupied" for a b by (simp add: edge_status_def)
  have ver: "version_status w i \<noteq> Occupied" by (simp add: version_status_def movement_versions_match_meta_def)
  show "verdict pr ks w i = Moved \<Longrightarrow> tile_res w (mi_to i) \<and> mi_to i \<notin> set cs"
    using held by (auto simp: verdict_def Let_def split: if_splits)
  show "verdict pr ks w i = Occupied \<Longrightarrow> tile_res w (mi_to i) \<and> mi_to i \<in> set cs"
    using held neq ver by (auto simp: verdict_def Let_def split: if_splits)
qed

lemma open_target: "inv w \<Longrightarrow> crowd w cs \<Longrightarrow> open_step A cls otag rtag w a c \<Longrightarrow> tile_res w c"
  using verdict_target [of w cs AdjacentTransitions "[]" "\<lparr>mi_from = a, mi_to = c, mi_versions = no_versions\<rparr>"]
  by (auto simp: open_step_def adjacent_verdict)

lemma crowd_placed:
  assumes "crowd w cs" "length cs < 2 ^ 32 - 1"
  shows "placed (wa_shape A) cs"
  using assms shape_ok index_law by (auto simp: placed_def crowd_def tile_res_def)

subsection \<open>Validation\<close>

lemma joint_validate_ok:
  assumes w: "crowd w (map pa_position agents)" and i: "i < length agents" "i < length routes" "length (routes ! i) < 2 ^ 64"
    and ok: "round_ok (wa_shape A) (map pa_position agents) (wanted agents routes) (opened w agents routes) swap sc"
    and st: "js_state sc ! i = Inactive_move"
  shows "\<exists>sc' b'. joint_validate A cls otag rtag w agents routes i (sc, b) = Some (sc', b')
    \<and> round_ok (wa_shape A) (map pa_position agents) (wanted agents routes) (opened w agents routes) swap sc'
    \<and> (\<forall>j. j \<noteq> i \<longrightarrow> js_state sc' ! j = js_state sc ! j)
    \<and> (js_state sc' ! i = Inactive_move \<longleftrightarrow> wanted agents routes i = None)
    \<and> (b' \<longleftrightarrow> b \<or> js_state sc' ! i = Pending_move)"
proof (cases "wanted agents routes i")
  case None
  then have skip: "\<not> wants_to_move (agents ! i) \<or> \<not> has_next_step (pa_path_index (agents ! i)) (of_nat (length (routes ! i)))"
    using wanted_defined(1) [OF i(3)] by force
  then have "joint_validate A cls otag rtag w agents routes i (sc, b) = Some (sc, b)"
    using i by (auto simp: joint_validate_def nth_opt_in)
  then show ?thesis using ok st None by simp
next
  case (Some c)
  let ?s = "wa_shape A" and ?ps = "map pa_position agents" and ?W = "wanted agents routes" and ?R = "opened w agents routes"
  let ?v = "verdict AdjacentTransitions [] w \<lparr>mi_from = pa_position (agents ! i), mi_to = c, mi_versions = no_versions\<rparr>"
  let ?c = "(js_desired sc)[i := c]"
  have iw: "inv w" using w by (simp add: crowd_def)
  have go: "wants_to_move (agents ! i)" "has_next_step (pa_path_index (agents ! i)) (of_nat (length (routes ! i)))"
    "nth_opt (routes ! i) (unat (pa_path_index (agents ! i) + 1)) = Some c"
    using Some by (auto simp: wanted_tile_def split: if_splits)
  have L: "length (js_state sc) = length agents" "length (js_failure sc) = length agents" "length (js_desired sc) = length agents"
    and adm: "admission (length ?ps) ((!) ?ps) swap ((!) (js_state sc)) ((!) (js_failure sc)) ((!) (js_desired sc))"
    and v: "valid_shape ?s" "tile_key_bits ?s \<le> 64"
    using ok by (simp_all add: round_ok_def placed_def)
  have n: "i < length ?ps" using i(1) by simp
  have na: "js_state sc ! i \<noteq> Admitted_move" using st by simp
  note T = verdict_target [OF w, of AdjacentTransitions "[]" "\<lparr>mi_from = pa_position (agents ! i), mi_to = c, mi_versions = no_versions\<rparr>", simplified]
  have R: "?R i \<longleftrightarrow> ?v = Moved \<or> ?v = Occupied \<and> tile_value_at A w rtag c = Some 0"
    using Some by (simp add: open_step_def adjacent_verdict [OF iw])
  have run: "joint_validate A cls otag rtag w agents routes i (sc, b) =
      (if ?v = Moved then Option.bind (joint_key ?s c)
         (\<lambda>key. map_option (\<lambda>sc2. (sc2, b)) (admit_claimed i (joint_claim key (sc\<lparr>js_desired := ?c\<rparr>))))
       else if ?v = Occupied then Option.bind (tile_value_at A w rtag c) (\<lambda>reserved.
         if reserved \<noteq> 0 then map_option (\<lambda>sc2. (sc2, b)) (set_failed i Reserved (sc\<lparr>js_desired := ?c\<rparr>))
         else map_option (\<lambda>sc2. (sc2, True)) (set_state i Pending_move (sc\<lparr>js_desired := ?c\<rparr>)))
       else map_option (\<lambda>sc2. (sc2, b)) (set_failed i ?v (sc\<lparr>js_desired := ?c\<rparr>)))"
    using i go L by (simp add: joint_validate_def nth_opt_in adjacent_verdict [OF iw] set_desired_def upd_opt_def)
  have fail: "\<exists>sc'. set_failed i f (sc\<lparr>js_desired := ?c\<rparr>) = Some sc' \<and> round_ok ?s ?ps ?W ?R swap sc'
      \<and> (\<forall>j. j \<noteq> i \<longrightarrow> js_state sc' ! j = js_state sc ! j) \<and> js_state sc' ! i = Failed_move"
    if "\<not> ?R i" "f \<noteq> Occupied" for f
  proof -
    have "round_ok ?s ?ps ?W ?R swap (sc\<lparr>js_desired := ?c, js_state := (js_state sc)[i := Failed_move],
        js_failure := (js_failure sc)[i := f]\<rparr>)"
      using that Some st by (intro round_ok_update [OF ok n na] admission_fail [OF adm n]) simp_all
    then show ?thesis using i L by (simp add: set_failed_def set_state_def upd_opt_def)
  qed
  show ?thesis
  proof (cases "?v = Moved")
    case True
    have c: "shape_contains ?s c" "c \<notin> set ?ps" using T(1) True by (simp_all add: tile_res_def)
    have left: "\<And>j. j < length ?ps \<Longrightarrow> ?ps ! j = c \<Longrightarrow> js_state sc ! j = Admitted_move" using c(2) nth_mem by blast
    have Ri: "?R i" using R True by blast
    obtain sc' where "admit_claimed i (joint_claim (key_of ?s c) (sc\<lparr>js_desired := ?c\<rparr>)) = Some sc'"
      "round_ok ?s ?ps ?W ?R swap sc'" "js_state sc' ! i \<noteq> Pending_move" "js_state sc' ! i \<noteq> Inactive_move"
      "\<And>j. j \<noteq> i \<Longrightarrow> js_state sc' ! j = js_state sc ! j"
      using admit_claimed_ok [OF ok n disjI1 [OF st] c(1) Some Ri left] by blast
    then show ?thesis using True Some by (simp add: run joint_key_at [OF v c(1)])
  next
    case nm: False
    show ?thesis
    proof (cases "?v = Occupied")
      case True
      have c: "tile_res w c" "c \<in> set ?ps" using T(2) True by simp_all
      obtain r where r: "tile_value_at A w rtag c = Some r" using value_defined [OF iw c(1)] tags_law [OF iw] by blast
      show ?thesis
      proof (cases "r = 0")
        case False
        then show ?thesis using fail [of Reserved] nm True Some r R by (auto simp: run)
      next
        case zero: True
        obtain j where j: "j < length ?ps" "?ps ! j = c" using c(2) by (metis in_set_conv_nth)
        have "round_ok ?s ?ps ?W ?R swap (sc\<lparr>js_desired := ?c, js_state := (js_state sc)[i := Pending_move],
            js_failure := (js_failure sc)[i := js_failure sc ! i]\<rparr>)"
        proof (rule round_ok_update [OF ok n na])
          show "admission (length ?ps) ((!) ?ps) swap (((!) (js_state sc))(i := Pending_move))
              (((!) (js_failure sc))(i := js_failure sc ! i)) (((!) (js_desired sc))(i := c))"
            using admission_wait [OF adm n st j] by (simp add: fun_upd_idem)
        qed (use True zero r R Some c(1) in \<open>simp_all add: tile_res_def\<close>)
        then show ?thesis using nm True zero r Some i L by (simp add: run set_state_def upd_opt_def)
      qed
    next
      case False
      then show ?thesis using fail [of ?v] nm Some R by (auto simp: run)
    qed
  qed
qed

end

end
