(* ===== verification/Joint_Apply.thy ===== *)
theory Joint_Apply imports Joint_World begin

text \<open>A whole round on a world: its decisions, their application, and the crowd it leaves.\<close>

context joint_world
begin

lemma joint_decide_ok:
  assumes w: "crowd w (map pa_position agents)" and n: "length agents < 2 ^ 32 - 1" "length agents \<le> length routes"
    and routes: "\<forall>route \<in> set routes. length route < 2 ^ 64"
  shows "\<exists>sc stats'. joint_decide A cls otag rtag opts w agents routes stats = Some (sc, stats')
    \<and> decided (wa_shape A) (map pa_position agents) (wanted agents routes) (opened w agents routes) (swap_allowed opts agents) sc"
proof -
  let ?s = "wa_shape A" and ?ps = "map pa_position agents" and ?n = "length agents"
  let ?W = "wanted agents routes" and ?R = "opened w agents routes" and ?sw = "swap_allowed opts agents"
  let ?ok = "round_ok ?s ?ps ?W ?R ?sw"
  have p: "placed ?s ?ps" using crowd_placed [OF w] n(1) by simp
  obtain sc0 where sc0: "start_round ?s agents = Some sc0" "index_ok ?s ?ps (js_occupants sc0)" "js_claimed sc0 = []"
    "js_desired sc0 = replicate ?n default_coord3" "js_state sc0 = replicate ?n Inactive_move"
    "js_failure sc0 = replicate ?n Moved"
    using start_round_ok [OF p] by blast
  have "admission ?n ((!) ?ps) ?sw ((!) (js_state sc0)) ((!) (js_failure sc0)) ((!) (js_desired sc0))"
    unfolding admission_def by (simp add: sc0)
  then have ok0: "?ok sc0" using p sc0 by (simp add: round_ok_def)
  let ?P = "\<lambda>k (sc, b). ?ok sc \<and> (\<forall>j < ?n. if j < k then (js_state sc ! j = Inactive_move \<longleftrightarrow> ?W j = None)
      else js_state sc ! j = Inactive_move) \<and> (b \<longleftrightarrow> (\<exists>j < ?n. js_state sc ! j = Pending_move))"
  have "\<exists>y. fold_opt (joint_validate A cls otag rtag w agents routes) [0..<?n] (sc0, False) = Some y \<and> ?P ?n y"
  proof (rule fold_opt_upt [where P = ?P])
    show "?P 0 (sc0, False)" using ok0 by (simp add: sc0)
  next
    fix k x assume k: "k < ?n" and P: "?P k x"
    obtain sc b where x: "x = (sc, b)" by (cases x)
    have st: "js_state sc ! k = Inactive_move" using P k by (auto simp: x)
    have okx: "?ok sc" using P by (simp add: x)
    have r: "k < length routes" "length (routes ! k) < 2 ^ 64" using k n(2) routes by auto
    obtain sc' b' where one: "joint_validate A cls otag rtag w agents routes k (sc, b) = Some (sc', b')" "?ok sc'"
      "\<forall>j. j \<noteq> k \<longrightarrow> js_state sc' ! j = js_state sc ! j" "js_state sc' ! k = Inactive_move \<longleftrightarrow> ?W k = None"
      "b' \<longleftrightarrow> b \<or> js_state sc' ! k = Pending_move"
      using joint_validate_ok [OF w k r okx st, of b] by (elim exE conjE) (rule that)
    have "(\<forall>j < ?n. if j < Suc k then (js_state sc' ! j = Inactive_move \<longleftrightarrow> ?W j = None) else js_state sc' ! j = Inactive_move)"
      using P one(3,4) by (auto simp: x less_Suc_eq)
    moreover have "b' \<longleftrightarrow> (\<exists>j < ?n. js_state sc' ! j = Pending_move)"
    proof -
      have "b \<longleftrightarrow> (\<exists>j < ?n. js_state sc ! j = Pending_move)" using P by (simp add: x)
      moreover have "js_state sc ! k \<noteq> Pending_move" using st by simp
      ultimately show ?thesis unfolding one(5) using one(3) k by metis
    qed
    ultimately show "\<exists>y. joint_validate A cls otag rtag w agents routes k x = Some y \<and> ?P (Suc k) y"
      using one(1,2) x by auto
  qed
  then obtain sc1 b1 where sc1: "fold_opt (joint_validate A cls otag rtag w agents routes) [0..<?n] (sc0, False) = Some (sc1, b1)"
    "?ok sc1" "\<forall>j < ?n. js_state sc1 ! j = Inactive_move \<longleftrightarrow> ?W j = None"
    "b1 \<longleftrightarrow> (\<exists>j < ?n. js_state sc1 ! j = Pending_move)" by auto
  obtain sc2 c2 where sc2: "(if b1 then chain_loop ?s sc1 (jm_chained stats) else Some (sc1, jm_chained stats)) = Some (sc2, c2)"
    "?ok sc2" "\<forall>j. js_state sc2 ! j = Inactive_move \<longleftrightarrow> js_state sc1 ! j = Inactive_move" "no_vacated ?ps sc2"
  proof (cases b1)
    case True
    then show thesis using that chain_loop_ok [OF sc1(2), of "jm_chained stats"] by auto
  next
    case False
    then have "no_vacated ?ps sc1" using sc1(4) by (simp add: no_vacated_def)
    then show thesis using that False sc1(2) by simp
  qed
  let ?Q = "\<lambda>k (sc, walked :: bool list, st :: joint_move_stats). ?ok sc \<and> refilled ?ps sc \<and> length walked = ?n
      \<and> (\<forall>j. js_state sc ! j = Inactive_move \<longleftrightarrow> js_state sc2 ! j = Inactive_move)"
  have "\<exists>y. fold_opt (joint_cycle ?s opts agents) [0..<?n] (sc2, replicate ?n False, stats\<lparr>jm_chained := c2\<rparr>) = Some y \<and> ?Q ?n y"
  proof (rule fold_opt_upt [where P = ?Q])
    show "?Q 0 (sc2, replicate ?n False, stats\<lparr>jm_chained := c2\<rparr>)"
      using sc2(2) refilled_if_no_vacated [OF sc2(4)] by simp
  next
    fix k x assume k: "k < ?n" and Q: "?Q k x"
    obtain sc walked st where x: "x = (sc, walked, st)" by (cases x)
    have "length agents = length ?ps" "length walked = length ?ps" "k < length ?ps" "?ok sc" "refilled ?ps sc"
      using Q k by (simp_all add: x)
    from joint_cycle_ok [OF this(4,5,1,2,3), of st] Q
    show "\<exists>y. joint_cycle ?s opts agents k x = Some y \<and> ?Q (Suc k) y" by (auto simp: x)
  qed
  then obtain sc3 walked stats3 where sc3: "fold_opt (joint_cycle ?s opts agents) [0..<?n]
      (sc2, replicate ?n False, stats\<lparr>jm_chained := c2\<rparr>) = Some (sc3, walked, stats3)"
    "?ok sc3" "refilled ?ps sc3" "\<forall>j. js_state sc3 ! j = Inactive_move \<longleftrightarrow> js_state sc2 ! j = Inactive_move" by auto
  have "\<forall>i < length ?ps. js_state sc3 ! i = Inactive_move \<longleftrightarrow> ?W i = None" using sc1(3) sc2(3) sc3(4) by simp
  from settled_decided [OF sc3(2,3) this] obtain sc4 where "fold_opt settle_waiting [0..<?n] sc3 = Some sc4"
    "decided ?s ?ps ?W ?R ?sw sc4" by auto
  then show ?thesis using sc0(1) sc1(1) sc2(1) sc3(1) by (simp add: joint_decide_def)
qed

subsection \<open>Application\<close>

lemma set_tile_at_eq:
  assumes "inv w" "tile_res w c" "contains_field_tag t (wa_schema A)"
  obtains w' where "set_tile_at A t c v w = Some w'" "inv w'" "res w' = res w"
    "\<And>t' c'. tile_value_at A w' t' c' = (if t' = t \<and> c' = c then Some v else tile_value_at A w t' c')"
proof -
  have "shape_contains (wa_shape A) c" using assms(2) by (simp add: tile_res_def)
  then show ?thesis
    using set_tile [OF assms, of v] resolved(1) [OF assms(1)] that by (auto simp: set_tile_at_def)
qed

lemma mark_move_eq:
  assumes "inv w" "tile_res w a" "tile_res w b"
  shows "case mark_move A m a b w of None \<Rightarrow> \<not> dirty_empty m
    | Some w' \<Rightarrow> inv w' \<and> res w' = res w \<and> tile_value_at A w' = tile_value_at A w"
proof (cases "dirty_empty m")
  case True
  then show ?thesis using assms(1) by (simp add: mark_move_def)
next
  case False
  note one = mark_at [OF assms(1,2), of m "unit_box a"]
  show ?thesis
  proof (cases "wa_mark_dirty A w (key_at a) m (unit_box a)")
    case None
    then show ?thesis using False by (simp add: mark_move_def)
  next
    case (Some w1)
    then have w1: "inv w1" "res w1 = res w" "tile_value_at A w1 = tile_value_at A w"
      using one by (auto split: option.splits)
    have "tile_res w1 b" using assms(3) set_tile_res [OF w1(2)] by simp
    from mark_at [OF w1(1) this, of m "unit_box b"] show ?thesis
      using False Some w1 by (auto simp: mark_move_def split: option.splits)
  qed
qed

text \<open>What a decided round admits: who moves, and where.\<close>

definition moved_to :: "joint_scratch \<Rightarrow> coord3 list \<Rightarrow> nat \<Rightarrow> coord3" where
  "moved_to sc ps i = (if js_state sc ! i = Admitted_move then js_desired sc ! i else ps ! i)"

lemma clear_sources_ok:
  assumes w: "crowd w (map pa_position agents)" and L: "length (js_state sc) = length agents"
  shows "\<exists>w' m. fold_opt (clear_source A otag agents sc) [0..<length agents] (w, 0) = Some (w', m)
    \<and> inv w' \<and> res w' = res w
    \<and> (\<forall>t c. tile_value_at A w' t c = (if t = otag \<and> (\<exists>i < length agents. js_state sc ! i = Admitted_move
          \<and> c = pa_position (agents ! i)) then Some 0 else tile_value_at A w t c))
    \<and> (m = 0 \<longleftrightarrow> (\<forall>i < length agents. js_state sc ! i \<noteq> Admitted_move))"
proof -
  let ?P = "\<lambda>k (w', m). inv w' \<and> res w' = res w
    \<and> (\<forall>t c. tile_value_at A w' t c = (if t = otag \<and> (\<exists>i < k. js_state sc ! i = Admitted_move
          \<and> c = pa_position (agents ! i)) then Some 0 else tile_value_at A w t c))
    \<and> (m = (0 :: nat) \<longleftrightarrow> (\<forall>i < k. js_state sc ! i \<noteq> Admitted_move))"
  have "\<exists>y. fold_opt (clear_source A otag agents sc) [0..<length agents] (w, 0) = Some y \<and> ?P (length agents) y"
  proof (rule fold_opt_upt [where P = ?P])
    show "?P 0 (w, 0)" using w by (simp add: crowd_def)
  next
    fix k x assume k: "k < length agents" and P: "?P k x"
    obtain w1 m1 where x: "x = (w1, m1)" by (cases x)
    have iw: "inv w1" "res w1 = res w" using P by (simp_all add: x)
    show "\<exists>y. clear_source A otag agents sc k x = Some y \<and> ?P (Suc k) y"
    proof (cases "js_state sc ! k = Admitted_move")
      case False
      then have "clear_source A otag agents sc k x = Some (w1, m1)" using k L by (simp add: clear_source_def x nth_opt_in)
      moreover have "?P (Suc k) (w1, m1)" using P False by (auto simp: x less_Suc_eq)
      ultimately show ?thesis by blast
    next
      case True
      have "tile_res w (pa_position (agents ! k))" using w k by (simp add: crowd_def)
      then have "tile_res w1 (pa_position (agents ! k))" using set_tile_res [OF iw(2)] by simp
      from set_tile_at_eq [OF iw(1) this conjunct1 [OF tags_law [OF iw(1)]], of 0]
      obtain w2 where w2: "set_tile_at A otag (pa_position (agents ! k)) 0 w1 = Some w2" "inv w2" "res w2 = res w1"
        "\<And>t' c'. tile_value_at A w2 t' c' = (if t' = otag \<and> c' = pa_position (agents ! k) then Some 0 else tile_value_at A w1 t' c')"
        by blast
      have "clear_source A otag agents sc k x = Some (w2, Suc m1)"
        using True k L w2(1) by (simp add: clear_source_def x nth_opt_in)
      moreover have "?P (Suc k) (w2, Suc m1)" using P True w2 by (auto simp: x less_Suc_eq)
      ultimately show ?thesis by blast
    qed
  qed
  then show ?thesis by auto
qed

end

end
