(* ===== verification/Joint_Outcome.thy ===== *)
theory Joint_Outcome imports Joint_Apply begin

text \<open>The effect of a round on agents and world, and of a sequence of rounds.\<close>

context joint_world
begin

definition dest :: "joint_scratch \<Rightarrow> nat \<Rightarrow> coord3 \<Rightarrow> bool" where
  "dest sc k c \<longleftrightarrow> (\<exists>i < k. js_state sc ! i = Admitted_move \<and> c = js_desired sc ! i)"

definition applied ::
    "path_agent list \<Rightarrow> joint_scratch \<Rightarrow> 'w \<Rightarrow> nat \<Rightarrow> path_agent list \<times> 'w advance_state \<Rightarrow> bool" where
  "applied agents sc w k = (\<lambda>(as, d). inv (ad_world d) \<and> res (ad_world d) = res w \<and> length as = length agents
     \<and> (\<forall>t c. tile_value_at A (ad_world d) t c = (if t = otag \<and> dest sc k c then Some 1
          else if t = rtag \<and> dest sc k c then Some 0 else tile_value_at A w t c))
     \<and> (\<forall>i < length agents. pa_position (as ! i) = (if i < k then moved_to sc (map pa_position agents) i else pa_position (agents ! i)))
     \<and> (\<forall>i < length agents. k \<le> i \<longrightarrow> as ! i = agents ! i))"

lemma apply_joint_ok:
  assumes P: "applied agents sc w k (as, d)" and k: "k < length agents"
    and L: "length (js_state sc) = length agents" "length (js_failure sc) = length agents" "length (js_desired sc) = length agents"
    and st: "js_state sc ! k \<noteq> Pending_move"
    and adm: "js_state sc ! k = Admitted_move \<Longrightarrow> tile_res w (js_desired sc ! k) \<and> tile_res w (pa_position (agents ! k))"
  shows "case apply_joint A otag rtag m sc k (as, d) of None \<Rightarrow> \<not> dirty_empty m | Some x \<Rightarrow> applied agents sc w (Suc k) x"
proof -
  have iw: "inv (ad_world d)" and rs: "res (ad_world d) = res w" and la: "length as = length agents"
    and same: "as ! k = agents ! k" and at: "nth_opt as k = Some (agents ! k)"
    using P k by (simp_all add: applied_def nth_opt_in)
  have dest_keep: "dest sc (Suc k) c = dest sc k c" if "js_state sc ! k \<noteq> Admitted_move" for c
    using that by (auto simp: dest_def less_Suc_eq)
  have still: "applied agents sc w (Suc k) (as[k := a], d')"
    if "js_state sc ! k \<noteq> Admitted_move" "pa_position a = pa_position (agents ! k)" "ad_world d' = ad_world d" for a d'
    using P k that la by (auto simp: applied_def dest_keep moved_to_def nth_list_update less_Suc_eq)
  show ?thesis
  proof (cases "js_state sc ! k")
    case Inactive_move
    moreover have "as[k := agents ! k] = as" using same list_update_id [of as k] by simp
    ultimately have "applied agents sc w (Suc k) (as, d)" using still [of "agents ! k" d] by simp
    then show ?thesis using Inactive_move at L k by (simp add: apply_joint_def nth_opt_in)
  next
    case Pending_move
    then show ?thesis using st by simp
  next
    case Failed_move
    obtain a1 d1 where rf: "refuse_step (js_failure sc ! k) (agents ! k) d = (a1, d1)"
      by (cases "refuse_step (js_failure sc ! k) (agents ! k) d")
    have "apply_joint A otag rtag m sc k (as, d) = Some (as[k := a1], d1)"
      using Failed_move at L k by (simp add: apply_joint_def nth_opt_in rf)
    then show ?thesis
      using still [of a1 d1] Failed_move refuse_position [OF rf] refuse_world [OF rf] by simp
  next
    case Admitted_move
    let ?to = "js_desired sc ! k" and ?from = "pa_position (agents ! k)"
    have tr: "tile_res w ?to" "tile_res w ?from" using adm [OF Admitted_move] by simp_all
    have tr0: "tile_res (ad_world d) ?to" using tr set_tile_res [OF rs] by simp
    note tags = tags_law [OF iw] tags_distinct [OF iw]
    obtain w1 where w1: "set_tile_at A otag ?to 1 (ad_world d) = Some w1" "inv w1" "res w1 = res (ad_world d)"
      "\<And>t c. tile_value_at A w1 t c = (if t = otag \<and> c = ?to then Some 1 else tile_value_at A (ad_world d) t c)"
      using set_tile_at_eq [OF iw tr0 conjunct1 [OF tags(1)], of 1] by blast
    have "tile_res w1 ?to" using tr0 set_tile_res [OF w1(3)] by simp
    from set_tile_at_eq [OF w1(2) this conjunct2 [OF tags_law [OF w1(2)]], of 0]
    obtain w2 where w2: "set_tile_at A rtag ?to 0 w1 = Some w2" "inv w2" "res w2 = res w1"
      "\<And>t c. tile_value_at A w2 t c = (if t = rtag \<and> c = ?to then Some 0 else tile_value_at A w1 t c)"
      by blast
    have "res w2 = res w" using w2(3) w1(3) rs by simp
    then have tr2: "tile_res w2 ?to" "tile_res w2 ?from" using tr set_tile_res [of w2 w] by simp_all
    note mark = mark_move_eq [OF w2(2) tr2(2,1), of m]
    show ?thesis
    proof (cases "mark_move A m ?from ?to w2")
      case None
      then have "apply_joint A otag rtag m sc k (as, d) = None"
        using Admitted_move at L k w1(1) w2(1) by (simp add: apply_joint_def nth_opt_in)
      then show ?thesis using mark None by simp
    next
      case (Some w3)
      then have w3: "inv w3" "res w3 = res w2" "tile_value_at A w3 = tile_value_at A w2" using mark by simp_all
      obtain a2 acct s2 where ar: "arrive_if_there (step_along ?to (agents ! k))
          (ad_accounting d, (ad_stats d)\<lparr>ps_advanced := ps_advanced (ad_stats d) + 1\<rparr>) = (a2, acct, s2)"
        by (metis prod_cases3)
      let ?d = "\<lparr>ad_world = w3, ad_accounting = acct, ad_stats = s2, ad_commits = ad_commits d @ [(k, ?from, ?to)]\<rparr>"
      have run: "apply_joint A otag rtag m sc k (as, d) = Some (as[k := a2], ?d)"
        using Admitted_move at L k w1(1) w2(1) Some by (simp add: apply_joint_def nth_opt_in ar)
      have pos: "pa_position a2 = ?to" using arrive_position [OF ar] by simp
      have dest: "dest sc (Suc k) c \<longleftrightarrow> dest sc k c \<or> c = ?to" for c
        using Admitted_move by (auto simp: dest_def less_Suc_eq)
      have vals: "tile_value_at A w3 t c = (if t = otag \<and> dest sc (Suc k) c then Some 1
          else if t = rtag \<and> dest sc (Suc k) c then Some 0 else tile_value_at A w t c)" for t c
        using P tags(2) unfolding w3(3) w2(4) w1(4) dest by (auto simp: applied_def)
      have "applied agents sc w (Suc k) (as[k := a2], ?d)"
        using P k la w3(1,2) w2(3) w1(3) rs vals pos Admitted_move
        by (auto simp: applied_def moved_to_def nth_list_update less_Suc_eq)
      then show ?thesis using run by simp
    qed
  qed
qed

text \<open>The crowd after the moves of a decided round.\<close>

lemma decided_crowd:
  assumes w: "crowd w ps" and d: "decided (wa_shape A) ps W R ok sc"
    and w': "inv w'" "res w' = res w"
    and tgt: "\<And>i. i < length ps \<Longrightarrow> js_state sc ! i = Admitted_move \<Longrightarrow> tile_res w (js_desired sc ! i)"
    and vals: "\<And>c. tile_value_at A w' otag c = (if dest sc (length ps) c then Some 1
      else if \<exists>i < length ps. js_state sc ! i = Admitted_move \<and> c = ps ! i then Some 0 else tile_value_at A w otag c)"
  shows "crowd w' (map (moved_to sc ps) [0..<length ps])"
proof -
  let ?n = "length ps"
  have dist: "distinct ps" using w by (simp add: crowd_def)
  have D: "\<And>i j. i < ?n \<Longrightarrow> j < ?n \<Longrightarrow> js_state sc ! i = Admitted_move \<Longrightarrow> js_state sc ! j = Admitted_move
        \<Longrightarrow> js_desired sc ! i = js_desired sc ! j \<Longrightarrow> i = j"
    "\<And>i j. i < ?n \<Longrightarrow> j < ?n \<Longrightarrow> js_state sc ! i = Admitted_move \<Longrightarrow> js_desired sc ! i = ps ! j \<Longrightarrow> js_state sc ! j = Admitted_move"
    using d unfolding decided_def by blast+
  have inj: "i = j" if "i < ?n" "j < ?n" "moved_to sc ps i = moved_to sc ps j" for i j
    using that D(1) [of i j] D(2) [of i j] D(2) [of j i] dist
    by (auto simp: moved_to_def nth_eq_iff_index_eq split: if_splits)
  have "distinct (map (moved_to sc ps) [0..<?n])"
    unfolding distinct_map by (auto intro!: inj_onI inj)
  moreover have "\<forall>c \<in> set (map (moved_to sc ps) [0..<?n]). tile_res w' c"
    using tgt w set_tile_res [OF w'(2)] by (auto simp: moved_to_def crowd_def)
  moreover have "held w' c \<longleftrightarrow> c \<in> set (map (moved_to sc ps) [0..<?n])" if "tile_res w' c" for c
  proof -
    have hc: "held w c \<longleftrightarrow> c \<in> set ps" using w that set_tile_res [OF w'(2)] by (simp add: crowd_def)
    have mem: "c \<in> set (map (moved_to sc ps) [0..<?n]) \<longleftrightarrow> dest sc ?n c \<or> (\<exists>j < ?n. js_state sc ! j \<noteq> Admitted_move \<and> c = ps ! j)"
      by (auto simp: moved_to_def dest_def image_iff)
    have out: "(\<exists>j < ?n. js_state sc ! j \<noteq> Admitted_move \<and> c = ps ! j)
        \<longleftrightarrow> c \<in> set ps \<and> \<not> (\<exists>i < ?n. js_state sc ! i = Admitted_move \<and> c = ps ! i)"
      using dist by (auto simp: in_set_conv_nth nth_eq_iff_index_eq)
    show ?thesis unfolding mem out using hc by (auto simp: held_def vals)
  qed
  ultimately show ?thesis using w'(1) by (simp add: crowd_def)
qed

text \<open>One round.\<close>

definition round_effect ::
    "joint_move_options \<Rightarrow> path_agent_routes \<Rightarrow> path_agent list \<Rightarrow> 'w \<Rightarrow> path_agent list \<Rightarrow> 'w \<Rightarrow> bool" where
  "round_effect opts routes agents w agents' w' \<longleftrightarrow> crowd w' (map pa_position agents') \<and> res w' = res w
     \<and> length agents' = length agents
     \<and> (\<forall>i < length agents. pa_position (agents' ! i) \<noteq> pa_position (agents ! i) \<longrightarrow>
          wanted agents routes i = Some (pa_position (agents' ! i)) \<and> opened w agents routes i)
     \<and> (\<forall>i < length agents. opened w agents routes i \<longrightarrow> the (wanted agents routes i) \<in> set (map pa_position agents'))
     \<and> (\<forall>i < length agents. \<forall>j < length agents. i \<noteq> j \<and> pa_position (agents' ! i) = pa_position (agents ! j)
          \<and> pa_position (agents' ! j) = pa_position (agents ! i) \<longrightarrow> swap_allowed opts agents i j)"

lemma decided_effect:
  assumes d: "decided (wa_shape A) (map pa_position agents) (wanted agents routes) (opened w agents routes) (swap_allowed opts agents) sc"
    and c: "crowd w (map pa_position agents)" "crowd w' (map pa_position agents')" "res w' = res w" "length agents' = length agents"
    and pos: "\<And>i. i < length agents \<Longrightarrow> pa_position (agents' ! i) = moved_to sc (map pa_position agents) i"
  shows "round_effect opts routes agents w agents' w'"
proof -
  let ?ps = "map pa_position agents" and ?n = "length agents"
  have dist: "distinct ?ps" using c(1) by (simp add: crowd_def)
  have inj: "i < ?n \<Longrightarrow> j < ?n \<Longrightarrow> ?ps ! i = ?ps ! j \<Longrightarrow> i = j" for i j
    using dist by (metis length_map nth_eq_iff_index_eq)
  have D1: "js_state sc ! i \<noteq> Pending_move" "js_state sc ! i = Inactive_move \<longleftrightarrow> wanted agents routes i = None"
      "js_state sc ! i \<noteq> Inactive_move \<Longrightarrow> wanted agents routes i = Some (js_desired sc ! i)
        \<and> (opened w agents routes i \<longleftrightarrow> js_state sc ! i = Admitted_move \<or> js_failure sc ! i = Occupied)" if "i < ?n" for i
    using d that unfolding decided_def length_map by blast+
  have D2: "js_state sc ! j = Admitted_move" "i \<noteq> j \<Longrightarrow> js_desired sc ! j = ?ps ! i \<Longrightarrow> swap_allowed opts agents i j"
    if "i < ?n" "j < ?n" "js_state sc ! i = Admitted_move" "js_desired sc ! i = ?ps ! j" for i j
    using d that unfolding decided_def length_map by blast+
  have D3: "(\<exists>j < ?n. js_state sc ! j = Admitted_move \<and> js_desired sc ! j = js_desired sc ! i)
      \<or> (\<exists>j < ?n. ?ps ! j = js_desired sc ! i \<and> js_state sc ! j \<noteq> Admitted_move)"
    if "i < ?n" "js_state sc ! i = Failed_move" "js_failure sc ! i = Occupied" for i
    using d that unfolding decided_def length_map by blast
  have here: "moved_to sc ?ps j \<in> set (map pa_position agents')" if "j < ?n" for j
    using pos [OF that] that c(4) by (metis length_map nth_map nth_mem)
  have "wanted agents routes i = Some (pa_position (agents' ! i)) \<and> opened w agents routes i"
    if i: "i < ?n" "pa_position (agents' ! i) \<noteq> pa_position (agents ! i)" for i
  proof -
    have "js_state sc ! i = Admitted_move" using i pos by (auto simp: moved_to_def split: if_splits)
    then show ?thesis using D1(3) [OF i(1)] pos [OF i(1)] by (auto simp: moved_to_def)
  qed
  moreover have "the (wanted agents routes i) \<in> set (map pa_position agents')"
    if i: "i < ?n" "opened w agents routes i" for i
  proof -
    have "js_state sc ! i \<noteq> Inactive_move" using i D1(2) by force
    note W = D1(3) [OF i(1) this]
    then have "js_state sc ! i = Admitted_move \<or> js_failure sc ! i = Occupied" using i(2) by blast
    then consider "js_state sc ! i = Admitted_move" | "js_state sc ! i = Failed_move" "js_failure sc ! i = Occupied"
      using D1(1) [OF i(1)] \<open>js_state sc ! i \<noteq> Inactive_move\<close> by (cases "js_state sc ! i") auto
    then show ?thesis
    proof cases
      case 1
      then show ?thesis using here [OF i(1)] W by (simp add: moved_to_def)
    next
      case 2
      from D3 [OF i(1) this] obtain j where "j < ?n" "moved_to sc ?ps j = js_desired sc ! i"
        by (auto simp: moved_to_def)
      then show ?thesis using here [of j] W by simp
    qed
  qed
  moreover have "swap_allowed opts agents i j"
    if ij: "i < ?n" "j < ?n" "i \<noteq> j" "pa_position (agents' ! i) = pa_position (agents ! j)"
      "pa_position (agents' ! j) = pa_position (agents ! i)" for i j
  proof -
    have m: "moved_to sc ?ps i = ?ps ! j" "moved_to sc ?ps j = ?ps ! i" using pos ij by simp_all
    have "js_state sc ! i = Admitted_move" using m(1) ij inj [OF ij(1,2)] by (auto simp: moved_to_def split: if_splits)
    then have di: "js_desired sc ! i = ?ps ! j" using m(1) by (simp add: moved_to_def)
    note D = D2 [OF ij(1,2) \<open>js_state sc ! i = Admitted_move\<close> di]
    then have "js_desired sc ! j = ?ps ! i" using m(2) by (simp add: moved_to_def)
    then show ?thesis using D(2) ij(3) by blast
  qed
  ultimately show ?thesis using c(2-4) unfolding round_effect_def by blast
qed

lemma joint_round_ok:
  assumes w: "crowd (ad_world d) (map pa_position agents)" and n: "length agents < 2 ^ 32 - 1" "length agents \<le> length routes"
    and routes: "\<forall>route \<in> set routes. length route < 2 ^ 64"
  shows "case joint_round A cls otag rtag opts m routes agents d stats of None \<Rightarrow> \<not> dirty_empty m
    | Some (agents', d', stats', k) \<Rightarrow> round_effect opts routes agents (ad_world d) agents' (ad_world d')"
proof -
  let ?w = "ad_world d" and ?ps = "map pa_position agents" and ?n = "length agents"
  obtain sc stats1 where sc: "joint_decide A cls otag rtag opts ?w agents routes stats = Some (sc, stats1)"
    and dec: "decided (wa_shape A) ?ps (wanted agents routes) (opened ?w agents routes) (swap_allowed opts agents) sc"
    using joint_decide_ok [OF w n routes] by blast
  have L: "length (js_state sc) = ?n" "length (js_failure sc) = ?n" "length (js_desired sc) = ?n"
    using dec by (simp_all add: decided_def)
  obtain w1 c1 where w1: "fold_opt (clear_source A otag agents sc) [0..<?n] (?w, 0) = Some (w1, c1)" "inv w1" "res w1 = res ?w"
    "\<forall>t c. tile_value_at A w1 t c = (if t = otag \<and> (\<exists>i < ?n. js_state sc ! i = Admitted_move
          \<and> c = pa_position (agents ! i)) then Some 0 else tile_value_at A ?w t c)"
    using clear_sources_ok [OF w L(1)] by blast
  have st: "js_state sc ! i \<noteq> Pending_move" if "i < ?n" for i using dec that by (simp add: decided_def)
  have tgt: "tile_res ?w (js_desired sc ! i) \<and> tile_res ?w (pa_position (agents ! i))"
    if i: "i < ?n" "js_state sc ! i = Admitted_move" for i
  proof -
    have "wanted agents routes i = Some (js_desired sc ! i) \<and> opened ?w agents routes i"
    proof -
      have "js_state sc ! i \<noteq> Inactive_move" using i(2) by simp
      then show ?thesis using dec i unfolding decided_def length_map by blast
    qed
    then have "open_step A cls otag rtag ?w (pa_position (agents ! i)) (js_desired sc ! i)" by auto
    moreover have "inv ?w" using w by (simp add: crowd_def)
    ultimately show ?thesis using open_target [OF _ w] w i(1) by (auto simp: crowd_def)
  qed
  have tgt1: "tile_res w1 (js_desired sc ! i) \<and> tile_res w1 (pa_position (agents ! i))"
    if "i < ?n" "js_state sc ! i = Admitted_move" for i
    using tgt [OF that] set_tile_res [OF w1(3)] by simp
  let ?d = "d\<lparr>ad_world := w1\<rparr>"
  have P0: "applied agents sc w1 0 (agents, ?d)" using w1(2) by (simp add: applied_def dest_def)
  have step: "case apply_joint A otag rtag m sc k x of None \<Rightarrow> \<not> dirty_empty m | Some y \<Rightarrow> applied agents sc w1 (Suc k) y"
    if "k < ?n" "applied agents sc w1 k x" for k x
    using apply_joint_ok [of agents sc w1 k "fst x" "snd x" m] that L st tgt1 by simp
  show ?thesis
  proof (cases "fold_opt (apply_joint A otag rtag m sc) [0..<?n] (agents, ?d)")
    case None
    have "\<not> dirty_empty m"
    proof
      assume e: "dirty_empty m"
      have "\<exists>y. fold_opt (apply_joint A otag rtag m sc) [0..<?n] (agents, ?d) = Some y \<and> applied agents sc w1 ?n y"
        by (rule fold_opt_upt [where P = "applied agents sc w1", OF P0]) (use step e in \<open>force split: option.splits\<close>)
      then show False using None by simp
    qed
    then show ?thesis using None sc w1(1) by (simp add: joint_round_def)
  next
    case (Some r)
    obtain agents' d' where r: "r = (agents', d')" by (cases r)
    have "applied agents sc w1 ?n r"
      by (rule fold_opt_upt_partial [where P = "applied agents sc w1", OF Some P0]) (use step in \<open>force split: option.splits\<close>)
    then have ap: "inv (ad_world d')" "res (ad_world d') = res w1" "length agents' = ?n"
      "\<forall>t c. tile_value_at A (ad_world d') t c = (if t = otag \<and> dest sc ?n c then Some 1
          else if t = rtag \<and> dest sc ?n c then Some 0 else tile_value_at A w1 t c)"
      "\<forall>i < ?n. pa_position (agents' ! i) = moved_to sc ?ps i"
      by (simp_all add: applied_def r)
    have "inv ?w" using w by (simp add: crowd_def)
    have "crowd (ad_world d') (map (moved_to sc ?ps) [0..<length ?ps])"
    proof (rule decided_crowd [OF w dec ap(1)])
      show "res (ad_world d') = res ?w" using ap(2) w1(3) by simp
      show "tile_value_at A (ad_world d') otag c = (if dest sc (length ?ps) c then Some 1
          else if \<exists>i < length ?ps. js_state sc ! i = Admitted_move \<and> c = ?ps ! i then Some 0 else tile_value_at A ?w otag c)" for c
        using ap(4) w1(4) tags_distinct [OF \<open>inv ?w\<close>] by auto
    qed (use tgt in simp)
    moreover have "map (moved_to sc ?ps) [0..<length ?ps] = map pa_position agents'"
      using ap(3,5) by (intro nth_equalityI) simp_all
    ultimately have "crowd (ad_world d') (map pa_position agents')" by simp
    from decided_effect [OF dec w this _ ap(3)] ap(2,5) w1(3)
    show ?thesis using Some sc w1(1) by (simp add: joint_round_def r)
  qed
qed

lemma joint_rounds_ok:
  assumes n: "length agents < 2 ^ 32 - 1" "length agents \<le> length routes"
    and routes: "\<forall>route \<in> set routes. length route < 2 ^ 64" and w: "crowd (ad_world d) (map pa_position agents)"
  shows "case joint_rounds A cls otag rtag opts m routes k agents d stats of None \<Rightarrow> \<not> dirty_empty m
    | Some (agents', d', stats') \<Rightarrow> crowd (ad_world d') (map pa_position agents')"
  using n w
proof (induction k arbitrary: agents d stats)
  case (Suc k)
  note one = joint_round_ok [OF Suc.prems(3,1,2) routes, where opts = opts and m = m and stats = stats]
  show ?case
  proof (cases "joint_round A cls otag rtag opts m routes agents d stats")
    case None
    then show ?thesis using one by simp
  next
    case (Some r)
    obtain agents1 d1 stats1 c where r: "r = (agents1, d1, stats1, c)" by (cases r)
    have e: "crowd (ad_world d1) (map pa_position agents1)" "length agents1 = length agents"
      using one by (simp_all add: Some r round_effect_def)
    show ?thesis using Suc.IH [of agents1 d1 stats1] e Suc.prems(1,2) by (simp add: Some r)
  qed
qed simp

text \<open>In terms of the calls.\<close>

lemma joint_pass:
  assumes "inv w" "occupancy_exact A otag w (map pa_position agents)" "length agents < 2 ^ 32 - 1"
    and "length agents \<le> length routes" "\<forall>route \<in> set routes. length route < 2 ^ 64"
  shows "case advance_path_agents_with_joint_movement A cls otag rtag opts o' agents routes acct w of
      None \<Rightarrow> \<not> dirty_empty (ao_dirty_mask o')
    | Some (agents', d, stats) \<Rightarrow> inv (ad_world d) \<and> occupancy_exact A otag (ad_world d) (map pa_position agents')"
proof -
  let ?d = "\<lparr>ad_world = w, ad_accounting = acct, ad_stats = no_agent_stats, ad_commits = []\<rparr>"
  have "crowd (ad_world ?d) (map pa_position agents)" using assms(1,2) by (simp add: crowd_iff)
  from joint_rounds_ok [OF assms(3-5) this, where opts = opts and m = "ao_dirty_mask o'" and stats = no_joint_stats
      and k = "unat (ao_max_steps o')"] assms(4)
  show ?thesis by (auto simp: advance_path_agents_with_joint_movement_def crowd_iff split: option.splits)
qed

lemma joint_single:
  assumes "inv w" "occupancy_exact A otag w (map pa_position agents)" "length agents < 2 ^ 32 - 1"
    and "length agents \<le> length routes" "\<forall>route \<in> set routes. length route < 2 ^ 64"
    and "ao_max_steps o' = 1" "dirty_empty (ao_dirty_mask o')"
  shows "\<exists>agents' d stats. advance_path_agents_with_joint_movement A cls otag rtag opts o' agents routes acct w
      = Some (agents', d, stats) \<and> round_effect opts routes agents w agents' (ad_world d)"
proof -
  let ?d = "\<lparr>ad_world = w, ad_accounting = acct, ad_stats = no_agent_stats, ad_commits = []\<rparr>"
  have "crowd (ad_world ?d) (map pa_position agents)" using assms(1,2) by (simp add: crowd_iff)
  from joint_round_ok [OF this assms(3-5), where opts = opts and m = "ao_dirty_mask o'" and stats = no_joint_stats] assms(7)
  obtain agents' d' stats' k where "joint_round A cls otag rtag opts (ao_dirty_mask o') routes agents ?d no_joint_stats
      = Some (agents', d', stats', k)" "round_effect opts routes agents w agents' (ad_world d')"
    by (auto split: option.splits)
  then show ?thesis using assms(4,6) by (simp add: advance_path_agents_with_joint_movement_def)
qed

end

end
