(* ===== verification/Joint_Props.thy ===== *)
theory Joint_Props imports Movement_Props Joint_Outcome begin

text \<open>The properties of joint movement, on both kinds of world.\<close>

interpretation dense_joint: joint_world "dense_api s fs" "\<lambda>w. (valid_shape s \<and> dense_inv s fs w) \<and> crowd_ok s fs cls otag rtag"
    "\<lambda>w k. True" "\<lambda>w k. dw_pages w ! slot k" "\<lambda>w k. dense_entry w (slot k)" cls otag rtag
  for s and fs :: "('t, int) schema" and cls otag rtag
  by (intro joint_world.intro dense_crowd.crowd_world_axioms)

interpretation sparse_joint: joint_world "sparse_api s fs" "\<lambda>w. sparse_ok s fs w \<and> crowd_ok s fs cls otag rtag"
    sparse_res "\<lambda>w k. sw_pages w ! sparse_slot w k" sparse_entry cls otag rtag
  for s and fs :: "('t, int) schema" and cls otag rtag
  by (intro joint_world.intro sparse_crowd.crowd_world_axioms)


text \<open>An agent with a found route.\<close>

definition on_route :: "coord3 \<Rightarrow> coord3 \<Rightarrow> path_agent" where
  "on_route a b = default_path_agent\<lparr>pa_position := a, pa_goal := b, pa_last_result := Some Found,
     pa_phase := Following, pa_has_goal := True\<rparr>"



text \<open>Two neighbours who want each other's tiles, on an always-resident world.\<close>

definition dense_pair :: "int dense_world" where
  "dense_pair = the (Option.bind (set_tile_at (dense_api small_shape small_schema) Occupied_by (mk_coord3 1 1 0) 1 small_dense)
     (set_tile_at (dense_api small_shape small_schema) Occupied_by (mk_coord3 2 1 0) 1))"

lemma dense_unoccupied: "occupancy_exact (dense_api small_shape small_schema) Occupied_by small_dense []"
proof -
  have pages: "list_all (\<lambda>q. list_all (\<lambda>v. v = 0) (page_fields q ! 3)) (dw_pages small_dense)" by code_simp
  have "v = 0" if "tile_value_at (dense_api small_shape small_schema) small_dense Occupied_by c = Some v" for c v
  proof -
    have "\<exists>q \<in> set (dw_pages small_dense). \<exists>l. page_field small_schema Occupied_by q l = Some v"
      using that by (auto simp: tile_value_at_def bind_eq_Some_conv dense_api_def dense_chunk_def split: if_splits)
    then obtain q l where q: "q \<in> set (dw_pages small_dense)" "page_field small_schema Occupied_by q l = Some v" by blast
    then have "v \<in> set (page_fields q ! 3)"
      by (auto simp: page_field_def page_field_span_def bind_eq_Some_conv small_schema_def numeral_3_eq_3)
    with pages q(1) show ?thesis by (auto simp: list_all_iff)
  qed
  then show ?thesis by (auto simp: occupancy_exact_def)
qed

lemma dense_pair_ok:
  "dense_inv small_shape small_schema dense_pair
   \<and> occupancy_exact (dense_api small_shape small_schema) Occupied_by dense_pair [mk_coord3 1 1 0, mk_coord3 2 1 0]"
proof -
  let ?A = "dense_api small_shape small_schema" and ?a = "mk_coord3 1 1 0" and ?b = "mk_coord3 2 1 0"
  have ok: "(valid_shape small_shape \<and> dense_inv small_shape small_schema small_dense)
      \<and> crowd_ok small_shape small_schema small_walk Occupied_by Reserved_by"
    using small_valid small_dense_ok small_crowd by simp
  have "shape_contains small_shape ?a" "shape_contains small_shape ?b" by (code_simp, code_simp)
  moreover have "wa_shape ?A = small_shape" by (simp add: dense_api_def)
  ultimately have res: "tile_world.tile_res ?A (\<lambda>w k. True) w ?a" "tile_world.tile_res ?A (\<lambda>w k. True) w ?b"
    for w :: "int dense_world" unfolding dense.tile_res_def by simp_all
  have tag: "contains_field_tag Occupied_by (wa_schema ?A)" by code_simp
  obtain w1 where w1: "set_tile_at ?A Occupied_by ?a 1 small_dense = Some w1"
    "(valid_shape small_shape \<and> dense_inv small_shape small_schema w1) \<and> crowd_ok small_shape small_schema small_walk Occupied_by Reserved_by"
    "\<And>t c. tile_value_at ?A w1 t c = (if t = Occupied_by \<and> c = ?a then Some 1 else tile_value_at ?A small_dense t c)"
    using dense_joint.set_tile_at_eq [OF ok res(1) tag, of 1] by metis
  obtain w2 where w2: "set_tile_at ?A Occupied_by ?b 1 w1 = Some w2"
    "(valid_shape small_shape \<and> dense_inv small_shape small_schema w2) \<and> crowd_ok small_shape small_schema small_walk Occupied_by Reserved_by"
    "\<And>t c. tile_value_at ?A w2 t c = (if t = Occupied_by \<and> c = ?b then Some 1 else tile_value_at ?A w1 t c)"
    using dense_joint.set_tile_at_eq [OF w1(2) res(2) tag, of 1] by metis
  have "occupancy_exact ?A Occupied_by w2 [?a, ?b]"
    using dense_unoccupied w1(3) w2(3) by (auto simp: occupancy_exact_def mk_coord3_def)
  moreover have "dense_pair = w2" by (simp add: dense_pair_def w1(1) w2(1))
  ultimately show ?thesis using w2(2) by simp
qed


end
