(* ===== verification/Agent_Recovery.thy ===== *)
theory Agent_Recovery imports Path_Agent begin

text \<open>
  \<open>BlockedAgentRecoverySchedule\<close> of \<open>sim/path_agent_tick.h\<close>: which blocked agents are to be checked on
  a tick, with exponential backoff, deterministic jitter and a cursor that goes round.
\<close>

subsection \<open>Options, entries and the schedule\<close>

record recovery_options =
  ro_initial_delay_ticks :: u32
  ro_max_delay_ticks :: u32
  ro_max_probes_per_tick :: u64
  ro_jitter_seed :: u64

record recovery_stats =
  re_blocked :: u64
  re_due :: u64
  re_selected :: u64
  re_deferred :: u64

record recovery_entry =
  en_next_tick :: u64
  en_episode :: u64
  en_attempt :: u32
  en_observed_position :: coord3
  en_active :: bool

record recovery_schedule =
  rv_entries :: "recovery_entry list"
  rv_due_indices :: "u64 list"
  rv_scan_cursor :: u64

definition default_entry :: recovery_entry where
  "default_entry = \<lparr>en_next_tick = 0, en_episode = 0, en_attempt = 0, en_observed_position = default_coord3,
     en_active = False\<rparr>"

definition recovery_clear :: "recovery_schedule \<Rightarrow> recovery_schedule" where
  "recovery_clear r = \<lparr>rv_entries = [], rv_due_indices = [], rv_scan_cursor = 0\<rparr>"

subsection \<open>Delays\<close>

definition recovery_mix :: "u64 \<Rightarrow> u64" where
  "recovery_mix value =
     (let v1 = value + 0x9e3779b97f4a7c15;
          v2 = (v1 XOR drop_bit 30 v1) * 0xbf58476d1ce4e5b9;
          v3 = (v2 XOR drop_bit 27 v2) * 0x94d049bb133111eb
      in v3 XOR drop_bit 31 v3)"

text \<open>The doubling loop, with the number of rounds left.\<close>

fun grow_cap :: "nat \<Rightarrow> u32 \<Rightarrow> u32 \<Rightarrow> u32" where
  "grow_cap 0 most cap = cap"
| "grow_cap (Suc n) most cap =
     (if cap < most then grow_cap n most (if most div 2 < cap then most else cap * 2) else cap)"

definition delay_cap :: "u32 \<Rightarrow> recovery_options \<Rightarrow> u32" where
  "delay_cap attempt opts =
     (let cap = (if ro_initial_delay_ticks opts < ro_max_delay_ticks opts
                 then ro_initial_delay_ticks opts else ro_max_delay_ticks opts)
      in if cap = 0 then 0 else grow_cap (unat attempt) (ro_max_delay_ticks opts) cap)"

definition jittered_delay :: "u64 \<Rightarrow> recovery_entry \<Rightarrow> recovery_options \<Rightarrow> u32" where
  "jittered_delay agent_index entry opts =
     (let cap = delay_cap (en_attempt entry) opts in
      if cap = 0 then 0
      else let least = cap div 2 + cap mod 2;
               width = cap - least + 1;
               key = ro_jitter_seed opts XOR recovery_mix agent_index XOR recovery_mix (en_episode entry)
                 XOR recovery_mix (ucast (en_attempt entry))
           in least + ucast (recovery_mix key mod ucast width))"

definition recovery_add_saturating :: "u64 \<Rightarrow> u32 \<Rightarrow> u64" where
  "recovery_add_saturating tick delay = (if u64_max - ucast delay < tick then u64_max else tick + ucast delay)"

subsection \<open>Collecting the due agents\<close>

text \<open>The first loop on one agent and its entry.\<close>

definition is_blocked :: "path_agent \<Rightarrow> bool" where
  "is_blocked a \<longleftrightarrow> pa_has_goal a \<and> pa_phase a = Blocked_phase"

definition observe_entry :: "u64 \<Rightarrow> recovery_options \<Rightarrow> u64 \<Rightarrow> path_agent \<Rightarrow> recovery_entry \<Rightarrow> recovery_entry" where
  "observe_entry tick opts i agent entry =
     (if \<not> is_blocked agent then entry\<lparr>en_active := False, en_attempt := 0, en_next_tick := 0\<rparr>
      else if \<not> en_active entry \<or> en_observed_position entry \<noteq> pa_position agent
      then let e1 = entry\<lparr>en_active := True, en_attempt := 0, en_episode := en_episode entry + 1,
                 en_observed_position := pa_position agent\<rparr>
           in e1\<lparr>en_next_tick := recovery_add_saturating tick (jittered_delay i e1 opts)\<rparr>
      else entry)"

fun observe_each ::
    "u64 \<Rightarrow> recovery_options \<Rightarrow> u64 \<Rightarrow> path_agent list \<Rightarrow> recovery_entry list \<Rightarrow> recovery_entry list" where
  "observe_each tick opts i (a # as) (e # es) = observe_entry tick opts i a e # observe_each tick opts (i + 1) as es"
| "observe_each tick opts i as es = map (\<lambda>e. e\<lparr>en_active := False\<rparr>) es"

text \<open>The second loop on one offset: the due indices so far and their number.\<close>

definition scan_offset ::
    "recovery_entry list \<Rightarrow> u64 \<Rightarrow> recovery_options \<Rightarrow> u64 \<Rightarrow> u64 \<Rightarrow> nat \<Rightarrow> u64 list \<times> u64 \<Rightarrow> (u64 list \<times> u64) option" where
  "scan_offset entries tick opts cursor n offset = (\<lambda>(found, due). do {
     let i = (cursor + of_nat offset) mod n;
     entry \<leftarrow> nth_opt entries (unat i);
     if \<not> en_active entry \<or> tick < en_next_tick entry then Some (found, due)
     else Some ((if of_nat (length found) < ro_max_probes_per_tick opts then found @ [i] else found), due + 1)
   })"

definition collect_due ::
    "path_agent list \<Rightarrow> u64 \<Rightarrow> recovery_options \<Rightarrow> recovery_schedule \<Rightarrow> (recovery_stats \<times> recovery_schedule) option" where
  "collect_due agents tick opts r = do {
     let n = length agents;
     let grown = rv_entries r @ replicate (n - length (rv_entries r)) default_entry;
     let entries = observe_each tick opts 0 agents grown;
     let blocked = of_nat (length (filter is_blocked agents));
     if n = 0 then Some (\<lparr>re_blocked = blocked, re_due = 0, re_selected = 0, re_deferred = 0\<rparr>,
       \<lparr>rv_entries = entries, rv_due_indices = [], rv_scan_cursor = rv_scan_cursor r\<rparr>)
     else do {
       let cursor = rv_scan_cursor r mod of_nat n;
       (found, due) \<leftarrow> fold_opt (scan_offset entries tick opts cursor (of_nat n)) [0..<n] ([], 0);
       let cursor' = (if found \<noteq> [] then (last found + 1) mod of_nat n else cursor);
       Some (\<lparr>re_blocked = blocked, re_due = due, re_selected = of_nat (length found),
               re_deferred = due - of_nat (length found)\<rparr>,
         \<lparr>rv_entries = entries, rv_due_indices = found, rv_scan_cursor = cursor'\<rparr>)
     }
   }"

definition record_attempt :: "u64 \<Rightarrow> u64 \<Rightarrow> recovery_options \<Rightarrow> recovery_schedule \<Rightarrow> recovery_schedule" where
  "record_attempt agent_index tick opts r =
     (if length (rv_entries r) \<le> unat agent_index then r
      else let e = rv_entries r ! unat agent_index in
        if \<not> en_active e then r
        else let e1 = (if en_attempt e \<noteq> - 1 then e\<lparr>en_attempt := en_attempt e + 1\<rparr> else e);
                 e2 = e1\<lparr>en_next_tick := recovery_add_saturating tick (jittered_delay agent_index e1 opts)\<rparr>
             in r\<lparr>rv_entries := (rv_entries r)[unat agent_index := e2]\<rparr>)"

subsection \<open>Delays are bounded\<close>

lemma unat_ucast_narrow: "unat w < 2 ^ LENGTH('b) \<Longrightarrow> unat (ucast w :: 'b :: len word) = unat w"
  by (simp add: unsigned_ucast_eq take_bit_nat_eq_self)

lemma min_scaled: "min (min a b * 2 ^ n) b = min (a * 2 ^ n) (b :: nat)"
proof (cases "a \<le> b")
  case False
  have "b * 1 \<le> b * 2 ^ n" "a * 1 \<le> a * 2 ^ n" by (rule mult_le_mono2, simp)+
  then have "min (b * 2 ^ n) b = b" "min (a * 2 ^ n) b = b" using False by (linarith, linarith)
  moreover have "min a b = b" using False by simp
  ultimately show ?thesis by (simp only:)
qed simp

lemma half_up: "(n :: nat) div 2 + n mod 2 = n - n div 2"
  by presburger

lemma grow_cap_exact:
  assumes "0 < unat cap" "unat cap \<le> unat most"
  shows "unat (grow_cap n most cap) = min (unat cap * 2 ^ n) (unat most)"
  using assms
proof (induction n arbitrary: cap)
  case 0
  then show ?case by simp
next
  case (Suc n)
  show ?case
  proof (cases "cap < most")
    case False
    then have "unat cap = unat most" using Suc.prems(2) by (simp add: word_less_nat_alt)
    moreover have "unat most * 1 \<le> unat most * 2 ^ Suc n" by (rule mult_le_mono2) simp
    ultimately show ?thesis using False by (simp only: grow_cap.simps if_False min_absorb2 mult_1_right)
  next
    case less: True
    show ?thesis
    proof (cases "most div 2 < cap")
      case True
      then have "unat most div 2 < unat cap" by (simp add: word_less_nat_alt unat_div)
      then have d: "unat most < 2 * unat cap" by linarith
      have "unat cap * 2 \<le> unat cap * 2 ^ Suc n" by simp
      then have "unat most \<le> unat cap * 2 ^ Suc n" using d by linarith
      moreover have "unat most * 1 \<le> unat most * 2 ^ n" by (rule mult_le_mono2) simp
      then have "unat (grow_cap n most most) = unat most"
        using Suc.IH [of most] Suc.prems by (simp only: min_absorb2 mult_1_right order_less_le_trans order_refl)
      ultimately show ?thesis using less True by (simp add: min_def)
    next
      case False
      then have "unat cap \<le> unat most div 2" by (simp add: word_less_nat_alt unat_div not_less)
      then have d: "unat cap * 2 \<le> unat most" by linarith
      moreover have "unat most < 2 ^ 32" using unsigned_less [of most] by simp
      ultimately have "unat cap * 2 < 2 ^ 32" by linarith
      then have u: "unat (cap * 2) = unat cap * 2" by (simp add: unat_word_ariths)
      show ?thesis using less False Suc.IH [of "cap * 2"] Suc.prems d by (simp add: u mult.assoc)
    qed
  qed
qed

lemma delay_cap_exact:
  "unat (delay_cap attempt opts)
   = min (unat (ro_initial_delay_ticks opts) * 2 ^ unat attempt) (unat (ro_max_delay_ticks opts))"
proof -
  let ?i = "ro_initial_delay_ticks opts" and ?m = "ro_max_delay_ticks opts"
  let ?c = "if ?i < ?m then ?i else ?m"
  have c: "unat ?c = min (unat ?i) (unat ?m)" by (simp add: word_less_nat_alt min_def)
  show ?thesis
  proof (cases "?c = 0")
    case True
    then have "min (unat ?i) (unat ?m) = 0" using c by simp
    then show ?thesis using True by (auto simp: delay_cap_def Let_def min_def split: if_splits)
  next
    case False
    then have "0 < unat ?c" by (simp add: unat_gt_0)
    then have "unat (grow_cap (unat attempt) ?m ?c) = min (unat ?c * 2 ^ unat attempt) (unat ?m)"
      using c by (intro grow_cap_exact) simp_all
    then show ?thesis using False by (simp only: c min_scaled delay_cap_def Let_def if_False)
  qed
qed

lemma jittered_delay_bounds:
  fixes opts i e
  defines "cap \<equiv> unat (delay_cap (en_attempt e) opts)"
  shows "cap - cap div 2 \<le> unat (jittered_delay i e opts) \<and> unat (jittered_delay i e opts) \<le> cap"
proof (cases "cap = 0")
  case True
  then have "delay_cap (en_attempt e) opts = 0" by (simp add: cap_def unat_eq_0)
  then show ?thesis using True by (simp add: jittered_delay_def)
next
  case False
  let ?c = "delay_cap (en_attempt e) opts"
  let ?f = "?c div 2 + ?c mod 2"
  have lt: "cap < 2 ^ 32" using unsigned_less [of ?c] by (simp add: cap_def)
  have "unat (?c div 2) = cap div 2" "unat (?c mod 2) = cap mod 2" by (simp_all add: unat_div unat_mod cap_def)
  then have f: "unat ?f = cap - cap div 2" using lt half_up [of cap] by (simp add: unat_word_ariths cap_def)
  have "unat (?c - ?f) = cap div 2" using f by (subst unat_sub) (simp_all add: word_le_nat_alt cap_def)
  then have w: "unat (?c - ?f + 1) = cap div 2 + 1" using lt by (simp add: unat_word_ariths)
  define k where "k = ro_jitter_seed opts XOR recovery_mix i XOR recovery_mix (en_episode e) XOR recovery_mix (ucast (en_attempt e))"
  let ?m = "recovery_mix k mod ucast (?c - ?f + 1)"
  have "unat (ucast (?c - ?f + 1) :: u64) = cap div 2 + 1" using w lt by (simp add: unat_ucast_narrow)
  then have m: "unat ?m \<le> cap div 2" by (simp add: unat_mod)
  then have "unat (ucast ?m :: u32) = unat ?m" using lt by (simp add: unat_ucast_narrow)
  then have "unat (ucast ?m :: u32) \<le> cap div 2" using m by simp
  moreover have sum: "unat (x + y) = unat x + unat y" if "unat x = cap - cap div 2" "unat y \<le> cap div 2" for x y :: u32
    using that lt by (intro unat_add_lem [THEN iffD1]) simp
  ultimately have "unat (?f + ucast ?m) = (cap - cap div 2) + unat (ucast ?m :: u32)" using f by (simp only: sum)
  moreover have "jittered_delay i e opts = ?f + ucast ?m"
    using False by (simp add: jittered_delay_def Let_def cap_def k_def unat_eq_0)
  ultimately show ?thesis using \<open>unat (ucast ?m :: u32) \<le> cap div 2\<close> div_le_dividend [of cap 2] by (simp only: le_add1) arith
qed

subsection \<open>What a collection finds\<close>

definition due_now :: "u64 \<Rightarrow> recovery_entry \<Rightarrow> bool" where
  "due_now tick e \<longleftrightarrow> en_active e \<and> en_next_tick e \<le> tick"

definition ring_from :: "nat \<Rightarrow> nat \<Rightarrow> nat list" where
  "ring_from c n = map (\<lambda>k. (c + k) mod n) [0..<n]"

text \<open>The entries a collection works on, and the due agents in the order of its scan.\<close>

definition entries_after :: "path_agent list \<Rightarrow> u64 \<Rightarrow> recovery_options \<Rightarrow> recovery_schedule \<Rightarrow> recovery_entry list" where
  "entries_after agents tick opts r = observe_each tick opts 0 agents
     (rv_entries r @ replicate (length agents - length (rv_entries r)) default_entry)"

definition due_agents :: "path_agent list \<Rightarrow> u64 \<Rightarrow> recovery_options \<Rightarrow> recovery_schedule \<Rightarrow> nat list" where
  "due_agents agents tick opts r = filter (\<lambda>i. due_now tick (entries_after agents tick opts r ! i))
     (ring_from (unat (rv_scan_cursor r) mod length agents) (length agents))"

lemma unat_of_nat_small64: "k < 2 ^ 64 \<Longrightarrow> unat (of_nat k :: u64) = k"
  by (simp add: unat_of_nat)

lemma ring_from_bound: "0 < n \<Longrightarrow> i \<in> set (ring_from c n) \<Longrightarrow> i < n"
  by (auto simp: ring_from_def)

lemma observe_each_length: "length (observe_each tick opts i as es) = length es"
  by (induction tick opts i as es rule: observe_each.induct) simp_all

lemma observe_each_nth:
  "j < length as \<Longrightarrow> j < length es \<Longrightarrow>
   observe_each tick opts i as es ! j = observe_entry tick opts (i + of_nat j) (as ! j) (es ! j)"
proof (induction tick opts i as es arbitrary: j rule: observe_each.induct)
  case (1 tick opts i a as e es)
  then show ?case by (cases j) (simp_all add: add.assoc)
qed simp_all

lemma entries_after_length: "length agents \<le> length (entries_after agents tick opts r)"
  by (simp add: entries_after_def observe_each_length)

lemma scan_offset_fold:
  assumes "c + (Max (insert 0 (set ks))) < 2 ^ 64" "0 < n" "n < 2 ^ 64" "n \<le> length entries"
    and "length found \<le> unat (ro_max_probes_per_tick opts)" "length found + length ks < 2 ^ 64"
  shows "fold_opt (scan_offset entries tick opts (of_nat c) (of_nat n)) ks (found, due)
    = (let D = filter (\<lambda>i. due_now tick (entries ! i)) (map (\<lambda>k. (c + k) mod n) ks) in
       Some (found @ map of_nat (take (unat (ro_max_probes_per_tick opts) - length found) D), due + of_nat (length D)))"
  using assms(1,5,6)
proof (induction ks arbitrary: found due)
  case Nil
  then show ?case by simp
next
  case (Cons k ks)
  let ?m = "unat (ro_max_probes_per_tick opts)" and ?i = "(c + k) mod n"
  have "k \<le> Max (insert 0 (set (k # ks)))" "Max (insert 0 (set ks)) \<le> Max (insert 0 (set (k # ks)))"
    by (intro Max_ge Max_mono, auto)+
  then have small: "c + k < 2 ^ 64" "c + Max (insert 0 (set ks)) < 2 ^ 64" using Cons.prems(1) by linarith+
  have i: "unat ((of_nat c + of_nat k) mod of_nat n :: u64) = ?i"
    using small(1) assms(3) by (simp add: unat_mod unat_of_nat_small64 flip: of_nat_add)
  have lt: "?i < n" using assms(2) by simp
  then have u: "unat (of_nat ?i :: u64) = ?i" using assms(3) by (intro unat_of_nat_small64) linarith
  from i u have w: "(of_nat c + of_nat k) mod of_nat n = (of_nat ?i :: u64)" by (metis unsigned_word_eqI)
  note IH = Cons.IH [OF small(2)]
  show ?case
  proof (cases "due_now tick (entries ! ?i)")
    case False
    then have "fold_opt (scan_offset entries tick opts (of_nat c) (of_nat n)) (k # ks) (found, due)
        = fold_opt (scan_offset entries tick opts (of_nat c) (of_nat n)) ks (found, due)"
      using lt assms(4) by (auto simp: scan_offset_def nth_opt_def i due_now_def)
    also have "\<dots> = (let D = filter (\<lambda>i. due_now tick (entries ! i)) (map (\<lambda>k. (c + k) mod n) ks) in
       Some (found @ map of_nat (take (?m - length found) D), due + of_nat (length D)))"
      using Cons.prems by (intro IH) simp_all
    finally show ?thesis using False by simp
  next
    case True
    have len: "unat (of_nat (length found) :: u64) = length found" using Cons.prems(3) by (simp add: unat_of_nat_small64)
    have one: "scan_offset entries tick opts (of_nat c) (of_nat n) k (found, due)
        = Some ((if length found < ?m then found @ [of_nat ?i] else found), due + 1)"
      using True lt assms(4) by (auto simp: scan_offset_def nth_opt_def Let_def u w due_now_def word_less_nat_alt word_le_nat_alt len)
    show ?thesis
    proof (cases "length found < ?m")
      case more: True
      have "fold_opt (scan_offset entries tick opts (of_nat c) (of_nat n)) ks (found @ [of_nat ?i], due + 1)
        = (let D = filter (\<lambda>i. due_now tick (entries ! i)) (map (\<lambda>k. (c + k) mod n) ks) in
           Some ((found @ [of_nat ?i]) @ map of_nat (take (?m - length (found @ [of_nat ?i :: u64])) D), due + 1 + of_nat (length D)))"
        using Cons.prems more by (intro IH) simp_all
      moreover have "?m - length found = Suc (?m - Suc (length found))" using more by simp
      ultimately show ?thesis using True more one by (simp add: Let_def add.assoc)
    next
      case no: False
      have "fold_opt (scan_offset entries tick opts (of_nat c) (of_nat n)) ks (found, due + 1)
        = (let D = filter (\<lambda>i. due_now tick (entries ! i)) (map (\<lambda>k. (c + k) mod n) ks) in
           Some (found @ map of_nat (take (?m - length found) D), due + 1 + of_nat (length D)))"
        using Cons.prems by (intro IH) simp_all
      then show ?thesis using True no one by (simp add: Let_def add.assoc)
    qed
  qed
qed

lemma collect_due_found:
  assumes "agents \<noteq> []" "length agents < 2 ^ 63"
  obtains stats r' where "collect_due agents tick opts r = Some (stats, r')"
    "map unat (rv_due_indices r') = take (unat (ro_max_probes_per_tick opts)) (due_agents agents tick opts r)"
    "rv_entries r' = entries_after agents tick opts r"
    "unat (rv_scan_cursor r') = (if rv_due_indices r' = [] then unat (rv_scan_cursor r) mod length agents
       else (last (map unat (rv_due_indices r')) + 1) mod length agents)"
    "re_due stats = of_nat (length (due_agents agents tick opts r))"
    "re_selected stats = of_nat (length (rv_due_indices r'))" "re_deferred stats = re_due stats - re_selected stats"
    "re_blocked stats = of_nat (length (filter is_blocked agents))"
proof -
  let ?n = "length agents" and ?m = "unat (ro_max_probes_per_tick opts)"
  define c where "c = unat (rv_scan_cursor r) mod ?n"
  define es where "es = entries_after agents tick opts r"
  define D where "D = due_agents agents tick opts r"
  have n: "0 < ?n" "?n < 2 ^ 64" using assms by auto
  then have c: "c < ?n" by (simp add: c_def)
  have "Max (insert 0 (set [0..<?n])) < ?n" using n by (subst Max_less_iff) auto
  moreover have "c + k < 2 ^ 64" if "k < ?n" for k using that c assms(2) by simp
  ultimately have "c + Max (insert 0 (set [0..<?n])) < 2 ^ 64" by blast
  from scan_offset_fold [OF this n entries_after_length, of "[]" opts tick opts r tick 0]
  have scan: "fold_opt (scan_offset es tick opts (of_nat c) (of_nat ?n)) [0..<?n] ([], 0)
      = Some (map of_nat (take ?m D), of_nat (length D))"
    using n by (simp add: es_def D_def due_agents_def ring_from_def c_def Let_def)
  have "unat (rv_scan_cursor r mod of_nat ?n) = c" using n by (simp add: c_def unat_mod unat_of_nat_small64)
  moreover have "unat (of_nat c :: u64) = c" using c n by (simp add: unat_of_nat_small64)
  ultimately have cw: "rv_scan_cursor r mod of_nat ?n = of_nat c" by (metis unsigned_word_eqI)
  have D_lt: "\<forall>i \<in> set D. i < ?n"
    using n ring_from_bound by (auto simp: D_def due_agents_def)
  let ?F = "map of_nat (take ?m D) :: u64 list"
  have F: "map unat ?F = take ?m D"
    unfolding map_map
  proof (rule map_idI)
    fix i assume "i \<in> set (take ?m D)"
    then have "i < 2 ^ 64" using D_lt n by (meson in_set_takeD less_trans)
    then show "(unat \<circ> (of_nat :: nat \<Rightarrow> u64)) i = i" by (simp add: unat_of_nat_small64)
  qed
  let ?c' = "if ?F \<noteq> [] then (last ?F + 1) mod of_nat ?n else of_nat c"
  define st where "st = \<lparr>re_blocked = of_nat (length (filter is_blocked agents)), re_due = of_nat (length D),
    re_selected = of_nat (length ?F), re_deferred = of_nat (length D) - of_nat (length ?F)\<rparr>"
  define r' where "r' = \<lparr>rv_entries = es, rv_due_indices = ?F, rv_scan_cursor = ?c'\<rparr>"
  have run: "collect_due agents tick opts r = Some (st, r')"
    using assms(1) scan
    by (simp add: collect_due_def Let_def cw entries_after_def [symmetric] es_def [symmetric] st_def r'_def)
  have cur: "unat ?c' = (if ?F = [] then c else (last (map unat ?F) + 1) mod ?n)"
  proof (cases "?F = []")
    case True
    then show ?thesis using c n by (simp add: unat_of_nat_small64)
  next
    case False
    then have "last (map unat ?F) = unat (last ?F)" by (rule last_map)
    moreover have "last (map unat ?F) \<in> set (map unat ?F)" using False by (intro last_in_set) simp
    then have "last (map unat ?F) < ?n" using D_lt unfolding F by (auto dest: in_set_takeD)
    ultimately have "unat (last ?F) < ?n" "last (map unat ?F) = unat (last ?F)" by simp_all
    then have "unat ((last ?F + 1) mod of_nat ?n) = (last (map unat ?F) + 1) mod ?n"
      using n assms(2) by (simp only: unat_mod) (simp add: unat_add_u64 unat_of_nat_small64)
    then show ?thesis using False by (simp only: if_False if_True not_False_eq_True)
  qed
  show ?thesis
    by (rule that [OF run]) (use F cur in \<open>simp_all add: r'_def st_def es_def D_def c_def\<close>)
qed

lemma nth_of_increasing: "sorted_wrt (<) ks \<Longrightarrow> j < length ks \<Longrightarrow> (j :: nat) \<le> ks ! j"
  by (rule sorted_wrt_less_idx)

text \<open>An agent that is due and not served has come nearer to the cursor.\<close>

lemma scan_progress:
  assumes "0 < n" "i = (c + d) mod n" "d < n" "due i" "0 < m" "i \<notin> set (take m (filter due (ring_from c n)))"
  obtains k where "m \<le> k + 1" "k < d" "take m (filter due (ring_from c n)) \<noteq> []"
    "last (take m (filter due (ring_from c n))) = (c + k) mod n"
proof -
  let ?g = "\<lambda>k. (c + k) mod n"
  define K where "K = filter (\<lambda>k. due (?g k)) [0..<n]"
  have D: "filter due (ring_from c n) = map ?g K" by (simp add: K_def ring_from_def filter_map comp_def)
  have dK: "d \<in> set K" using assms(2-4) by (simp add: K_def)
  have "d \<notin> set (take m K)" using assms(2,6) by (auto simp: D take_map)
  then have d_drop: "d \<in> set (drop m K)" using dK by (metis UnE append_take_drop_id set_append)
  have inc: "sorted_wrt (<) K" unfolding K_def by (intro sorted_wrt_filter sorted_wrt_upt)
  have lenm: "m < length K" using d_drop by (metis drop_all empty_iff list.set(1) not_less)
  then have some: "take m K \<noteq> []" using assms(5) by auto
  with lenm have ne: "take m K \<noteq> []" "last (take m K) = K ! (m - 1)" by (simp_all add: last_conv_nth min_def)
  have "sorted_wrt (<) (take m K @ drop m K)" using inc by simp
  then have "last (take m K) < d" using ne(1) d_drop by (simp only: sorted_wrt_append) (meson last_in_set)
  moreover have "m - 1 \<le> K ! (m - 1)" using inc lenm by (intro nth_of_increasing) simp_all
  ultimately show ?thesis
    using that [of "last (take m K)"] ne assms(5) by (simp add: D take_map last_map)
qed

subsection \<open>Rounds of checks\<close>

text \<open>Each round collects the due agents and then records the attempts the caller made.\<close>

fun recovery_rounds ::
    "recovery_options \<Rightarrow> (path_agent list \<times> u64 \<times> u64 list) list \<Rightarrow> recovery_schedule \<Rightarrow> u64 list list option" where
  "recovery_rounds opts [] r = Some []"
| "recovery_rounds opts ((agents, tick, attempts) # rest) r = do {
     (stats, r1) \<leftarrow> collect_due agents tick opts r;
     found \<leftarrow> recovery_rounds opts rest (fold (\<lambda>i. record_attempt i tick opts) attempts r1);
     Some (rv_due_indices r1 # found)
   }"

lemma record_attempt_keeps [simp]:
  "length (rv_entries (record_attempt j tick opts r)) = length (rv_entries r)"
  "rv_scan_cursor (record_attempt j tick opts r) = rv_scan_cursor r"
  by (simp_all add: record_attempt_def Let_def)

lemma record_attempts_keep [simp]:
  "length (rv_entries (fold (\<lambda>i. record_attempt i tick opts) js r)) = length (rv_entries r)"
  "rv_scan_cursor (fold (\<lambda>i. record_attempt i tick opts) js r) = rv_scan_cursor r"
  by (induction js arbitrary: r) simp_all

lemma record_attempts_other:
  "\<forall>j \<in> set js. unat j \<noteq> i \<Longrightarrow> rv_entries (fold (\<lambda>i. record_attempt i tick opts) js r) ! i = rv_entries r ! i"
proof (induction js arbitrary: r)
  case (Cons j js)
  then have "rv_entries (record_attempt j tick opts r) ! i = rv_entries r ! i"
    by (simp add: record_attempt_def Let_def)
  then show ?case using Cons by simp
qed simp

text \<open>An agent that stays blocked in its place stays due until an attempt is recorded for it.\<close>

lemma entries_keep:
  assumes "i < length agents" "is_blocked (agents ! i)" "i < length (rv_entries r)" "en_active (rv_entries r ! i)"
    and "en_observed_position (rv_entries r ! i) = pa_position (agents ! i)"
  shows "entries_after agents tick opts r ! i = rv_entries r ! i"
  using assms by (simp add: entries_after_def observe_each_nth nth_append observe_entry_def)

lemma rounds_serve:
  assumes "recovery_rounds opts rounds r = Some found" "i < length (rv_entries r)" "en_active (rv_entries r ! i)"
    and "\<forall>(agents, tick, attempts) \<in> set rounds. length agents = n \<and> is_blocked (agents ! i)
      \<and> pa_position (agents ! i) = en_observed_position (rv_entries r ! i)
      \<and> en_next_tick (rv_entries r ! i) \<le> tick \<and> of_nat i \<notin> set attempts"
    and "i < n" "n < 2 ^ 63" "i = (unat (rv_scan_cursor r) + d) mod n" "d < n"
    and "d < length rounds * unat (ro_max_probes_per_tick opts)"
  shows "\<exists>due \<in> set found. of_nat i \<in> set due"
  using assms
proof (induction rounds arbitrary: r found d)
  case Nil
  then show ?case by simp
next
  case (Cons round rest)
  obtain agents tick attempts where round: "round = (agents, tick, attempts)" by (cases round)
  let ?m = "unat (ro_max_probes_per_tick opts)" and ?e = "rv_entries r ! i"
  have here: "length agents = n" "is_blocked (agents ! i)" "pa_position (agents ! i) = en_observed_position ?e"
    "en_next_tick ?e \<le> tick" "of_nat i \<notin> set attempts" using Cons.prems(4) round by auto
  then have "agents \<noteq> []" "length agents < 2 ^ 63" using Cons.prems(5,6) by auto
  then obtain stats r1 where c: "collect_due agents tick opts r = Some (stats, r1)"
    and due: "map unat (rv_due_indices r1) = take ?m (due_agents agents tick opts r)"
    and es: "rv_entries r1 = entries_after agents tick opts r"
    and cur: "unat (rv_scan_cursor r1) = (if rv_due_indices r1 = [] then unat (rv_scan_cursor r) mod length agents
       else (last (map unat (rv_due_indices r1)) + 1) mod length agents)"
    by (rule collect_due_found)
  let ?r2 = "fold (\<lambda>i. record_attempt i tick opts) attempts r1"
  obtain found' where found: "found = rv_due_indices r1 # found'" "recovery_rounds opts rest ?r2 = Some found'"
    using Cons.prems(1) c by (auto simp: round bind_eq_Some_conv)
  have ei: "entries_after agents tick opts r ! i = ?e"
    using here Cons.prems(2,3,5) by (intro entries_keep) simp_all
  have nz: "0 < n" "0 < ?m" using Cons.prems(5,9) by (auto intro: gr0I)
  show ?case
  proof (cases "of_nat i \<in> set (rv_due_indices r1)")
    case True
    then show ?thesis using found(1) by auto
  next
    case False
    have "i \<notin> set (map unat (rv_due_indices r1))"
      using False by auto
    then have "i \<notin> set (take ?m (filter (\<lambda>i. due_now tick (entries_after agents tick opts r ! i))
        (ring_from (unat (rv_scan_cursor r) mod n) n)))" by (simp add: due due_agents_def here(1))
    moreover have "due_now tick (entries_after agents tick opts r ! i)"
      using here(4) Cons.prems(3) by (simp add: ei due_now_def)
    moreover have "i = (unat (rv_scan_cursor r) mod n + d) mod n" using Cons.prems(7) by (simp add: mod_add_left_eq)
    ultimately obtain k where k: "?m \<le> k + 1" "k < d" "map unat (rv_due_indices r1) \<noteq> []"
      "last (map unat (rv_due_indices r1)) = (unat (rv_scan_cursor r) mod n + k) mod n"
      using scan_progress [OF nz(1) _ Cons.prems(8) _ nz(2)] unfolding due due_agents_def here(1) by metis
    from less_imp_Suc_add [OF k(2)] obtain d' where d': "d = Suc (k + d')" by blast
    from k have cur2: "unat (rv_scan_cursor r1) = (unat (rv_scan_cursor r) + k + 1) mod n"
      using cur by (simp add: here(1) mod_simps)
    have "unat j \<noteq> i" if "j \<in> set attempts" for j using here(5) that by auto
    then have e2: "rv_entries ?r2 ! i = ?e" by (simp add: record_attempts_other es ei)
    have "\<exists>due \<in> set found'. of_nat i \<in> set due"
    proof (rule Cons.IH [OF found(2)])
      show "i < length (rv_entries ?r2)"
        using entries_after_length [of agents tick opts r] here(1) Cons.prems(5) by (simp add: es)
      show "en_active (rv_entries ?r2 ! i)" using Cons.prems(3) by (simp add: e2)
      show "\<forall>(agents, tick, attempts) \<in> set rest. length agents = n \<and> is_blocked (agents ! i)
          \<and> pa_position (agents ! i) = en_observed_position (rv_entries ?r2 ! i)
          \<and> en_next_tick (rv_entries ?r2 ! i) \<le> tick \<and> of_nat i \<notin> set attempts"
        using Cons.prems(4) by (simp add: e2)
      show "i < n" "n < 2 ^ 63" using Cons.prems(5,6) .
      have "(unat (rv_scan_cursor r) + k + 1) + d' = unat (rv_scan_cursor r) + d" by (simp add: d')
      then show "i = (unat (rv_scan_cursor ?r2) + d') mod n"
        using Cons.prems(7) mod_add_left_eq [of "unat (rv_scan_cursor r) + k + 1" n d'] by (simp only: record_attempts_keep cur2)
      show "d' < n" using Cons.prems(8) by (simp add: d')
      show "d' < length rest * ?m" using Cons.prems(9) k(1) by (simp add: d')
    qed
    then show ?thesis using found(1) by auto
  qed
qed

lemma rounds_return:
  assumes "\<forall>(agents, tick, attempts) \<in> set rounds. agents \<noteq> [] \<and> length agents < 2 ^ 63"
  shows "\<exists>found. recovery_rounds opts rounds r = Some found
    \<and> (\<forall>due \<in> set found. length due \<le> unat (ro_max_probes_per_tick opts))"
  using assms
proof (induction rounds arbitrary: r)
  case Nil
  then show ?case by simp
next
  case (Cons round rest)
  obtain agents tick attempts where round: "round = (agents, tick, attempts)" by (cases round)
  then have "agents \<noteq> []" "length agents < 2 ^ 63" using Cons.prems by auto
  then obtain stats r1 where c: "collect_due agents tick opts r = Some (stats, r1)"
    and due: "map unat (rv_due_indices r1) = take (unat (ro_max_probes_per_tick opts)) (due_agents agents tick opts r)"
    by (rule collect_due_found)
  from Cons.prems Cons.IH [of "fold (\<lambda>i. record_attempt i tick opts) attempts r1"]
  obtain found where found: "recovery_rounds opts rest (fold (\<lambda>i. record_attempt i tick opts) attempts r1) = Some found"
    "\<forall>due \<in> set found. length due \<le> unat (ro_max_probes_per_tick opts)" by auto
  have "length (rv_due_indices r1) \<le> unat (ro_max_probes_per_tick opts)"
    using arg_cong [OF due, of length] by simp
  then show ?case using c found by (simp add: round)
qed

subsection \<open>Properties\<close>

text \<open>
  C26. The delay before the next check of a blocked agent is exact backoff with bounded jitter: the cap
  is \<open>initial * 2^attempt\<close> limited by the maximum, computed without overflow for every option and every
  attempt, and the delay lies between the upper half of the cap and the cap.
\<close>

theorem recovery_delay_is_backoff:
  fixes opts entry i
  defines "cap \<equiv> min (unat (ro_initial_delay_ticks opts) * 2 ^ unat (en_attempt entry)) (unat (ro_max_delay_ticks opts))"
  shows "unat (jittered_delay i entry opts) \<in> {cap - cap div 2..cap}"
  using jittered_delay_bounds [of entry opts i] by (simp add: cap_def delay_cap_exact)

text \<open>
  C17. Checks of blocked agents are bounded and fair. However many agents are blocked, a collection returns
  at most the configured number of indices; and an agent that is due, stays blocked where it is and
  for which no attempt is recorded is returned within \<open>n\<close> divided by that number of collections,
  rounded up, whatever the other agents do and whichever attempts are recorded.
\<close>

theorem recovery_serves_every_due_agent:
  assumes "i < n" "n < 2 ^ 63" "n \<le> length rounds * unat (ro_max_probes_per_tick opts)"
    and "i < length (rv_entries r)" "en_active (rv_entries r ! i)"
    and "\<forall>(agents, tick, attempts) \<in> set rounds. length agents = n \<and> is_blocked (agents ! i)
      \<and> pa_position (agents ! i) = en_observed_position (rv_entries r ! i)
      \<and> en_next_tick (rv_entries r ! i) \<le> tick \<and> of_nat i \<notin> set attempts"
  shows "\<exists>found. recovery_rounds opts rounds r = Some found
    \<and> (\<forall>due \<in> set found. length due \<le> unat (ro_max_probes_per_tick opts))
    \<and> (\<exists>due \<in> set found. of_nat i \<in> set due)"
proof -
  have "\<forall>(agents, tick, attempts) \<in> set rounds. agents \<noteq> [] \<and> length agents < 2 ^ 63"
    using assms(1,2,6) by fastforce
  then obtain found where found: "recovery_rounds opts rounds r = Some found"
    "\<forall>due \<in> set found. length due \<le> unat (ro_max_probes_per_tick opts)" using rounds_return by blast
  let ?c = "unat (rv_scan_cursor r)"
  obtain d where d: "d < n" "i = (?c + d) mod n"
  proof (rule that)
    have "?c mod n < n" using assms(1) by simp
    then have "?c mod n + (n - ?c mod n + i) = n + i" by linarith
    then have "(?c mod n + (n - ?c mod n + i)) mod n = i" using assms(1) by simp
    then show "i = (?c + (n - ?c mod n + i) mod n) mod n" by (simp add: mod_simps)
  qed (use assms(1) in simp)
  with assms(3) have "d < length rounds * unat (ro_max_probes_per_tick opts)" by linarith
  from rounds_serve [OF found(1) assms(4,5,6,1,2) d(2,1) this] found show ?thesis by blast
qed

definition waiting_agent :: path_agent where
  "waiting_agent = default_path_agent\<lparr>pa_phase := Blocked_phase, pa_has_goal := True\<rparr>"

lemma recovery_serves_every_due_agent_witness:
  "\<exists>found. recovery_rounds \<lparr>ro_initial_delay_ticks = 16, ro_max_delay_ticks = 256, ro_max_probes_per_tick = 1, ro_jitter_seed = 0\<rparr>
      [([waiting_agent, waiting_agent], 5, []), ([waiting_agent, waiting_agent], 6, [0])]
      \<lparr>rv_entries = replicate 2 (default_entry\<lparr>en_active := True\<rparr>), rv_due_indices = [], rv_scan_cursor = 0\<rparr> = Some found
    \<and> (\<exists>due \<in> set found. 1 \<in> set due)"
proof -
  let ?rounds = "[([waiting_agent, waiting_agent], 5, []), ([waiting_agent, waiting_agent], 6, [0])]
    :: (path_agent list \<times> u64 \<times> u64 list) list"
  let ?r = "\<lparr>rv_entries = replicate 2 (default_entry\<lparr>en_active := True\<rparr>), rv_due_indices = [], rv_scan_cursor = 0\<rparr>"
  let ?o = "\<lparr>ro_initial_delay_ticks = 16, ro_max_delay_ticks = 256, ro_max_probes_per_tick = 1, ro_jitter_seed = 0\<rparr>"
  have "(1 :: nat) < 2" "(2 :: nat) < 2 ^ 63" "2 \<le> length ?rounds * unat (ro_max_probes_per_tick ?o)"
    "1 < length (rv_entries ?r)" "en_active (rv_entries ?r ! 1)" by simp_all
  moreover have "\<forall>(agents, tick, attempts) \<in> set ?rounds. length agents = 2 \<and> is_blocked (agents ! 1)
      \<and> pa_position (agents ! 1) = en_observed_position (rv_entries ?r ! 1)
      \<and> en_next_tick (rv_entries ?r ! 1) \<le> tick \<and> of_nat 1 \<notin> set attempts"
    by (simp add: waiting_agent_def is_blocked_def default_entry_def default_path_agent_def)
  ultimately have "\<exists>found. recovery_rounds ?o ?rounds ?r = Some found
      \<and> (\<forall>due \<in> set found. length due \<le> unat (ro_max_probes_per_tick ?o)) \<and> (\<exists>due \<in> set found. of_nat 1 \<in> set due)"
    by (rule recovery_serves_every_due_agent)
  then show ?thesis by auto
qed

end
