(* ===== verification/Exact_Replans.thy ===== *)
theory Exact_Replans imports Search_Weighted Replan_Queue begin

text \<open>
  \<open>process_weighted_path_agent_replans\<close> of \<open>sim/path_agent_tick.h\<close>: the drain of the replan queue
  with the minimum-cost search as its callback. Every agent whose turn comes leaves with an exact
  verdict on its goal.
\<close>

record path_agent_replan_options =
  rp_max_requests :: u64
  rp_missing_chunk_policy :: missing_chunk_policy
  rp_equal_cost_tie_seed :: u64

definition replan_tie_break :: "path_agent_replan_options \<Rightarrow> u64 \<Rightarrow> path_tie_break" where
  "replan_tie_break opts index =
     (if rp_equal_cost_tie_seed opts \<noteq> 0
      then let seed = rp_equal_cost_tie_seed opts + index + 1
           in PathTieBreak (if seed = 0 then rp_equal_cost_tie_seed opts else seed)
      else PathTieBreak 0)"

text \<open>The callback; a search that would crash counts as one that throws.\<close>

definition weighted_replan_search ::
    "('t, 'w) tile_api \<Rightarrow> 't movement_class \<Rightarrow> 'w node_space \<Rightarrow> 'w \<Rightarrow> path_agent_replan_options \<Rightarrow> path_scratch path_search" where
  "weighted_replan_search A cls N w opts index q sc =
     (case weighted_astar_path A cls N AdjacentTransitions w (rp_missing_chunk_policy opts) (replan_tie_break opts index) q sc of
        None \<Rightarrow> (None, sc)
      | Some (r, sc') \<Rightarrow> (Some r, sc'))"

definition process_weighted_path_agent_replans ::
    "('t, 'w) tile_api \<Rightarrow> 't movement_class \<Rightarrow> 'w node_space \<Rightarrow> 'w \<Rightarrow> path_agent list \<Rightarrow> path_agent_routes
     \<Rightarrow> replan_queue \<Rightarrow> path_scratch \<Rightarrow> path_agent_replan_options \<Rightarrow> flow_accounting option
     \<Rightarrow> (bool \<times> path_scratch replan_state) option" where
  "process_weighted_path_agent_replans A cls N w agents routes q sc opts acct =
     process_path_agent_replans (weighted_replan_search A cls N w opts) (rp_max_requests opts) agents routes q acct sc"

subsection \<open>Searches that answer\<close>

text \<open>What an answered turn does to an agent and its route.\<close>

definition replanned ::
    "(path_request \<Rightarrow> path_result \<Rightarrow> bool) \<Rightarrow> path_agent \<Rightarrow> coord3 list \<Rightarrow> path_agent \<Rightarrow> coord3 list \<Rightarrow> bool" where
  "replanned good a route a' route' \<longleftrightarrow>
     (if \<not> path_agent_goal_outstanding a then a' = a \<and> route' = route
      else if pa_position a = pa_goal a then a' = clear_path_agent_goal a \<and> route' = []
      else \<exists>found. good \<lparr>pq_start = pa_position a, pq_goal = pa_goal a\<rparr> found \<and> (a', route') = commit_replan found a)"

locale answering_search =
  fixes search :: "'c path_search" and ok :: "'c \<Rightarrow> bool" and good :: "path_request \<Rightarrow> path_result \<Rightarrow> bool"
  assumes answers: "ok c \<Longrightarrow> \<exists>found c'. search i q c = (Some found, c') \<and> ok c' \<and> good q found"
begin

lemma item_answered:
  assumes "length (rs_agents r) \<le> length (rs_routes r)" "ok (rs_search r)"
  shows "\<exists>r1. replan_item search i r = Some (ItemServed r1) \<and> ok (rs_search r1)
    \<and> (unat i < length (rs_agents r) \<longrightarrow> replanned good (rs_agents r ! unat i) (rs_routes r ! unat i)
         (rs_agents r1 ! unat i) (rs_routes r1 ! unat i))
    \<and> (\<forall>j. j \<noteq> unat i \<longrightarrow> rs_routes r1 ! j = rs_routes r ! j)"
proof (cases "unat i < length (rs_agents r)")
  case False
  then show ?thesis using assms(2) by (simp add: replan_item_def)
next
  case True
  let ?a = "rs_agents r ! unat i"
  let ?q = "\<lparr>pq_start = pa_position ?a, pq_goal = pa_goal ?a\<rparr>"
  have get: "nth_opt (rs_agents r) (unat i) = Some ?a" "unat i < length (rs_routes r)" using True assms(1) by simp_all
  show ?thesis
  proof (cases "\<not> path_agent_goal_outstanding ?a")
    case out: True
    then show ?thesis
      using True assms(2) by (simp add: replan_item_def nth_opt_in path_agent_goal_outstanding_def replanned_def)
  next
    case False
    then have live: "\<not> (\<not> pa_has_goal ?a \<or> pa_phase ?a = Unreachable)" by (simp add: path_agent_goal_outstanding_def)
    show ?thesis
    proof (cases "pa_position ?a = pa_goal ?a")
      case there: True
      then show ?thesis
        using True get(2) assms(2) live False
        by (simp add: replan_item_def nth_opt_in arrive_path_agent_def upd_opt_def replanned_def)
    next
      case far: False
      obtain found c where f: "search i ?q (rs_search r) = (Some found, c)" "ok c" "good ?q found"
        using answers [OF assms(2)] by blast
      obtain a1 route where c: "commit_replan found ?a = (a1, route)" by (cases "commit_replan found ?a")
      then have "replanned good ?a (rs_routes r ! unat i) a1 route"
        using False far f(3) by (auto simp: replanned_def)
      then show ?thesis
        using True get(2) live far f(1,2) c
        by (simp add: replan_item_def nth_opt_in upd_opt_def Let_def)
    qed
  qed
qed

definition answered :: "u64 list \<Rightarrow> 'c replan_state \<Rightarrow> 'c replan_state \<Rightarrow> bool" where
  "answered served r r' \<longleftrightarrow> waiting (rs_queue r) = served @ waiting (rs_queue r')
     \<and> length (rs_agents r') = length (rs_agents r)
     \<and> (\<forall>j < length (rs_agents r). if j \<in> unat ` set served
         then replanned good (rs_agents r ! j) (rs_routes r ! j) (rs_agents r' ! j) (rs_routes r' ! j)
         else rs_agents r' ! j = rs_agents r ! j \<and> rs_routes r' ! j = rs_routes r ! j)"

lemma turn_answered:
  assumes "drain_ok r" "drain_ok r0" "ok (rs_search r0)" "answered served r r0" "replan_turn search m r0 r1"
  shows "drain_ok r1 \<and> ok (rs_search r1) \<and> (\<exists>served'. answered served' r r1)"
  using assms(5)
proof cases
  case (turn i r1' q)
  have len: "length (rs_agents r0) \<le> length (rs_routes r0)" using assms(2) by (simp add: drain_ok_def)
  have item: "ok (rs_search r1')" "unat i < length (rs_agents r0) \<Longrightarrow> replanned good (rs_agents r0 ! unat i)
      (rs_routes r0 ! unat i) (rs_agents r1' ! unat i) (rs_routes r1' ! unat i)"
    using item_answered [OF len assms(3), of i] turn(5) by auto
  have same: "length (rs_agents r1') = length (rs_agents r0)" using replan_item_cases [OF len, of search i] turn(5) by auto
  have next_state: "drain_ok r1" "waiting (rs_queue r0) = i # waiting q"
    "\<forall>j. j \<noteq> unat i \<longrightarrow> rs_agents r1' ! j = rs_agents r0 ! j \<and> rs_routes r1' ! j = rs_routes r0 ! j"
    using turn_facts [OF assms(2) turn(4,5)] turn(1,6) by auto
  have w: "waiting (rs_queue r) = (served @ [i]) @ waiting q" using assms(4) next_state(2) by (simp add: answered_def)
  moreover have "distinct (waiting (rs_queue r))" using assms(1) by (simp add: drain_ok_def queue_ok_def)
  ultimately have new: "unat i \<notin> unat ` set served" by (auto simp: u64_eq_nat [symmetric])
  have "answered (served @ [i]) r r1"
    unfolding answered_def
  proof (intro conjI allI impI)
    fix j assume j: "j < length (rs_agents r)"
    then have jl: "j < length (rs_agents r0)" using assms(4) by (simp add: answered_def)
    show "if j \<in> unat ` set (served @ [i])
         then replanned good (rs_agents r ! j) (rs_routes r ! j) (rs_agents r1 ! j) (rs_routes r1 ! j)
         else rs_agents r1 ! j = rs_agents r ! j \<and> rs_routes r1 ! j = rs_routes r ! j"
    proof (cases "j = unat i")
      case True
      then have "rs_agents r0 ! j = rs_agents r ! j \<and> rs_routes r0 ! j = rs_routes r ! j"
        using assms(4) j new by (simp add: answered_def)
      then show ?thesis using item(2) jl True turn(1) by simp
    next
      case False
      then show ?thesis using assms(4) j next_state(3) turn(1) by (simp add: answered_def)
    qed
  qed (use w turn(1) same assms(4) in \<open>simp_all add: answered_def\<close>)
  then show ?thesis using next_state(1) item(1) turn(1) by auto
qed

lemma turns_answered:
  assumes "(replan_turn search m)\<^sup>*\<^sup>* r r0" "drain_ok r" "ok (rs_search r)"
  shows "drain_ok r0 \<and> ok (rs_search r0) \<and> (\<exists>served. answered served r r0)"
  using assms(1)
proof induction
  case base
  have "answered [] r r" by (simp add: answered_def)
  then show ?case using assms(2,3) by blast
next
  case (step r1 r2)
  then show ?case using turn_answered [OF assms(2)] by blast
qed

lemma loop_answered:
  assumes "drain_ok r" "ok (rs_search r)"
  shows "\<exists>r' served. replan_loop search m r = Some (True, r') \<and> ok (rs_search r') \<and> answered served r r'
    \<and> (waiting (rs_queue r') = [] \<or> m \<le> ps_submitted (rs_frame r'))"
proof -
  obtain b r' r0 where d: "replan_loop search m r = Some (b, r')" "(replan_turn search m)\<^sup>*\<^sup>* r r0"
    "if b then r' = r0 \<and> (waiting (rs_queue r0) = [] \<or> m \<le> ps_submitted (rs_frame r0))
     else \<exists>i rest c. waiting (rs_queue r0) = i # rest \<and> r' = r0\<lparr>rs_search := c\<rparr>
       \<and> search i \<lparr>pq_start = pa_position (rs_agents r0 ! unat i), pq_goal = pa_goal (rs_agents r0 ! unat i)\<rparr> (rs_search r0) = (None, c)"
    using replan_loop_drains [OF assms(1), where search = search and m = m] by blast
  note t = turns_answered [OF d(2) assms]
  have b
    using d(3) answers [OF conjunct1 [OF conjunct2 [OF t]]] by (auto split: if_splits) (metis option.distinct(1) prod.inject)
  then show ?thesis using d(1,3) t by auto
qed

end

subsection \<open>The search answers\<close>

definition exact_for ::
    "('t, 'w) tile_api \<Rightarrow> 't movement_class \<Rightarrow> 'w \<Rightarrow> path_agent_replan_options \<Rightarrow> path_request \<Rightarrow> path_result \<Rightarrow> bool" where
  "exact_for A cls w opts q found \<longleftrightarrow>
     exact_answer A cls AdjacentTransitions w (rp_missing_chunk_policy opts) (pq_start q) (pq_goal q) found"

lemma adjacent_provider_answers: "provider_forward AdjacentTransitions w c \<noteq> None"
  by (simp add: provider_forward_def)

interpretation dense_replans: answering_search "weighted_replan_search (dense_api s fs) cls (dense_space s) w opts"
    "\<lambda>sc. scratch_ok sc \<and> valid_shape s \<and> dense_inv s fs w \<and> mover_ok s fs cls \<and> dense_fits s"
    "exact_for (dense_api s fs) cls w opts"
  for s and fs :: "('t, int) schema" and cls w opts
proof unfold_locales
  fix sc i q
  assume "scratch_ok sc \<and> valid_shape s \<and> dense_inv s fs w \<and> mover_ok s fs cls \<and> dense_fits s"
  then have "\<exists>r sc'. weighted_astar_path (dense_api s fs) cls (dense_space s) AdjacentTransitions w
      (rp_missing_chunk_policy opts) (replan_tie_break opts i) q sc = Some (r, sc')
    \<and> exact_answer (dense_api s fs) cls AdjacentTransitions w (rp_missing_chunk_policy opts) (pq_start q) (pq_goal q) r
    \<and> scratch_ok sc'"
    by (intro dense_search.weighted_exact) (simp_all add: dense_tile_res adjacent_provider_answers)
  then show "\<exists>found c'. weighted_replan_search (dense_api s fs) cls (dense_space s) w opts i q sc = (Some found, c')
      \<and> (scratch_ok c' \<and> valid_shape s \<and> dense_inv s fs w \<and> mover_ok s fs cls \<and> dense_fits s)
      \<and> exact_for (dense_api s fs) cls w opts q found"
    using \<open>scratch_ok sc \<and> _\<close> by (auto simp: weighted_replan_search_def exact_for_def)
qed

interpretation sparse_replans: answering_search "weighted_replan_search (sparse_api s fs) cls (sparse_space s) w opts"
    "\<lambda>sc. scratch_ok sc \<and> sparse_ok s fs w \<and> mover_ok s fs cls \<and> sparse_fits s w"
    "exact_for (sparse_api s fs) cls w opts"
  for s and fs :: "('t, int) schema" and cls w opts
proof unfold_locales
  fix sc i q
  assume "scratch_ok sc \<and> sparse_ok s fs w \<and> mover_ok s fs cls \<and> sparse_fits s w"
  then have "\<exists>r sc'. weighted_astar_path (sparse_api s fs) cls (sparse_space s) AdjacentTransitions w
      (rp_missing_chunk_policy opts) (replan_tie_break opts i) q sc = Some (r, sc')
    \<and> exact_answer (sparse_api s fs) cls AdjacentTransitions w (rp_missing_chunk_policy opts) (pq_start q) (pq_goal q) r
    \<and> scratch_ok sc'"
    by (intro sparse_search.weighted_exact) (simp_all add: adjacent_provider_answers)
  then show "\<exists>found c'. weighted_replan_search (sparse_api s fs) cls (sparse_space s) w opts i q sc = (Some found, c')
      \<and> (scratch_ok c' \<and> sparse_ok s fs w \<and> mover_ok s fs cls \<and> sparse_fits s w)
      \<and> exact_for (sparse_api s fs) cls w opts q found"
    using \<open>scratch_ok sc \<and> _\<close> by (auto simp: weighted_replan_search_def exact_for_def)
qed

text \<open>
  C16. Replanning is exact from the queue to the route. Draining the queue with the weighted search
  returns without an exception on every sparse world, whatever earlier searches left in the scratch and whatever
  seed breaks ties; it serves a prefix of the queue, all of it unless the budget is spent. A served
  agent with an outstanding goal either stands on it and has arrived, or leaves with the exact
  verdict: a found route is retained and is a cheapest one from its position to its goal, any other
  verdict blocks it with an empty route. All other agents and routes are untouched.
\<close>

theorem replans_are_exact:
  fixes w :: "int sparse_world" and fs :: "('t, int) schema"
  assumes "sparse_ok s fs w" "mover_ok s fs cls" "sparse_fits s w" "scratch_ok sc" "queue_ok q"
  shows "\<exists>r served. process_weighted_path_agent_replans (sparse_api s fs) cls (sparse_space s) w agents routes q sc opts acct
      = Some (True, r)
    \<and> waiting q = served @ waiting (rs_queue r)
    \<and> (waiting (rs_queue r) = [] \<or> rp_max_requests opts \<le> ps_submitted (rs_frame r))
    \<and> (\<forall>j < length agents. if j \<in> unat ` set served
         then replanned (exact_for (sparse_api s fs) cls w opts) (agents ! j)
           (routes_ensure_size (length agents) routes ! j) (rs_agents r ! j) (rs_routes r ! j)
         else rs_agents r ! j = agents ! j \<and> rs_routes r ! j = routes_ensure_size (length agents) routes ! j)"
proof -
  let ?r = "drain_start agents routes q acct sc"
  have "scratch_ok (rs_search ?r) \<and> sparse_ok s fs w \<and> mover_ok s fs cls \<and> sparse_fits s w"
    using assms by (simp add: drain_start_def)
  note run = sparse_replans.loop_answered [OF drain_start_ok [OF assms(5)] this, where m = "rp_max_requests opts" and opts = opts]
  have start: "rs_agents ?r = agents" "rs_routes ?r = routes_ensure_size (length agents) routes" "rs_queue ?r = q"
    by (simp_all add: drain_start_def)
  show ?thesis
    using run unfolding process_weighted_path_agent_replans_def process_eq sparse_replans.answered_def start by blast
qed

lemma replans_are_exact_witness:
  "\<exists>r served. process_weighted_path_agent_replans (sparse_api small_shape small_schema) small_walk (sparse_space small_shape)
      small_sparse one_agent [] one_waiting new_scratch
      \<lparr>rp_max_requests = 8, rp_missing_chunk_policy = ReportIndeterminate, rp_equal_cost_tie_seed = 7\<rparr> None = Some (True, r)
    \<and> [0] = served @ waiting (rs_queue r)"
proof -
  have "sw_capacity small_sparse = 4" "local_tile_count small_shape = 4" by (code_simp, code_simp)
  then have "sparse_fits small_shape small_sparse" by (simp add: sparse_fits_def)
  from replans_are_exact [OF small_sparse_ok small_mover this new_scratch_ok one_waiting_ok(1)]
  show ?thesis unfolding one_waiting_ok(2) by blast
qed

end
