(* ===== verification/Spec2Isabelle.thy ===== *)
theory Spec2Isabelle
  imports UInt128 Shape Shape_Keys Chunk_Meta Chunk_Page Dense_World Render_Delta
    Chunk_Directory LRU_List Sparse_World Flow_Accounting Event_Stream Async_Work
    Schedule Schedule_Props Tile_World Movement_Class Transition_Model Transition_Geometry
    Transition_Edges Stair_Transitions Transition_Costs Transition_Props
    Mover_Worlds Movement Path_Types Path_Agent Path_Agent_Tick Path_Agent_Laws Path_Agent_Props
    Crowd Movement_Props Replan_Queue Best_First Open_Node Path_Search Search_Space Search_Laws
    Search_Loop Search_Exact Search_Direct Search_Straight Search_Weighted Path_Search_Props
    Joint_Move Joint_Laws Joint_Round Joint_Stages Joint_Cycles Joint_Decide Joint_World Joint_Apply Joint_Outcome
    Joint_Props Agent_Recovery Exact_Replans
begin

text \<open>
  Verification of tess, a header-only C++ library for pathfinding and simulation on grid worlds.
  This development models the deterministic core of \<open>src/include/tess\<close> and proves what makes it
  correct. Every definition follows the C++ function it is named after.

  \<^bold>\<open>The program.\<close> A world is a grid of tiles, cut into chunks (\<open>core/shape.h\<close>). Either all chunks are
  resident (\<open>storage/world.h\<close>) or a bounded number of them is, found through a hash directory and
  evicted in least-recently-used order (\<open>storage/sparse_world.h\<close>). Each chunk carries a page of field
  values and a metadata entry with dirty masks, dirty bounds and versions (\<open>storage/chunk_page.h\<close>,
  \<open>storage/chunk_meta.h\<close>), from which renderers and caches learn what changed
  (\<open>sim/render_delta.h\<close>). A movement class and a step policy turn field values into legal steps and
  their prices (\<open>topology/\<close>). Agents hold goals, ask for paths, follow them, and move by commits that
  check occupancy (\<open>sim/movement.h\<close>, \<open>sim/path_agent.h\<close>, \<open>sim/path_agent_tick.h\<close>), one by one or, so that queues and
  rings can move, jointly (\<open>sim/joint_movement.h\<close>). A fixed-tick
  schedule runs tasks in phases (\<open>sim/schedule.h\<close>), with bounded event streams
  (\<open>sim/event_stream.h\<close>), a cooperative queue of deferred work (\<open>ops/async_work.h\<close>) and accountants
  that check that nothing admitted is lost (\<open>diagnostics/diagnostics.h\<close>).

  \<^bold>\<open>Conventions.\<close> Unsigned integers are words of their width, so they wrap; \<open>int64_t\<close> is a word read
  with \<^const>\<open>sint\<close>. A struct is a record, an enumeration a datatype, a \<open>std::vector\<close> a list. A failed
  assertion, \<open>fail_fast\<close>, undefined behaviour and a throw that leaves the function are \<^const>\<open>None\<close>; a
  throw the code handles is a value. What a template takes as a type parameter (a world, a
  provider, a payload, a callback) is an argument of the definitions.

  \<^bold>\<open>Theories, bottom up.\<close>
    \<^item> \<open>Tess_Prelude\<close>: integer types, checked list access, aborting loops, and the lemmas on them.
    \<^item> \<open>UInt128\<close>, \<open>Shape\<close>, \<open>Shape_Keys\<close>: \<open>core/uint128.h\<close>, \<open>core/lattice.h\<close>, \<open>core/shape.h\<close>. Arithmetic is
      exact, containment and distances agree with the integers, every tile has one key and back.
    \<^item> \<open>Chunk_Meta\<close>, \<open>Chunk_Page\<close>, \<open>Dense_World\<close>: the dirty protocol and the always-resident world. A
      world is a map from fields and tiles to values; an observed clear never loses a later mark.
    \<^item> \<open>Render_Delta\<close>: the tiles reported are exactly those of the dirty bounds of matching chunks.
    \<^item> \<open>Chunk_Directory\<close>, \<open>LRU_List\<close>, \<open>Sparse_World\<close>: open addressing refines a map, the linked list
      refines a sequence, and the sparse world refines a cache that evicts the least recently
      used chunk; stale handles and stale observations are refused.
    \<^item> \<open>Flow_Accounting\<close>, \<open>Event_Stream\<close>, \<open>Async_Work\<close>, \<open>Schedule\<close>, \<open>Schedule_Props\<close>: bounded flows, the
      contract with their accountant (locale \<open>accounted_flow\<close>, interpreted for streams, the work
      queue and agent goals), life cycle of tickets, phase order and triggers of the schedule.
    \<^item> \<open>Tile_World\<close>: the calls the movement headers make on a world as the record \<open>world_api\<close>, their
      laws as the locale \<open>tile_world\<close>, interpreted for both worlds.
    \<^item> \<open>Movement_Class\<close>, \<open>Transition_Model\<close>, \<open>Transition_Geometry\<close>, \<open>Transition_Edges\<close>,
      \<open>Stair_Transitions\<close>, \<open>Transition_Costs\<close>, \<open>Mover_Worlds\<close>, \<open>Transition_Props\<close>: which steps exist and
      what they cost (\<open>topology/movement_class.h\<close>, \<open>topology/transition_model.h\<close>,
      \<open>topology/transition_provider.h\<close>). Locale \<open>mover_world\<close> adds a movement class to a world; both
      enumerations agree, and the heuristic is consistent.
    \<^item> \<open>Movement\<close>, \<open>Crowd\<close>, \<open>Movement_Props\<close>: validation and commit of movement intents, the exactness of
      occupancy, and that agents never share a tile (locale \<open>crowd_world\<close>).
    \<^item> \<open>Path_Types\<close>, \<open>Path_Agent\<close>, \<open>Path_Agent_Tick\<close>, \<open>Path_Agent_Laws\<close>, \<open>Path_Agent_Props\<close>,
      \<open>Replan_Queue\<close>: requests, agents and their life cycle, retries, replanning.

    \<^item> \<open>Open_Node\<close>, \<open>Path_Search\<close>: the minimum-cost search of \<open>path/detail/astar.h\<close> with the open list
      and scratch of \<open>path/path.h\<close> and the index spaces of \<open>path/node_index_space.h\<close>. \<open>Best_First\<close> is the
      abstract search (locale \<open>best_first\<close>), \<open>Search_Space\<close> the contract of a searchable world (locale
      \<open>search_world\<close>, interpreted for both worlds, of which \<open>best_first\<close> is a sublocale),
      \<open>Search_Laws\<close>, \<open>Search_Loop\<close> and \<open>Search_Exact\<close> couple the arrays with the abstract search, and
      \<open>Search_Direct\<close>, \<open>Search_Straight\<close>, \<open>Search_Weighted\<close> treat the straight and once bent routes tried
      first. \<open>Path_Search_Props\<close>: every request is answered, and exactly.
    \<^item> \<open>Joint_Move\<close>: \<open>sim/joint_movement.h\<close>, a tick's moves decided as a set. \<open>Joint_Laws\<close> states what an
      admission promises without the buffers, \<open>Joint_Round\<close>, \<open>Joint_Stages\<close>, \<open>Joint_Cycles\<close> and
      \<open>Joint_Decide\<close> show that the stages of a round decide one, \<open>Joint_World\<close>, \<open>Joint_Apply\<close> and
      \<open>Joint_Outcome\<close> (locale \<open>joint_world\<close>, which extends \<open>crowd_world\<close>) what it does to a world.
      \<open>Joint_Props\<close>: agents stay apart, and a round moves exactly whom it should.
    \<^item> \<open>Agent_Recovery\<close>: the schedule of checks of blocked agents (\<open>sim/path_agent_tick.h\<close>): the delays are
      bounded backoff, and no due agent is passed over for ever. \<open>Exact_Replans\<close>: the replan queue drained by
      the minimum-cost search (locale \<open>answering_search\<close>, interpreted for both worlds).

  \<^bold>\<open>Bounds.\<close> No theorem bounds the size of a world beyond the static assertions of the sources
  (\<^term>\<open>valid_shape\<close>). Loops are structural recursion, or recursion with a proved measure; the
  loops of the search are partial functions, and \<open>Path_Search_Props\<close> proves that they return.

  \<^bold>\<open>Not modelled.\<close> Floating-point code (\<open>FixedStepAccumulator\<close>, float fields), thread pools and
  executors (\<open>sim/scheduler.h\<close>, \<open>sim/auto_exec.h\<close>), diagnostics output, engine and GPU adapters
  (third-party interfaces), and, not reached: the minimum-step search, distance fields and path caches, the region graph
  (\<open>topology/topology.h\<close>), queued operations (\<open>ops/queued.h\<close>), the tick drivers of
  path agents, movement by priority (\<open>sim/pibt_movement.h\<close>), result channels, delta frames, persistence,
  spatial queries and maintenance.
\<close>

end
